(* ===== verification/RT_Prelude.thy ===== *)
theory RT_Prelude
  imports Main "HOL-Library.Word" "HOL-Library.Monad_Syntax"
begin

text \<open>
  Shared base of the development: the constants of \<^verbatim>\<open>include/rtdef.h\<close> the kernel
  components use, the result conventions, and the generic lemmas on words, lists and options
  that carry the component proofs.

  Conventions. A kernel operation that contains an \<^verbatim>\<open>RT_ASSERT\<close> (or dereferences a
  pointer that may be null, or loops) returns an \<open>option\<close>: \<open>None\<close> stands for an
  execution whose assertion is violated or that never returns. Error codes are the values of
  \<^verbatim>\<open>rt_err_t\<close>, a signed integer: the positive codes below, negated on the return path as
  in the source.
\<close>

unbundle bit_operations_syntax

section \<open>Types and constants\<close>

type_synonym u8 = "8 word"
type_synonym u16 = "16 word"
type_synonym u32 = "32 word"
type_synonym rt_tick_t = "32 word"
type_synonym rt_err_t = int

abbreviation (input) RT_EOK :: rt_err_t where "RT_EOK \<equiv> 0"
abbreviation (input) RT_ERROR :: rt_err_t where "RT_ERROR \<equiv> 1"
abbreviation (input) RT_ETIMEOUT :: rt_err_t where "RT_ETIMEOUT \<equiv> 2"
abbreviation (input) RT_EFULL :: rt_err_t where "RT_EFULL \<equiv> 3"
abbreviation (input) RT_EEMPTY :: rt_err_t where "RT_EEMPTY \<equiv> 4"
abbreviation (input) RT_ENOMEM :: rt_err_t where "RT_ENOMEM \<equiv> 5"
abbreviation (input) RT_ENOSYS :: rt_err_t where "RT_ENOSYS \<equiv> 6"
abbreviation (input) RT_EINTR :: rt_err_t where "RT_EINTR \<equiv> 9"
abbreviation (input) RT_EINVAL :: rt_err_t where "RT_EINVAL \<equiv> 10"

abbreviation (input) RT_TICK_MAX :: rt_tick_t where "RT_TICK_MAX \<equiv> 0xffffffff"
abbreviation (input) RT_THREAD_PRIORITY_MAX :: nat where "RT_THREAD_PRIORITY_MAX \<equiv> 32"
abbreviation (input) RT_NAME_MAX :: nat where "RT_NAME_MAX \<equiv> 12"

abbreviation (input) RT_THREAD_INIT :: u8 where "RT_THREAD_INIT \<equiv> 0"
abbreviation (input) RT_THREAD_CLOSE :: u8 where "RT_THREAD_CLOSE \<equiv> 1"
abbreviation (input) RT_THREAD_READY :: u8 where "RT_THREAD_READY \<equiv> 2"
abbreviation (input) RT_THREAD_RUNNING :: u8 where "RT_THREAD_RUNNING \<equiv> 3"
abbreviation (input) RT_THREAD_SUSPEND_MASK :: u8 where "RT_THREAD_SUSPEND_MASK \<equiv> 4"
abbreviation (input) RT_THREAD_SUSPEND :: u8 where "RT_THREAD_SUSPEND \<equiv> 4"
abbreviation (input) RT_THREAD_SUSPEND_INTERRUPTIBLE :: u8
  where "RT_THREAD_SUSPEND_INTERRUPTIBLE \<equiv> 4"
abbreviation (input) RT_THREAD_SUSPEND_KILLABLE :: u8 where "RT_THREAD_SUSPEND_KILLABLE \<equiv> 6"
abbreviation (input) RT_THREAD_SUSPEND_UNINTERRUPTIBLE :: u8
  where "RT_THREAD_SUSPEND_UNINTERRUPTIBLE \<equiv> 7"
abbreviation (input) RT_THREAD_STAT_MASK :: u8 where "RT_THREAD_STAT_MASK \<equiv> 7"
abbreviation (input) RT_THREAD_STAT_YIELD :: u8 where "RT_THREAD_STAT_YIELD \<equiv> 8"
abbreviation (input) RT_THREAD_STAT_YIELD_MASK :: u8 where "RT_THREAD_STAT_YIELD_MASK \<equiv> 8"

abbreviation (input) RT_TIMER_FLAG_DEACTIVATED :: u8 where "RT_TIMER_FLAG_DEACTIVATED \<equiv> 0"
abbreviation (input) RT_TIMER_FLAG_ACTIVATED :: u8 where "RT_TIMER_FLAG_ACTIVATED \<equiv> 1"
abbreviation (input) RT_TIMER_FLAG_PROCESSING :: u8 where "RT_TIMER_FLAG_PROCESSING \<equiv> 2"
abbreviation (input) RT_TIMER_FLAG_ONE_SHOT :: u8 where "RT_TIMER_FLAG_ONE_SHOT \<equiv> 0"
abbreviation (input) RT_TIMER_FLAG_PERIODIC :: u8 where "RT_TIMER_FLAG_PERIODIC \<equiv> 4"
abbreviation (input) RT_TIMER_FLAG_SOFT_TIMER :: u8 where "RT_TIMER_FLAG_SOFT_TIMER \<equiv> 8"
abbreviation (input) RT_TIMER_FLAG_THREAD_TIMER :: u8 where "RT_TIMER_FLAG_THREAD_TIMER \<equiv> 0x10"

abbreviation (input) RT_IPC_FLAG_FIFO :: u8 where "RT_IPC_FLAG_FIFO \<equiv> 0"
abbreviation (input) RT_IPC_FLAG_PRIO :: u8 where "RT_IPC_FLAG_PRIO \<equiv> 1"

section \<open>Alignment\<close>

text \<open>\<^verbatim>\<open>RT_ALIGN(size, RT_ALIGN_SIZE)\<close> and \<^verbatim>\<open>RT_ALIGN_DOWN(size, RT_ALIGN_SIZE)\<close>,
  with the alignment of 8 of the configuration.\<close>

definition rt_align :: "u32 \<Rightarrow> u32" where
  "rt_align sz = (sz + 7) AND NOT 7"

definition rt_align_down :: "u32 \<Rightarrow> u32" where
  "rt_align_down sz = sz AND NOT 7"

section \<open>Assertions\<close>

definition rt_assert :: "bool \<Rightarrow> unit option" where
  "rt_assert b = (if b then Some () else None)"

lemma rt_assert_simps [simp]:
  "rt_assert True = Some ()"
  "rt_assert False = None"
  "rt_assert b = Some u \<longleftrightarrow> b"
  by (simp_all add: rt_assert_def)

lemma rt_assert_bind [simp]: "(rt_assert b \<bind> f) = Some r \<longleftrightarrow> b \<and> f () = Some r"
  by (simp add: rt_assert_def)

section \<open>Total correctness of an operation\<close>

text \<open>\<open>wp m Q\<close>: the operation \<open>m\<close> returns, without a violated assertion, and its result
  satisfies \<open>Q\<close>. The rules compute it along the \<open>do\<close> notation.\<close>

definition wp :: "'a option \<Rightarrow> ('a \<Rightarrow> bool) \<Rightarrow> bool" where
  "wp m Q \<longleftrightarrow> (\<exists>x. m = Some x \<and> Q x)"

lemma wp_simps [simp]:
  "wp (Some x) Q = Q x"
  "wp None Q = False"
  "wp (rt_assert b) Q' = (b \<and> Q' ())"
  "wp (Option.bind m f) Q'' = wp m (\<lambda>x. wp (f x) Q'')"
  by (auto simp: wp_def bind_eq_Some_conv)

lemma wp_if [simp]: "wp (if b then m else m') Q = (if b then wp m Q else wp m' Q)"
  by simp

lemma wp_case_prod [simp]: "wp (case x of (a, b) \<Rightarrow> m a b) Q = (case x of (a, b) \<Rightarrow> wp (m a b) Q)"
  by (simp split: prod.split)

lemma wp_Let [simp]: "wp (Let x f) Q = wp (f x) Q"
  by simp

lemma wp_mono: "wp m P \<Longrightarrow> (\<And>x. P x \<Longrightarrow> Q x) \<Longrightarrow> wp m Q"
  by (auto simp: wp_def)

lemma wp_conj: "wp m P \<Longrightarrow> wp m Q \<Longrightarrow> wp m (\<lambda>x. P x \<and> Q x)"
  by (auto simp: wp_def)

lemma wpI: "m = Some x \<Longrightarrow> Q x \<Longrightarrow> wp m Q"
  by (auto simp: wp_def)

lemma wpE: "wp m Q \<Longrightarrow> (\<And>x. m = Some x \<Longrightarrow> Q x \<Longrightarrow> thesis) \<Longrightarrow> thesis"
  by (auto simp: wp_def)

lemma find_Some_mem: "find P xs = Some x \<Longrightarrow> x \<in> set xs \<and> P x"
  by (auto simp: find_Some_iff)

lemma sorted_dropWhile_le:
  "sorted (map f l) \<Longrightarrow> t \<in> set (dropWhile (\<lambda>t. f t \<le> c) l) \<Longrightarrow> (c :: 'a::linorder) < f t"
  by (induction l) (auto simp: not_le split: if_splits)

lemma unat_inc_less: "x < y \<Longrightarrow> unat (x + 1) = unat x + 1" for x y :: "'a::len word"
proof -
  assume "x < y"
  moreover have "unat y < 2 ^ LENGTH('a)" by (rule unsigned_less)
  ultimately have "unat x + 1 < 2 ^ LENGTH('a)" unfolding word_less_nat_alt by linarith
  then show ?thesis by (simp add: unat_word_ariths)
qed

lemma unat_dec_pos: "x \<noteq> 0 \<Longrightarrow> unat (x - 1) = unat x - 1" for x :: "'a::len word"
  by (simp add: unat_minus_one)

section \<open>Collections of lemmas\<close>

named_theorems kfield \<open>what a kernel operation leaves unchanged, field by field\<close>
named_theorems kinv_pres \<open>preservation of the kernel invariant\<close>

section \<open>Bit masks\<close>

lemma and_or_clear:
  fixes s c m :: "'a::len word"
  shows "(c OR (s AND NOT m)) AND m = c AND m"
  by (rule bit_eqI) (auto simp: bit_simps)

lemma and_zero_bitD: "c AND n = (0::'a::len word) \<Longrightarrow> \<not> (bit c i \<and> bit n i)"
  by (metis bit_and_iff bit_0_eq bot_apply bot_bool_def)

lemma and_or_keep:
  fixes s c m n :: "'a::len word"
  assumes "c AND n = 0" "m AND n = 0"
  shows "(c OR (s AND NOT m)) AND n = s AND n"
  by (rule bit_eqI)
    (use and_zero_bitD [OF assms(1)] and_zero_bitD [OF assms(2)] in \<open>auto simp: bit_simps\<close>)

lemma or_and_keep:
  fixes s c n :: "'a::len word"
  assumes "c AND n = 0"
  shows "(s OR c) AND n = s AND n"
  by (rule bit_eqI) (use and_zero_bitD [OF assms] in \<open>auto simp: bit_simps\<close>)

lemma and_not_and_keep:
  fixes s c n :: "'a::len word"
  assumes "c AND n = 0"
  shows "(s AND NOT c) AND n = s AND n"
  by (rule bit_eqI) (use and_zero_bitD [OF assms] in \<open>auto simp: bit_simps\<close>)

lemma and_not_and_same: "(s AND NOT c) AND c = (0::'a::len word)"
  by (rule bit_eqI) (auto simp: bit_simps)

lemma or_and_same: "(s OR c) AND c = (c::'a::len word)"
  by (rule bit_eqI) (auto simp: bit_simps)

text \<open>Setting and clearing one of the low flag bits, as the simplifier writes the masks.\<close>

lemma clear_flag_same [simp]:
  fixes f :: u8
  shows "(f AND - 2) AND 1 = 0" "(f AND - 3) AND 2 = 0" "(f AND - 5) AND 4 = 0"
  using and_not_and_same [of f 1] and_not_and_same [of f 2] and_not_and_same [of f 4] by simp_all

lemma clear_flag_other [simp]:
  fixes f :: u8
  shows "(f AND - 2) AND 2 = f AND 2" "(f AND - 2) AND 4 = f AND 4" "(f AND - 2) AND 8 = f AND 8"
    "(f AND - 2) AND 16 = f AND 16"
    "(f AND - 3) AND 1 = f AND 1" "(f AND - 3) AND 4 = f AND 4" "(f AND - 3) AND 8 = f AND 8"
    "(f AND - 3) AND 16 = f AND 16"
    "(f AND - 5) AND 1 = f AND 1" "(f AND - 5) AND 2 = f AND 2" "(f AND - 5) AND 8 = f AND 8"
    "(f AND - 5) AND 16 = f AND 16"
  using and_not_and_keep [of 1 2 f] and_not_and_keep [of 1 4 f] and_not_and_keep [of 1 8 f]
    and_not_and_keep [of 1 16 f] and_not_and_keep [of 2 1 f] and_not_and_keep [of 2 4 f]
    and_not_and_keep [of 2 8 f] and_not_and_keep [of 2 16 f] and_not_and_keep [of 4 1 f]
    and_not_and_keep [of 4 2 f] and_not_and_keep [of 4 8 f] and_not_and_keep [of 4 16 f]
  by simp_all

lemma set_flag_same [simp]:
  fixes f :: u8
  shows "(f OR 1) AND 1 = 1" "(f OR 2) AND 2 = 2" "(f OR 4) AND 4 = 4"
  using or_and_same [of f 1] or_and_same [of f 2] or_and_same [of f 4] by simp_all

lemma set_flag_other [simp]:
  fixes f :: u8
  shows "(f OR 1) AND 2 = f AND 2" "(f OR 1) AND 4 = f AND 4" "(f OR 1) AND 8 = f AND 8"
    "(f OR 1) AND 16 = f AND 16"
    "(f OR 2) AND 1 = f AND 1" "(f OR 2) AND 4 = f AND 4" "(f OR 2) AND 8 = f AND 8"
    "(f OR 2) AND 16 = f AND 16"
    "(f OR 4) AND 1 = f AND 1" "(f OR 4) AND 2 = f AND 2" "(f OR 4) AND 8 = f AND 8"
    "(f OR 4) AND 16 = f AND 16"
  using or_and_keep [of 1 2 f] or_and_keep [of 1 4 f] or_and_keep [of 1 8 f]
    or_and_keep [of 1 16 f] or_and_keep [of 2 1 f] or_and_keep [of 2 4 f]
    or_and_keep [of 2 8 f] or_and_keep [of 2 16 f] or_and_keep [of 4 1 f]
    or_and_keep [of 4 2 f] or_and_keep [of 4 8 f] or_and_keep [of 4 16 f]
  by simp_all

section \<open>The thread status byte\<close>

text \<open>
  The recurring expressions on \<^verbatim>\<open>RT_SCHED_CTX(thread).stat\<close>: the status code
  (\<^verbatim>\<open>stat & RT_THREAD_STAT_MASK\<close>), the yield flag, and
  \<^verbatim>\<open>stat = code | (stat & ~RT_THREAD_STAT_MASK)\<close>.
\<close>

definition stat_code :: "u8 \<Rightarrow> u8" where
  "stat_code s = s AND RT_THREAD_STAT_MASK"

definition stat_yield :: "u8 \<Rightarrow> bool" where
  "stat_yield s \<longleftrightarrow> s AND RT_THREAD_STAT_YIELD_MASK \<noteq> 0"

definition stat_suspended :: "u8 \<Rightarrow> bool" where
  "stat_suspended s \<longleftrightarrow> s AND RT_THREAD_SUSPEND_MASK = RT_THREAD_SUSPEND_MASK"

definition set_stat_code :: "u8 \<Rightarrow> u8 \<Rightarrow> u8" where
  "set_stat_code c s = c OR (s AND NOT RT_THREAD_STAT_MASK)"

definition set_stat_yield :: "u8 \<Rightarrow> u8" where
  "set_stat_yield s = s OR RT_THREAD_STAT_YIELD"

definition clear_stat_yield :: "u8 \<Rightarrow> u8" where
  "clear_stat_yield s = s AND NOT RT_THREAD_STAT_YIELD_MASK"

lemma stat_code_set [simp]: "stat_code (set_stat_code c s) = stat_code c"
  unfolding stat_code_def set_stat_code_def by (rule and_or_clear)

lemma stat_code_yield [simp]:
  "stat_code (set_stat_yield s) = stat_code s"
  "stat_code (clear_stat_yield s) = stat_code s"
proof -
  have m: "(8::u8) AND 7 = 0" by simp
  show "stat_code (set_stat_yield s) = stat_code s"
    unfolding stat_code_def set_stat_yield_def by (rule or_and_keep [OF m])
  show "stat_code (clear_stat_yield s) = stat_code s"
    unfolding stat_code_def clear_stat_yield_def by (rule and_not_and_keep [OF m])
qed

lemma stat_yield_simps [simp]:
  "stat_yield (set_stat_yield s)"
  "\<not> stat_yield (clear_stat_yield s)"
  unfolding stat_yield_def set_stat_yield_def clear_stat_yield_def
  by (simp_all only: or_and_same and_not_and_same) simp

lemma stat_yield_set_code:
  assumes "c AND 8 = 0"
  shows "stat_yield (set_stat_code c s) = stat_yield s"
proof -
  have m: "(7::u8) AND 8 = 0" by simp
  show ?thesis
    unfolding stat_yield_def set_stat_code_def by (simp only: and_or_keep [OF assms m])
qed

lemma stat_yield_set_codes [simp]:
  "stat_yield (set_stat_code 2 s) = stat_yield s"
  "stat_yield (set_stat_code 3 s) = stat_yield s"
  "stat_yield (set_stat_code 4 s) = stat_yield s"
  "stat_yield (set_stat_code 6 s) = stat_yield s"
  "stat_yield (set_stat_code 7 s) = stat_yield s"
  by (rule stat_yield_set_code, simp)+

lemma stat_code_consts [simp]:
  "stat_code 0 = 0" "stat_code 1 = 1" "stat_code 2 = 2" "stat_code 3 = 3"
  "stat_code 4 = 4" "stat_code 6 = 6" "stat_code 7 = 7"
  by (simp_all add: stat_code_def)

lemma stat_yield_consts [simp]:
  "\<not> stat_yield 0" "\<not> stat_yield 1" "\<not> stat_yield 2" "\<not> stat_yield 3" "\<not> stat_yield 4"
  by (simp_all add: stat_yield_def)

lemma stat_suspended_iff: "stat_suspended s \<longleftrightarrow> stat_suspended (stat_code s)"
proof -
  have "s AND 4 = (s AND 7) AND (4::u8)"
    by (simp add: and.assoc)
  then show ?thesis by (simp add: stat_suspended_def stat_code_def)
qed

lemma stat_suspended_code:
  "stat_code s = 4 \<or> stat_code s = 6 \<or> stat_code s = 7 \<Longrightarrow> stat_suspended s"
  by (subst stat_suspended_iff) (auto simp: stat_suspended_def)

lemma stat_not_suspended_code:
  "stat_code s = 0 \<or> stat_code s = 1 \<or> stat_code s = 2 \<or> stat_code s = 3 \<Longrightarrow> \<not> stat_suspended s"
  by (subst stat_suspended_iff) (auto simp: stat_suspended_def)

lemma stat_suspended_consts [simp]:
  "\<not> stat_suspended 0" "\<not> stat_suspended 1" "\<not> stat_suspended 2" "\<not> stat_suspended 3" "stat_suspended 4"
  by (simp_all add: stat_suspended_def)

end
