(* ===== verification/RT_List.thy ===== *)
theory RT_List
  imports RT_Prelude
begin

text \<open>
  The intrusive doubly linked list of \<^verbatim>\<open>include/rtservice.h\<close>, at the level of its
  pointer assignments: a store gives every node its \<^verbatim>\<open>next\<close> and \<^verbatim>\<open>prev\<close>
  pointers. The refinement \<open>ring s h xs\<close> says that the nodes reachable from the head
  \<open>h\<close> are \<open>xs\<close>, in this order. It justifies the abstract lists (\<open>tlists\<close>,
  \<open>tmlists\<close>, object lists) of the kernel state: each C list operation acts on them as the
  corresponding operation on HOL lists, and leaves every disjoint list alone.
\<close>

section \<open>The operations\<close>

record 'n links =
  lnext :: "'n \<Rightarrow> 'n"
  lprev :: "'n \<Rightarrow> 'n"

abbreviation set_next :: "'n \<Rightarrow> 'n \<Rightarrow> 'n links \<Rightarrow> 'n links" where
  "set_next a b s \<equiv> s\<lparr>lnext := (lnext s)(a := b)\<rparr>"

abbreviation set_prev :: "'n \<Rightarrow> 'n \<Rightarrow> 'n links \<Rightarrow> 'n links" where
  "set_prev a b s \<equiv> s\<lparr>lprev := (lprev s)(a := b)\<rparr>"

definition rt_list_init :: "'n \<Rightarrow> 'n links \<Rightarrow> 'n links" where
  "rt_list_init l s = (let s = set_prev l l s in set_next l l s)"

definition rt_list_insert_after :: "'n \<Rightarrow> 'n \<Rightarrow> 'n links \<Rightarrow> 'n links" where
  "rt_list_insert_after l n s =
     (let s = set_prev (lnext s l) n s;
          s = set_next n (lnext s l) s;
          s = set_next l n s
      in set_prev n l s)"

definition rt_list_insert_before :: "'n \<Rightarrow> 'n \<Rightarrow> 'n links \<Rightarrow> 'n links" where
  "rt_list_insert_before l n s =
     (let s = set_next (lprev s l) n s;
          s = set_prev n (lprev s l) s;
          s = set_prev l n s
      in set_next n l s)"

definition rt_list_remove :: "'n \<Rightarrow> 'n links \<Rightarrow> 'n links" where
  "rt_list_remove n s =
     (let s = set_prev (lnext s n) (lprev s n) s;
          s = set_next (lprev s n) (lnext s n) s;
          s = set_prev n n s
      in set_next n n s)"

definition rt_list_isempty :: "'n \<Rightarrow> 'n links \<Rightarrow> bool" where
  "rt_list_isempty l s \<longleftrightarrow> lnext s l = l"

partial_function (option) rt_list_len_loop :: "'n \<Rightarrow> 'n links \<Rightarrow> 'n \<Rightarrow> u32 \<Rightarrow> u32 option" where
  "rt_list_len_loop l s p len =
     (if lnext s p \<noteq> l then rt_list_len_loop l s (lnext s p) (len + 1) else Some len)"

definition rt_list_len :: "'n \<Rightarrow> 'n links \<Rightarrow> u32 option" where
  "rt_list_len l s = rt_list_len_loop l s l 0"

section \<open>The abstraction\<close>

fun linked :: "'n links \<Rightarrow> 'n list \<Rightarrow> bool" where
  "linked s (x # y # zs) \<longleftrightarrow> lnext s x = y \<and> lprev s y = x \<and> linked s (y # zs)"
| "linked s _ \<longleftrightarrow> True"

definition ring :: "'n links \<Rightarrow> 'n \<Rightarrow> 'n list \<Rightarrow> bool" where
  "ring s h xs \<longleftrightarrow> distinct (h # xs) \<and> linked s (h # xs @ [h])"

lemma linked_append: "linked s (xs @ a # ys) \<longleftrightarrow> linked s (xs @ [a]) \<and> linked s (a # ys)"
proof (induction xs)
  case (Cons x xs)
  then show ?case by (cases xs) auto
qed auto

lemma linked_edge:
  "linked s (xs @ a # b # ys) \<longleftrightarrow>
   linked s (xs @ [a]) \<and> lnext s a = b \<and> lprev s b = a \<and> linked s (b # ys)"
  by (subst linked_append) simp

lemma linked_next: "linked s zs \<Longrightarrow> x \<in> set (butlast zs) \<Longrightarrow> lnext s x \<in> set (tl zs)"
  by (induction s zs rule: linked.induct) (auto split: if_splits)

lemma linked_prev: "linked s zs \<Longrightarrow> x \<in> set (tl zs) \<Longrightarrow> lprev s x \<in> set (butlast zs)"
  by (induction s zs rule: linked.induct) (auto split: if_splits)

lemma linked_frame:
  "linked s zs \<Longrightarrow> \<forall>x \<in> set (butlast zs). lnext s' x = lnext s x \<Longrightarrow>
   \<forall>x \<in> set (tl zs). lprev s' x = lprev s x \<Longrightarrow> linked s' zs"
  by (induction s zs rule: linked.induct) auto

lemma ring_frame:
  assumes "ring s h xs" "\<And>x. x \<in> set (h # xs) \<Longrightarrow> lnext s' x = lnext s x"
    "\<And>x. x \<in> set (h # xs) \<Longrightarrow> lprev s' x = lprev s x"
  shows "ring s' h xs"
  using assms unfolding ring_def
  by (auto intro!: linked_frame [of s "h # xs @ [h]"] simp: butlast_append)

text \<open>Adding a node \<open>n\<close> on the edge from \<open>a\<close> to \<open>b\<close>, the common effect of the two insertions.\<close>

definition ins_edge :: "'n \<Rightarrow> 'n \<Rightarrow> 'n \<Rightarrow> 'n links \<Rightarrow> 'n links" where
  "ins_edge a n b s =
     s\<lparr>lnext := (lnext s)(n := b, a := n), lprev := (lprev s)(b := n, n := a)\<rparr>"

lemma insert_after_edge:
  "n \<noteq> a \<Longrightarrow> n \<noteq> lnext s a \<Longrightarrow> rt_list_insert_after a n s = ins_edge a n (lnext s a) s"
  by (simp add: rt_list_insert_after_def ins_edge_def Let_def)

lemma insert_before_edge:
  "n \<noteq> b \<Longrightarrow> n \<noteq> lprev s b \<Longrightarrow> rt_list_insert_before b n s = ins_edge (lprev s b) n b s"
  by (auto simp: rt_list_insert_before_def ins_edge_def Let_def fun_upd_twist)

text \<open>
  A ring cut at an edge from \<open>a\<close> to \<open>b\<close>: \<open>a\<close> is the head or the last node before
  the cut, \<open>b\<close> the first node after it or the head.
\<close>

definition edge_cut :: "'n \<Rightarrow> 'n list \<Rightarrow> 'n list \<Rightarrow> 'n list \<Rightarrow> 'n \<Rightarrow> 'n \<Rightarrow> 'n list \<Rightarrow> bool" where
  "edge_cut h xs ys P a b Q \<longleftrightarrow> h # xs = P @ [a] \<and> ys @ [h] = b # Q"

lemma cut_exists: "\<exists>P Q. edge_cut h xs ys P (last (h # xs)) (hd (ys @ [h])) Q"
  unfolding edge_cut_def by (metis append_butlast_last_id hd_Cons_tl list.distinct(1) snoc_eq_iff_butlast)

lemma cut_linked:
  assumes "edge_cut h xs ys P a b Q"
  shows "linked s (h # (xs @ ys) @ [h]) \<longleftrightarrow>
    linked s (P @ [a]) \<and> lnext s a = b \<and> lprev s b = a \<and> linked s (b # Q)"
proof -
  have "h # (xs @ ys) @ [h] = (h # xs) @ ys @ [h]" by simp
  also have "\<dots> = P @ a # b # Q" using assms by (simp add: edge_cut_def)
  finally show ?thesis by (simp only: linked_edge)
qed

lemma cut_distinct:
  assumes "edge_cut h xs ys P a b Q" "distinct (h # xs @ ys)"
  shows "a \<notin> set P" "b \<notin> set Q" "b \<notin> set (tl (P @ [a]))" "a \<notin> set (butlast (b # Q))"
    "set (P @ [a]) = set (h # xs)" "set (b # Q) = set (h # ys)"
    "butlast (P @ [a]) = P" "set (tl (P @ [a])) = set xs" "set (butlast (b # Q)) = set ys"
proof -
  have P: "tl (P @ [a]) = xs" using assms(1) unfolding edge_cut_def by (metis list.sel(3))
  have Q: "butlast (b # Q) = ys" using assms(1) unfolding edge_cut_def by (metis butlast_snoc)
  have "distinct (P @ [a])" using assms unfolding edge_cut_def by (metis append_Cons distinct_append)
  then show "a \<notin> set P" by simp
  show "b \<notin> set Q" "b \<notin> set (tl (P @ [a]))"
    unfolding P using assms by (cases ys; auto simp: edge_cut_def)+
  have "a \<in> set (h # xs)" using assms(1) by (simp add: edge_cut_def)
  then show "a \<notin> set (butlast (b # Q))" unfolding Q using assms(2) by auto
  show "set (P @ [a]) = set (h # xs)" "set (b # Q) = set (h # ys)"
    using assms(1) unfolding edge_cut_def by (metis, metis Un_insert_right append.right_neutral list.set(2)
        set_append list.set(1) Un_empty_right)
  show "butlast (P @ [a]) = P" "set (tl (P @ [a])) = set xs" "set (butlast (b # Q)) = set ys"
    using P Q by simp_all
qed

lemma ring_edge:
  assumes "ring s h (xs @ ys)" "edge_cut h xs ys P a b Q"
  shows "lnext s a = b" "lprev s b = a"
  using assms(1) cut_linked [OF assms(2), of s] by (simp_all add: ring_def)

lemma ring_ins_edge:
  assumes r: "ring s h (xs @ ys)" and n: "n \<notin> set (h # xs @ ys)" and c: "edge_cut h xs ys P a b Q"
  shows "ring (ins_edge a n b s) h (xs @ n # ys)"
proof -
  have D: "distinct (h # xs @ ys)" and L: "linked s (P @ [a])" "linked s (b # Q)"
    using r cut_linked [OF c, of s] by (auto simp: ring_def)
  note d = cut_distinct [OF c D]
  let ?s = "ins_edge a n b s"
  have n1: "n \<notin> set (P @ [a])" "n \<notin> set (b # Q)" using n unfolding d by auto
  have "linked ?s (P @ [a])"
    by (rule linked_frame [OF L(1)]) (use d(1,3,7,8) n n1 in \<open>auto simp: ins_edge_def\<close>)
  moreover have "linked ?s (b # Q)"
    by (rule linked_frame [OF L(2)]) (use d(2,4,9) n n1 in \<open>auto simp: ins_edge_def\<close>)
  ultimately have "linked ?s (P @ a # n # b # Q)"
    using n1 by (subst linked_append) (auto simp: ins_edge_def)
  also have "P @ a # n # b # Q = (P @ [a]) @ n # (b # Q)" by simp
  also have "\<dots> = (h # xs) @ n # (ys @ [h])" using c unfolding edge_cut_def by metis
  finally show ?thesis using r n unfolding ring_def by auto
qed

section \<open>Each C operation refines the list operation\<close>

lemma ring_init: "ring (rt_list_init l s) l []"
  by (simp add: ring_def rt_list_init_def)

lemma ring_insert_after_cut:
  assumes "ring s h (xs @ ys)" "n \<notin> set (h # xs @ ys)" "edge_cut h xs ys P a b Q"
  shows "ring (rt_list_insert_after a n s) h (xs @ n # ys)"
proof -
  have "distinct (h # xs @ ys)" using assms(1) by (simp add: ring_def)
  note d = cut_distinct(5,6) [OF assms(3) this]
  have "n \<noteq> a" "n \<noteq> b" using assms(2) d by auto
  then show ?thesis
    using ring_ins_edge [OF assms] ring_edge(1) [OF assms(1,3)] by (simp add: insert_after_edge)
qed

lemma ring_insert_before_cut:
  assumes "ring s h (xs @ ys)" "n \<notin> set (h # xs @ ys)" "edge_cut h xs ys P a b Q"
  shows "ring (rt_list_insert_before b n s) h (xs @ n # ys)"
proof -
  have "distinct (h # xs @ ys)" using assms(1) by (simp add: ring_def)
  note d = cut_distinct(5,6) [OF assms(3) this]
  have "n \<noteq> a" "n \<noteq> b" using assms(2) d by auto
  then show ?thesis
    using ring_ins_edge [OF assms] ring_edge(2) [OF assms(1,3)] by (simp add: insert_before_edge)
qed

lemma ring_remove:
  assumes r: "ring s h (xs @ n # ys)"
  shows "ring (rt_list_remove n s) h (xs @ ys)" "ring (rt_list_remove n s) n []"
proof -
  let ?s = "rt_list_remove n s"
  obtain P a b Q where c: "edge_cut h xs ys P a b Q" using cut_exists [of h xs ys] by blast
  have D: "distinct (h # xs @ ys)" and n: "n \<notin> set (h # xs @ ys)" using r by (auto simp: ring_def)
  note d = cut_distinct [OF c D]
  have n1: "n \<notin> set (P @ [a])" "n \<notin> set (b # Q)" using n unfolding d by auto
  have "h # (xs @ n # ys) @ [h] = (h # xs) @ n # (ys @ [h])" by simp
  also have "\<dots> = P @ a # n # b # Q" using c by (simp add: edge_cut_def)
  finally have "linked s (P @ a # n # b # Q)" using r by (simp add: ring_def)
  then have L: "linked s (P @ [a])" "linked s (b # Q)" and
    e: "lnext s a = n" "lprev s n = a" "lnext s n = b" "lprev s b = n"
    by (simp_all add: linked_edge linked_edge [of s "[]", simplified])
  have s: "?s = s\<lparr>lnext := (lnext s)(a := b, n := n), lprev := (lprev s)(b := a, n := n)\<rparr>"
    using n1 e by (simp add: rt_list_remove_def Let_def)
  have "linked ?s (P @ [a])"
    by (rule linked_frame [OF L(1)]) (use d(1,3,7,8) n n1 in \<open>auto simp: s\<close>)
  moreover have "linked ?s (b # Q)"
    by (rule linked_frame [OF L(2)]) (use d(2,4,9) n n1 in \<open>auto simp: s\<close>)
  ultimately have "linked ?s (h # (xs @ ys) @ [h])"
    using n1 by (subst cut_linked [OF c]) (auto simp: s)
  then show "ring ?s h (xs @ ys)" using D by (simp add: ring_def)
  show "ring ?s n []" by (simp add: s ring_def)
qed

text \<open>The forms the kernel uses: at the head, at the tail, and before an element.\<close>

lemma ring_push: "ring s h xs \<Longrightarrow> n \<notin> set (h # xs) \<Longrightarrow> ring (rt_list_insert_after h n s) h (n # xs)"
  using ring_insert_after_cut [of s h "[]" xs n "[]" h "hd (xs @ [h])" "tl (xs @ [h])"]
  by (simp add: edge_cut_def)

lemma ring_append: "ring s h xs \<Longrightarrow> n \<notin> set (h # xs) \<Longrightarrow> ring (rt_list_insert_before h n s) h (xs @ [n])"
  using ring_insert_before_cut [of s h xs "[]" n "butlast (h # xs)" "last (h # xs)" h "[]"]
  by (simp add: edge_cut_def)

lemma ring_insert_before:
  "ring s h (xs @ m # ys) \<Longrightarrow> n \<notin> set (h # xs @ m # ys) \<Longrightarrow>
   ring (rt_list_insert_before m n s) h (xs @ n # m # ys)"
  using ring_insert_before_cut [of s h xs "m # ys" n "butlast (h # xs)" "last (h # xs)" m "ys @ [h]"]
  by (simp add: edge_cut_def)

lemma ring_isempty: "ring s h xs \<Longrightarrow> rt_list_isempty h s \<longleftrightarrow> xs = []"
  by (cases xs) (auto simp: ring_def rt_list_isempty_def)

lemma list_len_loop:
  "linked s (p # ys @ [l]) \<Longrightarrow> l \<notin> set ys \<Longrightarrow>
   rt_list_len_loop l s p len = Some (len + of_nat (length ys))"
proof (induction ys arbitrary: p len)
  case Nil
  then show ?case by (simp add: rt_list_len_loop.simps)
next
  case (Cons y ys)
  then have "l \<noteq> y" by auto
  with Cons show ?case by (subst rt_list_len_loop.simps) (simp add: algebra_simps)
qed

lemma ring_len: "ring s h xs \<Longrightarrow> rt_list_len h s = Some (of_nat (length xs))"
  unfolding ring_def rt_list_len_def using list_len_loop [of s h xs h 0] by simp

text \<open>Lists that share no node with the one operated on are untouched.\<close>

lemma ring_other:
  assumes r: "ring s h xs" and o: "ring s g zs" and d: "set (g # zs) \<inter> set (h # xs) = {}"
  shows "n \<in> set xs \<Longrightarrow> ring (rt_list_remove n s) g zs"
    and "m \<in> set (h # xs) \<Longrightarrow> n \<notin> set (g # zs) \<Longrightarrow> ring (rt_list_insert_before m n s) g zs"
    and "m \<in> set (h # xs) \<Longrightarrow> n \<notin> set (g # zs) \<Longrightarrow> ring (rt_list_insert_after m n s) g zs"
proof -
  have "linked s (h # xs @ [h])" using r by (simp add: ring_def)
  note nb = linked_next [OF this] linked_prev [OF this]
  have nb: "lnext s m \<in> set (h # xs) \<and> lprev s m \<in> set (h # xs)" if "m \<in> set (h # xs)" for m
    using nb [of m] that by (auto simp: butlast_append)
  show "ring (rt_list_remove n s) g zs" if "n \<in> set xs"
    by (rule ring_frame [OF o]) (use nb [of n] that d in \<open>auto simp: rt_list_remove_def Let_def\<close>)
  show "ring (rt_list_insert_before m n s) g zs" if "m \<in> set (h # xs)" "n \<notin> set (g # zs)"
    by (rule ring_frame [OF o]) (use nb [of m] that d in \<open>auto simp: rt_list_insert_before_def Let_def\<close>)
  show "ring (rt_list_insert_after m n s) g zs" if "m \<in> set (h # xs)" "n \<notin> set (g # zs)"
    by (rule ring_frame [OF o]) (use nb [of m] that d in \<open>auto simp: rt_list_insert_after_def Let_def\<close>)
qed

section \<open>The list contract\<close>

text \<open>What the kernel relies on when it links, unlinks and tests nodes, whatever the representation:
  \<open>is_list s h xs\<close> says that the store \<open>s\<close> holds the list \<open>xs\<close> under the
  head \<open>h\<close>.\<close>

locale node_lists =
  fixes is_list :: "'s \<Rightarrow> 'n \<Rightarrow> 'n list \<Rightarrow> bool"
    and insert_after insert_before :: "'n \<Rightarrow> 'n \<Rightarrow> 's \<Rightarrow> 's"
    and init remove :: "'n \<Rightarrow> 's \<Rightarrow> 's"
    and isempty :: "'n \<Rightarrow> 's \<Rightarrow> bool"
  assumes init: "is_list (init h s) h []"
    and push: "is_list s h xs \<Longrightarrow> n \<notin> set (h # xs) \<Longrightarrow> is_list (insert_after h n s) h (n # xs)"
    and append: "is_list s h xs \<Longrightarrow> n \<notin> set (h # xs) \<Longrightarrow> is_list (insert_before h n s) h (xs @ [n])"
    and unlink: "is_list s h (xs @ n # ys) \<Longrightarrow> is_list (remove n s) h (xs @ ys)"
    and empty: "is_list s h xs \<Longrightarrow> isempty h s \<longleftrightarrow> xs = []"
    and distinct: "is_list s h xs \<Longrightarrow> distinct (h # xs)"
begin

text \<open>A list used as a queue: what was appended first is unlinked first.\<close>

lemma unlink_first: "is_list s h (n # xs) \<Longrightarrow> is_list (remove n s) h xs"
  using unlink [of s h "[]" n xs] by simp

lemma append_all:
  "is_list s h xs \<Longrightarrow> distinct ns \<Longrightarrow> set ns \<inter> set (h # xs) = {} \<Longrightarrow>
   is_list (fold (insert_before h) ns s) h (xs @ ns)"
proof (induction ns arbitrary: s xs)
  case (Cons n ns)
  then have "is_list (insert_before h n s) h (xs @ [n])" by (intro append) auto
  then have "is_list (fold (insert_before h) ns (insert_before h n s)) h ((xs @ [n]) @ ns)"
    using Cons.prems by (intro Cons.IH) auto
  then show ?case by simp
qed simp

lemma drain:
  "is_list s h xs \<Longrightarrow> is_list (fold remove xs s) h [] \<and> isempty h (fold remove xs s)"
proof (induction xs arbitrary: s)
  case (Cons x xs)
  then show ?case using Cons.IH [OF unlink_first [OF Cons.prems]] by simp
qed (simp add: empty)

end

interpretation rt_list: node_lists ring rt_list_insert_after rt_list_insert_before
  rt_list_init rt_list_remove rt_list_isempty
  by unfold_locales (auto simp: ring_init ring_push ring_append ring_remove ring_isempty, auto simp: ring_def)

section \<open>Properties\<close>

text \<open>C39. The pointer operations of a list refine the operations on sequences: insertion at head and
  tail, in front of a node, removal, the emptiness test (which holds of a ring exactly when its
  sequence is empty, so not of the ring with a node) and the length, each for every ring; and each
  of the insertions and the removal leaves every ring that shares no node with the one operated on,
  and does not hold the inserted node, as it was.\<close>

theorem rt_list_refines:
  assumes "ring s h (xs @ m # ys)" and "n \<notin> set (h # xs @ m # ys)"
    and "ring s g zs" and "set (g # zs) \<inter> set (h # xs @ m # ys) = {}" and "n \<notin> set (g # zs)"
  shows "ring (rt_list_insert_after h n s) h (n # xs @ m # ys) \<and> ring (rt_list_insert_after h n s) g zs \<and>
     ring (rt_list_insert_before h n s) h (xs @ m # ys @ [n]) \<and> ring (rt_list_insert_before h n s) g zs \<and>
     ring (rt_list_insert_before m n s) h (xs @ n # m # ys) \<and> ring (rt_list_insert_before m n s) g zs \<and>
     ring (rt_list_remove m s) h (xs @ ys) \<and> ring (rt_list_remove m s) m [] \<and>
     ring (rt_list_remove m s) g zs \<and>
     \<not> rt_list_isempty h s \<and> (rt_list_isempty g s \<longleftrightarrow> zs = []) \<and>
     (rt_list_isempty h (rt_list_remove m s) \<longleftrightarrow> xs = [] \<and> ys = []) \<and>
     rt_list_len h s = Some (of_nat (length (xs @ m # ys))) \<and> rt_list_len g s = Some (of_nat (length zs))"
proof -
  note other = ring_other [OF assms(1,3,4)]
  have "rt_list_isempty h (rt_list_remove m s) \<longleftrightarrow> xs = [] \<and> ys = []"
    using ring_isempty [OF ring_remove(1) [OF assms(1)]] by simp
  then show ?thesis
    using ring_push [OF assms(1,2)] ring_append [OF assms(1,2)] ring_insert_before [OF assms(1,2)]
      ring_remove [OF assms(1)] other(1) [of m] other(2) [of h n] other(2) [of m n] other(3) [of h n]
      ring_isempty [OF assms(1)] ring_isempty [OF assms(3)] ring_len [OF assms(1)] ring_len [OF assms(3)] assms(5)
    by simp
qed

text \<open>Instance: the ring of head 0 with the nodes 1 and 2, and the empty ring of head 9.\<close>

theorem rt_list_refines_witness:
  "ring (rt_list_remove 1 (rt_list_insert_before 0 2 (rt_list_insert_after 0 1
     (rt_list_init 9 (rt_list_init 0 \<lparr>lnext = \<lambda>_. 0, lprev = \<lambda>_. (0::nat)\<rparr>))))) 0 [2]"
  using rt_list_refines [of "rt_list_insert_before 0 2 (rt_list_insert_after 0 1
     (rt_list_init 9 (rt_list_init 0 \<lparr>lnext = \<lambda>_. 0, lprev = \<lambda>_. (0::nat)\<rparr>)))" 0 "[]" 1 "[2]" 7 9 "[]"]
  by (simp add: ring_def rt_list_insert_before_def rt_list_insert_after_def rt_list_init_def Let_def)

end
