(* ===== verification/Kernel_State.thy ===== *)
theory Kernel_State
  imports RT_Prelude
begin

text \<open>
  The data model of the kernel: the structures of \<^verbatim>\<open>include/rtdef.h\<close> and
  \<^verbatim>\<open>include/rtsched.h\<close> as records, and the static variables of the kernel sources as one
  record \<open>kernel\<close>. Structures live in typed heaps, functions from the structure's address
  (a natural number) to its contents, as C pointers reach them.

  The build that is modelled is the uniprocessor configuration of
  \<^verbatim>\<open>bsp/arm/AVH-FVP_MPS2_Cortex-M85/rtconfig.h\<close>: 32 priorities,
  \<^verbatim>\<open>RT_TIMER_SKIP_LIST_LEVEL\<close> 1, soft timers, semaphore, mutex, event, mailbox, message
  queue and memory pool; no \<^verbatim>\<open>RT_USING_SMP\<close>, \<^verbatim>\<open>RT_USING_SMART\<close>,
  \<^verbatim>\<open>RT_USING_SIGNALS\<close>.

  Intrusive lists are kept as HOL lists, one per list head (\<open>tlists\<close> for the thread
  nodes \<^verbatim>\<open>tlist\<close>, \<open>tmlists\<close> for the timer nodes \<^verbatim>\<open>row[0]\<close>); theory
  \<open>RT_List\<close> shows that the pointer operations implement them. A node is unlinked by
  \<open>tlist_remove\<close>, which, like \<^verbatim>\<open>rt_list_remove\<close>, does not name the list.
\<close>

section \<open>Addresses\<close>

type_synonym tid = nat
type_synonym sid = nat
type_synonym mid = nat
type_synonym eid = nat
type_synonym bid = nat
type_synonym qid = nat
type_synonym pid = u32

datatype timer_ref = ThreadTimer tid | TimerObj nat

datatype objref =
    OThread tid | OTimer timer_ref | OSem sid | OMutex mid | OEvent eid
  | OMailBox bid | OMsgQueue qid | OMemPool pid | OMemHeap u32

text \<open>The heads of lists of threads: the ready table, the suspend lists of the IPC objects and
  the list of defunct threads.\<close>

datatype tlist =
    ReadyL nat | SemL sid | MutexL mid | EventL eid | MbRecvL bid | MbSendL bid
  | MqRecvL qid | MqSendL qid | MpL pid | DqPushL nat | DqPopL nat | DefunctL

text \<open>The heads of lists of timers: the hard and the soft timer list, and the local list
  \<^verbatim>\<open>list\<close> of a running \<^verbatim>\<open>_timer_check\<close> on either.\<close>

datatype tmlist = HardTimers | SoftTimers | CheckingTimers tmlist

section \<open>Structures\<close>

record rt_object =
  ob_name :: string
  ob_type :: u8
  ob_flag :: u8

abbreviation (input) RT_Object_Class_Null :: u8 where "RT_Object_Class_Null \<equiv> 0"
abbreviation (input) RT_Object_Class_Thread :: u8 where "RT_Object_Class_Thread \<equiv> 1"
abbreviation (input) RT_Object_Class_Semaphore :: u8 where "RT_Object_Class_Semaphore \<equiv> 2"
abbreviation (input) RT_Object_Class_Mutex :: u8 where "RT_Object_Class_Mutex \<equiv> 3"
abbreviation (input) RT_Object_Class_Event :: u8 where "RT_Object_Class_Event \<equiv> 4"
abbreviation (input) RT_Object_Class_MailBox :: u8 where "RT_Object_Class_MailBox \<equiv> 5"
abbreviation (input) RT_Object_Class_MessageQueue :: u8 where "RT_Object_Class_MessageQueue \<equiv> 6"
abbreviation (input) RT_Object_Class_MemHeap :: u8 where "RT_Object_Class_MemHeap \<equiv> 7"
abbreviation (input) RT_Object_Class_MemPool :: u8 where "RT_Object_Class_MemPool \<equiv> 8"
abbreviation (input) RT_Object_Class_Device :: u8 where "RT_Object_Class_Device \<equiv> 9"
abbreviation (input) RT_Object_Class_Timer :: u8 where "RT_Object_Class_Timer \<equiv> 10"
abbreviation (input) RT_Object_Class_Static :: u8 where "RT_Object_Class_Static \<equiv> 0x80"

record rt_thread =
  th_entry :: nat
  th_parameter :: nat
  th_stack_addr :: nat
  th_stack_size :: u32
  th_error :: rt_err_t
  th_stat :: u8
  th_ttmr_set :: bool
  th_init_tick :: rt_tick_t
  th_remaining_tick :: rt_tick_t
  th_current_priority :: nat
  th_init_priority :: nat
  th_number_mask :: u32
  th_cleanup :: "nat option"
  th_taken_object_list :: "mid list"
  th_pending_object :: "mid option"
  th_event_set :: u32
  th_event_info :: u8
  th_user_data :: nat

text \<open>A timeout function is the kernel's own \<^verbatim>\<open>_thread_timeout\<close> or one of the user's.\<close>

datatype timeout_fn = ThreadTimeout | UserTimeout nat

record rt_timer =
  tm_timeout_func :: timeout_fn
  tm_parameter :: nat
  tm_init_tick :: rt_tick_t
  tm_timeout_tick :: rt_tick_t

record rt_semaphore =
  sem_value :: u16
  sem_max_value :: u16

record rt_mutex =
  mtx_ceiling_priority :: u8
  mtx_priority :: u8
  mtx_hold :: u8
  mtx_owner :: "tid option"

record rt_event =
  ev_set :: u32

text \<open>\<open>mb_msg_pool\<close> is the array of \<^verbatim>\<open>size\<close> words the mailbox was given.\<close>

record rt_mailbox =
  mb_msg_pool :: "u32 list"
  mb_size :: u16
  mb_entry :: u16
  mb_in_offset :: u16
  mb_out_offset :: u16

text \<open>A message node: its index in the pool stands for its address.\<close>

record rt_mq_message =
  msg_next :: "nat option"
  msg_length :: nat
  msg_data :: "u8 list"

record rt_messagequeue =
  mq_msg_pool :: "rt_mq_message list"
  mq_msg_size :: u16
  mq_max_msgs :: u16
  mq_entry :: u16
  mq_queue_head :: "nat option"
  mq_queue_tail :: "nat option"
  mq_queue_free :: "nat option"

text \<open>A memory pool; its blocks live in memory, with the word in front of each block that links the free
  ones.\<close>

record rt_mempool =
  mp_start_address :: u32
  mp_size :: u32
  mp_block_size :: u32
  mp_block_list :: u32
  mp_block_total_count :: u32
  mp_block_free_count :: u32

section \<open>The kernel\<close>

record kernel =
  objects :: "objref \<Rightarrow> rt_object"
  object_list :: "u8 \<Rightarrow> objref list"
  threads :: "tid \<Rightarrow> rt_thread"
  timers :: "timer_ref \<Rightarrow> rt_timer"
  sems :: "sid \<Rightarrow> rt_semaphore"
  mutexes :: "mid \<Rightarrow> rt_mutex"
  events :: "eid \<Rightarrow> rt_event"
  mailboxes :: "bid \<Rightarrow> rt_mailbox"
  msgqueues :: "qid \<Rightarrow> rt_messagequeue"
  mempools :: "pid \<Rightarrow> rt_mempool"
  tlists :: "tlist \<Rightarrow> tid list"
  tmlists :: "tmlist \<Rightarrow> timer_ref list"
  rt_thread_ready_priority_group :: u32
  rt_current_thread :: "tid option"
  rt_current_priority :: nat
  rt_scheduler_lock_nest :: u16
  rt_interrupt_nest :: u32
  rt_tick :: rt_tick_t
  timer_random_nr :: u32

text \<open>The static semaphore \<^verbatim>\<open>_soft_timer_sem\<close> of \<^verbatim>\<open>timer.c\<close>.\<close>

abbreviation (input) soft_timer_sem :: sid where "soft_timer_sem \<equiv> 0"

section \<open>Field access through an address\<close>

definition upd_thread :: "tid \<Rightarrow> (rt_thread \<Rightarrow> rt_thread) \<Rightarrow> kernel \<Rightarrow> kernel" where
  "upd_thread t f k = k\<lparr>threads := (threads k)(t := f (threads k t))\<rparr>"

definition upd_timer :: "timer_ref \<Rightarrow> (rt_timer \<Rightarrow> rt_timer) \<Rightarrow> kernel \<Rightarrow> kernel" where
  "upd_timer t f k = k\<lparr>timers := (timers k)(t := f (timers k t))\<rparr>"

definition upd_object :: "objref \<Rightarrow> (rt_object \<Rightarrow> rt_object) \<Rightarrow> kernel \<Rightarrow> kernel" where
  "upd_object r f k = k\<lparr>objects := (objects k)(r := f (objects k r))\<rparr>"

definition upd_sem :: "sid \<Rightarrow> (rt_semaphore \<Rightarrow> rt_semaphore) \<Rightarrow> kernel \<Rightarrow> kernel" where
  "upd_sem s f k = k\<lparr>sems := (sems k)(s := f (sems k s))\<rparr>"

definition upd_mutex :: "mid \<Rightarrow> (rt_mutex \<Rightarrow> rt_mutex) \<Rightarrow> kernel \<Rightarrow> kernel" where
  "upd_mutex m f k = k\<lparr>mutexes := (mutexes k)(m := f (mutexes k m))\<rparr>"

definition upd_event :: "eid \<Rightarrow> (rt_event \<Rightarrow> rt_event) \<Rightarrow> kernel \<Rightarrow> kernel" where
  "upd_event e f k = k\<lparr>events := (events k)(e := f (events k e))\<rparr>"

definition upd_mailbox :: "bid \<Rightarrow> (rt_mailbox \<Rightarrow> rt_mailbox) \<Rightarrow> kernel \<Rightarrow> kernel" where
  "upd_mailbox b f k = k\<lparr>mailboxes := (mailboxes k)(b := f (mailboxes k b))\<rparr>"

definition upd_msgqueue :: "qid \<Rightarrow> (rt_messagequeue \<Rightarrow> rt_messagequeue) \<Rightarrow> kernel \<Rightarrow> kernel" where
  "upd_msgqueue q f k = k\<lparr>msgqueues := (msgqueues k)(q := f (msgqueues k q))\<rparr>"

definition upd_mempool :: "pid \<Rightarrow> (rt_mempool \<Rightarrow> rt_mempool) \<Rightarrow> kernel \<Rightarrow> kernel" where
  "upd_mempool p f k = k\<lparr>mempools := (mempools k)(p := f (mempools k p))\<rparr>"

lemmas upd_defs = upd_thread_def upd_timer_def upd_object_def upd_sem_def upd_mutex_def
  upd_event_def upd_mailbox_def upd_msgqueue_def upd_mempool_def

text \<open>The fields after an update through an address.\<close>

lemma upd_sel:
  "objects (upd_thread r_thread f_thread k) = objects k" "object_list (upd_thread r_thread f_thread k) = object_list k"
  "threads (upd_thread r_thread f_thread k) = (threads k)(r_thread := f_thread (threads k r_thread))"
  "timers (upd_thread r_thread f_thread k) = timers k" "sems (upd_thread r_thread f_thread k) = sems k"
  "mutexes (upd_thread r_thread f_thread k) = mutexes k" "events (upd_thread r_thread f_thread k) = events k"
  "mailboxes (upd_thread r_thread f_thread k) = mailboxes k" "msgqueues (upd_thread r_thread f_thread k) = msgqueues k"
  "mempools (upd_thread r_thread f_thread k) = mempools k" "tlists (upd_thread r_thread f_thread k) = tlists k"
  "tmlists (upd_thread r_thread f_thread k) = tmlists k"
  "rt_thread_ready_priority_group (upd_thread r_thread f_thread k) = rt_thread_ready_priority_group k"
  "rt_current_thread (upd_thread r_thread f_thread k) = rt_current_thread k"
  "rt_current_priority (upd_thread r_thread f_thread k) = rt_current_priority k"
  "rt_scheduler_lock_nest (upd_thread r_thread f_thread k) = rt_scheduler_lock_nest k"
  "rt_interrupt_nest (upd_thread r_thread f_thread k) = rt_interrupt_nest k"
  "rt_tick (upd_thread r_thread f_thread k) = rt_tick k" "timer_random_nr (upd_thread r_thread f_thread k) = timer_random_nr k"
  "objects (upd_timer r_timer f_timer k) = objects k" "object_list (upd_timer r_timer f_timer k) = object_list k"
  "threads (upd_timer r_timer f_timer k) = threads k"
  "timers (upd_timer r_timer f_timer k) = (timers k)(r_timer := f_timer (timers k r_timer))" "sems (upd_timer r_timer f_timer k) = sems k"
  "mutexes (upd_timer r_timer f_timer k) = mutexes k" "events (upd_timer r_timer f_timer k) = events k"
  "mailboxes (upd_timer r_timer f_timer k) = mailboxes k" "msgqueues (upd_timer r_timer f_timer k) = msgqueues k"
  "mempools (upd_timer r_timer f_timer k) = mempools k" "tlists (upd_timer r_timer f_timer k) = tlists k"
  "tmlists (upd_timer r_timer f_timer k) = tmlists k"
  "rt_thread_ready_priority_group (upd_timer r_timer f_timer k) = rt_thread_ready_priority_group k"
  "rt_current_thread (upd_timer r_timer f_timer k) = rt_current_thread k"
  "rt_current_priority (upd_timer r_timer f_timer k) = rt_current_priority k"
  "rt_scheduler_lock_nest (upd_timer r_timer f_timer k) = rt_scheduler_lock_nest k"
  "rt_interrupt_nest (upd_timer r_timer f_timer k) = rt_interrupt_nest k" "rt_tick (upd_timer r_timer f_timer k) = rt_tick k"
  "timer_random_nr (upd_timer r_timer f_timer k) = timer_random_nr k"
  "objects (upd_object r_object f_object k) = (objects k)(r_object := f_object (objects k r_object))"
  "object_list (upd_object r_object f_object k) = object_list k" "threads (upd_object r_object f_object k) = threads k"
  "timers (upd_object r_object f_object k) = timers k" "sems (upd_object r_object f_object k) = sems k"
  "mutexes (upd_object r_object f_object k) = mutexes k" "events (upd_object r_object f_object k) = events k"
  "mailboxes (upd_object r_object f_object k) = mailboxes k" "msgqueues (upd_object r_object f_object k) = msgqueues k"
  "mempools (upd_object r_object f_object k) = mempools k" "tlists (upd_object r_object f_object k) = tlists k"
  "tmlists (upd_object r_object f_object k) = tmlists k"
  "rt_thread_ready_priority_group (upd_object r_object f_object k) = rt_thread_ready_priority_group k"
  "rt_current_thread (upd_object r_object f_object k) = rt_current_thread k"
  "rt_current_priority (upd_object r_object f_object k) = rt_current_priority k"
  "rt_scheduler_lock_nest (upd_object r_object f_object k) = rt_scheduler_lock_nest k"
  "rt_interrupt_nest (upd_object r_object f_object k) = rt_interrupt_nest k"
  "rt_tick (upd_object r_object f_object k) = rt_tick k" "timer_random_nr (upd_object r_object f_object k) = timer_random_nr k"
  "objects (upd_sem r_sem f_sem k) = objects k" "object_list (upd_sem r_sem f_sem k) = object_list k"
  "threads (upd_sem r_sem f_sem k) = threads k" "timers (upd_sem r_sem f_sem k) = timers k"
  "sems (upd_sem r_sem f_sem k) = (sems k)(r_sem := f_sem (sems k r_sem))" "mutexes (upd_sem r_sem f_sem k) = mutexes k"
  "events (upd_sem r_sem f_sem k) = events k" "mailboxes (upd_sem r_sem f_sem k) = mailboxes k"
  "msgqueues (upd_sem r_sem f_sem k) = msgqueues k" "mempools (upd_sem r_sem f_sem k) = mempools k"
  "tlists (upd_sem r_sem f_sem k) = tlists k" "tmlists (upd_sem r_sem f_sem k) = tmlists k"
  "rt_thread_ready_priority_group (upd_sem r_sem f_sem k) = rt_thread_ready_priority_group k"
  "rt_current_thread (upd_sem r_sem f_sem k) = rt_current_thread k"
  "rt_current_priority (upd_sem r_sem f_sem k) = rt_current_priority k"
  "rt_scheduler_lock_nest (upd_sem r_sem f_sem k) = rt_scheduler_lock_nest k"
  "rt_interrupt_nest (upd_sem r_sem f_sem k) = rt_interrupt_nest k" "rt_tick (upd_sem r_sem f_sem k) = rt_tick k"
  "timer_random_nr (upd_sem r_sem f_sem k) = timer_random_nr k"
  "objects (upd_mutex r_mutex f_mutex k) = objects k" "object_list (upd_mutex r_mutex f_mutex k) = object_list k"
  "threads (upd_mutex r_mutex f_mutex k) = threads k" "timers (upd_mutex r_mutex f_mutex k) = timers k"
  "sems (upd_mutex r_mutex f_mutex k) = sems k"
  "mutexes (upd_mutex r_mutex f_mutex k) = (mutexes k)(r_mutex := f_mutex (mutexes k r_mutex))"
  "events (upd_mutex r_mutex f_mutex k) = events k" "mailboxes (upd_mutex r_mutex f_mutex k) = mailboxes k"
  "msgqueues (upd_mutex r_mutex f_mutex k) = msgqueues k" "mempools (upd_mutex r_mutex f_mutex k) = mempools k"
  "tlists (upd_mutex r_mutex f_mutex k) = tlists k" "tmlists (upd_mutex r_mutex f_mutex k) = tmlists k"
  "rt_thread_ready_priority_group (upd_mutex r_mutex f_mutex k) = rt_thread_ready_priority_group k"
  "rt_current_thread (upd_mutex r_mutex f_mutex k) = rt_current_thread k"
  "rt_current_priority (upd_mutex r_mutex f_mutex k) = rt_current_priority k"
  "rt_scheduler_lock_nest (upd_mutex r_mutex f_mutex k) = rt_scheduler_lock_nest k"
  "rt_interrupt_nest (upd_mutex r_mutex f_mutex k) = rt_interrupt_nest k" "rt_tick (upd_mutex r_mutex f_mutex k) = rt_tick k"
  "timer_random_nr (upd_mutex r_mutex f_mutex k) = timer_random_nr k"
  "objects (upd_event r_event f_event k) = objects k" "object_list (upd_event r_event f_event k) = object_list k"
  "threads (upd_event r_event f_event k) = threads k" "timers (upd_event r_event f_event k) = timers k"
  "sems (upd_event r_event f_event k) = sems k" "mutexes (upd_event r_event f_event k) = mutexes k"
  "events (upd_event r_event f_event k) = (events k)(r_event := f_event (events k r_event))"
  "mailboxes (upd_event r_event f_event k) = mailboxes k" "msgqueues (upd_event r_event f_event k) = msgqueues k"
  "mempools (upd_event r_event f_event k) = mempools k" "tlists (upd_event r_event f_event k) = tlists k"
  "tmlists (upd_event r_event f_event k) = tmlists k"
  "rt_thread_ready_priority_group (upd_event r_event f_event k) = rt_thread_ready_priority_group k"
  "rt_current_thread (upd_event r_event f_event k) = rt_current_thread k"
  "rt_current_priority (upd_event r_event f_event k) = rt_current_priority k"
  "rt_scheduler_lock_nest (upd_event r_event f_event k) = rt_scheduler_lock_nest k"
  "rt_interrupt_nest (upd_event r_event f_event k) = rt_interrupt_nest k" "rt_tick (upd_event r_event f_event k) = rt_tick k"
  "timer_random_nr (upd_event r_event f_event k) = timer_random_nr k"
  "objects (upd_mailbox r_mailbox f_mailbox k) = objects k" "object_list (upd_mailbox r_mailbox f_mailbox k) = object_list k"
  "threads (upd_mailbox r_mailbox f_mailbox k) = threads k" "timers (upd_mailbox r_mailbox f_mailbox k) = timers k"
  "sems (upd_mailbox r_mailbox f_mailbox k) = sems k" "mutexes (upd_mailbox r_mailbox f_mailbox k) = mutexes k"
  "events (upd_mailbox r_mailbox f_mailbox k) = events k"
  "mailboxes (upd_mailbox r_mailbox f_mailbox k) = (mailboxes k)(r_mailbox := f_mailbox (mailboxes k r_mailbox))"
  "msgqueues (upd_mailbox r_mailbox f_mailbox k) = msgqueues k" "mempools (upd_mailbox r_mailbox f_mailbox k) = mempools k"
  "tlists (upd_mailbox r_mailbox f_mailbox k) = tlists k" "tmlists (upd_mailbox r_mailbox f_mailbox k) = tmlists k"
  "rt_thread_ready_priority_group (upd_mailbox r_mailbox f_mailbox k) = rt_thread_ready_priority_group k"
  "rt_current_thread (upd_mailbox r_mailbox f_mailbox k) = rt_current_thread k"
  "rt_current_priority (upd_mailbox r_mailbox f_mailbox k) = rt_current_priority k"
  "rt_scheduler_lock_nest (upd_mailbox r_mailbox f_mailbox k) = rt_scheduler_lock_nest k"
  "rt_interrupt_nest (upd_mailbox r_mailbox f_mailbox k) = rt_interrupt_nest k"
  "rt_tick (upd_mailbox r_mailbox f_mailbox k) = rt_tick k"
  "timer_random_nr (upd_mailbox r_mailbox f_mailbox k) = timer_random_nr k"
  "objects (upd_msgqueue r_msgqueue f_msgqueue k) = objects k" "object_list (upd_msgqueue r_msgqueue f_msgqueue k) = object_list k"
  "threads (upd_msgqueue r_msgqueue f_msgqueue k) = threads k" "timers (upd_msgqueue r_msgqueue f_msgqueue k) = timers k"
  "sems (upd_msgqueue r_msgqueue f_msgqueue k) = sems k" "mutexes (upd_msgqueue r_msgqueue f_msgqueue k) = mutexes k"
  "events (upd_msgqueue r_msgqueue f_msgqueue k) = events k" "mailboxes (upd_msgqueue r_msgqueue f_msgqueue k) = mailboxes k"
  "msgqueues (upd_msgqueue r_msgqueue f_msgqueue k) = (msgqueues k)(r_msgqueue := f_msgqueue (msgqueues k r_msgqueue))"
  "mempools (upd_msgqueue r_msgqueue f_msgqueue k) = mempools k" "tlists (upd_msgqueue r_msgqueue f_msgqueue k) = tlists k"
  "tmlists (upd_msgqueue r_msgqueue f_msgqueue k) = tmlists k"
  "rt_thread_ready_priority_group (upd_msgqueue r_msgqueue f_msgqueue k) = rt_thread_ready_priority_group k"
  "rt_current_thread (upd_msgqueue r_msgqueue f_msgqueue k) = rt_current_thread k"
  "rt_current_priority (upd_msgqueue r_msgqueue f_msgqueue k) = rt_current_priority k"
  "rt_scheduler_lock_nest (upd_msgqueue r_msgqueue f_msgqueue k) = rt_scheduler_lock_nest k"
  "rt_interrupt_nest (upd_msgqueue r_msgqueue f_msgqueue k) = rt_interrupt_nest k"
  "rt_tick (upd_msgqueue r_msgqueue f_msgqueue k) = rt_tick k"
  "timer_random_nr (upd_msgqueue r_msgqueue f_msgqueue k) = timer_random_nr k"
  "objects (upd_mempool r_mempool f_mempool k) = objects k" "object_list (upd_mempool r_mempool f_mempool k) = object_list k"
  "threads (upd_mempool r_mempool f_mempool k) = threads k" "timers (upd_mempool r_mempool f_mempool k) = timers k"
  "sems (upd_mempool r_mempool f_mempool k) = sems k" "mutexes (upd_mempool r_mempool f_mempool k) = mutexes k"
  "events (upd_mempool r_mempool f_mempool k) = events k" "mailboxes (upd_mempool r_mempool f_mempool k) = mailboxes k"
  "msgqueues (upd_mempool r_mempool f_mempool k) = msgqueues k"
  "mempools (upd_mempool r_mempool f_mempool k) = (mempools k)(r_mempool := f_mempool (mempools k r_mempool))"
  "tlists (upd_mempool r_mempool f_mempool k) = tlists k" "tmlists (upd_mempool r_mempool f_mempool k) = tmlists k"
  "rt_thread_ready_priority_group (upd_mempool r_mempool f_mempool k) = rt_thread_ready_priority_group k"
  "rt_current_thread (upd_mempool r_mempool f_mempool k) = rt_current_thread k"
  "rt_current_priority (upd_mempool r_mempool f_mempool k) = rt_current_priority k"
  "rt_scheduler_lock_nest (upd_mempool r_mempool f_mempool k) = rt_scheduler_lock_nest k"
  "rt_interrupt_nest (upd_mempool r_mempool f_mempool k) = rt_interrupt_nest k"
  "rt_tick (upd_mempool r_mempool f_mempool k) = rt_tick k"
  "timer_random_nr (upd_mempool r_mempool f_mempool k) = timer_random_nr k"
  by (simp_all add: upd_defs)

abbreviation th_prio :: "kernel \<Rightarrow> tid \<Rightarrow> nat" where
  "th_prio k t \<equiv> th_current_priority (threads k t)"

abbreviation th_code :: "kernel \<Rightarrow> tid \<Rightarrow> u8" where
  "th_code k t \<equiv> stat_code (th_stat (threads k t))"

text \<open>\<^verbatim>\<open>1L << priority\<close>, the bit of a priority in the group word.\<close>

definition prio_mask :: "nat \<Rightarrow> u32" where
  "prio_mask p = push_bit p 1"

lemma bit_prio_mask: "bit (prio_mask p) i \<longleftrightarrow> i = p \<and> p < 32"
  by (auto simp: prio_mask_def bit_simps)

lemma bit_clear_prio_mask: "bit (w AND NOT (prio_mask p)) i \<longleftrightarrow> bit w i \<and> i \<noteq> p"
  by (auto simp: bit_and_iff bit_not_iff bit_prio_mask dest: bit_imp_le_length)

section \<open>Lists of threads and timers\<close>

definition tlist_remove :: "tid \<Rightarrow> kernel \<Rightarrow> kernel" where
  "tlist_remove t k = k\<lparr>tlists := \<lambda>h. removeAll t (tlists k h)\<rparr>"

definition tlist_insert_after :: "tlist \<Rightarrow> tid \<Rightarrow> kernel \<Rightarrow> kernel" where
  "tlist_insert_after h t k = k\<lparr>tlists := (tlists k)(h := t # tlists k h)\<rparr>"

definition tlist_insert_before :: "tlist \<Rightarrow> tid \<Rightarrow> kernel \<Rightarrow> kernel" where
  "tlist_insert_before h t k = k\<lparr>tlists := (tlists k)(h := tlists k h @ [t])\<rparr>"

definition tlist_init :: "tlist \<Rightarrow> kernel \<Rightarrow> kernel" where
  "tlist_init h k = k\<lparr>tlists := (tlists k)(h := [])\<rparr>"

definition tmlist_remove :: "timer_ref \<Rightarrow> kernel \<Rightarrow> kernel" where
  "tmlist_remove t k = k\<lparr>tmlists := \<lambda>h. removeAll t (tmlists k h)\<rparr>"

section \<open>Zeroed memory\<close>

text \<open>The contents of structures and of the static variables in memory set to zero. The name of an
  object is an array of \<^verbatim>\<open>RT_NAME_MAX\<close> characters.\<close>

definition zero_object :: rt_object where
  "zero_object = \<lparr>ob_name = replicate RT_NAME_MAX (CHR 0x00), ob_type = 0, ob_flag = 0\<rparr>"

definition zero_timer :: rt_timer where
  "zero_timer = \<lparr>tm_timeout_func = UserTimeout 0, tm_parameter = 0, tm_init_tick = 0, tm_timeout_tick = 0\<rparr>"

definition zero_semaphore :: rt_semaphore where
  "zero_semaphore = \<lparr>sem_value = 0, sem_max_value = 0\<rparr>"

definition zero_mutex :: rt_mutex where
  "zero_mutex = \<lparr>mtx_ceiling_priority = 0, mtx_priority = 0, mtx_hold = 0, mtx_owner = None\<rparr>"

definition zero_event :: rt_event where
  "zero_event = \<lparr>ev_set = 0\<rparr>"

definition zero_mailbox :: rt_mailbox where
  "zero_mailbox = \<lparr>mb_msg_pool = [], mb_size = 0, mb_entry = 0, mb_in_offset = 0, mb_out_offset = 0\<rparr>"

definition zero_messagequeue :: rt_messagequeue where
  "zero_messagequeue = \<lparr>mq_msg_pool = [], mq_msg_size = 0, mq_max_msgs = 0, mq_entry = 0,
     mq_queue_head = None, mq_queue_tail = None, mq_queue_free = None\<rparr>"

definition zero_mempool :: rt_mempool where
  "zero_mempool = \<lparr>mp_start_address = 0, mp_size = 0, mp_block_size = 0, mp_block_list = 0,
     mp_block_total_count = 0, mp_block_free_count = 0\<rparr>"

definition zero_thread :: rt_thread where
  "zero_thread = \<lparr>th_entry = 0, th_parameter = 0, th_stack_addr = 0, th_stack_size = 0, th_error = 0,
     th_stat = 0, th_ttmr_set = False, th_init_tick = 0, th_remaining_tick = 0,
     th_current_priority = 0, th_init_priority = 0, th_number_mask = 0, th_cleanup = None,
     th_taken_object_list = [], th_pending_object = None, th_event_set = 0, th_event_info = 0,
     th_user_data = 0\<rparr>"

definition zero_kernel :: kernel where
  "zero_kernel = \<lparr>objects = (\<lambda>_. zero_object), object_list = (\<lambda>_. []),
     threads = (\<lambda>_. zero_thread),
     timers = (\<lambda>_. zero_timer),
     sems = (\<lambda>_. zero_semaphore),
     mutexes = (\<lambda>_. zero_mutex),
     events = (\<lambda>_. zero_event),
     mailboxes = (\<lambda>_. zero_mailbox),
     msgqueues = (\<lambda>_. zero_messagequeue),
     mempools = (\<lambda>_. zero_mempool),
     tlists = (\<lambda>_. []), tmlists = (\<lambda>_. []), rt_thread_ready_priority_group = 0,
     rt_current_thread = None, rt_current_priority = 0, rt_scheduler_lock_nest = 0,
     rt_interrupt_nest = 0, rt_tick = 0, timer_random_nr = 0\<rparr>"

end
