(* ===== verification/RT_Ffs.thy ===== *)
theory RT_Ffs
  imports RT_Prelude
begin

text \<open>
  \<^verbatim>\<open>__rt_ffs\<close> of \<^verbatim>\<open>src/kservice.c\<close>, the find-first-set primitive on which the
  scheduler's choice of a priority rests. The source has two variants, the byte table (the
  default) and the mod-37 table (\<^verbatim>\<open>RT_USING_TINY_FFS\<close>); both are modelled and shown to
  satisfy one contract, stated as the locale \<open>first_set_bit\<close>.
\<close>

section \<open>The two implementations\<close>

definition lowest_bit_bitmap :: "nat list" where
  "lowest_bit_bitmap =
    [0, 0, 1, 0, 2, 0, 1, 0, 3, 0, 1, 0, 2, 0, 1, 0, 4, 0, 1, 0, 2, 0, 1, 0, 3, 0, 1, 0, 2, 0, 1, 0,
     5, 0, 1, 0, 2, 0, 1, 0, 3, 0, 1, 0, 2, 0, 1, 0, 4, 0, 1, 0, 2, 0, 1, 0, 3, 0, 1, 0, 2, 0, 1, 0,
     6, 0, 1, 0, 2, 0, 1, 0, 3, 0, 1, 0, 2, 0, 1, 0, 4, 0, 1, 0, 2, 0, 1, 0, 3, 0, 1, 0, 2, 0, 1, 0,
     5, 0, 1, 0, 2, 0, 1, 0, 3, 0, 1, 0, 2, 0, 1, 0, 4, 0, 1, 0, 2, 0, 1, 0, 3, 0, 1, 0, 2, 0, 1, 0,
     7, 0, 1, 0, 2, 0, 1, 0, 3, 0, 1, 0, 2, 0, 1, 0, 4, 0, 1, 0, 2, 0, 1, 0, 3, 0, 1, 0, 2, 0, 1, 0,
     5, 0, 1, 0, 2, 0, 1, 0, 3, 0, 1, 0, 2, 0, 1, 0, 4, 0, 1, 0, 2, 0, 1, 0, 3, 0, 1, 0, 2, 0, 1, 0,
     6, 0, 1, 0, 2, 0, 1, 0, 3, 0, 1, 0, 2, 0, 1, 0, 4, 0, 1, 0, 2, 0, 1, 0, 3, 0, 1, 0, 2, 0, 1, 0,
     5, 0, 1, 0, 2, 0, 1, 0, 3, 0, 1, 0, 2, 0, 1, 0, 4, 0, 1, 0, 2, 0, 1, 0, 3, 0, 1, 0, 2, 0, 1, 0]"

definition rt_ffs :: "u32 \<Rightarrow> nat" where
  "rt_ffs value =
     (if value = 0 then 0
      else if value AND 0xff \<noteq> 0 then lowest_bit_bitmap ! unat (value AND 0xff) + 1
      else if value AND 0xff00 \<noteq> 0
        then lowest_bit_bitmap ! unat (drop_bit 8 (value AND 0xff00)) + 9
      else if value AND 0xff0000 \<noteq> 0
        then lowest_bit_bitmap ! unat (drop_bit 16 (value AND 0xff0000)) + 17
      else lowest_bit_bitmap ! unat (drop_bit 24 (value AND 0xff000000)) + 25)"

definition lowest_bit_bitmap_tiny :: "nat list" where
  "lowest_bit_bitmap_tiny =
    [0, 1, 2, 27, 3, 24, 28, 32, 4, 17, 25, 31, 29, 12, 32, 14, 5, 8, 18, 32, 26, 23, 32, 16,
     30, 11, 13, 7, 32, 22, 15, 10, 6, 21, 9, 20, 19]"

definition rt_ffs_tiny :: "u32 \<Rightarrow> nat" where
  "rt_ffs_tiny value =
     lowest_bit_bitmap_tiny ! (unat ((value AND (value - 1)) XOR value) mod 37)"

section \<open>The contract\<close>

locale first_set_bit =
  fixes ffs :: "u32 \<Rightarrow> nat"
  assumes ffs_zero: "ffs 0 = 0"
    and ffs_pos: "w \<noteq> 0 \<Longrightarrow> 0 < ffs w"
    and ffs_bit: "w \<noteq> 0 \<Longrightarrow> bit w (ffs w - 1)"
    and ffs_least: "w \<noteq> 0 \<Longrightarrow> i < ffs w - 1 \<Longrightarrow> \<not> bit w i"
begin

lemma ffs_le: "bit w i \<Longrightarrow> ffs w - 1 \<le> i"
  using ffs_least [of w i] by (cases "w = 0") (auto simp: not_less [symmetric])

lemma ffs_bound: "w \<noteq> 0 \<Longrightarrow> ffs w - 1 < 32"
  using bit_imp_le_length [OF ffs_bit] by simp

lemma ffs_eq_Least: "ffs w = (if w = 0 then 0 else Suc (LEAST i. bit w i))"
proof (cases "w = 0")
  case False
  have "(LEAST i. bit w i) = ffs w - 1"
    by (rule Least_equality) (use False ffs_bit ffs_le in auto)
  with False ffs_pos show ?thesis by simp
qed (simp add: ffs_zero)

end

section \<open>Both implementations meet it\<close>

text \<open>The byte table, checked entry by entry.\<close>

primrec bitmap_ok :: "nat \<Rightarrow> nat list \<Rightarrow> bool" where
  "bitmap_ok b [] \<longleftrightarrow> True"
| "bitmap_ok b (v # vs) \<longleftrightarrow> b mod (2 * 2 ^ v) = 2 ^ v \<and> bitmap_ok (b + 1) vs"

lemma bitmap_ok_nth: "bitmap_ok b vs \<Longrightarrow> i < length vs \<Longrightarrow> (b + i) mod (2 * 2 ^ (vs ! i)) = 2 ^ (vs ! i)"
  by (induction vs arbitrary: b i) (force simp: nth_Cons split: nat.splits)+

lemma bitmap_entries: "bitmap_ok 1 (tl lowest_bit_bitmap)" "length lowest_bit_bitmap = 256"
  by (simp_all add: lowest_bit_bitmap_def)

lemma mod_pow_bit:
  fixes b :: nat
  assumes "b mod (2 * 2 ^ v) = 2 ^ v"
  shows "bit b v" "i < v \<Longrightarrow> \<not> bit b i"
proof -
  have e: "bit b i = bit (take_bit (Suc v) b) i" if "i \<le> v" for i
    using that by (simp add: bit_take_bit_iff)
  have "take_bit (Suc v) b = 2 ^ v" using assms by (simp add: take_bit_eq_mod)
  with e have "bit b i \<longleftrightarrow> i = v" if "i \<le> v" for i
    using that by (auto simp: bit_exp_iff)
  then show "bit b v" "i < v \<Longrightarrow> \<not> bit b i" by auto
qed

lemma bitmap_least:
  assumes "0 < b" "b < 256"
  shows "bit b (lowest_bit_bitmap ! b)" "i < lowest_bit_bitmap ! b \<Longrightarrow> \<not> bit b i"
proof -
  have "b mod (2 * 2 ^ (lowest_bit_bitmap ! b)) = 2 ^ (lowest_bit_bitmap ! b)"
    using bitmap_ok_nth [OF bitmap_entries(1), of "b - 1"] assms bitmap_entries(2)
    by (simp add: nth_tl)
  from mod_pow_bit [OF this] show "bit b (lowest_bit_bitmap ! b)"
    "i < lowest_bit_bitmap ! b \<Longrightarrow> \<not> bit b i" by auto
qed

text \<open>One byte of the word, at offset \<open>k\<close>.\<close>

lemma bit_ff: "bit (0xff :: u32) i \<longleftrightarrow> i < 8"
proof -
  have "(0xff :: u32) = mask 8" by (simp add: mask_eq_exp_minus_1)
  then show ?thesis by (simp only: bit_mask_iff) auto
qed

lemma byte_ffs:
  fixes w m :: u32
  assumes k: "k \<le> 24" and m: "m = push_bit k 0xff" and nz: "w AND m \<noteq> 0"
    and low: "\<And>i. i < k \<Longrightarrow> \<not> bit w i"
    and v: "v = lowest_bit_bitmap ! unat (drop_bit k (w AND m))"
  shows "bit w (k + v)" and "i < k + v \<Longrightarrow> \<not> bit w i"
proof -
  define b where "b = drop_bit k (w AND m)"
  have bit_m: "bit m i \<longleftrightarrow> k \<le> i \<and> i < k + 8" for i
    using k unfolding m by (simp only: bit_push_bit_iff bit_ff possible_bit_word) auto
  have bits: "bit b i \<longleftrightarrow> i < 8 \<and> bit w (k + i)" for i
    by (auto simp: b_def bit_drop_bit_eq bit_and_iff bit_m)
  have ub: "bit (unat b) i \<longleftrightarrow> i < 8 \<and> bit w (k + i)" for i
    unfolding bit_unsigned_iff bits by simp
  have "unat b < 2 ^ 8"
    by (rule take_bit_nat_eq_self_iff [THEN iffD1], rule bit_eqI) (auto simp: bit_take_bit_iff ub)
  moreover from nz obtain j where "bit (w AND m) j" by (auto simp: bit_eq_iff)
  then have "bit b (j - k)" by (auto simp: bit_m bits bit_and_iff)
  then have "unat b \<noteq> 0" by (metis bit_0_eq bot_apply bot_bool_def unat_eq_0)
  ultimately have *: "0 < unat b" "unat b < 256" by simp_all
  show "bit w (k + v)" using bitmap_least(1) [OF *] ub by (simp add: v b_def)
  show "\<not> bit w i" if i: "i < k + v"
  proof (cases "i < k")
    case False
    then have "i - k < v" "k + (i - k) = i" using i by auto
    moreover have "v < 8" using bitmap_least(1) [OF *] ub by (simp add: v b_def)
    ultimately show ?thesis using bitmap_least(2) [OF *, of "i - k"] ub [of "i - k"] by (simp add: v b_def)
  qed (rule low)
qed

lemma rt_ffs_correct:
  assumes "w \<noteq> 0"
  shows "0 < rt_ffs w \<and> bit w (rt_ffs w - 1) \<and> (\<forall>i < rt_ffs w - 1. \<not> bit w i)"
proof -
  have m: "0xff = push_bit 0 (0xff::u32)" "0xff00 = push_bit 8 (0xff::u32)"
    "0xff0000 = push_bit 16 (0xff::u32)" "0xff000000 = push_bit 24 (0xff::u32)"
    by simp_all
  have zero: "\<not> bit w i" if "w AND push_bit k 0xff = 0" "k \<le> i" "i < k + 8" "k \<le> 24" for k i
  proof -
    have "bit (push_bit k 0xff :: u32) i"
      using that by (simp only: bit_push_bit_iff bit_ff possible_bit_word) auto
    then show ?thesis using and_zero_bitD [OF that(1), of i] by blast
  qed
  consider (a) "w AND 0xff \<noteq> 0" | (b) "w AND 0xff = 0" "w AND 0xff00 \<noteq> 0"
    | (c) "w AND 0xff = 0" "w AND 0xff00 = 0" "w AND 0xff0000 \<noteq> 0"
    | (d) "w AND 0xff = 0" "w AND 0xff00 = 0" "w AND 0xff0000 = 0" by blast
  then show ?thesis
  proof cases
    case a
    then show ?thesis
      using byte_ffs [of 0 "0xff" w, OF _ m(1) a _ refl] assms by (simp add: rt_ffs_def)
  next
    case b
    have low: "\<not> bit w i" if "i < 8" for i using zero [of 0 i] b(1) that by simp
    show ?thesis
      using byte_ffs [of 8 "0xff00" w, OF _ m(2) b(2) low refl] b assms
      by (simp add: rt_ffs_def add.commute)
  next
    case c
    have low: "\<not> bit w i" if "i < 16" for i
      using zero [of 0 i] zero [of 8 i] c(1,2) that by (cases "i < 8") simp_all
    show ?thesis
      using byte_ffs [of 16 "0xff0000" w, OF _ m(3) c(3) low refl] c assms
      by (simp add: rt_ffs_def add.commute)
  next
    case d
    have low: "\<not> bit w i" if "i < 24" for i
      using zero [of 0 i] zero [of 8 i] zero [of 16 i] d(1-3) that
      by (cases "i < 8"; cases "i < 16") simp_all
    have nz: "w AND 0xff000000 \<noteq> 0"
    proof
      assume "w AND 0xff000000 = 0"
      then have "\<not> bit w i" if "24 \<le> i" "i < 32" for i using zero [of 24 i] that by simp
      with low have "\<not> bit w i" for i using bit_imp_le_length [of w i] by (cases "i < 24") force+
      then show False using assms by (auto simp: bit_eq_iff)
    qed
    show ?thesis
      using byte_ffs [of 24 "0xff000000" w, OF _ m(4) nz low refl] d assms
      by (simp add: rt_ffs_def add.commute)
  qed
qed

interpretation table_ffs: first_set_bit rt_ffs
  using rt_ffs_correct by unfold_locales (auto simp: rt_ffs_def)

text \<open>The mod-37 table: the argument is first reduced to its lowest set bit, a power of two.\<close>

lemma lowest_bit_exp:
  fixes w :: u32
  assumes b: "bit w n" and low: "\<And>i. i < n \<Longrightarrow> \<not> bit w i"
  shows "(w AND (w - 1)) XOR w = 2 ^ n"
proof -
  have n: "n < 32" using bit_imp_le_length [OF b] by simp
  define h where "h = drop_bit (Suc n) w"
  have t: "take_bit (Suc n) w = 2 ^ n"
    by (rule bit_eqI) (use b low n in \<open>auto simp: bit_take_bit_iff bit_exp_iff less_Suc_eq\<close>)
  have "w = push_bit (Suc n) h + 2 ^ n"
    using bits_ident [of "Suc n" w] t by (simp add: h_def)
  then have "w - 1 = push_bit (Suc n) h + mask n"
    by (simp add: mask_eq_exp_minus_1)
  also have "\<dots> = push_bit (Suc n) h OR mask n"
    by (rule disjunctive_add_eq_or) (rule bit_eqI, auto simp: bit_simps)
  finally have pred: "bit (w - 1) i \<longleftrightarrow> i < 32 \<and> (i < n \<or> n < i \<and> bit w i)" for i
    by (auto simp: bit_or_iff bit_mask_iff bit_push_bit_iff h_def bit_drop_bit_eq
        simp del: push_bit_Suc)
  show ?thesis
    by (rule bit_eqI)
      (use b low n in \<open>auto simp: bit_xor_iff bit_and_iff pred bit_exp_iff not_less le_less\<close>)
qed

lemma tiny_entries:
  assumes "n < 32"
  shows "lowest_bit_bitmap_tiny ! (unat ((2::u32) ^ n) mod 37) = n + 1"
proof -
  have "n \<in> set [0..<32]" using assms by simp
  also have "[0..<32] = [0, 1, 2, 3, 4, 5, 6, 7, 8, 9, 10, 11, 12, 13, 14, 15, 16, 17, 18, 19, 20,
      21, 22, 23, 24, 25, 26, 27, 28, 29, 30, 31]"
    by (simp add: upt_conv_Cons)
  finally have "n \<in> set \<dots>" .
  then have "lowest_bit_bitmap_tiny ! ((2 ^ n :: nat) mod 37) = n + 1"
    unfolding set_simps by (elim insertE) (simp_all add: lowest_bit_bitmap_tiny_def)
  moreover have "unat ((2::u32) ^ n) = 2 ^ n"
    by (rule bit_eqI) (use assms in \<open>auto simp: bit_unsigned_iff bit_exp_iff\<close>)
  ultimately show ?thesis by simp
qed

lemma rt_ffs_tiny_eq: "rt_ffs_tiny w = rt_ffs w"
proof (cases "w = 0")
  case True
  then show ?thesis by (simp add: rt_ffs_tiny_def rt_ffs_def lowest_bit_bitmap_tiny_def)
next
  case False
  have "rt_ffs_tiny w = lowest_bit_bitmap_tiny ! (unat ((2::u32) ^ (rt_ffs w - 1)) mod 37)"
    unfolding rt_ffs_tiny_def
    by (subst lowest_bit_exp [OF table_ffs.ffs_bit [OF False] table_ffs.ffs_least [OF False]]) simp_all
  also have "\<dots> = rt_ffs w"
    using tiny_entries [OF table_ffs.ffs_bound [OF False]] table_ffs.ffs_pos [OF False] by simp
  finally show ?thesis .
qed

interpretation tiny_ffs: first_set_bit rt_ffs_tiny
  using table_ffs.first_set_bit_axioms by (simp add: first_set_bit_def rt_ffs_tiny_eq)

section \<open>Properties\<close>

text \<open>C40. \<^verbatim>\<open>__rt_ffs\<close>: both variants return the position, counted from one, of the least
  significant set bit of a non-zero word, and zero for zero.\<close>

theorem rt_ffs_both_variants:
  "rt_ffs_tiny w = rt_ffs w \<and>
   (if w = 0 then rt_ffs w = 0
    else 0 < rt_ffs w \<and> rt_ffs w \<le> 32 \<and> bit w (rt_ffs w - 1) \<and> (\<forall>i < rt_ffs w - 1. \<not> bit w i))"
  using rt_ffs_tiny_eq [of w] rt_ffs_correct [of w] table_ffs.ffs_bound [of w]
  by (auto simp: rt_ffs_def)

theorem rt_ffs_both_variants_witness:
  "rt_ffs_tiny 0x00a00000 = 22 \<and> rt_ffs 0x00a00000 = 22 \<and> bit (0x00a00000 :: u32) 21 \<and> \<not> bit (0x00a00000 :: u32) 20"
proof -
  have "rt_ffs 0x00a00000 = 22" by (simp add: rt_ffs_def lowest_bit_bitmap_def)
  then show ?thesis using rt_ffs_both_variants [of "0x00a00000"] by simp
qed

end
