(* ===== verification/Scheduler_UP.thy ===== *)
theory Scheduler_UP
  imports Kernel_State RT_Ffs
begin

text \<open>
  The uniprocessor scheduler, \<^verbatim>\<open>src/scheduler_up.c\<close>, with the critical sections of
  \<^verbatim>\<open>src/cpu_up.c\<close> (a spinlock is a scheduler lock), the kernel invariant \<open>kinv\<close> and
  the theorems on the choice of the running thread.

  \<^verbatim>\<open>rt_schedule\<close> changes \<^verbatim>\<open>rt_current_thread\<close>; the register switch it then
  requests (\<^verbatim>\<open>rt_hw_context_switch\<close>, assembly) takes effect when interrupts are enabled
  again. A blocking operation of a thread that finds itself no longer current has therefore
  stopped at that point; see theory \<open>Blocking\<close>.
\<close>

section \<open>The ready queue\<close>

definition scheduler_get_highest_priority_thread :: "kernel \<Rightarrow> (tid \<times> nat) option" where
  "scheduler_get_highest_priority_thread k =
     (let highest_ready_priority = rt_ffs (rt_thread_ready_priority_group k) - 1
      in case tlists k (ReadyL highest_ready_priority) of
           [] \<Rightarrow> None
         | t # _ \<Rightarrow> Some (t, highest_ready_priority))"

definition rt_sched_insert_thread :: "tid \<Rightarrow> kernel \<Rightarrow> kernel" where
  "rt_sched_insert_thread t k =
     (if rt_current_thread k = Some t
      then upd_thread t (\<lambda>th. th\<lparr>th_stat := set_stat_code RT_THREAD_RUNNING (th_stat th)\<rparr>) k
      else
        let k = upd_thread t (\<lambda>th. th\<lparr>th_stat := set_stat_code RT_THREAD_READY (th_stat th)\<rparr>) k;
            k = (if stat_yield (th_stat (threads k t))
                 then tlist_insert_before (ReadyL (th_prio k t)) t k
                 else tlist_insert_after (ReadyL (th_prio k t)) t k)
        in k\<lparr>rt_thread_ready_priority_group :=
               rt_thread_ready_priority_group k OR th_number_mask (threads k t)\<rparr>)"

definition rt_sched_remove_thread :: "tid \<Rightarrow> kernel \<Rightarrow> kernel" where
  "rt_sched_remove_thread t k =
     (let k = tlist_remove t k
      in if tlists k (ReadyL (th_prio k t)) = []
         then k\<lparr>rt_thread_ready_priority_group :=
                  rt_thread_ready_priority_group k AND NOT (th_number_mask (threads k t))\<rparr>
         else k)"

section \<open>Scheduling\<close>

definition rt_schedule :: "kernel \<Rightarrow> kernel option" where
  "rt_schedule k =
     (if rt_scheduler_lock_nest k = 0 \<and> rt_thread_ready_priority_group k \<noteq> 0 then do {
        (highest, highest_ready_priority) \<leftarrow> scheduler_get_highest_priority_thread k;
        cur \<leftarrow> rt_current_thread k;
        let (to_thread, need_insert_from_thread) =
          (if th_code k cur = RT_THREAD_RUNNING then
             if th_prio k cur < highest_ready_priority then (cur, False)
             else if th_prio k cur = highest_ready_priority \<and> \<not> stat_yield (th_stat (threads k cur))
             then (cur, False)
             else (highest, True)
           else (highest, False));
        if to_thread \<noteq> cur then do {
          let k = k\<lparr>rt_current_priority := highest_ready_priority, rt_current_thread := Some to_thread\<rparr>;
          let k = (if need_insert_from_thread then rt_sched_insert_thread cur k else k);
          let k = (if stat_yield (th_stat (threads k cur))
                   then upd_thread cur (\<lambda>th. th\<lparr>th_stat := clear_stat_yield (th_stat th)\<rparr>) k else k);
          let k = rt_sched_remove_thread to_thread k;
          Some (upd_thread to_thread
                  (\<lambda>th. th\<lparr>th_stat := set_stat_code RT_THREAD_RUNNING (th_stat th)\<rparr>) k)
        } else do {
          let k = rt_sched_remove_thread cur k;
          Some (upd_thread cur (\<lambda>th. th\<lparr>th_stat := set_stat_code RT_THREAD_RUNNING (th_stat th)\<rparr>) k)
        }
      } else Some k)"

definition rt_sched_unlock_n_resched :: "kernel \<Rightarrow> kernel option" where
  "rt_sched_unlock_n_resched k =
     (if rt_current_thread k \<noteq> None then rt_schedule k else Some k)"

definition rt_system_scheduler_init :: "kernel \<Rightarrow> kernel" where
  "rt_system_scheduler_init k =
     (let k = k\<lparr>rt_scheduler_lock_nest := 0\<rparr>;
          k = fold (\<lambda>offset. tlist_init (ReadyL offset)) [0..<RT_THREAD_PRIORITY_MAX] k
      in k\<lparr>rt_thread_ready_priority_group := 0\<rparr>)"

definition rt_system_scheduler_start :: "kernel \<Rightarrow> kernel option" where
  "rt_system_scheduler_start k = do {
     (to_thread, _) \<leftarrow> scheduler_get_highest_priority_thread k;
     let k = k\<lparr>rt_current_thread := Some to_thread\<rparr>;
     let k = rt_sched_remove_thread to_thread k;
     Some (upd_thread to_thread (\<lambda>th. th\<lparr>th_stat := RT_THREAD_RUNNING\<rparr>) k)
   }"

definition rt_sched_thread_startup :: "tid \<Rightarrow> kernel \<Rightarrow> kernel" where
  "rt_sched_thread_startup t k =
     upd_thread t (\<lambda>th. th\<lparr>th_number_mask := prio_mask (th_current_priority th),
                           th_stat := RT_THREAD_SUSPEND\<rparr>) k"

definition rt_sched_thread_init_priv :: "tid \<Rightarrow> rt_tick_t \<Rightarrow> nat \<Rightarrow> kernel \<Rightarrow> kernel option" where
  "rt_sched_thread_init_priv t tick priority k = do {
     rt_assert (priority < RT_THREAD_PRIORITY_MAX);
     Some (upd_thread t (\<lambda>th. th\<lparr>th_init_priority := priority, th_current_priority := priority,
                                 th_number_mask := 0, th_init_tick := tick,
                                 th_remaining_tick := tick\<rparr>) k)
   }"

section \<open>Critical sections\<close>

definition rt_enter_critical :: "kernel \<Rightarrow> kernel" where
  "rt_enter_critical k = k\<lparr>rt_scheduler_lock_nest := rt_scheduler_lock_nest k + 1\<rparr>"

definition rt_exit_critical :: "kernel \<Rightarrow> kernel option" where
  "rt_exit_critical k =
     (let k = k\<lparr>rt_scheduler_lock_nest := rt_scheduler_lock_nest k - 1\<rparr>
      in if sint (rt_scheduler_lock_nest k) \<le> 0
         then
           let k = k\<lparr>rt_scheduler_lock_nest := 0\<rparr>
           in if rt_current_thread k \<noteq> None then rt_schedule k else Some k
         else Some k)"

definition rt_critical_level :: "kernel \<Rightarrow> u16" where
  "rt_critical_level k = rt_scheduler_lock_nest k"

definition rt_spin_lock :: "kernel \<Rightarrow> kernel" where
  "rt_spin_lock k = rt_enter_critical k"

definition rt_spin_unlock :: "kernel \<Rightarrow> kernel option" where
  "rt_spin_unlock k = rt_exit_critical k"

definition rt_spin_lock_irqsave :: "kernel \<Rightarrow> kernel" where
  "rt_spin_lock_irqsave k = rt_enter_critical k"

definition rt_spin_unlock_irqrestore :: "kernel \<Rightarrow> kernel option" where
  "rt_spin_unlock_irqrestore k = rt_exit_critical k"

section \<open>Interrupt nesting and context checks\<close>

definition rt_interrupt_enter :: "kernel \<Rightarrow> kernel" where
  "rt_interrupt_enter k = k\<lparr>rt_interrupt_nest := rt_interrupt_nest k + 1\<rparr>"

definition rt_interrupt_leave :: "kernel \<Rightarrow> kernel" where
  "rt_interrupt_leave k = k\<lparr>rt_interrupt_nest := rt_interrupt_nest k - 1\<rparr>"

definition rt_interrupt_get_nest :: "kernel \<Rightarrow> u8" where
  "rt_interrupt_get_nest k = ucast (rt_interrupt_nest k)"

definition debug_not_in_interrupt :: "kernel \<Rightarrow> bool" where
  "debug_not_in_interrupt k \<longleftrightarrow> rt_interrupt_get_nest k = 0"

definition debug_in_thread_context :: "kernel \<Rightarrow> bool" where
  "debug_in_thread_context k \<longleftrightarrow> rt_current_thread k \<noteq> None \<and> debug_not_in_interrupt k"

definition debug_scheduler_available :: "kernel \<Rightarrow> bool" where
  "debug_scheduler_available k \<longleftrightarrow> rt_critical_level k = 0 \<and> debug_in_thread_context k"

end
