(* ===== verification/Kernel_Inv.thy ===== *)
theory Kernel_Inv
  imports Scheduler_UP
begin

text \<open>
  The scheduler invariant \<open>kinv\<close>, its preservation by the ready-queue operations and by
  \<^verbatim>\<open>rt_schedule\<close>, and what \<^verbatim>\<open>rt_schedule\<close> chooses. \<open>kinv_but t\<close> is the
  invariant while thread \<open>t\<close> is between two lists; \<open>same_but_sched\<close> is the frame of the
  scheduler; \<open>sched_view\<close> and \<open>thread_view\<close> are what the invariant reads, so that an
  operation on another component preserves it by \<open>kinv_cong\<close>.
\<close>

section \<open>The kernel invariant\<close>

text \<open>
  The invariant ties the ready table to the threads: a thread is in the ready list of its
  priority exactly when its status is READY, the bit of a priority in the group word is set
  exactly when its list is not empty, no thread is in two lists, only the current thread has
  status RUNNING, and threads in a suspend list are suspended.
\<close>

fun is_susp_list :: "tlist \<Rightarrow> bool" where
  "is_susp_list (ReadyL _) = False"
| "is_susp_list DefunctL = False"
| "is_susp_list _ = True"

definition thread_suspended :: "kernel \<Rightarrow> tid \<Rightarrow> bool" where
  "thread_suspended k t \<longleftrightarrow> stat_suspended (th_stat (threads k t))"

definition lists_ok :: "kernel \<Rightarrow> bool" where
  "lists_ok k \<longleftrightarrow> (\<forall>h. distinct (tlists k h)) \<and>
     (\<forall>t h h'. t \<in> set (tlists k h) \<longrightarrow> t \<in> set (tlists k h') \<longrightarrow> h = h')"

definition group_ok :: "kernel \<Rightarrow> bool" where
  "group_ok k \<longleftrightarrow> (\<forall>p. bit (rt_thread_ready_priority_group k) p \<longleftrightarrow> tlists k (ReadyL p) \<noteq> [])"

definition thread_ok :: "kernel \<Rightarrow> tid \<Rightarrow> bool" where
  "thread_ok k t \<longleftrightarrow>
     (\<forall>p. t \<in> set (tlists k (ReadyL p)) \<longleftrightarrow> th_code k t = RT_THREAD_READY \<and> th_prio k t = p) \<and>
     (th_code k t \<noteq> RT_THREAD_INIT \<and> th_code k t \<noteq> RT_THREAD_CLOSE \<longrightarrow>
        th_prio k t < RT_THREAD_PRIORITY_MAX \<and> th_number_mask (threads k t) = prio_mask (th_prio k t)) \<and>
     (\<forall>h. is_susp_list h \<and> t \<in> set (tlists k h) \<longrightarrow> thread_suspended k t) \<and>
     (t \<in> set (tlists k DefunctL) \<longrightarrow> th_code k t = RT_THREAD_CLOSE) \<and>
     (th_code k t = RT_THREAD_RUNNING \<longrightarrow> rt_current_thread k = Some t) \<and>
     (rt_current_thread k = Some t \<longrightarrow> th_code k t \<noteq> RT_THREAD_READY \<and> th_code k t \<noteq> RT_THREAD_INIT)"

definition kglobal :: "kernel \<Rightarrow> bool" where
  "kglobal k \<longleftrightarrow> lists_ok k \<and> group_ok k"

definition kinv :: "kernel \<Rightarrow> bool" where
  "kinv k \<longleftrightarrow> kglobal k \<and> (\<forall>t. thread_ok k t)"

text \<open>The invariant with thread \<open>t\<close> taken out of every list and its own state left open.\<close>

definition kinv_but :: "tid \<Rightarrow> kernel \<Rightarrow> bool" where
  "kinv_but t k \<longleftrightarrow> kglobal k \<and> (\<forall>t'. t' \<noteq> t \<longrightarrow> thread_ok k t') \<and> (\<forall>h. t \<notin> set (tlists k h))"

lemma kinv_but_upd_thread: "kinv_but t k \<Longrightarrow> kinv_but t (upd_thread t f k)"
  by (auto simp: kinv_but_def upd_defs kglobal_def lists_ok_def group_ok_def thread_ok_def
      thread_suspended_def)

lemma kinv_butI: "kinv_but t k \<Longrightarrow> thread_ok k t \<Longrightarrow> kinv k"
  by (auto simp: kinv_but_def kinv_def)

lemma kinvD: "kinv k \<Longrightarrow> thread_ok k t" "kinv k \<Longrightarrow> kglobal k"
  by (auto simp: kinv_def)

text \<open>The part of the state the invariant reads.\<close>

definition thread_view :: "rt_thread \<Rightarrow> u8 \<times> nat \<times> u32" where
  "thread_view th = (stat_code (th_stat th), th_current_priority th, th_number_mask th)"

definition sched_view :: "kernel \<Rightarrow> (tlist \<Rightarrow> tid list) \<times> u32 \<times> tid option" where
  "sched_view k = (tlists k, rt_thread_ready_priority_group k, rt_current_thread k)"

lemma thread_ok_cong:
  assumes v: "sched_view k' = sched_view k" and t: "thread_view (threads k' t) = thread_view (threads k t)"
  shows "thread_ok k' t = thread_ok k t"
proof -
  have "thread_suspended k' t = thread_suspended k t"
    using t unfolding thread_suspended_def thread_view_def
    by (subst (1 2) stat_suspended_iff) simp
  then show ?thesis
    using v t by (simp add: thread_ok_def sched_view_def thread_view_def)
qed

lemma kinv_cong:
  assumes "sched_view k' = sched_view k" "\<And>t. thread_view (threads k' t) = thread_view (threads k t)"
  shows "kinv k' = kinv k"
proof -
  have "kglobal k' = kglobal k"
    using assms(1) by (simp add: kglobal_def lists_ok_def group_ok_def sched_view_def)
  then show ?thesis using thread_ok_cong [OF assms] by (simp add: kinv_def)
qed

lemma group_ok_empty: "group_ok k \<Longrightarrow> 32 \<le> p \<Longrightarrow> tlists k (ReadyL p) = []"
  using bit_imp_le_length [of "rt_thread_ready_priority_group k" p]
  by (force simp: group_ok_def)

lemma remove_thread_fields [simp]:
  "tlists (rt_sched_remove_thread t k) h = removeAll t (tlists k h)"
  "threads (rt_sched_remove_thread t k) = threads k"
  "objects (rt_sched_remove_thread t k) = objects k"
  "rt_current_thread (rt_sched_remove_thread t k) = rt_current_thread k"
  "rt_scheduler_lock_nest (rt_sched_remove_thread t k) = rt_scheduler_lock_nest k"
  by (simp_all add: rt_sched_remove_thread_def tlist_remove_def Let_def)

lemma remove_thread_group:
  "rt_thread_ready_priority_group (rt_sched_remove_thread t k) =
   (if removeAll t (tlists k (ReadyL (th_prio k t))) = []
    then rt_thread_ready_priority_group k AND NOT (th_number_mask (threads k t))
    else rt_thread_ready_priority_group k)"
  by (simp add: rt_sched_remove_thread_def tlist_remove_def Let_def)

lemma remove_group_ok:
  assumes g: "group_ok k"
    and m: "th_number_mask (threads k t) = prio_mask (th_prio k t)"
    and r: "\<And>p. t \<in> set (tlists k (ReadyL p)) \<Longrightarrow> th_prio k t = p"
  shows "group_ok (rt_sched_remove_thread t k)"
  unfolding group_ok_def
proof
  fix p
  have b: "bit (rt_thread_ready_priority_group k) p \<longleftrightarrow> tlists k (ReadyL p) \<noteq> []"
    using g by (simp add: group_ok_def)
  show "bit (rt_thread_ready_priority_group (rt_sched_remove_thread t k)) p \<longleftrightarrow>
      tlists (rt_sched_remove_thread t k) (ReadyL p) \<noteq> []"
  proof (cases "p = th_prio k t")
    case True
    then show ?thesis
      using b by (cases "removeAll t (tlists k (ReadyL (th_prio k t))) = []")
        (auto simp: remove_thread_group m bit_clear_prio_mask simp del: removeAll_filter_not_eq)
  next
    case False
    then have "removeAll t (tlists k (ReadyL p)) = tlists k (ReadyL p)"
      using r [of p] False by (intro removeAll_id) auto
    then show ?thesis using b False by (simp add: remove_thread_group m bit_clear_prio_mask)
  qed
qed

lemma remove_kinv_but:
  assumes g: "kglobal k" and o: "\<And>t'. t' \<noteq> t \<Longrightarrow> thread_ok k t'"
    and m: "th_number_mask (threads k t) = prio_mask (th_prio k t)"
    and r: "\<And>p. t \<in> set (tlists k (ReadyL p)) \<Longrightarrow> th_prio k t = p"
  shows "kinv_but t (rt_sched_remove_thread t k)"
proof -
  have "lists_ok (rt_sched_remove_thread t k)"
    using g by (auto simp: lists_ok_def kglobal_def distinct_removeAll)
  moreover have "group_ok (rt_sched_remove_thread t k)"
    using g m r by (intro remove_group_ok) (auto simp: kglobal_def)
  moreover have "thread_ok (rt_sched_remove_thread t k) t'" if "t' \<noteq> t" for t'
    using o [OF that] that by (auto simp: thread_ok_def thread_suspended_def)
  ultimately show ?thesis
    using g by (auto simp: kinv_but_def kglobal_def)
qed

lemma tlist_remove_kinv_but:
  assumes g: "kglobal k" and o: "\<And>t'. t' \<noteq> t \<Longrightarrow> thread_ok k t'"
    and r: "\<And>p. t \<notin> set (tlists k (ReadyL p))"
  shows "kinv_but t (tlist_remove t k)"
proof -
  have "removeAll t (tlists k (ReadyL p)) = tlists k (ReadyL p)" for p
    using r by (meson removeAll_id)
  then have "kglobal (tlist_remove t k)"
    using g by (auto simp: kglobal_def lists_ok_def group_ok_def tlist_remove_def distinct_removeAll)
  moreover have "thread_ok (tlist_remove t k) t'" if "t' \<noteq> t" for t'
    using o [OF that] that
    by (auto simp: thread_ok_def thread_suspended_def tlist_remove_def)
  ultimately show ?thesis by (auto simp: kinv_but_def tlist_remove_def)
qed

lemma insert_thread_current:
  "rt_current_thread k = Some t \<Longrightarrow> rt_sched_insert_thread t k =
     upd_thread t (\<lambda>th. th\<lparr>th_stat := set_stat_code RT_THREAD_RUNNING (th_stat th)\<rparr>) k"
  by (simp add: rt_sched_insert_thread_def)

lemma insert_thread_fields [simp]:
  "objects (rt_sched_insert_thread t k) = objects k"
  "rt_current_thread (rt_sched_insert_thread t k) = rt_current_thread k"
  "rt_scheduler_lock_nest (rt_sched_insert_thread t k) = rt_scheduler_lock_nest k"
  by (simp_all add: rt_sched_insert_thread_def upd_defs tlist_insert_after_def
      tlist_insert_before_def Let_def)

lemma insert_thread_ready:
  assumes "rt_current_thread k \<noteq> Some t"
  shows "threads (rt_sched_insert_thread t k) =
      (threads k)(t := (threads k t)\<lparr>th_stat := set_stat_code 2 (th_stat (threads k t))\<rparr>)"
    "tlists (rt_sched_insert_thread t k) =
      (tlists k)(ReadyL (th_prio k t) :=
         (if stat_yield (th_stat (threads k t)) then tlists k (ReadyL (th_prio k t)) @ [t]
          else t # tlists k (ReadyL (th_prio k t))))"
    "rt_thread_ready_priority_group (rt_sched_insert_thread t k) =
      rt_thread_ready_priority_group k OR th_number_mask (threads k t)"
  using assms
  by (simp_all add: rt_sched_insert_thread_def upd_defs tlist_insert_after_def
      tlist_insert_before_def Let_def)

lemma not_suspended_set_ready [simp]: "\<not> stat_suspended (set_stat_code 2 s)"
  by (rule stat_not_suspended_code) simp

lemma not_suspended_set_running [simp]: "\<not> stat_suspended (set_stat_code 3 s)"
  by (rule stat_not_suspended_code) simp

lemma insert_kglobal:
  assumes g: "kglobal k" and n: "\<And>h. t \<notin> set (tlists k h)" and p: "th_prio k t < 32"
    and m: "th_number_mask (threads k t) = prio_mask (th_prio k t)"
  shows "kglobal (rt_sched_insert_thread t k)"
proof (cases "rt_current_thread k = Some t")
  case True
  then show ?thesis
    using g by (simp add: insert_thread_current upd_defs kglobal_def lists_ok_def group_ok_def)
next
  case False
  note F = insert_thread_ready [OF False] insert_thread_fields m
  have "lists_ok (rt_sched_insert_thread t k)"
    using g n unfolding lists_ok_def F by (auto simp: kglobal_def lists_ok_def)
  moreover have "group_ok (rt_sched_insert_thread t k)"
    using g p unfolding group_ok_def F
    by (auto simp: kglobal_def group_ok_def bit_or_iff bit_prio_mask)
  ultimately show ?thesis using g by (simp add: kglobal_def)
qed

lemma insert_thread_ok_other:
  assumes "thread_ok k t'" and "t' \<noteq> t"
  shows "thread_ok (rt_sched_insert_thread t k) t'"
proof (cases "rt_current_thread k = Some t")
  case True
  then show ?thesis using assms
    by (simp add: insert_thread_current upd_defs thread_ok_def thread_suspended_def)
next
  case False
  then show ?thesis using assms
    unfolding thread_ok_def insert_thread_ready [OF False] insert_thread_fields
      thread_suspended_def by auto
qed

lemma insert_thread_ok_self:
  assumes n: "\<And>h. t \<notin> set (tlists k h)" and p: "th_prio k t < 32"
    and m: "th_number_mask (threads k t) = prio_mask (th_prio k t)"
  shows "thread_ok (rt_sched_insert_thread t k) t"
proof (cases "rt_current_thread k = Some t")
  case True
  then show ?thesis using n p m
    by (simp add: insert_thread_current upd_defs thread_ok_def thread_suspended_def)
next
  case False
  then show ?thesis using n p
    unfolding thread_ok_def insert_thread_ready [OF False] insert_thread_fields
      thread_suspended_def by (auto simp: m)
qed

lemma insert_kinv:
  assumes b: "kinv_but t k" and p: "th_prio k t < 32"
    and m: "th_number_mask (threads k t) = prio_mask (th_prio k t)"
  shows "kinv (rt_sched_insert_thread t k)"
proof -
  have n: "t \<notin> set (tlists k h)" for h using b by (simp add: kinv_but_def)
  have "thread_ok (rt_sched_insert_thread t k) t'" for t'
    using b n p m insert_thread_ok_self [of t k] insert_thread_ok_other [of k t' t]
    by (cases "t' = t") (auto simp: kinv_but_def)
  moreover have "kglobal (rt_sched_insert_thread t k)"
    using b n p m by (intro insert_kglobal) (auto simp: kinv_but_def)
  ultimately show ?thesis by (simp add: kinv_def)
qed

section \<open>Correctness of the choice\<close>

lemma ready_memD:
  "kinv k \<Longrightarrow> t \<in> set (tlists k (ReadyL p)) \<Longrightarrow> th_code k t = RT_THREAD_READY"
  "kinv k \<Longrightarrow> t \<in> set (tlists k (ReadyL p)) \<Longrightarrow> th_prio k t = p"
  unfolding kinv_def thread_ok_def by blast+

lemma susp_memD:
  "kinv k \<Longrightarrow> is_susp_list h \<Longrightarrow> t \<in> set (tlists k h) \<Longrightarrow> thread_suspended k t"
  unfolding kinv_def thread_ok_def by blast

lemma kinv_current_running:
  "kinv k \<Longrightarrow> rt_current_thread k = Some c \<Longrightarrow> t \<in> set (tlists k (ReadyL p)) \<Longrightarrow> t \<noteq> c"
  by (auto simp: kinv_def thread_ok_def)

text \<open>Under the invariant the highest ready thread exists as soon as the group word is not zero,
  and no ready thread has a better priority.\<close>

lemma highest_ready:
  assumes k: "kinv k" and g: "rt_thread_ready_priority_group k \<noteq> 0"
  obtains t p where "scheduler_get_highest_priority_thread k = Some (t, p)"
    and "tlists k (ReadyL p) = t # tl (tlists k (ReadyL p))"
    and "th_prio k t = p" and "th_code k t = RT_THREAD_READY"
    and "\<And>t'. th_code k t' = RT_THREAD_READY \<Longrightarrow> p \<le> th_prio k t'"
proof -
  let ?p = "rt_ffs (rt_thread_ready_priority_group k) - 1"
  have b: "bit (rt_thread_ready_priority_group k) p \<longleftrightarrow> tlists k (ReadyL p) \<noteq> []" for p
    using k by (auto simp: kinv_def kglobal_def group_ok_def)
  have "bit (rt_thread_ready_priority_group k) ?p"
    using g by (rule table_ffs.ffs_bit)
  then obtain t ts where l: "tlists k (ReadyL ?p) = t # ts"
    using b by (cases "tlists k (ReadyL ?p)") auto
  have t: "thread_ok k t" for t using k by (simp add: kinv_def)
  have least: "?p \<le> th_prio k t'" if "th_code k t' = RT_THREAD_READY" for t'
  proof -
    have "t' \<in> set (tlists k (ReadyL (th_prio k t')))" using t [of t'] that by (simp add: thread_ok_def)
    then have "tlists k (ReadyL (th_prio k t')) \<noteq> []" by (metis empty_iff list.set(1))
    then show ?thesis by (intro table_ffs.ffs_le) (rule b [THEN iffD2])
  qed
  have "t \<in> set (tlists k (ReadyL ?p))" by (simp only: l list.set) blast
  then have m: "th_prio k t = ?p" "th_code k t = RT_THREAD_READY"
    using t [of t] unfolding thread_ok_def by blast+
  show thesis
  proof (rule that)
    show "scheduler_get_highest_priority_thread k = Some (t, ?p)"
      by (simp only: scheduler_get_highest_priority_thread_def Let_def l list.case)
    show "tlists k (ReadyL ?p) = t # tl (tlists k (ReadyL ?p))"
      by (simp only: l list.sel)
  qed (fact m least)+
qed


lemma run_kinv:
  assumes b: "kinv_but t k" and p: "th_prio k t < 32"
    and m: "th_number_mask (threads k t) = prio_mask (th_prio k t)"
    and c: "rt_current_thread k = Some t"
  shows "kinv (upd_thread t (\<lambda>th. th\<lparr>th_stat := set_stat_code RT_THREAD_RUNNING (th_stat th)\<rparr>) k)"
  using insert_kinv [OF b p m] by (simp add: insert_thread_current [OF c])


text \<open>What \<^verbatim>\<open>rt_schedule\<close> does when it runs with the scheduler unlocked and a
  current thread: the current thread stays, or the head of the best ready list replaces it.\<close>

definition keeps_cpu :: "kernel \<Rightarrow> tid \<Rightarrow> nat \<Rightarrow> bool" where
  "keeps_cpu k c p \<longleftrightarrow> th_code k c = RT_THREAD_RUNNING \<and>
     (th_prio k c < p \<or> th_prio k c = p \<and> \<not> stat_yield (th_stat (threads k c)))"

definition switch_to :: "tid \<Rightarrow> tid \<Rightarrow> nat \<Rightarrow> kernel \<Rightarrow> kernel" where
  "switch_to from to p k =
     (let k = k\<lparr>rt_current_priority := p, rt_current_thread := Some to\<rparr>;
          k = (if th_code k from = RT_THREAD_RUNNING then rt_sched_insert_thread from k else k);
          k = (if stat_yield (th_stat (threads k from))
               then upd_thread from (\<lambda>th. th\<lparr>th_stat := clear_stat_yield (th_stat th)\<rparr>) k else k);
          k = rt_sched_remove_thread to k
      in upd_thread to (\<lambda>th. th\<lparr>th_stat := set_stat_code RT_THREAD_RUNNING (th_stat th)\<rparr>) k)"

lemma schedule_idle:
  "rt_scheduler_lock_nest k \<noteq> 0 \<or> rt_thread_ready_priority_group k = 0 \<Longrightarrow> rt_schedule k = Some k"
  by (auto simp: rt_schedule_def)

lemma schedule_cases:
  assumes k: "kinv k" and u: "rt_scheduler_lock_nest k = 0" and g: "rt_thread_ready_priority_group k \<noteq> 0"
    and c: "rt_current_thread k = Some c"
    and h: "scheduler_get_highest_priority_thread k = Some (t, p)" and tc: "t \<noteq> c"
  shows "rt_schedule k = Some (if keeps_cpu k c p
     then upd_thread c (\<lambda>th. th\<lparr>th_stat := set_stat_code RT_THREAD_RUNNING (th_stat th)\<rparr>)
            (rt_sched_remove_thread c k)
     else switch_to c t p k)"
  using u g c h tc
  by (auto simp: rt_schedule_def keeps_cpu_def switch_to_def Let_def)


lemma kglobal_cong: "sched_view k' = sched_view k \<Longrightarrow> kglobal k' = kglobal k"
  by (simp add: kglobal_def lists_ok_def group_ok_def sched_view_def)

lemma switch_kinv:
  assumes k: "kinv k" and c: "rt_current_thread k = Some c" and t: "th_code k t = RT_THREAD_READY"
  shows "kinv (switch_to c t p k)"
proof -
  define k1 where "k1 = k\<lparr>rt_current_priority := p, rt_current_thread := Some t\<rparr>"
  define k2 where "k2 = (if th_code k1 c = RT_THREAD_RUNNING then rt_sched_insert_thread c k1 else k1)"
  define k3 where "k3 = (if stat_yield (th_stat (threads k2 c))
     then upd_thread c (\<lambda>th. th\<lparr>th_stat := clear_stat_yield (th_stat th)\<rparr>) k2 else k2)"
  have T: "thread_ok k t'" for t' using k by (simp add: kinv_def)
  have tc: "t \<noteq> c" using T [of c] c t by (auto simp: thread_ok_def)
  have ok1: "thread_ok k1 t'" if "t' \<noteq> t" "t' \<noteq> c \<or> th_code k c \<noteq> RT_THREAD_RUNNING" for t'
    using T [of t'] that c
    by (auto simp: thread_ok_def k1_def thread_suspended_def)
  have g1: "kglobal k1" using k by (simp add: kinv_def k1_def kglobal_def lists_ok_def group_ok_def)
  have n1: "c \<notin> set (tlists k1 h)" if "th_code k c = RT_THREAD_RUNNING" for h
    using T [of c] that stat_not_suspended_code [of "th_stat (threads k c)"]
    by (cases h) (auto simp: thread_ok_def k1_def thread_suspended_def)
  have p1: "th_prio k1 c < 32" "th_number_mask (threads k1 c) = prio_mask (th_prio k1 c)"
    if "th_code k c = RT_THREAD_RUNNING"
    using T [of c] that by (auto simp: thread_ok_def k1_def)
  have g2: "kglobal k2"
    using g1 n1 p1 by (auto simp: k2_def k1_def intro!: insert_kglobal)
  have ok2: "thread_ok k2 t'" if "t' \<noteq> t" for t'
    using ok1 [OF that] that n1 p1
      insert_thread_ok_self [of c k1] insert_thread_ok_other [of k1 t' c]
    by (cases "t' = c") (auto simp: k2_def k1_def)
  have v3: "sched_view k3 = sched_view k2" "thread_view (threads k3 t') = thread_view (threads k2 t')"
 for t'
    by (auto simp: k3_def upd_defs sched_view_def thread_view_def)
  have t2: "threads k2 t = threads k t" "threads k3 t = threads k2 t" "rt_current_thread k2 = Some t"
    using tc by (auto simp: k2_def k1_def k3_def upd_defs rt_sched_insert_thread_def Let_def
        tlist_insert_before_def tlist_insert_after_def)
  have m2: "th_prio k t < 32" "th_number_mask (threads k t) = prio_mask (th_prio k t)"
    using T [of t] t by (auto simp: thread_ok_def)
  have r3: "th_prio k3 t = q" if "t \<in> set (tlists k3 (ReadyL q))" for q
  proof -
    have "t \<in> set (tlists k2 (ReadyL q))" using that v3(1) by (simp add: sched_view_def)
    then have "t \<in> set (tlists k (ReadyL q))"
      using tc by (auto simp: k2_def k1_def rt_sched_insert_thread_def Let_def upd_defs
          tlist_insert_before_def tlist_insert_after_def split: if_splits)
    then show ?thesis using T [of t] t2 by (auto simp: thread_ok_def)
  qed
  have "kinv_but t (rt_sched_remove_thread t k3)"
    using g2 ok2 v3 t2 m2 r3 kglobal_cong [of k3 k2] thread_ok_cong [of k3 k2]
    by (intro remove_kinv_but) auto
  then have "kinv (upd_thread t (\<lambda>th. th\<lparr>th_stat := set_stat_code RT_THREAD_RUNNING (th_stat th)\<rparr>)
      (rt_sched_remove_thread t k3))"
    using t2 m2 v3(1) by (intro run_kinv) (auto simp: sched_view_def)
  then show ?thesis unfolding switch_to_def Let_def k1_def k2_def k3_def .
qed


text \<open>The fields of the scheduler; an operation on them alone leaves the rest of the kernel as it
  is.\<close>

definition same_but_sched :: "kernel \<Rightarrow> kernel \<Rightarrow> bool" where
  "same_but_sched k k' \<longleftrightarrow>
     objects k' = objects k \<and> object_list k' = object_list k \<and> timers k' = timers k \<and>
     sems k' = sems k \<and> mutexes k' = mutexes k \<and> events k' = events k \<and>
     mailboxes k' = mailboxes k \<and> msgqueues k' = msgqueues k \<and> mempools k' = mempools k \<and>
     tmlists k' = tmlists k \<and> rt_scheduler_lock_nest k' = rt_scheduler_lock_nest k \<and>
     rt_interrupt_nest k' = rt_interrupt_nest k \<and> rt_tick k' = rt_tick k \<and>
     timer_random_nr k' = timer_random_nr k"

lemma same_but_schedD:
  assumes "same_but_sched k k'"
  shows "objects k' = objects k" "object_list k' = object_list k" "timers k' = timers k"
    "sems k' = sems k" "mutexes k' = mutexes k" "events k' = events k" "mailboxes k' = mailboxes k"
    "msgqueues k' = msgqueues k" "mempools k' = mempools k" "tmlists k' = tmlists k"
    "rt_scheduler_lock_nest k' = rt_scheduler_lock_nest k"
    "rt_interrupt_nest k' = rt_interrupt_nest k" "rt_tick k' = rt_tick k"
    "timer_random_nr k' = timer_random_nr k"
  using assms by (simp_all add: same_but_sched_def)

lemma same_but_sched_refl [simp]: "same_but_sched k k"
  by (simp add: same_but_sched_def)

lemma same_but_sched_trans: "same_but_sched k k' \<Longrightarrow> same_but_sched k' k'' \<Longrightarrow> same_but_sched k k''"
  by (simp add: same_but_sched_def)

lemma same_but_sched_ops [simp]:
  "same_but_sched k0 (upd_thread t f k) = same_but_sched k0 k"
  "same_but_sched k0 (rt_sched_insert_thread t k) = same_but_sched k0 k"
  "same_but_sched k0 (rt_sched_remove_thread t k) = same_but_sched k0 k"
  "same_but_sched k0 (k\<lparr>rt_current_priority := p, rt_current_thread := c\<rparr>) = same_but_sched k0 k"
  by (simp_all add: same_but_sched_def upd_defs rt_sched_insert_thread_def
      rt_sched_remove_thread_def tlist_insert_after_def tlist_insert_before_def tlist_remove_def Let_def)

lemma switch_frame [simp]: "same_but_sched k (switch_to c t p k)"
  by (simp add: switch_to_def Let_def)

lemma switch_current [simp]: "rt_current_thread (switch_to c t p k) = Some t"
  by (simp add: switch_to_def Let_def upd_defs)

lemma switch_prio: "th_prio (switch_to c t p k) t' = th_prio k t'"
  by (simp add: switch_to_def Let_def upd_defs rt_sched_insert_thread_def
      tlist_insert_after_def tlist_insert_before_def)

lemma switch_code: 
  assumes "t \<noteq> c"
  shows "th_code (switch_to c t p k) t' =
    (if t' = t then RT_THREAD_RUNNING
     else if t' = c \<and> th_code k c = RT_THREAD_RUNNING then RT_THREAD_READY else th_code k t')"
  using assms by (simp add: switch_to_def Let_def upd_defs rt_sched_insert_thread_def
      tlist_insert_after_def tlist_insert_before_def)


lemma stay_kinv:
  assumes k: "kinv k" and c: "rt_current_thread k = Some c" and r: "th_code k c = RT_THREAD_RUNNING"
  shows "kinv (upd_thread c (\<lambda>th. th\<lparr>th_stat := set_stat_code RT_THREAD_RUNNING (th_stat th)\<rparr>)
     (rt_sched_remove_thread c k))"
proof -
  have T: "thread_ok k c" using k by (simp add: kinv_def)
  have b: "kinv_but c (rt_sched_remove_thread c k)"
    using k T r by (intro remove_kinv_but) (auto simp: kinv_def thread_ok_def)
  show ?thesis
    using T r c by (intro run_kinv [OF b]) (auto simp: thread_ok_def)
qed

lemma schedule_runs:
  assumes k: "kinv k" and c: "rt_current_thread k = Some c"
  obtains (idle) "rt_schedule k = Some k"
      "rt_scheduler_lock_nest k \<noteq> 0 \<or> rt_thread_ready_priority_group k = 0"
  | (stay) t p where "rt_scheduler_lock_nest k = 0" "rt_thread_ready_priority_group k \<noteq> 0"
      "scheduler_get_highest_priority_thread k = Some (t, p)" "t \<noteq> c" "keeps_cpu k c p"
      "\<And>t'. th_code k t' = RT_THREAD_READY \<Longrightarrow> p \<le> th_prio k t'"
      "rt_schedule k = Some (upd_thread c
         (\<lambda>th. th\<lparr>th_stat := set_stat_code RT_THREAD_RUNNING (th_stat th)\<rparr>)
         (rt_sched_remove_thread c k))"
  | (switch) t p where "rt_scheduler_lock_nest k = 0" "rt_thread_ready_priority_group k \<noteq> 0"
      "scheduler_get_highest_priority_thread k = Some (t, p)" "t \<noteq> c" "\<not> keeps_cpu k c p"
      "tlists k (ReadyL p) = t # tl (tlists k (ReadyL p))" "th_prio k t = p"
      "th_code k t = RT_THREAD_READY"
      "\<And>t'. th_code k t' = RT_THREAD_READY \<Longrightarrow> p \<le> th_prio k t'"
      "rt_schedule k = Some (switch_to c t p k)"
proof (cases "rt_scheduler_lock_nest k = 0 \<and> rt_thread_ready_priority_group k \<noteq> 0")
  case False
  then show ?thesis using idle schedule_idle [of k] by blast
next
  case True
  obtain t p where h: "scheduler_get_highest_priority_thread k = Some (t, p)"
    "tlists k (ReadyL p) = t # tl (tlists k (ReadyL p))"
    "th_prio k t = p" "th_code k t = RT_THREAD_READY"
    and least: "\<And>t'. th_code k t' = RT_THREAD_READY \<Longrightarrow> p \<le> th_prio k t'"
    using highest_ready [OF k] True by blast
  have tc: "t \<noteq> c" using k c h(4) by (auto simp: kinv_def thread_ok_def)
  note S = schedule_cases [OF k _ _ c h(1) tc]
  show ?thesis
  proof (cases "keeps_cpu k c p")
    case True then show ?thesis using S \<open>_ \<and> _\<close> h least tc by (intro stay) auto
  next
    case False then show ?thesis using S \<open>_ \<and> _\<close> h least tc by (intro switch) auto
  qed
qed

text \<open>What \<^verbatim>\<open>rt_schedule\<close> may change: the ready lists, the current thread and the status
  of threads that are not suspended.\<close>

definition sched_only :: "kernel \<Rightarrow> kernel \<Rightarrow> bool" where
  "sched_only k k' \<longleftrightarrow> same_but_sched k k' \<and>
     (rt_current_thread k' = None \<longleftrightarrow> rt_current_thread k = None) \<and>
     (\<forall>h. (\<forall>p. h \<noteq> ReadyL p) \<longrightarrow> tlists k' h = tlists k h) \<and>
     (\<forall>t. (threads k' t)\<lparr>th_stat := 0\<rparr> = (threads k t)\<lparr>th_stat := 0\<rparr> \<and>
          (thread_suspended k' t \<longleftrightarrow> thread_suspended k t) \<and>
          (th_code k' t = RT_THREAD_READY \<or> th_code k' t = RT_THREAD_RUNNING \<longleftrightarrow>
           th_code k t = RT_THREAD_READY \<or> th_code k t = RT_THREAD_RUNNING))"

lemma sched_only_refl [simp]: "sched_only k k"
  by (simp add: sched_only_def)

lemma sched_only_trans: "sched_only k k' \<Longrightarrow> sched_only k' k'' \<Longrightarrow> sched_only k k''"
  by (auto simp: sched_only_def intro: same_but_sched_trans)

lemma sched_onlyD:
  assumes "sched_only k k'"
  shows "same_but_sched k k'" "rt_current_thread k' = None \<longleftrightarrow> rt_current_thread k = None"
    "(\<And>p. h \<noteq> ReadyL p) \<Longrightarrow> tlists k' h = tlists k h"
    "thread_suspended k' t \<longleftrightarrow> thread_suspended k t"
    "th_prio k' t = th_prio k t" "th_init_priority (threads k' t) = th_init_priority (threads k t)"
    "th_error (threads k' t) = th_error (threads k t)"
    "th_ttmr_set (threads k' t) = th_ttmr_set (threads k t)"
    "th_taken_object_list (threads k' t) = th_taken_object_list (threads k t)"
    "th_pending_object (threads k' t) = th_pending_object (threads k t)"
    "th_event_set (threads k' t) = th_event_set (threads k t)"
    "th_event_info (threads k' t) = th_event_info (threads k t)"
    "th_number_mask (threads k' t) = th_number_mask (threads k t)"
    "th_remaining_tick (threads k' t) = th_remaining_tick (threads k t)"
    "th_init_tick (threads k' t) = th_init_tick (threads k t)"
    "th_code k' t = RT_THREAD_READY \<or> th_code k' t = RT_THREAD_RUNNING \<longleftrightarrow>
     th_code k t = RT_THREAD_READY \<or> th_code k t = RT_THREAD_RUNNING"
proof -
  have e: "(threads k' t)\<lparr>th_stat := 0\<rparr> = (threads k t)\<lparr>th_stat := 0\<rparr>"
    using assms by (simp add: sched_only_def)
  note f = arg_cong [OF e]
  show "th_prio k' t = th_prio k t" using f [of th_current_priority] by simp
  show "th_init_priority (threads k' t) = th_init_priority (threads k t)"
    using f [of th_init_priority] by simp
  show "th_error (threads k' t) = th_error (threads k t)" using f [of th_error] by simp
  show "th_ttmr_set (threads k' t) = th_ttmr_set (threads k t)" using f [of th_ttmr_set] by simp
  show "th_taken_object_list (threads k' t) = th_taken_object_list (threads k t)"
    using f [of th_taken_object_list] by simp
  show "th_pending_object (threads k' t) = th_pending_object (threads k t)"
    using f [of th_pending_object] by simp
  show "th_event_set (threads k' t) = th_event_set (threads k t)" using f [of th_event_set] by simp
  show "th_event_info (threads k' t) = th_event_info (threads k t)" using f [of th_event_info] by simp
  show "th_number_mask (threads k' t) = th_number_mask (threads k t)"
    using f [of th_number_mask] by simp
  show "th_remaining_tick (threads k' t) = th_remaining_tick (threads k t)"
    using f [of th_remaining_tick] by simp
  show "th_init_tick (threads k' t) = th_init_tick (threads k t)" using f [of th_init_tick] by simp
qed (use assms in \<open>auto simp: sched_only_def\<close>)

lemma sched_only_upd_thread:
  assumes s: "sched_only k k'" and c: "\<And>th. (f th)\<lparr>th_stat := 0\<rparr> = f (th\<lparr>th_stat := 0\<rparr>)"
    and e: "\<And>th. th_stat (f th) = th_stat th"
  shows "sched_only (upd_thread t f k) (upd_thread t f k')"
proof -
  have "(f (threads k' t))\<lparr>th_stat := 0\<rparr> = (f (threads k t))\<lparr>th_stat := 0\<rparr>"
    unfolding c using s by (simp add: sched_only_def)
  then show ?thesis using s
    by (simp add: sched_only_def same_but_sched_def upd_defs thread_suspended_def e)
qed

lemma switch_sched_only:
  assumes k: "kinv k" and c: "rt_current_thread k = Some c" and t: "t \<in> set (tlists k (ReadyL q))"
  shows "sched_only k (switch_to c t p k)"
proof -
  have n: "t \<notin> set (tlists k h)" if "\<And>p. h \<noteq> ReadyL p" for h
    using k t that unfolding kinv_def kglobal_def lists_ok_def by blast
  have tc: "t \<noteq> c" using kinv_current_running [OF k c t] .
  show ?thesis
    unfolding sched_only_def
  proof (intro conjI allI impI)
    fix h assume "\<forall>p. h \<noteq> ReadyL p"
    then show "tlists (switch_to c t p k) h = tlists k h"
      using n tc by (simp add: switch_to_def Let_def upd_defs rt_sched_insert_thread_def
          tlist_insert_after_def tlist_insert_before_def)
  next
    fix t'
    show "(threads (switch_to c t p k) t')\<lparr>th_stat := 0\<rparr> = (threads k t')\<lparr>th_stat := 0\<rparr>"
      by (simp add: switch_to_def Let_def upd_defs rt_sched_insert_thread_def
          tlist_insert_after_def tlist_insert_before_def)
    show "thread_suspended (switch_to c t p k) t' = thread_suspended k t'"
      unfolding thread_suspended_def
      by (subst (1 2) stat_suspended_iff, subst switch_code [OF tc]) (auto simp: ready_memD [OF k t])
    show "(th_code (switch_to c t p k) t' = 2 \<or> th_code (switch_to c t p k) t' = 3) \<longleftrightarrow>
        (th_code k t' = 2 \<or> th_code k t' = 3)"
      by (subst (1 2) switch_code [OF tc]) (auto simp: ready_memD [OF k t])
  qed (simp_all add: c)
qed

lemma stay_sched_only:
  assumes k: "kinv k" and c: "rt_current_thread k = Some c" and r: "th_code k c = RT_THREAD_RUNNING"
  shows "sched_only k (upd_thread c (\<lambda>th. th\<lparr>th_stat := set_stat_code RT_THREAD_RUNNING (th_stat th)\<rparr>)
     (rt_sched_remove_thread c k))"
proof -
  have sc: "\<not> stat_suspended (th_stat (threads k c))"
    by (rule stat_not_suspended_code) (simp add: r)
  have "c \<notin> set (tlists k h)" for h
    using k r sc by (cases h) (auto simp: kinv_def thread_ok_def thread_suspended_def)
  then show ?thesis
    using sc r by (simp add: sched_only_def upd_defs thread_suspended_def same_but_sched_def
        rt_sched_remove_thread_def Let_def tlist_remove_def)
qed

lemma schedule_total:
  assumes k: "kinv k" and c: "rt_current_thread k = Some c"
  shows "wp (rt_schedule k) (\<lambda>k'. kinv k' \<and> sched_only k k')"
  using k c
proof (cases rule: schedule_runs)
  case (stay t p)
  then show ?thesis using stay_kinv [OF k c] stay_sched_only [OF k c] c
    by (simp add: keeps_cpu_def upd_defs)
next
  case (switch t p)
  have "t \<in> set (tlists k (ReadyL p))" by (subst switch(6)) simp
  then show ?thesis using switch switch_kinv [OF k c] switch_sched_only [OF k c] by simp
qed (use k c in simp)

text \<open>Round robin: when the running thread has yielded and its priority is the best, the head of
  its ready list becomes current, the yielding thread goes to the tail of the list, and its yield
  flag is consumed.\<close>

lemma schedule_round_robin:
  assumes k: "kinv k" and c: "rt_current_thread k = Some c" and u: "rt_scheduler_lock_nest k = 0"
    and r: "th_code k c = RT_THREAD_RUNNING" and y: "stat_yield (th_stat (threads k c))"
    and l: "tlists k (ReadyL (th_prio k c)) = t # ts"
    and b: "\<And>t'. th_code k t' = RT_THREAD_READY \<Longrightarrow> th_prio k c \<le> th_prio k t'"
  shows "\<exists>k'. rt_schedule k = Some k' \<and> rt_current_thread k' = Some t \<and>
     tlists k' (ReadyL (th_prio k c)) = ts @ [c] \<and> \<not> stat_yield (th_stat (threads k' c))"
proof -
  have m: "t \<in> set (tlists k (ReadyL (th_prio k c)))" by (simp add: l)
  note tr = ready_memD [OF k m]
  show ?thesis
    using k c
  proof (cases rule: schedule_runs)
    case idle
    then show ?thesis using u l k by (auto simp: kinv_def kglobal_def group_ok_def)
  next
    case (stay t' p)
    have "p \<le> th_prio k c" using stay(6) [OF tr(1)] tr(2) by simp
    then show ?thesis using stay(5) y by (simp add: keeps_cpu_def)
  next
    case (switch t' p)
    have p: "p = th_prio k c" using switch(9) [OF tr(1)] b [OF switch(8)] switch(7) tr(2) by simp
    have t: "t' = t" using switch(6) l p by simp
    have "distinct (tlists k (ReadyL (th_prio k c)))"
      using k by (simp add: kinv_def kglobal_def lists_ok_def)
    then have n: "t \<notin> set ts" by (simp add: l)
    show ?thesis using switch(4,10) r y l n unfolding p t
      by (auto simp: switch_to_def Let_def upd_defs rt_sched_insert_thread_def tlist_insert_before_def)
  qed
qed

section \<open>Critical sections and the frame of the invariant\<close>

lemma enter_critical_fields [simp]:
  "sched_view (rt_enter_critical k) = sched_view k"
  "objects (rt_enter_critical k) = objects k" "object_list (rt_enter_critical k) = object_list k"
  "threads (rt_enter_critical k) = threads k" "timers (rt_enter_critical k) = timers k"
  "sems (rt_enter_critical k) = sems k" "mutexes (rt_enter_critical k) = mutexes k"
  "events (rt_enter_critical k) = events k" "mailboxes (rt_enter_critical k) = mailboxes k"
  "msgqueues (rt_enter_critical k) = msgqueues k" "mempools (rt_enter_critical k) = mempools k"
  "tlists (rt_enter_critical k) = tlists k" "tmlists (rt_enter_critical k) = tmlists k"
  "rt_thread_ready_priority_group (rt_enter_critical k) = rt_thread_ready_priority_group k"
  "rt_current_thread (rt_enter_critical k) = rt_current_thread k"
  "rt_interrupt_nest (rt_enter_critical k) = rt_interrupt_nest k"
  "rt_tick (rt_enter_critical k) = rt_tick k" "timer_random_nr (rt_enter_critical k) = timer_random_nr k"
  "rt_current_priority (rt_enter_critical k) = rt_current_priority k"
  "rt_scheduler_lock_nest (rt_enter_critical k) = rt_scheduler_lock_nest k + 1"
  "(rt_enter_critical k)\<lparr>rt_scheduler_lock_nest := n\<rparr> = k\<lparr>rt_scheduler_lock_nest := n\<rparr>"
  by (simp_all add: rt_enter_critical_def sched_view_def)

text \<open>Changes outside the scheduler's view keep the invariant.\<close>

lemma kinv_other_fields [simp]:
  "kinv (rt_enter_critical k) = kinv k"
  "kinv (k\<lparr>rt_scheduler_lock_nest := n\<rparr>) = kinv k"
  "kinv (k\<lparr>object_list := ol\<rparr>) = kinv k"
  "kinv (k\<lparr>objects := os\<rparr>) = kinv k"
  "kinv (upd_object r fo k) = kinv k"
  "kinv (tmlist_remove tr k) = kinv k"
  "kinv (k\<lparr>timers := ts\<rparr>) = kinv k"
  "kinv (k\<lparr>tmlists := tms\<rparr>) = kinv k"
  "kinv (k\<lparr>rt_tick := tk\<rparr>) = kinv k"
  "kinv (k\<lparr>rt_interrupt_nest := i\<rparr>) = kinv k"
  "kinv (k\<lparr>timer_random_nr := i\<rparr>) = kinv k"
  "kinv (upd_timer tr ft k) = kinv k"
  "kinv (upd_sem s fs k) = kinv k"
  "kinv (upd_mutex m fm k) = kinv k"
  "kinv (upd_event e fe k) = kinv k"
  "kinv (upd_mailbox b fb k) = kinv k"
  "kinv (upd_msgqueue q fq k) = kinv k"
  "kinv (upd_mempool p fp k) = kinv k"
  by (rule kinv_cong; simp add: upd_defs tmlist_remove_def sched_view_def)+

lemma kinv_upd_thread:
  "(\<And>th. thread_view (f th) = thread_view th) \<Longrightarrow> kinv (upd_thread t f k) = kinv k"
  by (rule kinv_cong) (auto simp: upd_defs sched_view_def)

text \<open>The nesting level after leaving a critical section.\<close>

definition nest_dec :: "u16 \<Rightarrow> u16" where
  "nest_dec n = (if sint (n - 1) \<le> 0 then 0 else n - 1)"

lemma nest_dec_inc: "sint n \<ge> 0 \<Longrightarrow> nest_dec (n + 1) = n"
  by (simp add: nest_dec_def) (metis order_antisym signed_0 signed_word_eqI)

lemma exit_critical_wp:
  assumes k: "kinv k"
  shows "wp (rt_exit_critical k) (\<lambda>k'. kinv k' \<and>
     sched_only (k\<lparr>rt_scheduler_lock_nest := nest_dec (rt_scheduler_lock_nest k)\<rparr>) k')"
proof -
  let ?k = "\<lambda>n. k\<lparr>rt_scheduler_lock_nest := n\<rparr>"
  have i: "kinv (?k n)" for n using k by simp
  show ?thesis
  proof (cases "sint (rt_scheduler_lock_nest k - 1) \<le> 0 \<and> rt_current_thread k \<noteq> None")
    case True
    then obtain c where c: "rt_current_thread (?k 0) = Some c" by auto
    show ?thesis using schedule_total [OF i c] True
      by (auto simp: rt_exit_critical_def nest_dec_def Let_def)
  next
    case False
    then show ?thesis using i by (auto simp: rt_exit_critical_def nest_dec_def Let_def)
  qed
qed

text \<open>A critical section whose body keeps the nesting level: leaving it restores the level the
  section was entered at.\<close>

definition nest_ok :: "kernel \<Rightarrow> bool" where
  "nest_ok k \<longleftrightarrow> 0 \<le> sint (rt_scheduler_lock_nest k)"

lemma exit_section_wp:
  assumes k: "kinv k" and n: "rt_scheduler_lock_nest k = n + 1" and o: "0 \<le> sint n"
    and Q: "\<And>k'. kinv k' \<Longrightarrow> sched_only (k\<lparr>rt_scheduler_lock_nest := n\<rparr>) k' \<Longrightarrow> Q k'"
  shows "wp (rt_exit_critical k) Q"
  using exit_critical_wp [OF k] by (rule wp_mono) (use Q n nest_dec_inc [OF o] in auto)

text \<open>A critical section that only reads.\<close>

lemma read_section_wp:
  assumes k: "kinv k" and n: "nest_ok k" and Q: "\<And>k'. kinv k' \<Longrightarrow> sched_only k k' \<Longrightarrow> Q k'"
  shows "wp (rt_exit_critical (rt_enter_critical k)) Q"
  by (rule exit_section_wp [of _ "rt_scheduler_lock_nest k"])
    (use k n Q in \<open>simp_all add: nest_ok_def\<close>)

lemma sched_only_nest_ok: "sched_only k k' \<Longrightarrow> nest_ok k' = nest_ok k"
  by (simp add: nest_ok_def sched_only_def same_but_sched_def)

lemma sched_only_objects:
  "sched_only k k' \<Longrightarrow> sched_only (k\<lparr>objects := f, object_list := g\<rparr>) (k'\<lparr>objects := f, object_list := g\<rparr>)"
  by (simp add: sched_only_def same_but_sched_def thread_suspended_def)

text \<open>Whether a timer is running.\<close>

definition timer_active :: "kernel \<Rightarrow> timer_ref \<Rightarrow> bool" where
  "timer_active k r \<longleftrightarrow> ob_flag (objects k (OTimer r)) AND RT_TIMER_FLAG_ACTIVATED \<noteq> 0"

section \<open>A sample state\<close>

text \<open>A running system of four threads on zeroed memory, for concrete instances: thread 2 runs at priority 10, threads 3 and 4 are ready at priorities 10
  and 20, thread 5 (priority 5) waits for semaphore 2.\<close>

definition sample_thread :: "nat \<Rightarrow> u8 \<Rightarrow> rt_thread" where
  "sample_thread p s = zero_thread\<lparr>th_stat := s, th_init_tick := 10, th_remaining_tick := 10,
     th_current_priority := p, th_init_priority := p, th_number_mask := prio_mask p\<rparr>"

definition sample_type :: "objref \<Rightarrow> u8" where
  "sample_type r = (case r of OThread _ \<Rightarrow> 0x81 | OTimer _ \<Rightarrow> 0x8a | OSem _ \<Rightarrow> 0x82 | OMutex _ \<Rightarrow> 0x83
     | OEvent _ \<Rightarrow> 0x84 | OMailBox _ \<Rightarrow> 0x85 | OMsgQueue _ \<Rightarrow> 0x86 | OMemPool _ \<Rightarrow> 0x88
     | OMemHeap _ \<Rightarrow> 0x87)"

definition sample_kernel :: kernel where
  "sample_kernel = zero_kernel\<lparr>
     objects := (\<lambda>r. zero_object\<lparr>ob_type := sample_type r\<rparr>),
     threads := (threads zero_kernel)(2 := sample_thread 10 RT_THREAD_RUNNING,
       3 := sample_thread 10 RT_THREAD_READY, 4 := sample_thread 20 RT_THREAD_READY,
       5 := sample_thread 5 RT_THREAD_SUSPEND),
     tlists := (tlists zero_kernel)(ReadyL 10 := [3], ReadyL 20 := [4], SemL 2 := [5]),
     rt_thread_ready_priority_group := prio_mask 10 OR prio_mask 20,
     rt_current_thread := Some 2, rt_current_priority := 10\<rparr>"

lemma kinv_zero: "kinv zero_kernel"
  by (simp add: zero_kernel_def kinv_def kglobal_def lists_ok_def group_ok_def thread_ok_def
      zero_thread_def thread_suspended_def)

lemma kinv_sample: "kinv sample_kernel"
proof -
  have "thread_ok sample_kernel t" for t
    unfolding thread_ok_def
    by (intro conjI allI impI)
      (auto simp: sample_kernel_def zero_kernel_def zero_thread_def sample_thread_def
        thread_suspended_def split: if_splits)
  then show ?thesis
    by (auto simp: kinv_def kglobal_def lists_ok_def group_ok_def sample_kernel_def zero_kernel_def
       bit_or_iff bit_prio_mask)
qed

lemma sample_fields [simp]:
  "rt_current_thread sample_kernel = Some 2" "rt_scheduler_lock_nest sample_kernel = 0"
  "threads sample_kernel 2 = sample_thread 10 RT_THREAD_RUNNING"
  "threads sample_kernel 3 = sample_thread 10 RT_THREAD_READY"
  "threads sample_kernel 4 = sample_thread 20 RT_THREAD_READY"
  "threads sample_kernel 5 = sample_thread 5 RT_THREAD_SUSPEND"
  "tlists sample_kernel (ReadyL 10) = [3]" "tlists sample_kernel (ReadyL 20) = [4]"
  "tlists sample_kernel (SemL 2) = [5]"
  by (simp_all add: sample_kernel_def zero_kernel_def)

lemma sample_objects [simp]: "objects sample_kernel r = zero_object\<lparr>ob_type := sample_type r\<rparr>"
  by (simp add: sample_kernel_def)

lemma sample_thread_fields [simp]:
  "th_stat (sample_thread p s) = s" "th_current_priority (sample_thread p s) = p"
  "th_ttmr_set (sample_thread p s) = False"
  by (simp_all add: sample_thread_def zero_thread_def)

lemma sample_ready: "th_code sample_kernel t = RT_THREAD_READY \<longleftrightarrow> t = 3 \<or> t = 4"
  by (auto simp: sample_kernel_def zero_kernel_def sample_thread_def zero_thread_def)

section \<open>Properties\<close>

text \<open>C1. The choice of the scheduler: with the scheduler unlocked, a current thread, and either
  that thread still runnable or some thread ready, \<^verbatim>\<open>rt_schedule\<close> ends with a current
  thread in state RUNNING that no ready thread outranks, and keeps the invariant.\<close>

theorem rt_schedule_picks_highest:
  assumes k: "kinv k" and c: "rt_current_thread k = Some c" and u: "rt_scheduler_lock_nest k = 0"
    and a: "th_code k c = RT_THREAD_RUNNING \<or> rt_thread_ready_priority_group k \<noteq> 0"
  shows "\<exists>k' t. rt_schedule k = Some k' \<and> kinv k' \<and> rt_current_thread k' = Some t \<and>
     th_code k' t = RT_THREAD_RUNNING \<and>
     (\<forall>t'. th_code k' t' = RT_THREAD_READY \<longrightarrow> th_prio k' t \<le> th_prio k' t')"
  using k c
proof (cases rule: schedule_runs)
  case idle
  then have "rt_thread_ready_priority_group k = 0" using u by simp
  then have "tlists k (ReadyL p) = []" for p using k by (auto simp: kinv_def kglobal_def group_ok_def)
  then have "th_code k t' \<noteq> RT_THREAD_READY" for t'
    using k by (force simp: kinv_def thread_ok_def)
  then show ?thesis using idle a u c k by auto
next
  case (stay t p)
  have "th_prio k c \<le> th_prio k t'" if "th_code k t' = RT_THREAD_READY" for t'
    using stay(6) [OF that] stay(5) by (auto simp: keeps_cpu_def)
  then show ?thesis using stay stay_kinv [OF k c] c
    by (auto simp: keeps_cpu_def upd_defs)
next
  case (switch t p)
  have "th_prio k t \<le> th_prio k c" if "th_code k c = RT_THREAD_RUNNING"
    using switch that by (auto simp: keeps_cpu_def)
  then show ?thesis using switch switch_kinv [OF k c]
    by (auto simp: switch_code switch_prio)
qed


theorem rt_schedule_picks_highest_witness:
  "kinv sample_kernel \<and> (\<exists>k' t. rt_schedule sample_kernel = Some k' \<and> kinv k' \<and>
     rt_current_thread k' = Some t \<and> th_code k' t = RT_THREAD_RUNNING \<and>
     (\<forall>t'. th_code k' t' = RT_THREAD_READY \<longrightarrow> th_prio k' t \<le> th_prio k' t'))"
  using rt_schedule_picks_highest [OF kinv_sample, of 2] kinv_sample by simp

end
