(* ===== verification/KString.thy ===== *)
theory KString
  imports RT_Prelude
begin

text \<open>
  The string routines of \<^verbatim>\<open>src/klibc/kstring.c\<close> the kernel compares and copies object
  names with (the code of the build without \<^verbatim>\<open>RT_KLIBC_USING_STDLIB\<close>). A C string is a
  list of characters; reading at or beyond the end of the list gives the terminating NUL.
\<close>

abbreviation (input) NUL :: char where "NUL \<equiv> CHR 0x00"

definition at0 :: "string \<Rightarrow> char" where
  "at0 s = (case s of [] \<Rightarrow> NUL | c # _ \<Rightarrow> c)"

text \<open>The bytes \<^verbatim>\<open>rt_strncpy\<close> stores, and the destination array after the call.\<close>

fun strncpy_bytes :: "string \<Rightarrow> nat \<Rightarrow> string" where
  "strncpy_bytes s 0 = []"
| "strncpy_bytes s (Suc n) =
     (if at0 s = NUL then replicate (Suc n) NUL else at0 s # strncpy_bytes (tl s) n)"

definition rt_strncpy :: "string \<Rightarrow> string \<Rightarrow> nat \<Rightarrow> string" where
  "rt_strncpy dst src n = strncpy_bytes src n @ drop n dst"

text \<open>\<^verbatim>\<open>signed char res = *cs - *ct\<close>.\<close>

definition char_diff :: "char \<Rightarrow> char \<Rightarrow> int" where
  "char_diff a b = sint (word_of_nat (of_char a) - word_of_nat (of_char b) :: u8)"

fun rt_strncmp :: "string \<Rightarrow> string \<Rightarrow> nat \<Rightarrow> int" where
  "rt_strncmp cs ct 0 = 0"
| "rt_strncmp cs ct (Suc count) =
     (let res = char_diff (at0 cs) (at0 ct)
      in if res \<noteq> 0 \<or> at0 cs = NUL then res else rt_strncmp (tl cs) (tl ct) count)"

fun rt_strcmp :: "string \<Rightarrow> string \<Rightarrow> int" where
  "rt_strcmp [] ct = - of_char (at0 ct)"
| "rt_strcmp (c # cs) ct =
     (if c \<noteq> NUL \<and> c = at0 ct then rt_strcmp cs (tl ct) else of_char c - of_char (at0 ct))"

fun rt_strnlen :: "string \<Rightarrow> nat \<Rightarrow> nat" where
  "rt_strnlen s 0 = 0"
| "rt_strnlen s (Suc maxlen) = (if at0 s \<noteq> NUL then Suc (rt_strnlen (tl s) maxlen) else 0)"

section \<open>Lemmas\<close>

text \<open>The text of a C string: the characters before the first NUL.\<close>

definition cstr :: "string \<Rightarrow> string" where
  "cstr s = takeWhile (\<lambda>c. c \<noteq> NUL) s"

lemma cstr_simps [simp]:
  "cstr [] = []" "cstr (c # s) = (if c = NUL then [] else c # cstr s)"
  by (simp_all add: cstr_def)

lemma at0_simps [simp]: "at0 [] = NUL" "at0 (c # s) = c"
  by (simp_all add: at0_def)

lemma cstr_unfold: "cstr s = (if at0 s = NUL then [] else at0 s # cstr (tl s))"
  by (cases s) auto

lemma length_strncpy_bytes [simp]: "length (strncpy_bytes s n) = n"
  by (induction s n rule: strncpy_bytes.induct) auto

lemma cstr_replicate [simp]: "cstr (replicate n NUL) = []"
  by (cases n) auto

lemma cstr_strncpy_bytes: "cstr (strncpy_bytes s n) = take n (cstr s)"
proof (induction s n rule: strncpy_bytes.induct)
  case (2 s n)
  then show ?case by (subst (2) cstr_unfold) auto
qed simp

lemma char_diff_eq_0 [simp]: "char_diff a b = 0 \<longleftrightarrow> a = b"
proof
  assume "char_diff a b = 0"
  then have "sint (word_of_nat (of_char a) - word_of_nat (of_char b) :: u8) = sint (0 :: u8)"
    by (simp add: char_diff_def)
  then have "word_of_nat (of_char a) = (word_of_nat (of_char b) :: u8)"
    by (metis signed_word_eqI eq_iff_diff_eq_0)
  then have "unat (word_of_nat (of_char a) :: u8) = unat (word_of_nat (of_char b) :: u8)" by simp
  moreover have "(of_char c :: nat) < 256" for c 
    by (metis of_char_mod_256 mod_less_divisor zero_less_numeral)
  ultimately have "(of_char a :: nat) = of_char b"
    by (simp add: unat_of_nat take_bit_eq_mod)
  then show "a = b" by simp
qed (simp add: char_diff_def)

lemma rt_strncmp_eq_0: "rt_strncmp cs ct n = 0 \<longleftrightarrow> take n (cstr cs) = take n (cstr ct)"
proof (induction cs ct n rule: rt_strncmp.induct)
  case (2 cs ct count)
  then show ?case
    by (subst (1 2) cstr_unfold) (auto simp: Let_def)
qed simp

end
