(* ===== verification/Kernel_Object.thy ===== *)
theory Kernel_Object
  imports Kernel_Inv KString
begin

text \<open>
  The object containers, \<^verbatim>\<open>src/object.c\<close>: every kernel object is registered by class in
  \<^verbatim>\<open>_object_container\<close>, static objects by \<^verbatim>\<open>rt_object_init\<close>, dynamic ones by
  \<^verbatim>\<open>rt_object_allocate\<close>, whose memory (the answer of \<^verbatim>\<open>RT_KERNEL_MALLOC\<close>) is an
  argument. Hook functions are not registered.
\<close>

section \<open>Definitions\<close>

text \<open>The classes \<^verbatim>\<open>_object_container\<close> has an entry for in this configuration.\<close>

definition object_container :: "u8 list" where
  "object_container = [RT_Object_Class_Thread, RT_Object_Class_Semaphore, RT_Object_Class_Mutex,
     RT_Object_Class_Event, RT_Object_Class_MailBox, RT_Object_Class_MessageQueue,
     RT_Object_Class_MemHeap, RT_Object_Class_MemPool, RT_Object_Class_Device,
     RT_Object_Class_Timer, 0x0c, 0x10]"

definition rt_object_get_information :: "u8 \<Rightarrow> u8 option" where
  "rt_object_get_information type =
     find (\<lambda>c. c = type AND NOT RT_Object_Class_Static) object_container"

definition rt_object_get_length :: "u8 \<Rightarrow> kernel \<Rightarrow> (nat \<times> kernel) option" where
  "rt_object_get_length type k =
     (case rt_object_get_information type of
        None \<Rightarrow> Some (0, k)
      | Some information \<Rightarrow> do {
          let k = rt_spin_lock_irqsave k;
          let count = length (object_list k information);
          k \<leftarrow> rt_spin_unlock_irqrestore k;
          Some (count, k)
        })"

definition rt_object_get_pointers :: "u8 \<Rightarrow> int \<Rightarrow> kernel \<Rightarrow> (objref list \<times> kernel) option" where
  "rt_object_get_pointers type maxlen k =
     (if maxlen \<le> 0 then Some ([], k)
      else case rt_object_get_information type of
        None \<Rightarrow> Some ([], k)
      | Some information \<Rightarrow> do {
          let k = rt_spin_lock_irqsave k;
          let pointers = take (nat maxlen) (object_list k information);
          k \<leftarrow> rt_spin_unlock_irqrestore k;
          Some (pointers, k)
        })"

definition object_list_insert_after :: "u8 \<Rightarrow> objref \<Rightarrow> kernel \<Rightarrow> kernel" where
  "object_list_insert_after c r k =
     k\<lparr>object_list := (object_list k)(c := r # object_list k c)\<rparr>"

definition object_list_remove :: "objref \<Rightarrow> kernel \<Rightarrow> kernel" where
  "object_list_remove r k = k\<lparr>object_list := \<lambda>c. removeAll r (object_list k c)\<rparr>"

definition rt_object_init :: "objref \<Rightarrow> u8 \<Rightarrow> string \<Rightarrow> kernel \<Rightarrow> kernel option" where
  "rt_object_init r type name k = do {
     information \<leftarrow> rt_object_get_information type;
     let k = rt_spin_lock_irqsave k;
     rt_assert (r \<notin> set (object_list k information));
     k \<leftarrow> rt_spin_unlock_irqrestore k;
     let k = upd_object r (\<lambda>ob. ob\<lparr>ob_type := type OR RT_Object_Class_Static,
                                   ob_name := rt_strncpy (ob_name ob) name RT_NAME_MAX\<rparr>) k;
     let k = rt_spin_lock_irqsave k;
     let k = object_list_insert_after information r k;
     rt_spin_unlock_irqrestore k
   }"

definition rt_object_detach :: "objref \<Rightarrow> kernel \<Rightarrow> kernel option" where
  "rt_object_detach r k = do {
     information \<leftarrow> rt_object_get_information (ob_type (objects k r));
     let k = rt_spin_lock_irqsave k;
     let k = object_list_remove r k;
     k \<leftarrow> rt_spin_unlock_irqrestore k;
     Some (upd_object r (\<lambda>ob. ob\<lparr>ob_type := 0\<rparr>) k)
   }"

text \<open>\<^verbatim>\<open>rt_memset(object, 0, information->object_size)\<close>, by the structure at the address. A memory
  heap is always a static object: its structure is not part of the kernel record.\<close>

definition zero_struct :: "objref \<Rightarrow> kernel \<Rightarrow> kernel" where
  "zero_struct r k =
     (let k = upd_object r (\<lambda>_. zero_object) k
      in case r of
           OThread t \<Rightarrow> upd_thread t (\<lambda>_. zero_thread) (upd_timer (ThreadTimer t) (\<lambda>_. zero_timer)
                          (upd_object (OTimer (ThreadTimer t)) (\<lambda>_. zero_object) k))
         | OTimer t \<Rightarrow> upd_timer t (\<lambda>_. zero_timer) k
         | OSem s \<Rightarrow> upd_sem s (\<lambda>_. zero_semaphore) k
         | OMutex m \<Rightarrow> upd_mutex m (\<lambda>_. zero_mutex) k
         | OEvent e \<Rightarrow> upd_event e (\<lambda>_. zero_event) k
         | OMailBox b \<Rightarrow> upd_mailbox b (\<lambda>_. zero_mailbox) k
         | OMsgQueue q \<Rightarrow> upd_msgqueue q (\<lambda>_. zero_messagequeue) k
         | OMemPool p \<Rightarrow> upd_mempool p (\<lambda>_. zero_mempool) k
         | OMemHeap h \<Rightarrow> k)"

definition rt_object_allocate ::
  "objref option \<Rightarrow> u8 \<Rightarrow> string \<Rightarrow> kernel \<Rightarrow> (objref option \<times> kernel) option" where
  "rt_object_allocate mem type name k = do {
     rt_assert (debug_not_in_interrupt k);
     information \<leftarrow> rt_object_get_information type;
     case mem of
       None \<Rightarrow> Some (None, k)
     | Some r \<Rightarrow> do {
         let k = zero_struct r k;
         let k = upd_object r (\<lambda>ob. ob\<lparr>ob_type := type, ob_flag := 0,
                   ob_name := rt_strncpy (ob_name ob) name (RT_NAME_MAX - 1)\<rparr>) k;
         let k = rt_spin_lock_irqsave k;
         let k = object_list_insert_after information r k;
         k \<leftarrow> rt_spin_unlock_irqrestore k;
         Some (Some r, k)
       }
   }"

text \<open>\<^verbatim>\<open>RT_KERNEL_FREE\<close> gives the memory back to the allocator.\<close>

definition rt_object_delete :: "objref \<Rightarrow> kernel \<Rightarrow> kernel option" where
  "rt_object_delete r k = do {
     rt_assert (ob_type (objects k r) AND RT_Object_Class_Static = 0);
     information \<leftarrow> rt_object_get_information (ob_type (objects k r));
     let k = rt_spin_lock_irqsave k;
     let k = object_list_remove r k;
     k \<leftarrow> rt_spin_unlock_irqrestore k;
     Some (upd_object r (\<lambda>ob. ob\<lparr>ob_type := RT_Object_Class_Null\<rparr>) k)
   }"

definition rt_object_is_systemobject :: "objref \<Rightarrow> kernel \<Rightarrow> bool" where
  "rt_object_is_systemobject r k \<longleftrightarrow> ob_type (objects k r) AND RT_Object_Class_Static \<noteq> 0"

definition rt_object_get_type :: "objref \<Rightarrow> kernel \<Rightarrow> u8" where
  "rt_object_get_type r k = ob_type (objects k r) AND NOT RT_Object_Class_Static"

definition rt_object_find :: "string \<Rightarrow> u8 \<Rightarrow> kernel \<Rightarrow> (objref option \<times> kernel) option" where
  "rt_object_find name type k =
     (case rt_object_get_information type of
        None \<Rightarrow> Some (None, k)
      | Some information \<Rightarrow> do {
          rt_assert (debug_not_in_interrupt k);
          let k = rt_spin_lock_irqsave k;
          let object = find (\<lambda>r. rt_strncmp (ob_name (objects k r)) name RT_NAME_MAX = 0)
                         (object_list k information);
          k \<leftarrow> rt_spin_unlock_irqrestore k;
          Some (object, k)
        })"

text \<open>The buffer after \<^verbatim>\<open>rt_object_get_name\<close> (null buffer: \<open>None\<close>).\<close>

definition rt_object_get_name :: "objref \<Rightarrow> string option \<Rightarrow> nat \<Rightarrow> kernel \<Rightarrow> rt_err_t \<times> string option" where
  "rt_object_get_name r name name_size k =
     (case name of
        Some buf \<Rightarrow> if name_size \<noteq> 0 then (RT_EOK, Some (rt_strncpy buf (ob_name (objects k r)) name_size))
                    else (- RT_EINVAL, name)
      | None \<Rightarrow> (- RT_EINVAL, name))"

section \<open>Lemmas\<close>

lemmas spin_defs = rt_spin_lock_irqsave_def rt_spin_unlock_irqrestore_def rt_spin_lock_def
  rt_spin_unlock_def

lemma get_information_idem:
  "rt_object_get_information c = Some i \<Longrightarrow> i = c AND NOT 0x80 \<and> rt_object_get_information (c OR 0x80) = Some i"
proof -
  assume a: "rt_object_get_information c = Some i"
  then have i: "i = c AND NOT 0x80" by (auto simp: rt_object_get_information_def find_Some_iff)
  have "(c OR 0x80) AND NOT 0x80 = c AND NOT (0x80 :: u8)"
    by (rule bit_eqI) (auto simp: bit_simps)
  with a i show ?thesis by (simp add: rt_object_get_information_def)
qed

lemma get_information_class:
  assumes "rt_object_get_information x = Some c"
  shows "rt_object_get_information c = Some c"
proof -
  have c: "c = x AND NOT 0x80" using assms by (auto simp: rt_object_get_information_def find_Some_iff)
  have "(x AND NOT 0x80) AND NOT 0x80 = x AND NOT (0x80 :: u8)" by (rule bit_eqI) (auto simp: bit_simps)
  then show ?thesis using assms unfolding rt_object_get_information_def c by simp
qed

lemma object_init_wp:
  assumes k: "kinv k" and n: "nest_ok k" and i: "rt_object_get_information type = Some c"
    and r: "r \<notin> set (object_list k c)"
    and Q: "\<And>k'. kinv k' \<Longrightarrow> sched_only
       (k\<lparr>objects := (objects k)(r := (objects k r)\<lparr>ob_type := type OR 0x80,
             ob_name := rt_strncpy (ob_name (objects k r)) name 12\<rparr>),
          object_list := (object_list k)(c := r # object_list k c)\<rparr>) k' \<Longrightarrow> Q k'"
  shows "wp (rt_object_init r type name k) Q"
proof -
  let ?f = "\<lambda>ob. ob\<lparr>ob_type := type OR 0x80, ob_name := rt_strncpy (ob_name ob) name 12\<rparr>"
  have step: "wp (rt_exit_critical (object_list_insert_after c r (rt_enter_critical (upd_object r ?f k1)))) Q"
    if k1: "kinv k1" "sched_only k k1" for k1
  proof (rule exit_section_wp)
    show "kinv (object_list_insert_after c r (rt_enter_critical (upd_object r ?f k1)))"
      using k1(1) by (simp add: object_list_insert_after_def)
    show "rt_scheduler_lock_nest (object_list_insert_after c r (rt_enter_critical (upd_object r ?f k1))) =
        rt_scheduler_lock_nest k1 + 1"
      by (simp add: object_list_insert_after_def upd_defs)
    show "0 \<le> sint (rt_scheduler_lock_nest k1)"
      using n sched_only_nest_ok [OF k1(2)] by (simp add: nest_ok_def)
    fix k' assume k': "kinv k'" "sched_only (object_list_insert_after c r (rt_enter_critical
        (upd_object r ?f k1))\<lparr>rt_scheduler_lock_nest := rt_scheduler_lock_nest k1\<rparr>) k'"
    show "Q k'"
      using k' k1(2) by (intro Q)
        (auto simp: object_list_insert_after_def upd_defs sched_only_def
          same_but_sched_def thread_suspended_def)
  qed
  show ?thesis
    unfolding rt_object_init_def spin_defs i Let_def
    using r step read_section_wp [OF k n] by simp
qed

lemma object_unlink_wp:
  assumes k: "kinv k" and n: "nest_ok k"
    and Q: "\<And>k'. kinv k' \<Longrightarrow>
       sched_only (k\<lparr>object_list := \<lambda>c. removeAll r (object_list k c)\<rparr>) k' \<Longrightarrow> Q k'"
  shows "wp (rt_exit_critical (object_list_remove r (rt_enter_critical k))) Q"
  by (rule exit_section_wp [of _ "rt_scheduler_lock_nest k"])
    (use k n Q in \<open>simp_all add: nest_ok_def object_list_remove_def rt_enter_critical_def\<close>)

lemma sched_only_upd_object:
  "sched_only k k' \<Longrightarrow> sched_only (upd_object r f k) (upd_object r f k')"
  by (simp add: sched_only_def same_but_sched_def thread_suspended_def upd_defs)

lemma object_detach_wp:
  assumes k: "kinv k" and n: "nest_ok k" and i: "rt_object_get_information (ob_type (objects k r)) = Some c"
    and Q: "\<And>k'. kinv k' \<Longrightarrow> sched_only (upd_object r (\<lambda>ob. ob\<lparr>ob_type := 0\<rparr>)
       (k\<lparr>object_list := \<lambda>c. removeAll r (object_list k c)\<rparr>)) k' \<Longrightarrow> Q k'"
  shows "wp (rt_object_detach r k) Q"
  unfolding rt_object_detach_def spin_defs i Let_def
  by (simp, rule object_unlink_wp [OF k n], rule Q) (simp_all add: sched_only_upd_object)

lemma object_find_wp:
  assumes k: "kinv k" and n: "nest_ok k" and i: "rt_object_get_information type = Some c"
    and d: "debug_not_in_interrupt k"
  shows "wp (rt_object_find name type k) (\<lambda>(res, k'). sched_only k k' \<and> kinv k' \<and>
     res = find (\<lambda>r. take 12 (cstr (ob_name (objects k r))) = take 12 (cstr name)) (object_list k c))"
  using d unfolding rt_object_find_def spin_defs i Let_def
  by (simp, intro read_section_wp [OF k n]) (simp add: rt_strncmp_eq_0)

lemma name_after_init:
  "take 12 (cstr (rt_strncpy old name 12)) = take 12 (cstr name)" if "length old = 12"
  using that by (simp add: rt_strncpy_def cstr_strncpy_bytes)

section \<open>Properties\<close>

text \<open>Registration round trip: once an object (not registered before) is initialised under
  a name, a search of its class for that name returns it; the search compares the first
  \<^verbatim>\<open>RT_NAME_MAX\<close> characters.\<close>

theorem object_init_then_find:
  assumes "kinv k" "nest_ok k" "debug_not_in_interrupt k"
    and "rt_object_get_information type = Some c" "r \<notin> set (object_list k c)"
    and "length (ob_name (objects k r)) = RT_NAME_MAX"
  shows "wp (rt_object_init r type name k) (\<lambda>k'. kinv k' \<and>
     wp (rt_object_find name type k') (\<lambda>(res, _). res = Some r))"
proof (rule object_init_wp [OF assms(1,2,4,5)], rule conjI)
  fix k' assume k': "kinv k'" and s: "sched_only
      (k\<lparr>objects := (objects k)(r := (objects k r)\<lparr>ob_type := type OR 0x80,
             ob_name := rt_strncpy (ob_name (objects k r)) name 12\<rparr>),
         object_list := (object_list k)(c := r # object_list k c)\<rparr>) k'"
  note f = same_but_schedD [OF sched_onlyD(1) [OF s]]
  have "nest_ok k'" "debug_not_in_interrupt k'"
    using assms(2,3)
    by (simp_all add: nest_ok_def debug_not_in_interrupt_def rt_interrupt_get_nest_def f)
  then show "wp (rt_object_find name type k') (\<lambda>(res, _). res = Some r)"
    by (rule wp_mono [OF object_find_wp [OF k' _ assms(4)]])
      (auto simp: f name_after_init [OF assms(6)])
qed

text \<open>Detaching takes the object out of its container: no search of its class returns it any
  more, and its type field reads as no class.\<close>

lemma object_detach_then_find:
  assumes "kinv k" "nest_ok k" "debug_not_in_interrupt k"
    and "rt_object_get_information (ob_type (objects k r)) = Some c"
  shows "wp (rt_object_detach r k) (\<lambda>k'. kinv k' \<and> rt_object_get_type r k' = RT_Object_Class_Null \<and>
     (\<forall>name. wp (rt_object_find name c k') (\<lambda>(res, _). res \<noteq> Some r)))"
proof (rule object_detach_wp [OF assms(1,2,4)], intro conjI allI)
  fix k' name assume k': "kinv k'" and s: "sched_only (upd_object r (\<lambda>ob. ob\<lparr>ob_type := 0\<rparr>)
       (k\<lparr>object_list := \<lambda>c. removeAll r (object_list k c)\<rparr>)) k'"
  note c = get_information_class [OF assms(4)]
  note f = same_but_schedD [OF sched_onlyD(1) [OF s]]
  have "nest_ok k'" "debug_not_in_interrupt k'"
    using assms(2,3)
    by (simp_all add: nest_ok_def debug_not_in_interrupt_def rt_interrupt_get_nest_def f upd_defs)
  then show "wp (rt_object_find name c k') (\<lambda>(res, _). res \<noteq> Some r)"
    by (rule wp_mono [OF object_find_wp [OF k' _ c]])
      (auto simp: f upd_defs dest!: find_Some_mem sym [of "Some r"])
  show "rt_object_get_type r k' = RT_Object_Class_Null"
    using s by (simp add: rt_object_get_type_def sched_only_def same_but_sched_def upd_defs)
qed

end
