(* ===== verification/Timer_Core.thy ===== *)
theory Timer_Core
  imports Kernel_Object
begin

text \<open>
  The timer lists of \<^verbatim>\<open>src/timer.c\<close>: initialisation, insertion in order of timeout,
  removal and control of a timer. Ticks are 32-bit words and every comparison is the wrapped
  difference of the source. \<^verbatim>\<open>RT_TIMER_SKIP_LIST_LEVEL\<close> is 1, so a timer list is one row.
  Starting a timer through \<^verbatim>\<open>rt_timer_start\<close> and the expiry of timers are in theory
  \<open>Timer\<close>.
\<close>

section \<open>Definitions\<close>

abbreviation (input) tm_flag :: "kernel \<Rightarrow> timer_ref \<Rightarrow> u8" where
  "tm_flag k r \<equiv> ob_flag (objects k (OTimer r))"

abbreviation (input) set_tm_flag :: "timer_ref \<Rightarrow> (u8 \<Rightarrow> u8) \<Rightarrow> kernel \<Rightarrow> kernel" where
  "set_tm_flag r f k \<equiv> upd_object (OTimer r) (\<lambda>ob. ob\<lparr>ob_flag := f (ob_flag ob)\<rparr>) k"

definition rt_tick_get :: "kernel \<Rightarrow> rt_tick_t" where
  "rt_tick_get k = rt_tick k"

definition timer_remove :: "timer_ref \<Rightarrow> kernel \<Rightarrow> kernel" where
  "timer_remove r k = tmlist_remove r k"

text \<open>\<^verbatim>\<open>_timer_init\<close>; initialising the row makes the timer a singleton list, that is, a
  member of no timer list.\<close>

definition timer_init :: "timer_ref \<Rightarrow> timeout_fn \<Rightarrow> nat \<Rightarrow> rt_tick_t \<Rightarrow> u8 \<Rightarrow> kernel \<Rightarrow> kernel" where
  "timer_init r timeout parameter time flag k =
     (let k = set_tm_flag r (\<lambda>_. flag) k;
          k = set_tm_flag r (\<lambda>f. f AND NOT RT_TIMER_FLAG_ACTIVATED) k
      in upd_timer r (\<lambda>tm. tm\<lparr>tm_timeout_func := timeout, tm_parameter := parameter,
                              tm_timeout_tick := 0, tm_init_tick := time\<rparr>) k)"

definition timer_list_next_timeout :: "tmlist \<Rightarrow> kernel \<Rightarrow> rt_tick_t option" where
  "timer_list_next_timeout timer_list k =
     (case tmlists k timer_list of
        [] \<Rightarrow> None
      | r # _ \<Rightarrow> Some (tm_timeout_tick (timers k r)))"

definition rt_timer_init ::
  "timer_ref \<Rightarrow> string \<Rightarrow> timeout_fn \<Rightarrow> nat \<Rightarrow> rt_tick_t \<Rightarrow> u8 \<Rightarrow> kernel \<Rightarrow> kernel option" where
  "rt_timer_init r name timeout parameter time flag k = do {
     rt_assert (time < RT_TICK_MAX div 2);
     k \<leftarrow> rt_object_init (OTimer r) RT_Object_Class_Timer name k;
     Some (timer_init r timeout parameter time flag k)
   }"

definition rt_timer_detach :: "timer_ref \<Rightarrow> kernel \<Rightarrow> (rt_err_t \<times> kernel) option" where
  "rt_timer_detach r k = do {
     rt_assert (rt_object_get_type (OTimer r) k = RT_Object_Class_Timer);
     rt_assert (rt_object_is_systemobject (OTimer r) k);
     let k = rt_spin_lock_irqsave k;
     let k = timer_remove r k;
     let k = set_tm_flag r (\<lambda>f. f AND NOT RT_TIMER_FLAG_ACTIVATED) k;
     k \<leftarrow> rt_spin_unlock_irqrestore k;
     k \<leftarrow> rt_object_detach (OTimer r) k;
     Some (RT_EOK, k)
   }"

definition rt_timer_create ::
  "timer_ref option \<Rightarrow> string \<Rightarrow> timeout_fn \<Rightarrow> nat \<Rightarrow> rt_tick_t \<Rightarrow> u8 \<Rightarrow> kernel \<Rightarrow>
   (timer_ref option \<times> kernel) option" where
  "rt_timer_create mem name timeout parameter time flag k = do {
     rt_assert (time < RT_TICK_MAX div 2);
     (timer, k) \<leftarrow> rt_object_allocate (map_option OTimer mem) RT_Object_Class_Timer name k;
     case (timer, mem) of
       (Some _, Some r) \<Rightarrow> Some (Some r, timer_init r timeout parameter time flag k)
     | _ \<Rightarrow> Some (None, k)
   }"

definition rt_timer_delete :: "timer_ref \<Rightarrow> kernel \<Rightarrow> (rt_err_t \<times> kernel) option" where
  "rt_timer_delete r k = do {
     rt_assert (rt_object_get_type (OTimer r) k = RT_Object_Class_Timer);
     rt_assert (\<not> rt_object_is_systemobject (OTimer r) k);
     let k = rt_spin_lock_irqsave k;
     let k = timer_remove r k;
     let k = set_tm_flag r (\<lambda>f. f AND NOT RT_TIMER_FLAG_ACTIVATED) k;
     k \<leftarrow> rt_spin_unlock_irqrestore k;
     k \<leftarrow> rt_object_delete (OTimer r) k;
     Some (RT_EOK, k)
   }"

text \<open>The search loop of \<^verbatim>\<open>_timer_start\<close> followed by the insertion: the new timer goes in
  front of the first one that times out strictly later.\<close>

fun timer_insert :: "(timer_ref \<Rightarrow> rt_tick_t) \<Rightarrow> timer_ref \<Rightarrow> timer_ref list \<Rightarrow> timer_ref list" where
  "timer_insert tick r [] = [r]"
| "timer_insert tick r (t # ts) =
     (if tick t - tick r = 0 then t # timer_insert tick r ts
      else if tick t - tick r < RT_TICK_MAX div 2 then r # t # ts
      else t # timer_insert tick r ts)"

definition timer_start :: "tmlist \<Rightarrow> timer_ref \<Rightarrow> kernel \<Rightarrow> rt_err_t \<times> kernel" where
  "timer_start timer_list r k =
     (if tm_flag k r AND RT_TIMER_FLAG_PROCESSING \<noteq> 0 then (- RT_ERROR, k)
      else
        let k = timer_remove r k;
            k = set_tm_flag r (\<lambda>f. f AND NOT RT_TIMER_FLAG_ACTIVATED) k;
            k = upd_timer r (\<lambda>tm. tm\<lparr>tm_timeout_tick := rt_tick_get k + tm_init_tick tm\<rparr>) k;
            k = k\<lparr>timer_random_nr := timer_random_nr k + 1\<rparr>;
            k = k\<lparr>tmlists := (tmlists k)(timer_list :=
                   timer_insert (\<lambda>t. tm_timeout_tick (timers k t)) r (tmlists k timer_list))\<rparr>;
            k = set_tm_flag r (\<lambda>f. f OR RT_TIMER_FLAG_ACTIVATED) k
        in (RT_EOK, k))"

definition rt_timer_stop :: "timer_ref \<Rightarrow> kernel \<Rightarrow> (rt_err_t \<times> kernel) option" where
  "rt_timer_stop r k = do {
     rt_assert (rt_object_get_type (OTimer r) k = RT_Object_Class_Timer);
     let k = rt_spin_lock_irqsave k;
     if tm_flag k r AND RT_TIMER_FLAG_ACTIVATED = 0 then do {
       k \<leftarrow> rt_spin_unlock_irqrestore k;
       Some (- RT_ERROR, k)
     } else do {
       let k = timer_remove r k;
       let k = set_tm_flag r (\<lambda>f. f AND NOT RT_TIMER_FLAG_ACTIVATED) k;
       k \<leftarrow> rt_spin_unlock_irqrestore k;
       Some (RT_EOK, k)
     }
   }"

text \<open>The commands of \<^verbatim>\<open>rt_timer_control\<close> with the values they pass in, and the value
  stored through \<^verbatim>\<open>arg\<close>.\<close>

datatype timer_cmd =
    RT_TIMER_CTRL_SET_TIME rt_tick_t | RT_TIMER_CTRL_GET_TIME | RT_TIMER_CTRL_SET_ONESHOT
  | RT_TIMER_CTRL_SET_PERIODIC | RT_TIMER_CTRL_GET_STATE | RT_TIMER_CTRL_GET_REMAIN_TIME
  | RT_TIMER_CTRL_GET_FUNC | RT_TIMER_CTRL_SET_FUNC timeout_fn | RT_TIMER_CTRL_GET_PARM
  | RT_TIMER_CTRL_SET_PARM nat | RT_TIMER_CTRL_UNKNOWN

datatype timer_out = NoOut | OutTick rt_tick_t | OutState u32 | OutFunc timeout_fn | OutParm nat

definition rt_timer_control :: "timer_ref \<Rightarrow> timer_cmd \<Rightarrow> kernel \<Rightarrow> (rt_err_t \<times> timer_out \<times> kernel) option" where
  "rt_timer_control r cmd k = do {
     rt_assert (rt_object_get_type (OTimer r) k = RT_Object_Class_Timer);
     let k = rt_spin_lock_irqsave k;
     (out, k) \<leftarrow>
       (case cmd of
          RT_TIMER_CTRL_GET_TIME \<Rightarrow> Some (OutTick (tm_init_tick (timers k r)), k)
        | RT_TIMER_CTRL_SET_TIME arg \<Rightarrow> do {
            rt_assert (arg < RT_TICK_MAX div 2);
            let k = (if tm_flag k r AND RT_TIMER_FLAG_ACTIVATED \<noteq> 0
                     then set_tm_flag r (\<lambda>f. f AND NOT RT_TIMER_FLAG_ACTIVATED) (timer_remove r k)
                     else k);
            Some (NoOut, upd_timer r (\<lambda>tm. tm\<lparr>tm_init_tick := arg\<rparr>) k)
          }
        | RT_TIMER_CTRL_SET_ONESHOT \<Rightarrow> Some (NoOut, set_tm_flag r (\<lambda>f. f AND NOT RT_TIMER_FLAG_PERIODIC) k)
        | RT_TIMER_CTRL_SET_PERIODIC \<Rightarrow> Some (NoOut, set_tm_flag r (\<lambda>f. f OR RT_TIMER_FLAG_PERIODIC) k)
        | RT_TIMER_CTRL_GET_STATE \<Rightarrow>
            Some (OutState (if tm_flag k r AND RT_TIMER_FLAG_ACTIVATED \<noteq> 0
                            then ucast RT_TIMER_FLAG_ACTIVATED else ucast RT_TIMER_FLAG_DEACTIVATED), k)
        | RT_TIMER_CTRL_GET_REMAIN_TIME \<Rightarrow> Some (OutTick (tm_timeout_tick (timers k r)), k)
        | RT_TIMER_CTRL_GET_FUNC \<Rightarrow> Some (OutFunc (tm_timeout_func (timers k r)), k)
        | RT_TIMER_CTRL_SET_FUNC f \<Rightarrow> Some (NoOut, upd_timer r (\<lambda>tm. tm\<lparr>tm_timeout_func := f\<rparr>) k)
        | RT_TIMER_CTRL_GET_PARM \<Rightarrow> Some (OutParm (tm_parameter (timers k r)), k)
        | RT_TIMER_CTRL_SET_PARM p \<Rightarrow> Some (NoOut, upd_timer r (\<lambda>tm. tm\<lparr>tm_parameter := p\<rparr>) k)
        | RT_TIMER_CTRL_UNKNOWN \<Rightarrow> Some (NoOut, k));
     k \<leftarrow> rt_spin_unlock_irqrestore k;
     Some (RT_EOK, out, k)
   }"

definition rt_timer_next_timeout_tick :: "kernel \<Rightarrow> (rt_tick_t \<times> kernel) option" where
  "rt_timer_next_timeout_tick k = do {
     let k = rt_spin_lock_irqsave k;
     let next_timeout = (case timer_list_next_timeout HardTimers k of None \<Rightarrow> RT_TICK_MAX | Some t \<Rightarrow> t);
     k \<leftarrow> rt_spin_unlock_irqrestore k;
     Some (next_timeout, k)
   }"

definition rt_system_timer_init :: "kernel \<Rightarrow> kernel" where
  "rt_system_timer_init k = k\<lparr>tmlists := (tmlists k)(HardTimers := [])\<rparr>"

section \<open>Order of a timer list\<close>

text \<open>
  Ticks wrap, so an order exists only relative to a reference tick \<open>b\<close>: within the half
  range after \<open>b\<close> the wrapped comparisons of the source agree with the distances from
  \<open>b\<close>.
\<close>

definition tick_after :: "rt_tick_t \<Rightarrow> rt_tick_t \<Rightarrow> nat" where
  "tick_after b x = unat (x - b)"

definition in_window :: "rt_tick_t \<Rightarrow> rt_tick_t \<Rightarrow> bool" where
  "in_window b x \<longleftrightarrow> tick_after b x < 0x7fffffff"

definition timers_sorted :: "rt_tick_t \<Rightarrow> (timer_ref \<Rightarrow> rt_tick_t) \<Rightarrow> timer_ref list \<Rightarrow> bool" where
  "timers_sorted b tick l \<longleftrightarrow>
     sorted (map (\<lambda>t. tick_after b (tick t)) l) \<and> (\<forall>t \<in> set l. in_window b (tick t))"

lemma half_range: "(0xffffffff :: u32) div 2 = 0x7fffffff"
  by (simp add: word_unat_eq_iff unat_div)

lemma word_diff_less:
  fixes p q :: u32
  assumes "unat p < 0x7fffffff" "unat q < 0x7fffffff"
  shows "p - q \<noteq> 0 \<and> p - q < 0x7fffffff \<longleftrightarrow> unat q < unat p"
proof -
  have u: "unat (p - q) = (if unat q \<le> unat p then unat p - unat q else unat p + 4294967296 - unat q)"
    by (simp add: unat_sub_if')
  have z: "p - q \<noteq> 0 \<longleftrightarrow> unat p \<noteq> unat q" by (simp add: word_unat_eq_iff [symmetric])
  show ?thesis
    unfolding z using assms by (auto simp: word_less_nat_alt u)
qed

lemma wrapped_diff_less:
  assumes "in_window b x" "in_window b y"
  shows "x - y \<noteq> 0 \<and> x - y < 0x7fffffff \<longleftrightarrow> tick_after b y < tick_after b x"
  using word_diff_less [of "x - b" "y - b"] assms
  by (simp add: in_window_def tick_after_def)

text \<open>Within a window the insertion puts the timer behind every timer that does not time out
  later.\<close>

lemma timer_insert_split:
  assumes "\<forall>t \<in> set l. in_window b (tick t)" "in_window b (tick r)"
  shows "timer_insert tick r l =
     takeWhile (\<lambda>t. tick_after b (tick t) \<le> tick_after b (tick r)) l @ r #
     dropWhile (\<lambda>t. tick_after b (tick t) \<le> tick_after b (tick r)) l"
  using assms(1)
proof (induction l)
  case (Cons t ts)
  then show ?case
    using wrapped_diff_less [of b "tick t" "tick r"] assms(2)
    by (auto simp: half_range not_le)
qed simp

lemma set_timer_insert [simp]: "set (timer_insert tick r l) = insert r (set l)"
  by (induction tick r l rule: timer_insert.induct) auto

lemma timer_insert_sorted:
  assumes s: "timers_sorted b tick l" and w: "in_window b (tick r)"
  shows "timers_sorted b tick (timer_insert tick r l)"
proof -
  have "sorted (map (\<lambda>t. tick_after b (tick t)) (timer_insert tick r l))"
    unfolding timer_insert_split [OF conjunct2 [OF s [unfolded timers_sorted_def]] w]
    using s unfolding timers_sorted_def
  proof (induction l)
    case (Cons t ts)
    then show ?case
      by (auto simp: not_le dest: set_takeWhileD set_dropWhileD)
  qed simp
  then show ?thesis using s w by (auto simp: timers_sorted_def)
qed


section \<open>Stopping and starting\<close>

definition clear_timer :: "timer_ref \<Rightarrow> kernel \<Rightarrow> kernel" where
  "clear_timer r k = set_tm_flag r (\<lambda>f. f AND NOT RT_TIMER_FLAG_ACTIVATED) (timer_remove r k)"

lemma clear_timer_fields [simp]:
  "threads (clear_timer r k) = threads k" "tlists (clear_timer r k) = tlists k"
  "rt_current_thread (clear_timer r k) = rt_current_thread k"
  "rt_scheduler_lock_nest (clear_timer r k) = rt_scheduler_lock_nest k"
  "rt_interrupt_nest (clear_timer r k) = rt_interrupt_nest k"
  "sems (clear_timer r k) = sems k" "mutexes (clear_timer r k) = mutexes k"
  "events (clear_timer r k) = events k" "mailboxes (clear_timer r k) = mailboxes k"
  "msgqueues (clear_timer r k) = msgqueues k" "mempools (clear_timer r k) = mempools k"
  "timers (clear_timer r k) = timers k" "object_list (clear_timer r k) = object_list k"
  "rt_tick (clear_timer r k) = rt_tick k"
  "tmlists (clear_timer r k) h = removeAll r (tmlists k h)"
  "kinv (clear_timer r k) = kinv k"
  "thread_suspended (clear_timer r k) t = thread_suspended k t"
  by (simp_all add: clear_timer_def timer_remove_def tmlist_remove_def upd_defs thread_suspended_def)

lemma clear_timer_active [simp]:
  "timer_active (clear_timer r k) r' \<longleftrightarrow> r' \<noteq> r \<and> timer_active k r'"
  by (auto simp: clear_timer_def timer_remove_def tmlist_remove_def upd_defs timer_active_def)

lemma clear_timer_enter:
  "set_tm_flag r (\<lambda>f. f AND - 2) (timer_remove r (rt_enter_critical k)) =
   rt_enter_critical (clear_timer r k)"
  by (simp add: clear_timer_def timer_remove_def tmlist_remove_def upd_defs rt_enter_critical_def)

lemma timer_stop_wp:
  assumes k: "kinv k" and n: "nest_ok k" and ty: "rt_object_get_type (OTimer r) k = RT_Object_Class_Timer"
    and Q1: "\<And>k'. timer_active k r \<Longrightarrow> kinv k' \<Longrightarrow> sched_only (clear_timer r k) k' \<Longrightarrow> Q (0, k')"
    and Q2: "\<And>k'. \<not> timer_active k r \<Longrightarrow> kinv k' \<Longrightarrow> sched_only k k' \<Longrightarrow> Q (- 1, k')"
  shows "wp (rt_timer_stop r k) Q"
proof (cases "timer_active k r")
  case False
  then show ?thesis
    using Q2 ty read_section_wp [OF k n]
    by (simp add: rt_timer_stop_def spin_defs Let_def timer_active_def)
next
  case True
  have "wp (rt_exit_critical (rt_enter_critical (clear_timer r k))) (\<lambda>k'. Q (0, k'))"
    using Q1 True k n by (intro read_section_wp) (simp_all add: nest_ok_def)
  with True ty show ?thesis
    unfolding rt_timer_stop_def spin_defs Let_def
    by (simp add: timer_active_def clear_timer_enter del: clear_timer_fields)
qed

section \<open>Properties\<close>

text \<open>C6. Starting a timer that is not being processed puts it, active and due
  \<^verbatim>\<open>init_tick\<close> ticks from now, into the timer list, which stays ordered by timeout; among
  timers due at the same tick it comes last.\<close>

theorem timer_start_ordered:
  assumes p: "tm_flag k r AND RT_TIMER_FLAG_PROCESSING = 0"
    and s: "timers_sorted b (\<lambda>t. tm_timeout_tick (timers k t)) (removeAll r (tmlists k h))"
    and w: "in_window b (rt_tick k + tm_init_tick (timers k r))"
  shows "case timer_start h r k of (err, k') \<Rightarrow>
     err = RT_EOK \<and> timer_active k' r \<and>
     tm_timeout_tick (timers k' r) = rt_tick k + tm_init_tick (timers k r) \<and>
     timers_sorted b (\<lambda>t. tm_timeout_tick (timers k' t)) (tmlists k' h) \<and>
     (\<exists>before after. tmlists k' h = before @ r # after \<and> before @ after = removeAll r (tmlists k h) \<and>
        (\<forall>t \<in> set before. tick_after b (tm_timeout_tick (timers k' t)) \<le>
                           tick_after b (tm_timeout_tick (timers k' r))) \<and>
        (\<forall>t \<in> set after. tick_after b (tm_timeout_tick (timers k' r)) <
                          tick_after b (tm_timeout_tick (timers k' t))))"
proof -
  let ?l = "removeAll r (tmlists k h)"
  obtain err k' where r: "timer_start h r k = (err, k')" by force
  define tick where "tick t = tm_timeout_tick (timers k' t)" for t
  have k': "err = 0" "timers k' = (timers k)(r := (timers k r)\<lparr>tm_timeout_tick :=
      rt_tick k + tm_init_tick (timers k r)\<rparr>)" "timer_active k' r"
    using r p by (auto simp: timer_start_def Let_def upd_defs timer_remove_def tmlist_remove_def
        rt_tick_get_def timer_active_def)
  have l: "tmlists k' h = timer_insert tick r ?l"
    using r p unfolding tick_def k'(2)
    by (auto simp: timer_start_def Let_def upd_defs timer_remove_def tmlist_remove_def rt_tick_get_def
        cong: if_cong)
  have me: "map (\<lambda>t. tick_after b (tick t)) ?l = map (\<lambda>t. tick_after b (tm_timeout_tick (timers k t))) ?l"
    by (rule map_cong) (auto simp: tick_def k')
  have s': "timers_sorted b tick ?l"
    using s unfolding timers_sorted_def me by (auto simp: tick_def k')
  have w': "in_window b (tick r)" using w by (simp add: tick_def k')
  let ?P = "\<lambda>t. tick_after b (tick t) \<le> tick_after b (tick r)"
  have sp: "timer_insert tick r ?l = takeWhile ?P ?l @ r # dropWhile ?P ?l"
    using s' w' by (intro timer_insert_split) (simp_all add: timers_sorted_def)
  have before: "\<forall>t \<in> set (takeWhile ?P ?l). ?P t" by (auto dest: set_takeWhileD)
  have after: "\<forall>t \<in> set (dropWhile ?P ?l). tick_after b (tick r) < tick_after b (tick t)"
    using s' sorted_dropWhile_le [of "\<lambda>t. tick_after b (tick t)" ?l] unfolding timers_sorted_def by blast
  have ex: "\<exists>before after. tmlists k' h = before @ r # after \<and> before @ after = ?l \<and>
      (\<forall>t \<in> set before. ?P t) \<and> (\<forall>t \<in> set after. tick_after b (tick r) < tick_after b (tick t))"
    unfolding l sp using before after takeWhile_dropWhile_id by blast
  have "timers_sorted b tick (tmlists k' h)" unfolding l by (rule timer_insert_sorted [OF s' w'])
  moreover have "tick r = rt_tick k + tm_init_tick (timers k r)" by (simp add: tick_def k')
  ultimately show ?thesis
    using ex k' unfolding r prod.case tick_def by blast
qed

text \<open>Instance: on a tick counter about to wrap, a timer of 20 ticks goes behind one due at the
  same tick after the wrap and in front of a later one.\<close>

definition sample_timers :: kernel where
  "sample_timers = sample_kernel\<lparr>rt_tick := 0xfffffff0,
     timers := (\<lambda>_. zero_timer)(TimerObj 2 := zero_timer\<lparr>tm_init_tick := 20\<rparr>,
       TimerObj 3 := zero_timer\<lparr>tm_timeout_tick := 4\<rparr>, TimerObj 4 := zero_timer\<lparr>tm_timeout_tick := 9\<rparr>),
     tmlists := (\<lambda>_. [])(HardTimers := [TimerObj 3, TimerObj 4])\<rparr>"

theorem timer_start_ordered_witness:
  "case timer_start HardTimers (TimerObj 2) sample_timers of (err, k') \<Rightarrow>
     err = RT_EOK \<and> timer_active k' (TimerObj 2) \<and> tm_timeout_tick (timers k' (TimerObj 2)) = 4 \<and>
     timers_sorted 0xfffffff0 (\<lambda>t. tm_timeout_tick (timers k' t)) (tmlists k' HardTimers)"
proof -
  have "timers_sorted 0xfffffff0 (\<lambda>t. tm_timeout_tick (timers sample_timers t))
      (removeAll (TimerObj 2) (tmlists sample_timers HardTimers))"
    by (simp add: sample_timers_def timers_sorted_def tick_after_def in_window_def zero_timer_def)
  then show ?thesis
    using timer_start_ordered [where k = sample_timers and r = "TimerObj 2" and b = "0xfffffff0"
        and h = HardTimers]
    by (auto simp: sample_timers_def sample_kernel_def zero_kernel_def zero_object_def zero_timer_def
        in_window_def tick_after_def split: prod.splits)
qed

end
