(* ===== verification/Scheduler_Comm.thy ===== *)
theory Scheduler_Comm
  imports Timer_Core
begin

text \<open>
  The operations on a thread's scheduling context shared by both schedulers,
  \<^verbatim>\<open>src/scheduler_comm.c\<close>: making a suspended thread ready, yielding, time slices and
  changing a priority.
\<close>

section \<open>Definitions\<close>

definition rt_sched_thread_init_ctx :: "tid \<Rightarrow> rt_tick_t \<Rightarrow> nat \<Rightarrow> kernel \<Rightarrow> kernel option" where
  "rt_sched_thread_init_ctx t tick priority k =
     rt_sched_thread_init_priv t tick priority (upd_thread t (\<lambda>th. th\<lparr>th_stat := RT_THREAD_INIT\<rparr>) k)"

definition rt_sched_thread_timer_start :: "tid \<Rightarrow> kernel \<Rightarrow> kernel" where
  "rt_sched_thread_timer_start t k = upd_thread t (\<lambda>th. th\<lparr>th_ttmr_set := True\<rparr>) k"

definition rt_sched_thread_timer_stop :: "tid \<Rightarrow> kernel \<Rightarrow> (rt_err_t \<times> kernel) option" where
  "rt_sched_thread_timer_stop t k =
     (if th_ttmr_set (threads k t) then do {
        (error, k) \<leftarrow> rt_timer_stop (ThreadTimer t) k;
        Some (error, upd_thread t (\<lambda>th. th\<lparr>th_ttmr_set := False\<rparr>) k)
      } else Some (RT_EOK, k))"

definition rt_sched_thread_get_stat :: "tid \<Rightarrow> kernel \<Rightarrow> u8" where
  "rt_sched_thread_get_stat t k = th_code k t"

definition rt_sched_thread_get_curr_prio :: "tid \<Rightarrow> kernel \<Rightarrow> nat" where
  "rt_sched_thread_get_curr_prio t k = th_prio k t"

definition rt_sched_thread_get_init_prio :: "tid \<Rightarrow> kernel \<Rightarrow> nat" where
  "rt_sched_thread_get_init_prio t k = th_init_priority (threads k t)"

definition rt_sched_thread_is_suspended :: "tid \<Rightarrow> kernel \<Rightarrow> bool" where
  "rt_sched_thread_is_suspended t k \<longleftrightarrow> stat_suspended (th_stat (threads k t))"

definition rt_sched_thread_close :: "tid \<Rightarrow> kernel \<Rightarrow> kernel" where
  "rt_sched_thread_close t k = upd_thread t (\<lambda>th. th\<lparr>th_stat := RT_THREAD_CLOSE\<rparr>) k"

definition rt_sched_thread_yield :: "tid \<Rightarrow> kernel \<Rightarrow> kernel" where
  "rt_sched_thread_yield t k =
     upd_thread t (\<lambda>th. th\<lparr>th_remaining_tick := th_init_tick th, th_stat := set_stat_yield (th_stat th)\<rparr>) k"

definition rt_sched_thread_ready :: "tid \<Rightarrow> kernel \<Rightarrow> (rt_err_t \<times> kernel) option" where
  "rt_sched_thread_ready t k =
     (if \<not> rt_sched_thread_is_suspended t k then Some (- RT_EINVAL, k)
      else do {
        (error, k) \<leftarrow> (if th_ttmr_set (threads k t) then rt_sched_thread_timer_stop t k
                        else Some (RT_EOK, k));
        if error = RT_EOK
        then Some (error, rt_sched_insert_thread t (tlist_remove t k))
        else Some (error, k)
      })"

definition rt_sched_tick_increase :: "kernel \<Rightarrow> (rt_err_t \<times> kernel) option" where
  "rt_sched_tick_increase k = do {
     thread \<leftarrow> rt_current_thread k;
     let k = upd_thread thread (\<lambda>th. th\<lparr>th_remaining_tick := th_remaining_tick th - 1\<rparr>) k;
     if th_remaining_tick (threads k thread) \<noteq> 0 then Some (RT_EOK, k)
     else do {
       let k = rt_sched_thread_yield thread k;
       k \<leftarrow> rt_sched_unlock_n_resched k;
       Some (RT_EOK, k)
     }
   }"

definition rt_sched_thread_change_priority :: "tid \<Rightarrow> nat \<Rightarrow> kernel \<Rightarrow> (rt_err_t \<times> kernel) option" where
  "rt_sched_thread_change_priority t priority k = do {
     rt_assert (priority < RT_THREAD_PRIORITY_MAX);
     if th_code k t = RT_THREAD_READY then do {
       let k = rt_sched_remove_thread t k;
       let k = upd_thread t (\<lambda>th. th\<lparr>th_current_priority := priority\<rparr>) k;
       let k = upd_thread t (\<lambda>th. th\<lparr>th_number_mask := prio_mask (th_current_priority th),
                                     th_stat := RT_THREAD_INIT\<rparr>) k;
       Some (RT_EOK, rt_sched_insert_thread t k)
     } else do {
       let k = upd_thread t (\<lambda>th. th\<lparr>th_current_priority := priority\<rparr>) k;
       Some (RT_EOK, upd_thread t (\<lambda>th. th\<lparr>th_number_mask := prio_mask (th_current_priority th)\<rparr>) k)
     }
   }"

section \<open>Thread timers\<close>

text \<open>The thread timer is a timer object, and a suspended thread whose flag
  \<^verbatim>\<open>sched_flag_ttmr_set\<close> is set has an active thread timer: this is what lets
  \<^verbatim>\<open>rt_sched_thread_ready\<close> stop the timer without an error.\<close>

definition ttmr_ok :: "kernel \<Rightarrow> tid \<Rightarrow> bool" where
  "ttmr_ok k t \<longleftrightarrow> (th_ttmr_set (threads k t) \<longrightarrow>
     rt_object_get_type (OTimer (ThreadTimer t)) k = RT_Object_Class_Timer \<and>
     (thread_suspended k t \<longrightarrow> timer_active k (ThreadTimer t)))"

lemma sched_only_ttmr_ok: "sched_only k k' \<Longrightarrow> ttmr_ok k' t = ttmr_ok k t"
  using sched_onlyD(4,8) [of k k'] same_but_schedD(1) [OF sched_onlyD(1), of k k']
  by (simp add: ttmr_ok_def timer_active_def rt_object_get_type_def)

section \<open>Making a thread ready\<close>

text \<open>The state \<^verbatim>\<open>rt_sched_thread_ready\<close> has reached before it relinks the thread.\<close>

definition timer_quiet :: "tid \<Rightarrow> kernel \<Rightarrow> kernel" where
  "timer_quiet t k =
     (if th_ttmr_set (threads k t)
      then upd_thread t (\<lambda>th. th\<lparr>th_ttmr_set := False\<rparr>) (clear_timer (ThreadTimer t) k) else k)"

lemma timer_quiet_fields [simp]:
  "tlists (timer_quiet t k) = tlists k" "rt_current_thread (timer_quiet t k) = rt_current_thread k"
  "rt_scheduler_lock_nest (timer_quiet t k) = rt_scheduler_lock_nest k"
  "sems (timer_quiet t k) = sems k" "mutexes (timer_quiet t k) = mutexes k"
  "events (timer_quiet t k) = events k" "mailboxes (timer_quiet t k) = mailboxes k"
  "msgqueues (timer_quiet t k) = msgqueues k" "mempools (timer_quiet t k) = mempools k"
  "rt_interrupt_nest (timer_quiet t k) = rt_interrupt_nest k" "rt_tick (timer_quiet t k) = rt_tick k"
  "threads (timer_quiet t k) = (threads k)(t := (threads k t)\<lparr>th_ttmr_set := False\<rparr>)"
  "thread_suspended (timer_quiet t k) t' = thread_suspended k t'"
  "kinv (timer_quiet t k) = kinv k"
proof -
  show "kinv (timer_quiet t k) = kinv k"
    by (simp add: timer_quiet_def kinv_upd_thread thread_view_def)
qed (auto simp: timer_quiet_def upd_defs thread_suspended_def)

lemma timer_stop_quiet_wp:
  assumes k: "kinv k" and n: "nest_ok k" and o: "ttmr_ok k t" and s: "thread_suspended k t"
    and Q: "\<And>k'. kinv k' \<Longrightarrow> sched_only (timer_quiet t k) k' \<Longrightarrow> Q (0, k')"
  shows "wp (if th_ttmr_set (threads k t) then rt_sched_thread_timer_stop t k else Some (0, k)) Q"
proof (cases "th_ttmr_set (threads k t)")
  case False
  then show ?thesis using Q k by (simp add: timer_quiet_def)
next
  case True
  let ?f = "\<lambda>th. th\<lparr>th_ttmr_set := False\<rparr>"
  have a: "timer_active k (ThreadTimer t)" "rt_object_get_type (OTimer (ThreadTimer t)) k = RT_Object_Class_Timer"
    using o s True by (simp_all add: ttmr_ok_def)
  have "wp (rt_timer_stop (ThreadTimer t) k) (\<lambda>(e, k'). Q (e, upd_thread t ?f k'))"
  proof (rule timer_stop_wp [OF k n a(2)])
    fix k' assume k': "kinv k'" "sched_only (clear_timer (ThreadTimer t) k) k'"
    have "kinv (upd_thread t ?f k')" using k'(1) by (simp add: kinv_upd_thread thread_view_def)
    moreover have "sched_only (timer_quiet t k) (upd_thread t ?f k')"
      using sched_only_upd_thread [OF k'(2), of ?f t] True by (simp add: timer_quiet_def)
    ultimately show "case (0, k') of (e, k') \<Rightarrow> Q (e, upd_thread t ?f k')" using Q by simp
  qed (use a in simp)
  with True show ?thesis
    by (simp add: rt_sched_thread_timer_stop_def case_prod_unfold)
qed

lemma ready_relink_kinv:
  assumes k: "kinv k" and s: "thread_suspended k t"
  shows "kinv (rt_sched_insert_thread t (tlist_remove t k))"
proof -
  have c: "th_code k t \<noteq> 0" "th_code k t \<noteq> 1" "th_code k t \<noteq> 2" "th_code k t \<noteq> 3"
    using s stat_not_suspended_code [of "th_stat (threads k t)"] by (auto simp: thread_suspended_def)
  have T: "thread_ok k t" using k by (simp add: kinv_def)
  have b: "kinv_but t (tlist_remove t k)"
    using k T c by (intro tlist_remove_kinv_but) (auto simp: kinv_def thread_ok_def)
  show ?thesis
    using T c by (intro insert_kinv [OF b]) (auto simp: thread_ok_def tlist_remove_def)
qed

lemma thread_ready_wp:
  assumes k: "kinv k" and n: "nest_ok k" and o: "ttmr_ok k t"
    and Q1: "\<And>k1. thread_suspended k t \<Longrightarrow> kinv k1 \<Longrightarrow> sched_only (timer_quiet t k) k1 \<Longrightarrow>
       kinv (rt_sched_insert_thread t (tlist_remove t k1)) \<Longrightarrow>
       Q (0, rt_sched_insert_thread t (tlist_remove t k1))"
    and Q2: "\<not> thread_suspended k t \<Longrightarrow> Q (- 10, k)"
  shows "wp (rt_sched_thread_ready t k) Q"
proof (cases "thread_suspended k t")
  case False
  then show ?thesis using Q2
    by (simp add: rt_sched_thread_ready_def rt_sched_thread_is_suspended_def thread_suspended_def)
next
  case True
  have "wp (if th_ttmr_set (threads k t) then rt_sched_thread_timer_stop t k else Some (0, k))
     (\<lambda>(e, k1). wp (if e = 0 then Some (e, rt_sched_insert_thread t (tlist_remove t k1)) else Some (e, k1)) Q)"
  proof (rule timer_stop_quiet_wp [OF k n o True])
    fix k1 assume k1: "kinv k1" "sched_only (timer_quiet t k) k1"
    then have "thread_suspended k1 t" using True by (simp add: sched_onlyD)
    then show "case (0, k1) of (e, k1) \<Rightarrow> wp (if e = 0 then Some (e, rt_sched_insert_thread t (tlist_remove t k1)) else Some (e, k1)) Q"
      using Q1 [OF True k1] ready_relink_kinv [OF k1(1)] by simp
  qed
  with True show ?thesis
    by (simp add: rt_sched_thread_ready_def rt_sched_thread_is_suspended_def thread_suspended_def
        case_prod_unfold)
qed

text \<open>The lists and statuses after relinking.\<close>

lemma relink_fields:
  assumes "sched_only (timer_quiet t k) k1" and k': "k' = rt_sched_insert_thread t (tlist_remove t k1)"
  shows "sems k' = sems k" "mutexes k' = mutexes k" "events k' = events k" "mailboxes k' = mailboxes k"
    "msgqueues k' = msgqueues k" "mempools k' = mempools k"
    "rt_scheduler_lock_nest k' = rt_scheduler_lock_nest k" "rt_interrupt_nest k' = rt_interrupt_nest k"
    "rt_tick k' = rt_tick k"
    "(\<And>p. h \<noteq> ReadyL p) \<Longrightarrow> tlists k' h = removeAll t (tlists k h)"
    "th_code k' t = (if rt_current_thread k' = Some t then RT_THREAD_RUNNING else RT_THREAD_READY)"
    "thread_suspended k' t' \<longleftrightarrow> t' \<noteq> t \<and> thread_suspended k t'"
    "rt_current_thread k' = None \<longleftrightarrow> rt_current_thread k = None"
    "(threads k' t')\<lparr>th_stat := 0\<rparr> = (if t' = t then (threads k t)\<lparr>th_ttmr_set := False, th_stat := 0\<rparr>
                                        else (threads k t')\<lparr>th_stat := 0\<rparr>)"
    "\<not> th_ttmr_set (threads k' t)"
proof -
  note S = assms(1)
  note f = same_but_schedD [OF sched_onlyD(1) [OF S]]
  have g: "same_but_sched k1 k'"
    unfolding k' by (simp add: same_but_sched_def tlist_remove_def)
       (simp add: rt_sched_insert_thread_def upd_defs tlist_insert_after_def tlist_insert_before_def Let_def)
  note g = same_but_schedD [OF g]
  show "sems k' = sems k" "mutexes k' = mutexes k" "events k' = events k" "mailboxes k' = mailboxes k"
    "msgqueues k' = msgqueues k" "mempools k' = mempools k"
    "rt_scheduler_lock_nest k' = rt_scheduler_lock_nest k" "rt_interrupt_nest k' = rt_interrupt_nest k"
    "rt_tick k' = rt_tick k"
    by (simp_all add: f g)
  have cur: "rt_current_thread k' = rt_current_thread k1" by (simp add: k' tlist_remove_def)
  show "tlists k' h = removeAll t (tlists k h)" if "\<And>p. h \<noteq> ReadyL p"
    using sched_onlyD(3) [OF S, of h] that
    by (simp add: k' rt_sched_insert_thread_def tlist_remove_def upd_defs tlist_insert_after_def
        tlist_insert_before_def Let_def)
  show "th_code k' t = (if rt_current_thread k' = Some t then RT_THREAD_RUNNING else RT_THREAD_READY)"
    unfolding cur
    by (simp add: k' rt_sched_insert_thread_def tlist_remove_def upd_defs tlist_insert_after_def
        tlist_insert_before_def Let_def)
  show "thread_suspended k' t' \<longleftrightarrow> t' \<noteq> t \<and> thread_suspended k t'"
    using sched_onlyD(4) [OF S, of t']
    by (simp add: k' rt_sched_insert_thread_def tlist_remove_def upd_defs tlist_insert_after_def
        tlist_insert_before_def Let_def thread_suspended_def)
  show "rt_current_thread k' = None \<longleftrightarrow> rt_current_thread k = None"
    using sched_onlyD(2) [OF S] by (simp add: cur)
  show t: "(threads k' t')\<lparr>th_stat := 0\<rparr> = (if t' = t then (threads k t)\<lparr>th_ttmr_set := False, th_stat := 0\<rparr>
      else (threads k t')\<lparr>th_stat := 0\<rparr>)" for t'
    using S unfolding sched_only_def
    by (simp add: k' rt_sched_insert_thread_def tlist_remove_def upd_defs tlist_insert_after_def
        tlist_insert_before_def Let_def)
  show "\<not> th_ttmr_set (threads k' t)"
    using arg_cong [OF t [of t], of th_ttmr_set] by simp
qed


section \<open>Other operations\<close>

lemma change_priority_kinv:
  assumes k: "kinv k" and p: "p < 32"
  shows "wp (rt_sched_thread_change_priority t p k) (\<lambda>(e, k'). e = 0 \<and> kinv k')"
proof (cases "th_code k t = RT_THREAD_READY")
  case True
  let ?f = "\<lambda>th. th\<lparr>th_number_mask := prio_mask (th_current_priority th), th_stat := 0\<rparr>"
  let ?g = "\<lambda>th. th\<lparr>th_current_priority := p\<rparr>"
  have "kinv_but t (rt_sched_remove_thread t k)"
    using k True by (intro remove_kinv_but) (auto simp: kinv_def thread_ok_def)
  then have b: "kinv_but t (upd_thread t ?f (upd_thread t ?g (rt_sched_remove_thread t k)))"
    by (intro kinv_but_upd_thread)
  have "kinv (rt_sched_insert_thread t (upd_thread t ?f (upd_thread t ?g (rt_sched_remove_thread t k))))"
    using p by (intro insert_kinv [OF b]) (simp_all add: upd_defs)
  then show ?thesis using True p by (simp add: rt_sched_thread_change_priority_def Let_def)
next
  case False
  let ?f = "\<lambda>th. th\<lparr>th_number_mask := prio_mask (th_current_priority th)\<rparr>"
  let ?g = "\<lambda>th. th\<lparr>th_current_priority := p\<rparr>"
  have T: "thread_ok k t'" for t' using k by (simp add: kinv_def)
  have "thread_ok (upd_thread t ?f (upd_thread t ?g k)) t'" for t'
    using T [of t'] False p
    by (auto simp: thread_ok_def upd_defs thread_suspended_def)
  moreover have "kglobal (upd_thread t ?f (upd_thread t ?g k))"
    using k by (simp add: kinv_def kglobal_def lists_ok_def group_ok_def upd_defs)
  ultimately have "kinv (upd_thread t ?f (upd_thread t ?g k))" by (simp add: kinv_def)
  then show ?thesis using False p by (simp add: rt_sched_thread_change_priority_def Let_def)
qed

lemma change_priority_prio:
  "p < 32 \<Longrightarrow> wp (rt_sched_thread_change_priority t p k) (\<lambda>(e, k').
     (\<forall>t'. th_prio k' t' = (if t' = t then p else th_prio k t')) \<and> same_but_sched k k' \<and>
     rt_current_thread k' = rt_current_thread k)"
  by (auto simp: rt_sched_thread_change_priority_def Let_def upd_defs rt_sched_insert_thread_def
      tlist_insert_after_def tlist_insert_before_def same_but_sched_def rt_sched_remove_thread_def tlist_remove_def)

lemma yield_kinv [simp]: "kinv (rt_sched_thread_yield t k) = kinv k"
  by (simp add: rt_sched_thread_yield_def kinv_upd_thread thread_view_def)

lemma unlock_n_resched_wp:
  assumes k: "kinv k" and Q: "\<And>k'. kinv k' \<Longrightarrow> sched_only k k' \<Longrightarrow> Q k'"
  shows "wp (rt_sched_unlock_n_resched k) Q"
proof (cases "rt_current_thread k")
  case None
  then show ?thesis using Q k by (simp add: rt_sched_unlock_n_resched_def)
next
  case (Some c)
  then show ?thesis using wp_mono [OF schedule_total [OF k Some]] Q
    by (simp add: rt_sched_unlock_n_resched_def)
qed

lemma tick_increase_kinv:
  assumes k: "kinv k" and c: "rt_current_thread k = Some c"
  shows "wp (rt_sched_tick_increase k) (\<lambda>(e, k'). e = 0 \<and> kinv k')"
proof -
  let ?k = "upd_thread c (\<lambda>th. th\<lparr>th_remaining_tick := th_remaining_tick th - 1\<rparr>) k"
  have k1: "kinv ?k" using k by (simp add: kinv_upd_thread thread_view_def)
  then show ?thesis
    using c unlock_n_resched_wp [of "rt_sched_thread_yield c ?k"]
    by (simp add: rt_sched_tick_increase_def)
qed

section \<open>Properties\<close>

text \<open>Making a suspended thread ready always succeeds when its timer is consistent: the
  thread leaves every suspend list, its timer is stopped, it becomes READY (RUNNING if it has not
  been switched away from yet) and the invariant is kept. A thread that is not suspended is left
  alone with \<^verbatim>\<open>-RT_EINVAL\<close>.\<close>

theorem rt_sched_thread_ready_correct:
  assumes k: "kinv k" and n: "nest_ok k" and o: "ttmr_ok k t"
  shows "wp (rt_sched_thread_ready t k) (\<lambda>(err, k').
     if thread_suspended k t
     then err = RT_EOK \<and> kinv k' \<and> \<not> thread_suspended k' t \<and> \<not> th_ttmr_set (threads k' t) \<and>
          (\<forall>h. (\<forall>p. h \<noteq> ReadyL p) \<longrightarrow> t \<notin> set (tlists k' h)) \<and>
          (th_code k' t = RT_THREAD_READY \<and> t \<in> set (tlists k' (ReadyL (th_prio k' t))) \<or>
           th_code k' t = RT_THREAD_RUNNING \<and> rt_current_thread k' = Some t)
     else err = - RT_EINVAL \<and> k' = k)"
proof (rule thread_ready_wp [OF k n o])
  fix k1 assume s: "thread_suspended k t" and k1: "kinv k1" "sched_only (timer_quiet t k) k1"
    and k': "kinv (rt_sched_insert_thread t (tlist_remove t k1))"
  note R = relink_fields [OF k1(2) refl]
  have "t \<in> set (tlists k' (ReadyL (th_prio k' t)))"
    if "th_code k' t = RT_THREAD_READY" "kinv k'" for k'
    using that by (simp add: kinv_def thread_ok_def)
  with s k' R show "case (0, rt_sched_insert_thread t (tlist_remove t k1)) of (err, k') \<Rightarrow>
     if thread_suspended k t
     then err = 0 \<and> kinv k' \<and> \<not> thread_suspended k' t \<and> \<not> th_ttmr_set (threads k' t) \<and>
          (\<forall>h. (\<forall>p. h \<noteq> ReadyL p) \<longrightarrow> t \<notin> set (tlists k' h)) \<and>
          (th_code k' t = 2 \<and> t \<in> set (tlists k' (ReadyL (th_prio k' t))) \<or>
           th_code k' t = 3 \<and> rt_current_thread k' = Some t)
     else err = - 10 \<and> k' = k"
    by auto
qed simp

text \<open>Time slices: the tick that uses up the running thread's slice refills it and, when the
  thread's priority is the best, hands the processor to the next thread of that priority, the
  thread itself going to the tail of the ready list.\<close>

theorem tick_increase_time_slice:
  assumes k: "kinv k" and c: "rt_current_thread k = Some c" and u: "rt_scheduler_lock_nest k = 0"
    and r: "th_code k c = RT_THREAD_RUNNING" and one: "th_remaining_tick (threads k c) = 1"
    and l: "tlists k (ReadyL (th_prio k c)) = t # ts"
    and b: "\<And>t'. th_code k t' = RT_THREAD_READY \<Longrightarrow> th_prio k c \<le> th_prio k t'"
  shows "wp (rt_sched_tick_increase k) (\<lambda>(err, k'). err = RT_EOK \<and> kinv k' \<and> rt_current_thread k' = Some t \<and>
     tlists k' (ReadyL (th_prio k c)) = ts @ [c] \<and>
     th_remaining_tick (threads k' c) = th_init_tick (threads k c))"
proof -
  define k1 where "k1 = rt_sched_thread_yield c
     (upd_thread c (\<lambda>th. th\<lparr>th_remaining_tick := th_remaining_tick th - 1\<rparr>) k)"
  have k1: "kinv k1" using k by (simp add: k1_def kinv_upd_thread thread_view_def)
  have f: "rt_current_thread k1 = Some c" "rt_scheduler_lock_nest k1 = 0" "tlists k1 = tlists k"
    "th_code k1 t' = th_code k t'" "th_prio k1 t' = th_prio k t'" "stat_yield (th_stat (threads k1 c))"
    "th_remaining_tick (threads k1 c) = th_init_tick (threads k c)" for t'
    using c u by (auto simp: k1_def rt_sched_thread_yield_def upd_defs)
  obtain k' where k': "rt_schedule k1 = Some k'" "rt_current_thread k' = Some t"
    "tlists k' (ReadyL (th_prio k c)) = ts @ [c]"
    using schedule_round_robin [OF k1 f(1,2) _ f(6), of t ts] r l b by (auto simp: f)
  have "kinv k'" "sched_only k1 k'"
    using schedule_total [OF k1 f(1)] k'(1) by simp_all
  then show ?thesis
    using c one k' f(1,7) sched_onlyD(14) [of k1 k' c]
    by (simp add: rt_sched_tick_increase_def k1_def [symmetric] rt_sched_unlock_n_resched_def)
      (simp add: upd_defs)
qed

end
