(* ===== verification/Suspend_List.thy ===== *)
theory Suspend_List
  imports Scheduler_Comm
begin

text \<open>
  The suspend lists of the IPC objects, the first part of \<^verbatim>\<open>src/ipc.c\<close>: a blocked thread is
  queued in arrival or priority order and woken from the front. \<open>woken\<close> describes the effect
  of waking one thread, \<open>kok\<close> collects the invariants every IPC operation keeps.
\<close>

section \<open>Definitions\<close>

definition rt_susp_list_dequeue :: "tlist \<Rightarrow> rt_err_t \<Rightarrow> kernel \<Rightarrow> (tid option \<times> kernel) option" where
  "rt_susp_list_dequeue susp_list thread_error k =
     (case tlists k susp_list of
        thread # _ \<Rightarrow> do {
          (error, k) \<leftarrow> rt_sched_thread_ready thread k;
          if error \<noteq> RT_EOK then Some (None, k)
          else if thread_error \<ge> 0
          then Some (Some thread, upd_thread thread (\<lambda>th. th\<lparr>th_error := thread_error\<rparr>) k)
          else Some (Some thread, k)
        }
      | [] \<Rightarrow> Some (None, k))"

partial_function (option) rt_susp_list_resume_all :: "tlist \<Rightarrow> rt_err_t \<Rightarrow> kernel \<Rightarrow> kernel option" where
  "rt_susp_list_resume_all susp_list thread_error k = do {
     (thread, k) \<leftarrow> rt_susp_list_dequeue susp_list thread_error k;
     case thread of
       None \<Rightarrow> Some k
     | Some _ \<Rightarrow> rt_susp_list_resume_all susp_list thread_error k
   }"

partial_function (option) rt_susp_list_resume_all_irq :: "tlist \<Rightarrow> rt_err_t \<Rightarrow> kernel \<Rightarrow> kernel option" where
  "rt_susp_list_resume_all_irq susp_list thread_error k = do {
     let k = rt_spin_lock_irqsave k;
     (thread, k) \<leftarrow> rt_susp_list_dequeue susp_list thread_error k;
     k \<leftarrow> rt_spin_unlock_irqrestore k;
     case thread of
       None \<Rightarrow> Some k
     | Some _ \<Rightarrow> rt_susp_list_resume_all_irq susp_list thread_error k
   }"

text \<open>The search for the position in a priority-ordered list.\<close>

fun susp_insert :: "(tid \<Rightarrow> nat) \<Rightarrow> tid \<Rightarrow> tid list \<Rightarrow> tid list" where
  "susp_insert prio t [] = [t]"
| "susp_insert prio t (s # ss) = (if prio t < prio s then t # s # ss else s # susp_insert prio t ss)"

definition rt_susp_list_enqueue :: "tlist \<Rightarrow> tid \<Rightarrow> u8 \<Rightarrow> kernel \<Rightarrow> kernel option" where
  "rt_susp_list_enqueue susp_list thread ipc_flags k =
     (if ipc_flags = RT_IPC_FLAG_FIFO then Some (tlist_insert_before susp_list thread k)
      else if ipc_flags = RT_IPC_FLAG_PRIO
      then Some (k\<lparr>tlists := (tlists k)(susp_list :=
                     susp_insert (\<lambda>t. rt_sched_thread_get_curr_prio t k) thread (tlists k susp_list))\<rparr>)
      else None)"

section \<open>The invariants of an IPC operation\<close>

text \<open>\<open>kok n k\<close>: the scheduler invariant, consistent thread timers, and room for \<open>n\<close> more
  nested critical sections in the 16-bit nesting counter.\<close>

definition nest_room :: "nat \<Rightarrow> kernel \<Rightarrow> bool" where
  "nest_room n k \<longleftrightarrow> unat (rt_scheduler_lock_nest k) + n < 0x8000"

definition kok :: "nat \<Rightarrow> kernel \<Rightarrow> bool" where
  "kok n k \<longleftrightarrow> kinv k \<and> nest_room n k \<and> (\<forall>t. ttmr_ok k t)"

lemma sint_u16_nonneg: "0 \<le> sint (n :: u16) \<longleftrightarrow> unat n < 0x8000"
proof -
  have "0 \<le> sint n \<longleftrightarrow> \<not> bit n 15" by (simp add: not_less [symmetric] bit_last_iff [symmetric])
  also have "\<dots> \<longleftrightarrow> unat n < 0x8000"
  proof -
    have "bit n 15 \<longleftrightarrow> bit (unat n) 15" by (simp add: bit_unsigned_iff)
    then have "bit n 15 \<longleftrightarrow> odd (unat n div 2 ^ 15)" by (simp add: bit_iff_odd)
    moreover have "unat n div 2 ^ 15 \<le> 1" using unsigned_less [of n, where 'a = nat] by simp
    ultimately show ?thesis by (auto simp: le_Suc_eq)
  qed
  finally show ?thesis .
qed

lemma nest_room_ok: "nest_room n k \<Longrightarrow> nest_ok k"
  by (simp add: nest_room_def nest_ok_def sint_u16_nonneg)

lemma kok_sched_only: "kok n k \<Longrightarrow> sched_only k k' \<Longrightarrow> kinv k' \<Longrightarrow> kok n k'"
  using same_but_schedD(11) [OF sched_onlyD(1), of k k'] by (simp add: kok_def nest_room_def sched_only_ttmr_ok)

lemma kokD: "kok n k \<Longrightarrow> kinv k" "kok n k \<Longrightarrow> nest_ok k" "kok n k \<Longrightarrow> ttmr_ok k t"
  by (auto simp: kok_def intro: nest_room_ok)

lemma kok_mono: "kok m k \<Longrightarrow> n \<le> m \<Longrightarrow> kok n k"
  by (simp add: kok_def nest_room_def)

lemma kok_cong:
  assumes "sched_view k' = sched_view k" "threads k' = threads k" "objects k' = objects k"
    "rt_scheduler_lock_nest k' = rt_scheduler_lock_nest k"
  shows "kok n k' = kok n k"
proof -
  have "kinv k' = kinv k" by (rule kinv_cong) (simp_all add: assms)
  then show ?thesis
    using assms(2-) by (simp add: kok_def nest_room_def ttmr_ok_def rt_object_get_type_def
        timer_active_def thread_suspended_def)
qed

lemma kok_other_fields [simp]:
  "kok n (upd_sem s fs k) = kok n k" "kok n (upd_mutex m fm k) = kok n k"
  "kok n (upd_event e fe k) = kok n k" "kok n (upd_mailbox b fb k) = kok n k"
  "kok n (upd_msgqueue q fq k) = kok n k" "kok n (upd_mempool p fp k) = kok n k"
  "kok n (upd_timer tr ft k) = kok n k" "kok n (k\<lparr>object_list := ol\<rparr>) = kok n k"
  "kok n (k\<lparr>rt_tick := tk\<rparr>) = kok n k" "kok n (k\<lparr>tmlists := tms\<rparr>) = kok n k"
  "kok n (k\<lparr>timer_random_nr := rn\<rparr>) = kok n k" "kok n (k\<lparr>rt_interrupt_nest := i\<rparr>) = kok n k"
  by (rule kok_cong; simp add: upd_defs sched_view_def)+

lemma kok_upd_object:
  "(\<And>t. r \<noteq> OTimer (ThreadTimer t)) \<Longrightarrow> kok n (upd_object r f k) = kok n k"
proof -
  assume r: "\<And>t. r \<noteq> OTimer (ThreadTimer t)"
  have "ttmr_ok (upd_object r f k) t = ttmr_ok k t" for t
    using r [of t] by (auto simp: ttmr_ok_def rt_object_get_type_def timer_active_def thread_suspended_def upd_defs)
  then show ?thesis by (simp add: kok_def nest_room_def) (simp add: upd_defs)
qed

lemma kok_enter: "kok (Suc n) k \<Longrightarrow> kok n (rt_enter_critical k)"
proof -
  assume a: "kok (Suc n) k"
  have "unat (rt_scheduler_lock_nest k) + 1 < 2 ^ 16" using a by (simp add: kok_def nest_room_def)
  then have "unat (rt_scheduler_lock_nest k + 1) = unat (rt_scheduler_lock_nest k) + 1"
    by (simp add: unat_word_ariths)
  with a show ?thesis
    by (auto simp: kok_def nest_room_def ttmr_ok_def rt_object_get_type_def timer_active_def thread_suspended_def)
qed

text \<open>Leaving a critical section entered at level \<open>m\<close>.\<close>

lemma kok_exit_wp:
  assumes k: "kok n (k\<lparr>rt_scheduler_lock_nest := m\<rparr>)" and m: "rt_scheduler_lock_nest k = m + 1"
    and Q: "\<And>k'. kok n k' \<Longrightarrow> sched_only (k\<lparr>rt_scheduler_lock_nest := m\<rparr>) k' \<Longrightarrow> Q k'"
  shows "wp (rt_exit_critical k) Q"
proof (rule exit_section_wp [OF _ m])
  show "kinv k" using kokD(1) [OF k] by simp
  show "0 \<le> sint m" using kokD(2) [OF k] by (simp add: nest_ok_def)
qed (use kok_sched_only [OF k] Q in blast)

text \<open>Updates commute with entering a critical section.\<close>

lemma enter_commute:
  "upd_sem s fs (rt_enter_critical k) = rt_enter_critical (upd_sem s fs k)"
  "upd_mutex m fm (rt_enter_critical k) = rt_enter_critical (upd_mutex m fm k)"
  "upd_event e fe (rt_enter_critical k) = rt_enter_critical (upd_event e fe k)"
  "upd_mailbox b fb (rt_enter_critical k) = rt_enter_critical (upd_mailbox b fb k)"
  "upd_msgqueue q fq (rt_enter_critical k) = rt_enter_critical (upd_msgqueue q fq k)"
  "upd_mempool p fp (rt_enter_critical k) = rt_enter_critical (upd_mempool p fp k)"
  "upd_object r fo (rt_enter_critical k) = rt_enter_critical (upd_object r fo k)"
  "upd_timer tr ft (rt_enter_critical k) = rt_enter_critical (upd_timer tr ft k)"
  "upd_thread t fth (rt_enter_critical k) = rt_enter_critical (upd_thread t fth k)"
  by (simp_all add: upd_defs rt_enter_critical_def)

lemma kok_section_wp:
  assumes k: "kok n k" and Q: "\<And>k'. kok n k' \<Longrightarrow> sched_only k k' \<Longrightarrow> Q k'"
  shows "wp (rt_exit_critical (rt_enter_critical k)) Q"
  by (rule kok_exit_wp [where n = n and m = "rt_scheduler_lock_nest k"]) (use k Q in simp_all)

lemma kok_schedule_wp:
  assumes k: "kok n k" and c: "rt_current_thread k \<noteq> None"
    and Q: "\<And>k'. kok n k' \<Longrightarrow> sched_only k k' \<Longrightarrow> Q k'"
  shows "wp (rt_schedule k) Q"
proof -
  obtain t where "rt_current_thread k = Some t" using c by auto
  then show ?thesis
    by (rule wp_mono [OF schedule_total [OF kokD(1) [OF k]]]) (use Q kok_sched_only [OF k] in blast)
qed

text \<open>What the data structures of the IPC objects are, as opposed to the scheduler's state.\<close>

definition same_ipc :: "kernel \<Rightarrow> kernel \<Rightarrow> bool" where
  "same_ipc k k' \<longleftrightarrow> sems k' = sems k \<and> mutexes k' = mutexes k \<and> events k' = events k \<and>
     mailboxes k' = mailboxes k \<and> msgqueues k' = msgqueues k \<and> mempools k' = mempools k \<and>
     object_list k' = object_list k \<and> rt_scheduler_lock_nest k' = rt_scheduler_lock_nest k \<and>
     rt_interrupt_nest k' = rt_interrupt_nest k \<and> rt_tick k' = rt_tick k"

text \<open>Thread \<open>t\<close> has been woken with the error code \<open>e\<close>.\<close>

definition woken :: "tid \<Rightarrow> rt_err_t \<Rightarrow> kernel \<Rightarrow> kernel \<Rightarrow> bool" where
  "woken t e k k' \<longleftrightarrow> same_ipc k k' \<and>
     (\<forall>h. (\<forall>p. h \<noteq> ReadyL p) \<longrightarrow> tlists k' h = removeAll t (tlists k h)) \<and>
     (\<forall>t'. thread_suspended k' t' \<longleftrightarrow> t' \<noteq> t \<and> thread_suspended k t') \<and>
     (\<forall>t'. (threads k' t')\<lparr>th_stat := 0\<rparr> =
        (if t' = t then (threads k t)\<lparr>th_ttmr_set := False, th_error := e, th_stat := 0\<rparr>
         else (threads k t')\<lparr>th_stat := 0\<rparr>)) \<and>
     (rt_current_thread k' = None \<longleftrightarrow> rt_current_thread k = None) \<and>
     th_code k' t = (if rt_current_thread k' = Some t then RT_THREAD_RUNNING else RT_THREAD_READY) \<and>
     (\<forall>r. (objects k' r)\<lparr>ob_flag := 0\<rparr> = (objects k r)\<lparr>ob_flag := 0\<rparr> \<and>
          (r \<noteq> OTimer (ThreadTimer t) \<longrightarrow> objects k' r = objects k r))"

lemma wokenD:
  assumes "woken t e k k'"
  shows "same_ipc k k'" "(\<And>p. h \<noteq> ReadyL p) \<Longrightarrow> tlists k' h = removeAll t (tlists k h)"
    "thread_suspended k' t' \<longleftrightarrow> t' \<noteq> t \<and> thread_suspended k t'"
    "th_error (threads k' t) = e" "\<not> th_ttmr_set (threads k' t)"
    "t' \<noteq> t \<Longrightarrow> th_error (threads k' t') = th_error (threads k t')"
    "t' \<noteq> t \<Longrightarrow> th_ttmr_set (threads k' t') = th_ttmr_set (threads k t')"
    "th_prio k' t' = th_prio k t'"
    "th_init_priority (threads k' t') = th_init_priority (threads k t')"
    "th_taken_object_list (threads k' t') = th_taken_object_list (threads k t')"
    "th_pending_object (threads k' t') = th_pending_object (threads k t')"
    "th_event_set (threads k' t') = th_event_set (threads k t')"
    "th_event_info (threads k' t') = th_event_info (threads k t')"
    "th_code k' t = (if rt_current_thread k' = Some t then RT_THREAD_RUNNING else RT_THREAD_READY)"
    "ob_type (objects k' r) = ob_type (objects k r)"
    "ob_name (objects k' r) = ob_name (objects k r)"
    "r \<noteq> OTimer (ThreadTimer t) \<Longrightarrow> objects k' r = objects k r"
    "rt_current_thread k' = None \<longleftrightarrow> rt_current_thread k = None"
proof -
  have e: "(threads k' t')\<lparr>th_stat := 0\<rparr> =
        (if t' = t then (threads k t)\<lparr>th_ttmr_set := False, th_error := e, th_stat := 0\<rparr>
         else (threads k t')\<lparr>th_stat := 0\<rparr>)" for t'
    using assms by (simp add: woken_def)
  note f = arg_cong [OF e]
  show "th_error (threads k' t) = e" using f [of th_error t] by simp
  show "\<not> th_ttmr_set (threads k' t)" using f [of th_ttmr_set t] by simp
  show "t' \<noteq> t \<Longrightarrow> th_error (threads k' t') = th_error (threads k t')" using f [of th_error t'] by simp
  show "t' \<noteq> t \<Longrightarrow> th_ttmr_set (threads k' t') = th_ttmr_set (threads k t')"
    using f [of th_ttmr_set t'] by simp
  show "th_prio k' t' = th_prio k t'" using f [of th_current_priority t'] by (simp split: if_splits)
  show "th_init_priority (threads k' t') = th_init_priority (threads k t')"
    using f [of th_init_priority t'] by (simp split: if_splits)
  show "th_taken_object_list (threads k' t') = th_taken_object_list (threads k t')"
    using f [of th_taken_object_list t'] by (simp split: if_splits)
  show "th_pending_object (threads k' t') = th_pending_object (threads k t')"
    using f [of th_pending_object t'] by (simp split: if_splits)
  show "th_event_set (threads k' t') = th_event_set (threads k t')"
    using f [of th_event_set t'] by (simp split: if_splits)
  show "th_event_info (threads k' t') = th_event_info (threads k t')"
    using f [of th_event_info t'] by (simp split: if_splits)
  have o: "(objects k' r)\<lparr>ob_flag := 0\<rparr> = (objects k r)\<lparr>ob_flag := 0\<rparr>" for r
    using assms by (simp add: woken_def)
  show "ob_type (objects k' r) = ob_type (objects k r)" using arg_cong [OF o [of r], of ob_type] by simp
  show "ob_name (objects k' r) = ob_name (objects k r)" using arg_cong [OF o [of r], of ob_name] by simp
qed (use assms in \<open>auto simp: woken_def\<close>)

lemma woken_kok: "kok n k \<Longrightarrow> woken t e k k' \<Longrightarrow> kinv k' \<Longrightarrow> kok n k'"
proof -
  assume a: "kok n k" "woken t e k k'" "kinv k'"
  have "ttmr_ok k' t'" for t'
  proof (cases "t' = t")
    case False
    then show ?thesis
      using a(1) wokenD(3,7,15) [OF a(2)] wokenD(17) [OF a(2), of "OTimer (ThreadTimer t')"]
      by (simp add: kok_def ttmr_ok_def timer_active_def rt_object_get_type_def)
  qed (use wokenD(5) [OF a(2)] in \<open>simp add: ttmr_ok_def\<close>)
  moreover have "nest_room n k'"
    using a wokenD(1) [OF a(2)] by (simp add: kok_def nest_room_def same_ipc_def)
  ultimately show "kok n k'" using a(3) by (simp add: kok_def)
qed

section \<open>Waking threads\<close>

lemma timer_quiet_objects:
  "(objects (timer_quiet t k) r)\<lparr>ob_flag := 0\<rparr> = (objects k r)\<lparr>ob_flag := 0\<rparr>"
  "r \<noteq> OTimer (ThreadTimer t) \<Longrightarrow> objects (timer_quiet t k) r = objects k r"
  "object_list (timer_quiet t k) = object_list k" "timers (timer_quiet t k) = timers k"
  by (auto simp: timer_quiet_def clear_timer_def timer_remove_def tmlist_remove_def upd_defs)

lemma relink_woken:
  assumes s: "sched_only (timer_quiet t k) k1"
  shows "woken t (th_error (threads k t)) k (rt_sched_insert_thread t (tlist_remove t k1))"
proof -
  define k' where "k' = rt_sched_insert_thread t (tlist_remove t k1)"
  note R = relink_fields [OF s k'_def]
  have o: "objects k' = objects (timer_quiet t k)" "object_list k' = object_list k"
    using same_but_schedD [OF sched_onlyD(1) [OF s]]
    by (simp_all add: k'_def tlist_remove_def timer_quiet_objects)
       (simp_all add: rt_sched_insert_thread_def upd_defs tlist_insert_after_def tlist_insert_before_def Let_def)
  show ?thesis
    unfolding k'_def [symmetric] woken_def same_ipc_def
    using R by (auto simp: o timer_quiet_objects)
qed

lemma woken_set_error:
  assumes "woken t e k k'"
  shows "woken t e' k (upd_thread t (\<lambda>th. th\<lparr>th_error := e'\<rparr>) k')"
proof -
  have a: "(threads k' t)\<lparr>th_stat := 0\<rparr> = (threads k t)\<lparr>th_ttmr_set := False, th_error := e, th_stat := 0\<rparr>"
    using assms by (simp add: woken_def)
  have "(threads k' t)\<lparr>th_error := e', th_stat := 0\<rparr> = ((threads k' t)\<lparr>th_stat := 0\<rparr>)\<lparr>th_error := e'\<rparr>" by simp
  also have "\<dots> = (threads k t)\<lparr>th_ttmr_set := False, th_error := e', th_stat := 0\<rparr>" by (simp add: a)
  finally show ?thesis
    using assms by (auto simp: woken_def same_ipc_def upd_defs thread_suspended_def)
qed

text \<open>Making a suspended thread ready.\<close>

lemma ready_wake_wp:
  assumes k: "kok n k" and s: "thread_suspended k t"
    and Q: "\<And>k'. kok n k' \<Longrightarrow> woken t (th_error (threads k t)) k k' \<Longrightarrow> Q (0, k')"
  shows "wp (rt_sched_thread_ready t k) Q"
proof (rule thread_ready_wp [OF kokD [OF k]])
  fix k1 assume k1: "sched_only (timer_quiet t k) k1" "kinv (rt_sched_insert_thread t (tlist_remove t k1))"
  note W = relink_woken [OF k1(1)]
  show "Q (0, rt_sched_insert_thread t (tlist_remove t k1))" by (rule Q [OF woken_kok [OF k W k1(2)] W])
qed (use s in simp)

lemma dequeue_wp:
  assumes k: "kok n k" and h: "is_susp_list h"
    and Q0: "tlists k h = [] \<Longrightarrow> Q (None, k)"
    and Q1: "\<And>t ts k'. tlists k h = t # ts \<Longrightarrow> kok n k' \<Longrightarrow>
       woken t (if e \<ge> 0 then e else th_error (threads k t)) k k' \<Longrightarrow> tlists k' h = ts \<Longrightarrow> Q (Some t, k')"
  shows "wp (rt_susp_list_dequeue h e k) Q"
proof (cases "tlists k h")
  case Nil
  then show ?thesis using Q0 by (simp add: rt_susp_list_dequeue_def)
next
  case (Cons t ts)
  have T: "thread_suspended k t"
    using Cons by (intro susp_memD [OF kokD(1) [OF k] h]) simp
  have d: "distinct (t # ts)"
    using k unfolding Cons [symmetric] by (simp add: kok_def kinv_def kglobal_def lists_ok_def)
  have hr: "h \<noteq> ReadyL p" for p using h by auto
  have "wp (rt_sched_thread_ready t k) (\<lambda>(er, k). wp (if er \<noteq> 0 then Some (None, k)
      else if e \<ge> 0 then Some (Some t, upd_thread t (\<lambda>th. th\<lparr>th_error := e\<rparr>) k) else Some (Some t, k)) Q)"
  proof (rule thread_ready_wp [OF kokD [OF k]])
    fix k1 assume k1: "sched_only (timer_quiet t k) k1"
      "kinv (rt_sched_insert_thread t (tlist_remove t k1))" (is "kinv ?k'")
    note W = relink_woken [OF k1(1)]
    let ?ke = "if e \<ge> 0 then upd_thread t (\<lambda>th. th\<lparr>th_error := e\<rparr>) ?k' else ?k'"
    have W': "woken t (if e \<ge> 0 then e else th_error (threads k t)) k ?ke"
      using W woken_set_error [OF W] by simp
    have i: "kinv ?ke" using k1(2) by (simp add: kinv_upd_thread thread_view_def)
    have "Q (Some t, ?ke)"
      using Q1 [OF Cons woken_kok [OF k W' i] W'] wokenD(2) [OF W' hr] Cons d by simp
    then show "case (0, ?k') of (er, k) \<Rightarrow> wp (if er \<noteq> 0 then Some (None, k)
      else if e \<ge> 0 then Some (Some t, upd_thread t (\<lambda>th. th\<lparr>th_error := e\<rparr>) k) else Some (Some t, k)) Q"
      by (simp split: if_splits)
  qed (use T in simp)
  then show ?thesis
    by (simp add: rt_susp_list_dequeue_def Cons case_prod_unfold)
qed

text \<open>Waking a whole list, thread by thread.\<close>

inductive woken_list :: "rt_err_t \<Rightarrow> tid list \<Rightarrow> kernel \<Rightarrow> kernel \<Rightarrow> bool" for e where
  woken_Nil: "woken_list e [] k k"
| woken_Cons: "woken t e k k1 \<Longrightarrow> woken_list e ts k1 k' \<Longrightarrow> woken_list e (t # ts) k k'"

lemma resume_all_wp:
  assumes "kok n k" and h: "is_susp_list h" and e: "e \<ge> 0"
    and Q: "\<And>k'. kok n k' \<Longrightarrow> woken_list e (tlists k h) k k' \<Longrightarrow> tlists k' h = [] \<Longrightarrow> Q k'"
  shows "wp (rt_susp_list_resume_all h e k) Q"
  using assms(1) Q
proof (induction "tlists k h" arbitrary: k)
  case Nil
  then show ?case
    by (subst rt_susp_list_resume_all.simps)
       (simp add: rt_susp_list_dequeue_def woken_Nil)
next
  case (Cons t ts)
  have "wp (rt_susp_list_dequeue h e k)
     (\<lambda>(thread, k1). wp (case thread of None \<Rightarrow> Some k1 | Some _ \<Rightarrow> rt_susp_list_resume_all h e k1) Q)"
  proof (rule dequeue_wp [OF Cons(3) h])
    fix t' ts' k1 assume l: "tlists k h = t' # ts'" and k1: "kok n k1"
      "woken t' (if 0 \<le> e then e else th_error (threads k t')) k k1" "tlists k1 h = ts'"
    have eq: "t' = t" "ts' = ts" using l Cons(2) by simp_all
    have "wp (rt_susp_list_resume_all h e k1) Q"
    proof (rule Cons(1))
      show "ts = tlists k1 h" using k1(3) eq by simp
      show "kok n k1" by fact
      fix k' assume "kok n k'" "woken_list e (tlists k1 h) k1 k'" "tlists k' h = []"
      then show "Q k'"
        using k1 e l by (intro Cons(4)) (auto intro: woken_Cons)
    qed
    then show "case (Some t', k1) of (thread, k1) \<Rightarrow>
        wp (case thread of None \<Rightarrow> Some k1 | Some _ \<Rightarrow> rt_susp_list_resume_all h e k1) Q" by simp
  qed (use Cons(2) in simp)
  then show ?case
    by (subst rt_susp_list_resume_all.simps) (simp add: case_prod_unfold)
qed

lemma woken_listD:
  assumes "woken_list e ts k k'"
  shows "same_ipc k k'"
    "(\<And>p. h \<noteq> ReadyL p) \<Longrightarrow> tlists k' h = filter (\<lambda>t. t \<notin> set ts) (tlists k h)"
    "thread_suspended k' t \<longleftrightarrow> t \<notin> set ts \<and> thread_suspended k t"
    "th_error (threads k' t) = (if t \<in> set ts then e else th_error (threads k t))"
    "th_prio k' t = th_prio k t" "th_event_set (threads k' t) = th_event_set (threads k t)"
    "ob_type (objects k' r) = ob_type (objects k r)"
    "(\<And>t. r \<noteq> OTimer (ThreadTimer t)) \<Longrightarrow> objects k' r = objects k r"
    "rt_current_thread k' = None \<longleftrightarrow> rt_current_thread k = None"
  using assms
proof (induction rule: woken_list.induct)
  case (woken_Cons t0 k k1 ts k')
  note W = wokenD [OF woken_Cons(1)]
  { case 1 show ?case using W(1) woken_Cons(3) by (simp add: same_ipc_def) }
  { case 2 show ?case using W(2) [of h, OF 2] woken_Cons(4) [OF 2]
      by (simp add: removeAll_filter_not_eq filter_filter conj_commute) (metis) }
  { case 3 show ?case using W(3) woken_Cons(5) by auto }
  { case 4 show ?case using W(4) W(6) [of t] woken_Cons(6) by auto }
  { case 5 show ?case using W(8) woken_Cons(7) by auto }
  { case 6 show ?case using W(12) woken_Cons(8) by auto }
  { case 7 show ?case using W(15) woken_Cons(9) by auto }
  { case 8 show ?case using W(17) [of r] woken_Cons(10) 8 by auto }
  { case 9 show ?case using W(18) woken_Cons(11) by auto }
qed (simp_all add: same_ipc_def)

section \<open>Queueing\<close>

lemma set_susp_insert [simp]: "set (susp_insert prio t l) = insert t (set l)"
  by (induction prio t l rule: susp_insert.induct) auto

lemma distinct_susp_insert: "distinct l \<Longrightarrow> t \<notin> set l \<Longrightarrow> distinct (susp_insert prio t l)"
  by (induction prio t l rule: susp_insert.induct) auto

lemma susp_insert_split:
  "susp_insert prio t l = takeWhile (\<lambda>s. prio s \<le> prio t) l @ t # dropWhile (\<lambda>s. prio s \<le> prio t) l"
  by (induction prio t l rule: susp_insert.induct) auto

lemma susp_insert_sorted: "sorted (map prio l) \<Longrightarrow> sorted (map prio (susp_insert prio t l))"
proof (induction prio t l rule: susp_insert.induct)
  case (2 prio t s ss)
  then show ?case by (auto simp: not_less)
qed simp

lemma enqueue_kinv:
  assumes b: "kinv_but t k" and s: "thread_suspended k t" and h: "is_susp_list h"
    and p: "th_prio k t < 32" "th_number_mask (threads k t) = prio_mask (th_prio k t)"
    and f: "f = RT_IPC_FLAG_FIFO \<or> f = RT_IPC_FLAG_PRIO"
  shows "wp (rt_susp_list_enqueue h t f k) (\<lambda>k'. kinv k' \<and> (\<exists>l. set l = insert t (set (tlists k h)) \<and>
     k' = k\<lparr>tlists := (tlists k)(h := l)\<rparr> \<and>
     l = (if f = RT_IPC_FLAG_FIFO then tlists k h @ [t]
          else susp_insert (\<lambda>t. th_prio k t) t (tlists k h))))"
proof -
  have c: "th_code k t \<noteq> 0" "th_code k t \<noteq> 1" "th_code k t \<noteq> 2" "th_code k t \<noteq> 3"
    using s stat_not_suspended_code [of "th_stat (threads k t)"] by (auto simp: thread_suspended_def)
  have n: "t \<notin> set (tlists k h')" for h' using b by (simp add: kinv_but_def)
  have hr: "h \<noteq> ReadyL q" "h \<noteq> DefunctL" for q using h by auto
  have i: "kinv (k\<lparr>tlists := (tlists k)(h := l)\<rparr>)" if l: "set l = insert t (set (tlists k h))" "distinct l" for l
  proof -
    let ?k = "k\<lparr>tlists := (tlists k)(h := l)\<rparr>"
    have "lists_ok ?k"
      using b n l by (auto simp: kinv_but_def kglobal_def lists_ok_def)
    moreover have "group_ok ?k"
      using b hr by (auto simp: kinv_but_def kglobal_def group_ok_def)
    moreover have "thread_ok ?k t'" for t'
    proof (cases "t' = t")
      case True
      then show ?thesis using n p c s hr h
        by (auto simp: thread_ok_def thread_suspended_def)
    next
      case False
      then have "thread_ok k t'" using b by (simp add: kinv_but_def)
      then show ?thesis using False hr h l
        by (auto simp: thread_ok_def thread_suspended_def)
    qed
    ultimately show ?thesis by (simp add: kinv_def kglobal_def)
  qed
  have d: "distinct (tlists k h)" using b by (simp add: kinv_but_def kglobal_def lists_ok_def)
  from f show ?thesis
  proof
    assume "f = RT_IPC_FLAG_FIFO"
    then show ?thesis
      using i [of "tlists k h @ [t]"] d n by (auto simp: rt_susp_list_enqueue_def tlist_insert_before_def)
  next
    assume "f = RT_IPC_FLAG_PRIO"
    then show ?thesis
      using i [of "susp_insert (\<lambda>t. th_prio k t) t (tlists k h)"] distinct_susp_insert [OF d n]
      by (auto simp: rt_susp_list_enqueue_def rt_sched_thread_get_curr_prio_def)
  qed
qed

lemma kok_sample: "kok 8 sample_kernel"
  using kinv_sample
  by (auto simp: kok_def nest_room_def ttmr_ok_def sample_kernel_def zero_kernel_def sample_thread_def zero_thread_def)

section \<open>Properties\<close>

text \<open>Waking from a suspend list: on a consistent kernel the dequeue never fails; it wakes
  exactly the front thread, hands it the error code and leaves the rest of the list, the other
  suspend lists (which do not contain it) and the IPC objects as they are.\<close>

theorem rt_susp_list_dequeue_correct:
  assumes "kok n k" and "is_susp_list h" and "tlists k h = t # ts" and "0 \<le> e"
  shows "wp (rt_susp_list_dequeue h e k) (\<lambda>(thread, k'). thread = Some t \<and> kok n k' \<and>
     tlists k' h = ts \<and> \<not> thread_suspended k' t \<and> th_error (threads k' t) = e \<and> same_ipc k k' \<and>
     (\<forall>h'. is_susp_list h' \<and> h' \<noteq> h \<longrightarrow> tlists k' h' = tlists k h'))"
proof (rule dequeue_wp [OF assms(1,2)])
  fix t' ts' k'
  assume l: "tlists k h = t' # ts'" and k': "kok n k'" "tlists k' h = ts'"
    and w: "woken t' (if 0 \<le> e then e else th_error (threads k t')) k k'"
  have "tlists k' h' = tlists k h'" if "is_susp_list h'" "h' \<noteq> h" for h'
  proof -
    have "t' \<notin> set (tlists k h')"
      using assms(1) l that(2) unfolding kok_def kinv_def kglobal_def lists_ok_def
      by (metis list.set_intros(1))
    moreover have "tlists k' h' = removeAll t' (tlists k h')"
      by (rule wokenD(2) [OF w]) (use that(1) in auto)
    ultimately show ?thesis by simp
  qed
  then show "case (Some t', k') of (thread, k') \<Rightarrow> thread = Some t \<and> kok n k' \<and>
     tlists k' h = ts \<and> \<not> thread_suspended k' t \<and> th_error (threads k' t) = e \<and> same_ipc k k' \<and>
     (\<forall>h'. is_susp_list h' \<and> h' \<noteq> h \<longrightarrow> tlists k' h' = tlists k h')"
    using l k' assms(3,4) wokenD(1,3,4) [OF w] by auto
qed (use assms in simp)

text \<open>C37. Waking all: the loop terminates, the list is empty, and every thread that was in it is
  awake with the error code.\<close>

theorem rt_susp_list_resume_all_correct:
  assumes "kok n k" and "is_susp_list h" and "0 \<le> e"
  shows "wp (rt_susp_list_resume_all h e k) (\<lambda>k'. kok n k' \<and> tlists k' h = [] \<and> same_ipc k k' \<and>
     (\<forall>t \<in> set (tlists k h). \<not> thread_suspended k' t \<and> th_error (threads k' t) = e) \<and>
     (\<forall>t. t \<notin> set (tlists k h) \<longrightarrow> thread_suspended k' t = thread_suspended k t))"
  using woken_listD(1,3,4) [of e "tlists k h" k] by (intro resume_all_wp [OF assms]) auto

theorem rt_susp_list_resume_all_correct_witness:
  "wp (rt_susp_list_resume_all (SemL 2) RT_ERROR sample_kernel)
     (\<lambda>k'. kok 8 k' \<and> tlists k' (SemL 2) = [] \<and> \<not> thread_suspended k' 5 \<and> th_error (threads k' 5) = RT_ERROR)"
  by (rule wp_mono [OF rt_susp_list_resume_all_correct [OF kok_sample]]) simp_all

text \<open>Priority queueing: a list ordered by priority stays ordered, and the new thread stands
  behind every waiting thread of its own or a better priority and in front of every worse one.\<close>

theorem rt_susp_list_enqueue_prio:
  assumes "sorted (map (th_prio k) (tlists k h))"
  shows "\<exists>k' before after. rt_susp_list_enqueue h t RT_IPC_FLAG_PRIO k = Some k' \<and>
     tlists k' h = before @ t # after \<and> before @ after = tlists k h \<and>
     sorted (map (th_prio k') (tlists k' h)) \<and>
     (\<forall>s \<in> set before. th_prio k s \<le> th_prio k t) \<and> (\<forall>s \<in> set after. th_prio k t < th_prio k s)"
proof -
  let ?l = "tlists k h" and ?P = "\<lambda>s. th_prio k s \<le> th_prio k t"
  let ?k' = "k\<lparr>tlists := (tlists k)(h := susp_insert (th_prio k) t ?l)\<rparr>"
  have "rt_susp_list_enqueue h t RT_IPC_FLAG_PRIO k = Some ?k'"
    by (simp add: rt_susp_list_enqueue_def rt_sched_thread_get_curr_prio_def)
  moreover have "tlists ?k' h = takeWhile ?P ?l @ t # dropWhile ?P ?l" by (simp add: susp_insert_split)
  moreover have "sorted (map (th_prio ?k') (tlists ?k' h))" using susp_insert_sorted [OF assms] by simp
  moreover have "\<forall>s \<in> set (takeWhile ?P ?l). ?P s" by (auto dest: set_takeWhileD)
  moreover have "\<forall>s \<in> set (dropWhile ?P ?l). th_prio k t < th_prio k s"
    using sorted_dropWhile_le [OF assms] by blast
  ultimately show ?thesis using takeWhile_dropWhile_id by blast
qed

end
