(* ===== verification/Thread_Core.thy ===== *)
theory Thread_Core
  imports Suspend_List
begin

text \<open>
  The core of \<^verbatim>\<open>src/thread.c\<close>: creating, starting, suspending, resuming and yielding
  threads and the timeout of a blocked thread. Sleeping and the end of a thread are in theories
  \<open>Thread_Sleep\<close> and \<open>Thread_Life\<close>. The contents of the stack
  (\<^verbatim>\<open>rt_memset\<close>, \<^verbatim>\<open>rt_hw_stack_init\<close>) are outside the model.
\<close>

section \<open>Definitions\<close>

definition rt_thread_self :: "kernel \<Rightarrow> tid option" where
  "rt_thread_self k = rt_current_thread k"

definition thread_timeout :: "tid \<Rightarrow> kernel \<Rightarrow> kernel option" where
  "thread_timeout t k = do {
     rt_assert (rt_object_get_type (OThread t) k = RT_Object_Class_Thread);
     rt_assert (rt_sched_thread_is_suspended t k);
     let k = upd_thread t (\<lambda>th. th\<lparr>th_error := - RT_ETIMEOUT\<rparr>) k;
     let k = tlist_remove t k;
     let k = rt_sched_insert_thread t k;
     rt_sched_unlock_n_resched k
   }"

definition thread_init ::
  "tid \<Rightarrow> nat \<Rightarrow> nat \<Rightarrow> nat \<Rightarrow> u32 \<Rightarrow> nat \<Rightarrow> rt_tick_t \<Rightarrow> kernel \<Rightarrow> (rt_err_t \<times> kernel) option" where
  "thread_init t entry parameter stack_start stack_size priority tick k = do {
     k \<leftarrow> rt_sched_thread_init_ctx t tick priority k;
     let k = upd_thread t (\<lambda>th. th\<lparr>th_entry := entry, th_parameter := parameter,
               th_stack_addr := stack_start, th_stack_size := stack_size,
               th_taken_object_list := [], th_pending_object := None,
               th_event_set := 0, th_event_info := 0, th_error := RT_EOK,
               th_cleanup := None, th_user_data := 0\<rparr>) k;
     k \<leftarrow> rt_timer_init (ThreadTimer t) (ob_name (objects k (OThread t))) ThreadTimeout t 0
           (RT_TIMER_FLAG_ONE_SHOT OR RT_TIMER_FLAG_THREAD_TIMER) k;
     Some (RT_EOK, k)
   }"

definition rt_thread_init ::
  "tid \<Rightarrow> string \<Rightarrow> nat \<Rightarrow> nat \<Rightarrow> nat \<Rightarrow> u32 \<Rightarrow> nat \<Rightarrow> rt_tick_t \<Rightarrow> kernel \<Rightarrow> (rt_err_t \<times> kernel) option" where
  "rt_thread_init t name entry parameter stack_start stack_size priority tick k = do {
     rt_assert (stack_start \<noteq> 0);
     rt_assert (tick \<noteq> 0);
     k \<leftarrow> rt_object_init (OThread t) RT_Object_Class_Thread name k;
     thread_init t entry parameter stack_start stack_size priority tick k
   }"

text \<open>\<open>mem\<close> and \<open>stack\<close> are the answers of the allocator for the thread object and its
  stack.\<close>

definition rt_thread_create ::
  "tid option \<Rightarrow> nat option \<Rightarrow> string \<Rightarrow> nat \<Rightarrow> nat \<Rightarrow> u32 \<Rightarrow> nat \<Rightarrow> rt_tick_t \<Rightarrow> kernel \<Rightarrow>
   (tid option \<times> kernel) option" where
  "rt_thread_create mem stack name entry parameter stack_size priority tick k = do {
     rt_assert (tick \<noteq> 0);
     (ob, k) \<leftarrow> rt_object_allocate (map_option OThread mem) RT_Object_Class_Thread name k;
     case (ob, mem) of
       (Some _, Some t) \<Rightarrow>
         (case stack of
            None \<Rightarrow> do { k \<leftarrow> rt_object_delete (OThread t) k; Some (None, k) }
          | Some stack_start \<Rightarrow> do {
              (_, k) \<leftarrow> thread_init t entry parameter stack_start stack_size priority tick k;
              Some (Some t, k)
            })
     | _ \<Rightarrow> Some (None, k)
   }"

definition rt_thread_resume :: "tid \<Rightarrow> kernel \<Rightarrow> (rt_err_t \<times> kernel) option" where
  "rt_thread_resume t k = do {
     rt_assert (rt_object_get_type (OThread t) k = RT_Object_Class_Thread);
     (error, k) \<leftarrow> rt_sched_thread_ready t k;
     if error = RT_EOK then do {
       k \<leftarrow> rt_sched_unlock_n_resched k;
       Some (RT_EOK, k)
     } else Some (error, k)
   }"

definition rt_thread_startup :: "tid \<Rightarrow> kernel \<Rightarrow> (rt_err_t \<times> kernel) option" where
  "rt_thread_startup t k = do {
     rt_assert (th_code k t = RT_THREAD_INIT);
     rt_assert (rt_object_get_type (OThread t) k = RT_Object_Class_Thread);
     let k = rt_sched_thread_startup t k;
     (_, k) \<leftarrow> rt_thread_resume t k;
     Some (RT_EOK, k)
   }"

definition rt_thread_yield :: "kernel \<Rightarrow> (rt_err_t \<times> kernel) option" where
  "rt_thread_yield k = do {
     t \<leftarrow> rt_thread_self k;
     let k = rt_sched_thread_yield t k;
     k \<leftarrow> rt_sched_unlock_n_resched k;
     Some (RT_EOK, k)
   }"

datatype suspend_flag = RT_INTERRUPTIBLE | RT_KILLABLE | RT_UNINTERRUPTIBLE

definition thread_set_suspend_state :: "tid \<Rightarrow> suspend_flag \<Rightarrow> kernel \<Rightarrow> kernel" where
  "thread_set_suspend_state t flag k =
     (let stat = (case flag of
                    RT_INTERRUPTIBLE \<Rightarrow> RT_THREAD_SUSPEND_INTERRUPTIBLE
                  | RT_KILLABLE \<Rightarrow> RT_THREAD_SUSPEND_KILLABLE
                  | RT_UNINTERRUPTIBLE \<Rightarrow> RT_THREAD_SUSPEND_UNINTERRUPTIBLE)
      in upd_thread t (\<lambda>th. th\<lparr>th_stat := set_stat_code stat (th_stat th)\<rparr>) k)"

definition rt_thread_suspend_to_list ::
  "tid \<Rightarrow> tlist option \<Rightarrow> u8 \<Rightarrow> suspend_flag \<Rightarrow> kernel \<Rightarrow> (rt_err_t \<times> kernel) option" where
  "rt_thread_suspend_to_list t susp_list ipc_flags flag k = do {
     rt_assert (rt_object_get_type (OThread t) k = RT_Object_Class_Thread);
     rt_assert (rt_thread_self k = Some t);
     let stat = rt_sched_thread_get_stat t k;
     if stat \<noteq> RT_THREAD_READY \<and> stat \<noteq> RT_THREAD_RUNNING then Some (- RT_ERROR, k)
     else do {
       let k = rt_sched_remove_thread t k;
       let k = thread_set_suspend_state t flag k;
       k \<leftarrow> (case susp_list of
                None \<Rightarrow> Some k
              | Some h \<Rightarrow> rt_susp_list_enqueue h t ipc_flags k);
       (_, k) \<leftarrow> rt_sched_thread_timer_stop t k;
       Some (RT_EOK, k)
     }
   }"

definition rt_thread_suspend_with_flag :: "tid \<Rightarrow> suspend_flag \<Rightarrow> kernel \<Rightarrow> (rt_err_t \<times> kernel) option" where
  "rt_thread_suspend_with_flag t flag k = rt_thread_suspend_to_list t None 0 flag k"

definition rt_thread_suspend :: "tid \<Rightarrow> kernel \<Rightarrow> (rt_err_t \<times> kernel) option" where
  "rt_thread_suspend t k = rt_thread_suspend_with_flag t RT_UNINTERRUPTIBLE k"

definition rt_thread_find :: "string \<Rightarrow> kernel \<Rightarrow> (objref option \<times> kernel) option" where
  "rt_thread_find name k = rt_object_find name RT_Object_Class_Thread k"

definition rt_thread_get_name :: "tid option \<Rightarrow> string option \<Rightarrow> nat \<Rightarrow> kernel \<Rightarrow> rt_err_t \<times> string option" where
  "rt_thread_get_name t name name_size k =
     (case t of None \<Rightarrow> (- RT_EINVAL, name) | Some t \<Rightarrow> rt_object_get_name (OThread t) name name_size k)"

section \<open>Timeout of a blocked thread\<close>

text \<open>When its timer has fired the thread is still suspended with \<^verbatim>\<open>sched_flag_ttmr_set\<close> set,
  but the timer is no longer active: the consistency of the timer is assumed for the other threads
  only.\<close>

definition kok_but :: "nat \<Rightarrow> tid \<Rightarrow> kernel \<Rightarrow> bool" where
  "kok_but n t k \<longleftrightarrow> kinv k \<and> nest_room n k \<and> (\<forall>t'. t' \<noteq> t \<longrightarrow> ttmr_ok k t') \<and>
     (th_ttmr_set (threads k t) \<longrightarrow> rt_object_get_type (OTimer (ThreadTimer t)) k = RT_Object_Class_Timer)"

lemma kok_but_sched_only: "kok_but n t k \<Longrightarrow> sched_only k k' \<Longrightarrow> kinv k' \<Longrightarrow> kok_but n t k'"
  using same_but_schedD(1,11) [OF sched_onlyD(1), of k k'] sched_onlyD(8) [of k k' t]
  by (simp add: kok_but_def nest_room_def sched_only_ttmr_ok rt_object_get_type_def)

lemma kok_but_awake: "kok_but n t k \<Longrightarrow> \<not> thread_suspended k t \<Longrightarrow> kok n k"
  unfolding kok_but_def kok_def by (metis ttmr_ok_def)

lemma kok_but_no_ttmr: "kok_but n t k \<Longrightarrow> \<not> th_ttmr_set (threads k t) \<Longrightarrow> kok n k"
  unfolding kok_but_def kok_def by (metis ttmr_ok_def)

lemma kok_kok_but: "kok n k \<Longrightarrow> kok_but n t k"
  by (auto simp: kok_def kok_but_def ttmr_ok_def)

lemma relink_same_but_sched: "same_but_sched k (rt_sched_insert_thread t (tlist_remove t k))"
  by (simp add: same_but_sched_def tlist_remove_def)
    (simp add: rt_sched_insert_thread_def upd_defs tlist_insert_after_def tlist_insert_before_def Let_def)

lemma thread_timeout_wp:
  assumes k: "kok_but n t k" and s: "thread_suspended k t"
    and ty: "rt_object_get_type (OThread t) k = RT_Object_Class_Thread"
    and Q: "\<And>k'. kok n k' \<Longrightarrow> \<not> thread_suspended k' t \<Longrightarrow> th_error (threads k' t) = - 2 \<Longrightarrow>
       same_ipc k k' \<Longrightarrow> objects k' = objects k \<Longrightarrow> timers k' = timers k \<Longrightarrow> tmlists k' = tmlists k \<Longrightarrow>
       (\<And>h. (\<And>p. h \<noteq> ReadyL p) \<Longrightarrow> tlists k' h = removeAll t (tlists k h)) \<Longrightarrow>
       (\<And>t'. t' \<noteq> t \<Longrightarrow> thread_suspended k' t' = thread_suspended k t') \<Longrightarrow>
       (rt_current_thread k' = None \<longleftrightarrow> rt_current_thread k = None) \<Longrightarrow>
       (\<And>t'. (threads k' t')\<lparr>th_stat := 0\<rparr> =
          (if t' = t then (threads k t)\<lparr>th_error := - 2, th_stat := 0\<rparr> else (threads k t')\<lparr>th_stat := 0\<rparr>)) \<Longrightarrow> Q k'"
  shows "wp (thread_timeout t k) Q"
proof -
  let ?f = "\<lambda>th. th\<lparr>th_error := - 2\<rparr>"
  define k1 where "k1 = rt_sched_insert_thread t (tlist_remove t (upd_thread t ?f k))"
  have i0: "kinv (upd_thread t ?f k)" using k by (simp add: kok_but_def kinv_upd_thread thread_view_def)
  have s0: "thread_suspended (upd_thread t ?f k) t" using s by (simp add: thread_suspended_def upd_defs)
  have i1: "kinv k1" unfolding k1_def by (rule ready_relink_kinv [OF i0 s0])
  have b1: "same_but_sched k k1"
    using relink_same_but_sched [of "upd_thread t ?f k" t]
    by (auto simp: k1_def intro: same_but_sched_trans [of k "upd_thread t ?f k"])
  note f1 = same_but_schedD [OF b1]
  have T: "threads k1 = (threads k)(t := (threads k1 t))" "\<not> stat_suspended (th_stat (threads k1 t))"
    "th_error (threads k1 t) = - 2" "th_ttmr_set (threads k1 t) = th_ttmr_set (threads k t)"
    "rt_current_thread k1 = rt_current_thread k"
    by (auto simp: k1_def tlist_remove_def upd_defs rt_sched_insert_thread_def tlist_insert_after_def
        tlist_insert_before_def Let_def)
  have L: "tlists k1 h = removeAll t (tlists k h)" if "\<And>p. h \<noteq> ReadyL p" for h
    using that by (simp add: k1_def tlist_remove_def upd_defs rt_sched_insert_thread_def
        tlist_insert_after_def tlist_insert_before_def Let_def)
  have R: "(threads k1 t')\<lparr>th_stat := 0\<rparr> =
      (if t' = t then (threads k t)\<lparr>th_error := - 2, th_stat := 0\<rparr> else (threads k t')\<lparr>th_stat := 0\<rparr>)" for t'
    by (auto simp: k1_def tlist_remove_def upd_defs rt_sched_insert_thread_def tlist_insert_after_def
        tlist_insert_before_def Let_def)
  have S: "thread_suspended k1 t' \<longleftrightarrow> t' \<noteq> t \<and> thread_suspended k t'" for t'
    using T(2) by (subst thread_suspended_def, subst T(1)) (auto simp: thread_suspended_def)
  have "ttmr_ok k1 t'" if "t' \<noteq> t" for t'
    using k that S [of t'] unfolding kok_but_def ttmr_ok_def
    by (subst T(1)) (simp add: f1 rt_object_get_type_def timer_active_def)
  then have "kok_but n t k1"
    using k i1 T(4) by (simp add: kok_but_def nest_room_def f1 rt_object_get_type_def)
  then have k1: "kok n k1" using S [of t] by (intro kok_but_awake) auto
  have "wp (rt_sched_unlock_n_resched k1) Q"
  proof (rule unlock_n_resched_wp [OF i1])
    fix k' assume k': "kinv k'" "sched_only k1 k'"
    note f' = same_but_schedD [OF sched_onlyD(1) [OF k'(2)]]
    show "Q k'"
    proof (rule Q)
      show "kok n k'" by (rule kok_sched_only [OF k1 k'(2,1)])
      show "\<not> thread_suspended k' t" using sched_onlyD(4) [OF k'(2)] S by simp
      show "th_error (threads k' t) = - 2" using sched_onlyD(7) [OF k'(2)] T by simp
      show "same_ipc k k'" by (simp add: same_ipc_def f' f1)
      show "objects k' = objects k" "timers k' = timers k" "tmlists k' = tmlists k" by (simp_all add: f' f1)
      show "tlists k' h = removeAll t (tlists k h)" if "\<And>p. h \<noteq> ReadyL p" for h
        using sched_onlyD(3) [OF k'(2), of h] L [of h] that by simp
      show "thread_suspended k' t' = thread_suspended k t'" if "t' \<noteq> t" for t'
        using sched_onlyD(4) [OF k'(2)] S that by simp
      show "rt_current_thread k' = None \<longleftrightarrow> rt_current_thread k = None"
        using sched_onlyD(2) [OF k'(2)] T by simp
      show "(threads k' t')\<lparr>th_stat := 0\<rparr> =
          (if t' = t then (threads k t)\<lparr>th_error := - 2, th_stat := 0\<rparr> else (threads k t')\<lparr>th_stat := 0\<rparr>)" for t'
        using k'(2) R [of t'] by (simp add: sched_only_def)
    qed
  qed
  then show ?thesis
    using ty s by (simp add: thread_timeout_def rt_sched_thread_is_suspended_def thread_suspended_def k1_def)
qed

section \<open>Suspending the current thread\<close>

text \<open>The current thread \<open>t\<close> has been suspended, with its timer running or not
  (\<open>b\<close>); the suspend lists have become \<open>l\<close>.\<close>

definition blocked :: "tid \<Rightarrow> bool \<Rightarrow> (tlist \<Rightarrow> tid list) \<Rightarrow> kernel \<Rightarrow> kernel \<Rightarrow> bool" where
  "blocked t b l k k' \<longleftrightarrow> same_ipc k k' \<and>
     (\<forall>h. (\<forall>p. h \<noteq> ReadyL p) \<longrightarrow> tlists k' h = l h) \<and>
     (\<forall>t'. thread_suspended k' t' \<longleftrightarrow> t' = t \<or> thread_suspended k t') \<and>
     (\<forall>t'. (threads k' t')\<lparr>th_stat := 0\<rparr> =
        (if t' = t then (threads k t)\<lparr>th_ttmr_set := b, th_stat := 0\<rparr> else (threads k t')\<lparr>th_stat := 0\<rparr>)) \<and>
     (rt_scheduler_lock_nest k \<noteq> 0 \<longrightarrow> rt_current_thread k' = Some t \<and>
        (\<forall>t'. t' \<noteq> t \<longrightarrow> th_stat (threads k' t') = th_stat (threads k t'))) \<and>
     rt_current_thread k' \<noteq> None \<and>
     tm_flag k' (ThreadTimer t) AND NOT RT_TIMER_FLAG_ACTIVATED =
       tm_flag k (ThreadTimer t) AND NOT RT_TIMER_FLAG_ACTIVATED \<and>
     (\<forall>r. (objects k' r)\<lparr>ob_flag := 0\<rparr> = (objects k r)\<lparr>ob_flag := 0\<rparr> \<and>
          (r \<noteq> OTimer (ThreadTimer t) \<longrightarrow> objects k' r = objects k r))"

lemma exit_nested:
  "rt_scheduler_lock_nest k = m + 1 \<Longrightarrow> 0 \<le> sint m \<Longrightarrow> m \<noteq> 0 \<Longrightarrow>
   rt_exit_critical k = Some (k\<lparr>rt_scheduler_lock_nest := m\<rparr>)"
  by (simp add: rt_exit_critical_def Let_def) (metis signed_0 signed_word_eqI order_antisym)

lemma upd_thread_id: "\<not> th_ttmr_set (threads k t) \<Longrightarrow> upd_thread t (\<lambda>th. th\<lparr>th_ttmr_set := False\<rparr>) k = k"
  by (cases "threads k t") (auto simp: upd_defs fun_upd_idem)

lemma timer_stop_nested:
  assumes "nest_ok k" "rt_scheduler_lock_nest k \<noteq> 0"
    and "rt_object_get_type (OTimer r) k = RT_Object_Class_Timer"
  shows "rt_timer_stop r k = Some (if timer_active k r then (0, clear_timer r k) else (- 1, k))"
proof -
  have "rt_exit_critical (rt_enter_critical k') = Some k'" if "rt_scheduler_lock_nest k' = rt_scheduler_lock_nest k" for k'
    using exit_nested [of "rt_enter_critical k'" "rt_scheduler_lock_nest k"] assms(1,2) that
    by (simp add: nest_ok_def)
  then show ?thesis
    using assms(3) unfolding rt_timer_stop_def spin_defs Let_def
    by (simp add: timer_active_def clear_timer_enter)
qed

text \<open>Stopping the thread timer on the way to a suspension: whether the timer was active or not,
  the flag is cleared.\<close>

lemma thread_timer_stop_wp:
  assumes k: "kinv k" and n: "nest_ok k"
    and ty: "th_ttmr_set (threads k t) \<Longrightarrow> rt_object_get_type (OTimer (ThreadTimer t)) k = RT_Object_Class_Timer"
    and Q: "\<And>e X k1. X = k \<or> X = clear_timer (ThreadTimer t) k \<Longrightarrow> kinv k1 \<Longrightarrow> sched_only X k1 \<Longrightarrow>
       (rt_scheduler_lock_nest k \<noteq> 0 \<Longrightarrow> k1 = X) \<Longrightarrow>
       Q (e, upd_thread t (\<lambda>th. th\<lparr>th_ttmr_set := False\<rparr>) k1)"
  shows "wp (rt_sched_thread_timer_stop t k) Q"
proof (cases "th_ttmr_set (threads k t)")
  case False
  then show ?thesis using Q [of k k 0] k upd_thread_id [OF False]
    by (simp add: rt_sched_thread_timer_stop_def)
next
  case True
  let ?f = "\<lambda>th. th\<lparr>th_ttmr_set := False\<rparr>"
  have "wp (rt_timer_stop (ThreadTimer t) k) (\<lambda>(e, k1). Q (e, upd_thread t ?f k1))"
  proof (cases "rt_scheduler_lock_nest k = 0")
    case False
    then show ?thesis
      using timer_stop_nested [OF n False ty [OF True]] Q k by auto
  next
    case z: True
    show ?thesis
      by (rule timer_stop_wp [OF k n ty [OF True]]) (use Q z in auto)
  qed
  with True show ?thesis by (simp add: rt_sched_thread_timer_stop_def case_prod_unfold)
qed

lemma suspended_set_codes [simp]:
  "stat_suspended (set_stat_code 4 s)" "stat_suspended (set_stat_code 6 s)" "stat_suspended (set_stat_code 7 s)"
  by (rule stat_suspended_code, simp)+

lemma set_suspend_state_fields:
  "thread_suspended (thread_set_suspend_state t f k) t' \<longleftrightarrow> t' = t \<or> thread_suspended k t'"
  "threads (thread_set_suspend_state t f k) t' = (threads k t')\<lparr>th_stat := th_stat (threads (thread_set_suspend_state t f k) t')\<rparr>"
  "tlists (thread_set_suspend_state t f k) = tlists k"
  "same_but_sched k (thread_set_suspend_state t f k)"
  "rt_current_thread (thread_set_suspend_state t f k) = rt_current_thread k"
  by (auto simp: thread_set_suspend_state_def upd_defs thread_suspended_def same_but_sched_def split: suspend_flag.splits)

text \<open>The suspend lists after queueing thread \<open>t\<close>.\<close>

definition queued :: "tlist option \<Rightarrow> u8 \<Rightarrow> tid \<Rightarrow> kernel \<Rightarrow> tlist \<Rightarrow> tid list" where
  "queued susp f t k = (case susp of None \<Rightarrow> tlists k
     | Some h \<Rightarrow> (tlists k)(h := if f = RT_IPC_FLAG_FIFO then tlists k h @ [t]
                                  else susp_insert (th_prio k) t (tlists k h)))"

lemma kinv_but_suspended:
  assumes b: "kinv_but t k" and s: "thread_suspended k t" and p: "th_prio k t < 32"
    and m: "th_number_mask (threads k t) = prio_mask (th_prio k t)"
  shows "kinv k"
proof (rule kinv_butI [OF b])
  have c: "th_code k t \<noteq> 0" "th_code k t \<noteq> 1" "th_code k t \<noteq> 2" "th_code k t \<noteq> 3"
    using s stat_not_suspended_code [of "th_stat (threads k t)"] by (auto simp: thread_suspended_def)
  then show "thread_ok k t" using b s p m by (auto simp: thread_ok_def kinv_but_def)
qed

text \<open>The state in which the timer of the thread is stopped: taken out of the ready queue, marked
  as suspended and queued.\<close>

definition parked :: "tid \<Rightarrow> tlist option \<Rightarrow> u8 \<Rightarrow> suspend_flag \<Rightarrow> kernel \<Rightarrow> kernel" where
  "parked t susp f flag k =
     (thread_set_suspend_state t flag (rt_sched_remove_thread t k))\<lparr>tlists := queued susp f t k\<rparr>"

lemma parked_fields:
  "(threads (parked t susp f flag k) t')\<lparr>th_stat := 0\<rparr> = (threads k t')\<lparr>th_stat := 0\<rparr>"
  "t' \<noteq> t \<Longrightarrow> threads (parked t susp f flag k) t' = threads k t'"
  "thread_suspended (parked t susp f flag k) t' \<longleftrightarrow> t' = t \<or> thread_suspended k t'"
  "same_but_sched k (parked t susp f flag k)" "tlists (parked t susp f flag k) = queued susp f t k"
  "rt_current_thread (parked t susp f flag k) = rt_current_thread k"
  "th_ttmr_set (threads (parked t susp f flag k) t') = th_ttmr_set (threads k t')"
  by (auto simp: parked_def thread_set_suspend_state_def thread_suspended_def upd_defs same_but_sched_def
      rt_sched_remove_thread_def tlist_remove_def Let_def split: suspend_flag.splits)

lemma parked_wp:
  assumes k: "kinv k" and r: "th_code k t = RT_THREAD_RUNNING"
    and h: "\<And>h. susp = Some h \<Longrightarrow> is_susp_list h \<and> (f = RT_IPC_FLAG_FIFO \<or> f = RT_IPC_FLAG_PRIO)"
  shows "wp (case susp of None \<Rightarrow> Some (thread_set_suspend_state t flag (rt_sched_remove_thread t k))
      | Some h \<Rightarrow> rt_susp_list_enqueue h t f (thread_set_suspend_state t flag (rt_sched_remove_thread t k)))
     (\<lambda>k3. kinv k3 \<and> k3 = parked t susp f flag k)"
proof -
  define k1 where "k1 = rt_sched_remove_thread t k"
  define k2 where "k2 = thread_set_suspend_state t flag k1"
  have T: "thread_ok k t" using k by (simp add: kinv_def)
  have nin: "t \<notin> set (tlists k h)" for h
    using T r stat_not_suspended_code by (cases h) (auto simp: thread_ok_def thread_suspended_def)
  have "kinv_but t k1" unfolding k1_def using k T r by (intro remove_kinv_but) (auto simp: kinv_def thread_ok_def)
  then have b2: "kinv_but t k2" unfolding k2_def thread_set_suspend_state_def Let_def by (rule kinv_but_upd_thread)
  note S = set_suspend_state_fields [where t = t and f = flag and k = k1, folded k2_def]
  have l2: "tlists k2 = tlists k" using nin S(3) by (auto simp: k1_def)
  have p2: "th_prio k2 t' = th_prio k t'" "th_number_mask (threads k2 t') = th_number_mask (threads k t')" for t'
    by (subst S(2), simp add: k1_def)+
  have p: "th_prio k2 t < 32" "th_number_mask (threads k2 t) = prio_mask (th_prio k2 t)" "thread_suspended k2 t"
    using T r S(1) by (simp_all add: p2 thread_ok_def)
  show ?thesis unfolding k1_def [symmetric] k2_def [symmetric] parked_def
  proof (cases susp)
    case None
    then have "k2\<lparr>tlists := queued susp f t k\<rparr> = k2" using l2 by (simp add: queued_def)
    then show "wp (case susp of None \<Rightarrow> Some k2 | Some h \<Rightarrow> rt_susp_list_enqueue h t f k2)
       (\<lambda>k3. kinv k3 \<and> k3 = k2\<lparr>tlists := queued susp f t k\<rparr>)"
      using None kinv_but_suspended [OF b2 p(3,1,2)] by simp
  next
    case (Some h)
    have "wp (rt_susp_list_enqueue h t f k2) (\<lambda>k3. kinv k3 \<and> (\<exists>l. set l = insert t (set (tlists k2 h)) \<and>
       k3 = k2\<lparr>tlists := (tlists k2)(h := l)\<rparr> \<and>
       l = (if f = RT_IPC_FLAG_FIFO then tlists k2 h @ [t] else susp_insert (\<lambda>t. th_prio k2 t) t (tlists k2 h))))"
      using h [OF Some] p by (intro enqueue_kinv [OF b2]) auto
    then show "wp (case susp of None \<Rightarrow> Some k2 | Some h \<Rightarrow> rt_susp_list_enqueue h t f k2)
       (\<lambda>k3. kinv k3 \<and> k3 = k2\<lparr>tlists := queued susp f t k\<rparr>)"
      using l2 by (auto simp: Some queued_def p2 elim!: wp_mono split: if_splits)
  qed
qed

lemma parked_blocked:
  assumes X: "X = parked t susp f flag k \<or> X = clear_timer (ThreadTimer t) (parked t susp f flag k)"
    and c: "rt_current_thread k = Some t" and k4: "sched_only X k4" and n: "rt_scheduler_lock_nest k \<noteq> 0 \<Longrightarrow> k4 = X"
  shows "blocked t False (queued susp f t k) k (upd_thread t (\<lambda>th. th\<lparr>th_ttmr_set := False\<rparr>) k4)" (is "blocked _ _ _ _ ?k'")
proof -
  note P = parked_fields [where t = t and susp = susp and f = f and flag = flag and k = k]
  note f4 = same_but_schedD [OF sched_onlyD(1) [OF k4]]
  have X': "threads X = threads (parked t susp f flag k)" "tlists X = queued susp f t k" "same_ipc k X"
    "rt_current_thread X = Some t" "(objects X r)\<lparr>ob_flag := 0\<rparr> = (objects k r)\<lparr>ob_flag := 0\<rparr>"
    "r \<noteq> OTimer (ThreadTimer t) \<Longrightarrow> objects X r = objects k r"
    "tm_flag X (ThreadTimer t) AND - 2 = tm_flag k (ThreadTimer t) AND - 2" for r
    using X same_but_schedD [OF P(4)] P(5,6) c
    by (auto simp: same_ipc_def)
       (auto simp: clear_timer_def timer_remove_def tmlist_remove_def upd_defs)
  have ss: "thread_suspended ?k' t' \<longleftrightarrow> t' = t \<or> thread_suspended k t'" for t'
    using sched_onlyD(4) [OF k4, of t'] P(3) [of t'] X'(1) by (auto simp: thread_suspended_def upd_defs)
  have th4: "(threads k4 t')\<lparr>th_stat := 0\<rparr> = (threads k t')\<lparr>th_stat := 0\<rparr>" for t'
    using k4 P(1) [of t'] by (simp add: sched_only_def X'(1))
  have "(threads ?k' t')\<lparr>th_stat := 0\<rparr> = (if t' = t then (threads k t)\<lparr>th_ttmr_set := False, th_stat := 0\<rparr>
      else (threads k t')\<lparr>th_stat := 0\<rparr>)" for t'
    using th4 [of t'] arg_cong [OF th4 [of t], of "\<lambda>th. th\<lparr>th_ttmr_set := False, th_stat := 0\<rparr>"] by (simp add: upd_defs)
  then show ?thesis
    unfolding blocked_def
    using ss X' sched_onlyD(2,3) [OF k4] n P(2) f4 by (auto simp: same_ipc_def upd_defs)
qed

lemma blocked_kok:
  assumes k: "kok n k" and b: "blocked t False l k k'" and i: "kinv k'"
  shows "kok n k'"
proof -
  have th: "(threads k' t')\<lparr>th_stat := 0\<rparr> = (if t' = t then (threads k t)\<lparr>th_ttmr_set := False, th_stat := 0\<rparr>
      else (threads k t')\<lparr>th_stat := 0\<rparr>)" for t'
    using b by (simp add: blocked_def)
  have o: "(objects k' r)\<lparr>ob_flag := 0\<rparr> = (objects k r)\<lparr>ob_flag := 0\<rparr>" "r \<noteq> OTimer (ThreadTimer t) \<Longrightarrow> objects k' r = objects k r"
    for r using b by (simp_all add: blocked_def)
  have tset: "th_ttmr_set (threads k' t') = (t' \<noteq> t \<and> th_ttmr_set (threads k t'))" for t'
    using arg_cong [OF th [of t'], of th_ttmr_set] by (cases "t' = t") simp_all
  have "ttmr_ok k' t'" for t'
    using kokD(3) [OF k, of t'] arg_cong [OF o(1) [of "OTimer (ThreadTimer t')"], of ob_type] tset [of t']
      o(2) [of "OTimer (ThreadTimer t')"] b
    by (auto simp: ttmr_ok_def rt_object_get_type_def timer_active_def blocked_def)
  then show ?thesis using k i b by (simp add: kok_def nest_room_def blocked_def same_ipc_def)
qed

lemma suspend_to_list_wp:
  assumes k: "kok n k" and c: "rt_current_thread k = Some t" and r: "th_code k t = RT_THREAD_RUNNING"
    and ty: "rt_object_get_type (OThread t) k = RT_Object_Class_Thread"
    and h: "\<And>h. susp = Some h \<Longrightarrow> is_susp_list h \<and> (f = RT_IPC_FLAG_FIFO \<or> f = RT_IPC_FLAG_PRIO)"
    and Q: "\<And>k'. kok n k' \<Longrightarrow> blocked t False (queued susp f t k) k k' \<Longrightarrow> Q (0, k')"
  shows "wp (rt_thread_suspend_to_list t susp f flag k) Q"
proof -
  let ?k3 = "parked t susp f flag k"
  note e = parked_wp [OF kokD(1) [OF k] r h, where flag = flag]
  note P = parked_fields [where t = t and susp = susp and f = f and flag = flag and k = k]
  note f3 = same_but_schedD [OF P(4)]
  have "wp (rt_sched_thread_timer_stop t ?k3) (\<lambda>(_, k'). Q (0, k'))"
  proof (rule thread_timer_stop_wp)
    show "kinv ?k3" using e by (auto simp: wp_def)
    show "nest_ok ?k3" using kokD(2) [OF k] f3 by (simp add: nest_ok_def)
    show "rt_object_get_type (OTimer (ThreadTimer t)) ?k3 = RT_Object_Class_Timer" if "th_ttmr_set (threads ?k3 t)"
      using that kokD(3) [OF k, of t] f3 P(7) by (simp add: ttmr_ok_def rt_object_get_type_def)
    fix er X k4 assume X: "X = ?k3 \<or> X = clear_timer (ThreadTimer t) ?k3" and k4: "kinv k4" "sched_only X k4"
      and nest: "rt_scheduler_lock_nest ?k3 \<noteq> 0 \<Longrightarrow> k4 = X"
    let ?k' = "upd_thread t (\<lambda>th. th\<lparr>th_ttmr_set := False\<rparr>) k4"
    have B: "blocked t False (queued susp f t k) k ?k'"
      by (rule parked_blocked [OF X c k4(2)]) (use nest f3 in simp)
    moreover have "kinv ?k'" using k4(1) by (simp add: kinv_upd_thread thread_view_def)
    ultimately show "case (er, ?k') of (_, k') \<Rightarrow> Q (0, k')" using Q blocked_kok [OF k] by simp
  qed
  then show ?thesis
    unfolding rt_thread_suspend_to_list_def
    using ty c r e by (auto simp: rt_thread_self_def rt_sched_thread_get_stat_def case_prod_unfold wp_def)
qed

section \<open>Starting and resuming\<close>

lemma resume_wp:
  assumes k: "kok n k" and ty: "rt_object_get_type (OThread t) k = RT_Object_Class_Thread"
    and Q1: "\<And>k1 k'. thread_suspended k t \<Longrightarrow> woken t (th_error (threads k t)) k k1 \<Longrightarrow> kok n k1 \<Longrightarrow>
       kok n k' \<Longrightarrow> sched_only k1 k' \<Longrightarrow> Q (0, k')"
    and Q2: "\<not> thread_suspended k t \<Longrightarrow> Q (- 10, k)"
  shows "wp (rt_thread_resume t k) Q"
proof -
  have "wp (rt_sched_thread_ready t k) (\<lambda>(e, k1). wp (if e = 0 then rt_sched_unlock_n_resched k1 \<bind> (\<lambda>k'. Some (0, k'))
      else Some (e, k1)) Q)"
  proof (rule thread_ready_wp [OF kokD [OF k]])
    fix k1 assume s: "thread_suspended k t" and k1: "sched_only (timer_quiet t k) k1"
      "kinv (rt_sched_insert_thread t (tlist_remove t k1))" (is "kinv ?k'")
    note W = relink_woken [OF k1(1)]
    have kk: "kok n ?k'" by (rule woken_kok [OF k W k1(2)])
    show "case (0, ?k') of (e, k1) \<Rightarrow> wp (if e = 0 then rt_sched_unlock_n_resched k1 \<bind> (\<lambda>k'. Some (0, k'))
      else Some (e, k1)) Q"
      using Q1 [OF s W kk] kok_sched_only [OF kk] by (simp add: unlock_n_resched_wp [OF k1(2)])
  qed (use Q2 in simp)
  then show ?thesis using ty by (simp add: rt_thread_resume_def case_prod_unfold)
qed

lemma startup_kinv:
  assumes k: "kinv k" and i: "th_code k t = RT_THREAD_INIT" and p: "th_prio k t < 32"
  shows "kinv (rt_sched_thread_startup t k)" "thread_suspended (rt_sched_thread_startup t k) t"
proof -
  have T: "thread_ok k t" using k by (simp add: kinv_def)
  have ns: "\<not> thread_suspended k t" using i stat_not_suspended_code by (simp add: thread_suspended_def)
  have "t \<notin> set (tlists k h)" for h using T i ns by (cases h) (auto simp: thread_ok_def)
  then have "kinv_but t k" using k by (simp add: kinv_but_def kinv_def)
  then have b: "kinv_but t (rt_sched_thread_startup t k)"
    unfolding rt_sched_thread_startup_def by (rule kinv_but_upd_thread)
  show s: "thread_suspended (rt_sched_thread_startup t k) t"
    by (simp add: rt_sched_thread_startup_def upd_defs thread_suspended_def)
  show "kinv (rt_sched_thread_startup t k)"
    by (rule kinv_but_suspended [OF b s]) (use p in \<open>simp_all add: rt_sched_thread_startup_def upd_defs\<close>)
qed

section \<open>Properties\<close>

text \<open>\<^verbatim>\<open>rt_thread_yield\<close> is round robin: with an equal-priority thread ready and nothing
  better, the caller goes to the tail of its ready list with a fresh time slice and the head of
  the list runs.\<close>

theorem rt_thread_yield_round_robin:
  assumes k: "kinv k" and c: "rt_current_thread k = Some c" and u: "rt_scheduler_lock_nest k = 0"
    and r: "th_code k c = RT_THREAD_RUNNING" and l: "tlists k (ReadyL (th_prio k c)) = t # ts"
    and b: "\<And>t'. th_code k t' = RT_THREAD_READY \<Longrightarrow> th_prio k c \<le> th_prio k t'"
  shows "wp (rt_thread_yield k) (\<lambda>(err, k'). err = RT_EOK \<and> kinv k' \<and> rt_current_thread k' = Some t \<and>
     tlists k' (ReadyL (th_prio k c)) = ts @ [c] \<and> th_code k' c = RT_THREAD_READY \<and>
     th_remaining_tick (threads k' c) = th_init_tick (threads k c))"
proof -
  define k1 where "k1 = rt_sched_thread_yield c k"
  have k1: "kinv k1" using k by (simp add: k1_def)
  have f: "rt_current_thread k1 = Some c" "rt_scheduler_lock_nest k1 = 0" "tlists k1 = tlists k"
    "th_code k1 t' = th_code k t'" "th_prio k1 t' = th_prio k t'" "stat_yield (th_stat (threads k1 c))"
    "th_remaining_tick (threads k1 c) = th_init_tick (threads k c)" for t'
    using c u by (auto simp: k1_def rt_sched_thread_yield_def upd_defs)
  obtain k' where k': "rt_schedule k1 = Some k'" "rt_current_thread k' = Some t"
    "tlists k' (ReadyL (th_prio k c)) = ts @ [c]"
    using schedule_round_robin [OF k1 f(1,2) _ f(6), of t ts] r l b by (auto simp: f)
  have i: "kinv k'" "sched_only k1 k'" using schedule_total [OF k1 f(1)] k'(1) by simp_all
  have "th_code k' c = RT_THREAD_READY" by (rule ready_memD(1) [OF i(1), where p = "th_prio k c"]) (simp add: k'(3))
  then show ?thesis
    using c k' i f(1,7) sched_onlyD(14) [OF i(2), of c]
    by (simp add: rt_thread_yield_def rt_thread_self_def k1_def [symmetric] rt_sched_unlock_n_resched_def)
qed

text \<open>Starting a thread: a freshly initialised thread is made ready (or, before the scheduler
  runs, simply queued) and the invariants are kept; if it is not yet running it stands in the ready
  list of its priority.\<close>

lemma startup_wp:
  assumes k: "kok n k" and i: "th_code k t = RT_THREAD_INIT" and p: "th_prio k t < RT_THREAD_PRIORITY_MAX"
    and ty: "rt_object_get_type (OThread t) k = RT_Object_Class_Thread"
    and s: "\<not> th_ttmr_set (threads k t)"
  shows "wp (rt_thread_startup t k) (\<lambda>(err, k'). err = RT_EOK \<and> kok n k' \<and>
     (th_code k' t = RT_THREAD_READY \<and> t \<in> set (tlists k' (ReadyL (th_prio k t))) \<or>
      th_code k' t = RT_THREAD_RUNNING \<and> rt_current_thread k' = Some t) \<and>
     objects k' = objects k \<and> object_list k' = object_list k \<and> timers k' = timers k)"
proof -
  let ?k = "rt_sched_thread_startup t k"
  note S = startup_kinv [OF kokD(1) [OF k] i p]
  have k1: "kok n ?k"
    using k S(1) s by (auto simp: kok_def nest_room_def rt_sched_thread_startup_def upd_defs ttmr_ok_def
        rt_object_get_type_def timer_active_def thread_suspended_def)
  have f: "rt_object_get_type (OThread t) ?k = RT_Object_Class_Thread" "objects ?k = objects k"
    "object_list ?k = object_list k" "timers ?k = timers k" "timer_quiet t ?k = ?k" "th_prio ?k t = th_prio k t"
    using ty s by (simp_all add: rt_sched_thread_startup_def upd_defs rt_object_get_type_def timer_quiet_def)
  have "wp (rt_sched_thread_ready t ?k) (\<lambda>(e, k1). wp (if e = 0 then rt_sched_unlock_n_resched k1 else Some k1) (\<lambda>k'.
     kok n k' \<and> (th_code k' t = RT_THREAD_READY \<and> t \<in> set (tlists k' (ReadyL (th_prio k t))) \<or>
       th_code k' t = RT_THREAD_RUNNING \<and> rt_current_thread k' = Some t) \<and>
     objects k' = objects k \<and> object_list k' = object_list k \<and> timers k' = timers k))"
  proof (rule thread_ready_wp [OF kokD [OF k1]])
    fix k1' assume k1': "sched_only (timer_quiet t ?k) k1'"
      "kinv (rt_sched_insert_thread t (tlist_remove t k1'))" (is "kinv ?k2")
    note W = relink_woken [OF k1'(1)]
    have k2: "kok n ?k2" by (rule woken_kok [OF k1 W k1'(2)])
    have o2: "objects ?k2 = objects k" "object_list ?k2 = object_list k" "timers ?k2 = timers k"
      using same_but_schedD [OF relink_same_but_sched [of k1' t]] same_but_schedD [OF sched_onlyD(1) [OF k1'(1)]]
      by (simp_all add: f)
    have "wp (rt_sched_unlock_n_resched ?k2) (\<lambda>k'.
     kok n k' \<and> (th_code k' t = RT_THREAD_READY \<and> t \<in> set (tlists k' (ReadyL (th_prio k t))) \<or>
       th_code k' t = RT_THREAD_RUNNING \<and> rt_current_thread k' = Some t) \<and>
     objects k' = objects k \<and> object_list k' = object_list k \<and> timers k' = timers k)"
    proof (rule unlock_n_resched_wp [OF k1'(2)])
      fix k' assume k': "kinv k'" "sched_only ?k2 k'"
      note f' = same_but_schedD [OF sched_onlyD(1) [OF k'(2)]]
      have kk: "kok n k'" by (rule kok_sched_only [OF k2 k'(2,1)])
      have "th_code k' t = RT_THREAD_READY \<or> th_code k' t = RT_THREAD_RUNNING"
        unfolding sched_onlyD(16) [OF k'(2)] using wokenD(14) [OF W] by simp
      moreover have "th_prio k' t = th_prio k t"
        using wokenD(8) [OF W, of t] sched_onlyD(5) [OF k'(2), of t] by (simp add: f)
      ultimately have "th_code k' t = RT_THREAD_READY \<and> t \<in> set (tlists k' (ReadyL (th_prio k t))) \<or>
         th_code k' t = RT_THREAD_RUNNING \<and> rt_current_thread k' = Some t"
        using kk by (auto simp: kok_def kinv_def thread_ok_def)
      then show "kok n k' \<and> (th_code k' t = RT_THREAD_READY \<and> t \<in> set (tlists k' (ReadyL (th_prio k t))) \<or>
         th_code k' t = RT_THREAD_RUNNING \<and> rt_current_thread k' = Some t) \<and>
         objects k' = objects k \<and> object_list k' = object_list k \<and> timers k' = timers k"
        using kk f' o2 by simp
    qed
    then show "case (0, ?k2) of (e, k1) \<Rightarrow> wp (if e = 0 then rt_sched_unlock_n_resched k1 else Some k1) (\<lambda>k'.
     kok n k' \<and> (th_code k' t = RT_THREAD_READY \<and> t \<in> set (tlists k' (ReadyL (th_prio k t))) \<or>
       th_code k' t = RT_THREAD_RUNNING \<and> rt_current_thread k' = Some t) \<and>
     objects k' = objects k \<and> object_list k' = object_list k \<and> timers k' = timers k)" by simp
  qed (use S(2) in simp)
  then show ?thesis
    using i ty f(1) by (auto simp: rt_thread_startup_def rt_thread_resume_def case_prod_unfold elim!: wp_mono split: if_splits)
qed

definition sample_init :: kernel where
  "sample_init = upd_thread 6 (\<lambda>th. th\<lparr>th_current_priority := 3, th_init_priority := 3\<rparr>) sample_kernel"

lemma kok_sample_init: "kok 8 sample_init"
proof -
  have "thread_ok sample_init t" for t
    unfolding thread_ok_def
    by (intro conjI allI impI)
      (auto simp: sample_init_def upd_defs sample_kernel_def zero_kernel_def zero_thread_def
        sample_thread_def thread_suspended_def split: if_splits)
  moreover have "kglobal sample_init"
    using kinvD(2) [OF kinv_sample] by (subst kglobal_cong [of _ sample_kernel])
      (simp_all add: sample_init_def upd_defs sched_view_def)
  ultimately have "kinv sample_init" by (simp add: kinv_def)
  moreover have "ttmr_ok sample_init t" for t
    using kokD(3) [OF kok_sample, of t]
    by (auto simp: sample_init_def ttmr_ok_def upd_defs rt_object_get_type_def timer_active_def thread_suspended_def)
  ultimately show ?thesis by (simp add: kok_def nest_room_def sample_init_def upd_defs)
qed

text \<open>C38. A restart that is lost: nothing clears \<^verbatim>\<open>sched_flag_ttmr_set\<close> when a thread's
  timer fires, and re-initialising a thread does not either. Starting a thread whose flag is stale
  (its timer is not active) reports success but leaves the thread suspended, in no ready list.\<close>

theorem rt_thread_startup_stale_flag:
  assumes k: "kinv k" and n: "nest_ok k" and i: "th_code k t = RT_THREAD_INIT"
    and p: "th_prio k t < RT_THREAD_PRIORITY_MAX"
    and ty: "rt_object_get_type (OThread t) k = RT_Object_Class_Thread"
      "rt_object_get_type (OTimer (ThreadTimer t)) k = RT_Object_Class_Timer"
    and s: "th_ttmr_set (threads k t)" and a: "\<not> timer_active k (ThreadTimer t)"
  shows "wp (rt_thread_startup t k) (\<lambda>(err, k'). err = RT_EOK \<and> thread_suspended k' t \<and>
     (\<forall>p. t \<notin> set (tlists k' (ReadyL p))))"
proof -
  let ?k = "rt_sched_thread_startup t k"
  note S = startup_kinv [OF k i p]
  have f: "nest_ok ?k" "rt_object_get_type r ?k = rt_object_get_type r k" "timer_active ?k x = timer_active k x"
    "th_ttmr_set (threads ?k t)" for r x
    using n s by (simp_all add: rt_sched_thread_startup_def upd_defs nest_ok_def rt_object_get_type_def timer_active_def)
  have "wp (rt_timer_stop (ThreadTimer t) ?k) (\<lambda>(e, k'). e = - 1 \<and> kinv k' \<and> thread_suspended k' t)"
    using a f S ty by (intro timer_stop_wp) (auto simp: sched_onlyD(4))
  moreover have "thread_suspended k' t \<and> (\<forall>p. t \<notin> set (tlists k' (ReadyL p)))"
    if "kinv k'" "thread_suspended k' t" for k'
    using that stat_not_suspended_code [of "th_stat (threads k' t)"]
    by (auto simp: kinv_def thread_ok_def thread_suspended_def)
  ultimately have "wp (rt_sched_thread_ready t ?k) (\<lambda>(e, k'). e = - 1 \<and> thread_suspended k' t \<and>
     (\<forall>p. t \<notin> set (tlists k' (ReadyL p))))"
    using f(4) S(2)
    by (fastforce simp: rt_sched_thread_ready_def rt_sched_thread_timer_stop_def
        rt_sched_thread_is_suspended_def thread_suspended_def upd_defs elim!: wp_mono)
  then show ?thesis
    using i ty f(2) by (auto simp: rt_thread_startup_def rt_thread_resume_def elim!: wp_mono)
qed

theorem rt_thread_startup_stale_flag_witness:
  "wp (rt_thread_startup 6 (upd_thread 6 (\<lambda>th. th\<lparr>th_ttmr_set := True\<rparr>) sample_init))
     (\<lambda>(err, k'). err = RT_EOK \<and> thread_suspended k' 6 \<and> (\<forall>p. 6 \<notin> set (tlists k' (ReadyL p))))"
proof -
  have "kinv (upd_thread 6 (\<lambda>th. th\<lparr>th_ttmr_set := True\<rparr>) sample_init)"
    using kokD(1) [OF kok_sample_init] by (simp add: kinv_upd_thread thread_view_def)
  then show ?thesis
    by (rule rt_thread_startup_stale_flag)
      (simp_all add: sample_init_def upd_defs rt_object_get_type_def sample_type_def sample_kernel_def
        zero_kernel_def zero_thread_def zero_object_def nest_ok_def timer_active_def)
qed

end
