(* ===== verification/Sem_Core.thy ===== *)
theory Sem_Core
  imports Suspend_List
begin

text \<open>
  Counting semaphores, the non-blocking half of the semaphore section of \<^verbatim>\<open>src/ipc.c\<close>:
  creation, destruction, release and control. Taking a semaphore, which may block, is in theory
  \<open>Semaphore\<close>.
\<close>

section \<open>Definitions\<close>

abbreviation (input) RT_SEM_VALUE_MAX :: u16 where "RT_SEM_VALUE_MAX \<equiv> 0xffff"

definition ipc_object_init :: "tlist \<Rightarrow> kernel \<Rightarrow> kernel" where
  "ipc_object_init suspend_thread k = tlist_init suspend_thread k"

definition sem_object_init :: "sid \<Rightarrow> u16 \<Rightarrow> u8 \<Rightarrow> u16 \<Rightarrow> kernel \<Rightarrow> kernel" where
  "sem_object_init s value flag max_value k =
     (let k = ipc_object_init (SemL s) k;
          k = upd_sem s (\<lambda>sem. sem\<lparr>sem_max_value := max_value, sem_value := value\<rparr>) k
      in upd_object (OSem s) (\<lambda>ob. ob\<lparr>ob_flag := flag\<rparr>) k)"

definition rt_sem_init :: "sid \<Rightarrow> string \<Rightarrow> u32 \<Rightarrow> u8 \<Rightarrow> kernel \<Rightarrow> (rt_err_t \<times> kernel) option" where
  "rt_sem_init s name value flag k = do {
     rt_assert (value < 0x10000);
     rt_assert (flag = RT_IPC_FLAG_FIFO \<or> flag = RT_IPC_FLAG_PRIO);
     k \<leftarrow> rt_object_init (OSem s) RT_Object_Class_Semaphore name k;
     Some (RT_EOK, sem_object_init s (ucast value) flag RT_SEM_VALUE_MAX k)
   }"

definition rt_sem_detach :: "sid \<Rightarrow> kernel \<Rightarrow> (rt_err_t \<times> kernel) option" where
  "rt_sem_detach s k = do {
     rt_assert (rt_object_get_type (OSem s) k = RT_Object_Class_Semaphore);
     rt_assert (rt_object_is_systemobject (OSem s) k);
     let k = rt_spin_lock_irqsave k;
     k \<leftarrow> rt_susp_list_resume_all (SemL s) RT_ERROR k;
     k \<leftarrow> rt_spin_unlock_irqrestore k;
     k \<leftarrow> rt_object_detach (OSem s) k;
     Some (RT_EOK, k)
   }"

definition rt_sem_create :: "sid option \<Rightarrow> string \<Rightarrow> u32 \<Rightarrow> u8 \<Rightarrow> kernel \<Rightarrow> (sid option \<times> kernel) option" where
  "rt_sem_create mem name value flag k = do {
     rt_assert (value < 0x10000);
     rt_assert (flag = RT_IPC_FLAG_FIFO \<or> flag = RT_IPC_FLAG_PRIO);
     rt_assert (debug_not_in_interrupt k);
     (ob, k) \<leftarrow> rt_object_allocate (map_option OSem mem) RT_Object_Class_Semaphore name k;
     case (ob, mem) of
       (Some _, Some s) \<Rightarrow> Some (Some s, sem_object_init s (ucast value) flag RT_SEM_VALUE_MAX k)
     | _ \<Rightarrow> Some (None, k)
   }"

definition rt_sem_delete :: "sid \<Rightarrow> kernel \<Rightarrow> (rt_err_t \<times> kernel) option" where
  "rt_sem_delete s k = do {
     rt_assert (rt_object_get_type (OSem s) k = RT_Object_Class_Semaphore);
     rt_assert (\<not> rt_object_is_systemobject (OSem s) k);
     rt_assert (debug_not_in_interrupt k);
     let k = rt_spin_lock_irqsave k;
     k \<leftarrow> rt_susp_list_resume_all (SemL s) RT_ERROR k;
     k \<leftarrow> rt_spin_unlock_irqrestore k;
     k \<leftarrow> rt_object_delete (OSem s) k;
     Some (RT_EOK, k)
   }"

definition rt_sem_release :: "sid \<Rightarrow> kernel \<Rightarrow> (rt_err_t \<times> kernel) option" where
  "rt_sem_release s k = do {
     rt_assert (rt_object_get_type (OSem s) k = RT_Object_Class_Semaphore);
     let k = rt_spin_lock_irqsave k;
     if tlists k (SemL s) \<noteq> [] then do {
       (_, k) \<leftarrow> rt_susp_list_dequeue (SemL s) RT_EOK k;
       k \<leftarrow> rt_spin_unlock_irqrestore k;
       k \<leftarrow> rt_schedule k;
       Some (RT_EOK, k)
     } else if sem_value (sems k s) < sem_max_value (sems k s) then do {
       let k = upd_sem s (\<lambda>sem. sem\<lparr>sem_value := sem_value sem + 1\<rparr>) k;
       k \<leftarrow> rt_spin_unlock_irqrestore k;
       Some (RT_EOK, k)
     } else do {
       k \<leftarrow> rt_spin_unlock_irqrestore k;
       Some (- RT_EFULL, k)
     }
   }"

datatype ipc_cmd = RT_IPC_CMD_RESET | RT_IPC_CMD_SET_VLIMIT | RT_IPC_CMD_UNKNOWN

definition rt_sem_control :: "sid \<Rightarrow> ipc_cmd \<Rightarrow> u32 \<Rightarrow> kernel \<Rightarrow> (rt_err_t \<times> kernel) option" where
  "rt_sem_control s cmd arg k = do {
     rt_assert (rt_object_get_type (OSem s) k = RT_Object_Class_Semaphore);
     case cmd of
       RT_IPC_CMD_RESET \<Rightarrow> do {
         let k = rt_spin_lock_irqsave k;
         k \<leftarrow> rt_susp_list_resume_all (SemL s) RT_ERROR k;
         let k = upd_sem s (\<lambda>sem. sem\<lparr>sem_value := ucast arg\<rparr>) k;
         k \<leftarrow> rt_spin_unlock_irqrestore k;
         k \<leftarrow> rt_schedule k;
         Some (RT_EOK, k)
       }
     | RT_IPC_CMD_SET_VLIMIT \<Rightarrow> do {
         let max_value = (ucast arg :: u16);
         if max_value > RT_SEM_VALUE_MAX \<or> max_value < 1 then Some (- RT_EINVAL, k)
         else do {
           let k = rt_spin_lock_irqsave k;
           let need_schedule = (max_value < sem_value (sems k s) \<and> tlists k (SemL s) \<noteq> []);
           k \<leftarrow> (if need_schedule then rt_susp_list_resume_all (SemL s) RT_ERROR k else Some k);
           let k = upd_sem s (\<lambda>sem. sem\<lparr>sem_max_value := max_value\<rparr>) k;
           k \<leftarrow> rt_spin_unlock_irqrestore k;
           k \<leftarrow> (if need_schedule then rt_schedule k else Some k);
           Some (RT_EOK, k)
         }
       }
     | RT_IPC_CMD_UNKNOWN \<Rightarrow> Some (- RT_ERROR, k)
   }"

section \<open>Lemmas\<close>

lemma same_ipc_sched_only: "sched_only k k' \<Longrightarrow> same_ipc k k'"
  by (simp add: same_ipc_def sched_only_def same_but_sched_def)

lemma same_ipc_trans: "same_ipc k k' \<Longrightarrow> same_ipc k' k'' \<Longrightarrow> same_ipc k k''"
  by (simp add: same_ipc_def)

lemma same_ipc_refl [simp]: "same_ipc k k"
  by (simp add: same_ipc_def)

lemma sched_only_susp: "sched_only k k' \<Longrightarrow> is_susp_list h \<Longrightarrow> tlists k' h = tlists k h"
  by (rule sched_onlyD(3)) auto

text \<open>Waking the front of a suspend list inside a critical section and leaving the section.\<close>

lemma wake_section_wp:
  assumes k: "kok (Suc n) k" and h: "is_susp_list h" and l: "tlists k h = t # ts" and e: "0 \<le> e"
    and Q: "\<And>k1 k2. kok n k1 \<Longrightarrow> woken t e (rt_enter_critical k) k1 \<Longrightarrow> tlists k1 h = ts \<Longrightarrow> Q (Some t) k1"
  shows "wp (rt_susp_list_dequeue h e (rt_enter_critical k)) (\<lambda>(r, k1). Q r k1)"
  by (rule dequeue_wp [OF kok_enter [OF k] h]) (use l e Q in auto)

lemma kok_nest_update:
  "kok n k1 \<Longrightarrow> rt_scheduler_lock_nest k1 = m + 1 \<Longrightarrow> unat m + n' < 0x8000 \<Longrightarrow>
   kok n' (k1\<lparr>rt_scheduler_lock_nest := m\<rparr>)"
  by (auto simp: kok_def nest_room_def ttmr_ok_def rt_object_get_type_def timer_active_def thread_suspended_def)

text \<open>Leaving the section of an object and rescheduling if a thread was woken.\<close>

lemma leave_wp:
  assumes k: "kok (Suc n) k" and k2: "kok n k2" "rt_scheduler_lock_nest k2 = rt_scheduler_lock_nest k + 1"
    and c: "b \<Longrightarrow> rt_current_thread k2 \<noteq> None"
    and Q: "\<And>k'. kok (Suc n) k' \<Longrightarrow> sched_only (k2\<lparr>rt_scheduler_lock_nest := rt_scheduler_lock_nest k\<rparr>) k' \<Longrightarrow> Q k'"
  shows "wp (rt_exit_critical k2) (\<lambda>k3. wp (if b then rt_schedule k3 else Some k3) Q)"
proof -
  let ?m = "rt_scheduler_lock_nest k"
  have m: "kok (Suc n) (k2\<lparr>rt_scheduler_lock_nest := ?m\<rparr>)"
    using k by (intro kok_nest_update [OF k2]) (simp add: kok_def nest_room_def)
  show ?thesis
  proof (rule kok_exit_wp [OF m k2(2)])
    fix k3 assume k3: "kok (Suc n) k3" "sched_only (k2\<lparr>rt_scheduler_lock_nest := ?m\<rparr>) k3"
    show "wp (if b then rt_schedule k3 else Some k3) Q"
    proof (cases b)
      case True
      have "rt_current_thread k3 \<noteq> None" using sched_onlyD(2) [OF k3(2)] c [OF True] by simp
      then have "wp (rt_schedule k3) Q"
        by (rule kok_schedule_wp [OF k3(1)]) (use Q sched_only_trans [OF k3(2)] in blast)
      then show ?thesis using True by simp
    qed (use Q k3 in simp)
  qed
qed

section \<open>Releasing\<close>

lemma sem_release_wp:
  assumes k: "kok (Suc n) k" and ty: "rt_object_get_type (OSem s) k = RT_Object_Class_Semaphore"
    and c: "rt_current_thread k \<noteq> None"
  shows "wp (rt_sem_release s k) (\<lambda>(err, k'). kok (Suc n) k' \<and>
     (case tlists k (SemL s) of
        t # ts \<Rightarrow> err = RT_EOK \<and> sems k' = sems k \<and> tlists k' (SemL s) = ts \<and>
                  \<not> thread_suspended k' t \<and> th_error (threads k' t) = RT_EOK
      | [] \<Rightarrow> tlists k' (SemL s) = [] \<and>
          (if sem_value (sems k s) < sem_max_value (sems k s)
           then err = RT_EOK \<and> unat (sem_value (sems k' s)) = unat (sem_value (sems k s)) + 1 \<and>
                (\<forall>s'. s' \<noteq> s \<longrightarrow> sems k' s' = sems k s') \<and> sem_max_value (sems k' s) = sem_max_value (sems k s)
           else err = - RT_EFULL \<and> sems k' = sems k)))"
proof (cases "tlists k (SemL s)")
  case (Cons t ts)
  let ?Q = "\<lambda>(err, k'). kok (Suc n) k' \<and> err = 0 \<and> sems k' = sems k \<and> tlists k' (SemL s) = ts \<and>
                  \<not> thread_suspended k' t \<and> th_error (threads k' t) = 0"
  have "wp (rt_susp_list_dequeue (SemL s) 0 (rt_enter_critical k))
     (\<lambda>(r, k1). wp (rt_exit_critical k1) (\<lambda>k2. wp (rt_schedule k2) (\<lambda>k3. ?Q (0, k3))))"
  proof (rule wake_section_wp [OF k _ Cons])
    fix k1 assume k1: "kok n k1" and w: "woken t 0 (rt_enter_critical k) k1" and l1: "tlists k1 (SemL s) = ts"
    have nest: "rt_scheduler_lock_nest k1 = rt_scheduler_lock_nest k + 1" using wokenD(1) [OF w] by (simp add: same_ipc_def)
    have "wp (rt_exit_critical k1) (\<lambda>k2. wp (if True then rt_schedule k2 else Some k2) (\<lambda>k3. ?Q (0, k3)))"
    proof (rule leave_wp [OF k k1 nest])
      show "rt_current_thread k1 \<noteq> None" using wokenD(18) [OF w] c by simp
      fix k3 assume k3: "kok (Suc n) k3" "sched_only (k1\<lparr>rt_scheduler_lock_nest := rt_scheduler_lock_nest k\<rparr>) k3"
      show "?Q (0, k3)"
        using k3(1) sched_only_susp [OF k3(2), of "SemL s"] sched_onlyD(4,7) [OF k3(2)] same_ipc_sched_only [OF k3(2)]
          wokenD(1,3,4) [OF w] l1
        by (simp add: same_ipc_def thread_suspended_def)
    qed
    then show "wp (rt_exit_critical k1) (\<lambda>k2. wp (rt_schedule k2) (\<lambda>k3. ?Q (0, k3)))" by simp
  qed simp_all
  then show ?thesis
    unfolding rt_sem_release_def spin_defs using ty Cons by (simp add: case_prod_unfold)
next
  case Nil
  show ?thesis
  proof (cases "sem_value (sems k s) < sem_max_value (sems k s)")
    case True
    let ?f = "\<lambda>sem. sem\<lparr>sem_value := sem_value sem + 1\<rparr>"
    have "wp (rt_exit_critical (rt_enter_critical (upd_sem s ?f k)))
       (\<lambda>k'. kok (Suc n) k' \<and> sems k' = (sems k)(s := ?f (sems k s)) \<and> tlists k' (SemL s) = [])"
    proof (rule kok_section_wp)
      fix k' assume s: "kok (Suc n) k'" "sched_only (upd_sem s ?f k) k'"
      then show "kok (Suc n) k' \<and> sems k' = (sems k)(s := ?f (sems k s)) \<and> tlists k' (SemL s) = []"
        using sched_only_susp [OF s(2), of "SemL s"] same_ipc_sched_only [OF s(2)] Nil
        by (simp add: same_ipc_def upd_defs)
    qed (use k in simp)
    then show ?thesis
      unfolding rt_sem_release_def spin_defs
      using ty True Nil by (auto simp: enter_commute unat_inc_less [OF True] elim!: wp_mono)
  next
    case False
    have "wp (rt_exit_critical (rt_enter_critical k))
       (\<lambda>k'. kok (Suc n) k' \<and> sems k' = sems k \<and> tlists k' (SemL s) = [])"
      by (rule kok_section_wp [OF k]) (use Nil same_ipc_sched_only sched_only_susp [of _ _ "SemL s"] in \<open>auto simp: same_ipc_def\<close>)
    then show ?thesis
      unfolding rt_sem_release_def spin_defs
      using ty False Nil by (auto elim!: wp_mono)
  qed
qed

end
