(* ===== verification/Timer.thy ===== *)
theory Timer
  imports Thread_Core Sem_Core
begin

text \<open>
  Running timers, the rest of \<^verbatim>\<open>src/timer.c\<close>: \<^verbatim>\<open>rt_timer_start\<close> and the expiry
  loop \<^verbatim>\<open>_timer_check\<close>. The timeout functions of the user are an argument \<open>cb\<close>: the
  function's address and parameter, and the state the call starts from. The loop is a partial
  function: a periodic timer of period 0 is due again at once and keeps it running.
\<close>

section \<open>Definitions\<close>

definition rt_timer_start :: "timer_ref \<Rightarrow> kernel \<Rightarrow> (rt_err_t \<times> kernel) option" where
  "rt_timer_start r k = do {
     rt_assert (rt_object_get_type (OTimer r) k = RT_Object_Class_Timer);
     let timer_list = (if tm_flag k r AND RT_TIMER_FLAG_SOFT_TIMER \<noteq> 0 then SoftTimers else HardTimers);
     k \<leftarrow> (if tm_flag k r AND RT_TIMER_FLAG_THREAD_TIMER \<noteq> 0
           then case r of
                  ThreadTimer t \<Rightarrow> do {
                    rt_assert (rt_object_get_type (OThread t) k = RT_Object_Class_Thread);
                    Some (rt_sched_thread_timer_start t k)
                  }
                | TimerObj _ \<Rightarrow> None
           else Some k);
     let k = rt_spin_lock_irqsave k;
     let (err, k) = timer_start timer_list r k;
     k \<leftarrow> (if err = RT_EOK \<and> tm_flag k r AND RT_TIMER_FLAG_SOFT_TIMER \<noteq> 0
           then do { (_, k) \<leftarrow> rt_sem_release soft_timer_sem k; Some k }
           else Some k);
     k \<leftarrow> rt_spin_unlock_irqrestore k;
     Some (err, k)
   }"

text \<open>Calling the timeout function of timer \<open>r\<close>.\<close>

definition call_timeout :: "(nat \<Rightarrow> nat \<Rightarrow> kernel \<Rightarrow> kernel option) \<Rightarrow> timer_ref \<Rightarrow> kernel \<Rightarrow> kernel option" where
  "call_timeout cb r k =
     (case tm_timeout_func (timers k r) of
        ThreadTimeout \<Rightarrow> thread_timeout (tm_parameter (timers k r)) k
      | UserTimeout f \<Rightarrow> cb f (tm_parameter (timers k r)) k)"

text \<open>\<^verbatim>\<open>(current_tick - t->timeout_tick) < RT_TICK_MAX / 2\<close>.\<close>

definition expired :: "kernel \<Rightarrow> timer_ref \<Rightarrow> bool" where
  "expired k r \<longleftrightarrow> rt_tick_get k - tm_timeout_tick (timers k r) < RT_TICK_MAX div 2"

text \<open>The part of an iteration before the timeout function is called, and the part after it.\<close>

definition timer_fire_begin :: "tmlist \<Rightarrow> timer_ref \<Rightarrow> kernel \<Rightarrow> kernel" where
  "timer_fire_begin timer_list t k =
     (let k = timer_remove t k;
          k = (if tm_flag k t AND RT_TIMER_FLAG_PERIODIC = 0
               then set_tm_flag t (\<lambda>f. f AND NOT RT_TIMER_FLAG_ACTIVATED) k else k);
          k = set_tm_flag t (\<lambda>f. f OR RT_TIMER_FLAG_PROCESSING) k
      in k\<lparr>tmlists := (tmlists k)(CheckingTimers timer_list := t # tmlists k (CheckingTimers timer_list))\<rparr>)"

definition timer_fire_end :: "tmlist \<Rightarrow> timer_ref \<Rightarrow> kernel \<Rightarrow> kernel" where
  "timer_fire_end timer_list t k =
     (let k = set_tm_flag t (\<lambda>f. f AND NOT RT_TIMER_FLAG_PROCESSING) k
      in if tmlists k (CheckingTimers timer_list) = [] then k
         else
           let k = tmlist_remove t k
           in if tm_flag k t AND RT_TIMER_FLAG_PERIODIC \<noteq> 0 \<and> tm_flag k t AND RT_TIMER_FLAG_ACTIVATED \<noteq> 0
              then snd (timer_start timer_list t (set_tm_flag t (\<lambda>f. f AND NOT RT_TIMER_FLAG_ACTIVATED) k))
              else k)"

partial_function (option) timer_check_loop ::
  "(nat \<Rightarrow> nat \<Rightarrow> kernel \<Rightarrow> kernel option) \<Rightarrow> tmlist \<Rightarrow> kernel \<Rightarrow> kernel option" where
  "timer_check_loop cb timer_list k =
     (case tmlists k timer_list of
        [] \<Rightarrow> Some k
      | t # _ \<Rightarrow>
          if expired k t then do {
            k \<leftarrow> rt_spin_unlock_irqrestore (timer_fire_begin timer_list t k);
            k \<leftarrow> call_timeout cb t k;
            let k = rt_spin_lock_irqsave k;
            timer_check_loop cb timer_list (timer_fire_end timer_list t k)
          } else Some k)"

definition timer_check :: "(nat \<Rightarrow> nat \<Rightarrow> kernel \<Rightarrow> kernel option) \<Rightarrow> tmlist \<Rightarrow> kernel \<Rightarrow> kernel option" where
  "timer_check cb timer_list k = do {
     let k = rt_spin_lock_irqsave k;
     let k = k\<lparr>tmlists := (tmlists k)(CheckingTimers timer_list := [])\<rparr>;
     k \<leftarrow> timer_check_loop cb timer_list k;
     rt_spin_unlock_irqrestore k
   }"

definition rt_timer_check :: "(nat \<Rightarrow> nat \<Rightarrow> kernel \<Rightarrow> kernel option) \<Rightarrow> kernel \<Rightarrow> kernel option" where
  "rt_timer_check cb k = do {
     rt_assert (rt_interrupt_get_nest k > 0);
     timer_check cb HardTimers k
   }"

section \<open>Expiry\<close>

abbreviation (input) due :: "kernel \<Rightarrow> timer_ref \<Rightarrow> rt_tick_t" where
  "due k \<equiv> \<lambda>r. tm_timeout_tick (timers k r)"

text \<open>A timer in a timer list: active and not being processed; a thread timer is one-shot and belongs to a
  suspended thread; the period of a periodic timer is at least one tick and keeps the next timeout
  within the window.\<close>

definition timer_wf :: "rt_tick_t \<Rightarrow> kernel \<Rightarrow> timer_ref \<Rightarrow> bool" where
  "timer_wf b k r \<longleftrightarrow> tm_flag k r AND RT_TIMER_FLAG_PROCESSING = 0 \<and>
     tm_flag k r AND RT_TIMER_FLAG_ACTIVATED \<noteq> 0 \<and>
     (tm_flag k r AND RT_TIMER_FLAG_PERIODIC \<noteq> 0 \<longrightarrow>
        tm_init_tick (timers k r) \<noteq> 0 \<and> tm_init_tick (timers k r) < 0x7fffffff \<and>
        in_window b (rt_tick k + tm_init_tick (timers k r))) \<and>
     (case tm_timeout_func (timers k r) of
        UserTimeout _ \<Rightarrow> \<exists>i. r = TimerObj i
      | ThreadTimeout \<Rightarrow> r = ThreadTimer (tm_parameter (timers k r)) \<and>
          tm_flag k r AND RT_TIMER_FLAG_PERIODIC = 0 \<and> thread_suspended k (tm_parameter (timers k r)) \<and>
          rt_object_get_type (OThread (tm_parameter (timers k r))) k = RT_Object_Class_Thread)"

text \<open>The loop invariant: the timer lock is held over level \<open>m\<close>, the list is ordered and
  well formed.\<close>

definition check_inv :: "rt_tick_t \<Rightarrow> u16 \<Rightarrow> nat \<Rightarrow> tmlist \<Rightarrow> kernel \<Rightarrow> bool" where
  "check_inv b m n h k \<longleftrightarrow> kok n k \<and> rt_scheduler_lock_nest k = m + 1 \<and> unat m + Suc n < 0x8000 \<and>
     in_window b (rt_tick k) \<and> distinct (tmlists k h) \<and> timers_sorted b (due k) (tmlists k h) \<and>
     (\<forall>r \<in> set (tmlists k h). timer_wf b k r)"

text \<open>The state in which the timeout function of the user timer \<open>r\<close> is called: the timer is out of its list, in the
  list of timers being checked and marked as processed, active only if it is periodic; the timer lock is released.\<close>

definition timeout_call :: "nat \<Rightarrow> tmlist \<Rightarrow> timer_ref \<Rightarrow> kernel \<Rightarrow> kernel \<Rightarrow> bool" where
  "timeout_call n h r k k' \<longleftrightarrow> kok (Suc n) k' \<and> rt_scheduler_lock_nest k' = rt_scheduler_lock_nest k \<and>
     rt_tick k' = rt_tick k \<and> timers k' = timers k \<and>
     tmlists k' h = removeAll r (tmlists k h) \<and> tmlists k' (CheckingTimers h) = [r] \<and>
     tm_flag k' r AND RT_TIMER_FLAG_PROCESSING \<noteq> 0 \<and> (timer_active k' r \<longleftrightarrow> tm_flag k r AND RT_TIMER_FLAG_PERIODIC \<noteq> 0) \<and>
     (\<forall>x. x \<noteq> OTimer r \<longrightarrow> objects k' x = objects k x) \<and> (\<forall>t. thread_suspended k' t = thread_suspended k t)"

text \<open>Two things a timeout function may have done to the timers when it returns: it has left them alone, or
  (\<open>stop\<close>) it has stopped its own timer, as \<^verbatim>\<open>rt_timer_stop\<close> does.\<close>

definition callback_left :: "nat \<Rightarrow> bool \<Rightarrow> timer_ref \<Rightarrow> kernel \<Rightarrow> kernel \<Rightarrow> bool" where
  "callback_left n stop r k k' \<longleftrightarrow> kok (Suc n) k' \<and> rt_scheduler_lock_nest k' = rt_scheduler_lock_nest k \<and>
     rt_tick k' = rt_tick k \<and> timers k' = timers k \<and>
     tmlists k' = (if stop then \<lambda>l. removeAll r (tmlists k l) else tmlists k) \<and>
     objects k' = (if stop then (objects k)(OTimer r := (objects k (OTimer r))\<lparr>ob_flag := tm_flag k r AND NOT RT_TIMER_FLAG_ACTIVATED\<rparr>)
                   else objects k) \<and>
     (\<forall>t. (threads k' t)\<lparr>th_stat := 0\<rparr> = (threads k t)\<lparr>th_stat := 0\<rparr> \<and> thread_suspended k' t = thread_suspended k t)"

lemma expired_iff:
  assumes "in_window b (rt_tick k)" "in_window b (due k r)"
  shows "expired k r \<longleftrightarrow> tick_after b (due k r) \<le> tick_after b (rt_tick k)"
proof -
  have "rt_tick k - due k r = 0 \<longleftrightarrow> tick_after b (rt_tick k) = tick_after b (due k r)"
    by (simp add: tick_after_def word_unat_eq_iff [symmetric])
  then show ?thesis
    using wrapped_diff_less [OF assms] by (auto simp: expired_def rt_tick_get_def half_range)
qed

text \<open>In an ordered list nothing is due behind a timer that is not.\<close>

lemma head_not_expired:
  assumes w: "in_window b (rt_tick k)" and s: "timers_sorted b (due k) (t # ts)" and e: "\<not> expired k t"
    and r: "r \<in> set (t # ts)"
  shows "\<not> expired k r"
proof -
  have "in_window b (due k t)" "in_window b (due k r)" "tick_after b (due k t) \<le> tick_after b (due k r)"
    using s r by (auto simp: timers_sorted_def)
  then show ?thesis using e expired_iff [OF w] by simp
qed

lemma restarted_not_expired:
  fixes t i :: rt_tick_t
  assumes "i \<noteq> 0" "i < 0x7fffffff"
  shows "\<not> (t - (t + i) < 0x7fffffff)"
proof -
  have "t - (t + i) = - i" by simp
  moreover have "unat (0 - i) = 2 ^ 32 - unat i"
    using assms(1) unat_sub_if' [of 0 i] by (auto simp: word_unat_eq_iff)
  ultimately show ?thesis using assms by (simp add: word_less_nat_alt)
qed

lemma checking_neq [simp]: "CheckingTimers h \<noteq> h" "h \<noteq> CheckingTimers h"
  by (induction h) auto

lemma fire_begin_fields:
  "threads (timer_fire_begin h t k) = threads k" "tlists (timer_fire_begin h t k) = tlists k"
  "timers (timer_fire_begin h t k) = timers k" "rt_tick (timer_fire_begin h t k) = rt_tick k"
  "rt_scheduler_lock_nest (timer_fire_begin h t k) = rt_scheduler_lock_nest k"
  "rt_current_thread (timer_fire_begin h t k) = rt_current_thread k"
  "rt_thread_ready_priority_group (timer_fire_begin h t k) = rt_thread_ready_priority_group k"
  "objects (timer_fire_begin h t k) = (objects k)(OTimer t := (objects k (OTimer t))
     \<lparr>ob_flag := (if tm_flag k t AND RT_TIMER_FLAG_PERIODIC = 0 then tm_flag k t AND - 2 else tm_flag k t) OR 2\<rparr>)"
  "tmlists (timer_fire_begin h t k) h = removeAll t (tmlists k h)"
  "tmlists (timer_fire_begin h t k) (CheckingTimers h) = t # removeAll t (tmlists k (CheckingTimers h))"
  by (auto simp: timer_fire_begin_def timer_remove_def tmlist_remove_def upd_defs Let_def)

lemma timer_start_fields:
  assumes "tm_flag k r AND RT_TIMER_FLAG_PROCESSING = 0" and k': "k' = snd (timer_start h r k)"
  shows "threads k' = threads k" "tlists k' = tlists k" "rt_tick k' = rt_tick k"
    "rt_scheduler_lock_nest k' = rt_scheduler_lock_nest k" "rt_current_thread k' = rt_current_thread k"
    "rt_thread_ready_priority_group k' = rt_thread_ready_priority_group k"
    "timers k' = (timers k)(r := (timers k r)\<lparr>tm_timeout_tick := rt_tick k + tm_init_tick (timers k r)\<rparr>)"
    "objects k' = (objects k)(OTimer r := (objects k (OTimer r))\<lparr>ob_flag := (tm_flag k r AND - 2) OR 1\<rparr>)"
    "tmlists k' h = timer_insert (due k') r (removeAll r (tmlists k h))"
  using assms by (simp_all add: timer_start_def Let_def upd_defs timer_remove_def tmlist_remove_def
      rt_tick_get_def cong: if_cong)

text \<open>The state after the timeout function of a timer taken from the list: a one-shot timer is
  inactive and out of the list, a periodic one is back in it, due one period from now.\<close>

lemma fire_end_fields:
  assumes c: "tmlists k (CheckingTimers h) = r # cs" and k': "k' = timer_fire_end h r k"
    and ns: "r \<notin> set (tmlists k h)"
  shows "threads k' = threads k" "tlists k' = tlists k" "rt_tick k' = rt_tick k"
    "rt_scheduler_lock_nest k' = rt_scheduler_lock_nest k" "rt_current_thread k' = rt_current_thread k"
    "rt_thread_ready_priority_group k' = rt_thread_ready_priority_group k"
    "tm_flag k r AND RT_TIMER_FLAG_PERIODIC \<noteq> 0 \<and> tm_flag k r AND RT_TIMER_FLAG_ACTIVATED \<noteq> 0 \<Longrightarrow>
       timers k' = (timers k)(r := (timers k r)\<lparr>tm_timeout_tick := rt_tick k + tm_init_tick (timers k r)\<rparr>) \<and>
       objects k' = (objects k)(OTimer r := (objects k (OTimer r))\<lparr>ob_flag := ((((tm_flag k r AND - 3) AND - 2) AND - 2) OR 1)\<rparr>) \<and>
       tmlists k' h = timer_insert (due k') r (tmlists k h)"
    "\<not> (tm_flag k r AND RT_TIMER_FLAG_PERIODIC \<noteq> 0 \<and> tm_flag k r AND RT_TIMER_FLAG_ACTIVATED \<noteq> 0) \<Longrightarrow>
       timers k' = timers k \<and>
       objects k' = (objects k)(OTimer r := (objects k (OTimer r))\<lparr>ob_flag := tm_flag k r AND - 3\<rparr>) \<and>
       tmlists k' h = tmlists k h"
proof -
  let ?A = "set_tm_flag r (\<lambda>f. f AND NOT RT_TIMER_FLAG_ACTIVATED)
     (tmlist_remove r (set_tm_flag r (\<lambda>f. f AND NOT RT_TIMER_FLAG_PROCESSING) k))"
  have A: "tm_flag ?A r AND RT_TIMER_FLAG_PROCESSING = 0"
    by (simp add: upd_defs tmlist_remove_def)
  note TS = timer_start_fields [OF A refl, where h = h]
  note defs = k' timer_fire_end_def Let_def upd_defs tmlist_remove_def c
  show "threads k' = threads k" "tlists k' = tlists k" "rt_tick k' = rt_tick k"
    "rt_scheduler_lock_nest k' = rt_scheduler_lock_nest k" "rt_current_thread k' = rt_current_thread k"
    "rt_thread_ready_priority_group k' = rt_thread_ready_priority_group k"
    using TS(1-6) by (simp_all add: defs)
  show "timers k' = (timers k)(r := (timers k r)\<lparr>tm_timeout_tick := rt_tick k + tm_init_tick (timers k r)\<rparr>) \<and>
       objects k' = (objects k)(OTimer r := (objects k (OTimer r))\<lparr>ob_flag := ((((tm_flag k r AND - 3) AND - 2) AND - 2) OR 1)\<rparr>) \<and>
       tmlists k' h = timer_insert (due k') r (tmlists k h)"
    if "tm_flag k r AND RT_TIMER_FLAG_PERIODIC \<noteq> 0 \<and> tm_flag k r AND RT_TIMER_FLAG_ACTIVATED \<noteq> 0"
    using that TS(7-9) ns by (simp add: defs)
  show "timers k' = timers k \<and>
       objects k' = (objects k)(OTimer r := (objects k (OTimer r))\<lparr>ob_flag := tm_flag k r AND - 3\<rparr>) \<and>
       tmlists k' h = tmlists k h"
    if "\<not> (tm_flag k r AND RT_TIMER_FLAG_PERIODIC \<noteq> 0 \<and> tm_flag k r AND RT_TIMER_FLAG_ACTIVATED \<noteq> 0)"
    using that ns by (auto simp: defs)
qed

text \<open>One iteration of the loop on a due timer \<open>r\<close>; \<open>S\<close> holds the timers stopped by their own timeout
  function.\<close>

definition fired :: "timer_ref set \<Rightarrow> tmlist \<Rightarrow> timer_ref \<Rightarrow> kernel \<Rightarrow> kernel \<Rightarrow> bool" where
  "fired S h r k k' \<longleftrightarrow> rt_tick k' = rt_tick k \<and>
     (\<forall>r'. r' \<noteq> r \<longrightarrow> timers k' r' = timers k r' \<and> objects k' (OTimer r') = objects k (OTimer r')) \<and>
     (\<forall>t. thread_suspended k' t \<longleftrightarrow> thread_suspended k t \<and> r \<noteq> ThreadTimer t) \<and>
     (\<forall>t. (threads k' t)\<lparr>th_stat := 0\<rparr> = (if r = ThreadTimer t then (threads k t)\<lparr>th_error := - RT_ETIMEOUT, th_stat := 0\<rparr>
        else (threads k t)\<lparr>th_stat := 0\<rparr>)) \<and>
     (if tm_flag k r AND RT_TIMER_FLAG_PERIODIC \<noteq> 0 \<and> r \<notin> S
      then tmlists k' h = timer_insert (due k') r (removeAll r (tmlists k h)) \<and> \<not> expired k' r \<and> timer_active k' r
      else tmlists k' h = removeAll r (tmlists k h) \<and> \<not> timer_active k' r)"

lemma distinct_timer_insert: "distinct l \<Longrightarrow> r \<notin> set l \<Longrightarrow> distinct (timer_insert tick r l)"
  by (induction tick r l rule: timer_insert.induct) auto

text \<open>A change of one timer's flags keeps the kernel consistent when the timer belongs to no
  suspended thread.\<close>

lemma flag_change_kok:
  assumes k: "kok_but n t0 k" and o: "objects k' = (objects k)(OTimer r := (objects k (OTimer r))\<lparr>ob_flag := f\<rparr>)"
    and v: "threads k' = threads k" "sched_view k' = sched_view k"
      "unat (rt_scheduler_lock_nest k') + n' < 0x8000"
    and r: "r = ThreadTimer t0 \<or> (\<exists>i. r = TimerObj i)"
  shows "kok_but n' t0 k'" "(\<exists>i. r = TimerObj i) \<or> \<not> thread_suspended k t0 \<Longrightarrow> kok n k \<Longrightarrow> kok n' k'"
proof -
  have i: "kinv k'" using k v by (subst kinv_cong [of _ k]) (auto simp: kok_but_def)
  have ot: "rt_object_get_type x k' = rt_object_get_type x k" for x
    by (simp add: o rt_object_get_type_def)
  have tt: "ttmr_ok k' t \<longleftrightarrow> ttmr_ok k t" if "r \<noteq> ThreadTimer t" for t
    using that v(1) by (simp add: ttmr_ok_def ot timer_active_def o thread_suspended_def)
  show b: "kok_but n' t0 k'"
    using k i v tt r by (auto simp: kok_but_def nest_room_def ot)
  assume a: "(\<exists>i. r = TimerObj i) \<or> \<not> thread_suspended k t0" and kk: "kok n k"
  from a show "kok n' k'"
  proof
    assume "\<exists>i. r = TimerObj i"
    then show ?thesis using kk i v(3) tt by (auto simp: kok_def nest_room_def)
  next
    assume "\<not> thread_suspended k t0"
    then show ?thesis using kok_but_awake [OF b] v(1) by (simp add: thread_suspended_def)
  qed
qed

lemma timer_wf_other:
  assumes "timer_wf b k r'" "timers k' r' = timers k r'" "objects k' (OTimer r') = objects k (OTimer r')"
    "rt_tick k' = rt_tick k" "\<And>t. objects k' (OThread t) = objects k (OThread t)"
    "\<And>t. r' = ThreadTimer t \<Longrightarrow> thread_suspended k' t = thread_suspended k t"
  shows "timer_wf b k' r'"
  using assms(1)
  by (auto simp: timer_wf_def assms(2-5) rt_object_get_type_def assms(6) split: timeout_fn.splits)

lemma fire_end_stopped:
  "tmlists k (CheckingTimers h) = [] \<Longrightarrow>
   timer_fire_end h r k = set_tm_flag r (\<lambda>f. f AND NOT RT_TIMER_FLAG_PROCESSING) k"
  by (simp add: timer_fire_end_def Let_def upd_defs)

lemma fire_end_inv:
  assumes inv: "check_inv b m n h k" and l: "tmlists k h = r # ts" and ck: "removeAll r (tmlists k (CheckingTimers h)) = []"
    and k3: "kok (Suc n) k3" "timers k3 = timers k" "rt_tick k3 = rt_tick k" "rt_scheduler_lock_nest k3 = m"
      "tmlists k3 = (if stop then \<lambda>l. removeAll r (tmlists (timer_fire_begin h r k) l) else tmlists (timer_fire_begin h r k))"
      "objects k3 = (objects (timer_fire_begin h r k))(OTimer r := (objects (timer_fire_begin h r k) (OTimer r))
         \<lparr>ob_flag := if stop then tm_flag (timer_fire_begin h r k) r AND - 2 else tm_flag (timer_fire_begin h r k) r\<rparr>)"
    and s: "\<And>t. thread_suspended k3 t \<longleftrightarrow> thread_suspended k t \<and> r \<noteq> ThreadTimer t"
    and th: "\<And>t. (threads k3 t)\<lparr>th_stat := 0\<rparr> = (if r = ThreadTimer t then (threads k t)\<lparr>th_error := - 2, th_stat := 0\<rparr>
        else (threads k t)\<lparr>th_stat := 0\<rparr>)"
    and k': "k' = timer_fire_end h r (rt_enter_critical k3)" and S: "r \<in> S \<longleftrightarrow> stop"
  shows "check_inv b m n h k' \<and> fired S h r k k'"
proof -
  define k4 where "k4 = rt_enter_critical k3"
  note F1 = fire_begin_fields [of h r k]
  have wf: "timer_wf b k r" and d: "distinct (r # ts)" and srt: "timers_sorted b (due k) (r # ts)"
    using inv l by (simp_all add: check_inv_def)
  have l4: "tmlists k4 h = ts" "tmlists k4 (CheckingTimers h) = (if stop then [] else [r])"
    using d ck by (simp_all add: k4_def k3 F1 l)
  have nin: "r \<notin> set (tmlists k4 h)" using d l4 by simp
  have k'4: "k' = timer_fire_end h r k4" by (simp add: k' k4_def)
  let ?f = "tm_flag k r" and ?P = "tm_flag k r AND RT_TIMER_FLAG_PERIODIC \<noteq> 0 \<and> \<not> stop"
  have f4: "tm_flag k4 r = (if stop then ((if ?f AND 4 = 0 then ?f AND - 2 else ?f) OR 2) AND - 2
       else (if ?f AND 4 = 0 then ?f AND - 2 else ?f) OR 2)" by (simp add: k4_def k3 F1)
  have fl: "?f AND 1 \<noteq> 0" "?f AND 2 = 0" using wf by (simp_all add: timer_wf_def)
  have restart: "(tm_flag k4 r AND 4 \<noteq> 0 \<and> tm_flag k4 r AND 1 \<noteq> 0) \<longleftrightarrow> ?P"
    using fl by (auto simp: f4)
  have t4: "timers k4 = timers k" "rt_tick k4 = rt_tick k" "threads k4 = threads k3" by (simp_all add: k4_def k3)
  have F4: "threads k' = threads k4" "sched_view k' = sched_view k4" "rt_tick k' = rt_tick k4"
    "rt_scheduler_lock_nest k' = rt_scheduler_lock_nest k4"
    "?P \<Longrightarrow> timers k' = (timers k4)(r := (timers k4 r)\<lparr>tm_timeout_tick := rt_tick k4 + tm_init_tick (timers k4 r)\<rparr>) \<and>
       objects k' = (objects k4)(OTimer r := (objects k4 (OTimer r))\<lparr>ob_flag := ((((tm_flag k4 r AND - 3) AND - 2) AND - 2) OR 1)\<rparr>) \<and>
       tmlists k' h = timer_insert (due k') r (tmlists k4 h)"
    "\<not> ?P \<Longrightarrow> timers k' = timers k4 \<and>
       objects k' = (objects k4)(OTimer r := (objects k4 (OTimer r))\<lparr>ob_flag := tm_flag k4 r AND - 3\<rparr>) \<and>
       tmlists k' h = tmlists k4 h"
    using fire_end_fields [OF _ k'4 nin, of "[]"] fire_end_stopped [of k4 h r] l4(2) restart
    by (cases stop; simp add: sched_view_def k'4 upd_defs)+
  obtain f' where o: "objects k' = (objects k4)(OTimer r := (objects k4 (OTimer r))\<lparr>ob_flag := f'\<rparr>)"
    "f' AND 2 = 0" "f' AND 4 = ?f AND 4" "if ?P then f' AND 1 \<noteq> 0 else f' AND 1 = 0"
    using F4(5,6) by (cases ?P) (auto simp: f4)
  have ob: "objects k' x = objects k x" if "x \<noteq> OTimer r" for x using that by (simp add: o(1) k4_def k3 F1)
  have kk: "kok n k'"
  proof -
    let ?t0 = "case r of ThreadTimer t \<Rightarrow> t | TimerObj _ \<Rightarrow> 0"
    have k4: "kok n k4" using kok_enter [OF k3(1)] by (simp add: k4_def)
    show ?thesis
    proof (rule flag_change_kok(2) [where n' = n, OF kok_kok_but [OF k4, where t = ?t0] o(1)])
      show "sched_view k' = sched_view k4" by (rule F4(2))
      show "unat (rt_scheduler_lock_nest k') + n < 0x8000" using k4 F4(4) by (simp add: kok_def nest_room_def)
      show "(\<exists>i. r = TimerObj i) \<or> \<not> thread_suspended k4 ?t0"
        using s by (cases r) (simp_all add: thread_suspended_def t4)
    qed (use F4(1) k4 in \<open>cases r; simp\<close>)+
  qed
  have susp: "thread_suspended k' t \<longleftrightarrow> thread_suspended k t \<and> r \<noteq> ThreadTimer t" for t
    using s [of t] by (simp add: thread_suspended_def F4(1) t4)
  have rec: "(threads k' t)\<lparr>th_stat := 0\<rparr> = (if r = ThreadTimer t then (threads k t)\<lparr>th_error := - 2, th_stat := 0\<rparr>
        else (threads k t)\<lparr>th_stat := 0\<rparr>)" for t
    using th [of t] by (simp add: F4(1) t4)
  have tm: "timers k' r' = timers k r'" if "r' \<noteq> r" for r'
    using F4(5,6) that by (cases ?P) (auto simp: t4)
  have tick: "rt_tick k' = rt_tick k" by (simp add: F4(3) t4)
  have ws: "\<forall>r' \<in> set ts. timer_wf b k' r'"
  proof
    fix r' assume r': "r' \<in> set ts"
    then have ne: "r' \<noteq> r" using d by auto
    show "timer_wf b k' r'"
      by (rule timer_wf_other [of b k]) (use inv l r' ne tm ob tick susp in \<open>auto simp: check_inv_def\<close>)
  qed
  have dt: "due k' t = due k t" if "t \<in> set ts" for t
    using tm [of t] d that by (cases "t = r") auto
  then have du: "map (\<lambda>t. tick_after b (due k' t)) ts = map (\<lambda>t. tick_after b (due k t)) ts"
    "\<forall>t \<in> set ts. due k' t = due k t"
    by (simp_all cong: map_cong)
  have st: "timers_sorted b (due k') ts"
    using srt du(2) unfolding timers_sorted_def du(1) by (auto simp: timers_sorted_def)
  have base: "kok n k'" "rt_scheduler_lock_nest k' = m + 1" "unat m + Suc n < 0x8000" "in_window b (rt_tick k')"
    using kk inv F4(4) by (simp_all add: k4_def k3 check_inv_def tick)
  show ?thesis
  proof (cases ?P)
    case True
    have nt: "timers k' r = (timers k r)\<lparr>tm_timeout_tick := rt_tick k + tm_init_tick (timers k r)\<rparr>"
      "tmlists k' h = timer_insert (due k') r ts"
      using F4(5) [OF True] by (simp_all add: t4 l4)
    have w: "tm_init_tick (timers k r) \<noteq> 0" "tm_init_tick (timers k r) < 0x7fffffff"
      "in_window b (rt_tick k + tm_init_tick (timers k r))" using wf True by (simp_all add: timer_wf_def)
    have "timer_wf b k' r"
      using wf True o ob susp w by (auto simp: timer_wf_def nt tick split: timeout_fn.splits)
    moreover have "timers_sorted b (due k') (timer_insert (due k') r ts)"
      by (rule timer_insert_sorted [OF st]) (use w(3) nt in simp)
    moreover have "\<not> expired k' r"
      using restarted_not_expired [OF w(1,2)] by (simp add: expired_def rt_tick_get_def nt tick half_range)
    moreover have "timer_active k' r" using o(1,4) True by (simp add: timer_active_def)
    ultimately show ?thesis
      using base ws d l True tm ob susp rec tick nt(2) S distinct_timer_insert [of ts r "due k'"]
      by (simp add: check_inv_def fired_def)
  next
    case False
    have "tmlists k' h = ts" using F4(6) [OF False] by (simp add: l4)
    moreover have "\<not> timer_active k' r" using o(1,4) False by (simp add: timer_active_def)
    ultimately show ?thesis
      using base ws d l False tm ob susp rec tick st S by (simp add: check_inv_def fired_def)
  qed
qed

lemma set_error_twice:
  "(th::rt_thread)\<lparr>th_stat := 0\<rparr> = th'\<lparr>th_stat := 0\<rparr> \<Longrightarrow> th\<lparr>th_error := e, th_stat := 0\<rparr> = th'\<lparr>th_error := e, th_stat := 0\<rparr>"
  by (cases th; cases th') simp

text \<open>Up to the call of the timeout function.\<close>

lemma fire_begin_wp:
  assumes inv: "check_inv b m n h k" and l: "tmlists k h = r # ts"
    and Q: "\<And>k2 t0. r = ThreadTimer t0 \<or> (\<exists>i. r = TimerObj i) \<Longrightarrow> kok_but (Suc n) t0 k2 \<Longrightarrow>
       (\<And>f. tm_timeout_func (timers k r) = UserTimeout f \<Longrightarrow> kok (Suc n) k2) \<Longrightarrow>
       sched_only ((timer_fire_begin h r k)\<lparr>rt_scheduler_lock_nest := m\<rparr>) k2 \<Longrightarrow> Q k2"
  shows "wp (rt_exit_critical (timer_fire_begin h r k)) Q"
proof -
  define k1 where "k1 = timer_fire_begin h r k"
  let ?k1 = "k1\<lparr>rt_scheduler_lock_nest := m\<rparr>" and ?t0 = "case r of ThreadTimer t \<Rightarrow> t | TimerObj _ \<Rightarrow> 0"
  note F1 = fire_begin_fields [of h r k, folded k1_def]
  have wf: "timer_wf b k r" and room: "unat m + Suc n < 0x8000" and k: "kok n k"
    using inv l by (simp_all add: check_inv_def)
  have i1: "kinv k1" using k by (subst kinv_cong [of _ k]) (auto simp: F1 sched_view_def kok_def)
  have rt: "r = ThreadTimer ?t0 \<or> (\<exists>i. r = TimerObj i)" by (cases r) auto
  have o1: "objects ?k1 = (objects k)(OTimer r := (objects k (OTimer r))\<lparr>ob_flag := tm_flag k1 r\<rparr>)" by (simp add: F1)
  have v: "threads ?k1 = threads k" "sched_view ?k1 = sched_view k"
    "unat (rt_scheduler_lock_nest ?k1) + Suc n < 0x8000" using room by (simp_all add: F1 sched_view_def)
  note B = flag_change_kok [OF kok_kok_but [OF k, where t = ?t0] o1 v rt]
  show ?thesis
    unfolding k1_def [symmetric]
  proof (rule exit_section_wp [OF i1, where n = m])
    fix k2 assume k2: "kinv k2" "sched_only ?k1 k2"
    show "Q k2"
    proof (rule Q [OF rt kok_but_sched_only [OF B(1) k2(2,1)]])
      show "kok (Suc n) k2" if "tm_timeout_func (timers k r) = UserTimeout f" for f
        by (rule kok_sched_only [OF B(2) [OF _ k] k2(2,1)]) (use that wf in \<open>simp add: timer_wf_def\<close>)
    qed (use k2(2) in \<open>simp add: k1_def\<close>)
  qed (use inv room in \<open>simp_all add: F1 check_inv_def sint_u16_nonneg\<close>)
qed

text \<open>An iteration on a due thread timer: the thread is woken with \<^verbatim>\<open>-RT_ETIMEOUT\<close>.\<close>

lemma fire_thread_wp:
  assumes inv: "check_inv b m n h k" and l: "tmlists k h = r # ts" and ck: "removeAll r (tmlists k (CheckingTimers h)) = []"
    and f: "tm_timeout_func (timers k r) = ThreadTimeout" and S: "r \<notin> S"
    and Q: "\<And>k'. check_inv b m n h k' \<Longrightarrow> fired S h r k k' \<Longrightarrow> tmlists k' (CheckingTimers h) = [] \<Longrightarrow> Q k'"
  shows "wp (rt_exit_critical (timer_fire_begin h r k))
     (\<lambda>k2. wp (call_timeout cb r k2) (\<lambda>k3. Q (timer_fire_end h r (rt_enter_critical k3))))"
proof (rule fire_begin_wp [OF inv l])
  fix k2 t0 assume t0: "r = ThreadTimer t0 \<or> (\<exists>i. r = TimerObj i)" and b2: "kok_but (Suc n) t0 k2"
    and so: "sched_only ((timer_fire_begin h r k)\<lparr>rt_scheduler_lock_nest := m\<rparr>) k2"
  note F1 = fire_begin_fields [of h r k] and f2 = same_but_schedD [OF sched_onlyD(1) [OF so]]
  have wf: "timer_wf b k r" using inv l by (simp add: check_inv_def)
  have r: "r = ThreadTimer t0" "tm_parameter (timers k r) = t0" and T: "thread_suspended k t0"
    "rt_object_get_type (OThread t0) k = RT_Object_Class_Thread" "tm_flag k r AND RT_TIMER_FLAG_PERIODIC = 0"
    using wf t0 f by (auto simp: timer_wf_def)
  have s2: "thread_suspended k2 t = thread_suspended k t" for t
    using sched_onlyD(4) [OF so, of t] by (simp add: thread_suspended_def F1)
  have th2: "(threads k2 t)\<lparr>th_stat := 0\<rparr> = (threads k t)\<lparr>th_stat := 0\<rparr>" for t
    using so by (simp add: sched_only_def F1)
  have "wp (thread_timeout t0 k2) (\<lambda>k3. Q (timer_fire_end h r (rt_enter_critical k3)))"
  proof (rule thread_timeout_wp [OF b2])
    fix k3
    assume a: "kok (Suc n) k3" "\<not> thread_suspended k3 t0" "same_ipc k2 k3"
      "objects k3 = objects k2" "timers k3 = timers k2" "tmlists k3 = tmlists k2"
      "\<And>t'. t' \<noteq> t0 \<Longrightarrow> thread_suspended k3 t' = thread_suspended k2 t'"
      and th: "\<And>t'. (threads k3 t')\<lparr>th_stat := 0\<rparr> = (if t' = t0 then (threads k2 t0)\<lparr>th_error := - 2, th_stat := 0\<rparr>
          else (threads k2 t')\<lparr>th_stat := 0\<rparr>)"
    have "(threads k2 t0)\<lparr>th_error := - 2, th_stat := 0\<rparr> = (threads k t0)\<lparr>th_error := - 2, th_stat := 0\<rparr>"
      by (rule set_error_twice [OF th2])
    then have th3: "(threads k3 t)\<lparr>th_stat := 0\<rparr> = (if r = ThreadTimer t then (threads k t)\<lparr>th_error := - 2, th_stat := 0\<rparr>
        else (threads k t)\<lparr>th_stat := 0\<rparr>)" for t using th [of t] th2 [of t] r(1) by auto
    have s3: "thread_suspended k3 t \<longleftrightarrow> thread_suspended k t \<and> r \<noteq> ThreadTimer t" for t
      using a(2) a(7) [of t] s2 [of t] r(1) by (cases "t = t0") auto
    have lk: "tmlists k3 = tmlists (timer_fire_begin h r k)" by (simp add: a f2)
    have "check_inv b m n h (timer_fire_end h r (rt_enter_critical k3)) \<and> fired S h r k (timer_fire_end h r (rt_enter_critical k3))"
      by (rule fire_end_inv [OF inv l ck a(1) _ _ _ _ _ s3 th3 refl, where stop = False])
        (use a(3) S in \<open>simp_all add: lk a(4,5) f2 F1 same_ipc_def\<close>)
    moreover have "tm_flag k3 r AND RT_TIMER_FLAG_PERIODIC = 0" using T(3) by (simp add: a(4) f2 F1)
    then have "tmlists (timer_fire_end h r (rt_enter_critical k3)) (CheckingTimers h) = []"
      using ck by (simp add: timer_fire_end_def Let_def upd_defs tmlist_remove_def lk F1)
    ultimately show "Q (timer_fire_end h r (rt_enter_critical k3))" using Q by blast
  qed (use T s2 r(1) in \<open>simp_all add: rt_object_get_type_def f2 fire_begin_fields\<close>)
  then show "wp (call_timeout cb r k2) (\<lambda>k3. Q (timer_fire_end h r (rt_enter_critical k3)))"
    using f r(2) by (simp add: call_timeout_def f2 F1)
qed

lemma expired_cong: "rt_tick k' = rt_tick k \<Longrightarrow> timers k' r = timers k r \<Longrightarrow> expired k' r = expired k r"
  by (simp add: expired_def rt_tick_get_def)

text \<open>Firing one due timer leaves one due timer less in the list.\<close>

lemma fired_count:
  assumes f: "fired S h r k k'" and l: "tmlists k h = r # ts" and d: "distinct (r # ts)" and e: "expired k r"
  shows "length (filter (expired k') (tmlists k' h)) < length (filter (expired k) (tmlists k h))"
proof -
  have same: "expired k' r' = expired k r'" if "r' \<in> set ts" for r'
    using f d that by (intro expired_cong) (auto simp: fired_def)
  have ts: "filter (expired k') ts = filter (expired k) ts" using same by (auto intro: filter_cong)
  have "filter (expired k') (tmlists k' h) = filter (expired k) ts"
  proof (cases "tm_flag k r AND RT_TIMER_FLAG_PERIODIC \<noteq> 0 \<and> r \<notin> S")
    case True
    then have "tmlists k' h = timer_insert (due k') r ts" "\<not> expired k' r"
      using f d l by (simp_all add: fired_def)
    moreover have "filter P (timer_insert tick r ts) = filter P ts" if "\<not> P r" for P tick
      using that by (induction ts) auto
    ultimately show ?thesis using ts by simp
  next
    case False
    then show ?thesis using f d l ts by (simp add: fired_def)
  qed
  then show ?thesis using l e by simp
qed

text \<open>What a pass over the list \<open>h\<close> from \<open>k\<close> to \<open>k'\<close> has done, when the timers of \<open>S\<close> have been stopped by
  their own timeout function.\<close>

definition checked :: "timer_ref set \<Rightarrow> tmlist \<Rightarrow> kernel \<Rightarrow> kernel \<Rightarrow> bool" where
  "checked S h k k' \<longleftrightarrow> rt_tick k' = rt_tick k \<and>
     (\<forall>r \<in> set (tmlists k' h). \<not> expired k' r) \<and>
     (\<forall>r \<in> set (tmlists k h).
        if expired k r \<and> (tm_flag k r AND RT_TIMER_FLAG_PERIODIC = 0 \<or> r \<in> S)
        then r \<notin> set (tmlists k' h) \<and> \<not> timer_active k' r
        else r \<in> set (tmlists k' h) \<and> timer_active k' r) \<and>
     (\<forall>r. r \<notin> set (tmlists k h) \<longrightarrow> r \<notin> set (tmlists k' h) \<and> objects k' (OTimer r) = objects k (OTimer r)) \<and>
     (\<forall>t. thread_suspended k' t \<longleftrightarrow> thread_suspended k t \<and>
        \<not> (ThreadTimer t \<in> set (tmlists k h) \<and> expired k (ThreadTimer t))) \<and>
     (\<forall>t. (threads k' t)\<lparr>th_stat := 0\<rparr> = (if ThreadTimer t \<in> set (tmlists k h) \<and> expired k (ThreadTimer t)
        then (threads k t)\<lparr>th_error := - RT_ETIMEOUT, th_stat := 0\<rparr> else (threads k t)\<lparr>th_stat := 0\<rparr>))"

lemma checked_step:
  assumes f: "fired S h r k k1" and l: "tmlists k h = r # ts" and d: "distinct (r # ts)" and e: "expired k r"
    and wf: "\<And>t. r = ThreadTimer t \<Longrightarrow> tm_flag k r AND RT_TIMER_FLAG_PERIODIC = 0" and c: "checked S h k1 k'"
  shows "checked S h k k'"
proof -
  have tick: "rt_tick k1 = rt_tick k" using f by (simp add: fired_def)
  have same: "expired k1 r' = expired k r'" "objects k1 (OTimer r') = objects k (OTimer r')" if "r' \<noteq> r" for r'
    using f that by (auto simp: fired_def intro!: expired_cong)
  let ?A = "tm_flag k r AND RT_TIMER_FLAG_PERIODIC \<noteq> 0 \<and> r \<notin> S"
  have mem: "r' \<in> set (tmlists k1 h) \<longleftrightarrow> r' \<in> set ts \<or> r' = r \<and> ?A" for r'
    using f d l by (cases ?A) (auto simp: fired_def)
  have rr: "if ?A then r \<in> set (tmlists k' h) \<and> timer_active k' r else r \<notin> set (tmlists k' h) \<and> \<not> timer_active k' r"
  proof (cases ?A)
    case False
    then have "r \<notin> set (tmlists k1 h)" "\<not> timer_active k1 r" using mem [of r] d f by (auto simp: fired_def)
    then show ?thesis using False c by (auto simp: checked_def timer_active_def)
  next
    case True
    then have "r \<in> set (tmlists k1 h)" "\<not> expired k1 r" using mem [of r] f by (auto simp: fired_def)
    then show ?thesis using True c by (simp add: checked_def)
  qed
  have oth: "if expired k r' \<and> (tm_flag k r' AND RT_TIMER_FLAG_PERIODIC = 0 \<or> r' \<in> S)
      then r' \<notin> set (tmlists k' h) \<and> \<not> timer_active k' r' else r' \<in> set (tmlists k' h) \<and> timer_active k' r'"
    if "r' \<in> set ts" for r'
  proof -
    have ne: "r' \<noteq> r" using that d by auto
    then show ?thesis using c mem [of r'] that same [OF ne] by (auto simp: checked_def)
  qed
  have out: "r' \<notin> set (tmlists k' h) \<and> objects k' (OTimer r') = objects k (OTimer r')"
    if "r' \<notin> set (tmlists k h)" for r'
    using that l c mem [of r'] same(2) [of r'] by (auto simp: checked_def)
  have su: "thread_suspended k' t \<longleftrightarrow> thread_suspended k t \<and>
      \<not> (ThreadTimer t \<in> set (tmlists k h) \<and> expired k (ThreadTimer t))"
    and re: "(threads k' t)\<lparr>th_stat := 0\<rparr> = (if ThreadTimer t \<in> set (tmlists k h) \<and> expired k (ThreadTimer t)
        then (threads k t)\<lparr>th_error := - RT_ETIMEOUT, th_stat := 0\<rparr> else (threads k t)\<lparr>th_stat := 0\<rparr>)" for t
  proof -
    have c2: "thread_suspended k' t \<longleftrightarrow> thread_suspended k1 t \<and>
        \<not> (ThreadTimer t \<in> set (tmlists k1 h) \<and> expired k1 (ThreadTimer t))"
      "(threads k' t)\<lparr>th_stat := 0\<rparr> = (if ThreadTimer t \<in> set (tmlists k1 h) \<and> expired k1 (ThreadTimer t)
        then (threads k1 t)\<lparr>th_error := - RT_ETIMEOUT, th_stat := 0\<rparr> else (threads k1 t)\<lparr>th_stat := 0\<rparr>)"
      using c unfolding checked_def by blast+
    have f2: "thread_suspended k1 t \<longleftrightarrow> thread_suspended k t \<and> r \<noteq> ThreadTimer t"
      "(threads k1 t)\<lparr>th_stat := 0\<rparr> = (if r = ThreadTimer t then (threads k t)\<lparr>th_error := - RT_ETIMEOUT, th_stat := 0\<rparr>
        else (threads k t)\<lparr>th_stat := 0\<rparr>)"
      using f unfolding fired_def by blast+
    have D: "ThreadTimer t \<in> set (tmlists k1 h) \<and> expired k1 (ThreadTimer t) \<longleftrightarrow>
        r \<noteq> ThreadTimer t \<and> ThreadTimer t \<in> set ts \<and> expired k (ThreadTimer t)"
      using mem [of "ThreadTimer t"] same(1) [of "ThreadTimer t"] wf [of t] d by auto
    have E: "ThreadTimer t \<in> set (tmlists k h) \<and> expired k (ThreadTimer t) \<longleftrightarrow>
        r = ThreadTimer t \<or> ThreadTimer t \<in> set ts \<and> expired k (ThreadTimer t)" using e l by auto
    show "thread_suspended k' t \<longleftrightarrow> thread_suspended k t \<and>
      \<not> (ThreadTimer t \<in> set (tmlists k h) \<and> expired k (ThreadTimer t))"
      unfolding c2(1) f2(1) D E by blast
    show "(threads k' t)\<lparr>th_stat := 0\<rparr> = (if ThreadTimer t \<in> set (tmlists k h) \<and> expired k (ThreadTimer t)
        then (threads k t)\<lparr>th_error := - RT_ETIMEOUT, th_stat := 0\<rparr> else (threads k t)\<lparr>th_stat := 0\<rparr>)"
      unfolding c2(2) D E using f2(2) set_error_twice [of "threads k1 t" "threads k t"] by (auto split: if_splits)
  qed
  show ?thesis
    unfolding checked_def
  proof (intro conjI)
    show "\<forall>r\<in>set (tmlists k h). if expired k r \<and> (tm_flag k r AND RT_TIMER_FLAG_PERIODIC = 0 \<or> r \<in> S)
        then r \<notin> set (tmlists k' h) \<and> \<not> timer_active k' r else r \<in> set (tmlists k' h) \<and> timer_active k' r"
      using rr oth e by (auto simp: l)
  qed (use c tick out su re in \<open>simp_all add: checked_def\<close>)
qed

text \<open>The loop when the timers that are due are thread timers.\<close>

abbreviation (input) due_threads :: "tmlist \<Rightarrow> kernel \<Rightarrow> bool" where
  "due_threads h k \<equiv> \<forall>r \<in> set (tmlists k h). expired k r \<longrightarrow> tm_timeout_func (timers k r) = ThreadTimeout"

lemma due_threads_fired:
  assumes "fired S h r k k1" "tmlists k h = r # ts" "distinct (r # ts)"
    "\<forall>r' \<in> set ts. expired k r' \<longrightarrow> tm_timeout_func (timers k r') = ThreadTimeout"
  shows "due_threads h k1"
proof
  fix r' assume r': "r' \<in> set (tmlists k1 h)"
  show "expired k1 r' \<longrightarrow> tm_timeout_func (timers k1 r') = ThreadTimeout"
  proof (cases "r' = r")
    case True
    then show ?thesis using assms r' by (auto simp: fired_def split: if_splits)
  next
    case False
    then have "r' \<in> set ts" "timers k1 r' = timers k r'" "expired k1 r' = expired k r'"
      using assms r' by (auto simp: fired_def split: if_splits intro!: expired_cong)
    then show ?thesis using assms(4) by simp
  qed
qed

lemma check_loop_wp:
  assumes "check_inv b m n h k" "tmlists k (CheckingTimers h) = []" "due_threads h k"
    "\<And>t. ThreadTimer t \<notin> S"
  shows "wp (timer_check_loop cb h k) (\<lambda>k'. check_inv b m n h k' \<and> checked S h k k')"
  using assms(1-3)
proof (induction "length (filter (expired k) (tmlists k h))" arbitrary: k rule: less_induct)
  case less
  note inv = less(2)
  have act: "timer_active k r" if "r \<in> set (tmlists k h)" for r
    using inv that by (auto simp: check_inv_def timer_wf_def timer_active_def)
  show ?case
  proof (cases "tmlists k h")
    case Nil
    then show ?thesis using inv
      by (subst timer_check_loop.simps) (simp add: checked_def)
  next
    case (Cons r ts)
    have d: "distinct (r # ts)" and wf: "timer_wf b k r" using inv by (simp_all add: check_inv_def Cons)
    show ?thesis
    proof (cases "expired k r")
      case False
      have "\<not> expired k r'" if "r' \<in> set (r # ts)" for r'
        using head_not_expired [of b k r ts r'] inv False that by (simp add: check_inv_def Cons)
      then show ?thesis using False inv act
        by (subst timer_check_loop.simps) (auto simp: checked_def Cons)
    next
      case True
      have f: "tm_timeout_func (timers k r) = ThreadTimeout" using less(4) True Cons by simp
      then have rt: "r = ThreadTimer (tm_parameter (timers k r))" "tm_flag k r AND RT_TIMER_FLAG_PERIODIC = 0"
        using wf by (simp_all add: timer_wf_def)
      then have rS: "r \<notin> S" using assms(4) by metis
      have "wp (rt_exit_critical (timer_fire_begin h r k))
         (\<lambda>k2. wp (call_timeout cb r k2)
            (\<lambda>k3. wp (timer_check_loop cb h (timer_fire_end h r (rt_enter_critical k3)))
               (\<lambda>k'. check_inv b m n h k' \<and> checked S h k k')))"
      proof (rule fire_thread_wp [OF inv Cons _ f rS])
        fix k1 assume k1: "check_inv b m n h k1" "fired S h r k k1" "tmlists k1 (CheckingTimers h) = []"
        have "due_threads h k1" by (rule due_threads_fired [OF k1(2) Cons d]) (use less(4) Cons in simp)
        then have "wp (timer_check_loop cb h k1) (\<lambda>k'. check_inv b m n h k' \<and> checked S h k1 k')"
          by (rule less(1) [OF fired_count [OF k1(2) Cons d True] k1(1,3)])
        then show "wp (timer_check_loop cb h k1) (\<lambda>k'. check_inv b m n h k' \<and> checked S h k k')"
          using checked_step [OF k1(2) Cons d True rt(2)] by (auto elim: wp_mono)
      qed (use less(3) in simp)
      then show ?thesis using True
        by (subst timer_check_loop.simps) (simp add: Cons spin_defs)
    qed
  qed
qed

text \<open>The whole pass: where it starts and where it ends.\<close>

definition check_start :: "tmlist \<Rightarrow> kernel \<Rightarrow> kernel" where
  "check_start h k = (rt_enter_critical k)\<lparr>tmlists := (tmlists k)(CheckingTimers h := [])\<rparr>"

lemma check_start_fields:
  "objects (check_start h k) = objects k" "timers (check_start h k) = timers k" "rt_tick (check_start h k) = rt_tick k"
  "tmlists (check_start h k) h = tmlists k h" "tmlists (check_start h k) (CheckingTimers h) = []"
  "threads (check_start h k) = threads k" "rt_scheduler_lock_nest (check_start h k) = rt_scheduler_lock_nest k + 1"
  "timer_wf b (check_start h k) r = timer_wf b k r" "expired (check_start h k) r = expired k r"
  "timer_active (check_start h k) r = timer_active k r" "thread_suspended (check_start h k) t = thread_suspended k t"
  "checked S h (check_start h k) k' = checked S h k k'"
proof -
  show f: "objects (check_start h k) = objects k" "timers (check_start h k) = timers k" "rt_tick (check_start h k) = rt_tick k"
    "tmlists (check_start h k) h = tmlists k h" "tmlists (check_start h k) (CheckingTimers h) = []"
    "threads (check_start h k) = threads k" "rt_scheduler_lock_nest (check_start h k) = rt_scheduler_lock_nest k + 1"
    by (simp_all add: check_start_def)
  show g: "timer_wf b (check_start h k) r = timer_wf b k r" "expired (check_start h k) r = expired k r"
    "timer_active (check_start h k) r = timer_active k r" "thread_suspended (check_start h k) t = thread_suspended k t" for r t
    by (auto simp: timer_wf_def expired_def rt_tick_get_def rt_object_get_type_def timer_active_def thread_suspended_def f
        split: timeout_fn.splits)
  show "checked S h (check_start h k) k' = checked S h k k'" by (simp add: checked_def f g)
qed

lemma check_start_inv:
  assumes k: "kok (Suc n) k" and w: "in_window b (rt_tick k)"
    and d: "distinct (tmlists k h)" and s: "timers_sorted b (due k) (tmlists k h)"
    and wf: "\<forall>r \<in> set (tmlists k h). timer_wf b k r"
  shows "check_inv b (rt_scheduler_lock_nest k) n h (check_start h k)"
proof -
  have "kok n (check_start h k)" using kok_enter [OF k] by (simp add: check_start_def)
  then show ?thesis using k w d s wf by (simp add: check_inv_def check_start_fields) (simp add: kok_def nest_room_def)
qed

lemma check_end_wp:
  assumes k2: "check_inv b m n h k2" "checked S h k k2"
  shows "wp (rt_exit_critical k2) (\<lambda>k'. kok (Suc n) k' \<and> checked S h k k')"
proof (rule kok_exit_wp [where m = m and n = "Suc n"])
  show "kok (Suc n) (k2\<lparr>rt_scheduler_lock_nest := m\<rparr>)"
    using k2 by (intro kok_nest_update) (auto simp: check_inv_def)
  show "rt_scheduler_lock_nest k2 = m + 1" using k2 by (simp add: check_inv_def)
  fix k' assume k': "kok (Suc n) k'" "sched_only (k2\<lparr>rt_scheduler_lock_nest := m\<rparr>) k'"
  note f' = same_but_schedD [OF sched_onlyD(1) [OF k'(2)]]
  have "thread_suspended k' t = thread_suspended k2 t" "(threads k' t)\<lparr>th_stat := 0\<rparr> = (threads k2 t)\<lparr>th_stat := 0\<rparr>" for t
    using k'(2) by (simp_all add: sched_only_def thread_suspended_def)
  moreover have "expired k' r = expired k2 r" "timer_active k' r = timer_active k2 r" for r
    by (simp_all add: f' expired_def rt_tick_get_def timer_active_def)
  ultimately show "kok (Suc n) k' \<and> checked S h k k'"
    using k2 k'(1) by (simp add: checked_def f')
qed

lemma timer_check_eq:
  "timer_check cb h k = timer_check_loop cb h (check_start h k) \<bind> rt_exit_critical"
  by (simp add: timer_check_def spin_defs check_start_def)

lemma timer_check_wp:
  assumes k: "kok (Suc n) k" and w: "in_window b (rt_tick k)"
    and d: "distinct (tmlists k h)" and s: "timers_sorted b (due k) (tmlists k h)"
    and wf: "\<forall>r \<in> set (tmlists k h). timer_wf b k r" and u: "due_threads h k"
  shows "wp (timer_check cb h k) (\<lambda>k'. kok (Suc n) k' \<and> checked {} h k k')"
proof -
  have "due_threads h (check_start h k)" using u by (simp add: check_start_fields)
  then have "wp (timer_check_loop cb h (check_start h k)) (\<lambda>k2. check_inv b (rt_scheduler_lock_nest k) n h k2 \<and> checked {} h k k2)"
    using check_loop_wp [OF check_start_inv [OF k w d s wf], where S = "{}"] by (simp add: check_start_fields)
  then show ?thesis by (auto simp: timer_check_eq elim!: wp_mono intro: check_end_wp)
qed

text \<open>A user timer at the head of the list: its timeout function is called, and what is done after it.\<close>

lemma timer_check_user:
  assumes k: "kok (Suc n) k" and w: "in_window b (rt_tick k)"
    and d: "distinct (tmlists k h)" and s: "timers_sorted b (due k) (tmlists k h)"
    and wf: "\<forall>r \<in> set (tmlists k h). timer_wf b k r"
    and l: "tmlists k h = r # ts" and e: "expired k r" and f: "tm_timeout_func (timers k r) = UserTimeout f"
  obtains k2 where "timeout_call n h r k k2"
    "timer_check cb h k = do { k3 \<leftarrow> cb f (tm_parameter (timers k r)) k2;
       k4 \<leftarrow> timer_check_loop cb h (timer_fire_end h r (rt_spin_lock_irqsave k3)); rt_spin_unlock_irqrestore k4 }"
    "\<And>k3 stop. cb f (tm_parameter (timers k r)) k2 = Some k3 \<Longrightarrow> callback_left n stop r k2 k3 \<Longrightarrow>
       \<forall>r' \<in> set ts. expired k r' \<longrightarrow> tm_timeout_func (timers k r') = ThreadTimeout \<Longrightarrow>
       wp (timer_check cb h k) (\<lambda>k'. kok (Suc n) k' \<and> checked (if stop then {r} else {}) h k k')"
proof -
  let ?m = "rt_scheduler_lock_nest k"
  define k1 where "k1 = check_start h k"
  note f1 = check_start_fields [where h = h and k = k, folded k1_def] and F1 = fire_begin_fields [of h r k1]
  have inv: "check_inv b ?m n h k1" unfolding k1_def by (rule check_start_inv [OF k w d s wf])
  have l1: "tmlists k1 h = r # ts" using l by (simp add: f1)
  obtain i where r: "r = TimerObj i" and fl: "tm_flag k r AND 1 \<noteq> 0"
    using wf l f by (auto simp: timer_wf_def)
  have "wp (rt_exit_critical (timer_fire_begin h r k1)) (\<lambda>k2. kok (Suc n) k2 \<and>
     sched_only ((timer_fire_begin h r k1)\<lparr>rt_scheduler_lock_nest := ?m\<rparr>) k2)"
    by (rule fire_begin_wp [OF inv l1]) (use f in \<open>auto simp: f1\<close>)
  then obtain k2 where k2: "rt_exit_critical (timer_fire_begin h r k1) = Some k2" "kok (Suc n) k2"
    "sched_only ((timer_fire_begin h r k1)\<lparr>rt_scheduler_lock_nest := ?m\<rparr>) k2" by (auto simp: wp_def split: option.splits)
  note f2 = same_but_schedD [OF sched_onlyD(1) [OF k2(3)]]
  have s2: "thread_suspended k2 t = thread_suspended k t" for t
    using sched_onlyD(4) [OF k2(3), of t] by (simp add: thread_suspended_def F1 f1)
  have th2: "(threads k2 t)\<lparr>th_stat := 0\<rparr> = (threads k t)\<lparr>th_stat := 0\<rparr>" for t
    using k2(3) by (simp add: sched_only_def F1 f1)
  have un: "rt_spin_unlock_irqrestore = rt_exit_critical" by (simp add: fun_eq_iff spin_defs)
  have call: "timeout_call n h r k k2"
    using k2(2) s2 fl by (simp add: timeout_call_def f2 F1 f1 timer_active_def)
  have eq: "timer_check cb h k = do { k3 \<leftarrow> cb f (tm_parameter (timers k r)) k2;
       k4 \<leftarrow> timer_check_loop cb h (timer_fire_end h r (rt_spin_lock_irqsave k3)); rt_spin_unlock_irqrestore k4 }"
    unfolding timer_check_eq k1_def [symmetric]
    by (subst timer_check_loop.simps) (use e f in \<open>simp add: l1 f1 un spin_defs k2(1) call_timeout_def f2 F1\<close>)
  have post: "wp (timer_check cb h k) (\<lambda>k'. kok (Suc n) k' \<and> checked (if stop then {r} else {}) h k k')"
    if c: "cb f (tm_parameter (timers k r)) k2 = Some k3" and k3: "callback_left n stop r k2 k3"
      and u: "\<forall>r' \<in> set ts. expired k r' \<longrightarrow> tm_timeout_func (timers k r') = ThreadTimeout" for k3 stop
  proof -
    let ?S = "if stop then {r} else {}" and ?k4 = "timer_fire_end h r (rt_enter_critical k3)"
    note K = k3 [unfolded callback_left_def]
    have "check_inv b ?m n h ?k4 \<and> fired ?S h r k1 ?k4"
    proof (rule fire_end_inv [OF inv l1 _ conjunct1 [OF K] _ _ _ _ _ _ _ refl, where stop = stop])
      show "objects k3 = (objects (timer_fire_begin h r k1))(OTimer r := (objects (timer_fire_begin h r k1) (OTimer r))
         \<lparr>ob_flag := if stop then tm_flag (timer_fire_begin h r k1) r AND - 2 else tm_flag (timer_fire_begin h r k1) r\<rparr>)"
        using K by (simp add: f2)
    qed (use K s2 th2 r in \<open>auto simp: f1 f2 fire_begin_fields\<close>)
    then have k4: "check_inv b ?m n h ?k4" "fired ?S h r k1 ?k4" by simp_all
    have d1: "distinct (r # ts)" using d l by simp
    have ck: "tmlists ?k4 (CheckingTimers h) = []"
    proof (cases stop)
      case True
      then show ?thesis using K by (simp add: fire_end_stopped upd_defs f2 F1 f1)
    next
      case False
      then show ?thesis using K by (simp add: timer_fire_end_def Let_def upd_defs tmlist_remove_def f2 F1 f1
        timer_start_def timer_remove_def)
    qed
    have "due_threads h ?k4" by (rule due_threads_fired [OF k4(2) l1 d1]) (use u in \<open>simp add: f1\<close>)
    then have "wp (timer_check_loop cb h ?k4) (\<lambda>k5. check_inv b ?m n h k5 \<and> checked ?S h ?k4 k5)"
      by (rule check_loop_wp [OF k4(1) ck]) (simp add: r)
    then have "wp (timer_check_loop cb h ?k4) (\<lambda>k5. check_inv b ?m n h k5 \<and> checked ?S h k k5)"
      using checked_step [OF k4(2) l1 d1] e r by (elim wp_mono) (simp add: f1)
    then show ?thesis
      unfolding eq c by (auto simp: spin_defs elim!: wp_mono intro: check_end_wp)
  qed
  show thesis by (rule that [OF call eq post])
qed

section \<open>Properties\<close>


definition sample_expiry :: kernel where
  "sample_expiry = sample_timers\<lparr>rt_tick := 5,
     objects := (\<lambda>r. zero_object\<lparr>ob_type := sample_type r, ob_flag := 1\<rparr>)\<rparr>"

lemma kok_sample_expiry: "kok 8 sample_expiry"
proof -
  have "kinv sample_expiry"
    using kinv_sample by (subst kinv_cong [of _ sample_kernel])
      (simp_all add: sample_expiry_def sample_timers_def sched_view_def)
  then show ?thesis
    by (auto simp: kok_def nest_room_def ttmr_ok_def sample_expiry_def sample_timers_def sample_kernel_def
        zero_kernel_def sample_thread_def zero_thread_def)
qed


end
