(* ===== verification/Blocking.thy ===== *)
theory Blocking
  imports Timer
begin

text \<open>
  What the blocking operations share. A call that blocks splits in two: the part up to the
  switch away from the calling thread, whose outcome is then \<open>Waiting\<close>, and the part that runs
  when the thread is scheduled again. The thread timer is set and started inside the critical
  section of the object, where the scheduler is locked.
\<close>

section \<open>Definitions\<close>

datatype 'a outcome = Returned 'a | Waiting

abbreviation (input) RT_WAITING_FOREVER :: u32 where "RT_WAITING_FOREVER \<equiv> 0xffffffff"
abbreviation (input) RT_WAITING_NO :: u32 where "RT_WAITING_NO \<equiv> 0"

text \<open>\<^verbatim>\<open>rt_timer_control(&thread->thread_timer, RT_TIMER_CTRL_SET_TIME, &timeout)\<close> followed by
  \<^verbatim>\<open>rt_timer_start\<close>.\<close>

definition start_thread_timer :: "tid \<Rightarrow> rt_tick_t \<Rightarrow> kernel \<Rightarrow> kernel option" where
  "start_thread_timer t timeout k = do {
     (_, _, k) \<leftarrow> rt_timer_control (ThreadTimer t) (RT_TIMER_CTRL_SET_TIME timeout) k;
     (_, k) \<leftarrow> rt_timer_start (ThreadTimer t) k;
     Some k
   }"

text \<open>The error code of the running thread. (In an interrupt, and before the first thread runs, it is kept in
  a variable that nothing modelled here reads.)\<close>

definition rt_set_errno :: "rt_err_t \<Rightarrow> kernel \<Rightarrow> kernel" where
  "rt_set_errno error k =
     (if rt_interrupt_get_nest k \<noteq> 0 then k
      else case rt_current_thread k of
        None \<Rightarrow> k
      | Some tid \<Rightarrow> upd_thread tid (\<lambda>th. th\<lparr>th_error := error\<rparr>) k)"

text \<open>The thread structure of \<open>t\<close> has been initialised by \<^verbatim>\<open>rt_thread_init\<close>.\<close>

definition tt_wf :: "kernel \<Rightarrow> tid \<Rightarrow> bool" where
  "tt_wf k t \<longleftrightarrow> rt_object_get_type (OThread t) k = RT_Object_Class_Thread \<and>
     rt_object_get_type (OTimer (ThreadTimer t)) k = RT_Object_Class_Timer \<and>
     tm_flag k (ThreadTimer t) AND RT_TIMER_FLAG_THREAD_TIMER \<noteq> 0 \<and>
     tm_flag k (ThreadTimer t) AND RT_TIMER_FLAG_SOFT_TIMER = 0 \<and>
     tm_flag k (ThreadTimer t) AND RT_TIMER_FLAG_PROCESSING = 0"

section \<open>Starting the thread timer\<close>

definition timer_set :: "tid \<Rightarrow> rt_tick_t \<Rightarrow> kernel \<Rightarrow> kernel" where
  "timer_set t timeout k = upd_timer (ThreadTimer t) (\<lambda>tm. tm\<lparr>tm_init_tick := timeout\<rparr>)
     (if timer_active k (ThreadTimer t) then clear_timer (ThreadTimer t) k else k)"

definition timer_started :: "tid \<Rightarrow> rt_tick_t \<Rightarrow> kernel \<Rightarrow> kernel" where
  "timer_started t timeout k =
     snd (timer_start HardTimers (ThreadTimer t) (rt_sched_thread_timer_start t (timer_set t timeout k)))"

lemma enter_nonzero: "kok (Suc n) k \<Longrightarrow> rt_scheduler_lock_nest (rt_enter_critical k) \<noteq> 0"
proof -
  assume k: "kok (Suc n) k"
  have "unat (rt_scheduler_lock_nest k + 1) = unat (rt_scheduler_lock_nest k) + 1"
    using k by (simp add: kok_def nest_room_def unat_word_ariths)
  then have "rt_scheduler_lock_nest k + 1 \<noteq> 0" by (metis add_is_0 one_neq_zero unat_0)
  then show ?thesis by simp
qed

lemma exit_enter_nested:
  "nest_ok k \<Longrightarrow> rt_scheduler_lock_nest k \<noteq> 0 \<Longrightarrow> rt_exit_critical (rt_enter_critical k) = Some k"
  using exit_nested [of "rt_enter_critical k" "rt_scheduler_lock_nest k"] by (simp add: nest_ok_def)

lemma flag_base [simp]:
  fixes f :: u8
  shows "(f AND - 2 OR 1) AND - 2 = f AND - 2"
  using and_or_keep [of 1 "- 2" 1 f] by (simp add: or.commute)

lemma timer_set_flags:
  "tm_flag (timer_set t timeout k) (ThreadTimer t) AND 2 = tm_flag k (ThreadTimer t) AND 2"
  "tm_flag (timer_set t timeout k) (ThreadTimer t) AND 8 = tm_flag k (ThreadTimer t) AND 8"
  "tm_flag (timer_set t timeout k) (ThreadTimer t) AND 16 = tm_flag k (ThreadTimer t) AND 16"
  "tm_flag (timer_set t timeout k) (ThreadTimer t) AND - 2 = tm_flag k (ThreadTimer t) AND - 2"
  by (simp_all add: timer_set_def clear_timer_def timer_remove_def tmlist_remove_def upd_defs)

lemma timer_set_fields:
  "threads (timer_set t timeout k) = threads k" "sched_view (timer_set t timeout k) = sched_view k"
  "rt_scheduler_lock_nest (timer_set t timeout k) = rt_scheduler_lock_nest k"
  "rt_current_thread (timer_set t timeout k) = rt_current_thread k"
  "tlists (timer_set t timeout k) = tlists k" "same_ipc k (timer_set t timeout k)"
  "rt_object_get_type r (timer_set t timeout k) = rt_object_get_type r k"
  "r \<noteq> OTimer (ThreadTimer t) \<Longrightarrow> objects (timer_set t timeout k) r = objects k r"
  "(objects (timer_set t timeout k) r)\<lparr>ob_flag := 0\<rparr> = (objects k r)\<lparr>ob_flag := 0\<rparr>"
  "rt_tick (timer_set t timeout k) = rt_tick k"
  "tm_init_tick (timers (timer_set t timeout k) (ThreadTimer t)) = timeout"
  by (auto simp: timer_set_def clear_timer_def timer_remove_def tmlist_remove_def upd_defs sched_view_def
      same_ipc_def rt_object_get_type_def)

lemma control_set_time_nested:
  assumes "nest_ok k" "rt_scheduler_lock_nest k \<noteq> 0" "tt_wf k t" "timeout < 0x7fffffff"
  shows "rt_timer_control (ThreadTimer t) (RT_TIMER_CTRL_SET_TIME timeout) k = Some (0, NoOut, timer_set t timeout k)"
proof -
  have e: "rt_exit_critical (rt_enter_critical (timer_set t timeout k)) = Some (timer_set t timeout k)"
    using assms(1,2) by (intro exit_enter_nested) (simp_all add: nest_ok_def timer_set_fields)
  show ?thesis
  proof (cases "timer_active k (ThreadTimer t)")
    case True
    then have "timer_set t timeout k = upd_timer (ThreadTimer t) (\<lambda>tm. tm\<lparr>tm_init_tick := timeout\<rparr>) (clear_timer (ThreadTimer t) k)"
      by (simp add: timer_set_def)
    with e True assms(3,4) show ?thesis
      by (simp add: rt_timer_control_def spin_defs tt_wf_def half_range Let_def timer_active_def clear_timer_enter enter_commute)
  next
    case False
    then have "timer_set t timeout k = upd_timer (ThreadTimer t) (\<lambda>tm. tm\<lparr>tm_init_tick := timeout\<rparr>) k"
      by (simp add: timer_set_def)
    with e False assms(3,4) show ?thesis
      by (simp add: rt_timer_control_def spin_defs tt_wf_def half_range Let_def timer_active_def enter_commute)
  qed
qed

lemma timer_started_fields:
  assumes "tt_wf k t"
  shows "threads (timer_started t timeout k) = (threads k)(t := (threads k t)\<lparr>th_ttmr_set := True\<rparr>)"
    "sched_view (timer_started t timeout k) = sched_view k"
    "rt_current_thread (timer_started t timeout k) = rt_current_thread k"
    "tlists (timer_started t timeout k) = tlists k" "same_ipc k (timer_started t timeout k)"
    "r \<noteq> OTimer (ThreadTimer t) \<Longrightarrow> objects (timer_started t timeout k) r = objects k r"
    "(objects (timer_started t timeout k) r)\<lparr>ob_flag := 0\<rparr> = (objects k r)\<lparr>ob_flag := 0\<rparr>"
    "timer_active (timer_started t timeout k) (ThreadTimer t)"
    "tm_flag (timer_started t timeout k) (ThreadTimer t) AND - 2 = tm_flag k (ThreadTimer t) AND - 2"
    "tm_timeout_tick (timers (timer_started t timeout k) (ThreadTimer t)) = rt_tick k + timeout"
    "ThreadTimer t \<in> set (tmlists (timer_started t timeout k) HardTimers)"
    "tm_flag (timer_started t timeout k) (ThreadTimer t) AND 8 = 0"
  using assms timer_set_flags [of t timeout k] timer_set_fields [where t = t and timeout = timeout and k = k]
  by (auto simp: timer_started_def timer_start_def Let_def tt_wf_def rt_sched_thread_timer_start_def upd_defs
      timer_remove_def tmlist_remove_def sched_view_def same_ipc_def rt_tick_get_def timer_active_def)

lemma start_thread_timer_nested:
  assumes n: "nest_ok k" "rt_scheduler_lock_nest k \<noteq> 0" and w: "tt_wf k t" and h: "timeout < 0x7fffffff"
  shows "start_thread_timer t timeout k = Some (timer_started t timeout k)"
proof -
  have e: "rt_exit_critical (rt_enter_critical (timer_started t timeout k)) = Some (timer_started t timeout k)"
    using n timer_started_fields(5) [OF w] by (intro exit_enter_nested) (simp_all add: nest_ok_def same_ipc_def)
  have c: "timer_start HardTimers (ThreadTimer t) (rt_enter_critical (rt_sched_thread_timer_start t (timer_set t timeout k)))
     = (0, rt_enter_critical (timer_started t timeout k))"
    using w timer_set_flags [of t timeout k]
    by (simp add: timer_started_def timer_start_def Let_def tt_wf_def rt_sched_thread_timer_start_def upd_defs
        timer_remove_def tmlist_remove_def rt_tick_get_def rt_enter_critical_def cong: if_cong)
  show ?thesis
    unfolding start_thread_timer_def control_set_time_nested [OF n w h]
    using w c e timer_set_flags [of t timeout k] timer_set_fields(7) [of _ t timeout k]
    by (simp add: rt_timer_start_def tt_wf_def spin_defs rt_sched_thread_timer_start_def upd_defs
        rt_object_get_type_def timer_started_fields(12) [OF w])
qed

lemma timer_started_kok:
  assumes k: "kok n k" and w: "tt_wf k t"
  shows "kok n (timer_started t timeout k)"
proof -
  let ?k = "timer_started t timeout k"
  note f = timer_started_fields [OF w, where timeout = timeout]
  have "kinv ?k = kinv k" by (rule kinv_cong) (simp_all add: f thread_view_def)
  moreover have "ttmr_ok ?k t'" for t'
    using kokD(3) [OF k, of t'] f(1,8) arg_cong [OF f(7) [of "OTimer (ThreadTimer t)"], of ob_type] w
      f(6) [of "OTimer (ThreadTimer t')"]
    by (cases "t' = t") (auto simp: ttmr_ok_def rt_object_get_type_def timer_active_def tt_wf_def thread_suspended_def)
  ultimately show ?thesis using k f(5) by (simp add: kok_def nest_room_def same_ipc_def)
qed

lemma timer_started_blocked:
  assumes b: "blocked t False l k0 k" and w: "tt_wf k t"
  shows "blocked t True l k0 (timer_started t timeout k)"
proof -
  let ?k = "timer_started t timeout k"
  note f = timer_started_fields [OF w, where timeout = timeout]
  have "(threads k t)\<lparr>th_stat := 0\<rparr> = (threads k0 t)\<lparr>th_ttmr_set := False, th_stat := 0\<rparr>"
    using b by (simp add: blocked_def)
  then have "(threads ?k t)\<lparr>th_stat := 0\<rparr> = (threads k0 t)\<lparr>th_ttmr_set := True, th_stat := 0\<rparr>"
    by (drule_tac arg_cong [where f = "\<lambda>th. th\<lparr>th_ttmr_set := True, th_stat := 0\<rparr>"]) (simp add: f(1))
  moreover have "thread_suspended ?k t' = thread_suspended k t'" for t' by (simp add: thread_suspended_def f(1))
  ultimately show ?thesis
    using b f(3-7,9) unfolding blocked_def same_ipc_def by (auto simp: f(1))
qed

lemma blocked_tt_wf: "blocked t b l k k' \<Longrightarrow> tt_wf k t \<Longrightarrow> tt_wf k' t"
proof -
  assume b: "blocked t b l k k'" and w: "tt_wf k t"
  have "(objects k' r)\<lparr>ob_flag := 0\<rparr> = (objects k r)\<lparr>ob_flag := 0\<rparr>" for r
    using b by (simp add: blocked_def)
  then have "ob_type (objects k' r) = ob_type (objects k r)" for r
    by (metis rt_object.select_convs(2) rt_object.surjective rt_object.update_convs(3))
  moreover have "tm_flag k' (ThreadTimer t) AND m = tm_flag k (ThreadTimer t) AND m" if "m AND - 2 = m" for m
  proof -
    have "tm_flag k' (ThreadTimer t) AND m = (tm_flag k' (ThreadTimer t) AND - 2) AND m"
      by (metis and.assoc and.commute that)
    also have "\<dots> = (tm_flag k (ThreadTimer t) AND - 2) AND m" using b by (simp add: blocked_def)
    also have "\<dots> = tm_flag k (ThreadTimer t) AND m" by (metis and.assoc and.commute that)
    finally show ?thesis .
  qed
  ultimately show ?thesis using w by (simp add: tt_wf_def rt_object_get_type_def)
qed

section \<open>Blocking inside a critical section\<close>

lemma schedule_away:
  assumes k: "kinv k" and c: "rt_current_thread k = Some c" and n: "rt_scheduler_lock_nest k = 0"
    and r: "th_code k t = RT_THREAD_READY" and s: "th_code k c \<noteq> RT_THREAD_RUNNING"
  shows "wp (rt_schedule k) (\<lambda>k'. rt_current_thread k' \<noteq> Some c)"
proof -
  have "t \<in> set (tlists k (ReadyL (th_prio k t)))" using k r by (simp add: kinv_def thread_ok_def)
  then have "bit (rt_thread_ready_priority_group k) (th_prio k t)"
    using k by (auto simp: kinv_def kglobal_def group_ok_def)
  then have g: "rt_thread_ready_priority_group k \<noteq> 0" by auto
  have nk: "\<not> keeps_cpu k c p" for p using s by (simp add: keeps_cpu_def)
  show ?thesis using k c
  proof (cases rule: schedule_runs)
    case (switch t p)
    then show ?thesis by simp
  qed (use g n nk in auto)
qed

lemma blocked_sched_only:
  assumes b: "blocked t b l (rt_enter_critical k) k2" and n: "rt_scheduler_lock_nest k = 0"
    and s: "sched_only (k2\<lparr>rt_scheduler_lock_nest := 0\<rparr>) k'"
  shows "blocked t b l k k'"
  using b n s unfolding blocked_def sched_only_def same_but_sched_def same_ipc_def
  by (auto simp: thread_suspended_def)

text \<open>Leaving the outermost section when the current thread is suspended: it loses the processor if any
  thread is ready.\<close>

lemma exit_away_wp:
  assumes k: "kok n k" "Suc n < 0x8000" and t: "rt_scheduler_lock_nest k = 1" "rt_current_thread k = Some t" "thread_suspended k t"
    and Q: "\<And>k'. kok (Suc n) k' \<Longrightarrow> sched_only (k\<lparr>rt_scheduler_lock_nest := 0\<rparr>) k' \<Longrightarrow>
       (\<And>t'. th_code k t' = RT_THREAD_READY \<Longrightarrow> rt_current_thread k' \<noteq> Some t) \<Longrightarrow> Q k'"
  shows "wp (rt_exit_critical k) Q"
proof -
  let ?k = "k\<lparr>rt_scheduler_lock_nest := 0\<rparr>"
  have kk: "kok (Suc n) ?k" using k(2) by (intro kok_nest_update [OF k(1)]) (simp_all add: t)
  note tot = schedule_total [OF kokD(1) [OF kk], of t]
  have "wp (rt_schedule ?k) (\<lambda>k'. (\<forall>t'. th_code k t' = RT_THREAD_READY \<longrightarrow> rt_current_thread k' \<noteq> Some t) \<and>
      kinv k' \<and> sched_only ?k k')"
  proof (cases "\<exists>t'. th_code k t' = RT_THREAD_READY")
    case True
    then have "wp (rt_schedule ?k) (\<lambda>k'. rt_current_thread k' \<noteq> Some t)"
      using kokD(1) [OF kk] t stat_not_suspended_code by (auto intro!: schedule_away simp: thread_suspended_def)
    then show ?thesis using tot t by (auto simp: wp_def)
  qed (use tot t in simp)
  then have "wp (rt_schedule ?k) Q" using Q kok_sched_only [OF kk] by (auto elim!: wp_mono)
  then show ?thesis using t by (simp add: rt_exit_critical_def Let_def)
qed

lemma block_exit_wp:
  assumes k: "kok (Suc n) k" and u: "rt_scheduler_lock_nest k = 0" and r: "th_code k t \<noteq> RT_THREAD_READY"
    and k2: "kok n k2" "blocked t b l (rt_enter_critical k) k2"
    and Q: "\<And>k'. kok (Suc n) k' \<Longrightarrow> blocked t b l k k' \<Longrightarrow>
       (\<And>t'. th_code k t' = RT_THREAD_READY \<Longrightarrow> rt_current_thread k' \<noteq> Some t) \<Longrightarrow>
       sched_only (k2\<lparr>rt_scheduler_lock_nest := 0\<rparr>) k' \<Longrightarrow> Q k'"
  shows "wp (rt_exit_critical k2) Q"
proof (rule exit_away_wp [OF k2(1)])
  show "Suc n < 0x8000" using k u by (simp add: kok_def nest_room_def)
  show "rt_scheduler_lock_nest k2 = 1" "rt_current_thread k2 = Some t" "thread_suspended k2 t"
    using k2(2) u by (simp_all add: blocked_def same_ipc_def)
  fix k' assume k': "kok (Suc n) k'" "sched_only (k2\<lparr>rt_scheduler_lock_nest := 0\<rparr>) k'"
    "\<And>t'. th_code k2 t' = RT_THREAD_READY \<Longrightarrow> rt_current_thread k' \<noteq> Some t"
  have "th_code k2 t' = RT_THREAD_READY" if "th_code k t' = RT_THREAD_READY" for t'
  proof -
    have "t' \<noteq> t" using that r by auto
    then show ?thesis using that k2(2) u by (simp add: blocked_def)
  qed
  then show "Q k'" using Q [OF k'(1) blocked_sched_only [OF k2(2) u k'(2)] _ k'(2)] k'(3) by blast
qed

text \<open>What the blocking calls do once the object is found unavailable: the current thread \<open>t\<close>
  is queued, its timer started if there is a timeout, and the section of the object left. The
  thread is then suspended and, if any thread is ready, no longer the current one.\<close>

lemma block_section_wp:
  assumes k: "kok (Suc n) k" and c: "rt_current_thread k = Some t" and r: "th_code k t = RT_THREAD_RUNNING"
    and u: "rt_scheduler_lock_nest k = 0" and w: "tt_wf k t"
    and h: "\<And>h. susp = Some h \<Longrightarrow> is_susp_list h \<and> (f = RT_IPC_FLAG_FIFO \<or> f = RT_IPC_FLAG_PRIO)"
    and to: "b \<Longrightarrow> timeout < 0x7fffffff"
    and Q: "\<And>k'. kok (Suc n) k' \<Longrightarrow> blocked t b (queued susp f t k) k k' \<Longrightarrow>
       (\<And>t'. th_code k t' = RT_THREAD_READY \<Longrightarrow> rt_current_thread k' \<noteq> Some t) \<Longrightarrow>
       (b \<Longrightarrow> timer_active k' (ThreadTimer t) \<and> tm_timeout_tick (timers k' (ThreadTimer t)) = rt_tick k + timeout) \<Longrightarrow> Q k'"
  shows "wp (rt_thread_suspend_to_list t susp f flag (rt_enter_critical k)) (\<lambda>(ret, k1). ret = RT_EOK \<and>
     wp (if b then start_thread_timer t timeout k1 else Some k1) (\<lambda>k2. wp (rt_exit_critical k2) Q))"
proof (rule suspend_to_list_wp [OF kok_enter [OF k] _ _ _ h])
  let ?e = "rt_enter_critical k"
  have q: "queued susp f t ?e = queued susp f t k" by (simp add: queued_def split: option.split)
  fix k1 assume k1: "kok n k1" "blocked t False (queued susp f t ?e) ?e k1"
  have n1: "rt_scheduler_lock_nest k1 = 1" using k1(2) u by (simp add: blocked_def same_ipc_def)
  have w1: "tt_wf k1 t" by (rule blocked_tt_wf [OF k1(2)]) (use w in \<open>simp add: tt_wf_def rt_object_get_type_def\<close>)
  have fin: "wp (rt_exit_critical k2) Q" if k2: "kok n k2" "blocked t b (queued susp f t k) ?e k2"
    "b \<Longrightarrow> timer_active k2 (ThreadTimer t) \<and> tm_timeout_tick (timers k2 (ThreadTimer t)) = rt_tick k + timeout" for k2
  proof (rule block_exit_wp [OF k u _ k2(1,2)])
    fix k' assume k': "kok (Suc n) k'" "blocked t b (queued susp f t k) k k'"
      "\<And>t'. th_code k t' = RT_THREAD_READY \<Longrightarrow> rt_current_thread k' \<noteq> Some t"
      "sched_only (k2\<lparr>rt_scheduler_lock_nest := 0\<rparr>) k'"
    show "Q k'"
      using k2(3) same_but_schedD [OF sched_onlyD(1) [OF k'(4)]]
      by (intro Q [OF k'(1,2,3)]) (simp_all add: timer_active_def)
  qed (use r in simp)
  have "wp (if b then start_thread_timer t timeout k1 else Some k1) (\<lambda>k2. wp (rt_exit_critical k2) Q)"
  proof (cases b)
    case True
    have "start_thread_timer t timeout k1 = Some (timer_started t timeout k1)"
      using kokD(2) [OF k1(1)] n1 w1 to [OF True] by (intro start_thread_timer_nested) simp_all
    moreover have "wp (rt_exit_critical (timer_started t timeout k1)) Q"
      using timer_started_kok [OF k1(1) w1] timer_started_blocked [OF k1(2) w1] True q k1(2) timer_started_fields(8,10) [OF w1]
      by (intro fin) (simp_all add: blocked_def same_ipc_def)
    ultimately show ?thesis using True by simp
  qed (use fin [OF k1(1)] k1(2) q in simp)
  then show "case (0, k1) of (ret, k1) \<Rightarrow> ret = 0 \<and> wp (if b then start_thread_timer t timeout k1 else Some k1) (\<lambda>k2. wp (rt_exit_critical k2) Q)"
    by simp
qed (use c r w in \<open>simp_all add: tt_wf_def rt_object_get_type_def\<close>)

section \<open>The context of a blocking call\<close>

text \<open>Thread \<open>t\<close> may block: it runs, in thread context, with the scheduler unlocked, and some
  other thread (the idle thread, in a running system) is ready.\<close>

definition may_block :: "tid \<Rightarrow> kernel \<Rightarrow> bool" where
  "may_block t k \<longleftrightarrow> rt_current_thread k = Some t \<and> th_code k t = RT_THREAD_RUNNING \<and>
     rt_scheduler_lock_nest k = 0 \<and> rt_interrupt_get_nest k = 0 \<and> tt_wf k t \<and>
     (\<exists>t'. th_code k t' = RT_THREAD_READY)"

lemma may_block_debug: "may_block t k \<Longrightarrow> debug_scheduler_available k"
  by (simp add: may_block_def debug_scheduler_available_def debug_in_thread_context_def
      debug_not_in_interrupt_def rt_critical_level_def)

lemma kok_upd_thread:
  assumes v: "\<And>th. thread_view (f th) = thread_view th" "\<And>th. th_ttmr_set (f th) = th_ttmr_set th"
  shows "kok n (upd_thread t f k) = kok n k"
proof -
  have st: "stat_suspended (th_stat (f th)) = stat_suspended (th_stat th)" for th
    using v(1) [of th] by (subst (1 2) stat_suspended_iff) (simp add: thread_view_def)
  have "kinv (upd_thread t f k) = kinv k"
    by (rule kinv_cong) (auto simp: upd_defs sched_view_def v)
  moreover have "ttmr_ok (upd_thread t f k) t' = ttmr_ok k t'" for t'
    by (simp add: ttmr_ok_def upd_defs rt_object_get_type_def timer_active_def thread_suspended_def v st)
  moreover have "nest_room n (upd_thread t f k) = nest_room n k"
    by (simp add: nest_room_def upd_defs)
  ultimately show ?thesis by (simp add: kok_def)
qed

lemma kok_set_ipc_fields [simp]:
  "kok n (upd_thread t (\<lambda>th. th\<lparr>th_error := e\<rparr>) k) = kok n k"
  "kok n (upd_thread t (\<lambda>th. th\<lparr>th_event_set := s\<rparr>) k) = kok n k"
  "kok n (upd_thread t (\<lambda>th. th\<lparr>th_event_set := s, th_event_info := i\<rparr>) k) = kok n k"
  "kok n (upd_thread t (\<lambda>th. th\<lparr>th_error := e, th_event_set := s, th_event_info := i\<rparr>) k) = kok n k"
  by (rule kok_upd_thread; simp add: thread_view_def)+

text \<open>What a thread that has blocked looks like; \<open>k\<close> is the state before the call.\<close>

definition waits :: "tid \<Rightarrow> tlist \<Rightarrow> u8 \<Rightarrow> u32 \<Rightarrow> kernel \<Rightarrow> kernel \<Rightarrow> bool" where
  "waits t h f timeout k k' \<longleftrightarrow>
     thread_suspended k' t \<and> rt_current_thread k' \<noteq> Some t \<and> rt_current_thread k' \<noteq> None \<and>
     (\<forall>h'. is_susp_list h' \<longrightarrow> tlists k' h' = (if h' = h then
        (if f = RT_IPC_FLAG_FIFO then tlists k h @ [t] else susp_insert (th_prio k) t (tlists k h)) else tlists k h')) \<and>
     (\<forall>t'. t' \<noteq> t \<longrightarrow> thread_suspended k' t' = thread_suspended k t') \<and>
     (0 < sint timeout \<longrightarrow> timer_active k' (ThreadTimer t) \<and>
        tm_timeout_tick (timers k' (ThreadTimer t)) = rt_tick k + timeout)"

lemma sint_half_range: "0 < sint (w :: u32) \<Longrightarrow> w \<noteq> 0x7fffffff \<Longrightarrow> w < 0x7fffffff"
proof -
  assume s: "0 < sint w" and n: "w \<noteq> 0x7fffffff"
  have "\<not> bit w 31" using s bit_last_iff [of w] by simp
  then have "\<not> bit (unat w) 31" by (simp add: bit_unsigned_iff)
  then have "even (unat w div 2 ^ 31)" by (simp add: bit_iff_odd)
  moreover have "unat w div 2 ^ 31 \<le> 1" using unsigned_less [of w, where 'a = nat] by simp
  ultimately have "unat w < 0x80000000" by (auto simp: le_Suc_eq)
  moreover have "unat w \<noteq> 0x7fffffff" using n by (simp add: word_unat_eq_iff)
  ultimately show ?thesis by (simp add: word_less_nat_alt)
qed

text \<open>The blocking tail shared by the IPC calls: error code \<open>e\<close> set, thread queued in \<open>h\<close>, timer
  started, section left.\<close>

lemma block_wp:
  assumes k: "kok (Suc n) k" and m: "may_block t k" and h: "is_susp_list h"
    and f: "f = RT_IPC_FLAG_FIFO \<or> f = RT_IPC_FLAG_PRIO" and to: "timeout \<noteq> 0x7fffffff"
    and Q: "\<And>k'. kok (Suc n) k' \<Longrightarrow> waits t h f timeout k k' \<Longrightarrow> same_ipc k k' \<Longrightarrow>
        th_error (threads k' t) = e \<Longrightarrow> (\<And>t'. th_prio k' t' = th_prio k t') \<Longrightarrow>
       (\<And>t'. th_taken_object_list (threads k' t') = th_taken_object_list (threads k t')) \<Longrightarrow>
       (\<And>t'. th_pending_object (threads k' t') = th_pending_object (threads k t')) \<Longrightarrow>
       (\<And>t'. th_event_set (threads k' t') = th_event_set (threads k t')) \<Longrightarrow>
       (\<And>t'. th_event_info (threads k' t') = th_event_info (threads k t')) \<Longrightarrow> Q k'"
  shows "wp (rt_thread_suspend_to_list t (Some h) f flag (upd_thread t (\<lambda>th. th\<lparr>th_error := e\<rparr>) (rt_enter_critical k)))
     (\<lambda>(ret, k1). ret = RT_EOK \<and>
       wp (if 0 < sint timeout then start_thread_timer t timeout k1 else Some k1) (\<lambda>k2. wp (rt_exit_critical k2) Q))"
proof -
  let ?k = "upd_thread t (\<lambda>th. th\<lparr>th_error := e\<rparr>) k"
  have "wp (rt_thread_suspend_to_list t (Some h) f flag (rt_enter_critical ?k)) (\<lambda>(ret, k1). ret = RT_EOK \<and>
       wp (if 0 < sint timeout then start_thread_timer t timeout k1 else Some k1) (\<lambda>k2. wp (rt_exit_critical k2) Q))"
  proof (rule block_section_wp)
    show "kok (Suc n) ?k" using k by simp
    show "timeout < 0x7fffffff" if "0 < sint timeout" by (rule sint_half_range [OF that to])
    fix k' assume k': "kok (Suc n) k'" "blocked t (0 < sint timeout) (queued (Some h) f t ?k) ?k k'"
      "\<And>t'. th_code ?k t' = RT_THREAD_READY \<Longrightarrow> rt_current_thread k' \<noteq> Some t"
      "0 < sint timeout \<Longrightarrow> timer_active k' (ThreadTimer t) \<and>
         tm_timeout_tick (timers k' (ThreadTimer t)) = rt_tick ?k + timeout"
    have th: "(threads k' t')\<lparr>th_stat := 0\<rparr> = (if t' = t then (threads ?k t)\<lparr>th_ttmr_set := 0 < sint timeout, th_stat := 0\<rparr>
        else (threads ?k t')\<lparr>th_stat := 0\<rparr>)" for t'
      using k'(2) by (simp add: blocked_def)
    note F = arg_cong [OF th]
    have eqs: "thread_suspended ?k t' = thread_suspended k t'" "th_code ?k t' = th_code k t'"
      "th_prio ?k = th_prio k" "tlists ?k = tlists k" "rt_tick ?k = rt_tick k" for t'
      by (auto simp: upd_defs thread_suspended_def)
    show "Q k'"
    proof (rule Q [OF k'(1)])
      show "waits t h f timeout k k'"
        unfolding waits_def
      proof (intro conjI allI impI)
        show "thread_suspended k' t" using k'(2) by (simp add: blocked_def)
        show "rt_current_thread k' \<noteq> Some t" using k'(3) m by (auto simp: may_block_def eqs)
        show "rt_current_thread k' \<noteq> None" using k'(2) by (simp add: blocked_def)
        show "thread_suspended k' t' = thread_suspended k t'" if "t' \<noteq> t" for t'
          using k'(2) that by (simp add: blocked_def eqs)
        have "tlists k' h' = queued (Some h) f t ?k h'" if "is_susp_list h'" for h'
        proof -
          have "\<forall>p. h' \<noteq> ReadyL p" using that by auto
          then show ?thesis using k'(2) by (simp add: blocked_def)
        qed
        then show "tlists k' h' = (if h' = h then
            (if f = RT_IPC_FLAG_FIFO then tlists k h @ [t] else susp_insert (th_prio k) t (tlists k h)) else tlists k h')"
          if "is_susp_list h'" for h'
          using that by (simp add: queued_def eqs)
      qed (use k'(4) in \<open>simp_all add: eqs\<close>)
      show "same_ipc k k'" using k'(2) by (simp add: blocked_def same_ipc_def upd_defs)
      show "th_error (threads k' t) = e" using F [of th_error t] by (simp add: upd_defs)
      show "th_prio k' t' = th_prio k t'" for t'
        using F [of th_current_priority t'] by (simp add: upd_defs split: if_splits)
      show "th_taken_object_list (threads k' t') = th_taken_object_list (threads k t')" for t'
        using F [of th_taken_object_list t'] by (simp add: upd_defs split: if_splits)
      show "th_pending_object (threads k' t') = th_pending_object (threads k t')" for t'
        using F [of th_pending_object t'] by (simp add: upd_defs split: if_splits)
      show "th_event_set (threads k' t') = th_event_set (threads k t')" for t'
        using F [of th_event_set t'] by (simp add: upd_defs split: if_splits)
      show "th_event_info (threads k' t') = th_event_info (threads k t')" for t'
        using F [of th_event_info t'] by (simp add: upd_defs split: if_splits)
    qed
  qed (use m h f in \<open>simp_all add: may_block_def upd_defs tt_wf_def rt_object_get_type_def\<close>)
  then show ?thesis by (simp add: enter_commute)
qed

section \<open>A sample state\<close>

text \<open>The sample system with the timer of thread 2 initialised as a thread timer: thread 2 may
  block.\<close>

definition sample_block :: kernel where
  "sample_block = upd_object (OTimer (ThreadTimer 2)) (\<lambda>ob. ob\<lparr>ob_flag := RT_TIMER_FLAG_THREAD_TIMER\<rparr>) sample_kernel"

lemma sample_block_fields [simp]:
  "threads sample_block = threads sample_kernel" "tlists sample_block = tlists sample_kernel"
  "sems sample_block = sems sample_kernel" "mutexes sample_block = mutexes sample_kernel"
  "events sample_block = events sample_kernel" "mailboxes sample_block = mailboxes sample_kernel"
  "rt_scheduler_lock_nest sample_block = 0" "rt_tick sample_block = rt_tick sample_kernel"
  "rt_current_thread sample_block = Some 2"
  "(\<And>t. r \<noteq> OTimer t) \<Longrightarrow> objects sample_block r = zero_object\<lparr>ob_type := sample_type r\<rparr>"
  by (auto simp: sample_block_def upd_defs)

lemma kok_sample_block: "kok 8 sample_block"
proof -
  have "ttmr_ok sample_block t" for t
    using kokD(3) [OF kok_sample, of t]
    by (cases "t = 2") (simp_all add: ttmr_ok_def sample_block_def upd_defs rt_object_get_type_def timer_active_def
      thread_suspended_def)
  moreover have "kinv sample_block" using kinv_sample by (simp add: sample_block_def)
  ultimately show ?thesis by (simp add: kok_def nest_room_def)
qed

lemma may_block_sample: "may_block 2 sample_block"
proof -
  have "th_code sample_kernel 3 = RT_THREAD_READY" by simp
  moreover have "rt_interrupt_get_nest sample_block = 0" "tt_wf sample_block 2"
    by (simp_all add: sample_block_def upd_defs rt_interrupt_get_nest_def sample_kernel_def zero_kernel_def tt_wf_def
        rt_object_get_type_def sample_type_def)
  ultimately show ?thesis unfolding may_block_def by (auto intro: exI [of _ 3])
qed

end
