(* ===== verification/Semaphore.thy ===== *)
theory Semaphore
  imports Blocking
begin

text \<open>
  Taking a counting semaphore, \<^verbatim>\<open>_rt_sem_take\<close> of \<^verbatim>\<open>src/ipc.c\<close> and its public
  variants, and what taking, releasing and timing out mean together: the semaphore behaves as the
  abstract counter with a queue of waiters \<open>asem\<close>.
\<close>

section \<open>Definitions\<close>

text \<open>The end of a take that had to wait, run when the thread is scheduled again.\<close>

definition sem_take_end :: "tid \<Rightarrow> kernel \<Rightarrow> (rt_err_t outcome \<times> kernel) option" where
  "sem_take_end t k = do {
     k \<leftarrow> rt_schedule k;
     let e = th_error (threads k t);
     Some (Returned (if e \<noteq> RT_EOK then (if e > 0 then - e else e) else RT_EOK), k)
   }"

definition sem_take :: "sid \<Rightarrow> u32 \<Rightarrow> suspend_flag \<Rightarrow> kernel \<Rightarrow> (rt_err_t outcome \<times> kernel) option" where
  "sem_take s timeout flag k = do {
     rt_assert (rt_object_get_type (OSem s) k = RT_Object_Class_Semaphore);
     rt_assert (debug_scheduler_available k);
     let k = rt_spin_lock_irqsave k;
     if sem_value (sems k s) > 0 then do {
       let k = upd_sem s (\<lambda>sem. sem\<lparr>sem_value := sem_value sem - 1\<rparr>) k;
       k \<leftarrow> rt_spin_unlock_irqrestore k;
       Some (Returned RT_EOK, k)
     } else if timeout = 0 then do {
       k \<leftarrow> rt_spin_unlock_irqrestore k;
       Some (Returned (- RT_ETIMEOUT), k)
     } else do {
       t \<leftarrow> rt_thread_self k;
       let k = upd_thread t (\<lambda>th. th\<lparr>th_error := RT_EINTR\<rparr>) k;
       (ret, k) \<leftarrow> rt_thread_suspend_to_list t (Some (SemL s)) (ob_flag (objects k (OSem s))) flag k;
       if ret \<noteq> RT_EOK then do {
         k \<leftarrow> rt_spin_unlock_irqrestore k;
         Some (Returned ret, k)
       } else do {
         k \<leftarrow> (if sint timeout > 0 then start_thread_timer t timeout k else Some k);
         k \<leftarrow> rt_spin_unlock_irqrestore k;
         if rt_current_thread k = Some t then sem_take_end t k else Some (Waiting, k)
       }
     }
   }"

definition rt_sem_take :: "sid \<Rightarrow> u32 \<Rightarrow> kernel \<Rightarrow> (rt_err_t outcome \<times> kernel) option" where
  "rt_sem_take s time k = sem_take s time RT_UNINTERRUPTIBLE k"

definition rt_sem_take_interruptible :: "sid \<Rightarrow> u32 \<Rightarrow> kernel \<Rightarrow> (rt_err_t outcome \<times> kernel) option" where
  "rt_sem_take_interruptible s time k = sem_take s time RT_INTERRUPTIBLE k"

definition rt_sem_take_killable :: "sid \<Rightarrow> u32 \<Rightarrow> kernel \<Rightarrow> (rt_err_t outcome \<times> kernel) option" where
  "rt_sem_take_killable s time k = sem_take s time RT_KILLABLE k"

definition rt_sem_trytake :: "sid \<Rightarrow> kernel \<Rightarrow> (rt_err_t outcome \<times> kernel) option" where
  "rt_sem_trytake s k = rt_sem_take s RT_WAITING_NO k"

section \<open>The abstract semaphore\<close>

text \<open>A counter and the queue of the waiting threads.\<close>

type_synonym asem = "nat \<times> tid list"

definition sem_abs :: "kernel \<Rightarrow> sid \<Rightarrow> asem" where
  "sem_abs k s = (unat (sem_value (sems k s)), tlists k (SemL s))"

definition asem_enqueue :: "(tid \<Rightarrow> nat) \<Rightarrow> u8 \<Rightarrow> tid \<Rightarrow> tid list \<Rightarrow> tid list" where
  "asem_enqueue prio f t ws = (if f = RT_IPC_FLAG_FIFO then ws @ [t] else susp_insert prio t ws)"

fun asem_take :: "(tid \<Rightarrow> nat) \<Rightarrow> u8 \<Rightarrow> tid \<Rightarrow> bool \<Rightarrow> asem \<Rightarrow> rt_err_t outcome \<times> asem" where
  "asem_take prio f t wait (Suc v, ws) = (Returned RT_EOK, (v, ws))"
| "asem_take prio f t False (0, ws) = (Returned (- RT_ETIMEOUT), (0, ws))"
| "asem_take prio f t True (0, ws) = (Waiting, (0, asem_enqueue prio f t ws))"

fun asem_release :: "nat \<Rightarrow> asem \<Rightarrow> rt_err_t \<times> asem" where
  "asem_release limit (v, t # ws) = (RT_EOK, (v, ws))"
| "asem_release limit (v, []) = (if v < limit then (RT_EOK, (v + 1, [])) else (- RT_EFULL, (v, [])))"

lemma sem_take_end_wp:
  assumes k: "kok n k" and c: "rt_current_thread k \<noteq> None"
    and Q: "\<And>k'. kok n k' \<Longrightarrow> sched_only k k' \<Longrightarrow>
      Q (Returned (if th_error (threads k t) > 0 then - th_error (threads k t) else th_error (threads k t)), k')"
  shows "wp (sem_take_end t k) Q"
  unfolding sem_take_end_def wp_simps
proof (rule kok_schedule_wp [OF k c])
  fix k' assume k': "kok n k'" "sched_only k k'"
  show "wp (let e = th_error (threads k' t) in Some (Returned (if e \<noteq> 0 then if e > 0 then - e else e else 0), k')) Q"
    using Q [OF k'] sched_onlyD(7) [OF k'(2), of t] by (auto simp: Let_def)
qed

text \<open>A take that finds a unit.\<close>

lemma sem_take_avail_wp:
  assumes k: "kok (Suc n) k" and ty: "rt_object_get_type (OSem s) k = RT_Object_Class_Semaphore"
    and m: "may_block t k" and v: "0 < sem_value (sems k s)"
    and Q: "\<And>k'. kok (Suc n) k' \<Longrightarrow> sched_only (upd_sem s (\<lambda>sem. sem\<lparr>sem_value := sem_value sem - 1\<rparr>) k) k' \<Longrightarrow>
      Q (Returned RT_EOK, k')"
  shows "wp (sem_take s timeout flag k) Q"
proof -
  let ?k = "upd_sem s (\<lambda>sem. sem\<lparr>sem_value := sem_value sem - 1\<rparr>) k"
  have "wp (rt_exit_critical (rt_enter_critical ?k)) (\<lambda>k'. Q (Returned RT_EOK, k'))"
    by (rule kok_section_wp) (use k Q in simp_all)
  then show ?thesis
    unfolding sem_take_def spin_defs using ty may_block_debug [OF m] v by (simp add: enter_commute)
qed

section \<open>Properties\<close>

text \<open>C3. Taking a semaphore refines the abstract take: an available unit is consumed at once;
  otherwise the call fails with \<^verbatim>\<open>-RT_ETIMEOUT\<close> when it must not wait, and else queues the
  caller in the order of the semaphore's flag, suspends it with its timer running (for a finite
  timeout) and lets another thread run. The invariants are kept.\<close>

theorem rt_sem_take_refines:
  assumes k: "kok (Suc n) k" and ty: "rt_object_get_type (OSem s) k = RT_Object_Class_Semaphore"
    and m: "may_block t k" and to: "timeout \<noteq> 0x7fffffff"
    and f: "ob_flag (objects k (OSem s)) = f" "f = RT_IPC_FLAG_FIFO \<or> f = RT_IPC_FLAG_PRIO"
  shows "wp (sem_take s timeout flag k) (\<lambda>(out, k'). kok (Suc n) k' \<and>
     (out, sem_abs k' s) = asem_take (th_prio k) f t (timeout \<noteq> RT_WAITING_NO) (sem_abs k s) \<and>
     (\<forall>s'. s' \<noteq> s \<longrightarrow> sem_abs k' s' = sem_abs k s') \<and>
     (out = Waiting \<longrightarrow> waits t (SemL s) f timeout k k'))"
proof -
  note d = may_block_debug [OF m]
  have c: "rt_current_thread k = Some t" using m by (simp add: may_block_def)
  consider (avail) "sem_value (sems k s) > 0" | (no) "sem_value (sems k s) = 0" "timeout = 0"
    | (wait) "sem_value (sems k s) = 0" "timeout \<noteq> 0" by (metis word_gt_0)
  then show ?thesis
  proof cases
    case avail
    let ?k = "upd_sem s (\<lambda>sem. sem\<lparr>sem_value := sem_value sem - 1\<rparr>) k"
    obtain v where v: "unat (sem_value (sems k s)) = Suc v"
      using avail by (cases "unat (sem_value (sems k s))") (auto simp: unat_eq_zero)
    have v': "unat (sem_value (sems k s) - 1) = v" using avail v by (subst unat_dec_pos) auto
    show ?thesis
    proof (rule sem_take_avail_wp [OF k ty m avail])
      fix k' assume s: "kok (Suc n) k'" "sched_only ?k k'"
      have "sem_abs k' s = (v, tlists k (SemL s))" "\<forall>s'. s' \<noteq> s \<longrightarrow> sem_abs k' s' = sem_abs k s'"
        using v' same_ipc_sched_only [OF s(2)] sched_only_susp [OF s(2)] by (simp_all add: sem_abs_def same_ipc_def upd_defs)
      then show "case (Returned RT_EOK, k') of (out, k') \<Rightarrow> kok (Suc n) k' \<and>
         (out, sem_abs k' s) = asem_take (th_prio k) f t (timeout \<noteq> RT_WAITING_NO) (sem_abs k s) \<and>
         (\<forall>s'. s' \<noteq> s \<longrightarrow> sem_abs k' s' = sem_abs k s') \<and> (out = Waiting \<longrightarrow> waits t (SemL s) f timeout k k')"
        using s(1) v by (simp add: sem_abs_def)
    qed
  next
    case no
    have "wp (rt_exit_critical (rt_enter_critical k)) (\<lambda>k'. kok (Suc n) k' \<and> (\<forall>s'. sem_abs k' s' = sem_abs k s'))"
      by (rule kok_section_wp [OF k])
        (use same_ipc_sched_only sched_only_susp in \<open>auto simp: sem_abs_def same_ipc_def\<close>)
    then show ?thesis
      unfolding sem_take_def spin_defs using ty d no
      by (auto simp: sem_abs_def elim!: wp_mono)
  next
    case wait
    let ?Q = "\<lambda>k'. kok (Suc n) k' \<and> waits t (SemL s) f timeout k k' \<and> same_ipc k k'"
    have b: "wp (rt_thread_suspend_to_list t (Some (SemL s)) f flag (upd_thread t (\<lambda>th. th\<lparr>th_error := 9\<rparr>) (rt_enter_critical k)))
     (\<lambda>(ret, k1). ret = RT_EOK \<and>
       wp (if 0 < sint timeout then start_thread_timer t timeout k1 else Some k1) (\<lambda>k2. wp (rt_exit_critical k2) ?Q))"
      by (rule block_wp [OF k m _ f(2) to]) auto
    have q: "sem_abs k' s = (0, asem_enqueue (th_prio k) f t (tlists k (SemL s))) \<and>
       (\<forall>s'. s' \<noteq> s \<longrightarrow> sem_abs k' s' = sem_abs k s') \<and> rt_current_thread k' \<noteq> Some t" if "?Q k'" for k'
      using that wait by (auto simp: waits_def sem_abs_def same_ipc_def asem_enqueue_def)
    show ?thesis
      unfolding sem_take_def spin_defs
      using ty d wait c f(1) b q
      by (auto simp: rt_thread_self_def upd_defs sem_abs_def elim!: wp_mono split: if_splits)
  qed
qed

theorem rt_sem_take_refines_witness:
  "wp (sem_take 2 5 RT_UNINTERRUPTIBLE sample_block) (\<lambda>(out, k'). kok 8 k' \<and> out = Waiting \<and>
     sem_abs k' 2 = (0, [5, 2]) \<and> waits 2 (SemL 2) RT_IPC_FLAG_FIFO 5 sample_block k')"
proof -
  have "sem_abs sample_block 2 = (0, [5])"
    by (simp add: sem_abs_def sample_kernel_def zero_kernel_def zero_semaphore_def)
  then show ?thesis
    using rt_sem_take_refines [of 7 sample_block 2 2 5 RT_IPC_FLAG_FIFO RT_UNINTERRUPTIBLE] kok_sample_block
      may_block_sample
    by (auto simp: rt_object_get_type_def sample_type_def zero_object_def asem_enqueue_def elim!: wp_mono)
qed

text \<open>C4. Releasing a semaphore refines the abstract release. With waiters, the unit goes directly
  to the front waiter, which is woken, and the counter does not change; without waiters the counter
  grows by one, and at its limit the release fails with \<^verbatim>\<open>-RT_EFULL\<close>.\<close>

theorem rt_sem_release_refines:
  assumes k: "kok (Suc n) k" and ty: "rt_object_get_type (OSem s) k = RT_Object_Class_Semaphore"
    and c: "rt_current_thread k \<noteq> None"
  shows "wp (rt_sem_release s k) (\<lambda>(err, k'). kok (Suc n) k' \<and>
     (err, sem_abs k' s) = asem_release (unat (sem_max_value (sems k s))) (sem_abs k s) \<and>
     (\<forall>s'. s' \<noteq> s \<longrightarrow> sems k' s' = sems k s') \<and>
     (\<forall>t ts. tlists k (SemL s) = t # ts \<longrightarrow> \<not> thread_suspended k' t))"
  by (rule wp_mono [OF sem_release_wp [OF assms]], cases "tlists k (SemL s)")
    (auto simp: sem_abs_def word_less_nat_alt split: if_splits)

theorem rt_sem_release_refines_witness:
  "wp (rt_sem_release 2 sample_kernel)
     (\<lambda>(err, k'). kok 8 k' \<and> err = RT_EOK \<and> sem_abs k' 2 = (0, []) \<and> \<not> thread_suspended k' 5)"
proof -
  have "sem_abs sample_kernel 2 = (0, [5])"
    by (simp add: sem_abs_def sample_kernel_def zero_kernel_def zero_semaphore_def)
  then show ?thesis
    by (intro wp_mono [OF rt_sem_release_refines [of 7]])
      (use kok_sample in \<open>auto simp: rt_object_get_type_def sample_type_def\<close>)
qed

text \<open>C5. How a take that waited ends. When a release picks the waiting thread, its call returns
  \<^verbatim>\<open>RT_EOK\<close>; when its timer fires first, the thread has left the queue, no unit is consumed
  and the call returns \<^verbatim>\<open>-RT_ETIMEOUT\<close>.\<close>

theorem rt_sem_take_completion:
  assumes k: "kok (Suc n) k" and c: "rt_current_thread k \<noteq> None"
    and ty: "rt_object_get_type (OSem s) k = RT_Object_Class_Semaphore"
      "\<And>t. rt_object_get_type (OThread t) k = RT_Object_Class_Thread"
    and l: "tlists k (SemL s) = t # ts" and w: "w \<in> set (tlists k (SemL s))"
  shows "wp (rt_sem_release s k) (\<lambda>(_, k1). \<forall>k2 m. kok m k2 \<and> rt_current_thread k2 = Some t \<and>
       th_error (threads k2 t) = th_error (threads k1 t) \<longrightarrow>
       wp (sem_take_end t k2) (\<lambda>(out, _). out = Returned RT_EOK)) \<and>
     wp (thread_timeout w k) (\<lambda>k1. kok (Suc n) k1 \<and>
       sem_abs k1 s = (fst (sem_abs k s), removeAll w (tlists k (SemL s))) \<and>
       (\<forall>k2 m. kok m k2 \<and> rt_current_thread k2 = Some w \<and> th_error (threads k2 w) = th_error (threads k1 w) \<longrightarrow>
          wp (sem_take_end w k2) (\<lambda>(out, _). out = Returned (- RT_ETIMEOUT))))"
proof
  have E: "wp (sem_take_end t k2) (\<lambda>(out, _). out = Returned (if e > 0 then - e else e))"
    if "kok m k2" "rt_current_thread k2 = Some t" "th_error (threads k2 t) = e" for k2 m t e
    using that by (intro sem_take_end_wp [OF that(1)]) auto
  show "wp (rt_sem_release s k) (\<lambda>(_, k1). \<forall>k2 m. kok m k2 \<and> rt_current_thread k2 = Some t \<and>
       th_error (threads k2 t) = th_error (threads k1 t) \<longrightarrow>
       wp (sem_take_end t k2) (\<lambda>(out, _). out = Returned RT_EOK))"
    by (rule wp_mono [OF sem_release_wp [OF k ty(1) c]]) (use E [where e = 0] l in auto)
  have "thread_suspended k w" by (rule susp_memD [OF kokD(1) [OF k] _ w]) simp
  then show "wp (thread_timeout w k) (\<lambda>k1. kok (Suc n) k1 \<and>
       sem_abs k1 s = (fst (sem_abs k s), removeAll w (tlists k (SemL s))) \<and>
       (\<forall>k2 m. kok m k2 \<and> rt_current_thread k2 = Some w \<and> th_error (threads k2 w) = th_error (threads k1 w) \<longrightarrow>
          wp (sem_take_end w k2) (\<lambda>(out, _). out = Returned (- RT_ETIMEOUT))))"
    by (rule thread_timeout_wp [OF kok_kok_but [OF k] _ ty(2)])
      (use E [where e = "- 2"] in \<open>auto simp: sem_abs_def same_ipc_def\<close>)
qed

theorem rt_sem_take_completion_witness:
  "wp (rt_sem_release 2 sample_kernel) (\<lambda>(_, k1). \<forall>k2 m. kok m k2 \<and> rt_current_thread k2 = Some 5 \<and>
       th_error (threads k2 5) = th_error (threads k1 5) \<longrightarrow>
       wp (sem_take_end 5 k2) (\<lambda>(out, _). out = Returned RT_EOK)) \<and>
   wp (thread_timeout 5 sample_kernel) (\<lambda>k1. kok 8 k1 \<and> sem_abs k1 2 = (0, []))"
proof -
  have "sem_abs sample_kernel 2 = (0, [5])"
    by (simp add: sem_abs_def sample_kernel_def zero_kernel_def zero_semaphore_def)
  then show ?thesis
    using rt_sem_take_completion [of 7 sample_kernel 2 5 "[]" 5] kok_sample
    by (auto simp: rt_object_get_type_def sample_type_def elim!: wp_mono)
qed

end
