(* ===== verification/Event.thy ===== *)
theory Event
  imports Blocking
begin

text \<open>
  Event sets, the event section of \<^verbatim>\<open>src/ipc.c\<close>: threads wait for all (AND) or any (OR) of a
  set of 32 flags; a send sets flags, wakes every waiter whose condition now holds and then clears
  the flags those waiters asked to have cleared.
\<close>

section \<open>Definitions\<close>

abbreviation (input) RT_EVENT_FLAG_AND :: u8 where "RT_EVENT_FLAG_AND \<equiv> 1"
abbreviation (input) RT_EVENT_FLAG_OR :: u8 where "RT_EVENT_FLAG_OR \<equiv> 2"
abbreviation (input) RT_EVENT_FLAG_CLEAR :: u8 where "RT_EVENT_FLAG_CLEAR \<equiv> 4"

definition rt_event_init :: "eid \<Rightarrow> string \<Rightarrow> u8 \<Rightarrow> kernel \<Rightarrow> (rt_err_t \<times> kernel) option" where
  "rt_event_init e name flag k = do {
     rt_assert (flag = RT_IPC_FLAG_FIFO \<or> flag = RT_IPC_FLAG_PRIO);
     k \<leftarrow> rt_object_init (OEvent e) RT_Object_Class_Event name k;
     let k = upd_object (OEvent e) (\<lambda>ob. ob\<lparr>ob_flag := flag\<rparr>) k;
     let k = ipc_object_init (EventL e) k;
     Some (RT_EOK, upd_event e (\<lambda>ev. ev\<lparr>ev_set := 0\<rparr>) k)
   }"

definition rt_event_detach :: "eid \<Rightarrow> kernel \<Rightarrow> (rt_err_t \<times> kernel) option" where
  "rt_event_detach e k = do {
     rt_assert (rt_object_get_type (OEvent e) k = RT_Object_Class_Event);
     rt_assert (rt_object_is_systemobject (OEvent e) k);
     let k = rt_spin_lock_irqsave k;
     k \<leftarrow> rt_susp_list_resume_all (EventL e) RT_ERROR k;
     k \<leftarrow> rt_spin_unlock_irqrestore k;
     k \<leftarrow> rt_object_detach (OEvent e) k;
     Some (RT_EOK, k)
   }"

definition rt_event_create :: "eid option \<Rightarrow> string \<Rightarrow> u8 \<Rightarrow> kernel \<Rightarrow> (eid option \<times> kernel) option" where
  "rt_event_create mem name flag k = do {
     rt_assert (flag = RT_IPC_FLAG_FIFO \<or> flag = RT_IPC_FLAG_PRIO);
     rt_assert (debug_not_in_interrupt k);
     (ob, k) \<leftarrow> rt_object_allocate (map_option OEvent mem) RT_Object_Class_Event name k;
     case (ob, mem) of
       (Some _, Some e) \<Rightarrow> do {
         let k = upd_object (OEvent e) (\<lambda>ob. ob\<lparr>ob_flag := flag\<rparr>) k;
         let k = ipc_object_init (EventL e) k;
         Some (Some e, upd_event e (\<lambda>ev. ev\<lparr>ev_set := 0\<rparr>) k)
       }
     | _ \<Rightarrow> Some (None, k)
   }"

definition rt_event_delete :: "eid \<Rightarrow> kernel \<Rightarrow> (rt_err_t \<times> kernel) option" where
  "rt_event_delete e k = do {
     rt_assert (rt_object_get_type (OEvent e) k = RT_Object_Class_Event);
     rt_assert (\<not> rt_object_is_systemobject (OEvent e) k);
     rt_assert (debug_not_in_interrupt k);
     let k = rt_spin_lock k;
     k \<leftarrow> rt_susp_list_resume_all (EventL e) RT_ERROR k;
     k \<leftarrow> rt_spin_unlock k;
     k \<leftarrow> rt_object_delete (OEvent e) k;
     Some (RT_EOK, k)
   }"

text \<open>The walk of \<^verbatim>\<open>rt_event_send\<close> over the suspended threads. The next node is read before the
  thread is unlinked, so the walk visits the threads that were in the list at its start. The result
  is \<^verbatim>\<open>need_clear_set\<close> and \<^verbatim>\<open>need_schedule\<close>, or \<open>None\<close> at a thread that waits for
  neither AND nor OR.\<close>

fun event_send_loop :: "u32 \<Rightarrow> tid list \<Rightarrow> u32 \<Rightarrow> bool \<Rightarrow> kernel \<Rightarrow> ((u32 \<times> bool) option \<times> kernel) option" where
  "event_send_loop s [] need_clear_set need_schedule k = Some (Some (need_clear_set, need_schedule), k)"
| "event_send_loop s (t # ts) need_clear_set need_schedule k =
     (let th = threads k t
      in if th_event_info th AND RT_EVENT_FLAG_AND = 0 \<and> th_event_info th AND RT_EVENT_FLAG_OR = 0
         then Some (None, k)
         else
           let (status, k) =
             (if th_event_info th AND RT_EVENT_FLAG_AND \<noteq> 0
              then (th_event_set th AND s = th_event_set th, k)
              else if th_event_set th AND s \<noteq> 0
              then (True, upd_thread t (\<lambda>th. th\<lparr>th_event_set := th_event_set th AND s\<rparr>) k)
              else (False, k))
           in if status then do {
                let need_clear_set = (if th_event_info th AND RT_EVENT_FLAG_CLEAR \<noteq> 0
                                      then need_clear_set OR th_event_set (threads k t) else need_clear_set);
                (_, k) \<leftarrow> rt_sched_thread_ready t k;
                let k = upd_thread t (\<lambda>th. th\<lparr>th_error := RT_EOK\<rparr>) k;
                event_send_loop s ts need_clear_set True k
              } else event_send_loop s ts need_clear_set need_schedule k)"

definition rt_event_send :: "eid \<Rightarrow> u32 \<Rightarrow> kernel \<Rightarrow> (rt_err_t \<times> kernel) option" where
  "rt_event_send e s k = do {
     rt_assert (rt_object_get_type (OEvent e) k = RT_Object_Class_Event);
     if s = 0 then Some (- RT_ERROR, k)
     else do {
       let k = rt_spin_lock_irqsave k;
       let k = upd_event e (\<lambda>ev. ev\<lparr>ev_set := ev_set ev OR s\<rparr>) k;
       (r, k) \<leftarrow> event_send_loop (ev_set (events k e)) (tlists k (EventL e)) 0 False k;
       case r of
         None \<Rightarrow> do { k \<leftarrow> rt_spin_unlock_irqrestore k; Some (- RT_EINVAL, k) }
       | Some (need_clear_set, need_schedule) \<Rightarrow> do {
           let k = (if need_clear_set \<noteq> 0
                    then upd_event e (\<lambda>ev. ev\<lparr>ev_set := ev_set ev AND NOT need_clear_set\<rparr>) k else k);
           k \<leftarrow> rt_spin_unlock_irqrestore k;
           k \<leftarrow> (if need_schedule then rt_schedule k else Some k);
           Some (RT_EOK, k)
         }
     }
   }"

text \<open>The end of a receive that had to wait; the result is the error code and the set stored
  through \<^verbatim>\<open>recved\<close>, if any.\<close>

definition event_recv_end :: "tid \<Rightarrow> kernel \<Rightarrow> ((rt_err_t \<times> u32 option) outcome \<times> kernel) option" where
  "event_recv_end t k = do {
     k \<leftarrow> rt_schedule k;
     if th_error (threads k t) \<noteq> RT_EOK then Some (Returned (th_error (threads k t), None), k)
     else do {
       let k = rt_spin_lock_irqsave k;
       let recved = th_event_set (threads k t);
       k \<leftarrow> rt_spin_unlock_irqrestore k;
       Some (Returned (th_error (threads k t), Some recved), k)
     }
   }"

definition event_recv ::
  "eid \<Rightarrow> u32 \<Rightarrow> u8 \<Rightarrow> u32 \<Rightarrow> suspend_flag \<Rightarrow> kernel \<Rightarrow> ((rt_err_t \<times> u32 option) outcome \<times> kernel) option" where
  "event_recv e s option timeout flag k = do {
     rt_assert (rt_object_get_type (OEvent e) k = RT_Object_Class_Event);
     rt_assert (debug_scheduler_available k);
     if s = 0 then Some (Returned (- RT_ERROR, None), k)
     else do {
       t \<leftarrow> rt_thread_self k;
       let k = upd_thread t (\<lambda>th. th\<lparr>th_error := - RT_EINTR\<rparr>) k;
       let k = rt_spin_lock_irqsave k;
       let eset = ev_set (events k e);
       status \<leftarrow> (if option AND RT_EVENT_FLAG_AND \<noteq> 0 then Some (eset AND s = s)
                  else if option AND RT_EVENT_FLAG_OR \<noteq> 0 then Some (eset AND s \<noteq> 0)
                  else None);
       if status then do {
         let k = upd_thread t (\<lambda>th. th\<lparr>th_error := RT_EOK, th_event_set := eset AND s, th_event_info := option\<rparr>) k;
         let k = (if option AND RT_EVENT_FLAG_CLEAR \<noteq> 0
                  then upd_event e (\<lambda>ev. ev\<lparr>ev_set := ev_set ev AND NOT s\<rparr>) k else k);
         k \<leftarrow> rt_spin_unlock_irqrestore k;
         Some (Returned (th_error (threads k t), Some (eset AND s)), k)
       } else if timeout = 0 then do {
         let k = upd_thread t (\<lambda>th. th\<lparr>th_error := - RT_ETIMEOUT\<rparr>) k;
         k \<leftarrow> rt_spin_unlock_irqrestore k;
         Some (Returned (- RT_ETIMEOUT, None), k)
       } else do {
         let k = upd_thread t (\<lambda>th. th\<lparr>th_event_set := s, th_event_info := option\<rparr>) k;
         (ret, k) \<leftarrow> rt_thread_suspend_to_list t (Some (EventL e)) (ob_flag (objects k (OEvent e))) flag k;
         if ret \<noteq> RT_EOK then do {
           k \<leftarrow> rt_spin_unlock_irqrestore k;
           Some (Returned (ret, None), k)
         } else do {
           k \<leftarrow> (if sint timeout > 0 then start_thread_timer t timeout k else Some k);
           k \<leftarrow> rt_spin_unlock_irqrestore k;
           if rt_current_thread k = Some t then event_recv_end t k else Some (Waiting, k)
         }
       }
     }
   }"

definition rt_event_recv :: "eid \<Rightarrow> u32 \<Rightarrow> u8 \<Rightarrow> u32 \<Rightarrow> kernel \<Rightarrow> ((rt_err_t \<times> u32 option) outcome \<times> kernel) option" where
  "rt_event_recv e s option timeout k = event_recv e s option timeout RT_UNINTERRUPTIBLE k"

definition rt_event_recv_interruptible :: "eid \<Rightarrow> u32 \<Rightarrow> u8 \<Rightarrow> u32 \<Rightarrow> kernel \<Rightarrow> ((rt_err_t \<times> u32 option) outcome \<times> kernel) option" where
  "rt_event_recv_interruptible e s option timeout k = event_recv e s option timeout RT_INTERRUPTIBLE k"

definition rt_event_recv_killable :: "eid \<Rightarrow> u32 \<Rightarrow> u8 \<Rightarrow> u32 \<Rightarrow> kernel \<Rightarrow> ((rt_err_t \<times> u32 option) outcome \<times> kernel) option" where
  "rt_event_recv_killable e s option timeout k = event_recv e s option timeout RT_KILLABLE k"

definition rt_event_control :: "eid \<Rightarrow> ipc_cmd \<Rightarrow> kernel \<Rightarrow> (rt_err_t \<times> kernel) option" where
  "rt_event_control e cmd k = do {
     rt_assert (rt_object_get_type (OEvent e) k = RT_Object_Class_Event);
     if cmd = RT_IPC_CMD_RESET then do {
       let k = rt_spin_lock_irqsave k;
       k \<leftarrow> rt_susp_list_resume_all (EventL e) RT_ERROR k;
       let k = upd_event e (\<lambda>ev. ev\<lparr>ev_set := 0\<rparr>) k;
       k \<leftarrow> rt_spin_unlock_irqrestore k;
       k \<leftarrow> rt_schedule k;
       Some (RT_EOK, k)
     } else Some (- RT_ERROR, k)
   }"

section \<open>Conditions\<close>

text \<open>The condition of a waiter on the flags \<open>s\<close>, what it receives, and what it clears.\<close>

definition ev_valid :: "rt_thread \<Rightarrow> bool" where
  "ev_valid th \<longleftrightarrow> th_event_info th AND RT_EVENT_FLAG_AND \<noteq> 0 \<or> th_event_info th AND RT_EVENT_FLAG_OR \<noteq> 0"

definition ev_sat :: "u32 \<Rightarrow> rt_thread \<Rightarrow> bool" where
  "ev_sat s th \<longleftrightarrow>
     (if th_event_info th AND RT_EVENT_FLAG_AND \<noteq> 0 then th_event_set th AND s = th_event_set th
      else th_event_set th AND s \<noteq> 0)"

definition ev_got :: "u32 \<Rightarrow> rt_thread \<Rightarrow> u32" where
  "ev_got s th = (if th_event_info th AND RT_EVENT_FLAG_AND \<noteq> 0 then th_event_set th else th_event_set th AND s)"

definition ev_clears :: "u32 \<Rightarrow> rt_thread \<Rightarrow> u32" where
  "ev_clears s th = (if ev_sat s th \<and> th_event_info th AND RT_EVENT_FLAG_CLEAR \<noteq> 0 then ev_got s th else 0)"

text \<open>The effect of the walk over the threads \<open>ts\<close>.\<close>

definition delivered :: "u32 \<Rightarrow> tid list \<Rightarrow> kernel \<Rightarrow> kernel \<Rightarrow> bool" where
  "delivered s ts k k' \<longleftrightarrow> same_ipc k k' \<and>
     (\<forall>h. (\<forall>p. h \<noteq> ReadyL p) \<longrightarrow> tlists k' h = filter (\<lambda>t. \<not> (t \<in> set ts \<and> ev_sat s (threads k t))) (tlists k h)) \<and>
     (\<forall>t. if t \<in> set ts \<and> ev_sat s (threads k t)
          then \<not> thread_suspended k' t \<and> th_error (threads k' t) = RT_EOK \<and> th_event_set (threads k' t) = ev_got s (threads k t)
          else thread_suspended k' t = thread_suspended k t \<and> th_error (threads k' t) = th_error (threads k t) \<and>
               th_event_set (threads k' t) = th_event_set (threads k t)) \<and>
     (\<forall>t. th_event_info (threads k' t) = th_event_info (threads k t)) \<and>
     (rt_current_thread k' = None \<longleftrightarrow> rt_current_thread k = None) \<and>
     (\<forall>r. (\<forall>t. r \<noteq> OTimer (ThreadTimer t)) \<longrightarrow> objects k' r = objects k r)"

lemma delivered_Nil: "delivered s [] k k"
  by (simp add: delivered_def same_ipc_def)

lemma delivered_skip: "\<not> ev_sat s (threads k t) \<Longrightarrow> delivered s ts k k' \<Longrightarrow> delivered s (t # ts) k k'"
proof -
  assume n: "\<not> ev_sat s (threads k t)" and d: "delivered s ts k k'"
  have e: "(t' \<in> set (t # ts) \<and> ev_sat s (threads k t')) = (t' \<in> set ts \<and> ev_sat s (threads k t'))" for t'
    using n by auto
  show ?thesis using d unfolding delivered_def e .
qed

text \<open>One thread woken, then the rest.\<close>

lemma delivered_Cons:
  assumes sat: "ev_sat s (threads k t)" and d: "t \<notin> set ts"
    and w: "woken t e (upd_thread t (\<lambda>th. th\<lparr>th_event_set := ev_got s (threads k t)\<rparr>) k) k1"
    and k': "delivered s ts (upd_thread t (\<lambda>th. th\<lparr>th_error := 0\<rparr>) k1) k'"
  shows "delivered s (t # ts) k k'"
proof -
  let ?k0 = "upd_thread t (\<lambda>th. th\<lparr>th_event_set := ev_got s (threads k t)\<rparr>) k"
  let ?k1 = "upd_thread t (\<lambda>th. th\<lparr>th_error := 0\<rparr>) k1"
  have W: "woken t 0 ?k0 ?k1" by (rule woken_set_error [OF w])
  note D = wokenD [OF W]
  have same: "th_event_set (threads ?k1 t') = th_event_set (threads k t')" "th_event_info (threads ?k1 t') = th_event_info (threads k t')"
    "ev_sat s (threads ?k1 t') = ev_sat s (threads k t')" "ev_got s (threads ?k1 t') = ev_got s (threads k t')"
    "th_error (threads ?k1 t') = th_error (threads k t')" "thread_suspended ?k1 t' = thread_suspended k t'" if "t' \<noteq> t" for t'
    using D(3,12,13) [of t'] D(6) [of t'] that
    by (auto simp: ev_sat_def ev_got_def upd_defs thread_suspended_def)
  have me: "th_event_set (threads ?k1 t) = ev_got s (threads k t)" "th_error (threads ?k1 t) = 0" "\<not> thread_suspended ?k1 t"
    using D(3,12) [of t] D(4) by (simp_all add: upd_defs)
  have info: "th_event_info (threads ?k1 t') = th_event_info (threads k t')" for t'
    using D(13) [of t'] by (simp add: upd_defs)
  have L: "tlists ?k1 h = removeAll t (tlists k h)" if "\<forall>p. h \<noteq> ReadyL p" for h
    using D(2) [of h] that by (simp add: upd_defs)
  have S: "same_ipc k ?k1" using D(1) by (simp add: same_ipc_def upd_defs)
  have O: "objects ?k1 r = objects k r" if "\<forall>t. r \<noteq> OTimer (ThreadTimer t)" for r
    using D(17) [of r] that by (simp add: upd_defs)
  have C: "rt_current_thread ?k1 = None \<longleftrightarrow> rt_current_thread k = None" using D(18) by (simp add: upd_defs)
  note X = k' [unfolded delivered_def]
  have X3: "if t' \<in> set ts \<and> ev_sat s (threads ?k1 t')
      then \<not> thread_suspended k' t' \<and> th_error (threads k' t') = 0 \<and> th_event_set (threads k' t') = ev_got s (threads ?k1 t')
      else thread_suspended k' t' = thread_suspended ?k1 t' \<and> th_error (threads k' t') = th_error (threads ?k1 t') \<and>
           th_event_set (threads k' t') = th_event_set (threads ?k1 t')" for t'
    using X by (elim conjE) blast
  show ?thesis unfolding delivered_def
  proof (intro conjI allI impI)
    show "same_ipc k k'" using S X by (simp add: same_ipc_def)
    show "tlists k' h = filter (\<lambda>t'. \<not> (t' \<in> set (t # ts) \<and> ev_sat s (threads k t'))) (tlists k h)" if "\<forall>p. h \<noteq> ReadyL p" for h
    proof -
      have "tlists k' h = filter (\<lambda>t'. \<not> (t' \<in> set ts \<and> ev_sat s (threads ?k1 t'))) (removeAll t (tlists k h))"
        using X that L [OF that] by simp
      moreover have "(t \<noteq> t' \<and> \<not> (t' \<in> set ts \<and> ev_sat s (threads ?k1 t'))) =
          (\<not> (t' \<in> set (t # ts) \<and> ev_sat s (threads k t')))" for t'
        using same(3) [of t'] sat by (cases "t' = t") auto
      ultimately show ?thesis by (simp only: removeAll_filter_not_eq filter_filter)
    qed
    show "if t' \<in> set (t # ts) \<and> ev_sat s (threads k t')
          then \<not> thread_suspended k' t' \<and> th_error (threads k' t') = RT_EOK \<and> th_event_set (threads k' t') = ev_got s (threads k t')
          else thread_suspended k' t' = thread_suspended k t' \<and> th_error (threads k' t') = th_error (threads k t') \<and>
               th_event_set (threads k' t') = th_event_set (threads k t')" for t'
    proof (cases "t' = t")
      case True
      then show ?thesis using X3 [of t] me sat d by simp
    next
      case False
      then show ?thesis using X3 [of t'] same [OF False] by simp
    qed
    show "th_event_info (threads k' t') = th_event_info (threads k t')" for t' using X info by simp
    show "rt_current_thread k' = None \<longleftrightarrow> rt_current_thread k = None" using X C by simp
    show "objects k' r = objects k r" if "\<forall>t. r \<noteq> OTimer (ThreadTimer t)" for r using X O [OF that] that by simp
  qed
qed

lemma event_send_loop_wp:
  assumes "kok n k" "distinct ts" "\<And>t. t \<in> set ts \<Longrightarrow> thread_suspended k t \<and> ev_valid (threads k t)"
    and "\<And>k'. kok n k' \<Longrightarrow> delivered s ts k k' \<Longrightarrow>
      Q (Some (foldl (\<lambda>c t. c OR ev_clears s (threads k t)) clr ts, need \<or> (\<exists>t \<in> set ts. ev_sat s (threads k t))), k')"
  shows "wp (event_send_loop s ts clr need k) Q"
  using assms
proof (induction ts arbitrary: clr need k)
  case Nil
  then show ?case using delivered_Nil by simp
next
  case (Cons t ts)
  have v: "thread_suspended k t" "ev_valid (threads k t)" using Cons.prems(3) by auto
  show ?case
  proof (cases "ev_sat s (threads k t)")
    case False
    have "wp (event_send_loop s ts clr need k) Q"
    proof (rule Cons.IH [OF Cons.prems(1)])
      fix k' assume "kok n k'" "delivered s ts k k'"
      then show "Q (Some (foldl (\<lambda>c t. c OR ev_clears s (threads k t)) clr ts, need \<or> (\<exists>t \<in> set ts. ev_sat s (threads k t))), k')"
        using Cons.prems(4) [OF _ delivered_skip [OF False]] False by (simp add: ev_clears_def)
    qed (use Cons.prems in auto)
    then show ?thesis using False v(2)
      by (auto simp: Let_def ev_sat_def ev_valid_def split: if_splits)
  next
    case True
    let ?k0 = "upd_thread t (\<lambda>th. th\<lparr>th_event_set := ev_got s (threads k t)\<rparr>) k"
    let ?clr = "if th_event_info (threads k t) AND 4 \<noteq> 0 then clr OR ev_got s (threads k t) else clr"
    have k0: "kok n ?k0" using Cons.prems(1) by simp
    have s0: "thread_suspended ?k0 t" using v(1) by (simp add: thread_suspended_def upd_defs)
    have "wp (rt_sched_thread_ready t ?k0) (\<lambda>(_, k1). wp (event_send_loop s ts ?clr True (upd_thread t (\<lambda>th. th\<lparr>th_error := 0\<rparr>) k1)) Q)"
    proof (rule ready_wake_wp [OF k0 s0])
      fix k1 assume k1: "kok n k1" "woken t (th_error (threads ?k0 t)) ?k0 k1"
      let ?k1 = "upd_thread t (\<lambda>th. th\<lparr>th_error := 0\<rparr>) k1"
      have same: "ev_sat s (threads ?k1 t') = ev_sat s (threads k t')" "ev_clears s (threads ?k1 t') = ev_clears s (threads k t')"
        "ev_valid (threads ?k1 t') = ev_valid (threads k t')" "thread_suspended ?k1 t' = thread_suspended k t'" if "t' \<noteq> t" for t'
        using wokenD(3,12,13) [OF k1(2), of t'] that
        by (auto simp: ev_sat_def ev_got_def ev_clears_def ev_valid_def upd_defs thread_suspended_def)
      have nt: "t \<notin> set ts" using Cons.prems(2) by simp
      have fo: "foldl (\<lambda>c t. c OR ev_clears s (threads ?k1 t)) ?clr ts = foldl (\<lambda>c t. c OR ev_clears s (threads k t)) clr (t # ts)"
      proof -
        have "foldl (\<lambda>c t. c OR ev_clears s (threads ?k1 t)) ?clr ts = foldl (\<lambda>c t. c OR ev_clears s (threads k t)) ?clr ts"
          by (rule foldl_cong [OF refl refl]) (use nt same(2) in metis)
        then show ?thesis using True by (simp add: ev_clears_def [of s "threads k t"])
      qed
      show "case (0, k1) of (_, k1) \<Rightarrow> wp (event_send_loop s ts ?clr True (upd_thread t (\<lambda>th. th\<lparr>th_error := 0\<rparr>) k1)) Q"
        unfolding prod.case
      proof (rule Cons.IH)
        show "kok n ?k1" using k1(1) by simp
        show "distinct ts" using Cons.prems(2) by simp
        show "thread_suspended ?k1 t' \<and> ev_valid (threads ?k1 t')" if "t' \<in> set ts" for t'
          using Cons.prems(3) [of t'] same(3,4) [of t'] that nt by auto
        fix k' assume k': "kok n k'" "delivered s ts ?k1 k'"
        show "Q (Some (foldl (\<lambda>c t. c OR ev_clears s (threads ?k1 t)) ?clr ts, True \<or> (\<exists>t \<in> set ts. ev_sat s (threads ?k1 t))), k')"
          using Cons.prems(4) [OF k'(1) delivered_Cons [OF True nt k1(2) k'(2)]] True unfolding fo by simp
      qed
    qed
    moreover have "?k0 = (if th_event_info (threads k t) AND 1 \<noteq> 0 then k
        else upd_thread t (\<lambda>th. th\<lparr>th_event_set := th_event_set th AND s\<rparr>) k)"
      by (simp add: ev_got_def upd_defs fun_upd_idem)
    ultimately show ?thesis using True v(2)
      by (auto simp: Let_def ev_sat_def ev_valid_def ev_got_def case_prod_unfold upd_defs split: if_splits)
  qed
qed

text \<open>What a send of \<open>s\<close> promises about the waiters and the set.\<close>

definition event_sent :: "eid \<Rightarrow> u32 \<Rightarrow> kernel \<Rightarrow> kernel \<Rightarrow> bool" where
  "event_sent e s k k' \<longleftrightarrow>
     (let full = ev_set (events k e) OR s; ws = tlists k (EventL e)
      in tlists k' (EventL e) = filter (\<lambda>t. \<not> ev_sat full (threads k t)) ws \<and>
         ev_set (events k' e) = full AND NOT (foldl (\<lambda>c t. c OR ev_clears full (threads k t)) 0 ws) \<and>
         (\<forall>t \<in> set ws. if ev_sat full (threads k t)
            then \<not> thread_suspended k' t \<and> th_error (threads k' t) = RT_EOK \<and>
                 th_event_set (threads k' t) = ev_got full (threads k t)
            else thread_suspended k' t))"

lemma delivered_sent:
  assumes k: "\<And>t. t \<in> set (tlists k (EventL e)) \<Longrightarrow> thread_suspended k t"
    and k1: "threads k1 = threads k" "tlists k1 = tlists k" "ev_set (events k1 e) = ev_set (events k e) OR s"
    and d: "delivered (ev_set (events k e) OR s) (tlists k (EventL e)) k1 k2"
    and k3: "sched_only (m (upd_event e (\<lambda>ev. ev\<lparr>ev_set := ev_set ev AND NOT
        (foldl (\<lambda>c t. c OR ev_clears (ev_set (events k e) OR s) (threads k t)) 0 (tlists k (EventL e)))\<rparr>) k2)) k3"
      "\<And>k. threads (m k) = threads k" "\<And>k. tlists (m k) = tlists k" "\<And>k. events (m k) = events k"
  shows "event_sent e s k k3"
proof -
  let ?full = "ev_set (events k e) OR s" and ?ws = "tlists k (EventL e)"
  let ?clr = "foldl (\<lambda>c t. c OR ev_clears ?full (threads k t)) 0 ?ws"
  let ?k2 = "m (upd_event e (\<lambda>ev. ev\<lparr>ev_set := ev_set ev AND NOT ?clr\<rparr>) k2)"
  note D = d [unfolded delivered_def]
  have t2: "threads ?k2 = threads k2" "tlists ?k2 = tlists k2" by (simp_all add: upd_defs k3(2-))
  have l3: "tlists k3 (EventL e) = filter (\<lambda>t. \<not> ev_sat ?full (threads k t)) ?ws"
    using sched_only_susp [OF k3(1), of "EventL e"] D t2 by (auto simp: k1 intro: filter_cong)
  have s3: "ev_set (events k3 e) = ?full AND NOT ?clr"
    using same_but_schedD(6) [OF sched_onlyD(1) [OF k3(1)]] D k1 by (simp add: upd_defs k3(2-) same_ipc_def)
  have "if ev_sat ?full (threads k t)
         then \<not> thread_suspended k3 t \<and> th_error (threads k3 t) = RT_EOK \<and> th_event_set (threads k3 t) = ev_got ?full (threads k t)
         else thread_suspended k3 t" if t: "t \<in> set ?ws" for t
  proof -
    have x: "thread_suspended k3 t = thread_suspended k2 t" "th_error (threads k3 t) = th_error (threads k2 t)"
      "th_event_set (threads k3 t) = th_event_set (threads k2 t)" "thread_suspended k1 t = thread_suspended k t"
      using sched_onlyD(4,7,11) [OF k3(1), of t] t2 by (simp_all add: thread_suspended_def k1)
    show ?thesis unfolding x
      using conjunct1 [OF conjunct2 [OF conjunct2 [OF D]], rule_format, of t] t k [OF t] x(4) by (simp add: k1)
  qed
  then show ?thesis using l3 s3 by (simp add: event_sent_def Let_def)
qed

section \<open>Properties\<close>

text \<open>C20. Sending events. The flags are added to the set; every waiter whose condition holds of the
  new set is woken, with \<^verbatim>\<open>RT_EOK\<close> and the flags it received, and the others keep waiting
  in their order; afterwards the flags asked to be cleared by the woken waiters are cleared, so that
  all of them see the same set. An empty set of flags is refused.\<close>

theorem rt_event_send_correct:
  assumes k: "kok (Suc n) k" and ty: "rt_object_get_type (OEvent e) k = RT_Object_Class_Event"
    and c: "rt_current_thread k \<noteq> None"
    and v: "\<forall>t \<in> set (tlists k (EventL e)). ev_valid (threads k t)"
  shows "wp (rt_event_send e s k) (\<lambda>(err, k').
     if s = 0 then err = - RT_ERROR \<and> k' = k else err = RT_EOK \<and> kok (Suc n) k' \<and> event_sent e s k k')"
proof (cases "s = 0")
  case True
  then show ?thesis using ty by (simp add: rt_event_send_def)
next
  case False
  let ?full = "ev_set (events k e) OR s" and ?ws = "tlists k (EventL e)"
  let ?clr = "foldl (\<lambda>c t. c OR ev_clears ?full (threads k t)) 0 ?ws"
  let ?P = "\<lambda>k'. kok (Suc n) k' \<and> event_sent e s k k'"
  define k1 where "k1 = rt_enter_critical (upd_event e (\<lambda>ev. ev\<lparr>ev_set := ev_set ev OR s\<rparr>) k)"
  have k1: "kok n k1" unfolding k1_def using k by (intro kok_enter) simp
  have f1: "threads k1 = threads k" "tlists k1 = tlists k" "ev_set (events k1 e) = ?full"
    "rt_scheduler_lock_nest k1 = rt_scheduler_lock_nest k + 1" "rt_current_thread k1 = rt_current_thread k"
    by (simp_all add: k1_def upd_defs)
  have wk: "thread_suspended k t" "thread_suspended k1 t" if "t \<in> set ?ws" for t
    using susp_memD [OF kokD(1) [OF k] _ that] by (simp_all add: thread_suspended_def f1)
  have d: "distinct ?ws" using kokD(1) [OF k] by (simp add: kinv_def kglobal_def lists_ok_def)
  have "wp (event_send_loop ?full ?ws 0 False k1) (\<lambda>(r, k2). \<exists>clr need. r = Some (clr, need) \<and>
        wp (rt_exit_critical (if clr \<noteq> 0 then upd_event e (\<lambda>ev. ev\<lparr>ev_set := ev_set ev AND NOT clr\<rparr>) k2 else k2))
           (\<lambda>k3. wp (if need then rt_schedule k3 else Some k3) ?P))"
  proof (rule event_send_loop_wp [OF k1 d])
    show "thread_suspended k1 t \<and> ev_valid (threads k1 t)" if "t \<in> set ?ws" for t
      using wk(2) [OF that] v that by (simp add: f1)
    fix k2 assume k2: "kok n k2" "delivered ?full ?ws k1 k2"
    let ?k2 = "upd_event e (\<lambda>ev. ev\<lparr>ev_set := ev_set ev AND NOT ?clr\<rparr>) k2"
    have e2: "rt_scheduler_lock_nest ?k2 = rt_scheduler_lock_nest k + 1" "rt_current_thread ?k2 \<noteq> None"
      using k2(2) c by (simp_all add: delivered_def same_ipc_def f1 upd_defs)
    have z: "(if ?clr \<noteq> 0 then ?k2 else k2) = ?k2"
      by (simp add: upd_defs fun_upd_idem)
    have "kok n ?k2" using k2(1) by simp
    then have "wp (rt_exit_critical ?k2) (\<lambda>k3. wp (if need then rt_schedule k3 else Some k3) ?P)" for need
      by (rule leave_wp [OF k _ e2])
        (simp add: delivered_sent [where m = "\<lambda>k2. k2\<lparr>rt_scheduler_lock_nest := rt_scheduler_lock_nest k\<rparr>",
           OF wk(1) f1(1-3) k2(2)])
    then show "case (Some (foldl (\<lambda>c t. c OR ev_clears ?full (threads k1 t)) 0 ?ws,
        False \<or> (\<exists>t\<in>set ?ws. ev_sat ?full (threads k1 t))), k2) of (r, k2) \<Rightarrow> \<exists>clr need. r = Some (clr, need) \<and>
        wp (rt_exit_critical (if clr \<noteq> 0 then upd_event e (\<lambda>ev. ev\<lparr>ev_set := ev_set ev AND NOT clr\<rparr>) k2 else k2))
           (\<lambda>k3. wp (if need then rt_schedule k3 else Some k3) ?P)"
      using z by (simp add: f1)
  qed
  then show ?thesis
    using False ty
    by (auto simp: rt_event_send_def spin_defs enter_commute k1_def [symmetric] f1 Let_def elim!: wp_mono split: prod.splits)
qed

text \<open>Instance: thread 5 waits for both of the flags 1 and 2 and asks to have them cleared.\<close>

definition sample_event :: kernel where
  "sample_event = upd_event 2 (\<lambda>ev. ev\<lparr>ev_set := 1\<rparr>)
     (upd_thread 5 (\<lambda>th. th\<lparr>th_event_set := 3, th_event_info := RT_EVENT_FLAG_AND OR RT_EVENT_FLAG_CLEAR\<rparr>)
       (sample_kernel\<lparr>tlists := (tlists sample_kernel)(SemL 2 := [], EventL 2 := [5])\<rparr>))"

lemma sample_event_fields:
  "rt_object_get_type (OEvent 2) sample_event = RT_Object_Class_Event" "rt_current_thread sample_event = Some 2"
  "tlists sample_event (EventL 2) = [5]" "th_event_set (threads sample_event 5) = 3"
  "th_event_info (threads sample_event 5) = 5" "ev_set (events sample_event 2) = 1"
  by (simp_all add: sample_event_def upd_defs rt_object_get_type_def sample_type_def)

lemma kok_sample_event: "kok 8 sample_event"
proof -
  let ?k = "sample_kernel\<lparr>tlists := (tlists sample_kernel)(SemL 2 := [], EventL 2 := [5])\<rparr>"
  have "thread_ok ?k t" for t
    unfolding thread_ok_def
    by (intro conjI allI impI)
      (auto simp: sample_kernel_def zero_kernel_def zero_thread_def sample_thread_def thread_suspended_def split: if_splits)
  moreover have "kglobal ?k"
    by (auto simp: kglobal_def lists_ok_def group_ok_def sample_kernel_def zero_kernel_def bit_or_iff bit_prio_mask)
  ultimately have "kinv ?k" by (simp add: kinv_def)
  moreover have "ttmr_ok ?k t" for t
    using kokD(3) [OF kok_sample, of t]
    by (simp add: ttmr_ok_def rt_object_get_type_def timer_active_def thread_suspended_def)
  ultimately have "kok 8 ?k" by (simp add: kok_def nest_room_def)
  then show ?thesis unfolding sample_event_def by simp
qed

theorem rt_event_send_correct_witness:
  "wp (rt_event_send 2 2 sample_event) (\<lambda>(err, k'). err = RT_EOK \<and> kok 8 k' \<and> ev_set (events k' 2) = 0 \<and>
     tlists k' (EventL 2) = [] \<and> \<not> thread_suspended k' 5 \<and> th_event_set (threads k' 5) = 3)"
  using rt_event_send_correct [of 7 sample_event 2 2] kok_sample_event
  by (auto simp: sample_event_fields ev_valid_def event_sent_def Let_def ev_sat_def ev_got_def ev_clears_def elim!: wp_mono)

text \<open>C21. Receiving events. When the condition (all or any of the flags) holds, the call returns the
  matching flags at once, clearing them if asked to; otherwise it fails with \<^verbatim>\<open>-RT_ETIMEOUT\<close>
  when it must not wait, and else queues the caller, with its condition recorded for the senders, and
  lets another thread run. The set changes only by an accepted receive with the clear option.\<close>

theorem rt_event_recv_correct:
  assumes k: "kok (Suc n) k" and ty: "rt_object_get_type (OEvent e) k = RT_Object_Class_Event"
    and m: "may_block t k" and to: "timeout \<noteq> 0x7fffffff"
    and f: "ob_flag (objects k (OEvent e)) = f" "f = RT_IPC_FLAG_FIFO \<or> f = RT_IPC_FLAG_PRIO"
    and s: "s \<noteq> 0" and opt: "opt AND RT_EVENT_FLAG_AND \<noteq> 0 \<or> opt AND RT_EVENT_FLAG_OR \<noteq> 0"
  shows "wp (event_recv e s opt timeout flag k) (\<lambda>(out, k'). kok (Suc n) k' \<and>
     (let eset = ev_set (events k e)
      in if (if opt AND RT_EVENT_FLAG_AND \<noteq> 0 then eset AND s = s else eset AND s \<noteq> 0)
         then out = Returned (RT_EOK, Some (eset AND s)) \<and> tlists k' (EventL e) = tlists k (EventL e) \<and>
              ev_set (events k' e) = (if opt AND RT_EVENT_FLAG_CLEAR \<noteq> 0 then eset AND NOT s else eset)
         else ev_set (events k' e) = eset \<and>
              (if timeout = RT_WAITING_NO
               then out = Returned (- RT_ETIMEOUT, None) \<and> tlists k' (EventL e) = tlists k (EventL e)
               else out = Waiting \<and> waits t (EventL e) f timeout k k' \<and>
                    th_event_set (threads k' t) = s \<and> th_event_info (threads k' t) = opt)))"
proof -
  note d = may_block_debug [OF m]
  have c: "rt_current_thread k = Some t" using m by (simp add: may_block_def)
  define ok where "ok = (if opt AND 1 \<noteq> 0 then ev_set (events k e) AND s = s else ev_set (events k e) AND s \<noteq> 0)"
  have st: "(if opt AND 1 \<noteq> 0 then Some (ev_set (events k e) AND s = s)
      else if opt AND 2 \<noteq> 0 then Some (ev_set (events k e) AND s \<noteq> 0) else None) = Some ok"
    using opt by (auto simp: ok_def)
  let ?err = "\<lambda>x. upd_thread t (\<lambda>th. th\<lparr>th_error := x\<rparr>)"
  consider (avail) ok | (no) "\<not> ok" "timeout = 0" | (wait) "\<not> ok" "timeout \<noteq> 0" by blast
  then show ?thesis
  proof cases
    case avail
    let ?k1 = "upd_thread t (\<lambda>th. th\<lparr>th_error := 0, th_event_set := ev_set (events k e) AND s, th_event_info := opt\<rparr>) (?err (- 9) k)"
    let ?k2 = "if opt AND 4 \<noteq> 0 then upd_event e (\<lambda>ev. ev\<lparr>ev_set := ev_set ev AND NOT s\<rparr>) ?k1 else ?k1"
    have "wp (rt_exit_critical (rt_enter_critical ?k2)) (\<lambda>k'. kok (Suc n) k' \<and> th_error (threads k' t) = 0 \<and>
       tlists k' (EventL e) = tlists k (EventL e) \<and>
       ev_set (events k' e) = (if opt AND 4 \<noteq> 0 then ev_set (events k e) AND NOT s else ev_set (events k e)))"
    proof (rule kok_section_wp)
      fix k' assume k': "kok (Suc n) k'" "sched_only ?k2 k'"
      show "kok (Suc n) k' \<and> th_error (threads k' t) = 0 \<and> tlists k' (EventL e) = tlists k (EventL e) \<and>
       ev_set (events k' e) = (if opt AND 4 \<noteq> 0 then ev_set (events k e) AND NOT s else ev_set (events k e))"
        using k'(1) sched_onlyD(7) [OF k'(2), of t] sched_only_susp [OF k'(2), of "EventL e"]
          same_but_schedD(6) [OF sched_onlyD(1) [OF k'(2)]] by (simp add: upd_defs)
    qed (use k in simp)
    then show ?thesis
      unfolding event_recv_def spin_defs
      using ty d s c st avail
      by (simp add: rt_thread_self_def enter_commute upd_sel ok_def [symmetric] Let_def if_distrib [of rt_enter_critical, symmetric] cong: if_cong)
  next
    case no
    have "wp (rt_exit_critical (rt_enter_critical (?err (- 2) (?err (- 9) k)))) (\<lambda>k'. kok (Suc n) k' \<and>
       tlists k' (EventL e) = tlists k (EventL e) \<and> events k' = events k)"
    proof (rule kok_section_wp)
      fix k' assume k': "kok (Suc n) k'" "sched_only (?err (- 2) (?err (- 9) k)) k'"
      show "kok (Suc n) k' \<and> tlists k' (EventL e) = tlists k (EventL e) \<and> events k' = events k"
        using k'(1) sched_only_susp [OF k'(2), of "EventL e"] same_but_schedD(6) [OF sched_onlyD(1) [OF k'(2)]]
        by (simp add: upd_defs)
    qed (use k in simp)
    then show ?thesis
      unfolding event_recv_def spin_defs
      using ty d s c st no
      by (auto simp: rt_thread_self_def enter_commute upd_sel ok_def [symmetric] Let_def elim!: wp_mono)
  next
    case wait
    define k0 where "k0 = upd_thread t (\<lambda>th. th\<lparr>th_error := - 9, th_event_set := s, th_event_info := opt\<rparr>) k"
    have eqs: "tlists k0 = tlists k" "th_prio k0 = th_prio k" "thread_suspended k0 t' = thread_suspended k t'"
      "rt_tick k0 = rt_tick k" "th_code k0 t' = th_code k t'" "events k0 = events k" for t'
      by (auto simp: k0_def upd_defs thread_suspended_def)
    have m0: "may_block t k0"
      using m by (auto simp: may_block_def eqs) (auto simp: k0_def upd_defs rt_interrupt_get_nest_def tt_wf_def rt_object_get_type_def)
    have kk: "kok (Suc n) k0" using k by (simp add: k0_def)
    let ?Q = "\<lambda>k'. kok (Suc n) k' \<and> waits t (EventL e) f timeout k k' \<and> events k' = events k \<and>
       th_event_set (threads k' t) = s \<and> th_event_info (threads k' t) = opt"
    have "wp (rt_thread_suspend_to_list t (Some (EventL e)) f flag (?err (- 9) (rt_enter_critical k0)))
     (\<lambda>(ret, k1). ret = RT_EOK \<and>
       wp (if 0 < sint timeout then start_thread_timer t timeout k1 else Some k1) (\<lambda>k2. wp (rt_exit_critical k2) ?Q))"
    proof (rule block_wp [OF kk m0 _ f(2) to])
      fix k' assume k': "kok (Suc n) k'" "waits t (EventL e) f timeout k0 k'" "same_ipc k0 k'"
        "\<And>t'. th_event_set (threads k' t') = th_event_set (threads k0 t')"
        "\<And>t'. th_event_info (threads k' t') = th_event_info (threads k0 t')"
      then show "?Q k'" by (simp add: waits_def eqs same_ipc_def) (simp add: k0_def upd_defs)
    qed simp
    moreover have "?err (- 9) (rt_enter_critical k0) =
        upd_thread t (\<lambda>th. th\<lparr>th_event_set := s, th_event_info := opt\<rparr>) (rt_enter_critical (?err (- 9) k))"
      by (cases "threads k t") (simp add: k0_def upd_defs rt_enter_critical_def)
    ultimately have "wp (rt_thread_suspend_to_list t (Some (EventL e)) f flag
        (upd_thread t (\<lambda>th. th\<lparr>th_event_set := s, th_event_info := opt\<rparr>) (rt_enter_critical (?err (- 9) k))))
     (\<lambda>(ret, k1). ret = RT_EOK \<and>
       wp (if 0 < sint timeout then start_thread_timer t timeout k1 else Some k1) (\<lambda>k2. wp (rt_exit_critical k2) ?Q))"
      by simp
    moreover have "rt_current_thread k' \<noteq> Some t" if "?Q k'" for k' using that by (simp add: waits_def)
    moreover have "ob_flag (objects (upd_thread t g (rt_enter_critical k1)) r) = ob_flag (objects k1 r)" for g k1 r
      by (simp add: upd_defs)
    ultimately show ?thesis
      unfolding event_recv_def spin_defs
      using ty d s c st wait f(1)
      by (auto simp: rt_thread_self_def ok_def [symmetric] Let_def upd_sel elim!: wp_mono split: if_splits)
  qed
qed

theorem rt_event_recv_correct_witness:
  "wp (event_recv 2 3 RT_EVENT_FLAG_OR 5 RT_UNINTERRUPTIBLE sample_block) (\<lambda>(out, k'). kok 8 k' \<and>
     out = Waiting \<and> waits 2 (EventL 2) RT_IPC_FLAG_FIFO 5 sample_block k' \<and> th_event_set (threads k' 2) = 3 \<and>
     th_event_info (threads k' 2) = RT_EVENT_FLAG_OR)"
proof -
  have "ev_set (events sample_block 2) = 0" by (simp add: sample_kernel_def zero_kernel_def zero_event_def)
  then show ?thesis
    using rt_event_recv_correct [of 7 sample_block 2 2 5 RT_IPC_FLAG_FIFO 3 RT_EVENT_FLAG_OR RT_UNINTERRUPTIBLE]
      kok_sample_block may_block_sample
    by (auto simp: rt_object_get_type_def sample_type_def zero_object_def Let_def elim!: wp_mono)
qed

end
