(* ===== verification/Bounded_Fifo.thy ===== *)
theory Bounded_Fifo
  imports RT_Prelude
begin

text \<open>
  The contract of the buffers of the kernel and of the device layer that pass items in order of
  arrival and have a fixed capacity: the ring buffer, the mailbox and the data queue. Each of
  them is an interpretation of \<open>bounded_fifo\<close>, and gets the lemmas on whole bursts of items
  from here. The byte-copying primitives of their models are defined here as well.
\<close>

section \<open>Copying into and out of an array\<close>

text \<open>\<^verbatim>\<open>rt_memcpy(&a[off], xs, n)\<close> and \<^verbatim>\<open>rt_memcpy(dst, &a[off], n)\<close>; \<open>None\<close> is an
  access outside the array.\<close>

definition blit :: "nat \<Rightarrow> 'a list \<Rightarrow> 'a list \<Rightarrow> 'a list option" where
  "blit off xs a =
     (if off + length xs \<le> length a then Some (take off a @ xs @ drop (off + length xs) a) else None)"

definition segment :: "nat \<Rightarrow> nat \<Rightarrow> 'a list \<Rightarrow> 'a list option" where
  "segment off n a = (if off + n \<le> length a then Some (take n (drop off a)) else None)"

text \<open>\<^verbatim>\<open>a[i] = x\<close> and the read of \<^verbatim>\<open>a[i]\<close>.\<close>

definition store :: "nat \<Rightarrow> 'a \<Rightarrow> 'a list \<Rightarrow> 'a list option" where
  "store i x a = (if i < length a then Some (a[i := x]) else None)"

definition fetch :: "nat \<Rightarrow> 'a list \<Rightarrow> 'a option" where
  "fetch i a = (if i < length a then Some (a ! i) else None)"

lemma blit_length: "blit off xs a = Some b \<Longrightarrow> length b = length a"
  by (auto simp: blit_def split: if_splits)

lemma blit_nth:
  "blit off xs a = Some b \<Longrightarrow> i < length a \<Longrightarrow>
   b ! i = (if off \<le> i \<and> i < off + length xs then xs ! (i - off) else a ! i)"
  by (auto simp: blit_def nth_append min_def split: if_splits)

lemma blit_defined: "off + length xs \<le> length a \<Longrightarrow> \<exists>b. blit off xs a = Some b"
  by (simp add: blit_def)

lemma wp_blit: "wp (blit off xs a) Q \<longleftrightarrow> off + length xs \<le> length a \<and> Q (take off a @ xs @ drop (off + length xs) a)"
  by (simp add: blit_def)

section \<open>Cyclic arrays\<close>

text \<open>The cell that is \<open>i\<close> cells after \<open>r\<close> in a cyclic array of \<open>n\<close> cells, and
  the \<open>len\<close> items from \<open>r\<close> on.\<close>

definition slot :: "nat \<Rightarrow> nat \<Rightarrow> nat \<Rightarrow> nat" where
  "slot n r i = (if r + i < n then r + i else r + i - n)"

definition cyc :: "'a list \<Rightarrow> nat \<Rightarrow> nat \<Rightarrow> nat \<Rightarrow> 'a list" where
  "cyc a n r len = map (\<lambda>i. a ! slot n r i) [0..<len]"

lemma length_cyc [simp]: "length (cyc a n r len) = len"
  by (simp add: cyc_def)

lemma cyc_0 [simp]: "cyc a n r 0 = []"
  by (simp add: cyc_def)

lemma cyc_Suc: "cyc a n r (Suc len) = a ! slot n r 0 # cyc a n (slot n r 1) len" if "r < n" "Suc len \<le> n"
  by (rule nth_equalityI)
    (use that in \<open>auto simp: cyc_def slot_def nth_Cons simp del: upt_Suc split: nat.split
       intro!: arg_cong [of _ _ "(!) a"]\<close>)

lemma slot_less: "r < n \<Longrightarrow> i < n \<Longrightarrow> slot n r i < n"
  by (auto simp: slot_def)

lemma slot_inj: "r < n \<Longrightarrow> i < n \<Longrightarrow> j < n \<Longrightarrow> slot n r i = slot n r j \<longleftrightarrow> i = j"
  by (auto simp: slot_def)

lemma cyc_update_other: "(\<And>i. i < len \<Longrightarrow> slot n r i \<noteq> j) \<Longrightarrow> cyc (a[j := x]) n r len = cyc a n r len"
  unfolding cyc_def by (rule map_cong [OF refl], rule nth_list_update_neq) (auto dest: not_sym)

text \<open>The two consequences the models use: items are added behind the last one when the cells they
  go to are written and the others kept, and taken in front by advancing \<open>r\<close>.\<close>

lemma cyc_append:
  assumes r: "r < n" and l: "len + length xs \<le> n"
    and new: "\<And>j. j < length xs \<Longrightarrow> b ! slot n r (len + j) = xs ! j"
    and old: "\<And>i. i < len \<Longrightarrow> b ! slot n r i = a ! slot n r i"
  shows "cyc b n r (len + length xs) = cyc a n r len @ xs"
  by (rule nth_equalityI)
    (use new old in \<open>auto simp: cyc_def nth_append\<close>, metis add_diff_inverse_nat less_diff_conv2 not_less add.commute)

lemma cyc_drop:
  assumes "r < n" "k \<le> len" "len \<le> n"
  shows "cyc a n (slot n r k) (len - k) = drop k (cyc a n r len)"
  by (rule nth_equalityI) (use assms in \<open>auto simp: cyc_def slot_def intro!: arg_cong [of _ _ "(!) a"]\<close>)

lemma cyc_take: "k \<le> len \<Longrightarrow> take k (cyc a n r len) = cyc a n r k"
  by (simp add: cyc_def take_map)

lemma cyc_nowrap: "r + len \<le> n \<Longrightarrow> n \<le> length a \<Longrightarrow> cyc a n r len = take len (drop r a)"
  by (rule nth_equalityI) (auto simp: cyc_def slot_def)

lemma cyc_wrap:
  assumes "r < n" "n - r \<le> len" "len \<le> n" "n \<le> length a"
  shows "cyc a n r len = take (n - r) (drop r a) @ take (len - (n - r)) a"
proof (rule nth_equalityI)
  show "length (cyc a n r len) = length (take (n - r) (drop r a) @ take (len - (n - r)) a)" using assms by simp
  fix i assume "i < length (cyc a n r len)"
  then have i: "i < len" by simp
  show "cyc a n r len ! i = (take (n - r) (drop r a) @ take (len - (n - r)) a) ! i"
  proof (cases "r + i < n")
    case False
    then have "i - (n - r) = r + i - n" "\<not> i < n - r" "r + i - n < len - (n - r)" using assms i by auto
    then show ?thesis using False i assms by (simp add: cyc_def slot_def nth_append min_absorb2)
  next
    case True
    then have "i < n - r" by simp
    then show ?thesis using True i assms by (simp add: cyc_def slot_def nth_append)
  qed
qed

section \<open>The contract\<close>

text \<open>\<open>send\<close> fails on a full buffer and \<open>recv\<close> on an empty one; the other cases are given by the
  list of the items.\<close>

locale bounded_fifo =
  fixes inv :: "'s \<Rightarrow> bool"
    and cap :: "'s \<Rightarrow> nat"
    and items :: "'s \<Rightarrow> 'a list"
    and send :: "'a \<Rightarrow> 's \<Rightarrow> 's option"
    and recv :: "'s \<Rightarrow> ('a \<times> 's) option"
  assumes bounded: "inv s \<Longrightarrow> length (items s) \<le> cap s"
    and send_full: "inv s \<Longrightarrow> length (items s) = cap s \<Longrightarrow> send x s = None"
    and send_ok: "inv s \<Longrightarrow> length (items s) < cap s \<Longrightarrow>
      \<exists>s'. send x s = Some s' \<and> inv s' \<and> cap s' = cap s \<and> items s' = items s @ [x]"
    and recv_empty: "inv s \<Longrightarrow> items s = [] \<Longrightarrow> recv s = None"
    and recv_ok: "inv s \<Longrightarrow> items s = x # xs \<Longrightarrow>
      \<exists>s'. recv s = Some (x, s') \<and> inv s' \<and> cap s' = cap s \<and> items s' = xs"
begin

lemma send_iff: "inv s \<Longrightarrow> send x s \<noteq> None \<longleftrightarrow> length (items s) < cap s"
  using bounded [of s] send_full [of s x] send_ok [of s x] by (cases "length (items s) = cap s") auto

fun send_all :: "'a list \<Rightarrow> 's \<Rightarrow> 's option" where
  "send_all [] s = Some s"
| "send_all (x # xs) s = Option.bind (send x s) (send_all xs)"

fun recv_all :: "nat \<Rightarrow> 's \<Rightarrow> ('a list \<times> 's) option" where
  "recv_all 0 s = Some ([], s)"
| "recv_all (Suc n) s = do { (x, s) \<leftarrow> recv s; (xs, s) \<leftarrow> recv_all n s; Some (x # xs, s) }"

text \<open>A burst that fits is stored completely and behind what was there.\<close>

lemma send_all_ok:
  "inv s \<Longrightarrow> length (items s) + length xs \<le> cap s \<Longrightarrow>
   \<exists>s'. send_all xs s = Some s' \<and> inv s' \<and> cap s' = cap s \<and> items s' = items s @ xs"
proof (induction xs arbitrary: s)
  case (Cons x xs)
  then obtain s1 where "send x s = Some s1" "inv s1" "cap s1 = cap s" "items s1 = items s @ [x]"
    using send_ok [of s x] by auto
  moreover from this obtain s2 where "send_all xs s1 = Some s2" "inv s2" "cap s2 = cap s1" "items s2 = items s1 @ xs"
    using Cons.IH [of s1] Cons.prems by auto
  ultimately show ?case by auto
qed auto

lemma recv_all_ok:
  "inv s \<Longrightarrow> items s = xs @ ys \<Longrightarrow>
   \<exists>s'. recv_all (length xs) s = Some (xs, s') \<and> inv s' \<and> cap s' = cap s \<and> items s' = ys"
proof (induction xs arbitrary: s)
  case (Cons x xs)
  then obtain s1 where "recv s = Some (x, s1)" "inv s1" "cap s1 = cap s" "items s1 = xs @ ys"
    using recv_ok [of s x "xs @ ys"] by auto
  moreover from this obtain s2 where "recv_all (length xs) s1 = Some (xs, s2)" "inv s2" "cap s2 = cap s1" "items s2 = ys"
    using Cons.IH [of s1] by auto
  ultimately show ?case by auto
qed auto

text \<open>First in, first out: what is sent into an empty buffer comes out in the same order.\<close>

lemma fifo_order:
  assumes "inv s" "items s = []" "length xs \<le> cap s"
  shows "\<exists>s1 s2. send_all xs s = Some s1 \<and> recv_all (length xs) s1 = Some (xs, s2) \<and> items s2 = []"
proof -
  obtain s1 where "send_all xs s = Some s1" "inv s1" "items s1 = xs"
    using send_all_ok [of s xs] assms by auto
  then show ?thesis using recv_all_ok [of s1 xs "[]"] by auto
qed

end

end
