(* ===== verification/Ring_Buffer.thy ===== *)
theory Ring_Buffer
  imports Bounded_Fifo
begin

text \<open>
  The byte ring buffer of the device layer, \<^verbatim>\<open>components/drivers/ipc/ringbuffer.c\<close>, with
  its two mirrored indices. The indices are bit fields of 31 bits: an assignment stores the value
  modulo \<open>2 ^ 31\<close>. Every access to the pool is checked (\<open>None\<close> is an access outside it);
  the theorems show that on a well-formed buffer no access fails and that the operations act on the
  sequence \<open>rb_items\<close> of the stored bytes as on a bounded queue.
\<close>

section \<open>Definitions\<close>

record rt_ringbuffer =
  rb_buffer_ptr :: "u8 list"
  rb_read_mirror :: bool
  rb_read_index :: nat
  rb_write_mirror :: bool
  rb_write_index :: nat
  rb_buffer_size :: nat

datatype rt_ringbuffer_state = RT_RINGBUFFER_EMPTY | RT_RINGBUFFER_FULL | RT_RINGBUFFER_HALFFULL

definition rt_ringbuffer_status :: "rt_ringbuffer \<Rightarrow> rt_ringbuffer_state" where
  "rt_ringbuffer_status rb =
     (if rb_read_index rb = rb_write_index rb
      then if rb_read_mirror rb = rb_write_mirror rb then RT_RINGBUFFER_EMPTY else RT_RINGBUFFER_FULL
      else RT_RINGBUFFER_HALFFULL)"

definition rt_ringbuffer_data_len :: "rt_ringbuffer \<Rightarrow> nat" where
  "rt_ringbuffer_data_len rb =
     (case rt_ringbuffer_status rb of
        RT_RINGBUFFER_EMPTY \<Rightarrow> 0
      | RT_RINGBUFFER_FULL \<Rightarrow> rb_buffer_size rb
      | RT_RINGBUFFER_HALFFULL \<Rightarrow>
          let wi = rb_write_index rb; ri = rb_read_index rb
          in if wi > ri then wi - ri else rb_buffer_size rb - (ri - wi))"

definition rt_ringbuffer_space_len :: "rt_ringbuffer \<Rightarrow> nat" where
  "rt_ringbuffer_space_len rb = rb_buffer_size rb - rt_ringbuffer_data_len rb"

definition rt_ringbuffer_get_size :: "rt_ringbuffer \<Rightarrow> nat" where
  "rt_ringbuffer_get_size rb = rb_buffer_size rb"

definition index31 :: "nat \<Rightarrow> nat" where
  "index31 i = i mod 2 ^ 31"

definition align_down :: "nat \<Rightarrow> nat" where
  "align_down sz = sz - sz mod 8"

definition rt_ringbuffer_init :: "u8 list \<Rightarrow> nat \<Rightarrow> rt_ringbuffer option" where
  "rt_ringbuffer_init pool sz = do {
     rt_assert (sz > 0);
     Some \<lparr>rb_buffer_ptr = pool, rb_read_mirror = False, rb_read_index = 0, rb_write_mirror = False,
           rb_write_index = 0, rb_buffer_size = align_down sz\<rparr>
   }"

definition rt_ringbuffer_put :: "rt_ringbuffer \<Rightarrow> u8 list \<Rightarrow> nat \<Rightarrow> (nat \<times> rt_ringbuffer) option" where
  "rt_ringbuffer_put rb ptr len =
     (let sz = rt_ringbuffer_space_len rb
      in if sz = 0 then Some (0, rb)
         else
           let len = (if sz < len then sz else len); w = rb_write_index rb; n = rb_buffer_size rb
           in if n - w > len then do {
                src \<leftarrow> segment 0 len ptr;
                buf \<leftarrow> blit w src (rb_buffer_ptr rb);
                Some (len, rb\<lparr>rb_buffer_ptr := buf, rb_write_index := index31 (w + len)\<rparr>)
              } else do {
                src \<leftarrow> segment 0 (n - w) ptr;
                buf \<leftarrow> blit w src (rb_buffer_ptr rb);
                src \<leftarrow> segment (n - w) (len - (n - w)) ptr;
                buf \<leftarrow> blit 0 src buf;
                Some (len, rb\<lparr>rb_buffer_ptr := buf, rb_write_mirror := \<not> rb_write_mirror rb,
                              rb_write_index := index31 (len - (n - w))\<rparr>)
              })"

definition rt_ringbuffer_put_force :: "rt_ringbuffer \<Rightarrow> u8 list \<Rightarrow> nat \<Rightarrow> (nat \<times> rt_ringbuffer) option" where
  "rt_ringbuffer_put_force rb ptr len =
     (let space_length = rt_ringbuffer_space_len rb; n = rb_buffer_size rb; w = rb_write_index rb;
          (ptr, len) = (if len > n then (drop (len - n) ptr, n) else (ptr, len))
      in if n - w > len then do {
           src \<leftarrow> segment 0 len ptr;
           buf \<leftarrow> blit w src (rb_buffer_ptr rb);
           let rb = rb\<lparr>rb_buffer_ptr := buf, rb_write_index := index31 (w + len)\<rparr>;
           let rb = (if len > space_length then rb\<lparr>rb_read_index := rb_write_index rb\<rparr> else rb);
           Some (len, rb)
         } else do {
           src \<leftarrow> segment 0 (n - w) ptr;
           buf \<leftarrow> blit w src (rb_buffer_ptr rb);
           src \<leftarrow> segment (n - w) (len - (n - w)) ptr;
           buf \<leftarrow> blit 0 src buf;
           let rb = rb\<lparr>rb_buffer_ptr := buf, rb_write_mirror := \<not> rb_write_mirror rb,
                       rb_write_index := index31 (len - (n - w))\<rparr>;
           let rb = (if len > space_length
                     then (if rb_write_index rb \<le> rb_read_index rb
                           then rb\<lparr>rb_read_mirror := \<not> rb_read_mirror rb\<rparr> else rb)
                            \<lparr>rb_read_index := rb_write_index rb\<rparr>
                     else rb);
           Some (len, rb)
         })"

definition rt_ringbuffer_get :: "rt_ringbuffer \<Rightarrow> nat \<Rightarrow> (u8 list \<times> rt_ringbuffer) option" where
  "rt_ringbuffer_get rb len =
     (let sz = rt_ringbuffer_data_len rb
      in if sz = 0 then Some ([], rb)
         else
           let len = (if sz < len then sz else len); r = rb_read_index rb; n = rb_buffer_size rb
           in if n - r > len then do {
                out \<leftarrow> segment r len (rb_buffer_ptr rb);
                Some (out, rb\<lparr>rb_read_index := index31 (r + len)\<rparr>)
              } else do {
                out \<leftarrow> segment r (n - r) (rb_buffer_ptr rb);
                out' \<leftarrow> segment 0 (len - (n - r)) (rb_buffer_ptr rb);
                Some (out @ out', rb\<lparr>rb_read_mirror := \<not> rb_read_mirror rb,
                                     rb_read_index := index31 (len - (n - r))\<rparr>)
              })"

text \<open>\<^verbatim>\<open>rt_ringbuffer_peek\<close> hands out a pointer into the pool (an offset) and a length.\<close>

definition rt_ringbuffer_peek :: "rt_ringbuffer \<Rightarrow> nat \<times> nat option \<times> rt_ringbuffer" where
  "rt_ringbuffer_peek rb =
     (let sz = rt_ringbuffer_data_len rb
      in if sz = 0 then (0, None, rb)
         else
           let r = rb_read_index rb
           in if rb_buffer_size rb - r > sz
              then (sz, Some r, rb\<lparr>rb_read_index := index31 (r + sz)\<rparr>)
              else (rb_buffer_size rb - r, Some r,
                    rb\<lparr>rb_read_mirror := \<not> rb_read_mirror rb, rb_read_index := 0\<rparr>))"

text \<open>Comparisons with \<^verbatim>\<open>buffer_size - 1\<close> are on signed integers.\<close>

definition rt_ringbuffer_putchar :: "rt_ringbuffer \<Rightarrow> u8 \<Rightarrow> (nat \<times> rt_ringbuffer) option" where
  "rt_ringbuffer_putchar rb ch =
     (if rt_ringbuffer_space_len rb = 0 then Some (0, rb)
      else do {
        buf \<leftarrow> blit (rb_write_index rb) [ch] (rb_buffer_ptr rb);
        let rb = rb\<lparr>rb_buffer_ptr := buf\<rparr>;
        Some (1, if int (rb_write_index rb) = int (rb_buffer_size rb) - 1
                 then rb\<lparr>rb_write_mirror := \<not> rb_write_mirror rb, rb_write_index := 0\<rparr>
                 else rb\<lparr>rb_write_index := index31 (rb_write_index rb + 1)\<rparr>)
      })"

definition rt_ringbuffer_putchar_force :: "rt_ringbuffer \<Rightarrow> u8 \<Rightarrow> (nat \<times> rt_ringbuffer) option" where
  "rt_ringbuffer_putchar_force rb ch =
     (let old_state = rt_ringbuffer_status rb
      in do {
        buf \<leftarrow> blit (rb_write_index rb) [ch] (rb_buffer_ptr rb);
        let rb = rb\<lparr>rb_buffer_ptr := buf\<rparr>;
        Some (1, if int (rb_write_index rb) = int (rb_buffer_size rb) - 1
                 then
                   let rb = rb\<lparr>rb_write_mirror := \<not> rb_write_mirror rb, rb_write_index := 0\<rparr>
                   in if old_state = RT_RINGBUFFER_FULL
                      then rb\<lparr>rb_read_mirror := \<not> rb_read_mirror rb, rb_read_index := rb_write_index rb\<rparr>
                      else rb
                 else
                   let rb = rb\<lparr>rb_write_index := index31 (rb_write_index rb + 1)\<rparr>
                   in if old_state = RT_RINGBUFFER_FULL then rb\<lparr>rb_read_index := rb_write_index rb\<rparr> else rb)
      })"

definition rt_ringbuffer_getchar :: "rt_ringbuffer \<Rightarrow> (u8 option \<times> rt_ringbuffer) option" where
  "rt_ringbuffer_getchar rb =
     (if rt_ringbuffer_data_len rb = 0 then Some (None, rb)
      else do {
        ch \<leftarrow> segment (rb_read_index rb) 1 (rb_buffer_ptr rb);
        Some (Some (hd ch), if int (rb_read_index rb) = int (rb_buffer_size rb) - 1
                 then rb\<lparr>rb_read_mirror := \<not> rb_read_mirror rb, rb_read_index := 0\<rparr>
                 else rb\<lparr>rb_read_index := index31 (rb_read_index rb + 1)\<rparr>)
      })"

definition rt_ringbuffer_reset :: "rt_ringbuffer \<Rightarrow> rt_ringbuffer" where
  "rt_ringbuffer_reset rb =
     rb\<lparr>rb_read_mirror := False, rb_read_index := 0, rb_write_mirror := False, rb_write_index := 0\<rparr>"

text \<open>\<open>mem\<close> and \<open>pool\<close> are the answers of the allocator for the structure and for a pool of the
  given size.\<close>

definition rt_ringbuffer_create :: "unit option \<Rightarrow> (nat \<Rightarrow> u8 list option) \<Rightarrow> nat \<Rightarrow> rt_ringbuffer option option" where
  "rt_ringbuffer_create mem malloc sz = do {
     rt_assert (sz > 0);
     let sz = align_down sz;
     case mem of
       None \<Rightarrow> Some None
     | Some _ \<Rightarrow>
         (case malloc sz of
            None \<Rightarrow> Some None
          | Some pool \<Rightarrow> do { rb \<leftarrow> rt_ringbuffer_init pool sz; Some (Some rb) })
   }"

section \<open>Well-formed buffers and their items\<close>

definition rb_wf :: "rt_ringbuffer \<Rightarrow> bool" where
  "rb_wf rb \<longleftrightarrow> 0 < rb_buffer_size rb \<and> rb_buffer_size rb < 2 ^ 31 \<and>
     rb_buffer_size rb \<le> length (rb_buffer_ptr rb) \<and>
     rb_read_index rb < rb_buffer_size rb \<and> rb_write_index rb < rb_buffer_size rb \<and>
     (if rb_read_mirror rb = rb_write_mirror rb then rb_read_index rb \<le> rb_write_index rb
      else rb_write_index rb \<le> rb_read_index rb)"

definition rb_items :: "rt_ringbuffer \<Rightarrow> u8 list" where
  "rb_items rb = cyc (rb_buffer_ptr rb) (rb_buffer_size rb) (rb_read_index rb) (rt_ringbuffer_data_len rb)"

lemma data_len_eq:
  "rb_wf rb \<Longrightarrow> rt_ringbuffer_data_len rb =
     (if rb_read_mirror rb = rb_write_mirror rb then rb_write_index rb - rb_read_index rb
      else rb_buffer_size rb + rb_write_index rb - rb_read_index rb)"
  by (auto simp: rb_wf_def rt_ringbuffer_data_len_def rt_ringbuffer_status_def Let_def split: if_splits)

lemma data_len_le: "rb_wf rb \<Longrightarrow> rt_ringbuffer_data_len rb \<le> rb_buffer_size rb"
  by (simp add: data_len_eq) (auto simp: rb_wf_def split: if_splits)

lemma length_rb_items [simp]: "length (rb_items rb) = rt_ringbuffer_data_len rb"
  by (simp add: rb_items_def)

lemma index31_less [simp]: "i < 2 ^ 31 \<Longrightarrow> index31 i = i"
  by (simp add: index31_def)

text \<open>Advancing an index over \<open>k\<close> cells.\<close>

definition advance_read :: "nat \<Rightarrow> rt_ringbuffer \<Rightarrow> rt_ringbuffer" where
  "advance_read k rb =
     rb\<lparr>rb_read_mirror := (if rb_buffer_size rb - rb_read_index rb > k then rb_read_mirror rb else \<not> rb_read_mirror rb),
        rb_read_index := slot (rb_buffer_size rb) (rb_read_index rb) k\<rparr>"

definition advance_write :: "nat \<Rightarrow> u8 list \<Rightarrow> rt_ringbuffer \<Rightarrow> rt_ringbuffer" where
  "advance_write k buf rb =
     rb\<lparr>rb_buffer_ptr := buf,
        rb_write_mirror := (if rb_buffer_size rb - rb_write_index rb > k then rb_write_mirror rb else \<not> rb_write_mirror rb),
        rb_write_index := slot (rb_buffer_size rb) (rb_write_index rb) k\<rparr>"

text \<open>The pool after \<open>xs\<close> has been copied to the cells from \<open>w\<close> on.\<close>

definition written :: "nat \<Rightarrow> nat \<Rightarrow> u8 list \<Rightarrow> u8 list \<Rightarrow> u8 list \<Rightarrow> bool" where
  "written n w xs a b \<longleftrightarrow> length b = length a \<and> (\<forall>j < length xs. b ! slot n w j = xs ! j) \<and>
     (\<forall>p < n. (\<forall>j < length xs. p \<noteq> slot n w j) \<longrightarrow> b ! p = a ! p)"

lemma advance_read_wf:
  assumes "rb_wf rb" "k \<le> rt_ringbuffer_data_len rb"
  shows "rb_wf (advance_read k rb)" "rt_ringbuffer_data_len (advance_read k rb) = rt_ringbuffer_data_len rb - k"
    "rb_items (advance_read k rb) = drop k (rb_items rb)"
proof -
  show w: "rb_wf (advance_read k rb)"
    using assms unfolding data_len_eq [OF assms(1)]
    by (auto simp: rb_wf_def advance_read_def slot_def split: if_splits)
  show l: "rt_ringbuffer_data_len (advance_read k rb) = rt_ringbuffer_data_len rb - k"
    using assms(2) unfolding data_len_eq [OF assms(1)] data_len_eq [OF w]
    using assms(1) by (auto simp: rb_wf_def advance_read_def slot_def split: if_splits)
  show "rb_items (advance_read k rb) = drop k (rb_items rb)"
    unfolding rb_items_def l using assms data_len_le [OF assms(1)]
    by (simp add: advance_read_def cyc_drop rb_wf_def)
qed

lemma write_slot:
  "rb_wf rb \<Longrightarrow> rt_ringbuffer_data_len rb + j < rb_buffer_size rb \<Longrightarrow>
   slot (rb_buffer_size rb) (rb_read_index rb) (rt_ringbuffer_data_len rb + j) = slot (rb_buffer_size rb) (rb_write_index rb) j"
  unfolding data_len_eq by (auto simp: rb_wf_def slot_def split: if_splits)

lemma advance_write_wf:
  assumes wf: "rb_wf rb" and l: "length xs \<le> rt_ringbuffer_space_len rb"
    and b: "written (rb_buffer_size rb) (rb_write_index rb) xs (rb_buffer_ptr rb) b"
  shows "rb_wf (advance_write (length xs) b rb)"
    "rt_ringbuffer_data_len (advance_write (length xs) b rb) = rt_ringbuffer_data_len rb + length xs"
    "rb_items (advance_write (length xs) b rb) = rb_items rb @ xs"
proof -
  let ?rb = "advance_write (length xs) b rb" and ?n = "rb_buffer_size rb" and ?d = "rt_ringbuffer_data_len rb"
  have l': "?d + length xs \<le> ?n" using l data_len_le [OF wf] by (simp add: rt_ringbuffer_space_len_def)
  show w: "rb_wf ?rb"
    using wf b l' unfolding data_len_eq [OF wf]
    by (auto simp: rb_wf_def advance_write_def slot_def written_def split: if_splits)
  show d: "rt_ringbuffer_data_len ?rb = ?d + length xs"
    using l' unfolding data_len_eq [OF wf] data_len_eq [OF w]
    using wf by (auto simp: rb_wf_def advance_write_def slot_def split: if_splits)
  have rn: "rb_read_index rb < ?n" using wf by (simp add: rb_wf_def)
  have "cyc b ?n (rb_read_index rb) (?d + length xs) = cyc (rb_buffer_ptr rb) ?n (rb_read_index rb) ?d @ xs"
  proof (rule cyc_append [OF rn l'])
    show "b ! slot ?n (rb_read_index rb) (?d + j) = xs ! j" if "j < length xs" for j
      using b that l' by (subst write_slot [OF wf]) (auto simp: written_def)
    show "b ! slot ?n (rb_read_index rb) i = rb_buffer_ptr rb ! slot ?n (rb_read_index rb) i" if "i < ?d" for i
    proof -
      have "slot ?n (rb_read_index rb) i \<noteq> slot ?n (rb_write_index rb) j" if "j < length xs" for j
        using slot_inj [OF rn, of i "?d + j"] write_slot [OF wf, of j] that \<open>i < ?d\<close> l' by auto
      then show ?thesis using b slot_less [OF rn, of i] that l' by (auto simp: written_def)
    qed
  qed
  then show "rb_items ?rb = rb_items rb @ xs" unfolding rb_items_def d by (simp add: advance_write_def)
qed

section \<open>Copying\<close>

lemma written_nowrap:
  assumes b: "blit w xs a = Some b" and n: "w + length xs < n" "n \<le> length a"
  shows "written n w xs a b"
proof -
  have nth: "b ! i = (if w \<le> i \<and> i < w + length xs then xs ! (i - w) else a ! i)" if "i < n" for i
    using blit_nth [OF b, of i] n that by simp
  show ?thesis unfolding written_def
  proof (intro conjI allI impI)
    show "length b = length a" by (rule blit_length [OF b])
    show "b ! slot n w j = xs ! j" if "j < length xs" for j
      using nth [of "w + j"] n that by (simp add: slot_def)
    show "b ! p = a ! p" if p: "p < n" "\<forall>j < length xs. p \<noteq> slot n w j" for p
    proof -
      have "\<not> (w \<le> p \<and> p < w + length xs)"
      proof
        assume "w \<le> p \<and> p < w + length xs"
        then have "p - w < length xs" "slot n w (p - w) = p" using p(1) by (auto simp: slot_def)
        then show False using p(2) by metis
      qed
      then show ?thesis using nth [OF p(1)] by auto
    qed
  qed
qed

lemma written_wrap:
  assumes b1: "blit w (take (n - w) xs) a = Some b1" and b2: "blit 0 (drop (n - w) xs) b1 = Some b"
    and w: "w < n" "n - w \<le> length xs" "length xs \<le> n" "n \<le> length a"
  shows "written n w xs a b"
proof -
  note l = blit_length [OF b1] blit_length [OF b2]
  have nth: "b ! i = (if i < length xs - (n - w) then xs ! (n - w + i) else if w \<le> i \<and> i < n then xs ! (i - w) else a ! i)"
    if "i < n" for i
    using blit_nth [OF b1, of i] blit_nth [OF b2, of i] l w that by auto
  show ?thesis unfolding written_def
  proof (intro conjI allI impI)
    show "length b = length a" using l by simp
    show "b ! slot n w j = xs ! j" if "j < length xs" for j
    proof (cases "w + j < n")
      case False
      then have "w + j - n < length xs - (n - w)" "n - w + (w + j - n) = j" using that w by auto
      then show ?thesis using False nth [of "w + j - n"] w that by (simp add: slot_def)
    next
      case True
      moreover have "\<not> w + j < length xs - (n - w)" using w by auto
      ultimately show ?thesis using nth [of "w + j"] by (simp add: slot_def)
    qed
    show "b ! p = a ! p" if p: "p < n" "\<forall>j < length xs. p \<noteq> slot n w j" for p
    proof -
      have "\<not> p < length xs - (n - w)"
      proof
        assume "p < length xs - (n - w)"
        then have "n - w + p < length xs" "slot n w (n - w + p) = p" using w by (auto simp: slot_def)
        then show False using p(2) by metis
      qed
      moreover have "\<not> w \<le> p"
      proof
        assume "w \<le> p"
        then have "p - w < length xs" "slot n w (p - w) = p" using w p(1) by (auto simp: slot_def)
        then show False using p(2) by metis
      qed
      ultimately show ?thesis using nth [OF p(1)] by simp
    qed
  qed
qed

text \<open>The common copying part of the two \<^verbatim>\<open>put\<close> operations.\<close>

definition put_copy :: "rt_ringbuffer \<Rightarrow> u8 list \<Rightarrow> nat \<Rightarrow> rt_ringbuffer option" where
  "put_copy rb ptr len =
     (let w = rb_write_index rb; n = rb_buffer_size rb
      in if n - w > len then do {
           src \<leftarrow> segment 0 len ptr;
           buf \<leftarrow> blit w src (rb_buffer_ptr rb);
           Some (rb\<lparr>rb_buffer_ptr := buf, rb_write_index := index31 (w + len)\<rparr>)
         } else do {
           src \<leftarrow> segment 0 (n - w) ptr;
           buf \<leftarrow> blit w src (rb_buffer_ptr rb);
           src \<leftarrow> segment (n - w) (len - (n - w)) ptr;
           buf \<leftarrow> blit 0 src buf;
           Some (rb\<lparr>rb_buffer_ptr := buf, rb_write_mirror := \<not> rb_write_mirror rb,
                    rb_write_index := index31 (len - (n - w))\<rparr>)
         })"

lemma put_copy_wp:
  assumes wf: "rb_wf rb" and l: "len \<le> length ptr" "len \<le> rb_buffer_size rb"
    and Q: "\<And>b. written (rb_buffer_size rb) (rb_write_index rb) (take len ptr) (rb_buffer_ptr rb) b \<Longrightarrow>
       Q (advance_write len b rb)"
  shows "wp (put_copy rb ptr len) Q"
proof (cases "rb_buffer_size rb - rb_write_index rb > len")
  case True
  obtain b where b: "blit (rb_write_index rb) (take len ptr) (rb_buffer_ptr rb) = Some b"
    using blit_defined [of "rb_write_index rb" "take len ptr" "rb_buffer_ptr rb"] True l wf
    by (force simp: rb_wf_def)
  have "written (rb_buffer_size rb) (rb_write_index rb) (take len ptr) (rb_buffer_ptr rb) b"
    using True wf l by (intro written_nowrap [OF b]) (auto simp: rb_wf_def)
  moreover have "rb_write_index rb + len < rb_buffer_size rb" "rb_buffer_size rb < 2 ^ 31"
    using True wf by (auto simp: rb_wf_def)
  ultimately show ?thesis
    using True b l Q [of b] by (simp add: put_copy_def segment_def Let_def advance_write_def slot_def)
next
  case False
  let ?d = "rb_buffer_size rb - rb_write_index rb"
  have d: "?d \<le> len" "rb_write_index rb < rb_buffer_size rb" "rb_buffer_size rb \<le> length (rb_buffer_ptr rb)"
    "rb_buffer_size rb < 2 ^ 31" using False wf by (auto simp: rb_wf_def)
  obtain b1 where b1: "blit (rb_write_index rb) (take ?d (take len ptr)) (rb_buffer_ptr rb) = Some b1"
    using blit_defined [of "rb_write_index rb" "take ?d (take len ptr)" "rb_buffer_ptr rb"] d l by auto
  obtain b where b: "blit 0 (drop ?d (take len ptr)) b1 = Some b"
    using blit_defined [of 0 "drop ?d (take len ptr)" b1] d l blit_length [OF b1] by force
  have "written (rb_buffer_size rb) (rb_write_index rb) (take len ptr) (rb_buffer_ptr rb) b"
    using d l by (intro written_wrap [OF b1 b]) auto
  moreover have "slot (rb_buffer_size rb) (rb_write_index rb) len = len + rb_write_index rb - rb_buffer_size rb"
    using d by (auto simp: slot_def)
  ultimately show ?thesis
    using False b1 b l d Q [of b]
    by (simp add: put_copy_def segment_def Let_def advance_write_def min_def drop_take)
qed

lemma put_put_copy:
  "rt_ringbuffer_put rb ptr len =
     (if rt_ringbuffer_space_len rb = 0 then Some (0, rb)
      else let m = min (rt_ringbuffer_space_len rb) len in Option.bind (put_copy rb ptr m) (\<lambda>rb. Some (m, rb)))"
  by (auto simp: rt_ringbuffer_put_def put_copy_def Let_def min_def split: option.splits)

lemma put_wp:
  assumes wf: "rb_wf rb" and l: "len \<le> length ptr"
    and Q: "\<And>m rb'. m = min (rt_ringbuffer_space_len rb) len \<Longrightarrow> rb_wf rb' \<Longrightarrow> rb_buffer_size rb' = rb_buffer_size rb \<Longrightarrow>
       rb_items rb' = rb_items rb @ take m ptr \<Longrightarrow> Q (m, rb')"
  shows "wp (rt_ringbuffer_put rb ptr len) Q"
proof (cases "rt_ringbuffer_space_len rb = 0")
  case False
  let ?m = "min (rt_ringbuffer_space_len rb) len"
  have "wp (put_copy rb ptr ?m) (\<lambda>rb. Q (?m, rb))"
  proof (rule put_copy_wp [OF wf])
    show "?m \<le> length ptr" "?m \<le> rb_buffer_size rb" using l by (auto simp: rt_ringbuffer_space_len_def)
    fix b assume b: "written (rb_buffer_size rb) (rb_write_index rb) (take ?m ptr) (rb_buffer_ptr rb) b"
    have "length (take ?m ptr) = ?m" using l by auto
    with advance_write_wf [OF wf _ b] show "Q (?m, advance_write ?m b rb)"
      by (intro Q) (auto simp: advance_write_def)
  qed
  then show ?thesis using False by (simp add: put_put_copy Let_def)
qed (use Q [of 0 rb] wf in \<open>simp add: put_put_copy\<close>)

lemma put_force_put_copy:
  "rt_ringbuffer_put_force rb ptr len =
     (let space_length = rt_ringbuffer_space_len rb; n = rb_buffer_size rb; m = min n len
      in do {
        rb' \<leftarrow> put_copy rb (drop (len - m) ptr) m;
        Some (m, if m > space_length
                 then rb'\<lparr>rb_read_mirror := (if n - rb_write_index rb \<le> m \<and> rb_write_index rb' \<le> rb_read_index rb
                                              then \<not> rb_read_mirror rb else rb_read_mirror rb),
                         rb_read_index := rb_write_index rb'\<rparr>
                 else rb')
      })"
proof -
  have e: "(if c then r\<lparr>rb_read_mirror := x\<rparr> else r)\<lparr>rb_read_index := y\<rparr> =
      r\<lparr>rb_read_mirror := (if c then x else rb_read_mirror r), rb_read_index := y\<rparr>" for c x y and r :: rt_ringbuffer
    by simp
  have e': "r\<lparr>rb_buffer_ptr := a, rb_write_index := i, rb_read_mirror := rb_read_mirror r, rb_read_index := y\<rparr> =
      r\<lparr>rb_buffer_ptr := a, rb_write_index := i, rb_read_index := y\<rparr>" for a i y and r :: rt_ringbuffer
    by (cases r) simp
  define m p where "m = min (rb_buffer_size rb) len" and "p = drop (len - m) ptr"
  have mp: "(if len > rb_buffer_size rb then (drop (len - rb_buffer_size rb) ptr, rb_buffer_size rb) else (ptr, len)) = (p, m)"
    by (auto simp: m_def p_def min_def)
  show ?thesis
  proof (cases "m < rb_buffer_size rb - rb_write_index rb")
    case True
    then have "\<not> rb_buffer_size rb - rb_write_index rb \<le> m" by simp
    then show ?thesis
      unfolding rt_ringbuffer_put_force_def Let_def mp prod.case m_def [symmetric] p_def [symmetric]
      using True by (simp add: put_copy_def Let_def e' cong: if_cong)
  next
    case False
    then show ?thesis
      unfolding rt_ringbuffer_put_force_def Let_def mp prod.case m_def [symmetric] p_def [symmetric]
      by (simp add: put_copy_def Let_def e cong: if_cong)
  qed
qed

text \<open>Overwriting \<open>m\<close> bytes where only \<open>s < m\<close> are free is taking \<open>m - s\<close> bytes first.\<close>

lemma overwrite_eq:
  assumes wf: "rb_wf rb" and m: "rt_ringbuffer_space_len rb < m" "m \<le> rb_buffer_size rb"
  shows "(advance_write m b rb)\<lparr>rb_read_mirror :=
      (if rb_buffer_size rb - rb_write_index rb \<le> m \<and> rb_write_index (advance_write m b rb) \<le> rb_read_index rb
       then \<not> rb_read_mirror rb else rb_read_mirror rb), rb_read_index := rb_write_index (advance_write m b rb)\<rparr> =
    advance_write m b (advance_read (m - rt_ringbuffer_space_len rb) rb)"
proof -
  let ?n = "rb_buffer_size rb" and ?w = "rb_write_index rb" and ?r = "rb_read_index rb"
  have s: "rt_ringbuffer_space_len rb = (if rb_read_mirror rb = rb_write_mirror rb then ?n - (?w - ?r) else ?r - ?w)"
    using wf by (simp add: rt_ringbuffer_space_len_def data_len_eq) (auto simp: rb_wf_def split: if_splits)
  have i: "slot ?n ?w m = slot ?n ?r (m - rt_ringbuffer_space_len rb)"
    using wf m unfolding s by (auto simp: slot_def rb_wf_def split: if_splits)
  have f: "(?n - ?w \<le> m \<and> slot ?n ?w m \<le> ?r) = (\<not> ?n - ?r > m - rt_ringbuffer_space_len rb)"
    using wf m unfolding s by (auto simp: slot_def rb_wf_def split: if_splits)
  show ?thesis using i f by (simp add: advance_write_def advance_read_def)
qed

lemma put_force_wp:
  assumes wf: "rb_wf rb" and l: "len \<le> length ptr"
    and Q: "\<And>m rb'. m = min (rb_buffer_size rb) len \<Longrightarrow> rb_wf rb' \<Longrightarrow> rb_buffer_size rb' = rb_buffer_size rb \<Longrightarrow>
       rb_items rb' = drop (length (rb_items rb) + m - rb_buffer_size rb) (rb_items rb) @ take m (drop (len - m) ptr) \<Longrightarrow> Q (m, rb')"
  shows "wp (rt_ringbuffer_put_force rb ptr len) Q"
proof -
  let ?n = "rb_buffer_size rb" and ?s = "rt_ringbuffer_space_len rb" and ?d = "rt_ringbuffer_data_len rb"
  define m where "m = min ?n len"
  let ?p = "drop (len - m) ptr"
  have dl: "?d \<le> ?n" "?s = ?n - ?d" using data_len_le [OF wf] by (simp_all add: rt_ringbuffer_space_len_def)
  have lm: "length (take m ?p) = m" using l by (auto simp: m_def)
  have "wp (put_copy rb ?p m) (\<lambda>rb'. Q (m, if m > ?s
                 then rb'\<lparr>rb_read_mirror := (if ?n - rb_write_index rb \<le> m \<and> rb_write_index rb' \<le> rb_read_index rb
                                              then \<not> rb_read_mirror rb else rb_read_mirror rb),
                         rb_read_index := rb_write_index rb'\<rparr>
                 else rb'))"
  proof (rule put_copy_wp [OF wf])
    show "m \<le> length ?p" "m \<le> ?n" using l by (auto simp: m_def)
    fix b assume b: "written ?n (rb_write_index rb) (take m ?p) (rb_buffer_ptr rb) b"
    show "Q (m, if m > ?s then (advance_write m b rb)\<lparr>rb_read_mirror :=
        (if ?n - rb_write_index rb \<le> m \<and> rb_write_index (advance_write m b rb) \<le> rb_read_index rb
         then \<not> rb_read_mirror rb else rb_read_mirror rb), rb_read_index := rb_write_index (advance_write m b rb)\<rparr>
        else advance_write m b rb)"
    proof (cases "m > ?s")
      case False
      have A: "rb_wf (advance_write m b rb)" "rb_items (advance_write m b rb) = rb_items rb @ take m ?p"
        using advance_write_wf [OF wf _ b] False lm by simp_all
      have "?d + m - ?n = 0" using False dl by simp
      then show ?thesis
        unfolding if_not_P [OF False] using A(2)
        by (intro Q [OF m_def A(1)]) (simp_all add: advance_write_def)
    next
      case True
      let ?rb = "advance_read (m - ?s) rb"
      have k: "m - ?s \<le> ?d" using dl by (auto simp: m_def)
      note R = advance_read_wf [OF wf k]
      have b': "written (rb_buffer_size ?rb) (rb_write_index ?rb) (take m ?p) (rb_buffer_ptr ?rb) b"
        using b by (simp add: advance_read_def)
      have "m \<le> rt_ringbuffer_space_len ?rb"
        using dl k True R(2) by (simp add: rt_ringbuffer_space_len_def advance_read_def)
      then have W: "rb_wf (advance_write m b ?rb)" "rb_items (advance_write m b ?rb) = rb_items ?rb @ take m ?p"
        using advance_write_wf [OF R(1) _ b'] lm by simp_all
      have "m \<le> ?n" by (simp add: m_def)
      then show ?thesis
        unfolding overwrite_eq [OF wf True \<open>m \<le> ?n\<close>] if_P [OF True]
        using W(2) R(3) dl True
        by (intro Q [OF m_def W(1)]) (simp_all add: advance_write_def advance_read_def add.commute)
    qed
  qed
  then show ?thesis by (simp only: put_force_put_copy Let_def m_def [symmetric] wp_simps)
qed

lemma get_eq:
  assumes wf: "rb_wf rb"
  shows "rt_ringbuffer_get rb len =
     Some (take len (rb_items rb), advance_read (min (rt_ringbuffer_data_len rb) len) rb)"
proof (cases "rt_ringbuffer_data_len rb = 0")
  case True
  have "rb_buffer_size rb - rb_read_index rb > 0" "rb_read_index rb < rb_buffer_size rb" using wf by (auto simp: rb_wf_def)
  then show ?thesis using True by (simp add: rt_ringbuffer_get_def advance_read_def slot_def rb_items_def)
next
  case False
  let ?r = "rb_read_index rb" and ?n = "rb_buffer_size rb" and ?a = "rb_buffer_ptr rb"
  define m where "m = min (rt_ringbuffer_data_len rb) len"
  have m: "(if rt_ringbuffer_data_len rb < len then rt_ringbuffer_data_len rb else len) = m" by (simp add: m_def)
  have w: "?r < ?n" "?n \<le> length ?a" "?n < 2 ^ 31" "m \<le> ?n"
    using wf data_len_le [OF wf] by (auto simp: rb_wf_def m_def)
  have t: "take len (rb_items rb) = cyc ?a ?n ?r m"
    unfolding rb_items_def m_def by (cases "len \<le> rt_ringbuffer_data_len rb") (simp_all add: cyc_take)
  show ?thesis
  proof (cases "?n - ?r > m")
    case True
    have "take m (drop ?r ?a) = cyc ?a ?n ?r m"
      using True w by (intro cyc_nowrap [symmetric]) auto
    then show ?thesis
      using True False w t
      by (simp add: rt_ringbuffer_get_def Let_def m m_def [symmetric] segment_def advance_read_def slot_def)
  next
    case ge: False
    have c: "take (?n - ?r) (drop ?r ?a) @ take (m - (?n - ?r)) ?a = cyc ?a ?n ?r m"
      using ge w by (intro cyc_wrap [symmetric]) auto
    have s: "slot ?n ?r m = m - (?n - ?r)" "index31 (m - (?n - ?r)) = m - (?n - ?r)" "m - (?n - ?r) \<le> length ?a"
      using ge w by (auto simp: slot_def)
    show ?thesis
      unfolding t rt_ringbuffer_get_def Let_def m m_def [symmetric]
      using ge False w c s by (simp add: segment_def advance_read_def)
  qed
qed

lemma peek_eq:
  assumes wf: "rb_wf rb" and n: "rt_ringbuffer_data_len rb \<noteq> 0"
  shows "rt_ringbuffer_peek rb = (let m = min (rt_ringbuffer_data_len rb) (rb_buffer_size rb - rb_read_index rb)
     in (m, Some (rb_read_index rb), advance_read m rb))"
proof (cases "rb_buffer_size rb - rb_read_index rb > rt_ringbuffer_data_len rb")
  case True
  then have "rb_read_index rb + rt_ringbuffer_data_len rb < rb_buffer_size rb" "rb_buffer_size rb < 2 ^ 31"
    using wf by (auto simp: rb_wf_def)
  with True n show ?thesis
    by (simp add: rt_ringbuffer_peek_def Let_def advance_read_def slot_def min_def)
next
  case False
  moreover have "min (rt_ringbuffer_data_len rb) (rb_buffer_size rb - rb_read_index rb) = rb_buffer_size rb - rb_read_index rb"
    using False by simp
  moreover have "slot (rb_buffer_size rb) (rb_read_index rb) (rb_buffer_size rb - rb_read_index rb) = 0"
    using wf by (auto simp: slot_def rb_wf_def)
  ultimately show ?thesis using n unfolding rt_ringbuffer_peek_def Let_def by (simp add: advance_read_def)
qed

text \<open>The single-byte operations are the block operations on one byte.\<close>

lemma index_last: "rb_wf rb \<Longrightarrow> (int (rb_write_index rb) = int (rb_buffer_size rb) - 1) = (\<not> rb_buffer_size rb - rb_write_index rb > 1)"
   "rb_wf rb \<Longrightarrow> (int (rb_read_index rb) = int (rb_buffer_size rb) - 1) = (\<not> rb_buffer_size rb - rb_read_index rb > 1)"
  by (auto simp: rb_wf_def)

lemma getchar_eq:
  assumes wf: "rb_wf rb"
  shows "rt_ringbuffer_getchar rb = (case rb_items rb of [] \<Rightarrow> Some (None, rb) | x # _ \<Rightarrow> Some (Some x, advance_read 1 rb))"
proof (cases "rt_ringbuffer_data_len rb = 0")
  case False
  have w: "rb_read_index rb < rb_buffer_size rb" "rb_buffer_size rb \<le> length (rb_buffer_ptr rb)" "rb_buffer_size rb < 2 ^ 31"
    using wf by (auto simp: rb_wf_def)
  obtain m where m: "rt_ringbuffer_data_len rb = Suc m" using False by (cases "rt_ringbuffer_data_len rb") auto
  have "rb_items rb = rb_buffer_ptr rb ! rb_read_index rb # tl (rb_items rb)"
    unfolding rb_items_def m by (subst (1 2) cyc_Suc) (use w m data_len_le [OF wf] in \<open>simp_all add: slot_def\<close>)
  moreover have "hd (take 1 (drop (rb_read_index rb) (rb_buffer_ptr rb))) = rb_buffer_ptr rb ! rb_read_index rb"
    using w by (simp add: hd_drop_conv_nth)
  ultimately show ?thesis
    using False w index_last(2) [OF wf]
    by (auto simp: rt_ringbuffer_getchar_def segment_def advance_read_def slot_def split: list.split)
qed (simp add: rt_ringbuffer_getchar_def rb_items_def)

lemma putchar_put:
  assumes wf: "rb_wf rb"
  shows "rt_ringbuffer_putchar rb ch = rt_ringbuffer_put rb [ch] 1"
proof (cases "rt_ringbuffer_space_len rb = 0")
  case False
  then have m: "(if rt_ringbuffer_space_len rb < 1 then rt_ringbuffer_space_len rb else 1) = 1" by simp
  show ?thesis
  proof (cases "rb_buffer_size rb - rb_write_index rb > 1")
    case True
    then show ?thesis
      using False index_last(1) [OF wf] unfolding rt_ringbuffer_putchar_def rt_ringbuffer_put_def Let_def m
      by (simp add: segment_def)
  next
    case last: False
    then have "rb_buffer_size rb - rb_write_index rb = 1" using wf by (auto simp: rb_wf_def)
    moreover have "blit 0 [] buf = Some buf" for buf :: "u8 list" by (simp add: blit_def)
    ultimately show ?thesis
      using False last index_last(1) [OF wf] unfolding rt_ringbuffer_putchar_def rt_ringbuffer_put_def Let_def m
      by (simp add: segment_def)
  qed
qed (simp add: rt_ringbuffer_putchar_def rt_ringbuffer_put_def)

lemma putchar_force_put_force:
  assumes wf: "rb_wf rb"
  shows "rt_ringbuffer_putchar_force rb ch = rt_ringbuffer_put_force rb [ch] 1"
proof -
  have n: "\<not> 1 > rb_buffer_size rb" using wf by (simp add: rb_wf_def)
  have s: "1 > rt_ringbuffer_space_len rb \<longleftrightarrow> rt_ringbuffer_status rb = RT_RINGBUFFER_FULL"
    using wf data_len_le [OF wf] unfolding rt_ringbuffer_space_len_def data_len_eq [OF wf]
    by (auto simp: rt_ringbuffer_status_def rb_wf_def split: if_splits)
  show ?thesis
  proof (cases "rb_buffer_size rb - rb_write_index rb > 1")
    case True
    then show ?thesis
      using n index_last(1) [OF wf] s unfolding rt_ringbuffer_putchar_force_def rt_ringbuffer_put_force_def
      by (simp add: segment_def Let_def)
  next
    case last: False
    then have "rb_buffer_size rb - rb_write_index rb = 1" using wf by (auto simp: rb_wf_def)
    moreover have "blit 0 [] buf = Some buf" for buf :: "u8 list" by (simp add: blit_def)
    ultimately show ?thesis
      using n last index_last(1) [OF wf] s unfolding rt_ringbuffer_putchar_force_def rt_ringbuffer_put_force_def
      by (simp add: segment_def Let_def cong: if_cong)
  qed
qed

section \<open>The ring buffer as a bounded queue of bytes\<close>

definition rb_send :: "u8 \<Rightarrow> rt_ringbuffer \<Rightarrow> rt_ringbuffer option" where
  "rb_send ch rb = do { (n, rb') \<leftarrow> rt_ringbuffer_putchar rb ch; if n = 0 then None else Some rb' }"

definition rb_recv :: "rt_ringbuffer \<Rightarrow> (u8 \<times> rt_ringbuffer) option" where
  "rb_recv rb = do { (ch, rb') \<leftarrow> rt_ringbuffer_getchar rb; c \<leftarrow> ch; Some (c, rb') }"

interpretation rb_fifo: bounded_fifo rb_wf rb_buffer_size rb_items rb_send rb_recv
proof unfold_locales
  fix s :: rt_ringbuffer and x xs assume wf: "rb_wf s"
  show "length (rb_items s) \<le> rb_buffer_size s" using data_len_le [OF wf] by simp
  show "rb_send x s = None" if "length (rb_items s) = rb_buffer_size s"
    using that by (simp add: rb_send_def rt_ringbuffer_putchar_def rt_ringbuffer_space_len_def)
  show "\<exists>s'. rb_send x s = Some s' \<and> rb_wf s' \<and> rb_buffer_size s' = rb_buffer_size s \<and> rb_items s' = rb_items s @ [x]"
    if "length (rb_items s) < rb_buffer_size s"
  proof -
    have "min (rt_ringbuffer_space_len s) 1 = 1" using that by (simp add: rt_ringbuffer_space_len_def)
    then have "wp (rt_ringbuffer_put s [x] 1) (\<lambda>(m, s'). m = 1 \<and> rb_wf s' \<and> rb_buffer_size s' = rb_buffer_size s \<and>
        rb_items s' = rb_items s @ [x])"
      by (intro put_wp [OF wf]) auto
    then show ?thesis by (auto simp: wp_def rb_send_def putchar_put [OF wf])
  qed
  show "rb_recv s = None" if "rb_items s = []" using that by (simp add: rb_recv_def getchar_eq [OF wf])
  show "\<exists>s'. rb_recv s = Some (x, s') \<and> rb_wf s' \<and> rb_buffer_size s' = rb_buffer_size s \<and> rb_items s' = xs"
    if i: "rb_items s = x # xs"
  proof -
    have "1 \<le> rt_ringbuffer_data_len s" using arg_cong [OF i, of length] by simp
    from advance_read_wf [OF wf this] show ?thesis
      using i by (simp add: rb_recv_def getchar_eq [OF wf]) (simp add: advance_read_def)
  qed
qed

section \<open>Properties\<close>

text \<open>C36. The ring buffer refines a bounded queue: on a well-formed buffer, \<^verbatim>\<open>rt_ringbuffer_put\<close>
  never leaves the pool, stores exactly the bytes that fit behind the stored ones and reports their
  number; \<^verbatim>\<open>rt_ringbuffer_get\<close> returns the oldest bytes in order and removes them; the
  buffer stays well-formed.\<close>

theorem rt_ringbuffer_put_get_refines:
  assumes wf: "rb_wf rb" and l: "len \<le> length ptr"
  shows "wp (rt_ringbuffer_put rb ptr len) (\<lambda>(n, rb'). n = min len (rb_buffer_size rb - length (rb_items rb)) \<and>
       rb_wf rb' \<and> rb_buffer_size rb' = rb_buffer_size rb \<and> rb_items rb' = rb_items rb @ take n ptr) \<and>
     wp (rt_ringbuffer_get rb len) (\<lambda>(out, rb'). out = take len (rb_items rb) \<and>
       rb_wf rb' \<and> rb_buffer_size rb' = rb_buffer_size rb \<and> rb_items rb' = drop len (rb_items rb))"
proof
  show "wp (rt_ringbuffer_put rb ptr len) (\<lambda>(n, rb'). n = min len (rb_buffer_size rb - length (rb_items rb)) \<and>
       rb_wf rb' \<and> rb_buffer_size rb' = rb_buffer_size rb \<and> rb_items rb' = rb_items rb @ take n ptr)"
    by (rule put_wp [OF assms]) (simp add: rt_ringbuffer_space_len_def min.commute)
  show "wp (rt_ringbuffer_get rb len) (\<lambda>(out, rb'). out = take len (rb_items rb) \<and>
       rb_wf rb' \<and> rb_buffer_size rb' = rb_buffer_size rb \<and> rb_items rb' = drop len (rb_items rb))"
    using advance_read_wf [OF wf, of "min (rt_ringbuffer_data_len rb) len"]
    by (auto simp: get_eq [OF wf] min_def) (simp_all add: advance_read_def)
qed

definition sample_rb :: rt_ringbuffer where
  "sample_rb = \<lparr>rb_buffer_ptr = [1, 2, 3, 4, 5, 6, 7, 8], rb_read_mirror = False, rb_read_index = 5,
     rb_write_mirror = True, rb_write_index = 1, rb_buffer_size = 8\<rparr>"

lemma sample_rb_facts: "rb_wf sample_rb" "rb_items sample_rb = [6, 7, 8, 1]" "rb_buffer_size sample_rb = 8"
  by (simp_all add: sample_rb_def rb_wf_def rb_items_def rt_ringbuffer_data_len_def rt_ringbuffer_status_def
      cyc_def slot_def upt_conv_Cons)

theorem rt_ringbuffer_put_get_refines_witness:
  "wp (rt_ringbuffer_put sample_rb [9, 10, 11, 12, 13] 5) (\<lambda>(n, rb'). n = 4 \<and>
       rb_items rb' = [6, 7, 8, 1, 9, 10, 11, 12]) \<and>
   wp (rt_ringbuffer_get sample_rb 5) (\<lambda>(out, rb'). out = [6, 7, 8, 1] \<and> rb_items rb' = [])"
  using rt_ringbuffer_put_get_refines [of sample_rb 5 "[9, 10, 11, 12, 13]"] sample_rb_facts
  by (auto simp: wp_def)

text \<open>\<^verbatim>\<open>rt_ringbuffer_put_force\<close> always stores the data, dropping the oldest bytes: the buffer
  ends with the last \<^verbatim>\<open>buffer_size\<close> bytes of what was stored followed by what is put.\<close>

theorem rt_ringbuffer_put_force_keeps_last:
  assumes wf: "rb_wf rb" and l: "len \<le> length ptr"
  shows "wp (rt_ringbuffer_put_force rb ptr len) (\<lambda>(n, rb'). n = min len (rb_buffer_size rb) \<and>
       rb_wf rb' \<and> rb_buffer_size rb' = rb_buffer_size rb \<and>
       rb_items rb' = (let stream = rb_items rb @ take len ptr in drop (length stream - rb_buffer_size rb) stream))"
proof (rule put_force_wp [OF assms])
  fix m rb' assume m: "m = min (rb_buffer_size rb) len" and r: "rb_wf rb'" "rb_buffer_size rb' = rb_buffer_size rb"
    "rb_items rb' = drop (length (rb_items rb) + m - rb_buffer_size rb) (rb_items rb) @ take m (drop (len - m) ptr)"
  have "drop (length (rb_items rb) + m - rb_buffer_size rb) (rb_items rb) @ take m (drop (len - m) ptr) =
      drop (length (rb_items rb) + len - rb_buffer_size rb) (rb_items rb @ take len ptr)"
  proof (cases "len \<le> rb_buffer_size rb")
    case True
    then show ?thesis using m data_len_le [OF wf] l by simp
  next
    case False
    then show ?thesis using m data_len_le [OF wf] l by (simp add: drop_take)
  qed
  then show "case (m, rb') of (n, rb') \<Rightarrow> n = min len (rb_buffer_size rb) \<and> rb_wf rb' \<and>
     rb_buffer_size rb' = rb_buffer_size rb \<and>
     rb_items rb' = (let stream = rb_items rb @ take len ptr in drop (length stream - rb_buffer_size rb) stream)"
    using m r l by (simp add: Let_def min.commute)
qed

text \<open>The single-byte operations agree with the block operations on one byte, and a burst of bytes
  put one by one into an empty buffer that can hold it is read back one by one in the same order.\<close>

lemma rt_ringbuffer_chars:
  assumes wf: "rb_wf rb"
  shows "rt_ringbuffer_putchar rb ch = rt_ringbuffer_put rb [ch] 1 \<and>
     rt_ringbuffer_putchar_force rb ch = rt_ringbuffer_put_force rb [ch] 1 \<and>
     (rb_items rb = [] \<and> length xs \<le> rb_buffer_size rb \<longrightarrow>
       (\<exists>rb1 rb2. rb_fifo.send_all xs rb = Some rb1 \<and> rb_fifo.recv_all (length xs) rb1 = Some (xs, rb2) \<and>
          rb_items rb2 = []))"
  using putchar_put [OF wf] putchar_force_put_force [OF wf] rb_fifo.fifo_order [OF wf] by blast

text \<open>\<^verbatim>\<open>rt_ringbuffer_peek\<close> does not only look: it hands out the contiguous run of the oldest
  bytes and removes them from the buffer.\<close>

theorem rt_ringbuffer_peek_consumes:
  assumes wf: "rb_wf rb" and n: "rb_items rb \<noteq> []"
  shows "case rt_ringbuffer_peek rb of (n, ptr, rb') \<Rightarrow>
     0 < n \<and> ptr = Some (rb_read_index rb) \<and>
     segment (rb_read_index rb) n (rb_buffer_ptr rb) = Some (take n (rb_items rb)) \<and>
     rb_wf rb' \<and> rb_items rb' = drop n (rb_items rb)"
proof -
  let ?m = "min (rt_ringbuffer_data_len rb) (rb_buffer_size rb - rb_read_index rb)"
  have d: "rt_ringbuffer_data_len rb \<noteq> 0" using n length_rb_items [of rb] by (metis length_0_conv)
  have w: "rb_read_index rb < rb_buffer_size rb" "rb_buffer_size rb \<le> length (rb_buffer_ptr rb)"
    using wf by (auto simp: rb_wf_def)
  have "take ?m (drop (rb_read_index rb) (rb_buffer_ptr rb)) = take ?m (rb_items rb)"
    by (rule nth_equalityI) (use w in \<open>auto simp: rb_items_def cyc_def slot_def\<close>)
  then show ?thesis
    using advance_read_wf [OF wf, of ?m] d w by (simp add: peek_eq [OF wf d] Let_def segment_def)
qed

text \<open>A pool of fewer than 8 bytes: \<^verbatim>\<open>rt_ringbuffer_init\<close> accepts it and aligns the capacity
  down to 0. Nothing can be put, and \<^verbatim>\<open>rt_ringbuffer_putchar_force\<close>, which does not check the
  capacity, walks through the pool and writes behind its end.\<close>

fun force_bytes :: "u8 list \<Rightarrow> rt_ringbuffer \<Rightarrow> rt_ringbuffer option" where
  "force_bytes [] rb = Some rb"
| "force_bytes (c # cs) rb = do { (_, rb) \<leftarrow> rt_ringbuffer_putchar_force rb c; force_bytes cs rb }"

lemma force_bytes_overrun:
  "rb_buffer_size rb = 0 \<Longrightarrow> length (rb_buffer_ptr rb) < 2 ^ 31 \<Longrightarrow>
   rb_write_index rb + length cs > length (rb_buffer_ptr rb) \<Longrightarrow> rb_write_index rb \<le> length (rb_buffer_ptr rb) \<Longrightarrow>
   force_bytes cs rb = None"
proof (induction cs arbitrary: rb)
  case (Cons c cs)
  show ?case
  proof (cases "rb_write_index rb = length (rb_buffer_ptr rb)")
    case True
    then show ?thesis by (simp add: rt_ringbuffer_putchar_force_def blit_def)
  next
    case False
    obtain b where b: "blit (rb_write_index rb) [c] (rb_buffer_ptr rb) = Some b" "length b = length (rb_buffer_ptr rb)"
      using blit_defined [of "rb_write_index rb" "[c]" "rb_buffer_ptr rb"] blit_length False Cons.prems by force
    have "wp (rt_ringbuffer_putchar_force rb c) (\<lambda>(_, rb'). rb_buffer_size rb' = 0 \<and>
       length (rb_buffer_ptr rb') = length (rb_buffer_ptr rb) \<and> rb_write_index rb' = rb_write_index rb + 1)"
      using b False Cons.prems by (simp add: rt_ringbuffer_putchar_force_def Let_def)
    then show ?thesis using Cons.prems False Cons.IH by (auto simp: wp_def)
  qed
qed simp

theorem rt_ringbuffer_small_pool_overrun:
  assumes "0 < sz" "sz < 8" "length pool = sz" "sz < length cs"
  shows "wp (rt_ringbuffer_init pool sz) (\<lambda>rb. rb_buffer_size rb = 0 \<and> rt_ringbuffer_put rb cs (length cs) = Some (0, rb) \<and>
     force_bytes cs rb = None)"
  using assms
  by (auto simp: rt_ringbuffer_init_def align_down_def rt_ringbuffer_put_def rt_ringbuffer_space_len_def
      intro!: force_bytes_overrun)

end
