(* ===== verification/Wait_Loop.thy ===== *)
theory Wait_Loop
  imports Blocking
begin

text \<open>
  The waiting loop that the mailbox and the message queue of \<^verbatim>\<open>src/ipc.c\<close> write out four
  times (in \<^verbatim>\<open>_rt_mb_send_wait\<close>, \<^verbatim>\<open>_rt_mb_recv\<close>, \<^verbatim>\<open>_rt_mq_send_wait\<close> and
  \<^verbatim>\<open>_rt_mq_recv\<close>), and the way their calls end: waking one thread of the other side and
  leaving the section. A waiter that is woken and finds the object unavailable again waits on with
  what is left of its timeout.
\<close>

section \<open>Definitions\<close>

text \<open>What is left of a timeout: \<^verbatim>\<open>if (timeout > 0) { timeout -= rt_tick_get() - tick_delta; if (timeout < 0)
  timeout = 0; }\<close>.\<close>

definition remaining_time :: "u32 \<Rightarrow> rt_tick_t \<Rightarrow> rt_tick_t \<Rightarrow> u32" where
  "remaining_time timeout tick_delta now =
     (if sint timeout > 0
      then (let rest = timeout - (now - tick_delta) in if sint rest < 0 then 0 else rest)
      else timeout)"

text \<open>The loop is entered with the section of the object held (\<open>Check\<close>) and again when the
  thread \<open>t\<close>, which had blocked, runs again (\<open>Resume t tick_delta\<close>). The parameters are what the
  four copies differ in: the condition of the loop, the suspend list, the object, the branch
  \<^verbatim>\<open>timeout == 0\<close> inside the loop, the form of an error result, and the code behind the loop.\<close>

datatype wait_phase = Check | Resume tid rt_tick_t

partial_function (option) ipc_wait ::
  "(kernel \<Rightarrow> bool) \<Rightarrow> tlist \<Rightarrow> objref \<Rightarrow> (tid \<Rightarrow> kernel \<Rightarrow> ('a \<times> kernel) option) \<Rightarrow> (rt_err_t \<Rightarrow> 'a) \<Rightarrow>
   (kernel \<Rightarrow> ('a \<times> kernel) option) \<Rightarrow> suspend_flag \<Rightarrow> wait_phase \<Rightarrow> u32 \<Rightarrow> kernel \<Rightarrow>
   ('a outcome \<times> kernel) option" where
  "ipc_wait unavailable h ob expire err avail flag phase timeout k =
     (case phase of
        Check \<Rightarrow>
          if unavailable k then do {
            t \<leftarrow> rt_thread_self k;
            let k = upd_thread t (\<lambda>th. th\<lparr>th_error := - RT_EINTR\<rparr>) k;
            if timeout = 0 then do { (r, k) \<leftarrow> expire t k; Some (Returned r, k) }
            else do {
              (ret, k) \<leftarrow> rt_thread_suspend_to_list t (Some h) (ob_flag (objects k ob)) flag k;
              if ret \<noteq> RT_EOK then do {
                k \<leftarrow> rt_spin_unlock_irqrestore k;
                Some (Returned (err ret), k)
              } else do {
                let tick_delta = (if sint timeout > 0 then rt_tick_get k else 0);
                k \<leftarrow> (if sint timeout > 0 then start_thread_timer t timeout k else Some k);
                k \<leftarrow> rt_spin_unlock_irqrestore k;
                if rt_current_thread k = Some t
                then ipc_wait unavailable h ob expire err avail flag (Resume t tick_delta) timeout k
                else Some (Waiting, k)
              }
            }
          } else do { (r, k) \<leftarrow> avail k; Some (Returned r, k) }
      | Resume t tick_delta \<Rightarrow> do {
          k \<leftarrow> rt_schedule k;
          if th_error (threads k t) \<noteq> RT_EOK then Some (Returned (err (th_error (threads k t))), k)
          else do {
            let k = rt_spin_lock_irqsave k;
            ipc_wait unavailable h ob expire err avail flag Check
              (remaining_time timeout tick_delta (rt_tick_get k)) k
          }
        })"

text \<open>The end of the calls: a thread of the other side is woken, if one waits, and the section left.\<close>

definition resume_one :: "tlist \<Rightarrow> kernel \<Rightarrow> kernel option" where
  "resume_one h k =
     (if tlists k h \<noteq> [] then do {
        (_, k) \<leftarrow> rt_susp_list_dequeue h RT_EOK k;
        k \<leftarrow> rt_spin_unlock_irqrestore k;
        rt_schedule k
      } else rt_spin_unlock_irqrestore k)"

section \<open>The remaining time\<close>

text \<open>As long as the clock has not passed the deadline, the deadline stays where it was; from then
  on (for half a turn of the counter) nothing is left.\<close>

lemma sint_pos_unat: "0 < sint (w :: u32) \<Longrightarrow> unat w < 0x80000000 \<and> 0 < unat w"
proof -
  assume s: "0 < sint w"
  have "w = 0x7fffffff \<or> w < 0x7fffffff" using sint_half_range [OF s] by blast
  then have "unat w < 0x80000000" by (auto simp: word_less_nat_alt)
  moreover have "w \<noteq> 0" using s by auto
  ultimately show ?thesis by (simp add: unat_gt_0)
qed

lemma sint_neg_iff: "sint (w :: u32) < 0 \<longleftrightarrow> 0x80000000 \<le> unat w"
proof -
  have "sint w < 0 \<longleftrightarrow> bit w 31" using bit_last_iff [of w] by simp
  also have "\<dots> \<longleftrightarrow> bit (unat w) 31" by (simp add: bit_unsigned_iff)
  also have "\<dots> \<longleftrightarrow> odd (unat w div 2 ^ 31)" by (simp add: bit_iff_odd)
  also have "\<dots> \<longleftrightarrow> unat w div 2 ^ 31 \<noteq> 0"
  proof -
    have "unat w div 2 ^ 31 \<le> 1" using unsigned_less [of w, where 'a = nat] by simp
    then show ?thesis by (auto simp: le_Suc_eq)
  qed
  also have "\<dots> \<longleftrightarrow> 0x80000000 \<le> unat w" by (simp add: div_eq_0_iff not_less)
  finally show ?thesis .
qed

lemma remaining_before:
  assumes p: "0 < sint timeout" and e: "now - start \<le> timeout"
  shows "now + remaining_time timeout start now = start + timeout"
    "unat (remaining_time timeout start now) = unat timeout - unat (now - start)"
proof -
  let ?r = "timeout - (now - start)"
  have u: "unat ?r = unat timeout - unat (now - start)" by (rule unat_sub [OF e])
  then have "\<not> sint ?r < 0" using conjunct1 [OF sint_pos_unat [OF p]] unfolding sint_neg_iff by linarith
  then have r: "remaining_time timeout start now = ?r" using p by (simp add: remaining_time_def)
  show "now + remaining_time timeout start now = start + timeout" by (simp add: r)
  show "unat (remaining_time timeout start now) = unat timeout - unat (now - start)" by (simp add: r u)
qed

lemma remaining_after:
  assumes p: "0 < sint timeout" and e: "timeout < now - start" "unat (now - start) \<le> unat timeout + 0x80000000"
  shows "remaining_time timeout start now = 0"
proof -
  let ?d = "now - start"
  have l: "unat timeout < unat ?d" using e(1) by (simp add: word_less_nat_alt)
  have "unat (timeout - ?d) = 2 ^ 32 + unat timeout - unat ?d"
    using unat_sub_if' [of timeout ?d] l by simp
  then have "0x80000000 \<le> unat (timeout - ?d)" using e(2) by simp
  then show ?thesis using p by (simp add: remaining_time_def sint_neg_iff)
qed

lemma remaining_pos:
  assumes p: "0 < sint timeout" "timeout \<noteq> 0x7fffffff" and e: "now - start < timeout"
  shows "0 < sint (remaining_time timeout start now)" "remaining_time timeout start now \<noteq> 0x7fffffff"
    "remaining_time timeout start now \<noteq> 0"
proof -
  let ?r = "remaining_time timeout start now"
  have u: "unat ?r = unat timeout - unat (now - start)" using e by (intro remaining_before(2) [OF p(1)]) simp
  have t: "unat timeout < 0x7fffffff" using sint_half_range [OF p] by (simp add: word_less_nat_alt)
  have "unat (now - start) < unat timeout" using e by (simp add: word_less_nat_alt)
  then have r: "0 < unat ?r" "unat ?r < 0x7fffffff" using u t by linarith+
  then show "?r \<noteq> 0x7fffffff" "?r \<noteq> 0" by auto
  have "\<not> sint ?r < 0" using r(2) by (simp add: sint_neg_iff)
  moreover have "sint ?r \<noteq> 0" using r(1) by (auto simp: signed_eq_0_iff)
  ultimately show "0 < sint ?r" by linarith
qed

lemma remaining_expired:
  assumes p: "0 < sint timeout" and e: "timeout \<le> now - start" "unat (now - start) \<le> unat timeout + 0x80000000"
  shows "remaining_time timeout start now = 0"
proof (cases "timeout = now - start")
  case True
  then show ?thesis using p by (simp add: remaining_time_def)
qed (use remaining_after [OF p _ e(2)] e(1) in auto)

section \<open>Waking one thread\<close>

definition resumed :: "tlist \<Rightarrow> kernel \<Rightarrow> kernel \<Rightarrow> bool" where
  "resumed h k k' \<longleftrightarrow> same_ipc k k' \<and> tlists k' h = tl (tlists k h) \<and>
     (\<forall>h'. is_susp_list h' \<and> h' \<noteq> h \<longrightarrow> tlists k' h' = tlists k h') \<and>
     (\<forall>t. thread_suspended k' t \<longleftrightarrow> thread_suspended k t \<and> (tlists k h = [] \<or> t \<noteq> hd (tlists k h))) \<and>
     (\<forall>t. th_error (threads k' t) = (if tlists k h \<noteq> [] \<and> t = hd (tlists k h) then RT_EOK else th_error (threads k t))) \<and>
     (\<forall>r. (\<forall>t. r \<noteq> OTimer (ThreadTimer t)) \<longrightarrow> objects k' r = objects k r) \<and>
     (rt_current_thread k' = None \<longleftrightarrow> rt_current_thread k = None)"

lemma resume_one_wp:
  assumes k: "kok (Suc n) k" and h: "is_susp_list h" and c: "rt_current_thread k \<noteq> None"
    and Q: "\<And>k'. kok (Suc n) k' \<Longrightarrow> resumed h k k' \<Longrightarrow> Q k'"
  shows "wp (resume_one h (rt_enter_critical k)) Q"
proof (cases "tlists k h")
  case Nil
  have "wp (rt_exit_critical (rt_enter_critical k)) Q"
  proof (rule kok_section_wp [OF k])
    fix k' assume k': "kok (Suc n) k'" "sched_only k k'"
    show "Q k'"
      using Nil same_ipc_sched_only [OF k'(2)] sched_only_susp [OF k'(2)] sched_onlyD(2,4,7) [OF k'(2)]
        same_but_schedD(1) [OF sched_onlyD(1) [OF k'(2)]] h
      by (intro Q [OF k'(1)]) (simp add: resumed_def thread_suspended_def)
  qed
  then show ?thesis by (simp add: resume_one_def Nil spin_defs)
next
  case (Cons t ts)
  have "wp (rt_susp_list_dequeue h 0 (rt_enter_critical k))
     (\<lambda>(r, k1). wp (rt_exit_critical k1) (\<lambda>k2. wp (rt_schedule k2) Q))"
  proof (rule wake_section_wp [OF k h Cons])
    fix k1 assume k1: "kok n k1" and w: "woken t 0 (rt_enter_critical k) k1" and l1: "tlists k1 h = ts"
    have nest: "rt_scheduler_lock_nest k1 = rt_scheduler_lock_nest k + 1" using wokenD(1) [OF w] by (simp add: same_ipc_def)
    have oth: "tlists k1 h' = tlists k h'" if "is_susp_list h'" "h' \<noteq> h" for h'
    proof -
      have "t \<notin> set (tlists k h')"
        using k Cons that(2) unfolding kok_def kinv_def kglobal_def lists_ok_def by (metis list.set_intros(1))
      moreover have "tlists k1 h' = removeAll t (tlists (rt_enter_critical k) h')"
        by (rule wokenD(2) [OF w]) (use that(1) in auto)
      ultimately show ?thesis by simp
    qed
    have "wp (rt_exit_critical k1) (\<lambda>k2. wp (if True then rt_schedule k2 else Some k2) Q)"
    proof (rule leave_wp [OF k k1 nest])
      show "rt_current_thread k1 \<noteq> None" using wokenD(18) [OF w] c by simp
      fix k3 assume k3: "kok (Suc n) k3" "sched_only (k1\<lparr>rt_scheduler_lock_nest := rt_scheduler_lock_nest k\<rparr>) k3"
      note S = same_ipc_sched_only [OF k3(2)] sched_only_susp [OF k3(2)] sched_onlyD(2,4,7) [OF k3(2)]
        same_but_schedD(1) [OF sched_onlyD(1) [OF k3(2)]]
      show "Q k3"
      proof (rule Q [OF k3(1)], unfold resumed_def, intro conjI allI impI)
        show "same_ipc k k3" using S(1) wokenD(1) [OF w] by (simp add: same_ipc_def)
        show "tlists k3 h = tl (tlists k h)" using S(2) [OF h] l1 Cons by simp
        show "tlists k3 h' = tlists k h'" if "is_susp_list h' \<and> h' \<noteq> h" for h'
          using S(2) [of h'] oth [of h'] that by simp
      qed (use Cons S(3-) wokenD(3,4,6,17,18) [OF w] in \<open>auto simp: thread_suspended_def\<close>)
    qed
    then show "wp (rt_exit_critical k1) (\<lambda>k2. wp (rt_schedule k2) Q)" by simp
  qed simp
  then show ?thesis by (simp add: resume_one_def Cons spin_defs case_prod_unfold)
qed

section \<open>A thread that runs again\<close>

text \<open>The thread \<open>t\<close> has just been chosen by the scheduler: it keeps the processor against every
  ready thread.\<close>

definition chosen :: "tid \<Rightarrow> kernel \<Rightarrow> bool" where
  "chosen t k \<longleftrightarrow> (\<forall>t'. th_code k t' = RT_THREAD_READY \<longrightarrow> keeps_cpu k t (th_prio k t'))"

lemma chosen_schedule_wp:
  assumes k: "kok n k" and m: "may_block t k" and ch: "chosen t k"
    and Q: "\<And>k'. kok n k' \<Longrightarrow> sched_only k k' \<Longrightarrow> may_block t k' \<Longrightarrow> Q k'"
  shows "wp (rt_schedule k) Q"
proof -
  have c: "rt_current_thread k = Some t" and r: "th_code k t = RT_THREAD_RUNNING" using m by (simp_all add: may_block_def)
  have same: "may_block t k'" if s: "sched_only k k'" "rt_current_thread k' = Some t" "\<And>t'. th_code k' t' = th_code k t'" for k'
    using m s(2,3) same_but_schedD [OF sched_onlyD(1) [OF s(1)]]
    by (simp add: may_block_def tt_wf_def rt_object_get_type_def rt_interrupt_get_nest_def)
  have tot: "wp (rt_schedule k) (\<lambda>k'. kinv k' \<and> sched_only k k')"
    using schedule_total [OF kokD(1) [OF k] c] by (auto elim: wp_mono)
  have "wp (rt_schedule k) (\<lambda>k'. rt_current_thread k' = Some t \<and> (\<forall>t'. th_code k' t' = th_code k t'))"
    using kokD(1) [OF k] c
  proof (cases rule: schedule_runs)
    case (switch t1 p)
    then show ?thesis using ch by (auto simp: chosen_def)
  next
    case (stay t1 p)
    then show ?thesis using c r by (auto simp: upd_defs)
  qed (use c in simp)
  then have "wp (rt_schedule k) (\<lambda>k'. kok n k' \<and> sched_only k k' \<and> may_block t k')"
    using tot kok_sched_only [OF k] same by (auto simp: wp_def)
  then show ?thesis using Q by (auto elim!: wp_mono)
qed

section \<open>The loop\<close>

lemma ipc_wait_avail:
  "\<not> unavailable k \<Longrightarrow> ipc_wait unavailable h ob expire err avail flag Check timeout k =
     do { (r, k) \<leftarrow> avail k; Some (Returned r, k) }"
  by (subst ipc_wait.simps) simp

lemma ipc_wait_expire:
  "unavailable k \<Longrightarrow> rt_current_thread k = Some t \<Longrightarrow> ipc_wait unavailable h ob expire err avail flag Check 0 k =
     do { (r, k) \<leftarrow> expire t (upd_thread t (\<lambda>th. th\<lparr>th_error := - RT_EINTR\<rparr>) k); Some (Returned r, k) }"
  by (subst ipc_wait.simps) (simp add: rt_thread_self_def)

lemma ipc_wait_block_wp:
  assumes k: "kok (Suc n) k" and m: "may_block t k" and h: "is_susp_list h"
    and f: "ob_flag (objects k ob) = f" "f = RT_IPC_FLAG_FIFO \<or> f = RT_IPC_FLAG_PRIO"
    and to: "timeout \<noteq> 0" "timeout \<noteq> 0x7fffffff" and u: "unavailable (rt_enter_critical k)"
    and Q: "\<And>k'. kok (Suc n) k' \<Longrightarrow> waits t h f timeout k k' \<Longrightarrow> same_ipc k k' \<Longrightarrow> Q (Waiting, k')"
  shows "wp (ipc_wait unavailable h ob expire err avail flag Check timeout (rt_enter_critical k)) Q"
proof -
  let ?Q = "\<lambda>k'. kok (Suc n) k' \<and> waits t h f timeout k k' \<and> same_ipc k k'"
  have c: "rt_current_thread k = Some t" using m by (simp add: may_block_def)
  have b: "wp (rt_thread_suspend_to_list t (Some h) f flag (upd_thread t (\<lambda>th. th\<lparr>th_error := - 9\<rparr>) (rt_enter_critical k)))
     (\<lambda>(ret, k1). ret = RT_EOK \<and>
       wp (if 0 < sint timeout then start_thread_timer t timeout k1 else Some k1) (\<lambda>k2. wp (rt_exit_critical k2) ?Q))"
    by (rule block_wp [OF k m h f(2) to(2)]) auto
  have q: "rt_current_thread k' \<noteq> Some t \<and> Q (Waiting, k')" if "?Q k'" for k'
    using that Q by (simp add: waits_def)
  show ?thesis
    by (subst ipc_wait.simps)
      (use b q c u to(1) f(1) in \<open>auto simp: rt_thread_self_def upd_sel spin_defs elim!: wp_mono split: if_splits\<close>)
qed

text \<open>A thread that runs again: an error code ends the call; otherwise the condition is looked at again.\<close>

lemma ipc_wait_resume_wp:
  assumes k: "kok n k" and m: "may_block t k" "chosen t k"
    and E: "\<And>k'. kok n k' \<Longrightarrow> sched_only k k' \<Longrightarrow> th_error (threads k t) \<noteq> 0 \<Longrightarrow>
        Q (Returned (err (th_error (threads k t))), k')"
    and C: "\<And>k'. kok n k' \<Longrightarrow> sched_only k k' \<Longrightarrow> may_block t k' \<Longrightarrow> th_error (threads k t) = 0 \<Longrightarrow>
        wp (ipc_wait unavailable h ob expire err avail flag Check (remaining_time timeout start (rt_tick k))
              (rt_enter_critical k')) Q"
  shows "wp (ipc_wait unavailable h ob expire err avail flag (Resume t start) timeout k) Q"
proof -
  have "wp (rt_schedule k) (\<lambda>k'. wp (if th_error (threads k' t) \<noteq> 0
      then Some (Returned (err (th_error (threads k' t))), k')
      else ipc_wait unavailable h ob expire err avail flag Check (remaining_time timeout start (rt_tick k')) (rt_enter_critical k')) Q)"
  proof (rule chosen_schedule_wp [OF k m])
    fix k' assume k': "kok n k'" "sched_only k k'" "may_block t k'"
    have "rt_tick k' = rt_tick k" using same_ipc_sched_only [OF k'(2)] by (simp add: same_ipc_def)
    then show "wp (if th_error (threads k' t) \<noteq> 0 then Some (Returned (err (th_error (threads k' t))), k')
      else ipc_wait unavailable h ob expire err avail flag Check (remaining_time timeout start (rt_tick k')) (rt_enter_critical k')) Q"
      using E [OF k'(1,2)] C [OF k'] sched_onlyD(7) [OF k'(2), of t] by simp
  qed
  then show ?thesis
    by (subst ipc_wait.simps) (auto simp: spin_defs rt_tick_get_def Let_def elim!: wp_mono split: if_splits)
qed

text \<open>A thread that was woken in vain, before its deadline: it waits on with the same deadline.\<close>

lemma ipc_wait_rewait_wp:
  assumes k: "kok (Suc n) k" and m: "may_block t k" "chosen t k" and h: "is_susp_list h"
    and f: "ob_flag (objects k ob) = f" "f = RT_IPC_FLAG_FIFO \<or> f = RT_IPC_FLAG_PRIO"
    and to: "0 < sint timeout" "timeout \<noteq> 0x7fffffff" "rt_tick k - start < timeout"
    and e: "th_error (threads k t) = 0"
    and u: "\<And>k'. same_ipc k k' \<Longrightarrow> unavailable (rt_enter_critical k')"
    and Q: "\<And>k'. kok (Suc n) k' \<Longrightarrow> thread_suspended k' t \<Longrightarrow> t \<in> set (tlists k' h) \<Longrightarrow> timer_active k' (ThreadTimer t) \<Longrightarrow>
       tm_timeout_tick (timers k' (ThreadTimer t)) = start + timeout \<Longrightarrow> same_ipc k k' \<Longrightarrow> Q (Waiting, k')"
  shows "wp (ipc_wait unavailable h ob expire err avail flag (Resume t start) timeout k) Q"
proof (rule ipc_wait_resume_wp [OF k m])
  let ?r = "remaining_time timeout start (rt_tick k)"
  note r = remaining_pos [OF to]
  fix k1 assume k1: "kok (Suc n) k1" "sched_only k k1" "may_block t k1"
  have ob: "ob_flag (objects k1 ob) = f" and tick: "rt_tick k1 = rt_tick k"
    using same_but_schedD [OF sched_onlyD(1) [OF k1(2)]] f(1) by simp_all
  show "wp (ipc_wait unavailable h ob expire err avail flag Check ?r (rt_enter_critical k1)) Q"
  proof (rule ipc_wait_block_wp [OF k1(1,3) h ob f(2) r(3,2)])
    show "unavailable (rt_enter_critical k1)" by (rule u [OF same_ipc_sched_only [OF k1(2)]])
    fix k' assume k': "kok (Suc n) k'" "waits t h f ?r k1 k'" "same_ipc k1 k'"
    show "Q (Waiting, k')"
    proof (rule Q [OF k'(1)])
      show "t \<in> set (tlists k' h)" using k'(2) h by (simp add: waits_def)
      show "tm_timeout_tick (timers k' (ThreadTimer t)) = start + timeout"
        using k'(2) r(1) tick remaining_before(1) [OF to(1), of "rt_tick k" start] to(3) by (simp add: waits_def)
    qed (use k' r(1) same_ipc_trans [OF same_ipc_sched_only [OF k1(2)]] in \<open>simp_all add: waits_def\<close>)
  qed
qed (use e in simp)

text \<open>Past the deadline the loop ends with the branch \<^verbatim>\<open>timeout == 0\<close>.\<close>

lemma ipc_wait_expired_wp:
  assumes k: "kok n k" and m: "may_block t k" "chosen t k" and e: "th_error (threads k t) = 0"
    and to: "0 < sint timeout" "timeout \<le> rt_tick k - start" "unat (rt_tick k - start) \<le> unat timeout + 0x80000000"
    and u: "\<And>k'. same_ipc k k' \<Longrightarrow> unavailable (rt_enter_critical k')"
    and Q: "\<And>k'. kok n k' \<Longrightarrow> sched_only k k' \<Longrightarrow>
       wp (expire t (upd_thread t (\<lambda>th. th\<lparr>th_error := - RT_EINTR\<rparr>) (rt_enter_critical k'))) (\<lambda>(r, k''). Q (Returned r, k''))"
  shows "wp (ipc_wait unavailable h ob expire err avail flag (Resume t start) timeout k) Q"
proof (rule ipc_wait_resume_wp [OF k m])
  fix k1 assume k1: "kok n k1" "sched_only k k1" "may_block t k1"
  have "rt_current_thread (rt_enter_critical k1) = Some t" using k1(3) by (simp add: may_block_def)
  then show "wp (ipc_wait unavailable h ob expire err avail flag Check (remaining_time timeout start (rt_tick k)) (rt_enter_critical k1)) Q"
    unfolding remaining_expired [OF to]
    using u [OF same_ipc_sched_only [OF k1(2)]]
    by (subst ipc_wait_expire)
      (use Q [OF k1(1,2)] in \<open>simp_all add: case_prod_unfold\<close>)
qed (use e in simp)

end
