(* ===== verification/Mailbox.thy ===== *)
theory Mailbox
  imports Wait_Loop Bounded_Fifo
begin

text \<open>
  Mailboxes, the mailbox section of \<^verbatim>\<open>src/ipc.c\<close>: a cyclic array of words with a list of
  waiting receivers and one of waiting senders. The mailbox is a bounded queue (an interpretation of
  \<open>bounded_fifo\<close>) with a second entrance at its front, \<^verbatim>\<open>rt_mb_urgent\<close>.
\<close>

section \<open>Definitions\<close>

abbreviation (input) RT_MB_ENTRY_MAX :: u16 where "RT_MB_ENTRY_MAX \<equiv> 0xffff"

text \<open>The array passed to \<^verbatim>\<open>rt_mb_init\<close>, or what the allocator returned, is \<open>msgpool\<close>.\<close>

definition rt_mb_init :: "bid \<Rightarrow> string \<Rightarrow> u32 list \<Rightarrow> u32 \<Rightarrow> u8 \<Rightarrow> kernel \<Rightarrow> (rt_err_t \<times> kernel) option" where
  "rt_mb_init b name msgpool sz flag k = do {
     rt_assert (flag = RT_IPC_FLAG_FIFO \<or> flag = RT_IPC_FLAG_PRIO);
     k \<leftarrow> rt_object_init (OMailBox b) RT_Object_Class_MailBox name k;
     let k = upd_object (OMailBox b) (\<lambda>ob. ob\<lparr>ob_flag := flag\<rparr>) k;
     let k = ipc_object_init (MbRecvL b) k;
     let k = upd_mailbox b (\<lambda>mb. mb\<lparr>mb_msg_pool := msgpool, mb_size := ucast sz, mb_entry := 0,
                                    mb_in_offset := 0, mb_out_offset := 0\<rparr>) k;
     Some (RT_EOK, tlist_init (MbSendL b) k)
   }"

definition rt_mb_detach :: "bid \<Rightarrow> kernel \<Rightarrow> (rt_err_t \<times> kernel) option" where
  "rt_mb_detach b k = do {
     rt_assert (rt_object_get_type (OMailBox b) k = RT_Object_Class_MailBox);
     rt_assert (rt_object_is_systemobject (OMailBox b) k);
     let k = rt_spin_lock_irqsave k;
     k \<leftarrow> rt_susp_list_resume_all (MbRecvL b) RT_ERROR k;
     k \<leftarrow> rt_susp_list_resume_all (MbSendL b) RT_ERROR k;
     k \<leftarrow> rt_spin_unlock_irqrestore k;
     k \<leftarrow> rt_object_detach (OMailBox b) k;
     Some (RT_EOK, k)
   }"

definition rt_mb_create ::
  "bid option \<Rightarrow> (u16 \<Rightarrow> u32 list option) \<Rightarrow> string \<Rightarrow> u32 \<Rightarrow> u8 \<Rightarrow> kernel \<Rightarrow> (bid option \<times> kernel) option" where
  "rt_mb_create mem malloc name sz flag k = do {
     rt_assert (flag = RT_IPC_FLAG_FIFO \<or> flag = RT_IPC_FLAG_PRIO);
     rt_assert (debug_not_in_interrupt k);
     (ob, k) \<leftarrow> rt_object_allocate (map_option OMailBox mem) RT_Object_Class_MailBox name k;
     case (ob, mem) of
       (Some _, Some b) \<Rightarrow> do {
         let k = upd_object (OMailBox b) (\<lambda>ob. ob\<lparr>ob_flag := flag\<rparr>) k;
         let k = ipc_object_init (MbRecvL b) k;
         let k = upd_mailbox b (\<lambda>mb. mb\<lparr>mb_size := ucast sz\<rparr>) k;
         case malloc (ucast sz) of
           None \<Rightarrow> do {
             k \<leftarrow> rt_object_delete (OMailBox b) k;
             Some (None, k)
           }
         | Some msgpool \<Rightarrow> do {
             let k = upd_mailbox b (\<lambda>mb. mb\<lparr>mb_msg_pool := msgpool, mb_entry := 0,
                                            mb_in_offset := 0, mb_out_offset := 0\<rparr>) k;
             Some (Some b, tlist_init (MbSendL b) k)
           }
       }
     | _ \<Rightarrow> Some (None, k)
   }"

definition rt_mb_delete :: "bid \<Rightarrow> kernel \<Rightarrow> (rt_err_t \<times> kernel) option" where
  "rt_mb_delete b k = do {
     rt_assert (rt_object_get_type (OMailBox b) k = RT_Object_Class_MailBox);
     rt_assert (\<not> rt_object_is_systemobject (OMailBox b) k);
     rt_assert (debug_not_in_interrupt k);
     let k = rt_spin_lock k;
     k \<leftarrow> rt_susp_list_resume_all (MbRecvL b) RT_ERROR k;
     k \<leftarrow> rt_susp_list_resume_all (MbSendL b) RT_ERROR k;
     k \<leftarrow> rt_spin_unlock k;
     k \<leftarrow> rt_object_delete (OMailBox b) k;
     Some (RT_EOK, k)
   }"

text \<open>The code behind the waiting loop of \<^verbatim>\<open>_rt_mb_send_wait\<close>: store the word and move the input offset;
  count the message; wake a receiver.\<close>

definition mb_store :: "u32 \<Rightarrow> rt_mailbox \<Rightarrow> rt_mailbox option" where
  "mb_store value mb = do {
     pool \<leftarrow> store (unat (mb_in_offset mb)) value (mb_msg_pool mb);
     let in_offset = mb_in_offset mb + 1;
     Some (mb\<lparr>mb_msg_pool := pool, mb_in_offset := (if in_offset \<ge> mb_size mb then 0 else in_offset)\<rparr>)
   }"

definition mb_send_tail :: "bid \<Rightarrow> u32 \<Rightarrow> kernel \<Rightarrow> (rt_err_t \<times> kernel) option" where
  "mb_send_tail b value k = do {
     mb \<leftarrow> mb_store value (mailboxes k b);
     let k = upd_mailbox b (\<lambda>_. mb) k;
     if mb_entry mb < RT_MB_ENTRY_MAX then do {
       let k = upd_mailbox b (\<lambda>mb. mb\<lparr>mb_entry := mb_entry mb + 1\<rparr>) k;
       k \<leftarrow> resume_one (MbRecvL b) k;
       Some (RT_EOK, k)
     } else do {
       k \<leftarrow> rt_spin_unlock_irqrestore k;
       Some (- RT_EFULL, k)
     }
   }"

text \<open>The waiting loop of the senders, from the given phase on.\<close>

definition mb_send_loop ::
  "bid \<Rightarrow> u32 \<Rightarrow> suspend_flag \<Rightarrow> wait_phase \<Rightarrow> u32 \<Rightarrow> kernel \<Rightarrow> (rt_err_t outcome \<times> kernel) option" where
  "mb_send_loop b value flag phase timeout k =
     ipc_wait (\<lambda>k. mb_entry (mailboxes k b) = mb_size (mailboxes k b)) (MbSendL b) (OMailBox b)
       (\<lambda>t k. do { k \<leftarrow> rt_spin_unlock_irqrestore k; Some (- RT_EFULL, k) }) (\<lambda>e. e)
       (mb_send_tail b value) flag phase timeout k"

definition mb_send_wait :: "bid \<Rightarrow> u32 \<Rightarrow> u32 \<Rightarrow> suspend_flag \<Rightarrow> kernel \<Rightarrow> (rt_err_t outcome \<times> kernel) option" where
  "mb_send_wait b value timeout flag k = do {
     rt_assert (rt_object_get_type (OMailBox b) k = RT_Object_Class_MailBox);
     rt_assert (timeout \<noteq> 0 \<longrightarrow> debug_scheduler_available k);
     let k = rt_spin_lock_irqsave k;
     if mb_entry (mailboxes k b) = mb_size (mailboxes k b) \<and> timeout = 0 then do {
       k \<leftarrow> rt_spin_unlock_irqrestore k;
       Some (Returned (- RT_EFULL), k)
     } else mb_send_loop b value flag Check timeout k
   }"

definition rt_mb_send_wait :: "bid \<Rightarrow> u32 \<Rightarrow> u32 \<Rightarrow> kernel \<Rightarrow> (rt_err_t outcome \<times> kernel) option" where
  "rt_mb_send_wait b value timeout k = mb_send_wait b value timeout RT_UNINTERRUPTIBLE k"

definition rt_mb_send_wait_interruptible :: "bid \<Rightarrow> u32 \<Rightarrow> u32 \<Rightarrow> kernel \<Rightarrow> (rt_err_t outcome \<times> kernel) option" where
  "rt_mb_send_wait_interruptible b value timeout k = mb_send_wait b value timeout RT_INTERRUPTIBLE k"

definition rt_mb_send_wait_killable :: "bid \<Rightarrow> u32 \<Rightarrow> u32 \<Rightarrow> kernel \<Rightarrow> (rt_err_t outcome \<times> kernel) option" where
  "rt_mb_send_wait_killable b value timeout k = mb_send_wait b value timeout RT_KILLABLE k"

definition rt_mb_send :: "bid \<Rightarrow> u32 \<Rightarrow> kernel \<Rightarrow> (rt_err_t outcome \<times> kernel) option" where
  "rt_mb_send b value k = rt_mb_send_wait b value 0 k"

definition rt_mb_send_interruptible :: "bid \<Rightarrow> u32 \<Rightarrow> kernel \<Rightarrow> (rt_err_t outcome \<times> kernel) option" where
  "rt_mb_send_interruptible b value k = rt_mb_send_wait_interruptible b value 0 k"

definition rt_mb_send_killable :: "bid \<Rightarrow> u32 \<Rightarrow> kernel \<Rightarrow> (rt_err_t outcome \<times> kernel) option" where
  "rt_mb_send_killable b value k = rt_mb_send_wait_killable b value 0 k"

definition rt_mb_urgent :: "bid \<Rightarrow> u32 \<Rightarrow> kernel \<Rightarrow> (rt_err_t \<times> kernel) option" where
  "rt_mb_urgent b value k = do {
     rt_assert (rt_object_get_type (OMailBox b) k = RT_Object_Class_MailBox);
     let k = rt_spin_lock_irqsave k;
     let mb = mailboxes k b;
     if mb_entry mb = mb_size mb then do {
       k \<leftarrow> rt_spin_unlock_irqrestore k;
       Some (- RT_EFULL, k)
     } else do {
       let out_offset = (if mb_out_offset mb > 0 then mb_out_offset mb - 1 else mb_size mb - 1);
       pool \<leftarrow> store (unat out_offset) value (mb_msg_pool mb);
       let k = upd_mailbox b (\<lambda>mb. mb\<lparr>mb_msg_pool := pool, mb_out_offset := out_offset,
                                      mb_entry := mb_entry mb + 1\<rparr>) k;
       k \<leftarrow> resume_one (MbRecvL b) k;
       Some (RT_EOK, k)
     }
   }"

text \<open>The code behind the loop of \<^verbatim>\<open>_rt_mb_recv\<close>; the result is the error code and the word stored
  through \<^verbatim>\<open>value\<close>, if any.\<close>

definition mb_load :: "rt_mailbox \<Rightarrow> (u32 \<times> rt_mailbox) option" where
  "mb_load mb = do {
     value \<leftarrow> fetch (unat (mb_out_offset mb)) (mb_msg_pool mb);
     let out_offset = mb_out_offset mb + 1;
     Some (value, mb\<lparr>mb_out_offset := (if out_offset \<ge> mb_size mb then 0 else out_offset),
                     mb_entry := (if mb_entry mb > 0 then mb_entry mb - 1 else mb_entry mb)\<rparr>)
   }"

definition mb_recv_tail :: "bid \<Rightarrow> kernel \<Rightarrow> ((rt_err_t \<times> u32 option) \<times> kernel) option" where
  "mb_recv_tail b k = do {
     (value, mb) \<leftarrow> mb_load (mailboxes k b);
     k \<leftarrow> resume_one (MbSendL b) (upd_mailbox b (\<lambda>_. mb) k);
     Some ((RT_EOK, Some value), k)
   }"

definition mb_recv_loop ::
  "bid \<Rightarrow> suspend_flag \<Rightarrow> wait_phase \<Rightarrow> u32 \<Rightarrow> kernel \<Rightarrow> ((rt_err_t \<times> u32 option) outcome \<times> kernel) option" where
  "mb_recv_loop b flag phase timeout k =
     ipc_wait (\<lambda>k. mb_entry (mailboxes k b) = 0) (MbRecvL b) (OMailBox b)
       (\<lambda>t k. do {
          k \<leftarrow> rt_spin_unlock_irqrestore k;
          Some ((- RT_ETIMEOUT, None), upd_thread t (\<lambda>th. th\<lparr>th_error := - RT_ETIMEOUT\<rparr>) k)
        }) (\<lambda>e. (e, None))
       (mb_recv_tail b) flag phase timeout k"

definition mb_recv :: "bid \<Rightarrow> u32 \<Rightarrow> suspend_flag \<Rightarrow> kernel \<Rightarrow> ((rt_err_t \<times> u32 option) outcome \<times> kernel) option" where
  "mb_recv b timeout flag k = do {
     rt_assert (rt_object_get_type (OMailBox b) k = RT_Object_Class_MailBox);
     rt_assert (timeout \<noteq> 0 \<longrightarrow> debug_scheduler_available k);
     let k = rt_spin_lock_irqsave k;
     if mb_entry (mailboxes k b) = 0 \<and> timeout = 0 then do {
       k \<leftarrow> rt_spin_unlock_irqrestore k;
       Some (Returned (- RT_ETIMEOUT, None), k)
     } else mb_recv_loop b flag Check timeout k
   }"

definition rt_mb_recv :: "bid \<Rightarrow> u32 \<Rightarrow> kernel \<Rightarrow> ((rt_err_t \<times> u32 option) outcome \<times> kernel) option" where
  "rt_mb_recv b timeout k = mb_recv b timeout RT_UNINTERRUPTIBLE k"

definition rt_mb_recv_interruptible :: "bid \<Rightarrow> u32 \<Rightarrow> kernel \<Rightarrow> ((rt_err_t \<times> u32 option) outcome \<times> kernel) option" where
  "rt_mb_recv_interruptible b timeout k = mb_recv b timeout RT_INTERRUPTIBLE k"

definition rt_mb_recv_killable :: "bid \<Rightarrow> u32 \<Rightarrow> kernel \<Rightarrow> ((rt_err_t \<times> u32 option) outcome \<times> kernel) option" where
  "rt_mb_recv_killable b timeout k = mb_recv b timeout RT_KILLABLE k"

definition rt_mb_control :: "bid \<Rightarrow> ipc_cmd \<Rightarrow> kernel \<Rightarrow> (rt_err_t \<times> kernel) option" where
  "rt_mb_control b cmd k = do {
     rt_assert (rt_object_get_type (OMailBox b) k = RT_Object_Class_MailBox);
     if cmd = RT_IPC_CMD_RESET then do {
       let k = rt_spin_lock_irqsave k;
       k \<leftarrow> rt_susp_list_resume_all (MbRecvL b) RT_ERROR k;
       k \<leftarrow> rt_susp_list_resume_all (MbSendL b) RT_ERROR k;
       let k = upd_mailbox b (\<lambda>mb. mb\<lparr>mb_entry := 0, mb_in_offset := 0, mb_out_offset := 0\<rparr>) k;
       k \<leftarrow> rt_spin_unlock_irqrestore k;
       k \<leftarrow> rt_schedule k;
       Some (RT_EOK, k)
     } else Some (- RT_ERROR, k)
   }"

section \<open>The queue of messages\<close>

definition mb_wf :: "rt_mailbox \<Rightarrow> bool" where
  "mb_wf mb \<longleftrightarrow> unat (mb_size mb) \<le> length (mb_msg_pool mb) \<and> mb_out_offset mb < mb_size mb \<and>
     mb_entry mb \<le> mb_size mb \<and>
     unat (mb_in_offset mb) = slot (unat (mb_size mb)) (unat (mb_out_offset mb)) (unat (mb_entry mb))"

definition mb_items :: "rt_mailbox \<Rightarrow> u32 list" where
  "mb_items mb = cyc (mb_msg_pool mb) (unat (mb_size mb)) (unat (mb_out_offset mb)) (unat (mb_entry mb))"

lemma length_mb_items [simp]: "length (mb_items mb) = unat (mb_entry mb)"
  by (simp add: mb_items_def)

text \<open>Moving an offset by one cell.\<close>

lemma unat_succ_wrap:
  "i < n \<Longrightarrow> unat (if n \<le> i + 1 then 0 else i + 1) = slot (unat n) (unat i) 1" for i n :: u16
  using unat_inc_less [of i n] by (auto simp: slot_def word_less_nat_alt word_le_nat_alt)

lemma unat_pred_wrap:
  fixes i n :: u16
  assumes "i < n"
  shows "slot (unat n) (unat (if 0 < i then i - 1 else n - 1)) 1 = unat i"
    "(if 0 < i then i - 1 else n - 1) < n"
proof -
  have n: "n \<noteq> 0" "0 < unat n" using assms by (auto simp: unat_gt_0)
  have i: "unat (i - 1) = unat i - 1" "0 < unat i" if "0 < i"
    using that by (auto simp: unat_dec_pos word_gt_0 unat_gt_0)
  have u: "unat i < unat n" using assms by (simp add: word_less_nat_alt)
  show "slot (unat n) (unat (if 0 < i then i - 1 else n - 1)) 1 = unat i"
    using i u n by (cases "0 < i") (auto simp: slot_def unat_dec_pos word_gt_0)
  show "(if 0 < i then i - 1 else n - 1) < n"
  proof (cases "0 < i")
    case True
    then show ?thesis using i [OF True] u by (simp add: word_less_nat_alt)
  qed (use n in \<open>simp add: unat_dec_pos word_less_nat_alt\<close>)
qed

lemma store_ok: "i < length a \<Longrightarrow> store i x a = Some (a[i := x])"
  by (simp add: store_def)

definition mb_put :: "u32 \<Rightarrow> rt_mailbox \<Rightarrow> rt_mailbox" where
  "mb_put x mb = mb\<lparr>mb_msg_pool := (mb_msg_pool mb)[unat (mb_in_offset mb) := x],
     mb_in_offset := (if mb_in_offset mb + 1 \<ge> mb_size mb then 0 else mb_in_offset mb + 1),
     mb_entry := mb_entry mb + 1\<rparr>"

lemma mb_wf_bounds:
  assumes "mb_wf mb"
  shows "unat (mb_in_offset mb) < length (mb_msg_pool mb)" "mb_in_offset mb < mb_size mb" "0 < unat (mb_size mb)"
    "unat (mb_entry mb) \<le> unat (mb_size mb)" "unat (mb_out_offset mb) < unat (mb_size mb)"
    "unat (mb_size mb) \<le> length (mb_msg_pool mb)"
  using assms by (auto simp: mb_wf_def slot_def word_less_nat_alt word_le_nat_alt split: if_splits)

lemma mb_put_correct:
  assumes wf: "mb_wf mb" and room: "mb_entry mb \<noteq> mb_size mb"
  shows "mb_wf (mb_put x mb)" "mb_items (mb_put x mb) = mb_items mb @ [x]" "mb_size (mb_put x mb) = mb_size mb"
proof -
  note b = mb_wf_bounds [OF wf]
  let ?n = "unat (mb_size mb)" and ?r = "unat (mb_out_offset mb)" and ?l = "unat (mb_entry mb)"
  have l: "mb_entry mb < mb_size mb" using wf room by (simp add: mb_wf_def order_less_le)
  then have l': "?l < ?n" by (simp add: word_less_nat_alt)
  have e: "unat (mb_entry mb + 1) = Suc ?l" using unat_inc_less [OF l] by simp
  have i: "unat (mb_in_offset mb) = slot ?n ?r ?l" using wf by (simp add: mb_wf_def)
  have "slot ?n (slot ?n ?r ?l) 1 = slot ?n ?r (Suc ?l)" using b(5) l' by (auto simp: slot_def)
  then show "mb_wf (mb_put x mb)"
    using wf unat_succ_wrap [OF b(2)] e l l' i
    by (simp add: mb_wf_def mb_put_def word_le_nat_alt)
  have "cyc ((mb_msg_pool mb)[slot ?n ?r ?l := x]) ?n ?r (?l + length [x]) = cyc (mb_msg_pool mb) ?n ?r ?l @ [x]"
  proof (rule cyc_append)
    fix j assume "j < length [x]"
    then show "(mb_msg_pool mb)[slot ?n ?r ?l := x] ! slot ?n ?r (?l + j) = [x] ! j"
      using b(1) i by simp
  next
    fix j assume "j < ?l"
    then have "slot ?n ?r ?l \<noteq> slot ?n ?r j" using slot_inj [OF b(5)] l' by simp
    then show "(mb_msg_pool mb)[slot ?n ?r ?l := x] ! slot ?n ?r j = mb_msg_pool mb ! slot ?n ?r j" by simp
  qed (use b l' in auto)
  then show "mb_items (mb_put x mb) = mb_items mb @ [x]"
    using e i by (simp add: mb_items_def mb_put_def)
qed (simp add: mb_put_def)

definition mb_push :: "u32 \<Rightarrow> rt_mailbox \<Rightarrow> rt_mailbox" where
  "mb_push x mb = (let out_offset = (if mb_out_offset mb > 0 then mb_out_offset mb - 1 else mb_size mb - 1)
     in mb\<lparr>mb_msg_pool := (mb_msg_pool mb)[unat out_offset := x], mb_out_offset := out_offset,
           mb_entry := mb_entry mb + 1\<rparr>)"

lemma mb_push_correct:
  assumes wf: "mb_wf mb" and room: "mb_entry mb \<noteq> mb_size mb"
  shows "mb_wf (mb_push x mb)" "mb_items (mb_push x mb) = x # mb_items mb" "mb_size (mb_push x mb) = mb_size mb"
    "unat (if mb_out_offset mb > 0 then mb_out_offset mb - 1 else mb_size mb - 1) < length (mb_msg_pool mb)"
proof -
  note b = mb_wf_bounds [OF wf]
  define p where "p = (if mb_out_offset mb > 0 then mb_out_offset mb - 1 else mb_size mb - 1)"
  let ?n = "unat (mb_size mb)" and ?r = "unat (mb_out_offset mb)" and ?l = "unat (mb_entry mb)"
  have "mb_out_offset mb < mb_size mb" using wf by (simp add: mb_wf_def)
  note p = unat_pred_wrap [OF this, folded p_def]
  have p': "unat p < ?n" using p(2) by (simp add: word_less_nat_alt)
  have l: "mb_entry mb < mb_size mb" using wf room by (simp add: mb_wf_def order_less_le)
  then have l': "?l < ?n" by (simp add: word_less_nat_alt)
  have e: "unat (mb_entry mb + 1) = Suc ?l" using unat_inc_less [OF l] by simp
  have i: "unat (mb_in_offset mb) = slot ?n ?r ?l" using wf by (simp add: mb_wf_def)
  have "slot ?n ?r ?l = slot ?n (unat p) (Suc ?l)" using p(1) p' l' by (auto simp: slot_def split: if_splits)
  then show "mb_wf (mb_push x mb)"
    using wf e l' i p by (simp add: mb_wf_def mb_push_def p_def [symmetric] word_le_nat_alt)
  have "cyc ((mb_msg_pool mb)[unat p := x]) ?n ?r ?l = cyc (mb_msg_pool mb) ?n ?r ?l"
  proof (rule cyc_update_other)
    fix j assume "j < ?l"
    then have "slot ?n (unat p) (Suc j) \<noteq> slot ?n (unat p) 0" using slot_inj [OF p', of "Suc j" 0] l' by simp
    moreover have "slot ?n (unat p) (Suc j) = slot ?n ?r j" using p(1) p' l' \<open>j < ?l\<close> by (auto simp: slot_def split: if_splits)
    ultimately show "slot ?n ?r j \<noteq> unat p" using p' by (simp add: slot_def)
  qed
  moreover have "slot ?n (unat p) 0 = unat p" using p' by (simp add: slot_def)
  ultimately show "mb_items (mb_push x mb) = x # mb_items mb"
    using e p(1) p' b(6) l' by (simp add: mb_items_def mb_push_def p_def [symmetric] cyc_Suc)
  show "unat p < length (mb_msg_pool mb)" using p' b(6) by simp
qed (simp add: mb_push_def Let_def)

lemma mb_load_correct:
  assumes wf: "mb_wf mb" and items: "mb_items mb = x # xs"
  shows "\<exists>mb'. mb_load mb = Some (x, mb') \<and> mb_wf mb' \<and> mb_items mb' = xs \<and> mb_size mb' = mb_size mb"
proof -
  note b = mb_wf_bounds [OF wf]
  let ?n = "unat (mb_size mb)" and ?r = "unat (mb_out_offset mb)" and ?l = "unat (mb_entry mb)"
  have "length (mb_items mb) = Suc (length xs)" using items by simp
  then have l: "?l = Suc (length xs)" by simp
  then have "mb_entry mb \<noteq> 0" by auto
  then have d: "unat (mb_entry mb - 1) = length xs" using l unat_dec_pos [of "mb_entry mb"] by simp
  have o: "mb_out_offset mb < mb_size mb" using wf by (simp add: mb_wf_def)
  note s = unat_succ_wrap [OF o]
  have c: "mb_msg_pool mb ! slot ?n ?r 0 = x" "cyc (mb_msg_pool mb) ?n (slot ?n ?r 1) (length xs) = xs"
    using items l b(4,5) by (simp_all add: mb_items_def cyc_Suc)
  have "slot ?n ?r 0 = ?r" using b(5) by (simp add: slot_def)
  let ?mb = "mb\<lparr>mb_out_offset := (if mb_out_offset mb + 1 \<ge> mb_size mb then 0 else mb_out_offset mb + 1), mb_entry := mb_entry mb - 1\<rparr>"
  have ld: "mb_load mb = Some (x, ?mb)"
    using \<open>mb_entry mb \<noteq> 0\<close> b(5,6) c(1) \<open>slot ?n ?r 0 = ?r\<close> by (simp add: mb_load_def fetch_def Let_def word_gt_0)
  have "slot ?n ?r 1 < ?n" using b(5) by (auto simp: slot_def)
  moreover have "slot ?n ?r ?l = slot ?n (slot ?n ?r 1) (length xs)" using l b(4,5) by (auto simp: slot_def)
  ultimately have "mb_wf ?mb"
    using wf s d b(4) l by (simp add: mb_wf_def word_less_nat_alt word_le_nat_alt)
  moreover have "mb_items ?mb = xs" using s d c(2) by (simp add: mb_items_def)
  ultimately show ?thesis using ld by simp
qed

text \<open>The mailbox as a bounded queue.\<close>

definition mb_send1 :: "u32 \<Rightarrow> rt_mailbox \<Rightarrow> rt_mailbox option" where
  "mb_send1 x mb = (if mb_entry mb = mb_size mb then None
     else do { mb' \<leftarrow> mb_store x mb; Some (mb'\<lparr>mb_entry := mb_entry mb' + 1\<rparr>) })"

definition mb_recv1 :: "rt_mailbox \<Rightarrow> (u32 \<times> rt_mailbox) option" where
  "mb_recv1 mb = (if mb_entry mb = 0 then None else mb_load mb)"

lemma mb_store_put:
  assumes "mb_wf mb"
  shows "\<exists>mb'. mb_store x mb = Some mb' \<and> mb'\<lparr>mb_entry := mb_entry mb' + 1\<rparr> = mb_put x mb \<and> mb_entry mb' = mb_entry mb"
  using mb_wf_bounds(1) [OF assms] by (simp add: mb_store_def store_def mb_put_def Let_def)

interpretation mb_fifo: bounded_fifo mb_wf "\<lambda>mb. unat (mb_size mb)" mb_items mb_send1 mb_recv1
proof unfold_locales
  fix s :: rt_mailbox and x xs assume wf: "mb_wf s"
  show "length (mb_items s) \<le> unat (mb_size s)" using mb_wf_bounds(4) [OF wf] by simp
  show "mb_send1 x s = None" if "length (mb_items s) = unat (mb_size s)"
    using that by (simp add: mb_send1_def word_unat_eq_iff)
  show "\<exists>s'. mb_send1 x s = Some s' \<and> mb_wf s' \<and> unat (mb_size s') = unat (mb_size s) \<and> mb_items s' = mb_items s @ [x]"
    if "length (mb_items s) < unat (mb_size s)"
  proof -
    have "mb_entry s \<noteq> mb_size s" using that by auto
    then show ?thesis using mb_store_put [OF wf, of x] mb_put_correct [OF wf, of x] by (auto simp: mb_send1_def)
  qed
  show "mb_recv1 s = None" if "mb_items s = []"
    using arg_cong [OF that, of length] by (simp add: mb_recv1_def unat_eq_zero)
  show "\<exists>s'. mb_recv1 s = Some (x, s') \<and> mb_wf s' \<and> unat (mb_size s') = unat (mb_size s) \<and> mb_items s' = xs"
    if "mb_items s = x # xs"
    using mb_load_correct [OF wf that] arg_cong [OF that, of length] by (auto simp: mb_recv1_def)
qed

section \<open>Sending and receiving\<close>

lemma mb_section_wp:
  assumes k: "kok (Suc n) k" and h: "is_susp_list h" and c: "rt_current_thread k \<noteq> None"
    and Q: "\<And>k'. kok (Suc n) k' \<Longrightarrow> mailboxes k' = (mailboxes k)(b := mb) \<Longrightarrow> tlists k' h = tl (tlists k h) \<Longrightarrow>
       (\<And>h'. is_susp_list h' \<Longrightarrow> h' \<noteq> h \<Longrightarrow> tlists k' h' = tlists k h') \<Longrightarrow>
       (\<And>t ts. tlists k h = t # ts \<Longrightarrow> \<not> thread_suspended k' t \<and> th_error (threads k' t) = RT_EOK) \<Longrightarrow> Q k'"
  shows "wp (resume_one h (upd_mailbox b (\<lambda>_. mb) (rt_enter_critical k))) Q"
proof -
  have "wp (resume_one h (rt_enter_critical (upd_mailbox b (\<lambda>_. mb) k))) Q"
  proof (rule resume_one_wp [where n = n])
    fix k' assume k': "kok (Suc n) k'" "resumed h (upd_mailbox b (\<lambda>_. mb) k) k'"
    show "Q k'" using k'(2) by (intro Q [OF k'(1)]) (auto simp: resumed_def same_ipc_def upd_sel)
  qed (use k h c in \<open>simp_all add: upd_sel\<close>)
  then show ?thesis by (simp add: enter_commute)
qed

text \<open>Leaving the other mailboxes alone.\<close>

definition mb_only :: "bid \<Rightarrow> kernel \<Rightarrow> kernel \<Rightarrow> bool" where
  "mb_only b k k' \<longleftrightarrow> mb_wf (mailboxes k' b) \<and> mb_size (mailboxes k' b) = mb_size (mailboxes k b) \<and>
     (\<forall>b'. b' \<noteq> b \<longrightarrow> mailboxes k' b' = mailboxes k b')"

lemma mb_send_tail_wp:
  assumes k: "kok (Suc n) k" and c: "rt_current_thread k \<noteq> None" and wf: "mb_wf (mailboxes k b)"
    and room: "mb_entry (mailboxes k b) \<noteq> mb_size (mailboxes k b)"
    and Q: "\<And>k'. kok (Suc n) k' \<Longrightarrow> mb_only b k k' \<Longrightarrow> mb_items (mailboxes k' b) = mb_items (mailboxes k b) @ [v] \<Longrightarrow>
       tlists k' (MbRecvL b) = tl (tlists k (MbRecvL b)) \<Longrightarrow> tlists k' (MbSendL b) = tlists k (MbSendL b) \<Longrightarrow>
       (\<And>t ts. tlists k (MbRecvL b) = t # ts \<Longrightarrow> \<not> thread_suspended k' t \<and> th_error (threads k' t) = RT_EOK) \<Longrightarrow> Q (RT_EOK, k')"
  shows "wp (mb_send_tail b v (rt_enter_critical k)) Q"
proof -
  obtain mb' where mb': "mb_store v (mailboxes k b) = Some mb'" "mb'\<lparr>mb_entry := mb_entry mb' + 1\<rparr> = mb_put v (mailboxes k b)"
    "mb_entry mb' = mb_entry (mailboxes k b)"
    using mb_store_put [OF wf] by blast
  have "mb_entry (mailboxes k b) < mb_size (mailboxes k b)" using wf room by (simp add: mb_wf_def order_less_le)
  then have max: "mb_entry (mailboxes k b) < 0xffff"
    using unsigned_less [of "mb_size (mailboxes k b)", where 'a = nat] by (simp add: word_less_nat_alt)
  have u: "upd_mailbox b (\<lambda>mb. mb\<lparr>mb_entry := mb_entry mb + 1\<rparr>) (upd_mailbox b (\<lambda>_. mb') k1) =
      upd_mailbox b (\<lambda>_. mb_put v (mailboxes k b)) k1" for k1
    by (simp add: upd_defs mb'(2))
  note p = mb_put_correct [OF wf room, of v]
  have "wp (resume_one (MbRecvL b) (upd_mailbox b (\<lambda>_. mb_put v (mailboxes k b)) (rt_enter_critical k))) (\<lambda>k'. Q (0, k'))"
    by (rule mb_section_wp [OF k _ c])
      (auto intro!: Q simp: mb_only_def p)
  then show ?thesis by (simp add: mb_send_tail_def mb' max u Let_def)
qed

lemma mb_recv_tail_wp:
  assumes k: "kok (Suc n) k" and c: "rt_current_thread k \<noteq> None" and wf: "mb_wf (mailboxes k b)"
    and items: "mb_items (mailboxes k b) = v # vs"
    and Q: "\<And>k'. kok (Suc n) k' \<Longrightarrow> mb_only b k k' \<Longrightarrow> mb_items (mailboxes k' b) = vs \<Longrightarrow>
       tlists k' (MbSendL b) = tl (tlists k (MbSendL b)) \<Longrightarrow> tlists k' (MbRecvL b) = tlists k (MbRecvL b) \<Longrightarrow>
       (\<And>t ts. tlists k (MbSendL b) = t # ts \<Longrightarrow> \<not> thread_suspended k' t \<and> th_error (threads k' t) = RT_EOK) \<Longrightarrow>
       Q ((RT_EOK, Some v), k')"
  shows "wp (mb_recv_tail b (rt_enter_critical k)) Q"
proof -
  obtain mb' where mb': "mb_load (mailboxes k b) = Some (v, mb')" "mb_wf mb'" "mb_items mb' = vs"
    "mb_size mb' = mb_size (mailboxes k b)"
    using mb_load_correct [OF wf items] by blast
  have "wp (resume_one (MbSendL b) (upd_mailbox b (\<lambda>_. mb') (rt_enter_critical k))) (\<lambda>k'. Q ((0, Some v), k'))"
    by (rule mb_section_wp [OF k _ c])
      (auto intro!: Q simp: mb_only_def mb')
  then show ?thesis by (simp add: mb_recv_tail_def mb')
qed

lemma mb_items_full: "length (mb_items mb) = unat (mb_size mb) \<longleftrightarrow> mb_entry mb = mb_size mb"
  by (simp add: word_unat_eq_iff)

lemma mb_items_empty: "mb_items mb = [] \<longleftrightarrow> mb_entry mb = 0"
  using length_0_conv [of "mb_items mb"] by (auto simp: unat_eq_zero)

lemma mb_unchanged: "mb_wf (mailboxes k b) \<Longrightarrow> mailboxes k' = mailboxes k \<Longrightarrow> mb_only b k k'"
  by (simp add: mb_only_def)

text \<open>A section that only reads.\<close>

lemma mb_read_section_wp:
  assumes k: "kok n k" and wf: "mb_wf (mailboxes k b)"
    and Q: "\<And>k'. kok n k' \<Longrightarrow> mb_only b k k' \<Longrightarrow> mailboxes k' = mailboxes k \<Longrightarrow>
       tlists k' (MbRecvL b) = tlists k (MbRecvL b) \<Longrightarrow> tlists k' (MbSendL b) = tlists k (MbSendL b) \<Longrightarrow> Q k'"
  shows "wp (rt_exit_critical (rt_enter_critical k)) Q"
proof (rule kok_section_wp [OF k])
  fix k' assume k': "kok n k'" "sched_only k k'"
  have m: "mailboxes k' = mailboxes k" using same_ipc_sched_only [OF k'(2)] by (simp add: same_ipc_def)
  show "Q k'" by (rule Q [OF k'(1) mb_unchanged [OF wf m] m]) (use sched_only_susp [OF k'(2)] in simp_all)
qed

text \<open>C22. Sending to a mailbox. With room the word goes behind the others and the receiver that has
  waited longest, if any, is woken; on a full mailbox the call fails with \<^verbatim>\<open>-RT_EFULL\<close> when it must
  not wait, and else queues the sender and lets another thread run. No message is lost, overtaken
  or duplicated and the other mailboxes are not touched.\<close>

theorem rt_mb_send_correct:
  assumes k: "kok (Suc n) k" and ty: "rt_object_get_type (OMailBox b) k = RT_Object_Class_MailBox"
    and c: "rt_current_thread k \<noteq> None" and m: "timeout \<noteq> 0 \<Longrightarrow> may_block t k" and to: "timeout \<noteq> 0x7fffffff"
    and f: "ob_flag (objects k (OMailBox b)) = f" "f = RT_IPC_FLAG_FIFO \<or> f = RT_IPC_FLAG_PRIO"
    and wf: "mb_wf (mailboxes k b)"
  shows "wp (mb_send_wait b v timeout flag k) (\<lambda>(out, k'). kok (Suc n) k' \<and> mb_only b k k' \<and>
     (let items = mb_items (mailboxes k b)
      in if length items < unat (mb_size (mailboxes k b))
         then out = Returned RT_EOK \<and> mb_items (mailboxes k' b) = items @ [v] \<and>
              tlists k' (MbRecvL b) = tl (tlists k (MbRecvL b)) \<and> tlists k' (MbSendL b) = tlists k (MbSendL b) \<and>
              (\<forall>r rs. tlists k (MbRecvL b) = r # rs \<longrightarrow> \<not> thread_suspended k' r \<and> th_error (threads k' r) = RT_EOK)
         else mb_items (mailboxes k' b) = items \<and>
              (if timeout = RT_WAITING_NO
               then out = Returned (- RT_EFULL) \<and> tlists k' (MbSendL b) = tlists k (MbSendL b)
               else out = Waiting \<and> waits t (MbSendL b) f timeout k k')))"
proof -
  have d: "timeout \<noteq> 0 \<longrightarrow> debug_scheduler_available k" using may_block_debug [OF m] by blast
  have le: "length (mb_items (mailboxes k b)) \<le> unat (mb_size (mailboxes k b))" using mb_fifo.bounded [OF wf] .
  consider (room) "mb_entry (mailboxes k b) \<noteq> mb_size (mailboxes k b)"
    | (no) "mb_entry (mailboxes k b) = mb_size (mailboxes k b)" "timeout = 0"
    | (wait) "mb_entry (mailboxes k b) = mb_size (mailboxes k b)" "timeout \<noteq> 0" by blast
  then show ?thesis
  proof cases
    case room
    then have l: "length (mb_items (mailboxes k b)) < unat (mb_size (mailboxes k b))"
      using le mb_items_full [of "mailboxes k b"] by linarith
    show ?thesis
      unfolding mb_send_wait_def mb_send_loop_def spin_defs
      using ty d room l
      by (simp add: ipc_wait_avail case_prod_unfold) (rule mb_send_tail_wp [OF k c wf room], auto)
  next
    case no
    then show ?thesis
      unfolding mb_send_wait_def spin_defs using ty
      by simp (rule mb_read_section_wp [OF k wf], simp)
  next
    case wait
    have "wp (ipc_wait (\<lambda>k. mb_entry (mailboxes k b) = mb_size (mailboxes k b)) (MbSendL b) (OMailBox b)
       (\<lambda>t k. do { k \<leftarrow> rt_exit_critical k; Some (- RT_EFULL, k) }) (\<lambda>e. e) (mb_send_tail b v) flag Check timeout (rt_enter_critical k))
       (\<lambda>(out, k'). kok (Suc n) k' \<and> mb_only b k k' \<and> mailboxes k' = mailboxes k \<and> out = Waiting \<and> waits t (MbSendL b) f timeout k k')"
      by (rule ipc_wait_block_wp [OF k m [OF wait(2)] _ f wait(2) to])
        (use wait mb_unchanged [OF wf] in \<open>simp_all add: same_ipc_def\<close>)
    then show ?thesis
      unfolding mb_send_wait_def mb_send_loop_def spin_defs using ty d wait
      by (auto elim!: wp_mono)
  qed
qed

text \<open>C23. Receiving from a mailbox. The oldest word is taken and the sender that has waited longest is
  woken; on an empty mailbox the call fails with \<^verbatim>\<open>-RT_ETIMEOUT\<close> when it must not wait, and else
  queues the receiver and lets another thread run.\<close>

theorem rt_mb_recv_correct:
  assumes k: "kok (Suc n) k" and ty: "rt_object_get_type (OMailBox b) k = RT_Object_Class_MailBox"
    and c: "rt_current_thread k \<noteq> None" and m: "timeout \<noteq> 0 \<Longrightarrow> may_block t k" and to: "timeout \<noteq> 0x7fffffff"
    and f: "ob_flag (objects k (OMailBox b)) = f" "f = RT_IPC_FLAG_FIFO \<or> f = RT_IPC_FLAG_PRIO"
    and wf: "mb_wf (mailboxes k b)"
  shows "wp (mb_recv b timeout flag k) (\<lambda>(out, k'). kok (Suc n) k' \<and> mb_only b k k' \<and>
     (case mb_items (mailboxes k b) of
        v # vs \<Rightarrow> out = Returned (RT_EOK, Some v) \<and> mb_items (mailboxes k' b) = vs \<and>
          tlists k' (MbSendL b) = tl (tlists k (MbSendL b)) \<and> tlists k' (MbRecvL b) = tlists k (MbRecvL b) \<and>
          (\<forall>s ss. tlists k (MbSendL b) = s # ss \<longrightarrow> \<not> thread_suspended k' s \<and> th_error (threads k' s) = RT_EOK)
      | [] \<Rightarrow> mb_items (mailboxes k' b) = [] \<and>
          (if timeout = RT_WAITING_NO
           then out = Returned (- RT_ETIMEOUT, None) \<and> tlists k' (MbRecvL b) = tlists k (MbRecvL b)
           else out = Waiting \<and> waits t (MbRecvL b) f timeout k k')))"
proof -
  have d: "timeout \<noteq> 0 \<longrightarrow> debug_scheduler_available k" using may_block_debug [OF m] by blast
  consider (avail) v vs where "mb_items (mailboxes k b) = v # vs" | (no) "mb_items (mailboxes k b) = []" "timeout = 0"
    | (wait) "mb_items (mailboxes k b) = []" "timeout \<noteq> 0" by (cases "mb_items (mailboxes k b)") auto
  then show ?thesis
  proof cases
    case avail
    then have e: "mb_entry (mailboxes k b) \<noteq> 0" using mb_items_empty [of "mailboxes k b"] by auto
    show ?thesis
      unfolding mb_recv_def mb_recv_loop_def spin_defs
      using ty d e avail
      by (simp add: ipc_wait_avail case_prod_unfold) (rule mb_recv_tail_wp [OF k c wf avail], auto)
  next
    case no
    have e: "mb_entry (mailboxes k b) = 0" using no(1) by (simp add: mb_items_empty)
    show ?thesis
      unfolding mb_recv_def spin_defs using ty no e
      by simp (rule mb_read_section_wp [OF k wf], simp)
  next
    case wait
    have "wp (mb_recv_loop b flag Check timeout (rt_enter_critical k))
       (\<lambda>(out, k'). kok (Suc n) k' \<and> mb_only b k k' \<and> mailboxes k' = mailboxes k \<and> out = Waiting \<and> waits t (MbRecvL b) f timeout k k')"
      unfolding mb_recv_loop_def
      by (rule ipc_wait_block_wp [OF k m [OF wait(2)] _ f wait(2) to])
        (use wait mb_unchanged [OF wf] in \<open>simp_all add: same_ipc_def mb_items_empty\<close>)
    then show ?thesis
      unfolding mb_recv_def spin_defs using ty d wait
      by (auto elim!: wp_mono)
  qed
qed

text \<open>Urgent mail overtakes everything: on a mailbox with room the word is put in front of the queue
  and a receiver woken; a full mailbox refuses it.\<close>

theorem rt_mb_urgent_correct:
  assumes k: "kok (Suc n) k" and ty: "rt_object_get_type (OMailBox b) k = RT_Object_Class_MailBox"
    and c: "rt_current_thread k \<noteq> None" and wf: "mb_wf (mailboxes k b)"
  shows "wp (rt_mb_urgent b v k) (\<lambda>(err, k'). kok (Suc n) k' \<and> mb_only b k k' \<and>
     (if length (mb_items (mailboxes k b)) < unat (mb_size (mailboxes k b))
      then err = RT_EOK \<and> mb_items (mailboxes k' b) = v # mb_items (mailboxes k b) \<and>
           tlists k' (MbRecvL b) = tl (tlists k (MbRecvL b)) \<and>
           (\<forall>r rs. tlists k (MbRecvL b) = r # rs \<longrightarrow> \<not> thread_suspended k' r \<and> th_error (threads k' r) = RT_EOK)
      else err = - RT_EFULL \<and> mailboxes k' = mailboxes k \<and> tlists k' (MbRecvL b) = tlists k (MbRecvL b)))"
proof (cases "mb_entry (mailboxes k b) = mb_size (mailboxes k b)")
  case True
  then show ?thesis
    unfolding rt_mb_urgent_def spin_defs using ty
    by simp (rule mb_read_section_wp [OF k wf], simp)
next
  case room: False
  have l: "length (mb_items (mailboxes k b)) < unat (mb_size (mailboxes k b))"
    using mb_fifo.bounded [OF wf] mb_items_full [of "mailboxes k b"] room by linarith
  define o' where "o' = (if mb_out_offset (mailboxes k b) > 0 then mb_out_offset (mailboxes k b) - 1
    else mb_size (mailboxes k b) - 1)"
  note p = mb_push_correct(1-3) [OF wf room, of v] mb_push_correct(4) [OF wf room, folded o'_def]
  have "wp (resume_one (MbRecvL b) (upd_mailbox b (\<lambda>_. mb_push v (mailboxes k b)) (rt_enter_critical k)))
     (\<lambda>k'. kok (Suc n) k' \<and> mb_only b k k' \<and> mb_items (mailboxes k' b) = v # mb_items (mailboxes k b) \<and>
           tlists k' (MbRecvL b) = tl (tlists k (MbRecvL b)) \<and>
           (\<forall>r rs. tlists k (MbRecvL b) = r # rs \<longrightarrow> \<not> thread_suspended k' r \<and> th_error (threads k' r) = RT_EOK))"
    by (rule mb_section_wp [OF k _ c]) (auto simp: mb_only_def p)
  moreover have "upd_mailbox b (\<lambda>mb. mb\<lparr>mb_msg_pool := (mb_msg_pool (mailboxes k b))[unat o' := v], mb_out_offset := o', mb_entry := mb_entry mb + 1\<rparr>)
      (rt_enter_critical k) = upd_mailbox b (\<lambda>_. mb_push v (mailboxes k b)) (rt_enter_critical k)"
    by (simp add: upd_defs mb_push_def o'_def Let_def)
  ultimately show ?thesis
    unfolding rt_mb_urgent_def spin_defs enter_critical_fields Let_def o'_def [symmetric] using ty room l p(4)
    by (simp add: store_def)
qed

section \<open>Waiting on\<close>

text \<open>C24. A receiver that runs again after waiting. It returns the error code it was woken with (an
  error or the timeout) without taking a message; woken with \<^verbatim>\<open>RT_EOK\<close> it takes the oldest message.
  If another receiver was faster, it waits again and its timer is set to the same deadline as
  before; once the deadline has passed it returns \<^verbatim>\<open>-RT_ETIMEOUT\<close>. So a call with a finite timeout
  is not prolonged by being woken in vain.\<close>

theorem rt_mb_recv_resumed:
  assumes k: "kok (Suc n) k" and m: "may_block t k" "chosen t k" and wf: "mb_wf (mailboxes k b)"
    and f: "ob_flag (objects k (OMailBox b)) = f" "f = RT_IPC_FLAG_FIFO \<or> f = RT_IPC_FLAG_PRIO"
    and to: "0 < sint timeout" "timeout \<noteq> 0x7fffffff" and el: "unat (rt_tick k - start) \<le> unat timeout + 0x80000000"
  shows "wp (mb_recv_loop b flag (Resume t start) timeout k) (\<lambda>(out, k'). kok (Suc n) k' \<and> mb_only b k k' \<and>
     (if th_error (threads k t) \<noteq> RT_EOK
      then out = Returned (th_error (threads k t), None) \<and> mailboxes k' = mailboxes k
      else case mb_items (mailboxes k b) of
        v # vs \<Rightarrow> out = Returned (RT_EOK, Some v) \<and> mb_items (mailboxes k' b) = vs
      | [] \<Rightarrow> mailboxes k' = mailboxes k \<and>
          (if rt_tick k - start < timeout
           then out = Waiting \<and> t \<in> set (tlists k' (MbRecvL b)) \<and> timer_active k' (ThreadTimer t) \<and>
                tm_timeout_tick (timers k' (ThreadTimer t)) = start + timeout
           else out = Returned (- RT_ETIMEOUT, None))))"
    (is "wp _ ?P")
proof -
  have ipc: "mailboxes k' = mailboxes k" if "same_ipc k k'" for k' using that by (simp add: same_ipc_def)
  consider (err) "th_error (threads k t) \<noteq> 0" | (avail) v vs where "th_error (threads k t) = 0" "mb_items (mailboxes k b) = v # vs"
    | (wait) "th_error (threads k t) = 0" "mb_items (mailboxes k b) = []" "rt_tick k - start < timeout"
    | (over) "th_error (threads k t) = 0" "mb_items (mailboxes k b) = []" "timeout \<le> rt_tick k - start"
    by (metis neq_Nil_conv not_less)
  then show ?thesis
  proof cases
    case err
    show ?thesis
      unfolding mb_recv_loop_def
    proof (rule ipc_wait_resume_wp [OF k m])
      fix k' assume k': "kok (Suc n) k'" "sched_only k k'"
      have "mailboxes k' = mailboxes k" by (rule ipc [OF same_ipc_sched_only [OF k'(2)]])
      then show "?P (Returned (th_error (threads k t), None), k')" using k'(1) err mb_unchanged [OF wf] by simp
    qed (use err in simp)
  next
    case avail
    then have e: "mb_entry (mailboxes k b) \<noteq> 0" using mb_items_empty [of "mailboxes k b"] by auto
    show ?thesis
      unfolding mb_recv_loop_def
    proof (rule ipc_wait_resume_wp [OF k m])
      fix k1 assume k1: "kok (Suc n) k1" "sched_only k k1" "may_block t k1"
      note mb = ipc [OF same_ipc_sched_only [OF k1(2)]]
      have c: "rt_current_thread k1 \<noteq> None" using k1(3) by (simp add: may_block_def)
      have wf1: "mb_wf (mailboxes k1 b)" and it1: "mb_items (mailboxes k1 b) = v # vs" using wf avail(2) mb by simp_all
      have "wp (mb_recv_tail b (rt_enter_critical k1)) (\<lambda>(r, k'). ?P (Returned r, k'))"
        by (rule mb_recv_tail_wp [OF k1(1) c wf1 it1]) (use avail mb in \<open>auto simp: mb_only_def\<close>)
      then show "wp (ipc_wait (\<lambda>k. mb_entry (mailboxes k b) = 0) (MbRecvL b) (OMailBox b)
         (\<lambda>t k. do { k \<leftarrow> rt_spin_unlock_irqrestore k;
            Some ((- RT_ETIMEOUT, None), upd_thread t (\<lambda>th. th\<lparr>th_error := - RT_ETIMEOUT\<rparr>) k) })
         (\<lambda>e. (e, None)) (mb_recv_tail b) flag Check (remaining_time timeout start (rt_tick k)) (rt_enter_critical k1)) ?P"
        using e mb by (simp add: ipc_wait_avail case_prod_unfold)
    qed (use avail in simp)
  next
    case wait
    have e: "mb_entry (mailboxes k b) = 0" using wait(2) by (simp add: mb_items_empty)
    show ?thesis
      unfolding mb_recv_loop_def
    proof (rule ipc_wait_rewait_wp [OF k m _ f to wait(3,1)])
      show "mb_entry (mailboxes (rt_enter_critical k') b) = 0" if "same_ipc k k'" for k' using e ipc [OF that] by simp
      fix k' assume "kok (Suc n) k'" "t \<in> set (tlists k' (MbRecvL b))" "timer_active k' (ThreadTimer t)"
        "tm_timeout_tick (timers k' (ThreadTimer t)) = start + timeout" "same_ipc k k'"
      then show "?P (Waiting, k')" using wait mb_unchanged [OF wf ipc] ipc [of k'] by simp
    qed simp
  next
    case over
    have e: "mb_entry (mailboxes k b) = 0" using over(2) by (simp add: mb_items_empty)
    show ?thesis
      unfolding mb_recv_loop_def
    proof (rule ipc_wait_expired_wp [OF k m over(1) to(1) over(3) el])
      fix k1 assume k1: "kok (Suc n) k1" "sched_only k k1"
      note mb = ipc [OF same_ipc_sched_only [OF k1(2)]]
      have "wp (rt_exit_critical (rt_enter_critical (upd_thread t (\<lambda>th. th\<lparr>th_error := - 9\<rparr>) k1)))
         (\<lambda>k'. kok (Suc n) k' \<and> mailboxes k' = mailboxes k)"
        by (rule kok_section_wp) (use k1(1) same_ipc_sched_only mb in \<open>auto simp: same_ipc_def upd_sel\<close>)
      then show "wp (do { k \<leftarrow> rt_spin_unlock_irqrestore (upd_thread t (\<lambda>th. th\<lparr>th_error := - 9\<rparr>) (rt_enter_critical k1));
            Some ((- 2, None), upd_thread t (\<lambda>th. th\<lparr>th_error := - 2\<rparr>) k) }) (\<lambda>(r, k'). ?P (Returned r, k'))"
        using over mb_unchanged [OF wf] by (auto simp: spin_defs enter_commute upd_sel mb_only_def elim!: wp_mono)
    next
      show "mb_entry (mailboxes (rt_enter_critical k') b) = 0" if "same_ipc k k'" for k' using e ipc [OF that] by simp
    qed
  qed
qed

section \<open>Instances\<close>

text \<open>Mailbox 2 of the sample system has two cells, the second of them in use.\<close>

definition sample_mb :: "u16 \<Rightarrow> kernel" where
  "sample_mb n = upd_mailbox 2 (\<lambda>_. \<lparr>mb_msg_pool = [0, 7], mb_size = 2, mb_entry = n,
     mb_in_offset = (if n = 1 then 0 else 1), mb_out_offset = 1\<rparr>) sample_block"

lemma sample_mb_fields [simp]:
  "rt_object_get_type (OMailBox 2) (sample_mb n) = RT_Object_Class_MailBox"
  "rt_current_thread (sample_mb n) = Some 2" "ob_flag (objects (sample_mb n) (OMailBox 2)) = RT_IPC_FLAG_FIFO"
  "mb_wf (mailboxes (sample_mb 1) 2)" "mb_wf (mailboxes (sample_mb 0) 2)"
  "mb_items (mailboxes (sample_mb 1) 2) = [7]" "mb_items (mailboxes (sample_mb 0) 2) = []"
  "mb_size (mailboxes (sample_mb n) 2) = 2" "rt_tick (sample_mb n) = 0"
  "th_error (threads (sample_mb n) 2) = 0"
  by (simp_all add: sample_mb_def upd_sel rt_object_get_type_def sample_type_def zero_object_def mb_wf_def mb_items_def
      slot_def cyc_def sample_thread_def zero_thread_def sample_kernel_def zero_kernel_def upt_rec)

lemma kok_sample_mb: "kok 8 (sample_mb n)" "may_block 2 (sample_mb n)" "chosen 2 (sample_mb n)"
proof -
  show "kok 8 (sample_mb n)" using kok_sample_block by (simp add: sample_mb_def)
  show "may_block 2 (sample_mb n)"
    using may_block_sample
    by (simp add: may_block_def sample_mb_def upd_sel rt_interrupt_get_nest_def tt_wf_def rt_object_get_type_def)
  show "chosen 2 (sample_mb n)"
    unfolding chosen_def by (auto simp: sample_mb_def upd_sel sample_ready keeps_cpu_def)
qed

theorem rt_mb_send_correct_witness:
  "wp (mb_send_wait 2 9 5 RT_UNINTERRUPTIBLE (sample_mb 1)) (\<lambda>(out, k'). kok 8 k' \<and> out = Returned RT_EOK \<and>
     mb_items (mailboxes k' 2) = [7, 9])"
  using rt_mb_send_correct [of 7 "sample_mb 1" 2 5 2 RT_IPC_FLAG_FIFO 9 RT_UNINTERRUPTIBLE] kok_sample_mb [of 1]
  by (auto elim!: wp_mono)

theorem rt_mb_recv_correct_witness:
  "wp (mb_recv 2 0 RT_UNINTERRUPTIBLE (sample_mb 1)) (\<lambda>(out, k'). kok 8 k' \<and> out = Returned (RT_EOK, Some 7) \<and>
     mb_items (mailboxes k' 2) = [])"
  using rt_mb_recv_correct [of 7 "sample_mb 1" 2 0 2 RT_IPC_FLAG_FIFO RT_UNINTERRUPTIBLE] kok_sample_mb [of 1]
  by (auto elim!: wp_mono)

theorem rt_mb_recv_resumed_witness:
  "wp (mb_recv_loop 2 RT_UNINTERRUPTIBLE (Resume 2 (- 3)) 10 (sample_mb 0)) (\<lambda>(out, k'). kok 8 k' \<and> out = Waiting \<and>
     timer_active k' (ThreadTimer 2) \<and> tm_timeout_tick (timers k' (ThreadTimer 2)) = 7)"
  using rt_mb_recv_resumed [of 7 "sample_mb 0" 2 2 RT_IPC_FLAG_FIFO 10 "- 3" RT_UNINTERRUPTIBLE] kok_sample_mb [of 0]
  by (auto elim!: wp_mono)

end
