(* ===== verification/MsgQueue_Core.thy ===== *)
theory MsgQueue_Core
  imports Kernel_State Bounded_Fifo
begin

text \<open>
  The data structure of the message queues of \<^verbatim>\<open>src/ipc.c\<close>: message nodes that are linked
  into a free list and into the queue itself. \<^verbatim>\<open>_rt_mq_send_wait\<close>, \<^verbatim>\<open>rt_mq_urgent\<close> and
  \<^verbatim>\<open>_rt_mq_recv\<close> touch it in two separate sections and copy the bytes between them, when
  other threads may run; the node being copied is then in neither list. The operations of each
  section are defined here on the structure alone, and shown to keep the nodes partitioned whatever
  the interleaving of the sections is.
\<close>

section \<open>Definitions\<close>

text \<open>Sending: take a node from the free list; write the message; link it.\<close>

definition mq_get_free :: "rt_messagequeue \<Rightarrow> (nat \<times> rt_messagequeue) option" where
  "mq_get_free mq = do {
     msg \<leftarrow> mq_queue_free mq;
     node \<leftarrow> fetch msg (mq_msg_pool mq);
     Some (msg, mq\<lparr>mq_queue_free := msg_next node\<rparr>)
   }"

definition mq_set_next :: "nat \<Rightarrow> nat option \<Rightarrow> rt_messagequeue \<Rightarrow> rt_messagequeue option" where
  "mq_set_next msg next mq = do {
     node \<leftarrow> fetch msg (mq_msg_pool mq);
     Some (mq\<lparr>mq_msg_pool := (mq_msg_pool mq)[msg := node\<lparr>msg_next := next\<rparr>]\<rparr>)
   }"

definition mq_write :: "nat \<Rightarrow> u8 list \<Rightarrow> nat \<Rightarrow> rt_messagequeue \<Rightarrow> rt_messagequeue option" where
  "mq_write msg buffer sz mq = do {
     node \<leftarrow> fetch msg (mq_msg_pool mq);
     src \<leftarrow> segment 0 sz buffer;
     data \<leftarrow> blit 0 src (msg_data node);
     Some (mq\<lparr>mq_msg_pool := (mq_msg_pool mq)[msg := node\<lparr>msg_length := sz, msg_data := data\<rparr>]\<rparr>)
   }"

definition mq_append :: "nat \<Rightarrow> rt_messagequeue \<Rightarrow> rt_messagequeue option" where
  "mq_append msg mq = do {
     mq \<leftarrow> (case mq_queue_tail mq of Some tail \<Rightarrow> mq_set_next tail (Some msg) mq | None \<Rightarrow> Some mq);
     Some (mq\<lparr>mq_queue_tail := Some msg,
              mq_queue_head := (if mq_queue_head mq = None then Some msg else mq_queue_head mq)\<rparr>)
   }"

definition mq_prepend :: "nat \<Rightarrow> rt_messagequeue \<Rightarrow> rt_messagequeue option" where
  "mq_prepend msg mq = do {
     mq \<leftarrow> mq_set_next msg (mq_queue_head mq) mq;
     Some (mq\<lparr>mq_queue_head := Some msg,
              mq_queue_tail := (if mq_queue_tail mq = None then Some msg else mq_queue_tail mq)\<rparr>)
   }"

text \<open>Receiving: unlink the head; read the message; give the node back.\<close>

definition mq_unlink :: "rt_messagequeue \<Rightarrow> (nat \<times> rt_messagequeue) option" where
  "mq_unlink mq = do {
     msg \<leftarrow> mq_queue_head mq;
     node \<leftarrow> fetch msg (mq_msg_pool mq);
     Some (msg, mq\<lparr>mq_queue_head := msg_next node,
                   mq_queue_tail := (if mq_queue_tail mq = Some msg then None else mq_queue_tail mq)\<rparr>)
   }"

definition mq_count_down :: "rt_messagequeue \<Rightarrow> rt_messagequeue" where
  "mq_count_down mq = mq\<lparr>mq_entry := (if mq_entry mq > 0 then mq_entry mq - 1 else mq_entry mq)\<rparr>"

definition mq_read :: "nat \<Rightarrow> nat \<Rightarrow> rt_messagequeue \<Rightarrow> u8 list option" where
  "mq_read msg sz mq = do {
     node \<leftarrow> fetch msg (mq_msg_pool mq);
     segment 0 (if msg_length node > sz then sz else msg_length node) (msg_data node)
   }"

definition mq_put_free :: "nat \<Rightarrow> rt_messagequeue \<Rightarrow> rt_messagequeue option" where
  "mq_put_free msg mq = do {
     mq' \<leftarrow> mq_set_next msg (mq_queue_free mq) mq;
     Some (mq'\<lparr>mq_queue_free := Some msg\<rparr>)
   }"

text \<open>The loop of \<^verbatim>\<open>rt_mq_init\<close> that links the free list, and the one of \<^verbatim>\<open>rt_mq_control\<close> that
  releases all messages.\<close>

fun mq_link_free :: "nat list \<Rightarrow> rt_messagequeue \<Rightarrow> rt_messagequeue option" where
  "mq_link_free [] mq = Some mq"
| "mq_link_free (temp # temps) mq = do {
     mq \<leftarrow> mq_put_free temp mq;
     mq_link_free temps mq
   }"

partial_function (option) mq_release_all :: "rt_messagequeue \<Rightarrow> rt_messagequeue option" where
  "mq_release_all mq =
     (if mq_queue_head mq \<noteq> None then do {
        (msg, mq) \<leftarrow> mq_unlink mq;
        mq \<leftarrow> mq_put_free msg mq;
        mq_release_all mq
      } else Some mq)"

section \<open>The lists\<close>

text \<open>Following the links from \<open>p\<close> one meets the nodes \<open>xs\<close> and then the null pointer.\<close>

fun chain :: "rt_mq_message list \<Rightarrow> nat option \<Rightarrow> nat list \<Rightarrow> bool" where
  "chain pool p [] \<longleftrightarrow> p = None"
| "chain pool p (i # is) \<longleftrightarrow> p = Some i \<and> i < length pool \<and> chain pool (msg_next (pool ! i)) is"

lemma chain_None [simp]: "chain pool None xs \<longleftrightarrow> xs = []"
  by (cases xs) auto

lemma chain_Some: "chain pool (Some i) xs \<longleftrightarrow> i < length pool \<and> (\<exists>ys. xs = i # ys \<and> chain pool (msg_next (pool ! i)) ys)"
  by (cases xs) auto

lemma chain_bound: "chain pool p xs \<Longrightarrow> i \<in> set xs \<Longrightarrow> i < length pool"
  by (induction pool p xs rule: chain.induct) auto

lemma chain_cong:
  "chain pool p xs \<Longrightarrow> length pool' = length pool \<Longrightarrow> (\<And>i. i \<in> set xs \<Longrightarrow> msg_next (pool' ! i) = msg_next (pool ! i)) \<Longrightarrow>
   chain pool' p xs"
  by (induction pool p xs rule: chain.induct) auto

lemma chain_update: "chain pool p xs \<Longrightarrow> i \<notin> set xs \<Longrightarrow> chain (pool[i := n]) p xs"
  by (erule chain_cong) (auto, metis nth_list_update_neq)

lemma chain_snoc:
  "chain pool p (xs @ [t]) \<Longrightarrow> distinct (xs @ [t]) \<Longrightarrow> m < length pool \<Longrightarrow> m \<noteq> t \<Longrightarrow> msg_next (pool ! m) = None \<Longrightarrow>
   chain (pool[t := (pool ! t)\<lparr>msg_next := Some m\<rparr>]) p (xs @ [t, m])"
proof (induction xs arbitrary: p)
  case (Cons x xs)
  then have "chain (pool[t := (pool ! t)\<lparr>msg_next := Some m\<rparr>]) (msg_next (pool ! x)) (xs @ [t, m])" by simp
  then show ?case using Cons.prems by simp
qed simp

text \<open>The nodes of the queue, and the messages in them.\<close>

fun mq_walk :: "rt_mq_message list \<Rightarrow> nat option \<Rightarrow> nat \<Rightarrow> nat list" where
  "mq_walk pool p 0 = []"
| "mq_walk pool None (Suc n) = []"
| "mq_walk pool (Some i) (Suc n) = i # mq_walk pool (msg_next (pool ! i)) n"

lemma walk_chain: "chain pool p xs \<Longrightarrow> length xs \<le> n \<Longrightarrow> mq_walk pool p n = xs"
proof (induction xs arbitrary: p n)
  case Nil
  then show ?case by (cases n) auto
next
  case (Cons x xs)
  then show ?case by (cases n) auto
qed

definition msg_bytes :: "rt_mq_message \<Rightarrow> u8 list" where
  "msg_bytes node = take (msg_length node) (msg_data node)"

definition mq_messages :: "rt_messagequeue \<Rightarrow> u8 list list" where
  "mq_messages mq = map (\<lambda>i. msg_bytes (mq_msg_pool mq ! i)) (mq_walk (mq_msg_pool mq) (mq_queue_head mq) (unat (mq_max_msgs mq)))"

text \<open>The representation: \<open>fs\<close> is the free list, \<open>qs\<close> the queue, and \<open>F\<close> the nodes that some
  thread has taken out of one list and not yet put into the other.\<close>

definition mq_rep :: "nat list \<Rightarrow> nat list \<Rightarrow> nat set \<Rightarrow> rt_messagequeue \<Rightarrow> bool" where
  "mq_rep fs qs F mq \<longleftrightarrow> chain (mq_msg_pool mq) (mq_queue_free mq) fs \<and> chain (mq_msg_pool mq) (mq_queue_head mq) qs \<and>
     distinct (fs @ qs) \<and> set (fs @ qs) \<inter> F = {} \<and> set (fs @ qs) \<union> F = {..<unat (mq_max_msgs mq)} \<and>
     mq_queue_tail mq = (if qs = [] then None else Some (last qs)) \<and> unat (mq_entry mq) = length qs \<and>
     length (mq_msg_pool mq) = unat (mq_max_msgs mq) \<and>
     (\<forall>node \<in> set (mq_msg_pool mq). unat (mq_msg_size mq) \<le> length (msg_data node)) \<and>
     (\<forall>i \<in> set qs. msg_length (mq_msg_pool mq ! i) \<le> unat (mq_msg_size mq))"

lemma mq_repD:
  assumes "mq_rep fs qs F mq"
  shows "length fs + length qs + card F = unat (mq_max_msgs mq)" "mq_messages mq = map (\<lambda>i. msg_bytes (mq_msg_pool mq ! i)) qs"
    "i \<in> set fs \<union> set qs \<union> F \<Longrightarrow> i < length (mq_msg_pool mq)" "unat (mq_entry mq) = length qs"
    "i < length (mq_msg_pool mq) \<Longrightarrow> unat (mq_msg_size mq) \<le> length (msg_data (mq_msg_pool mq ! i))"
proof -
  have d: "distinct (fs @ qs)" and s: "set (fs @ qs) \<inter> F = {}" "set (fs @ qs) \<union> F = {..<unat (mq_max_msgs mq)}"
    using assms by (auto simp: mq_rep_def)
  have f: "finite F" using s(2) by (metis finite_Un finite_lessThan)
  have "length (fs @ qs) + card F = unat (mq_max_msgs mq)"
    using card_Un_disjoint [of "set (fs @ qs)" F] f s distinct_card [OF d] by (metis List.finite_set card_lessThan)
  then show l: "length fs + length qs + card F = unat (mq_max_msgs mq)" by simp
  have "mq_walk (mq_msg_pool mq) (mq_queue_head mq) (unat (mq_max_msgs mq)) = qs"
    using assms l by (intro walk_chain) (auto simp: mq_rep_def)
  then show "mq_messages mq = map (\<lambda>i. msg_bytes (mq_msg_pool mq ! i)) qs" by (simp add: mq_messages_def)
  show "i < length (mq_msg_pool mq)" if "i \<in> set fs \<union> set qs \<union> F"
    using assms that by (auto simp: mq_rep_def)
qed (use assms in \<open>auto simp: mq_rep_def\<close>)

section \<open>The sections\<close>

text \<open>Each step keeps the representation, for any set of nodes that are under way.\<close>

lemma get_free_rep:
  assumes r: "mq_rep (m # fs) qs F mq"
  shows "\<exists>mq'. mq_get_free mq = Some (m, mq') \<and> mq_rep fs qs (insert m F) mq' \<and> mq_messages mq' = mq_messages mq \<and>
     mq_msg_pool mq' = mq_msg_pool mq \<and> mq_msg_size mq' = mq_msg_size mq \<and> mq_max_msgs mq' = mq_max_msgs mq"
  using r by (auto simp: mq_get_free_def mq_rep_def fetch_def mq_messages_def)

lemma get_free_empty: "mq_rep [] qs F mq \<Longrightarrow> mq_queue_free mq = None"
  by (simp add: mq_rep_def)

text \<open>Changing a node under way concerns neither list.\<close>

lemma flight_update_rep:
  assumes r: "mq_rep fs qs F mq" and m: "m \<in> F" and n: "unat (mq_msg_size mq) \<le> length (msg_data n)"
  shows "mq_rep fs qs F (mq\<lparr>mq_msg_pool := (mq_msg_pool mq)[m := n]\<rparr>)"
    "mq_messages (mq\<lparr>mq_msg_pool := (mq_msg_pool mq)[m := n]\<rparr>) = mq_messages mq"
proof -
  let ?mq = "mq\<lparr>mq_msg_pool := (mq_msg_pool mq)[m := n]\<rparr>"
  have d: "m \<notin> set fs" "m \<notin> set qs" using r m by (auto simp: mq_rep_def)
  have e: "(mq_msg_pool mq)[m := n] ! i = mq_msg_pool mq ! i" if "i \<in> set qs" for i using d(2) that by (metis nth_list_update_neq)
  show rep: "mq_rep fs qs F ?mq"
    using r d n e by (auto simp: mq_rep_def chain_update dest: set_update_subset_insert [THEN subsetD])
  show "mq_messages ?mq = mq_messages mq" using mq_repD(2) [OF rep] mq_repD(2) [OF r] e by simp
qed

lemma set_next_flight:
  assumes r: "mq_rep fs qs F mq" and m: "m \<in> F"
  shows "\<exists>mq'. mq_set_next m p mq = Some mq' \<and> mq_rep fs qs F mq' \<and> mq_messages mq' = mq_messages mq \<and>
     mq_msg_pool mq' = (mq_msg_pool mq)[m := (mq_msg_pool mq ! m)\<lparr>msg_next := p\<rparr>] \<and> mq_msg_size mq' = mq_msg_size mq \<and>
     mq_max_msgs mq' = mq_max_msgs mq \<and> mq_queue_free mq' = mq_queue_free mq \<and> mq_queue_head mq' = mq_queue_head mq \<and>
     mq_queue_tail mq' = mq_queue_tail mq \<and> mq_entry mq' = mq_entry mq"
proof -
  have l: "m < length (mq_msg_pool mq)" using mq_repD(3) [OF r] m by simp
  note u = flight_update_rep [OF r m, of "(mq_msg_pool mq ! m)\<lparr>msg_next := p\<rparr>"]
  show ?thesis using u mq_repD(5) [OF r l] l by (simp add: mq_set_next_def fetch_def)
qed

lemma write_flight:
  assumes r: "mq_rep fs qs F mq" and m: "m \<in> F" and sz: "sz \<le> unat (mq_msg_size mq)" "sz \<le> length buffer"
  shows "\<exists>mq' n. mq_write m buffer sz mq = Some mq' \<and> mq_rep fs qs F mq' \<and> mq_messages mq' = mq_messages mq \<and>
     mq_msg_pool mq' = (mq_msg_pool mq)[m := n] \<and> msg_bytes n = take sz buffer \<and> msg_length n = sz \<and>
     msg_next n = msg_next (mq_msg_pool mq ! m) \<and> mq_msg_size mq' = mq_msg_size mq \<and> mq_max_msgs mq' = mq_max_msgs mq"
proof -
  have l: "m < length (mq_msg_pool mq)" using mq_repD(3) [OF r] m by simp
  let ?d = "take sz buffer @ drop sz (msg_data (mq_msg_pool mq ! m))"
  let ?n = "(mq_msg_pool mq ! m)\<lparr>msg_length := sz, msg_data := ?d\<rparr>"
  have d: "unat (mq_msg_size mq) \<le> length (msg_data (mq_msg_pool mq ! m))" by (rule mq_repD(5) [OF r l])
  have "mq_write m buffer sz mq = Some (mq\<lparr>mq_msg_pool := (mq_msg_pool mq)[m := ?n]\<rparr>)"
    using l d sz by (simp add: mq_write_def fetch_def segment_def blit_def)
  moreover have "unat (mq_msg_size mq) \<le> length (msg_data ?n)" using d sz by simp
  moreover have "msg_bytes ?n = take sz buffer" using sz by (simp add: msg_bytes_def)
  ultimately show ?thesis using flight_update_rep [OF r m, of ?n] by force
qed

text \<open>A queue with a node under way is not at the limit of its counter.\<close>

lemma rep_count:
  assumes r: "mq_rep fs qs F mq" and m: "m \<in> F"
  shows "mq_entry mq < 0xffff" "unat (mq_entry mq + 1) = Suc (length qs)"
proof -
  have f: "finite F" using r unfolding mq_rep_def by (metis finite_Un finite_lessThan)
  then have "0 < card F" using m by (auto simp: card_gt_0_iff)
  then have "unat (mq_entry mq) < unat (mq_max_msgs mq)" using mq_repD(1,4) [OF r] by linarith
  then have l: "mq_entry mq < mq_max_msgs mq" by (simp add: word_less_nat_alt)
  then show "mq_entry mq < 0xffff"
    using unsigned_less [of "mq_max_msgs mq", where 'a = nat] by (simp add: word_less_nat_alt)
  show "unat (mq_entry mq + 1) = Suc (length qs)" using unat_inc_less [OF l] mq_repD(4) [OF r] by simp
qed

lemma append_rep:
  assumes r: "mq_rep fs qs F mq" and m: "m \<in> F" and n: "msg_next (mq_msg_pool mq ! m) = None"
    and l: "msg_length (mq_msg_pool mq ! m) \<le> unat (mq_msg_size mq)"
  shows "\<exists>mq'. mq_append m mq = Some mq' \<and> mq_rep fs (qs @ [m]) (F - {m}) (mq'\<lparr>mq_entry := mq_entry mq' + 1\<rparr>) \<and>
     mq_messages (mq'\<lparr>mq_entry := mq_entry mq' + 1\<rparr>) = mq_messages mq @ [msg_bytes (mq_msg_pool mq ! m)] \<and>
     mq_entry mq' = mq_entry mq \<and> mq_msg_size mq' = mq_msg_size mq \<and> mq_max_msgs mq' = mq_max_msgs mq \<and>
     (\<forall>i \<in> F. mq_msg_pool mq' ! i = mq_msg_pool mq ! i)"
proof -
  have mb: "m < length (mq_msg_pool mq)" using mq_repD(3) [OF r] m by simp
  have dj: "m \<notin> set fs" "m \<notin> set qs" using r m by (auto simp: mq_rep_def)
  note c = rep_count [OF r m]
  show ?thesis
  proof (cases qs rule: rev_cases)
    case Nil
    let ?mq = "mq\<lparr>mq_queue_tail := Some m, mq_queue_head := Some m\<rparr>"
    have a: "mq_append m mq = Some ?mq" using r Nil by (simp add: mq_append_def mq_rep_def)
    have "mq_rep fs [m] (F - {m}) (?mq\<lparr>mq_entry := mq_entry ?mq + 1\<rparr>)"
      using r Nil m n l mb dj c by (auto simp: mq_rep_def)
    then show ?thesis using a mq_repD(2) [OF \<open>mq_rep fs [m] _ _\<close>] mq_repD(2) [OF r] Nil by auto
  next
    case (snoc ys t)
    let ?p = "(mq_msg_pool mq)[t := (mq_msg_pool mq ! t)\<lparr>msg_next := Some m\<rparr>]"
    let ?mq = "mq\<lparr>mq_msg_pool := ?p, mq_queue_tail := Some m\<rparr>"
    have tb: "t < length (mq_msg_pool mq)" using mq_repD(3) [OF r] snoc by simp
    have tf: "t \<notin> F" "t \<notin> set fs" "t \<noteq> m" using r snoc m by (auto simp: mq_rep_def)
    have hd: "mq_queue_head mq \<noteq> None" using r snoc by (cases ys) (auto simp: mq_rep_def)
    have a: "mq_append m mq = Some ?mq"
      using r snoc tb hd by (simp add: mq_append_def mq_set_next_def fetch_def mq_rep_def)
    have e: "?p ! i = mq_msg_pool mq ! i" if "i \<noteq> t" for i using that by (metis nth_list_update_neq)
    have len: "msg_length (?p ! i) = msg_length (mq_msg_pool mq ! i)" "msg_data (?p ! i) = msg_data (mq_msg_pool mq ! i)" for i
      using tb by (cases "i = t"; simp add: e)+
    have ch: "chain ?p (mq_queue_head mq) (ys @ [t, m])"
      by (rule chain_snoc) (use r snoc mb tf n in \<open>auto simp: mq_rep_def\<close>)
    have da: "unat (mq_msg_size mq) \<le> length (msg_data nd)" if nd: "nd \<in> set ?p" for nd
    proof -
      obtain i where "i < length (mq_msg_pool mq)" "nd = ?p ! i" using nd by (auto simp: in_set_conv_nth)
      then show ?thesis using mq_repD(5) [OF r] len(2) by simp
    qed
    have rep: "mq_rep fs (qs @ [m]) (F - {m}) (?mq\<lparr>mq_entry := mq_entry ?mq + 1\<rparr>)"
      using r m l dj c ch da tf len snoc unfolding mq_rep_def by (auto simp: chain_update)
    moreover have "mq_messages (?mq\<lparr>mq_entry := mq_entry ?mq + 1\<rparr>) = mq_messages mq @ [msg_bytes (mq_msg_pool mq ! m)]"
      using mq_repD(2) [OF rep] mq_repD(2) [OF r] len by (simp add: msg_bytes_def)
    moreover have "\<forall>i \<in> F. ?p ! i = mq_msg_pool mq ! i" using tf(1) e by metis
    ultimately show ?thesis using a by simp
  qed
qed

lemma prepend_rep:
  assumes r: "mq_rep fs qs F mq" and m: "m \<in> F" and l: "msg_length (mq_msg_pool mq ! m) \<le> unat (mq_msg_size mq)"
  shows "\<exists>mq'. mq_prepend m mq = Some mq' \<and> mq_rep fs (m # qs) (F - {m}) (mq'\<lparr>mq_entry := mq_entry mq' + 1\<rparr>) \<and>
     mq_messages (mq'\<lparr>mq_entry := mq_entry mq' + 1\<rparr>) = msg_bytes (mq_msg_pool mq ! m) # mq_messages mq \<and>
     mq_entry mq' = mq_entry mq \<and> mq_msg_size mq' = mq_msg_size mq \<and> mq_max_msgs mq' = mq_max_msgs mq \<and>
     (\<forall>i \<in> F - {m}. mq_msg_pool mq' ! i = mq_msg_pool mq ! i)"
proof -
  have mb: "m < length (mq_msg_pool mq)" using mq_repD(3) [OF r] m by simp
  have dj: "m \<notin> set fs" "m \<notin> set qs" using r m by (auto simp: mq_rep_def)
  note c = rep_count [OF r m]
  let ?p = "(mq_msg_pool mq)[m := (mq_msg_pool mq ! m)\<lparr>msg_next := mq_queue_head mq\<rparr>]"
  let ?mq = "mq\<lparr>mq_msg_pool := ?p, mq_queue_head := Some m,
    mq_queue_tail := (if mq_queue_tail mq = None then Some m else mq_queue_tail mq)\<rparr>"
  note u = flight_update_rep [OF r m, of "(mq_msg_pool mq ! m)\<lparr>msg_next := mq_queue_head mq\<rparr>"]
  have u: "mq_rep fs qs F (mq\<lparr>mq_msg_pool := ?p\<rparr>)" using u mq_repD(5) [OF r mb] by simp
  have a: "mq_prepend m mq = Some ?mq" using mb by (simp add: mq_prepend_def mq_set_next_def fetch_def)
  have e: "?p ! i = mq_msg_pool mq ! i" if "i \<noteq> m" for i using that by (metis nth_list_update_neq)
  have rep: "mq_rep fs (m # qs) (F - {m}) (?mq\<lparr>mq_entry := mq_entry ?mq + 1\<rparr>)"
    using u m l dj c mb by (auto simp: mq_rep_def)
  moreover have "mq_messages (?mq\<lparr>mq_entry := mq_entry ?mq + 1\<rparr>) = msg_bytes (mq_msg_pool mq ! m) # mq_messages mq"
  proof -
    have "map (\<lambda>i. msg_bytes (?p ! i)) qs = map (\<lambda>i. msg_bytes (mq_msg_pool mq ! i)) qs"
      by (rule map_cong [OF refl]) (use dj e in metis)
    then show ?thesis using mq_repD(2) [OF rep] mq_repD(2) [OF r] mb by (simp add: msg_bytes_def)
  qed
  moreover have "\<forall>i \<in> F - {m}. ?p ! i = mq_msg_pool mq ! i" using e by simp
  ultimately show ?thesis using a by simp
qed

lemma unlink_rep:
  assumes r: "mq_rep fs (m # qs) F mq"
  shows "\<exists>mq'. mq_unlink mq = Some (m, mq') \<and> mq_rep fs qs (insert m F) (mq_count_down mq') \<and>
     mq_messages (mq_count_down mq') = tl (mq_messages mq) \<and> mq_messages mq = msg_bytes (mq_msg_pool mq ! m) # tl (mq_messages mq) \<and>
     mq_msg_pool mq' = mq_msg_pool mq \<and> mq_msg_size mq' = mq_msg_size mq \<and> mq_max_msgs mq' = mq_max_msgs mq"
proof -
  let ?mq = "mq\<lparr>mq_queue_head := msg_next (mq_msg_pool mq ! m), mq_queue_tail := (if mq_queue_tail mq = Some m then None else mq_queue_tail mq)\<rparr>"
  have a: "mq_unlink mq = Some (m, ?mq)" using r by (auto simp: mq_unlink_def mq_rep_def fetch_def)
  have e: "mq_entry mq \<noteq> 0" using mq_repD(4) [OF r] by auto
  then have c: "unat (mq_entry mq - 1) = length qs" using unat_dec_pos [OF e] mq_repD(4) [OF r] by simp
  have "m \<notin> set qs" using r by (simp add: mq_rep_def)
  then have la: "last qs \<noteq> m" if "qs \<noteq> []" using that last_in_set by metis
  have rep: "mq_rep fs qs (insert m F) (mq_count_down ?mq)"
    using r c e la by (auto simp: mq_rep_def mq_count_down_def word_gt_0)
  moreover have "mq_messages (mq_count_down ?mq) = tl (mq_messages mq)"
    using mq_repD(2) [OF rep] mq_repD(2) [OF r] by (simp add: mq_count_down_def)
  ultimately show ?thesis using a mq_repD(2) [OF r] by simp
qed

lemma put_free_rep:
  assumes r: "mq_rep fs qs F mq" and m: "m \<in> F"
  shows "\<exists>mq'. mq_put_free m mq = Some mq' \<and> mq_rep (m # fs) qs (F - {m}) mq' \<and> mq_messages mq' = mq_messages mq \<and>
     mq_msg_size mq' = mq_msg_size mq \<and> mq_max_msgs mq' = mq_max_msgs mq \<and>
     (\<forall>i \<in> F - {m}. mq_msg_pool mq' ! i = mq_msg_pool mq ! i)"
proof -
  have mb: "m < length (mq_msg_pool mq)" using mq_repD(3) [OF r] m by simp
  obtain mq1 where s: "mq_set_next m (mq_queue_free mq) mq = Some mq1" "mq_rep fs qs F mq1" "mq_messages mq1 = mq_messages mq"
    "mq_msg_pool mq1 = (mq_msg_pool mq)[m := (mq_msg_pool mq ! m)\<lparr>msg_next := mq_queue_free mq\<rparr>]"
    "mq_queue_free mq1 = mq_queue_free mq" "mq_msg_size mq1 = mq_msg_size mq" "mq_max_msgs mq1 = mq_max_msgs mq"
    using set_next_flight [OF r m, of "mq_queue_free mq"] by blast
  have n: "msg_next (mq_msg_pool mq1 ! m) = mq_queue_free mq1" using s(4,5) mb by simp
  have rep: "mq_rep (m # fs) qs (F - {m}) (mq1\<lparr>mq_queue_free := Some m\<rparr>)"
    using s(2) m n mq_repD(3) [OF s(2), of m] by (auto simp: mq_rep_def)
  moreover have "\<forall>i \<in> F - {m}. mq_msg_pool mq1 ! i = mq_msg_pool mq ! i" using s(4) by simp
  ultimately show ?thesis
    using s mq_repD(2) [OF rep] mq_repD(2) [OF s(2)] by (auto simp: mq_put_free_def)
qed

lemma read_flight:
  assumes r: "mq_rep fs qs F mq" and m: "m \<in> F" and l: "msg_length (mq_msg_pool mq ! m) \<le> unat (mq_msg_size mq)"
  shows "mq_read m sz mq = Some (take sz (msg_bytes (mq_msg_pool mq ! m)))"
proof -
  have mb: "m < length (mq_msg_pool mq)" using mq_repD(3) [OF r] m by simp
  then show ?thesis using mq_repD(5) [OF r mb] l by (auto simp: mq_read_def fetch_def segment_def msg_bytes_def min_def)
qed

text \<open>The loops.\<close>

lemma link_free_rep:
  "mq_rep fs [] F mq \<Longrightarrow> distinct ts \<Longrightarrow> set ts \<subseteq> F \<Longrightarrow>
   \<exists>mq'. mq_link_free ts mq = Some mq' \<and> mq_rep (rev ts @ fs) [] (F - set ts) mq' \<and>
     mq_msg_size mq' = mq_msg_size mq \<and> mq_max_msgs mq' = mq_max_msgs mq"
proof (induction ts arbitrary: fs F mq)
  case (Cons t ts)
  then obtain mq1 where m: "mq_put_free t mq = Some mq1" "mq_rep (t # fs) [] (F - {t}) mq1"
    "mq_msg_size mq1 = mq_msg_size mq" "mq_max_msgs mq1 = mq_max_msgs mq"
    using put_free_rep [of fs "[]" F mq t] by auto
  have "set ts \<subseteq> F - {t}" using Cons.prems by auto
  moreover have "F - {t} - set ts = F - set (t # ts)" by auto
  ultimately show ?case using Cons.IH [OF m(2)] Cons.prems(2) m by force
qed simp

lemma release_all_rep:
  assumes "mq_rep fs qs F mq"
  shows "\<exists>mq' fs'. mq_release_all mq = Some mq' \<and> mq_rep fs' [] F (mq'\<lparr>mq_entry := 0\<rparr>) \<and>
     mq_msg_size mq' = mq_msg_size mq \<and> mq_max_msgs mq' = mq_max_msgs mq"
proof -
  have "\<exists>mq' fs'. mq_release_all mq0 = Some mq' \<and> mq_rep fs' [] F (mq'\<lparr>mq_entry := 0\<rparr>) \<and>
     mq_msg_size mq' = mq_msg_size mq0 \<and> mq_max_msgs mq' = mq_max_msgs mq0"
    if "mq_rep fs qs F (mq0\<lparr>mq_entry := e\<rparr>)" for e mq0
    using that
  proof (induction qs arbitrary: fs mq0 e)
    case Nil
    then have "mq_queue_head mq0 = None" by (simp add: mq_rep_def)
    moreover have "mq_rep fs [] F (mq0\<lparr>mq_entry := 0\<rparr>)" using Nil by (simp add: mq_rep_def)
    ultimately show ?case by (subst mq_release_all.simps) auto
  next
    case (Cons m qs)
    let ?mq = "mq0\<lparr>mq_entry := e\<rparr>"
    have h: "mq_queue_head mq0 = Some m" using Cons.prems by (simp add: mq_rep_def)
    obtain mq1 where u: "mq_unlink ?mq = Some (m, mq1)" "mq_rep fs qs (insert m F) (mq_count_down mq1)"
      "mq_msg_size mq1 = mq_msg_size mq0" "mq_max_msgs mq1 = mq_max_msgs mq0"
      using unlink_rep [OF Cons.prems] by auto
    obtain mq2 where p: "mq_put_free m (mq_count_down mq1) = Some mq2" "mq_rep (m # fs) qs (insert m F - {m}) mq2"
      "mq_msg_size mq2 = mq_msg_size mq0" "mq_max_msgs mq2 = mq_max_msgs mq0"
      using put_free_rep [OF u(2), of m] u(3,4) by (auto simp: mq_count_down_def)
    have mF: "insert m F - {m} = F" using Cons.prems by (auto simp: mq_rep_def)
    have u': "mq_unlink mq0 = Some (m, mq1\<lparr>mq_entry := mq_entry mq0\<rparr>)"
      using u(1) h by (auto simp: mq_unlink_def fetch_def split: if_splits)
    have p': "mq_put_free m (mq1\<lparr>mq_entry := mq_entry mq0\<rparr>) = Some (mq2\<lparr>mq_entry := mq_entry mq0\<rparr>)"
      using p(1) by (auto simp: mq_put_free_def mq_set_next_def mq_count_down_def fetch_def split: if_splits)
    have "mq_rep (m # fs) qs F ((mq2\<lparr>mq_entry := mq_entry mq0\<rparr>)\<lparr>mq_entry := mq_entry mq2\<rparr>)" using p(2) mF by simp
    from Cons.IH [OF this] show ?case
      using h u' p' p(3,4) by (subst mq_release_all.simps) auto
  qed
  from this [of "mq_entry mq" mq] show ?thesis using assms by simp
qed

section \<open>Interleaved sections\<close>

text \<open>Any number of senders and receivers, each somewhere in its call. \<open>fl\<close> says for a node under way
  what its thread does with it: it has been taken for sending, written (to be linked at the tail or, by
  \<^verbatim>\<open>rt_mq_urgent\<close>, at the head), or unlinked for reading.\<close>

datatype flight = Taken | Written "u8 list" | WrittenUrgent "u8 list" | Reading "u8 list"

type_synonym mq_state = "rt_messagequeue \<times> (nat \<rightharpoonup> flight)"

inductive mq_step :: "mq_state \<Rightarrow> mq_state \<Rightarrow> bool" where
  step_take: "mq_get_free mq = Some (m, mq') \<Longrightarrow> mq_step (mq, fl) (mq', fl(m \<mapsto> Taken))"
| step_write: "fl m = Some Taken \<Longrightarrow> sz \<le> unat (mq_msg_size mq) \<Longrightarrow> sz \<le> length buffer \<Longrightarrow>
    mq_set_next m None mq = Some mq1 \<Longrightarrow> mq_write m buffer sz mq1 = Some mq' \<Longrightarrow>
    mq_step (mq, fl) (mq', fl(m \<mapsto> Written (take sz buffer)))"
| step_write_urgent: "fl m = Some Taken \<Longrightarrow> sz \<le> unat (mq_msg_size mq) \<Longrightarrow> sz \<le> length buffer \<Longrightarrow>
    mq_write m buffer sz mq = Some mq' \<Longrightarrow> mq_step (mq, fl) (mq', fl(m \<mapsto> WrittenUrgent (take sz buffer)))"
| step_link: "fl m = Some (Written bs) \<Longrightarrow> mq_append m mq = Some mq' \<Longrightarrow>
    mq_step (mq, fl) (mq'\<lparr>mq_entry := mq_entry mq' + 1\<rparr>, fl(m := None))"
| step_link_urgent: "fl m = Some (WrittenUrgent bs) \<Longrightarrow> mq_prepend m mq = Some mq' \<Longrightarrow>
    mq_step (mq, fl) (mq'\<lparr>mq_entry := mq_entry mq' + 1\<rparr>, fl(m := None))"
| step_unlink: "mq_entry mq \<noteq> 0 \<Longrightarrow> mq_unlink mq = Some (m, mq') \<Longrightarrow>
    mq_step (mq, fl) (mq_count_down mq', fl(m \<mapsto> Reading (msg_bytes (mq_msg_pool mq ! m))))"
| step_release: "fl m = Some (Reading bs) \<Longrightarrow> mq_put_free m mq = Some mq' \<Longrightarrow> mq_step (mq, fl) (mq', fl(m := None))"

inductive_cases mq_stepE: "mq_step (mq, fl) (mq', fl')"

definition flight_ok :: "rt_messagequeue \<Rightarrow> nat \<Rightarrow> flight \<Rightarrow> bool" where
  "flight_ok mq m x \<longleftrightarrow> (let node = mq_msg_pool mq ! m in case x of
     Taken \<Rightarrow> True
   | Written bs \<Rightarrow> msg_bytes node = bs \<and> msg_length node \<le> unat (mq_msg_size mq) \<and> msg_next node = None
   | WrittenUrgent bs \<Rightarrow> msg_bytes node = bs \<and> msg_length node \<le> unat (mq_msg_size mq)
   | Reading bs \<Rightarrow> msg_bytes node = bs \<and> msg_length node \<le> unat (mq_msg_size mq))"

fun mq_inv :: "mq_state \<Rightarrow> bool" where
  "mq_inv (mq, fl) \<longleftrightarrow> (\<exists>fs qs. mq_rep fs qs (dom fl) mq) \<and> (\<forall>m x. fl m = Some x \<longrightarrow> flight_ok mq m x)"

lemma flight_ok_cong:
  "mq_msg_pool mq' ! m = mq_msg_pool mq ! m \<Longrightarrow> mq_msg_size mq' = mq_msg_size mq \<Longrightarrow> flight_ok mq' m x = flight_ok mq m x"
  by (simp add: flight_ok_def Let_def split: flight.split)

text \<open>A step concerns one node only.\<close>

lemma mq_invI:
  assumes i: "mq_inv (mq, fl)" and r: "mq_rep fs qs (dom fl') mq'" and z: "mq_msg_size mq' = mq_msg_size mq"
    and p: "\<And>i. i \<in> dom fl \<Longrightarrow> i \<noteq> m \<Longrightarrow> mq_msg_pool mq' ! i = mq_msg_pool mq ! i"
    and f: "\<And>i. i \<noteq> m \<Longrightarrow> fl' i = fl i" and o: "\<And>x. fl' m = Some x \<Longrightarrow> flight_ok mq' m x"
  shows "mq_inv (mq', fl')"
proof -
  have "flight_ok mq' i x" if "fl' i = Some x" for i x
  proof (cases "i = m")
    case False
    have s: "fl i = Some x" using f [OF False] that by simp
    then have "i \<in> dom fl" by auto
    then show ?thesis using flight_ok_cong [OF p z, of i x] i s False by simp
  qed (use o that in simp)
  then show ?thesis using r by auto
qed

lemma take_inv:
  assumes i: "mq_inv (mq, fl)" and s: "mq_get_free mq = Some (m, mq')"
  shows "mq_inv (mq', fl(m \<mapsto> Taken))"
proof -
  obtain fs qs where r: "mq_rep fs qs (dom fl) mq" using i by auto
  then obtain fs' where "fs = m # fs'" using s by (cases fs) (auto simp: mq_get_free_def mq_rep_def fetch_def split: if_splits)
  with r have "mq_rep (m # fs') qs (dom fl) mq" by simp
  then show ?thesis
    using get_free_rep [of m fs' qs "dom fl" mq] s
    by (intro mq_invI [OF i, of fs' qs _ _ m]) (auto simp: flight_ok_def)
qed

lemma write_inv:
  assumes i: "mq_inv (mq, fl)" and m: "fl m = Some Taken" and sz: "sz \<le> unat (mq_msg_size mq)" "sz \<le> length buffer"
    and s: "(if urgent then Some mq else mq_set_next m None mq) = Some mq1" "mq_write m buffer sz mq1 = Some mq'"
  shows "mq_inv (mq', fl(m \<mapsto> (if urgent then WrittenUrgent else Written) (take sz buffer)))"
proof -
  obtain fs qs where r: "mq_rep fs qs (dom fl) mq" using i by auto
  have d: "m \<in> dom fl" using m by auto
  have l: "m < length (mq_msg_pool mq)" using mq_repD(3) [OF r] d by simp
  have s1: "mq_rep fs qs (dom fl) mq1" "mq_msg_size mq1 = mq_msg_size mq" "length (mq_msg_pool mq1) = length (mq_msg_pool mq)"
    "\<And>i. i \<noteq> m \<Longrightarrow> mq_msg_pool mq1 ! i = mq_msg_pool mq ! i" "\<not> urgent \<Longrightarrow> msg_next (mq_msg_pool mq1 ! m) = None"
    using set_next_flight [OF r d, of None] s(1) r l by (auto split: if_splits)
  obtain n where s2: "mq_rep fs qs (dom fl) mq'" "mq_msg_pool mq' = (mq_msg_pool mq1)[m := n]" "msg_bytes n = take sz buffer"
    "msg_length n = sz" "msg_next n = msg_next (mq_msg_pool mq1 ! m)" "mq_msg_size mq' = mq_msg_size mq1"
    using write_flight [OF s1(1) d, of sz buffer] sz s(2) s1(2) by auto
  have "mq_msg_pool mq' ! m = n" using s2(2) s1(3) l by simp
  moreover have "dom (fl(m \<mapsto> (if urgent then WrittenUrgent else Written) (take sz buffer))) = dom fl" using d by auto
  ultimately show ?thesis
    using s1 s2 sz by (intro mq_invI [OF i, of fs qs _ _ m]) (auto simp: flight_ok_def split: if_splits)
qed

lemma link_inv:
  assumes i: "mq_inv (mq, fl)"
    and s: "fl m = Some (Written bs) \<and> mq_append m mq = Some mq' \<or> fl m = Some (WrittenUrgent bs) \<and> mq_prepend m mq = Some mq'"
  shows "mq_inv (mq'\<lparr>mq_entry := mq_entry mq' + 1\<rparr>, fl(m := None))"
proof -
  obtain fs qs where r: "mq_rep fs qs (dom fl) mq" using i by auto
  have d: "m \<in> dom fl" using s by auto
  have ok: "flight_ok mq m (the (fl m))" using i s by auto
  have "\<exists>qs'. mq_rep fs qs' (dom fl - {m}) (mq'\<lparr>mq_entry := mq_entry mq' + 1\<rparr>) \<and> mq_msg_size mq' = mq_msg_size mq \<and>
      (\<forall>i \<in> dom fl - {m}. mq_msg_pool mq' ! i = mq_msg_pool mq ! i)"
    using s
  proof
    assume "fl m = Some (Written bs) \<and> mq_append m mq = Some mq'"
    then show ?thesis using append_rep [OF r d] ok by (auto simp: flight_ok_def Let_def)
  next
    assume "fl m = Some (WrittenUrgent bs) \<and> mq_prepend m mq = Some mq'"
    then show ?thesis using prepend_rep [OF r d] ok by (auto simp: flight_ok_def Let_def)
  qed
  then obtain qs' where "mq_rep fs qs' (dom fl - {m}) (mq'\<lparr>mq_entry := mq_entry mq' + 1\<rparr>)" "mq_msg_size mq' = mq_msg_size mq"
      "\<forall>i \<in> dom fl - {m}. mq_msg_pool mq' ! i = mq_msg_pool mq ! i" by blast
  then show ?thesis by (intro mq_invI [OF i, of fs qs' _ _ m]) auto
qed

lemma unlink_inv:
  assumes i: "mq_inv (mq, fl)" and e: "mq_entry mq \<noteq> 0" and s: "mq_unlink mq = Some (m, mq')"
  shows "mq_inv (mq_count_down mq', fl(m \<mapsto> Reading (msg_bytes (mq_msg_pool mq ! m))))"
proof -
  obtain fs qs where r: "mq_rep fs qs (dom fl) mq" using i by auto
  have "qs \<noteq> []" using e mq_repD(4) [OF r] by (auto simp: unat_eq_zero)
  moreover have "mq_queue_head mq = Some m" using s by (auto simp: mq_unlink_def fetch_def bind_eq_Some_conv split: if_splits)
  ultimately obtain qs' where "qs = m # qs'" using r by (cases qs) (auto simp: mq_rep_def)
  then have r': "mq_rep fs (m # qs') (dom fl) mq" using r by simp
  then have "msg_length (mq_msg_pool mq ! m) \<le> unat (mq_msg_size mq)" by (simp add: mq_rep_def)
  then show ?thesis
    using unlink_rep [OF r'] s
    by (intro mq_invI [OF i, of fs qs' _ _ m]) (auto simp: flight_ok_def mq_count_down_def Let_def)
qed

lemma release_inv:
  assumes i: "mq_inv (mq, fl)" and m: "fl m = Some (Reading bs)" and s: "mq_put_free m mq = Some mq'"
  shows "mq_inv (mq', fl(m := None))"
proof -
  obtain fs qs where r: "mq_rep fs qs (dom fl) mq" using i by auto
  show ?thesis
    using put_free_rep [OF r, of m] m s by (intro mq_invI [OF i, of "m # fs" qs _ _ m]) auto
qed

lemma mq_step_inv: "mq_step st st' \<Longrightarrow> mq_inv st \<Longrightarrow> mq_inv st'"
proof (induction rule: mq_step.induct)
  case (step_write fl m sz mq buffer mq1 mq')
  then show ?case using write_inv [of mq fl m sz buffer False mq1 mq'] by simp
next
  case (step_write_urgent fl m sz mq buffer mq')
  then show ?case using write_inv [of mq fl m sz buffer True mq mq'] by simp
qed (auto simp del: mq_inv.simps intro: take_inv link_inv unlink_inv release_inv)

lemma mq_steps_inv: "mq_step\<^sup>*\<^sup>* st st' \<Longrightarrow> mq_inv st \<Longrightarrow> mq_inv st'"
  by (induction rule: rtranclp_induct) (auto simp del: mq_inv.simps intro: mq_step_inv)

section \<open>Properties\<close>

text \<open>C25. Message queues under interleaving. Senders, urgent senders and receivers work in two sections each
  and copy the message in between, unprotected. Whatever the order in which the sections of any number
  of calls run: every node is in exactly one place (free list, queue, or under way in one call), the
  counter equals the length of the queue, a message that is being read is still the one that was
  unlinked, and linking a written message adds exactly it, at the tail (or at the head, if urgent).\<close>

theorem mq_interleaving_safe:
  assumes i: "mq_inv st" and s: "mq_step\<^sup>*\<^sup>* st (mq, fl)"
  defines "queued \<equiv> mq_walk (mq_msg_pool mq) (mq_queue_head mq) (unat (mq_max_msgs mq))"
    and "free \<equiv> mq_walk (mq_msg_pool mq) (mq_queue_free mq) (unat (mq_max_msgs mq))"
  shows "distinct (free @ queued) \<and> set (free @ queued) \<inter> dom fl = {} \<and>
     set (free @ queued) \<union> dom fl = {..<unat (mq_max_msgs mq)} \<and> unat (mq_entry mq) = length queued \<and>
     (\<forall>m bs sz. fl m = Some (Reading bs) \<longrightarrow> mq_read m sz mq = Some (take sz bs)) \<and>
     (\<forall>m bs. fl m = Some (Written bs) \<longrightarrow> (\<exists>mq'. mq_append m mq = Some mq' \<and>
        mq_messages (mq'\<lparr>mq_entry := mq_entry mq' + 1\<rparr>) = mq_messages mq @ [bs])) \<and>
     (\<forall>m bs. fl m = Some (WrittenUrgent bs) \<longrightarrow> (\<exists>mq'. mq_prepend m mq = Some mq' \<and>
        mq_messages (mq'\<lparr>mq_entry := mq_entry mq' + 1\<rparr>) = bs # mq_messages mq))"
proof -
  have inv: "mq_inv (mq, fl)" by (rule mq_steps_inv [OF s i])
  then obtain fs qs where r: "mq_rep fs qs (dom fl) mq" by auto
  have c: "chain (mq_msg_pool mq) (mq_queue_free mq) fs" "chain (mq_msg_pool mq) (mq_queue_head mq) qs"
    using r by (simp_all add: mq_rep_def)
  have w: "free = fs" "queued = qs"
    unfolding free_def queued_def using walk_chain [OF c(1)] walk_chain [OF c(2)] mq_repD(1) [OF r] by simp_all
  have ok: "flight_ok mq m x" "m \<in> dom fl" if "fl m = Some x" for m x using inv that by auto
  have "mq_read m sz mq = Some (take sz bs)" if "fl m = Some (Reading bs)" for m bs sz
    using ok [OF that] read_flight [OF r, of m sz] by (simp add: flight_ok_def Let_def)
  moreover have "\<exists>mq'. mq_append m mq = Some mq' \<and> mq_messages (mq'\<lparr>mq_entry := mq_entry mq' + 1\<rparr>) = mq_messages mq @ [bs]"
    if "fl m = Some (Written bs)" for m bs
    using ok [OF that] append_rep [OF r, of m] by (auto simp: flight_ok_def Let_def)
  moreover have "\<exists>mq'. mq_prepend m mq = Some mq' \<and> mq_messages (mq'\<lparr>mq_entry := mq_entry mq' + 1\<rparr>) = bs # mq_messages mq"
    if "fl m = Some (WrittenUrgent bs)" for m bs
    using ok [OF that] prepend_rep [OF r, of m] by (auto simp: flight_ok_def Let_def)
  moreover have "distinct (fs @ qs)" "set (fs @ qs) \<inter> dom fl = {}" "set (fs @ qs) \<union> dom fl = {..<unat (mq_max_msgs mq)}"
    "unat (mq_entry mq) = length qs" using r by (simp_all add: mq_rep_def)
  ultimately show ?thesis unfolding w by blast
qed

text \<open>Instance: a queue of two nodes; one call has taken node 1 and another then node 0.\<close>

definition sample_msgqueue :: rt_messagequeue where
  "sample_msgqueue = \<lparr>mq_msg_pool = [\<lparr>msg_next = None, msg_length = 0, msg_data = [0, 0]\<rparr>,
       \<lparr>msg_next = Some 0, msg_length = 0, msg_data = [0, 0]\<rparr>],
     mq_msg_size = 2, mq_max_msgs = 2, mq_entry = 0, mq_queue_head = None, mq_queue_tail = None, mq_queue_free = Some 1\<rparr>"

lemma sample_msgqueue_rep: "mq_rep [1, 0] [] {} sample_msgqueue"
  by (auto simp: mq_rep_def sample_msgqueue_def)

theorem mq_interleaving_safe_witness:
  "mq_inv (sample_msgqueue, Map.empty) \<and>
   mq_step\<^sup>*\<^sup>* (sample_msgqueue, Map.empty) (sample_msgqueue\<lparr>mq_queue_free := Some 0\<rparr>, [1 \<mapsto> Taken]) \<and>
   mq_walk (mq_msg_pool sample_msgqueue) (Some 0) 2 = [0]"
proof -
  have i: "mq_inv (sample_msgqueue, Map.empty)" using sample_msgqueue_rep by auto
  have "mq_get_free sample_msgqueue = Some (1, sample_msgqueue\<lparr>mq_queue_free := Some 0\<rparr>)"
    by (simp add: mq_get_free_def sample_msgqueue_def fetch_def)
  then have s: "mq_step\<^sup>*\<^sup>* (sample_msgqueue, Map.empty) (sample_msgqueue\<lparr>mq_queue_free := Some 0\<rparr>, [1 \<mapsto> Taken])"
    by (intro r_into_rtranclp step_take)
  have f: "mq_walk (mq_msg_pool sample_msgqueue) (Some 0) 2 = [0]" by (simp add: sample_msgqueue_def eval_nat_numeral)
  show ?thesis using mq_interleaving_safe [OF i s] i s f by blast
qed

end
