(* ===== verification/MsgQueue.thy ===== *)
theory MsgQueue
  imports Wait_Loop MsgQueue_Core
begin

text \<open>
  Message queues, the message queue section of \<^verbatim>\<open>src/ipc.c\<close>, on the node lists of theory
  \<open>MsgQueue_Core\<close>: creation, destruction, sending with and without waiting, urgent sending,
  receiving and reset. The priority variant (\<^verbatim>\<open>RT_USING_MESSAGEQUEUE_PRIORITY\<close>) is not configured.
\<close>

section \<open>Definitions\<close>

abbreviation (input) RT_MQ_ENTRY_MAX :: u16 where "RT_MQ_ENTRY_MAX \<equiv> 0xffff"

text \<open>The size of a message header.\<close>

abbreviation (input) sizeof_mq_message :: u32 where "sizeof_mq_message \<equiv> 8"

text \<open>The memory of the pool is given as the array of nodes it is divided into; it must hold all of
  them.\<close>

definition mq_setup :: "rt_mq_message list \<Rightarrow> rt_messagequeue \<Rightarrow> rt_messagequeue option" where
  "mq_setup msgpool mq = do {
     rt_assert (unat (mq_max_msgs mq) \<le> length msgpool);
     let mq = mq\<lparr>mq_msg_pool := take (unat (mq_max_msgs mq)) msgpool, mq_queue_head := None, mq_queue_tail := None,
                 mq_queue_free := None\<rparr>;
     mq \<leftarrow> mq_link_free [0..<unat (mq_max_msgs mq)] mq;
     Some (mq\<lparr>mq_entry := 0\<rparr>)
   }"

definition rt_mq_init ::
  "qid \<Rightarrow> string \<Rightarrow> rt_mq_message list \<Rightarrow> u32 \<Rightarrow> u32 \<Rightarrow> u8 \<Rightarrow> kernel \<Rightarrow> (rt_err_t \<times> kernel) option" where
  "rt_mq_init q name msgpool msg_sz pool_size flag k = do {
     rt_assert (flag = RT_IPC_FLAG_FIFO \<or> flag = RT_IPC_FLAG_PRIO);
     k \<leftarrow> rt_object_init (OMsgQueue q) RT_Object_Class_MessageQueue name k;
     let k = upd_object (OMsgQueue q) (\<lambda>ob. ob\<lparr>ob_flag := flag\<rparr>) k;
     let k = ipc_object_init (MqRecvL q) k;
     let node_size = rt_align msg_sz + sizeof_mq_message;
     rt_assert (node_size \<noteq> 0);
     let max_msgs = (ucast (pool_size div node_size) :: u16);
     let k = upd_msgqueue q (\<lambda>mq. mq\<lparr>mq_msg_size := ucast msg_sz, mq_max_msgs := max_msgs\<rparr>) k;
     if max_msgs = 0 then Some (- RT_EINVAL, k)
     else do {
       mq \<leftarrow> mq_setup msgpool (msgqueues k q);
       Some (RT_EOK, tlist_init (MqSendL q) (upd_msgqueue q (\<lambda>_. mq) k))
     }
   }"

definition rt_mq_detach :: "qid \<Rightarrow> kernel \<Rightarrow> (rt_err_t \<times> kernel) option" where
  "rt_mq_detach q k = do {
     rt_assert (rt_object_get_type (OMsgQueue q) k = RT_Object_Class_MessageQueue);
     rt_assert (rt_object_is_systemobject (OMsgQueue q) k);
     let k = rt_spin_lock_irqsave k;
     k \<leftarrow> rt_susp_list_resume_all (MqRecvL q) RT_ERROR k;
     k \<leftarrow> rt_susp_list_resume_all (MqSendL q) RT_ERROR k;
     k \<leftarrow> rt_spin_unlock_irqrestore k;
     k \<leftarrow> rt_object_detach (OMsgQueue q) k;
     Some (RT_EOK, k)
   }"

definition rt_mq_create ::
  "qid option \<Rightarrow> (u32 \<Rightarrow> rt_mq_message list option) \<Rightarrow> string \<Rightarrow> u32 \<Rightarrow> u32 \<Rightarrow> u8 \<Rightarrow> kernel \<Rightarrow> (qid option \<times> kernel) option" where
  "rt_mq_create mem malloc name msg_sz max_msgs flag k = do {
     rt_assert (flag = RT_IPC_FLAG_FIFO \<or> flag = RT_IPC_FLAG_PRIO);
     rt_assert (debug_not_in_interrupt k);
     (ob, k) \<leftarrow> rt_object_allocate (map_option OMsgQueue mem) RT_Object_Class_MessageQueue name k;
     case (ob, mem) of
       (Some _, Some q) \<Rightarrow> do {
         let k = upd_object (OMsgQueue q) (\<lambda>ob. ob\<lparr>ob_flag := flag\<rparr>) k;
         let k = ipc_object_init (MqRecvL q) k;
         let k = upd_msgqueue q (\<lambda>mq. mq\<lparr>mq_msg_size := ucast msg_sz, mq_max_msgs := ucast max_msgs\<rparr>) k;
         case malloc ((rt_align msg_sz + sizeof_mq_message) * ucast (mq_max_msgs (msgqueues k q))) of
           None \<Rightarrow> do {
             k \<leftarrow> rt_object_delete (OMsgQueue q) k;
             Some (None, k)
           }
         | Some msgpool \<Rightarrow> do {
             mq \<leftarrow> mq_setup msgpool (msgqueues k q);
             Some (Some q, tlist_init (MqSendL q) (upd_msgqueue q (\<lambda>_. mq) k))
           }
       }
     | _ \<Rightarrow> Some (None, k)
   }"

definition rt_mq_delete :: "qid \<Rightarrow> kernel \<Rightarrow> (rt_err_t \<times> kernel) option" where
  "rt_mq_delete q k = do {
     rt_assert (rt_object_get_type (OMsgQueue q) k = RT_Object_Class_MessageQueue);
     rt_assert (\<not> rt_object_is_systemobject (OMsgQueue q) k);
     rt_assert (debug_not_in_interrupt k);
     let k = rt_spin_lock k;
     k \<leftarrow> rt_susp_list_resume_all (MqRecvL q) RT_ERROR k;
     k \<leftarrow> rt_susp_list_resume_all (MqSendL q) RT_ERROR k;
     k \<leftarrow> rt_spin_unlock k;
     k \<leftarrow> rt_object_delete (OMsgQueue q) k;
     Some (RT_EOK, k)
   }"

text \<open>The end of sending, with the node linked: count the message and wake a receiver.\<close>

definition mq_send_end :: "qid \<Rightarrow> kernel \<Rightarrow> (rt_err_t \<times> kernel) option" where
  "mq_send_end q k =
     (if mq_entry (msgqueues k q) < RT_MQ_ENTRY_MAX then do {
        let k = upd_msgqueue q (\<lambda>mq. mq\<lparr>mq_entry := mq_entry mq + 1\<rparr>) k;
        k \<leftarrow> resume_one (MqRecvL q) k;
        Some (RT_EOK, k)
      } else do {
        k \<leftarrow> rt_spin_unlock_irqrestore k;
        Some (- RT_EFULL, k)
      })"

text \<open>The code behind the waiting loop of \<^verbatim>\<open>_rt_mq_send_wait\<close>.\<close>

definition mq_send_tail :: "qid \<Rightarrow> u8 list \<Rightarrow> nat \<Rightarrow> kernel \<Rightarrow> (rt_err_t \<times> kernel) option" where
  "mq_send_tail q buffer sz k = do {
     (msg, mq) \<leftarrow> mq_get_free (msgqueues k q);
     k \<leftarrow> rt_spin_unlock_irqrestore (upd_msgqueue q (\<lambda>_. mq) k);
     mq \<leftarrow> mq_set_next msg None (msgqueues k q);
     mq \<leftarrow> mq_write msg buffer sz mq;
     let k = rt_spin_lock_irqsave (upd_msgqueue q (\<lambda>_. mq) k);
     mq \<leftarrow> mq_append msg (msgqueues k q);
     mq_send_end q (upd_msgqueue q (\<lambda>_. mq) k)
   }"

definition mq_send_loop ::
  "qid \<Rightarrow> u8 list \<Rightarrow> nat \<Rightarrow> suspend_flag \<Rightarrow> wait_phase \<Rightarrow> u32 \<Rightarrow> kernel \<Rightarrow> (rt_err_t outcome \<times> kernel) option" where
  "mq_send_loop q buffer sz flag phase timeout k =
     ipc_wait (\<lambda>k. mq_queue_free (msgqueues k q) = None) (MqSendL q) (OMsgQueue q)
       (\<lambda>t k. do { k \<leftarrow> rt_spin_unlock_irqrestore k; Some (- RT_EFULL, k) }) (\<lambda>e. e)
       (mq_send_tail q buffer sz) flag phase timeout k"

definition mq_send_wait ::
  "qid \<Rightarrow> u8 list \<Rightarrow> nat \<Rightarrow> u32 \<Rightarrow> suspend_flag \<Rightarrow> kernel \<Rightarrow> (rt_err_t outcome \<times> kernel) option" where
  "mq_send_wait q buffer sz timeout flag k = do {
     rt_assert (rt_object_get_type (OMsgQueue q) k = RT_Object_Class_MessageQueue);
     rt_assert (sz \<noteq> 0);
     rt_assert (timeout \<noteq> 0 \<longrightarrow> debug_scheduler_available k);
     if sz > unat (mq_msg_size (msgqueues k q)) then Some (Returned (- RT_ERROR), k)
     else do {
       let k = rt_spin_lock_irqsave k;
       if mq_queue_free (msgqueues k q) = None \<and> timeout = 0 then do {
         k \<leftarrow> rt_spin_unlock_irqrestore k;
         Some (Returned (- RT_EFULL), k)
       } else mq_send_loop q buffer sz flag Check timeout k
     }
   }"

definition rt_mq_send_wait :: "qid \<Rightarrow> u8 list \<Rightarrow> nat \<Rightarrow> u32 \<Rightarrow> kernel \<Rightarrow> (rt_err_t outcome \<times> kernel) option" where
  "rt_mq_send_wait q buffer sz timeout k = mq_send_wait q buffer sz timeout RT_UNINTERRUPTIBLE k"

definition rt_mq_send_wait_interruptible :: "qid \<Rightarrow> u8 list \<Rightarrow> nat \<Rightarrow> u32 \<Rightarrow> kernel \<Rightarrow> (rt_err_t outcome \<times> kernel) option" where
  "rt_mq_send_wait_interruptible q buffer sz timeout k = mq_send_wait q buffer sz timeout RT_INTERRUPTIBLE k"

definition rt_mq_send_wait_killable :: "qid \<Rightarrow> u8 list \<Rightarrow> nat \<Rightarrow> u32 \<Rightarrow> kernel \<Rightarrow> (rt_err_t outcome \<times> kernel) option" where
  "rt_mq_send_wait_killable q buffer sz timeout k = mq_send_wait q buffer sz timeout RT_KILLABLE k"

definition rt_mq_send :: "qid \<Rightarrow> u8 list \<Rightarrow> nat \<Rightarrow> kernel \<Rightarrow> (rt_err_t outcome \<times> kernel) option" where
  "rt_mq_send q buffer sz k = rt_mq_send_wait q buffer sz 0 k"

definition rt_mq_send_interruptible :: "qid \<Rightarrow> u8 list \<Rightarrow> nat \<Rightarrow> kernel \<Rightarrow> (rt_err_t outcome \<times> kernel) option" where
  "rt_mq_send_interruptible q buffer sz k = rt_mq_send_wait_interruptible q buffer sz 0 k"

definition rt_mq_send_killable :: "qid \<Rightarrow> u8 list \<Rightarrow> nat \<Rightarrow> kernel \<Rightarrow> (rt_err_t outcome \<times> kernel) option" where
  "rt_mq_send_killable q buffer sz k = rt_mq_send_wait_killable q buffer sz 0 k"

definition rt_mq_urgent :: "qid \<Rightarrow> u8 list \<Rightarrow> nat \<Rightarrow> kernel \<Rightarrow> (rt_err_t \<times> kernel) option" where
  "rt_mq_urgent q buffer sz k = do {
     rt_assert (rt_object_get_type (OMsgQueue q) k = RT_Object_Class_MessageQueue);
     rt_assert (sz \<noteq> 0);
     if sz > unat (mq_msg_size (msgqueues k q)) then Some (- RT_ERROR, k)
     else do {
       let k = rt_spin_lock_irqsave k;
       if mq_queue_free (msgqueues k q) = None then do {
         k \<leftarrow> rt_spin_unlock_irqrestore k;
         Some (- RT_EFULL, k)
       } else do {
         (msg, mq) \<leftarrow> mq_get_free (msgqueues k q);
         k \<leftarrow> rt_spin_unlock_irqrestore (upd_msgqueue q (\<lambda>_. mq) k);
         mq \<leftarrow> mq_write msg buffer sz (msgqueues k q);
         let k = rt_spin_lock_irqsave (upd_msgqueue q (\<lambda>_. mq) k);
         mq \<leftarrow> mq_prepend msg (msgqueues k q);
         mq_send_end q (upd_msgqueue q (\<lambda>_. mq) k)
       }
     }
   }"

text \<open>The code behind the waiting loop of \<^verbatim>\<open>_rt_mq_recv\<close>. The result is the returned length or error
  code and the bytes stored in the buffer, if any.\<close>

definition mq_recv_tail :: "qid \<Rightarrow> nat \<Rightarrow> kernel \<Rightarrow> ((int \<times> u8 list option) \<times> kernel) option" where
  "mq_recv_tail q sz k = do {
     (msg, mq) \<leftarrow> mq_unlink (msgqueues k q);
     k \<leftarrow> rt_spin_unlock_irqrestore (upd_msgqueue q (\<lambda>_. mq_count_down mq) k);
     bytes \<leftarrow> mq_read msg sz (msgqueues k q);
     let k = rt_spin_lock_irqsave k;
     mq \<leftarrow> mq_put_free msg (msgqueues k q);
     k \<leftarrow> resume_one (MqSendL q) (upd_msgqueue q (\<lambda>_. mq) k);
     Some ((int (length bytes), Some bytes), k)
   }"

definition mq_recv_loop ::
  "qid \<Rightarrow> nat \<Rightarrow> suspend_flag \<Rightarrow> wait_phase \<Rightarrow> u32 \<Rightarrow> kernel \<Rightarrow> ((int \<times> u8 list option) outcome \<times> kernel) option" where
  "mq_recv_loop q sz flag phase timeout k =
     ipc_wait (\<lambda>k. mq_entry (msgqueues k q) = 0) (MqRecvL q) (OMsgQueue q)
       (\<lambda>t k. do {
          k \<leftarrow> rt_spin_unlock_irqrestore k;
          Some ((- RT_ETIMEOUT, None), upd_thread t (\<lambda>th. th\<lparr>th_error := - RT_ETIMEOUT\<rparr>) k)
        }) (\<lambda>e. (e, None))
       (mq_recv_tail q sz) flag phase timeout k"

definition mq_recv :: "qid \<Rightarrow> nat \<Rightarrow> u32 \<Rightarrow> suspend_flag \<Rightarrow> kernel \<Rightarrow> ((int \<times> u8 list option) outcome \<times> kernel) option" where
  "mq_recv q sz timeout flag k = do {
     rt_assert (rt_object_get_type (OMsgQueue q) k = RT_Object_Class_MessageQueue);
     rt_assert (sz \<noteq> 0);
     rt_assert (timeout \<noteq> 0 \<longrightarrow> debug_scheduler_available k);
     let k = rt_spin_lock_irqsave k;
     if mq_entry (msgqueues k q) = 0 \<and> timeout = 0 then do {
       k \<leftarrow> rt_spin_unlock_irqrestore k;
       Some (Returned (- RT_ETIMEOUT, None), k)
     } else mq_recv_loop q sz flag Check timeout k
   }"

definition rt_mq_recv :: "qid \<Rightarrow> nat \<Rightarrow> u32 \<Rightarrow> kernel \<Rightarrow> ((int \<times> u8 list option) outcome \<times> kernel) option" where
  "rt_mq_recv q sz timeout k = mq_recv q sz timeout RT_UNINTERRUPTIBLE k"

definition rt_mq_recv_interruptible :: "qid \<Rightarrow> nat \<Rightarrow> u32 \<Rightarrow> kernel \<Rightarrow> ((int \<times> u8 list option) outcome \<times> kernel) option" where
  "rt_mq_recv_interruptible q sz timeout k = mq_recv q sz timeout RT_INTERRUPTIBLE k"

definition rt_mq_recv_killable :: "qid \<Rightarrow> nat \<Rightarrow> u32 \<Rightarrow> kernel \<Rightarrow> ((int \<times> u8 list option) outcome \<times> kernel) option" where
  "rt_mq_recv_killable q sz timeout k = mq_recv q sz timeout RT_KILLABLE k"

definition rt_mq_control :: "qid \<Rightarrow> ipc_cmd \<Rightarrow> kernel \<Rightarrow> (rt_err_t \<times> kernel) option" where
  "rt_mq_control q cmd k = do {
     rt_assert (rt_object_get_type (OMsgQueue q) k = RT_Object_Class_MessageQueue);
     if cmd = RT_IPC_CMD_RESET then do {
       let k = rt_spin_lock_irqsave k;
       k \<leftarrow> rt_susp_list_resume_all (MqRecvL q) RT_ERROR k;
       k \<leftarrow> rt_susp_list_resume_all (MqSendL q) RT_ERROR k;
       mq \<leftarrow> mq_release_all (msgqueues k q);
       let k = upd_msgqueue q (\<lambda>_. mq\<lparr>mq_entry := 0\<rparr>) k;
       k \<leftarrow> rt_spin_unlock_irqrestore k;
       k \<leftarrow> rt_schedule k;
       Some (RT_EOK, k)
     } else Some (- RT_ERROR, k)
   }"

section \<open>Sections\<close>

definition mq_wf :: "nat set \<Rightarrow> rt_messagequeue \<Rightarrow> bool" where
  "mq_wf F mq \<longleftrightarrow> (\<exists>fs qs. mq_rep fs qs F mq)"

text \<open>Queue \<open>q\<close> stays well-formed and keeps its dimensions; the other queues do not change.\<close>

definition mq_only :: "qid \<Rightarrow> nat set \<Rightarrow> kernel \<Rightarrow> kernel \<Rightarrow> bool" where
  "mq_only q F k k' \<longleftrightarrow> mq_wf F (msgqueues k' q) \<and> mq_msg_size (msgqueues k' q) = mq_msg_size (msgqueues k q) \<and>
     mq_max_msgs (msgqueues k' q) = mq_max_msgs (msgqueues k q) \<and> (\<forall>q'. q' \<noteq> q \<longrightarrow> msgqueues k' q' = msgqueues k q')"

lemma mq_unchanged: "mq_wf F (msgqueues k q) \<Longrightarrow> msgqueues k' = msgqueues k \<Longrightarrow> mq_only q F k k'"
  by (simp add: mq_only_def)

lemma mq_wf_free: "mq_wf F mq \<Longrightarrow> mq_queue_free mq \<noteq> None \<Longrightarrow> \<exists>m fs qs. mq_rep (m # fs) qs F mq"
  unfolding mq_wf_def by (metis get_free_empty list.exhaust)

lemma mq_wf_nonempty: "mq_wf F mq \<Longrightarrow> mq_entry mq \<noteq> 0 \<Longrightarrow> \<exists>m fs qs. mq_rep fs (m # qs) F mq"
  unfolding mq_wf_def by (metis mq_repD(4) length_0_conv list.exhaust unat_eq_zero)

lemma mq_wf_messages: "mq_wf F mq \<Longrightarrow> length (mq_messages mq) = unat (mq_entry mq)"
  unfolding mq_wf_def using mq_repD(2,4) by fastforce

lemma mq_section_wp:
  assumes k: "kok (Suc n) k" and h: "is_susp_list h" and c: "rt_current_thread k \<noteq> None"
    and Q: "\<And>k'. kok (Suc n) k' \<Longrightarrow> msgqueues k' = (msgqueues k)(q := mq) \<Longrightarrow> tlists k' h = tl (tlists k h) \<Longrightarrow>
       (\<And>h'. is_susp_list h' \<Longrightarrow> h' \<noteq> h \<Longrightarrow> tlists k' h' = tlists k h') \<Longrightarrow>
       (\<And>t ts. tlists k h = t # ts \<Longrightarrow> \<not> thread_suspended k' t \<and> th_error (threads k' t) = RT_EOK) \<Longrightarrow> Q k'"
  shows "wp (resume_one h (upd_msgqueue q (\<lambda>_. mq) (rt_enter_critical k))) Q"
proof -
  have "wp (resume_one h (rt_enter_critical (upd_msgqueue q (\<lambda>_. mq) k))) Q"
  proof (rule resume_one_wp [where n = n])
    fix k' assume k': "kok (Suc n) k'" "resumed h (upd_msgqueue q (\<lambda>_. mq) k) k'"
    show "Q k'" using k'(2) by (intro Q [OF k'(1)]) (auto simp: resumed_def same_ipc_def upd_sel)
  qed (use k h c in \<open>simp_all add: upd_sel\<close>)
  then show ?thesis by (simp add: enter_commute)
qed

text \<open>Leaving a section in which the queue has changed.\<close>

lemma mq_leave_wp:
  assumes k: "kok (Suc n) k" and c: "rt_current_thread k \<noteq> None"
    and Q: "\<And>k'. kok (Suc n) k' \<Longrightarrow> rt_current_thread k' \<noteq> None \<Longrightarrow> msgqueues k' = (msgqueues k)(q := mq) \<Longrightarrow>
       (\<And>h. is_susp_list h \<Longrightarrow> tlists k' h = tlists k h) \<Longrightarrow> Q k'"
  shows "wp (rt_exit_critical (upd_msgqueue q (\<lambda>_. mq) (rt_enter_critical k))) Q"
proof -
  have "wp (rt_exit_critical (rt_enter_critical (upd_msgqueue q (\<lambda>_. mq) k))) Q"
  proof (rule kok_section_wp [where n = "Suc n"])
    fix k' assume k': "kok (Suc n) k'" "sched_only (upd_msgqueue q (\<lambda>_. mq) k) k'"
    show "Q k'"
      using same_ipc_sched_only [OF k'(2)] sched_only_susp [OF k'(2)] sched_onlyD(2) [OF k'(2)] c
      by (intro Q [OF k'(1)]) (simp_all add: same_ipc_def upd_sel)
  qed (use k in simp)
  then show ?thesis by (simp add: enter_commute)
qed

lemma mq_send_end_wp:
  assumes k: "kok (Suc n) k" and c: "rt_current_thread k \<noteq> None" and e: "mq_entry mq < 0xffff"
    and Q: "\<And>k'. kok (Suc n) k' \<Longrightarrow> msgqueues k' = (msgqueues k)(q := mq\<lparr>mq_entry := mq_entry mq + 1\<rparr>) \<Longrightarrow>
       tlists k' (MqRecvL q) = tl (tlists k (MqRecvL q)) \<Longrightarrow> tlists k' (MqSendL q) = tlists k (MqSendL q) \<Longrightarrow>
       (\<And>t ts. tlists k (MqRecvL q) = t # ts \<Longrightarrow> \<not> thread_suspended k' t \<and> th_error (threads k' t) = RT_EOK) \<Longrightarrow> Q (RT_EOK, k')"
  shows "wp (mq_send_end q (upd_msgqueue q (\<lambda>_. mq) (rt_enter_critical k))) Q"
proof -
  have u: "upd_msgqueue q (\<lambda>mq. mq\<lparr>mq_entry := mq_entry mq + 1\<rparr>) (upd_msgqueue q (\<lambda>_. mq) k1) =
      upd_msgqueue q (\<lambda>_. mq\<lparr>mq_entry := mq_entry mq + 1\<rparr>) k1" for k1
    by (simp add: upd_defs)
  have "wp (resume_one (MqRecvL q) (upd_msgqueue q (\<lambda>_. mq\<lparr>mq_entry := mq_entry mq + 1\<rparr>) (rt_enter_critical k))) (\<lambda>k'. Q (0, k'))"
    by (rule mq_section_wp [OF k _ c]) (auto intro!: Q)
  then show ?thesis using e by (simp add: mq_send_end_def u upd_sel Let_def)
qed

text \<open>What a call that sends does to the kernel, apart from the queue of messages.\<close>

definition mq_sent :: "qid \<Rightarrow> kernel \<Rightarrow> kernel \<Rightarrow> bool" where
  "mq_sent q k k' \<longleftrightarrow> tlists k' (MqRecvL q) = tl (tlists k (MqRecvL q)) \<and> tlists k' (MqSendL q) = tlists k (MqSendL q) \<and>
     (\<forall>r rs. tlists k (MqRecvL q) = r # rs \<longrightarrow> \<not> thread_suspended k' r \<and> th_error (threads k' r) = RT_EOK)"

text \<open>The steps of a send on the structure.\<close>

lemma mq_send_struct:
  assumes r: "mq_rep (m # fs) qs F mq" and sz: "sz \<le> unat (mq_msg_size mq)" "sz \<le> length buffer"
  obtains mq1 mq2 mq3 mq4 where "mq_get_free mq = Some (m, mq1)" "mq_set_next m None mq1 = Some mq2"
    "mq_write m buffer sz mq2 = Some mq3" "mq_append m mq3 = Some mq4" "mq_entry mq4 < 0xffff"
    "mq_wf F (mq4\<lparr>mq_entry := mq_entry mq4 + 1\<rparr>)"
    "mq_messages (mq4\<lparr>mq_entry := mq_entry mq4 + 1\<rparr>) = mq_messages mq @ [take sz buffer]"
    "mq_msg_size mq4 = mq_msg_size mq" "mq_max_msgs mq4 = mq_max_msgs mq"
proof -
  have mF: "insert m F - {m} = F" using r by (auto simp: mq_rep_def)
  obtain mq1 where g: "mq_get_free mq = Some (m, mq1)" "mq_rep fs qs (insert m F) mq1" "mq_messages mq1 = mq_messages mq"
    "mq_msg_size mq1 = mq_msg_size mq" "mq_max_msgs mq1 = mq_max_msgs mq"
    using get_free_rep [OF r] by blast
  have l: "m < length (mq_msg_pool mq1)" using mq_repD(3) [OF g(2)] by simp
  obtain mq2 where s: "mq_set_next m None mq1 = Some mq2" "mq_rep fs qs (insert m F) mq2" "mq_messages mq2 = mq_messages mq1"
    "mq_msg_pool mq2 = (mq_msg_pool mq1)[m := (mq_msg_pool mq1 ! m)\<lparr>msg_next := None\<rparr>]"
    "mq_msg_size mq2 = mq_msg_size mq1" "mq_max_msgs mq2 = mq_max_msgs mq1"
    using set_next_flight [OF g(2), of m None] by blast
  obtain mq3 nd where w: "mq_write m buffer sz mq2 = Some mq3" "mq_rep fs qs (insert m F) mq3" "mq_messages mq3 = mq_messages mq2"
    "mq_msg_pool mq3 = (mq_msg_pool mq2)[m := nd]" "msg_bytes nd = take sz buffer" "msg_length nd = sz" "msg_next nd = None"
    "mq_msg_size mq3 = mq_msg_size mq2" "mq_max_msgs mq3 = mq_max_msgs mq2"
    using write_flight [OF s(2), of m sz buffer] sz s(4,5) g(4) l by auto
  have nd: "mq_msg_pool mq3 ! m = nd" using w(4) s(4) l by simp
  obtain mq4 where a: "mq_append m mq3 = Some mq4" "mq_rep fs (qs @ [m]) (insert m F - {m}) (mq4\<lparr>mq_entry := mq_entry mq4 + 1\<rparr>)"
    "mq_messages (mq4\<lparr>mq_entry := mq_entry mq4 + 1\<rparr>) = mq_messages mq3 @ [take sz buffer]" "mq_entry mq4 = mq_entry mq3"
    "mq_msg_size mq4 = mq_msg_size mq3" "mq_max_msgs mq4 = mq_max_msgs mq3"
    using append_rep [OF w(2), of m] nd w(5,6,7,8) s(5) g(4) sz by auto
  have "mq_wf F (mq4\<lparr>mq_entry := mq_entry mq4 + 1\<rparr>)" using a(2) mF by (auto simp: mq_wf_def)
  moreover have "mq_entry mq4 < 0xffff" using rep_count(1) [OF w(2), of m] a(4) by simp
  ultimately show ?thesis using that g s w a by simp
qed

lemma mq_urgent_struct:
  assumes r: "mq_rep (m # fs) qs F mq" and sz: "sz \<le> unat (mq_msg_size mq)" "sz \<le> length buffer"
  obtains mq1 mq3 mq4 where "mq_get_free mq = Some (m, mq1)"
    "mq_write m buffer sz mq1 = Some mq3" "mq_prepend m mq3 = Some mq4" "mq_entry mq4 < 0xffff"
    "mq_wf F (mq4\<lparr>mq_entry := mq_entry mq4 + 1\<rparr>)"
    "mq_messages (mq4\<lparr>mq_entry := mq_entry mq4 + 1\<rparr>) = take sz buffer # mq_messages mq"
    "mq_msg_size mq4 = mq_msg_size mq" "mq_max_msgs mq4 = mq_max_msgs mq"
proof -
  have mF: "insert m F - {m} = F" using r by (auto simp: mq_rep_def)
  obtain mq1 where g: "mq_get_free mq = Some (m, mq1)" "mq_rep fs qs (insert m F) mq1" "mq_messages mq1 = mq_messages mq"
    "mq_msg_size mq1 = mq_msg_size mq" "mq_max_msgs mq1 = mq_max_msgs mq"
    using get_free_rep [OF r] by blast
  have l: "m < length (mq_msg_pool mq1)" using mq_repD(3) [OF g(2)] by simp
  obtain mq3 nd where w: "mq_write m buffer sz mq1 = Some mq3" "mq_rep fs qs (insert m F) mq3" "mq_messages mq3 = mq_messages mq1"
    "mq_msg_pool mq3 = (mq_msg_pool mq1)[m := nd]" "msg_bytes nd = take sz buffer" "msg_length nd = sz"
    "mq_msg_size mq3 = mq_msg_size mq1" "mq_max_msgs mq3 = mq_max_msgs mq1"
    using write_flight [OF g(2), of m sz buffer] sz g(4) by auto
  have nd: "mq_msg_pool mq3 ! m = nd" using w(4) l by simp
  obtain mq4 where a: "mq_prepend m mq3 = Some mq4" "mq_rep fs (m # qs) (insert m F - {m}) (mq4\<lparr>mq_entry := mq_entry mq4 + 1\<rparr>)"
    "mq_messages (mq4\<lparr>mq_entry := mq_entry mq4 + 1\<rparr>) = take sz buffer # mq_messages mq3" "mq_entry mq4 = mq_entry mq3"
    "mq_msg_size mq4 = mq_msg_size mq3" "mq_max_msgs mq4 = mq_max_msgs mq3"
    using prepend_rep [OF w(2), of m] nd w(5,6,7) g(4) sz by auto
  have "mq_wf F (mq4\<lparr>mq_entry := mq_entry mq4 + 1\<rparr>)" using a(2) mF by (auto simp: mq_wf_def)
  moreover have "mq_entry mq4 < 0xffff" using rep_count(1) [OF w(2), of m] a(4) by simp
  ultimately show ?thesis using that g w a by simp
qed

lemma mq_recv_struct:
  assumes r: "mq_rep fs (m # qs) F mq"
  obtains mq1 mq2 where "mq_unlink mq = Some (m, mq1)"
    "mq_read m sz (mq_count_down mq1) = Some (take sz (hd (mq_messages mq)))" "mq_put_free m (mq_count_down mq1) = Some mq2"
    "mq_wf F mq2" "mq_messages mq = hd (mq_messages mq) # mq_messages mq2" "mq_msg_size mq2 = mq_msg_size mq" "mq_max_msgs mq2 = mq_max_msgs mq"
proof -
  have mF: "insert m F - {m} = F" using r by (auto simp: mq_rep_def)
  obtain mq1 where u: "mq_unlink mq = Some (m, mq1)" "mq_rep fs qs (insert m F) (mq_count_down mq1)"
     "mq_messages (mq_count_down mq1) = tl (mq_messages mq)" "mq_messages mq = msg_bytes (mq_msg_pool mq ! m) # tl (mq_messages mq)"
     "mq_msg_pool mq1 = mq_msg_pool mq" "mq_msg_size mq1 = mq_msg_size mq" "mq_max_msgs mq1 = mq_max_msgs mq"
    using unlink_rep [OF r] by blast
  have l: "msg_length (mq_msg_pool mq ! m) \<le> unat (mq_msg_size mq)" using r by (simp add: mq_rep_def)
  have rd: "mq_read m sz (mq_count_down mq1) = Some (take sz (msg_bytes (mq_msg_pool mq ! m)))"
    using read_flight [OF u(2), of m sz] l u(5,6) by (simp add: mq_count_down_def)
  obtain mq2 where p: "mq_put_free m (mq_count_down mq1) = Some mq2" "mq_rep (m # fs) qs F mq2"
    "mq_messages mq2 = tl (mq_messages mq)" "mq_msg_size mq2 = mq_msg_size mq" "mq_max_msgs mq2 = mq_max_msgs mq"
    using put_free_rep [OF u(2), of m] u(3,6,7) mF by (auto simp: mq_count_down_def)
  have h: "hd (mq_messages mq) = msg_bytes (mq_msg_pool mq ! m)" by (subst u(4)) simp
  show ?thesis using that [OF u(1)] rd p u(4) h by (simp add: mq_wf_def) blast
qed

text \<open>The second section of a send, entered with the written node.\<close>

lemma mq_link_wp:
  assumes k: "kok (Suc n) k1" and c: "rt_current_thread k1 \<noteq> None" and k1: "msgqueues k1 = (msgqueues k)(q := mq1)"
    "\<And>h. is_susp_list h \<Longrightarrow> tlists k1 h = tlists k h"
    and e: "mq_entry mq4 < 0xffff" and wf: "mq_wf F (mq4\<lparr>mq_entry := mq_entry mq4 + 1\<rparr>)"
    and z: "mq_msg_size mq4 = mq_msg_size (msgqueues k q)" "mq_max_msgs mq4 = mq_max_msgs (msgqueues k q)"
    and Q: "\<And>k'. kok (Suc n) k' \<Longrightarrow> mq_only q F k k' \<Longrightarrow> mq_sent q k k' \<Longrightarrow>
       msgqueues k' q = mq4\<lparr>mq_entry := mq_entry mq4 + 1\<rparr> \<Longrightarrow> Q (RT_EOK, k')"
  shows "wp (mq_send_end q (upd_msgqueue q (\<lambda>_. mq4) (rt_enter_critical (upd_msgqueue q (\<lambda>_. mq3) k1)))) Q"
proof (rule mq_send_end_wp [where n = n, OF _ _ e])
  fix k' assume k': "kok (Suc n) k'"
    "msgqueues k' = (msgqueues (upd_msgqueue q (\<lambda>_. mq3) k1))(q := mq4\<lparr>mq_entry := mq_entry mq4 + 1\<rparr>)"
    "tlists k' (MqRecvL q) = tl (tlists (upd_msgqueue q (\<lambda>_. mq3) k1) (MqRecvL q))"
    "tlists k' (MqSendL q) = tlists (upd_msgqueue q (\<lambda>_. mq3) k1) (MqSendL q)"
    "\<And>t ts. tlists (upd_msgqueue q (\<lambda>_. mq3) k1) (MqRecvL q) = t # ts \<Longrightarrow> \<not> thread_suspended k' t \<and> th_error (threads k' t) = RT_EOK"
  show "Q (0, k')"
  proof (rule Q [OF k'(1)])
    show "mq_only q F k k'" using k'(2) k1(1) wf z by (simp add: mq_only_def upd_sel)
    show "mq_sent q k k'" using k'(3-5) k1(2) by (auto simp: mq_sent_def upd_sel)
  qed (use k'(2) in \<open>simp add: upd_sel\<close>)
qed (use k c in \<open>simp_all add: upd_sel\<close>)

lemma mq_send_tail_wp:
  assumes k: "kok (Suc n) k" and c: "rt_current_thread k \<noteq> None" and r: "mq_rep (m # fs) qs F (msgqueues k q)"
    and sz: "sz \<le> unat (mq_msg_size (msgqueues k q))" "sz \<le> length buffer"
    and Q: "\<And>k'. kok (Suc n) k' \<Longrightarrow> mq_only q F k k' \<Longrightarrow> mq_sent q k k' \<Longrightarrow>
       mq_messages (msgqueues k' q) = mq_messages (msgqueues k q) @ [take sz buffer] \<Longrightarrow> Q (RT_EOK, k')"
  shows "wp (mq_send_tail q buffer sz (rt_enter_critical k)) Q"
proof (rule mq_send_struct [OF r sz])
  fix mq1 mq2 mq3 mq4
  assume s: "mq_get_free (msgqueues k q) = Some (m, mq1)" "mq_set_next m None mq1 = Some mq2"
    "mq_write m buffer sz mq2 = Some mq3" "mq_append m mq3 = Some mq4" "mq_entry mq4 < 0xffff"
    "mq_wf F (mq4\<lparr>mq_entry := mq_entry mq4 + 1\<rparr>)"
    "mq_messages (mq4\<lparr>mq_entry := mq_entry mq4 + 1\<rparr>) = mq_messages (msgqueues k q) @ [take sz buffer]"
    "mq_msg_size mq4 = mq_msg_size (msgqueues k q)" "mq_max_msgs mq4 = mq_max_msgs (msgqueues k q)"
  have "wp (rt_exit_critical (upd_msgqueue q (\<lambda>_. mq1) (rt_enter_critical k)))
     (\<lambda>k1. wp (mq_send_end q (upd_msgqueue q (\<lambda>_. mq4) (rt_enter_critical (upd_msgqueue q (\<lambda>_. mq3) k1)))) Q \<and> msgqueues k1 q = mq1)"
    by (rule mq_leave_wp [OF k c], rule conjI, erule (2) mq_link_wp [OF _ _ _ _ s(5,6,8,9)]) (use Q s(7) in auto)
  then show ?thesis
    by (simp add: mq_send_tail_def s(1) spin_defs Let_def) (erule wp_mono, simp add: s upd_sel)
qed

lemma mq_recv_tail_wp:
  assumes k: "kok (Suc n) k" and c: "rt_current_thread k \<noteq> None" and r: "mq_rep fs (m # qs) F (msgqueues k q)"
    and Q: "\<And>k' msg. kok (Suc n) k' \<Longrightarrow> mq_only q F k k' \<Longrightarrow> mq_messages (msgqueues k q) = msg # mq_messages (msgqueues k' q) \<Longrightarrow>
       tlists k' (MqSendL q) = tl (tlists k (MqSendL q)) \<Longrightarrow> tlists k' (MqRecvL q) = tlists k (MqRecvL q) \<Longrightarrow>
       (\<And>t ts. tlists k (MqSendL q) = t # ts \<Longrightarrow> \<not> thread_suspended k' t \<and> th_error (threads k' t) = RT_EOK) \<Longrightarrow>
       Q ((int (length (take sz msg)), Some (take sz msg)), k')"
  shows "wp (mq_recv_tail q sz (rt_enter_critical k)) Q"
proof (rule mq_recv_struct [OF r, of sz])
  fix mq1 mq2
  let ?msg = "hd (mq_messages (msgqueues k q))"
  assume s: "mq_unlink (msgqueues k q) = Some (m, mq1)" "mq_read m sz (mq_count_down mq1) = Some (take sz ?msg)"
    "mq_put_free m (mq_count_down mq1) = Some mq2" "mq_wf F mq2" "mq_messages (msgqueues k q) = ?msg # mq_messages mq2"
    "mq_msg_size mq2 = mq_msg_size (msgqueues k q)" "mq_max_msgs mq2 = mq_max_msgs (msgqueues k q)"
  let ?Q = "\<lambda>k'. Q ((int (length (take sz ?msg)), Some (take sz ?msg)), k')"
  have "wp (rt_exit_critical (upd_msgqueue q (\<lambda>_. mq_count_down mq1) (rt_enter_critical k)))
     (\<lambda>k1. wp (resume_one (MqSendL q) (upd_msgqueue q (\<lambda>_. mq2) (rt_enter_critical k1))) ?Q \<and> msgqueues k1 q = mq_count_down mq1)"
  proof (rule mq_leave_wp [OF k c], rule conjI)
    fix k1 assume k1: "kok (Suc n) k1" "rt_current_thread k1 \<noteq> None" "msgqueues k1 = (msgqueues k)(q := mq_count_down mq1)"
      "\<And>h. is_susp_list h \<Longrightarrow> tlists k1 h = tlists k h"
    show "wp (resume_one (MqSendL q) (upd_msgqueue q (\<lambda>_. mq2) (rt_enter_critical k1))) ?Q"
    proof (rule mq_section_wp [OF k1(1) _ k1(2)])
      fix k' assume k': "kok (Suc n) k'" "msgqueues k' = (msgqueues k1)(q := mq2)" "tlists k' (MqSendL q) = tl (tlists k1 (MqSendL q))"
        "\<And>h'. is_susp_list h' \<Longrightarrow> h' \<noteq> MqSendL q \<Longrightarrow> tlists k' h' = tlists k1 h'"
        "\<And>t ts. tlists k1 (MqSendL q) = t # ts \<Longrightarrow> \<not> thread_suspended k' t \<and> th_error (threads k' t) = RT_EOK"
      show "?Q k'"
        by (rule Q [OF k'(1)]) (use k'(2-5) k1(3,4) s(4-7) in \<open>auto simp: mq_only_def\<close>)
    qed simp
  qed simp
  then show ?thesis
    by (simp add: mq_recv_tail_def s(1) spin_defs Let_def) (erule wp_mono, simp add: s(2,3))
qed

lemma mq_read_section_wp:
  assumes k: "kok n k" and wf: "mq_wf F (msgqueues k q)"
    and Q: "\<And>k'. kok n k' \<Longrightarrow> mq_only q F k k' \<Longrightarrow> msgqueues k' = msgqueues k \<Longrightarrow>
       tlists k' (MqRecvL q) = tlists k (MqRecvL q) \<Longrightarrow> tlists k' (MqSendL q) = tlists k (MqSendL q) \<Longrightarrow> Q k'"
  shows "wp (rt_exit_critical (rt_enter_critical k)) Q"
proof (rule kok_section_wp [OF k])
  fix k' assume k': "kok n k'" "sched_only k k'"
  have m: "msgqueues k' = msgqueues k" using same_ipc_sched_only [OF k'(2)] by (simp add: same_ipc_def)
  show "Q k'" by (rule Q [OF k'(1) mq_unchanged [OF wf m] m]) (use sched_only_susp [OF k'(2)] in simp_all)
qed

section \<open>Properties\<close>

text \<open>C28. Sending a message. A message longer than the queue's messages is refused with
  \<^verbatim>\<open>-RT_ERROR\<close>. With a free node the bytes are appended to the queue and the receiver that has waited
  longest, if any, is woken; without one the call fails with \<^verbatim>\<open>-RT_EFULL\<close> when it must not wait, and
  else queues the sender and lets another thread run. \<open>F\<close> are the nodes under way in other calls.\<close>

theorem rt_mq_send_correct:
  assumes k: "kok (Suc n) k" and ty: "rt_object_get_type (OMsgQueue q) k = RT_Object_Class_MessageQueue"
    and c: "rt_current_thread k \<noteq> None" and m: "timeout \<noteq> 0 \<Longrightarrow> may_block t k" and to: "timeout \<noteq> 0x7fffffff"
    and f: "ob_flag (objects k (OMsgQueue q)) = f" "f = RT_IPC_FLAG_FIFO \<or> f = RT_IPC_FLAG_PRIO"
    and wf: "mq_wf F (msgqueues k q)" and sz: "0 < sz" "sz \<le> length buffer"
  shows "wp (mq_send_wait q buffer sz timeout flag k) (\<lambda>(out, k'). kok (Suc n) k' \<and> mq_only q F k k' \<and>
     (let mq = msgqueues k q; msgs = mq_messages mq; msgs' = mq_messages (msgqueues k' q)
      in if unat (mq_msg_size mq) < sz then out = Returned (- RT_ERROR) \<and> k' = k
         else if mq_queue_free mq \<noteq> None
         then out = Returned RT_EOK \<and> msgs' = msgs @ [take sz buffer] \<and> mq_sent q k k'
         else msgs' = msgs \<and>
              (if timeout = RT_WAITING_NO
               then out = Returned (- RT_EFULL) \<and> tlists k' (MqSendL q) = tlists k (MqSendL q)
               else out = Waiting \<and> waits t (MqSendL q) f timeout k k')))"
proof -
  have d: "timeout \<noteq> 0 \<longrightarrow> debug_scheduler_available k" using may_block_debug [OF m] by blast
  consider (long) "unat (mq_msg_size (msgqueues k q)) < sz"
    | (room) "sz \<le> unat (mq_msg_size (msgqueues k q))" "mq_queue_free (msgqueues k q) \<noteq> None"
    | (no) "sz \<le> unat (mq_msg_size (msgqueues k q))" "mq_queue_free (msgqueues k q) = None" "timeout = 0"
    | (wait) "sz \<le> unat (mq_msg_size (msgqueues k q))" "mq_queue_free (msgqueues k q) = None" "timeout \<noteq> 0"
    using not_less by blast
  then show ?thesis
  proof cases
    case long
    then show ?thesis using ty d sz k wf by (simp add: mq_send_wait_def mq_only_def)
  next
    case room
    obtain m fs qs where r: "mq_rep (m # fs) qs F (msgqueues k q)" using mq_wf_free [OF wf room(2)] by blast
    have y: "mq_queue_free (msgqueues k q) = Some m" using r by (simp add: mq_rep_def)
    show ?thesis
      unfolding mq_send_wait_def mq_send_loop_def spin_defs
      using ty d room(1) y sz
      by (simp add: ipc_wait_avail case_prod_unfold) (rule mq_send_tail_wp [OF k c r], auto)
  next
    case no
    then show ?thesis
      unfolding mq_send_wait_def spin_defs using ty sz
      by simp (rule mq_read_section_wp [OF k wf], simp)
  next
    case wait
    have "wp (mq_send_loop q buffer sz flag Check timeout (rt_enter_critical k))
       (\<lambda>(out, k'). kok (Suc n) k' \<and> mq_only q F k k' \<and> msgqueues k' = msgqueues k \<and> out = Waiting \<and> waits t (MqSendL q) f timeout k k')"
      unfolding mq_send_loop_def
      by (rule ipc_wait_block_wp [OF k m [OF wait(3)] _ f wait(3) to])
        (use wait mq_unchanged [OF wf] in \<open>simp_all add: same_ipc_def\<close>)
    then show ?thesis
      unfolding mq_send_wait_def spin_defs using ty d wait sz
      by (auto elim!: wp_mono)
  qed
qed

text \<open>C29. Receiving a message. The oldest message is taken, cut to the size of the buffer, its node is free
  again and the sender that has waited longest is woken; on an empty queue the call fails with
  \<^verbatim>\<open>-RT_ETIMEOUT\<close> when it must not wait, and else queues the receiver.\<close>

theorem rt_mq_recv_correct:
  assumes k: "kok (Suc n) k" and ty: "rt_object_get_type (OMsgQueue q) k = RT_Object_Class_MessageQueue"
    and c: "rt_current_thread k \<noteq> None" and m: "timeout \<noteq> 0 \<Longrightarrow> may_block t k" and to: "timeout \<noteq> 0x7fffffff"
    and f: "ob_flag (objects k (OMsgQueue q)) = f" "f = RT_IPC_FLAG_FIFO \<or> f = RT_IPC_FLAG_PRIO"
    and wf: "mq_wf F (msgqueues k q)" and sz: "0 < sz"
  shows "wp (mq_recv q sz timeout flag k) (\<lambda>(out, k'). kok (Suc n) k' \<and> mq_only q F k k' \<and>
     (case mq_messages (msgqueues k q) of
        msg # msgs \<Rightarrow> out = Returned (int (min sz (length msg)), Some (take sz msg)) \<and> mq_messages (msgqueues k' q) = msgs \<and>
          tlists k' (MqSendL q) = tl (tlists k (MqSendL q)) \<and> tlists k' (MqRecvL q) = tlists k (MqRecvL q) \<and>
          (\<forall>s ss. tlists k (MqSendL q) = s # ss \<longrightarrow> \<not> thread_suspended k' s \<and> th_error (threads k' s) = RT_EOK)
      | [] \<Rightarrow> mq_messages (msgqueues k' q) = [] \<and>
          (if timeout = RT_WAITING_NO
           then out = Returned (- RT_ETIMEOUT, None) \<and> tlists k' (MqRecvL q) = tlists k (MqRecvL q)
           else out = Waiting \<and> waits t (MqRecvL q) f timeout k k')))"
proof -
  have d: "timeout \<noteq> 0 \<longrightarrow> debug_scheduler_available k" using may_block_debug [OF m] by blast
  have e: "mq_messages (msgqueues k q) = [] \<longleftrightarrow> mq_entry (msgqueues k q) = 0"
    using mq_wf_messages [OF wf] by (metis length_0_conv unat_eq_zero)
  consider (avail) "mq_entry (msgqueues k q) \<noteq> 0" | (no) "mq_entry (msgqueues k q) = 0" "timeout = 0"
    | (wait) "mq_entry (msgqueues k q) = 0" "timeout \<noteq> 0" by blast
  then show ?thesis
  proof cases
    case avail
    obtain m fs qs where r: "mq_rep fs (m # qs) F (msgqueues k q)" using mq_wf_nonempty [OF wf avail] by blast
    show ?thesis
      unfolding mq_recv_def mq_recv_loop_def spin_defs
      using ty d avail sz
      by (simp add: ipc_wait_avail case_prod_unfold) (rule mq_recv_tail_wp [OF k c r], auto simp: min.commute)
  next
    case no
    then show ?thesis
      unfolding mq_recv_def spin_defs using ty e sz
      by simp (rule mq_read_section_wp [OF k wf], simp)
  next
    case wait
    have "wp (mq_recv_loop q sz flag Check timeout (rt_enter_critical k))
       (\<lambda>(out, k'). kok (Suc n) k' \<and> mq_only q F k k' \<and> msgqueues k' = msgqueues k \<and> out = Waiting \<and> waits t (MqRecvL q) f timeout k k')"
      unfolding mq_recv_loop_def
      by (rule ipc_wait_block_wp [OF k m [OF wait(2)] _ f wait(2) to])
        (use wait mq_unchanged [OF wf] in \<open>simp_all add: same_ipc_def\<close>)
    then show ?thesis
      unfolding mq_recv_def spin_defs using ty d wait e sz
      by (auto elim!: wp_mono)
  qed
qed

text \<open>Urgent messages go to the head of the queue, under the same conditions as other messages; the call
  never waits.\<close>

theorem rt_mq_urgent_correct:
  assumes k: "kok (Suc n) k" and ty: "rt_object_get_type (OMsgQueue q) k = RT_Object_Class_MessageQueue"
    and c: "rt_current_thread k \<noteq> None" and wf: "mq_wf F (msgqueues k q)" and sz: "0 < sz" "sz \<le> length buffer"
  shows "wp (rt_mq_urgent q buffer sz k) (\<lambda>(err, k'). kok (Suc n) k' \<and> mq_only q F k k' \<and>
     (let mq = msgqueues k q; msgs = mq_messages mq; msgs' = mq_messages (msgqueues k' q)
      in if unat (mq_msg_size mq) < sz then err = - RT_ERROR \<and> k' = k
         else if mq_queue_free mq \<noteq> None then err = RT_EOK \<and> msgs' = take sz buffer # msgs \<and> mq_sent q k k'
         else err = - RT_EFULL \<and> msgs' = msgs \<and> tlists k' (MqRecvL q) = tlists k (MqRecvL q)))"
proof -
  consider (long) "unat (mq_msg_size (msgqueues k q)) < sz"
    | (room) "sz \<le> unat (mq_msg_size (msgqueues k q))" "mq_queue_free (msgqueues k q) \<noteq> None"
    | (no) "sz \<le> unat (mq_msg_size (msgqueues k q))" "mq_queue_free (msgqueues k q) = None"
    using not_less by blast
  then show ?thesis
  proof cases
    case long
    then show ?thesis using ty sz k wf by (simp add: rt_mq_urgent_def mq_only_def)
  next
    case no
    then show ?thesis
      unfolding rt_mq_urgent_def spin_defs using ty sz
      by simp (rule mq_read_section_wp [OF k wf], simp)
  next
    case room
    obtain m fs qs where r: "mq_rep (m # fs) qs F (msgqueues k q)" using mq_wf_free [OF wf room(2)] by blast
    have y: "mq_queue_free (msgqueues k q) = Some m" using r by (simp add: mq_rep_def)
    obtain mq1 mq3 mq4 where s: "mq_get_free (msgqueues k q) = Some (m, mq1)"
      "mq_write m buffer sz mq1 = Some mq3" "mq_prepend m mq3 = Some mq4" "mq_entry mq4 < 0xffff"
      "mq_wf F (mq4\<lparr>mq_entry := mq_entry mq4 + 1\<rparr>)"
      "mq_messages (mq4\<lparr>mq_entry := mq_entry mq4 + 1\<rparr>) = take sz buffer # mq_messages (msgqueues k q)"
      "mq_msg_size mq4 = mq_msg_size (msgqueues k q)" "mq_max_msgs mq4 = mq_max_msgs (msgqueues k q)"
      using mq_urgent_struct [OF r room(1) sz(2)] by blast
    let ?Q = "\<lambda>(err, k'). kok (Suc n) k' \<and> mq_only q F k k' \<and> err = 0 \<and>
      mq_messages (msgqueues k' q) = take sz buffer # mq_messages (msgqueues k q) \<and> mq_sent q k k'"
    have "wp (rt_exit_critical (upd_msgqueue q (\<lambda>_. mq1) (rt_enter_critical k)))
       (\<lambda>k1. wp (mq_send_end q (upd_msgqueue q (\<lambda>_. mq4) (rt_enter_critical (upd_msgqueue q (\<lambda>_. mq3) k1)))) ?Q \<and> msgqueues k1 q = mq1)"
      by (rule mq_leave_wp [OF k c], rule conjI, erule (2) mq_link_wp [OF _ _ _ _ s(4,5,7,8)]) (use s(6) in auto)
    then show ?thesis
      unfolding rt_mq_urgent_def spin_defs using ty room(1) y sz
      by (simp add: s(1) Let_def) (erule wp_mono, auto simp: s upd_sel elim!: wp_mono)
  qed
qed

section \<open>Initialisation\<close>

text \<open>Linking the free list does not look at the counter.\<close>

lemma put_free_entry: "mq_put_free m (mq\<lparr>mq_entry := e\<rparr>) = map_option (\<lambda>mq. mq\<lparr>mq_entry := e\<rparr>) (mq_put_free m mq)"
  by (simp add: mq_put_free_def mq_set_next_def fetch_def)

lemma link_free_entry: "mq_link_free ts (mq\<lparr>mq_entry := e\<rparr>) = map_option (\<lambda>mq. mq\<lparr>mq_entry := e\<rparr>) (mq_link_free ts mq)"
  by (induction ts arbitrary: mq) (auto simp: put_free_entry map_conv_bind_option split: bind_splits)

lemma mq_setup_rep:
  assumes l: "unat (mq_max_msgs mq) \<le> length msgpool"
    and d: "\<And>node. node \<in> set msgpool \<Longrightarrow> unat (mq_msg_size mq) \<le> length (msg_data node)"
  shows "\<exists>mq'. mq_setup msgpool mq = Some mq' \<and> mq_rep (rev [0..<unat (mq_max_msgs mq)]) [] {} mq' \<and> mq_max_msgs mq' = mq_max_msgs mq \<and>
     mq_msg_size mq' = mq_msg_size mq"
proof -
  let ?n = "unat (mq_max_msgs mq)"
  let ?mq = "mq\<lparr>mq_msg_pool := take ?n msgpool, mq_queue_head := None, mq_queue_tail := None, mq_queue_free := None\<rparr>"
  have "mq_rep [] [] {..<?n} (?mq\<lparr>mq_entry := 0\<rparr>)"
    using l d by (auto simp: mq_rep_def dest: in_set_takeD)
  then obtain mq' where m: "mq_link_free [0..<?n] (?mq\<lparr>mq_entry := 0\<rparr>) = Some mq'" "mq_rep (rev [0..<?n]) [] {} mq'"
    "mq_max_msgs mq' = mq_max_msgs mq" "mq_msg_size mq' = mq_msg_size mq"
    using link_free_rep [of "[]" "{..<?n}" "?mq\<lparr>mq_entry := 0\<rparr>" "[0..<?n]"] by (auto simp: lessThan_atLeast0)
  obtain mq1 where "mq_link_free [0..<?n] ?mq = Some mq1" "mq' = mq1\<lparr>mq_entry := 0\<rparr>"
    using m(1) unfolding link_free_entry by auto
  then show ?thesis using l m by (simp add: mq_setup_def Let_def)
qed

text \<open>A new queue. When the pool holds at least one node, initialisation succeeds and the queue is empty,
  with every node of the pool on its free list and nobody waiting; a pool that is too small gives
  \<^verbatim>\<open>-RT_EINVAL\<close>, although the object has been registered by then.\<close>

theorem rt_mq_init_correct:
  assumes k: "kinv k" "nest_ok k" "OMsgQueue q \<notin> set (object_list k RT_Object_Class_MessageQueue)"
    and f: "flag = RT_IPC_FLAG_FIFO \<or> flag = RT_IPC_FLAG_PRIO"
    and a: "rt_align msg_sz + 8 \<noteq> 0" and w: "msg_sz < 0x10000" "pool_size div (rt_align msg_sz + 8) < 0x10000"
    and p: "unat (pool_size div (rt_align msg_sz + 8)) \<le> length msgpool"
    and d: "\<And>node. node \<in> set msgpool \<Longrightarrow> unat msg_sz \<le> length (msg_data node)"
  shows "wp (rt_mq_init q name msgpool msg_sz pool_size flag k) (\<lambda>(err, k').
     OMsgQueue q \<in> set (object_list k' RT_Object_Class_MessageQueue) \<and>
     (let n = pool_size div (rt_align msg_sz + 8); mq = msgqueues k' q
      in if n = 0 then err = - RT_EINVAL
         else err = RT_EOK \<and> mq_wf {} mq \<and> mq_messages mq = [] \<and> mq_queue_free mq \<noteq> None \<and>
              unat (mq_max_msgs mq) = unat n \<and> unat (mq_msg_size mq) = unat msg_sz \<and>
              tlists k' (MqRecvL q) = [] \<and> tlists k' (MqSendL q) = []))"
proof -
  let ?n = "pool_size div (rt_align msg_sz + 8)"
  have uc: "unat (ucast x :: u16) = unat x" if "x < 0x10000" for x :: u32
    using that by (simp add: unsigned_ucast_eq word_less_nat_alt take_bit_nat_eq_self_iff)
  note n = uc [OF w(2)] and z = uc [OF w(1)]
  have n0: "(ucast ?n :: u16) = 0 \<longleftrightarrow> ?n = 0" using n by (metis unat_eq_zero)
  have info: "rt_object_get_information RT_Object_Class_MessageQueue = Some RT_Object_Class_MessageQueue"
    by (simp add: rt_object_get_information_def object_container_def)
  have fin: "wp (mq_setup msgpool (mq\<lparr>mq_msg_size := ucast msg_sz, mq_max_msgs := ucast ?n\<rparr>))
      (\<lambda>mq'. mq_wf {} mq' \<and> mq_messages mq' = [] \<and> mq_queue_free mq' \<noteq> None \<and> unat (mq_max_msgs mq') = unat ?n \<and>
         unat (mq_msg_size mq') = unat msg_sz)" if "?n \<noteq> 0" for mq
  proof -
    obtain mq' where m: "mq_setup msgpool (mq\<lparr>mq_msg_size := ucast msg_sz, mq_max_msgs := ucast ?n\<rparr>) = Some mq'"
      "mq_rep (rev [0..<unat ?n]) [] {} mq'" "mq_max_msgs mq' = ucast ?n" "mq_msg_size mq' = ucast msg_sz"
      using mq_setup_rep [of "mq\<lparr>mq_msg_size := ucast msg_sz, mq_max_msgs := ucast ?n\<rparr>" msgpool] p d n z by auto
    have "rev [0..<unat ?n] \<noteq> []" using that by (simp add: unat_gt_0)
    then have "mq_queue_free mq' \<noteq> None" using m(2) by (auto simp: mq_rep_def)
    then show ?thesis using m n z mq_repD(2) [OF m(2)] by (auto simp: mq_wf_def)
  qed
  show ?thesis
    unfolding rt_mq_init_def using f a
    by (simp, intro object_init_wp [OF k(1,2) info k(3)])
      (use same_but_schedD(2) [OF sched_onlyD(1)] fin n0 in
        \<open>auto simp: upd_sel ipc_object_init_def tlist_init_def Let_def elim!: wp_mono\<close>)
qed

section \<open>Instances\<close>

definition sample_mq :: kernel where
  "sample_mq = upd_msgqueue 2 (\<lambda>_. sample_msgqueue) sample_block"

lemma sample_mq_fields [simp]:
  "rt_object_get_type (OMsgQueue 2) sample_mq = RT_Object_Class_MessageQueue"
  "rt_current_thread sample_mq = Some 2" "ob_flag (objects sample_mq (OMsgQueue 2)) = RT_IPC_FLAG_FIFO"
  "msgqueues sample_mq 2 = sample_msgqueue" "mq_wf {} sample_msgqueue" "mq_messages sample_msgqueue = []"
  "mq_msg_size sample_msgqueue = 2" "mq_queue_free sample_msgqueue = Some 1"
  using sample_msgqueue_rep mq_repD(2) [OF sample_msgqueue_rep]
  by (auto simp: sample_mq_def upd_sel rt_object_get_type_def sample_type_def zero_object_def mq_wf_def)
    (simp_all add: sample_msgqueue_def)

lemma kok_sample_mq: "kok 8 sample_mq" "may_block 2 sample_mq"
proof -
  show "kok 8 sample_mq" using kok_sample_block by (simp add: sample_mq_def)
  show "may_block 2 sample_mq"
    using may_block_sample
    by (simp add: may_block_def sample_mq_def upd_sel rt_interrupt_get_nest_def tt_wf_def rt_object_get_type_def)
qed

theorem rt_mq_send_correct_witness:
  "wp (mq_send_wait 2 [4, 5, 6] 2 0 RT_UNINTERRUPTIBLE sample_mq) (\<lambda>(out, k'). kok 8 k' \<and> out = Returned RT_EOK \<and>
     mq_messages (msgqueues k' 2) = [[4, 5]])"
  using rt_mq_send_correct [of 7 sample_mq 2 0 2 RT_IPC_FLAG_FIFO "{}" 2 "[4, 5, 6]" RT_UNINTERRUPTIBLE] kok_sample_mq
  by (auto simp: Let_def elim!: wp_mono)

theorem rt_mq_recv_correct_witness:
  "wp (mq_recv 2 8 5 RT_UNINTERRUPTIBLE sample_mq) (\<lambda>(out, k'). kok 8 k' \<and> out = Waiting \<and>
     waits 2 (MqRecvL 2) RT_IPC_FLAG_FIFO 5 sample_mq k')"
  using rt_mq_recv_correct [of 7 sample_mq 2 5 2 RT_IPC_FLAG_FIFO "{}" 8 RT_UNINTERRUPTIBLE] kok_sample_mq
  by (auto elim!: wp_mono)

end
