(* ===== verification/Mutex_Core.thy ===== *)
theory Mutex_Core
  imports Blocking
begin

text \<open>
  Mutexes, the mutex section of \<^verbatim>\<open>src/ipc.c\<close>: definitions, and the machinery of priority
  inheritance. A thread that owns a mutex runs at least at the priority of every thread that waits for it; when
  the owner itself waits for another mutex, \<^verbatim>\<open>_thread_update_priority\<close> passes the priority on
  along the chain of owners.
\<close>

section \<open>Definitions\<close>

abbreviation (input) RT_MUTEX_HOLD_MAX :: u8 where "RT_MUTEX_HOLD_MAX \<equiv> 0xff"

text \<open>The node \<^verbatim>\<open>mutex->taken_list\<close> in the list \<^verbatim>\<open>thread->taken_object_list\<close>.\<close>

definition taken_insert :: "tid \<Rightarrow> mid \<Rightarrow> kernel \<Rightarrow> kernel" where
  "taken_insert t m k = upd_thread t (\<lambda>th. th\<lparr>th_taken_object_list := m # th_taken_object_list th\<rparr>) k"

definition taken_remove :: "mid \<Rightarrow> kernel \<Rightarrow> kernel" where
  "taken_remove m k = k\<lparr>threads := \<lambda>t. (threads k t)\<lparr>th_taken_object_list := removeAll m (th_taken_object_list (threads k t))\<rparr>\<rparr>"

text \<open>The priority of the first waiter, or \<^verbatim>\<open>0xff\<close>.\<close>

definition mutex_update_priority :: "mid \<Rightarrow> kernel \<Rightarrow> kernel" where
  "mutex_update_priority m k =
     (case tlists k (MutexL m) of
        thread # _ \<Rightarrow> upd_mutex m (\<lambda>mtx. mtx\<lparr>mtx_priority := of_nat (rt_sched_thread_get_curr_prio thread k)\<rparr>) k
      | [] \<Rightarrow> upd_mutex m (\<lambda>mtx. mtx\<lparr>mtx_priority := 0xff\<rparr>) k)"

definition thread_get_mutex_priority :: "tid \<Rightarrow> kernel \<Rightarrow> u8" where
  "thread_get_mutex_priority t k =
     foldl (\<lambda>priority m.
        let mtx = mutexes k m;
            mutex_prio = (if mtx_priority mtx < mtx_ceiling_priority mtx then mtx_priority mtx else mtx_ceiling_priority mtx)
        in if priority > mutex_prio then mutex_prio else priority)
      (of_nat (rt_sched_thread_get_init_prio t k)) (th_taken_object_list (threads k t))"

text \<open>The loop of \<^verbatim>\<open>_thread_update_priority\<close>; it ends when the thread is not suspended, does not wait
  for a mutex, or the owner's priority does not change.\<close>

partial_function (option) update_priority_loop :: "tid \<Rightarrow> rt_err_t \<Rightarrow> kernel \<Rightarrow> kernel option" where
  "update_priority_loop thread ret k =
     (if ret = RT_EOK \<and> rt_sched_thread_is_suspended thread k then
        (case th_pending_object (threads k thread) of
           Some pending_mutex \<Rightarrow>
             if rt_object_get_type (OMutex pending_mutex) k = RT_Object_Class_Mutex then do {
               let k = tlist_remove thread k;
               k \<leftarrow> rt_susp_list_enqueue (MutexL pending_mutex) thread (ob_flag (objects k (OMutex pending_mutex))) k;
               let k = mutex_update_priority pending_mutex k;
               owner \<leftarrow> mtx_owner (mutexes k pending_mutex);
               let mutex_priority = thread_get_mutex_priority owner k;
               if mutex_priority \<noteq> of_nat (rt_sched_thread_get_curr_prio owner k) then do {
                 (ret, k) \<leftarrow> rt_sched_thread_change_priority owner (unat mutex_priority) k;
                 update_priority_loop owner ret k
               } else Some k
             } else Some k
         | None \<Rightarrow> Some k)
      else Some k)"

definition thread_update_priority :: "tid \<Rightarrow> u8 \<Rightarrow> kernel \<Rightarrow> kernel option" where
  "thread_update_priority thread priority k = do {
     (ret, k) \<leftarrow> rt_sched_thread_change_priority thread (unat priority) k;
     update_priority_loop thread ret k
   }"

definition check_and_update_prio :: "tid \<Rightarrow> mid \<Rightarrow> kernel \<Rightarrow> (bool \<times> kernel) option" where
  "check_and_update_prio thread m k =
     (if mtx_ceiling_priority (mutexes k m) \<noteq> 0xff \<or> rt_sched_thread_get_curr_prio thread k = unat (mtx_priority (mutexes k m))
      then do {
        (_, k) \<leftarrow> rt_sched_thread_change_priority thread (unat (thread_get_mutex_priority thread k)) k;
        Some (True, k)
      } else Some (False, k))"

definition mutex_before_delete_detach :: "mid \<Rightarrow> kernel \<Rightarrow> kernel option" where
  "mutex_before_delete_detach m k = do {
     let k = rt_spin_lock k;
     k \<leftarrow> rt_susp_list_resume_all (MutexL m) RT_ERROR k;
     let k = taken_remove m k;
     k \<leftarrow> (case mtx_owner (mutexes k m) of
             Some owner \<Rightarrow> do {
               (need_schedule, k) \<leftarrow> check_and_update_prio owner m k;
               if need_schedule then rt_sched_unlock_n_resched k else Some k
             }
           | None \<Rightarrow> Some k);
     rt_spin_unlock k
   }"

definition mutex_reset :: "mid \<Rightarrow> kernel \<Rightarrow> kernel" where
  "mutex_reset m k = upd_object (OMutex m) (\<lambda>ob. ob\<lparr>ob_flag := RT_IPC_FLAG_PRIO\<rparr>)
     (upd_mutex m (\<lambda>mtx. mtx\<lparr>mtx_owner := None, mtx_priority := 0xff, mtx_hold := 0,
        mtx_ceiling_priority := 0xff\<rparr>) (ipc_object_init (MutexL m) k))"

definition rt_mutex_init :: "mid \<Rightarrow> string \<Rightarrow> u8 \<Rightarrow> kernel \<Rightarrow> (rt_err_t \<times> kernel) option" where
  "rt_mutex_init m name flag k = do {
     k \<leftarrow> rt_object_init (OMutex m) RT_Object_Class_Mutex name k;
     Some (RT_EOK, mutex_reset m k)
   }"

definition rt_mutex_detach :: "mid \<Rightarrow> kernel \<Rightarrow> (rt_err_t \<times> kernel) option" where
  "rt_mutex_detach m k = do {
     rt_assert (rt_object_get_type (OMutex m) k = RT_Object_Class_Mutex);
     rt_assert (rt_object_is_systemobject (OMutex m) k);
     k \<leftarrow> mutex_before_delete_detach m k;
     k \<leftarrow> rt_object_detach (OMutex m) k;
     Some (RT_EOK, k)
   }"

definition rt_mutex_create :: "mid option \<Rightarrow> string \<Rightarrow> u8 \<Rightarrow> kernel \<Rightarrow> (mid option \<times> kernel) option" where
  "rt_mutex_create mem name flag k = do {
     rt_assert (debug_not_in_interrupt k);
     (ob, k) \<leftarrow> rt_object_allocate (map_option OMutex mem) RT_Object_Class_Mutex name k;
     case (ob, mem) of
       (Some _, Some m) \<Rightarrow> Some (Some m, mutex_reset m k)
     | _ \<Rightarrow> Some (None, k)
   }"

definition rt_mutex_delete :: "mid \<Rightarrow> kernel \<Rightarrow> (rt_err_t \<times> kernel) option" where
  "rt_mutex_delete m k = do {
     rt_assert (rt_object_get_type (OMutex m) k = RT_Object_Class_Mutex);
     rt_assert (\<not> rt_object_is_systemobject (OMutex m) k);
     rt_assert (debug_not_in_interrupt k);
     k \<leftarrow> mutex_before_delete_detach m k;
     k \<leftarrow> rt_object_delete (OMutex m) k;
     Some (RT_EOK, k)
   }"

text \<open>The waiter \<open>t\<close> has left the queue of \<open>m\<close> without getting the mutex: what
  \<^verbatim>\<open>rt_mutex_drop_thread\<close> and the error path of \<^verbatim>\<open>_rt_mutex_take\<close> both do to the priority of
  the mutex and of its owner.\<close>

definition mutex_drop_update :: "mid \<Rightarrow> tid \<Rightarrow> kernel \<Rightarrow> kernel option" where
  "mutex_drop_update m t k = do {
     let need_update = (case mtx_owner (mutexes k m) of
            Some owner \<Rightarrow> rt_sched_thread_get_curr_prio owner k = rt_sched_thread_get_curr_prio t k | None \<Rightarrow> False);
     let k = mutex_update_priority m k;
     if need_update then do {
       owner \<leftarrow> mtx_owner (mutexes k m);
       let priority = thread_get_mutex_priority owner k;
       if priority \<noteq> of_nat (rt_sched_thread_get_curr_prio owner k) then thread_update_priority owner priority k
       else Some k
     } else Some k
   }"

definition rt_mutex_drop_thread :: "mid \<Rightarrow> tid \<Rightarrow> kernel \<Rightarrow> kernel option" where
  "rt_mutex_drop_thread m thread k = do {
     rt_assert (debug_in_thread_context k);
     let k = rt_spin_lock k;
     rt_assert (th_pending_object (threads k thread) = Some m);
     k \<leftarrow> mutex_drop_update m thread (tlist_remove thread k);
     rt_spin_unlock k
   }"

definition rt_mutex_setprioceiling :: "mid \<Rightarrow> u8 \<Rightarrow> kernel \<Rightarrow> (u8 \<times> kernel) option" where
  "rt_mutex_setprioceiling m priority k = do {
     rt_assert (debug_in_thread_context k);
     if priority < 32 then do {
       let k = rt_spin_lock k;
       let ret_priority = mtx_ceiling_priority (mutexes k m);
       let k = upd_mutex m (\<lambda>mtx. mtx\<lparr>mtx_ceiling_priority := priority\<rparr>) k;
       k \<leftarrow> (case mtx_owner (mutexes k m) of
               Some owner \<Rightarrow>
                 let highest_prio = thread_get_mutex_priority owner k
                 in if highest_prio \<noteq> of_nat (rt_sched_thread_get_curr_prio owner k)
                    then thread_update_priority owner highest_prio k else Some k
             | None \<Rightarrow> Some k);
       k \<leftarrow> rt_spin_unlock k;
       Some (ret_priority, k)
     } else Some (0xff, rt_set_errno (- RT_EINVAL) k)
   }"

definition rt_mutex_getprioceiling :: "mid \<Rightarrow> kernel \<Rightarrow> (u8 \<times> kernel) option" where
  "rt_mutex_getprioceiling m k = do {
     rt_assert (debug_in_thread_context k);
     let k = rt_spin_lock k;
     let prio = mtx_ceiling_priority (mutexes k m);
     k \<leftarrow> rt_spin_unlock k;
     Some (prio, k)
   }"

text \<open>The end of a take that had to wait.\<close>

definition mutex_take_end :: "tid \<Rightarrow> mid \<Rightarrow> kernel \<Rightarrow> (rt_err_t outcome \<times> kernel) option" where
  "mutex_take_end thread m k = do {
     k \<leftarrow> rt_schedule k;
     let k = rt_spin_lock k;
     if th_error (threads k thread) = RT_EOK then do {
       rt_assert (mtx_owner (mutexes k m) = Some thread);
       k \<leftarrow> rt_spin_unlock k;
       Some (Returned RT_EOK, k)
     } else do {
       rt_assert (mtx_owner (mutexes k m) \<noteq> Some thread);
       let ret = th_error (threads k thread);
       k \<leftarrow> mutex_drop_update m thread k;
       k \<leftarrow> rt_spin_unlock k;
       let k = upd_thread thread (\<lambda>th. th\<lparr>th_pending_object := None\<rparr>) k;
       Some (Returned (if ret > 0 then - ret else ret), k)
     }
   }"

text \<open>Raising the priority of a mutex to that of a new waiter, and its owner with it.\<close>

definition mutex_inherit :: "mid \<Rightarrow> tid \<Rightarrow> kernel \<Rightarrow> kernel option" where
  "mutex_inherit m thread k =
     (let priority = of_nat (rt_sched_thread_get_curr_prio thread k)
      in if priority < mtx_priority (mutexes k m) then do {
           let k = upd_mutex m (\<lambda>mtx. mtx\<lparr>mtx_priority := priority\<rparr>) k;
           owner \<leftarrow> mtx_owner (mutexes k m);
           if unat priority < rt_sched_thread_get_curr_prio owner k then thread_update_priority owner priority k
           else Some k
         } else Some k)"

definition mutex_take :: "mid \<Rightarrow> u32 \<Rightarrow> suspend_flag \<Rightarrow> kernel \<Rightarrow> (rt_err_t outcome \<times> kernel) option" where
  "mutex_take m timeout flag k = do {
     rt_assert (debug_scheduler_available k);
     rt_assert (rt_object_get_type (OMutex m) k = RT_Object_Class_Mutex);
     thread \<leftarrow> rt_thread_self k;
     let k = rt_spin_lock k;
     let k = upd_thread thread (\<lambda>th. th\<lparr>th_error := RT_EOK\<rparr>) k;
     if mtx_owner (mutexes k m) = Some thread then
       if mtx_hold (mutexes k m) < RT_MUTEX_HOLD_MAX then do {
         let k = upd_mutex m (\<lambda>mtx. mtx\<lparr>mtx_hold := mtx_hold mtx + 1\<rparr>) k;
         k \<leftarrow> rt_spin_unlock k;
         Some (Returned RT_EOK, k)
       } else do {
         k \<leftarrow> rt_spin_unlock k;
         Some (Returned (- RT_EFULL), k)
       }
     else if mtx_owner (mutexes k m) = None then do {
       let k = upd_mutex m (\<lambda>mtx. mtx\<lparr>mtx_owner := Some thread, mtx_priority := 0xff, mtx_hold := 1\<rparr>) k;
       let ceiling = mtx_ceiling_priority (mutexes k m);
       k \<leftarrow> (if ceiling \<noteq> 0xff \<and> unat ceiling < rt_sched_thread_get_curr_prio thread k
             then thread_update_priority thread ceiling k else Some k);
       k \<leftarrow> rt_spin_unlock (taken_insert thread m k);
       Some (Returned RT_EOK, k)
     } else if timeout = 0 then do {
       let k = upd_thread thread (\<lambda>th. th\<lparr>th_error := RT_ETIMEOUT\<rparr>) k;
       k \<leftarrow> rt_spin_unlock k;
       Some (Returned (- RT_ETIMEOUT), k)
     } else do {
       (ret, k) \<leftarrow> rt_thread_suspend_to_list thread (Some (MutexL m)) (ob_flag (objects k (OMutex m))) flag k;
       if ret \<noteq> RT_EOK then do {
         k \<leftarrow> rt_spin_unlock k;
         Some (Returned ret, k)
       } else do {
         let k = upd_thread thread (\<lambda>th. th\<lparr>th_pending_object := Some m\<rparr>) k;
         k \<leftarrow> mutex_inherit m thread k;
         k \<leftarrow> (if sint timeout > 0 then start_thread_timer thread timeout k else Some k);
         k \<leftarrow> rt_spin_unlock k;
         if rt_current_thread k = Some thread then mutex_take_end thread m k else Some (Waiting, k)
       }
     }
   }"

definition rt_mutex_take :: "mid \<Rightarrow> u32 \<Rightarrow> kernel \<Rightarrow> (rt_err_t outcome \<times> kernel) option" where
  "rt_mutex_take m time k = mutex_take m time RT_UNINTERRUPTIBLE k"

definition rt_mutex_take_interruptible :: "mid \<Rightarrow> u32 \<Rightarrow> kernel \<Rightarrow> (rt_err_t outcome \<times> kernel) option" where
  "rt_mutex_take_interruptible m time k = mutex_take m time RT_INTERRUPTIBLE k"

definition rt_mutex_take_killable :: "mid \<Rightarrow> u32 \<Rightarrow> kernel \<Rightarrow> (rt_err_t outcome \<times> kernel) option" where
  "rt_mutex_take_killable m time k = mutex_take m time RT_KILLABLE k"

definition rt_mutex_trytake :: "mid \<Rightarrow> kernel \<Rightarrow> (rt_err_t outcome \<times> kernel) option" where
  "rt_mutex_trytake m k = rt_mutex_take m RT_WAITING_NO k"

text \<open>The loop of \<^verbatim>\<open>rt_mutex_release\<close> that wakes the first waiter; a waiter whose timer cannot be
  stopped any more is skipped.\<close>

partial_function (option) mutex_wake_loop :: "mid \<Rightarrow> kernel \<Rightarrow> (tid option \<times> kernel) option" where
  "mutex_wake_loop m k =
     (case tlists k (MutexL m) of
        next_thread # _ \<Rightarrow> do {
          rt_assert (rt_sched_thread_is_suspended next_thread k);
          let k = tlist_remove next_thread k;
          (err, k) \<leftarrow> rt_sched_thread_ready next_thread k;
          if err = RT_EOK then Some (Some next_thread, k)
          else if tlists k (MutexL m) \<noteq> [] then mutex_wake_loop m k
          else Some (None, k)
        }
      | [] \<Rightarrow> None)"

definition mutex_clear_owner :: "mid \<Rightarrow> kernel \<Rightarrow> kernel" where
  "mutex_clear_owner m k = upd_mutex m (\<lambda>mtx. mtx\<lparr>mtx_owner := None, mtx_priority := 0xff\<rparr>) k"

definition mutex_hand_over :: "mid \<Rightarrow> tid \<Rightarrow> kernel \<Rightarrow> kernel" where
  "mutex_hand_over m next_thread k =
     (let k = upd_mutex m (\<lambda>mtx. mtx\<lparr>mtx_owner := Some next_thread, mtx_hold := 1\<rparr>) k;
          k = taken_insert next_thread m k;
          k = upd_thread next_thread (\<lambda>th. th\<lparr>th_pending_object := None\<rparr>) k
      in mutex_update_priority m k)"

definition rt_mutex_release :: "mid \<Rightarrow> kernel \<Rightarrow> (rt_err_t \<times> kernel) option" where
  "rt_mutex_release m k = do {
     rt_assert (rt_object_get_type (OMutex m) k = RT_Object_Class_Mutex);
     rt_assert (debug_in_thread_context k);
     thread \<leftarrow> rt_thread_self k;
     let k = rt_spin_lock k;
     if mtx_owner (mutexes k m) \<noteq> Some thread then do {
       let k = upd_thread thread (\<lambda>th. th\<lparr>th_error := - RT_ERROR\<rparr>) k;
       k \<leftarrow> rt_spin_unlock k;
       Some (- RT_ERROR, k)
     } else do {
       let k = upd_mutex m (\<lambda>mtx. mtx\<lparr>mtx_hold := mtx_hold mtx - 1\<rparr>) k;
       (need_schedule, k) \<leftarrow>
         (if mtx_hold (mutexes k m) = 0 then do {
            let k = taken_remove m k;
            (need_schedule, k) \<leftarrow> check_and_update_prio thread m k;
            if tlists k (MutexL m) \<noteq> [] then do {
              (next_thread, k) \<leftarrow> mutex_wake_loop m k;
              case next_thread of
                Some t \<Rightarrow> Some (True, mutex_hand_over m t k)
              | None \<Rightarrow> Some (need_schedule, mutex_clear_owner m k)
            } else Some (need_schedule, mutex_clear_owner m k)
          } else Some (False, k));
       k \<leftarrow> rt_spin_unlock k;
       k \<leftarrow> (if need_schedule then rt_schedule k else Some k);
       Some (RT_EOK, k)
     }
   }"

definition rt_mutex_control :: "mid \<Rightarrow> kernel \<Rightarrow> rt_err_t \<times> kernel" where
  "rt_mutex_control m k = (- RT_EINVAL, k)"

end
