(* ===== verification/Mutex_Inherit.thy ===== *)
theory Mutex_Inherit
  imports Mutex_Core
begin

text \<open>
  Priority inheritance. \<open>minv W U M k\<close> is the invariant of the mutexes other than \<open>M\<close>, with the place of the
  waiters \<open>W\<close>, whose priority has just changed, and the priority of the owners \<open>U\<close> left open. With no
  exceptions it implies that no thread waits for a mutex whose owner has a worse priority. The loop of \<^verbatim>\<open>_thread_update_priority\<close> restores the invariant along the
  chain of owners.
\<close>

section \<open>Changing a priority\<close>

lemma one_list: "kinv k \<Longrightarrow> t \<in> set (tlists k h) \<Longrightarrow> t \<in> set (tlists k h') \<Longrightarrow> h = h'"
  by (simp add: kinv_def kglobal_def lists_ok_def)

definition reprio :: "tid \<Rightarrow> nat \<Rightarrow> kernel \<Rightarrow> kernel \<Rightarrow> bool" where
  "reprio t p k k' \<longleftrightarrow> same_but_sched k k' \<and> rt_current_thread k' = rt_current_thread k \<and>
     (\<forall>h. (\<forall>q. h \<noteq> ReadyL q) \<longrightarrow> tlists k' h = tlists k h) \<and> (\<forall>t'. th_code k' t' = th_code k t') \<and>
     (\<forall>t'. (threads k' t')\<lparr>th_stat := 0\<rparr> =
        (if t' = t then (threads k t)\<lparr>th_current_priority := p, th_number_mask := prio_mask p, th_stat := 0\<rparr>
         else (threads k t')\<lparr>th_stat := 0\<rparr>))"

lemma reprioD:
  assumes r: "reprio t p k k'"
  shows "same_but_sched k k'" "rt_current_thread k' = rt_current_thread k"
    "(\<And>q. h \<noteq> ReadyL q) \<Longrightarrow> tlists k' h = tlists k h" "th_code k' t' = th_code k t'"
    "thread_suspended k' t' = thread_suspended k t'" "th_prio k' t' = (if t' = t then p else th_prio k t')"
    "th_init_priority (threads k' t') = th_init_priority (threads k t')"
    "th_taken_object_list (threads k' t') = th_taken_object_list (threads k t')"
    "th_pending_object (threads k' t') = th_pending_object (threads k t')"
    "th_error (threads k' t') = th_error (threads k t')" "th_ttmr_set (threads k' t') = th_ttmr_set (threads k t')"
    "(threads k' t')\<lparr>th_stat := 0, th_current_priority := 0, th_number_mask := 0\<rparr> =
     (threads k t')\<lparr>th_stat := 0, th_current_priority := 0, th_number_mask := 0\<rparr>"
proof -
  have e: "(threads k' t')\<lparr>th_stat := 0\<rparr> =
        (if t' = t then (threads k t)\<lparr>th_current_priority := p, th_number_mask := prio_mask p, th_stat := 0\<rparr>
         else (threads k t')\<lparr>th_stat := 0\<rparr>)"
    using r by (simp add: reprio_def)
  note f = arg_cong [OF e]
  show c: "th_code k' t' = th_code k t'" using r by (simp add: reprio_def)
  show "thread_suspended k' t' = thread_suspended k t'"
    unfolding thread_suspended_def by (subst (1 2) stat_suspended_iff) (simp add: c)
  show "th_prio k' t' = (if t' = t then p else th_prio k t')" using f [of th_current_priority] by simp
  show "th_init_priority (threads k' t') = th_init_priority (threads k t')" using f [of th_init_priority] by (simp split: if_splits)
  show "th_taken_object_list (threads k' t') = th_taken_object_list (threads k t')"
    using f [of th_taken_object_list] by (simp split: if_splits)
  show "th_pending_object (threads k' t') = th_pending_object (threads k t')" using f [of th_pending_object] by (simp split: if_splits)
  show "th_error (threads k' t') = th_error (threads k t')" using f [of th_error] by (simp split: if_splits)
  show "th_ttmr_set (threads k' t') = th_ttmr_set (threads k t')" using f [of th_ttmr_set] by (simp split: if_splits)
  show "(threads k' t')\<lparr>th_stat := 0, th_current_priority := 0, th_number_mask := 0\<rparr> =
     (threads k t')\<lparr>th_stat := 0, th_current_priority := 0, th_number_mask := 0\<rparr>"
    using f [of "\<lambda>th. th\<lparr>th_stat := 0, th_current_priority := 0, th_number_mask := 0\<rparr>"] by (simp split: if_splits)
qed (use r in \<open>auto simp: reprio_def\<close>)

lemma change_priority_kinv_wp:
  assumes k: "kinv k" and p: "p < 32" and Q: "\<And>k'. kinv k' \<Longrightarrow> reprio t p k k' \<Longrightarrow> Q (0, k')"
  shows "wp (rt_sched_thread_change_priority t p k) Q"
proof -
  have nr: "rt_current_thread k \<noteq> Some t" if "th_code k t = RT_THREAD_READY"
    using k that by (auto simp: kinv_def thread_ok_def)
  have "wp (rt_sched_thread_change_priority t p k) (\<lambda>(e, k'). reprio t p k k')"
  proof (cases "th_code k t = RT_THREAD_READY")
    case True
    have "t \<in> set (tlists k (ReadyL (th_prio k t)))" using k True by (simp add: kinv_def thread_ok_def)
    then have "removeAll t (tlists k h) = tlists k h" if "\<forall>q. h \<noteq> ReadyL q" for h
      using one_list [OF k, of t _ h] that by (metis removeAll_id)
    then show ?thesis
      using p True nr [OF True]
      by (auto simp: rt_sched_thread_change_priority_def reprio_def Let_def upd_defs rt_sched_insert_thread_def
        tlist_insert_after_def tlist_insert_before_def same_but_sched_def rt_sched_remove_thread_def tlist_remove_def)
  next
    case False
    then show ?thesis
      using p by (auto simp: rt_sched_thread_change_priority_def reprio_def Let_def upd_defs same_but_sched_def)
  qed
  then have "wp (rt_sched_thread_change_priority t p k) (\<lambda>(e, k'). e = 0 \<and> kinv k' \<and> reprio t p k k')"
    using change_priority_kinv [OF k p, of t] by (auto simp: wp_def)
  then show ?thesis using Q by (auto elim!: wp_mono)
qed

lemma reprio_kok: "kok n k \<Longrightarrow> kinv k' \<Longrightarrow> reprio t p k k' \<Longrightarrow> kok n k'"
  using same_but_schedD [OF reprioD(1), of t p k k'] reprioD(5,11) [of t p k k']
  by (simp add: kok_def nest_room_def ttmr_ok_def timer_active_def rt_object_get_type_def)

lemma change_priority_wp:
  assumes k: "kok n k" and p: "p < 32" and Q: "\<And>k'. kok n k' \<Longrightarrow> reprio t p k k' \<Longrightarrow> Q (0, k')"
  shows "wp (rt_sched_thread_change_priority t p k) Q"
  by (rule change_priority_kinv_wp [OF kokD(1) [OF k] p]) (use Q reprio_kok [OF k] in blast)

section \<open>The priority of an owner\<close>

definition mutex_prio :: "kernel \<Rightarrow> mid \<Rightarrow> u8" where
  "mutex_prio k m = (if mtx_priority (mutexes k m) < mtx_ceiling_priority (mutexes k m) then mtx_priority (mutexes k m)
     else mtx_ceiling_priority (mutexes k m))"

lemma foldl_min:
  fixes g :: "'a \<Rightarrow> 'b::linorder"
  shows "foldl (\<lambda>p m. if p > g m then g m else p) a ms \<le> a"
    "m \<in> set ms \<Longrightarrow> foldl (\<lambda>p m. if p > g m then g m else p) a ms \<le> g m"
proof (induction ms arbitrary: a)
  case (Cons x xs)
  { case 1 show ?case using Cons(1) [of "if a > g x then g x else a"] by (simp split: if_splits) }
  { case 2
    have "foldl (\<lambda>p m. if p > g m then g m else p) (if a > g x then g x else a) xs \<le> g x"
      by (rule order_trans [OF Cons(1)]) auto
    then show ?case using 2 Cons(2) [of "if a > g x then g x else a"] by auto }
qed auto

lemma get_mutex_priority_le:
  assumes "th_init_priority (threads k t) < 32"
  shows "unat (thread_get_mutex_priority t k) \<le> th_init_priority (threads k t)"
    "m \<in> set (th_taken_object_list (threads k t)) \<Longrightarrow> unat (thread_get_mutex_priority t k) \<le> unat (mtx_priority (mutexes k m))"
proof -
  let ?a = "of_nat (th_init_priority (threads k t)) :: u8"
  have e: "thread_get_mutex_priority t k = foldl (\<lambda>p m. if p > mutex_prio k m then mutex_prio k m else p) ?a (th_taken_object_list (threads k t))"
    by (simp add: thread_get_mutex_priority_def mutex_prio_def rt_sched_thread_get_init_prio_def Let_def cong: if_cong)
  have "unat ?a = th_init_priority (threads k t)" using assms by (simp add: unat_of_nat)
  then show "unat (thread_get_mutex_priority t k) \<le> th_init_priority (threads k t)"
    using foldl_min(1) [of "mutex_prio k" ?a "th_taken_object_list (threads k t)"] by (simp add: e word_le_nat_alt)
  assume "m \<in> set (th_taken_object_list (threads k t))"
  from foldl_min(2) [OF this, of "mutex_prio k" ?a] have "thread_get_mutex_priority t k \<le> mutex_prio k m" by (simp add: e)
  also have "\<dots> \<le> mtx_priority (mutexes k m)" by (auto simp: mutex_prio_def not_less)
  finally show "unat (thread_get_mutex_priority t k) \<le> unat (mtx_priority (mutexes k m))" by (simp add: word_le_nat_alt)
qed

text \<open>The same number as a minimum: the thread's own priority, or that of the most urgent of the mutexes \<open>ms\<close> it holds, each counting
  with its best waiter or its ceiling.\<close>

definition held_prio :: "tid \<Rightarrow> mid set \<Rightarrow> kernel \<Rightarrow> nat" where
  "held_prio t ms k = Min (insert (th_init_priority (threads k t))
     ((\<lambda>m. min (unat (mtx_priority (mutexes k m))) (unat (mtx_ceiling_priority (mutexes k m)))) ` ms))"

lemma foldl_Min:
  fixes g :: "'a \<Rightarrow> 'b::linorder"
  shows "foldl (\<lambda>p m. if p > g m then g m else p) a ms = Min (insert a (g ` set ms))"
proof (induction ms arbitrary: a)
  case (Cons x xs)
  have "(if a > g x then g x else a) = min a (g x)" by (auto simp: min_def)
  then show ?case by (cases "xs = []") (simp_all add: Cons min.assoc)
qed simp

lemma get_mutex_priority_eq:
  assumes "th_init_priority (threads k t) < 32"
  shows "unat (thread_get_mutex_priority t k) = held_prio t (set (th_taken_object_list (threads k t))) k"
proof -
  let ?a = "of_nat (th_init_priority (threads k t)) :: u8" and ?ms = "th_taken_object_list (threads k t)"
  have e: "thread_get_mutex_priority t k = foldl (\<lambda>p m. if p > mutex_prio k m then mutex_prio k m else p) ?a ?ms"
    by (simp add: thread_get_mutex_priority_def mutex_prio_def rt_sched_thread_get_init_prio_def Let_def cong: if_cong)
  have a: "unat ?a = th_init_priority (threads k t)" using assms by (simp add: unat_of_nat)
  have u: "unat (mutex_prio k m) = min (unat (mtx_priority (mutexes k m))) (unat (mtx_ceiling_priority (mutexes k m)))" for m
    by (auto simp: mutex_prio_def min_def word_less_nat_alt)
  have "unat (Min (insert ?a (mutex_prio k ` set ?ms))) = Min (unat ` insert ?a (mutex_prio k ` set ?ms))"
    by (rule mono_Min_commute) (auto simp: mono_def word_le_nat_alt)
  then show ?thesis by (simp add: e foldl_Min held_prio_def a image_image u)
qed

section \<open>The invariant\<close>

definition mutex_ok :: "tid set \<Rightarrow> tid set \<Rightarrow> kernel \<Rightarrow> mid \<Rightarrow> bool" where
  "mutex_ok W U k m \<longleftrightarrow>
     (\<forall>t. mtx_owner (mutexes k m) = Some t \<longleftrightarrow> m \<in> set (th_taken_object_list (threads k t))) \<and>
     (mtx_owner (mutexes k m) \<noteq> None \<longrightarrow> 0 < mtx_hold (mutexes k m) \<and>
        rt_object_get_type (OMutex m) k = RT_Object_Class_Mutex \<and> ob_flag (objects k (OMutex m)) = RT_IPC_FLAG_PRIO) \<and>
     (\<forall>t. mtx_owner (mutexes k m) = Some t \<longrightarrow> (t \<notin> U \<longrightarrow> th_prio k t \<le> unat (mtx_priority (mutexes k m))) \<and>
        th_prio k t < 32 \<and> th_init_priority (threads k t) < 32) \<and>
     (\<forall>w. w \<in> set (tlists k (MutexL m)) \<longrightarrow> mtx_owner (mutexes k m) \<noteq> None \<and> th_pending_object (threads k w) = Some m \<and>
        th_init_priority (threads k w) < 32 \<and> (w \<notin> W \<longrightarrow> unat (mtx_priority (mutexes k m)) \<le> th_prio k w)) \<and>
     sorted (map (th_prio k) (filter (\<lambda>w. w \<notin> W) (tlists k (MutexL m))))"

definition minv :: "tid set \<Rightarrow> tid set \<Rightarrow> mid set \<Rightarrow> kernel \<Rightarrow> bool" where
  "minv W U M k \<longleftrightarrow> (\<forall>m. m \<notin> M \<longrightarrow> mutex_ok W U k m)"

lemma mutex_okD:
  assumes "mutex_ok W U k m"
  shows "mtx_owner (mutexes k m) = Some t \<longleftrightarrow> m \<in> set (th_taken_object_list (threads k t))"
    "mtx_owner (mutexes k m) \<noteq> None \<Longrightarrow> 0 < mtx_hold (mutexes k m)"
    "mtx_owner (mutexes k m) \<noteq> None \<Longrightarrow> rt_object_get_type (OMutex m) k = RT_Object_Class_Mutex"
    "mtx_owner (mutexes k m) \<noteq> None \<Longrightarrow> ob_flag (objects k (OMutex m)) = RT_IPC_FLAG_PRIO"
    "w \<in> set (tlists k (MutexL m)) \<Longrightarrow> mtx_owner (mutexes k m) \<noteq> None"
    "w \<in> set (tlists k (MutexL m)) \<Longrightarrow> th_pending_object (threads k w) = Some m"
    "w \<in> set (tlists k (MutexL m)) \<Longrightarrow> w \<notin> W \<Longrightarrow> unat (mtx_priority (mutexes k m)) \<le> th_prio k w"
    "mtx_owner (mutexes k m) = Some t \<Longrightarrow> t \<notin> U \<Longrightarrow> th_prio k t \<le> unat (mtx_priority (mutexes k m))"
    "mtx_owner (mutexes k m) = Some t \<Longrightarrow> th_prio k t < 32"
    "mtx_owner (mutexes k m) = Some t \<Longrightarrow> th_init_priority (threads k t) < 32"
    "sorted (map (th_prio k) (filter (\<lambda>w. w \<notin> W) (tlists k (MutexL m))))"
    "w \<in> set (tlists k (MutexL m)) \<Longrightarrow> th_init_priority (threads k w) < 32"
  using assms unfolding mutex_ok_def by blast+

lemma mutex_okI:
  assumes "mtx_owner (mutexes k m) = Some r" "\<And>t. m \<in> set (th_taken_object_list (threads k t)) \<longleftrightarrow> t = r"
    "0 < mtx_hold (mutexes k m)" "rt_object_get_type (OMutex m) k = RT_Object_Class_Mutex"
    "ob_flag (objects k (OMutex m)) = RT_IPC_FLAG_PRIO" "th_prio k r < 32" "th_init_priority (threads k r) < 32"
    "r \<notin> U \<Longrightarrow> th_prio k r \<le> unat (mtx_priority (mutexes k m))"
    "\<And>w. w \<in> set (tlists k (MutexL m)) \<Longrightarrow> th_pending_object (threads k w) = Some m"
    "\<And>w. w \<in> set (tlists k (MutexL m)) \<Longrightarrow> w \<notin> W \<Longrightarrow> unat (mtx_priority (mutexes k m)) \<le> th_prio k w"
    "\<And>w. w \<in> set (tlists k (MutexL m)) \<Longrightarrow> th_init_priority (threads k w) < 32"
    "sorted (map (th_prio k) (filter (\<lambda>w. w \<notin> W) (tlists k (MutexL m))))"
  shows "mutex_ok W U k m"
  unfolding mutex_ok_def using assms by auto

lemma mutex_ok_owned:
  assumes "mutex_ok W U k m" and "mtx_owner (mutexes k m) = Some r"
  shows "m \<in> set (th_taken_object_list (threads k t)) \<longleftrightarrow> t = r" "0 < mtx_hold (mutexes k m)"
    "rt_object_get_type (OMutex m) k = RT_Object_Class_Mutex" "ob_flag (objects k (OMutex m)) = RT_IPC_FLAG_PRIO"
    "th_prio k r < 32" "th_init_priority (threads k r) < 32"
  using mutex_okD(1) [OF assms(1), of t] mutex_okD(2-4,9,10) [OF assms(1)] assms(2) by simp_all auto

lemma mutex_ok_open: "mutex_ok W {} k m \<Longrightarrow> mutex_ok W U k m"
  by (auto simp: mutex_ok_def)

lemma mutex_ok_close:
  "mutex_ok W {r} k m \<Longrightarrow> (mtx_owner (mutexes k m) = Some r \<Longrightarrow> th_prio k r \<le> unat (mtx_priority (mutexes k m))) \<Longrightarrow>
   mutex_ok W {} k m"
  unfolding mutex_ok_def by blast

lemma minvD: "minv W U M k \<Longrightarrow> m \<notin> M \<Longrightarrow> mutex_ok W U k m"
  by (simp add: minv_def)

text \<open>The point of it all.\<close>

definition no_inversion :: "kernel \<Rightarrow> bool" where
  "no_inversion k \<longleftrightarrow> (\<forall>m t w. mtx_owner (mutexes k m) = Some t \<and> w \<in> set (tlists k (MutexL m)) \<longrightarrow> th_prio k t \<le> th_prio k w)"

lemma minv_no_inversion: "minv {} {} {} k \<Longrightarrow> no_inversion k"
  unfolding no_inversion_def by (meson mutex_okD(7,8) minvD empty_iff order_trans)

lemma reprio_mutex_ok:
  assumes r: "reprio t p k k'" and ok: "mutex_ok W U k m" and p: "p < 32"
    and o: "mtx_owner (mutexes k m) = Some t \<Longrightarrow> p \<le> unat (mtx_priority (mutexes k m))"
  shows "mutex_ok (insert t W) (U - {t}) k' m"
proof -
  note R = reprioD [OF r] and D = mutex_okD [OF ok]
  note S = same_but_schedD [OF R(1)]
  have l: "tlists k' (MutexL m) = tlists k (MutexL m)" by (simp add: R(3))
  have "map (th_prio k') (filter (\<lambda>w. w \<notin> insert t W) (tlists k (MutexL m))) =
      map (th_prio k) (filter (\<lambda>w. w \<noteq> t) (filter (\<lambda>w. w \<notin> W) (tlists k (MutexL m))))"
    by (simp add: R(6) filter_filter conj_commute cong: map_cong)
  then have "sorted (map (th_prio k') (filter (\<lambda>w. w \<notin> insert t W) (tlists k (MutexL m))))"
    using sorted_filter [OF D(11)] by simp
  then show ?thesis
    unfolding mutex_ok_def using D(1-10,12) o p by (simp add: l R S rt_object_get_type_def)
qed

lemma reprio_minv:
  assumes r: "reprio t p k k'" and i: "minv W U M k" and p: "p < 32"
    and o: "\<And>m. m \<notin> M \<Longrightarrow> mtx_owner (mutexes k m) = Some t \<Longrightarrow> p \<le> unat (mtx_priority (mutexes k m))"
  shows "minv (insert t W) (U - {t}) M k'"
  unfolding minv_def using reprio_mutex_ok [OF r minvD [OF i] p] o by blast

text \<open>Only a suspended thread that waits for a mutex can be out of order as a waiter.\<close>

lemma mutex_ok_not_waiter:
  assumes "mutex_ok (insert t W) U k m" and t: "t \<notin> set (tlists k (MutexL m))"
  shows "mutex_ok W U k m"
proof -
  have "filter (\<lambda>w. w \<notin> insert t W) (tlists k (MutexL m)) = filter (\<lambda>w. w \<notin> W) (tlists k (MutexL m))"
    "\<And>w. w \<in> set (tlists k (MutexL m)) \<Longrightarrow> w \<noteq> t" using t by (auto intro: filter_cong)
  then show ?thesis using assms(1) unfolding mutex_ok_def by auto
qed

lemma minv_not_waiting_kinv:
  assumes k: "kinv k" and i: "minv (insert t W) U M k" and t: "\<not> thread_suspended k t \<or> th_pending_object (threads k t) = None"
  shows "minv W U M k"
proof -
  have "t \<notin> set (tlists k (MutexL m))" if m: "m \<notin> M" for m
    using t susp_memD [OF k, of "MutexL m" t] mutex_okD(6) [OF minvD [OF i m]] by auto
  then show ?thesis using mutex_ok_not_waiter [OF minvD [OF i]] by (simp add: minv_def)
qed

lemmas minv_not_waiting = minv_not_waiting_kinv [OF kokD(1)]

text \<open>What inheritance may change: priorities of threads of \<open>S\<close> and of mutexes, the order of waiters for
  mutexes, and the ready lists.\<close>

definition boosted :: "tid set \<Rightarrow> kernel \<Rightarrow> kernel \<Rightarrow> bool" where
  "boosted S k k' \<longleftrightarrow> same_but_sched (k\<lparr>mutexes := mutexes k'\<rparr>) k' \<and> rt_current_thread k' = rt_current_thread k \<and>
     (\<forall>m. (mutexes k' m)\<lparr>mtx_priority := 0\<rparr> = (mutexes k m)\<lparr>mtx_priority := 0\<rparr>) \<and>
     (\<forall>t. (threads k' t)\<lparr>th_stat := 0, th_current_priority := 0, th_number_mask := 0\<rparr> =
          (threads k t)\<lparr>th_stat := 0, th_current_priority := 0, th_number_mask := 0\<rparr>) \<and>
     (\<forall>t. th_code k' t = th_code k t) \<and> (\<forall>t. t \<notin> S \<longrightarrow> th_prio k' t = th_prio k t) \<and>
     (\<forall>h. (\<forall>q. h \<noteq> ReadyL q) \<longrightarrow> set (tlists k' h) = set (tlists k h) \<and> ((\<forall>m. h \<noteq> MutexL m) \<longrightarrow> tlists k' h = tlists k h))"

lemma boosted_refl [simp]: "boosted S k k"
  by (simp add: boosted_def)

lemma boosted_trans: "boosted S k k' \<Longrightarrow> boosted S k' k'' \<Longrightarrow> boosted S k k''"
  unfolding boosted_def same_but_sched_def by simp

lemma boosted_mono: "boosted S k k' \<Longrightarrow> S \<subseteq> S' \<Longrightarrow> boosted S' k k'"
  unfolding boosted_def by blast

lemma reprio_boosted: "reprio t p k k' \<Longrightarrow> t \<in> S \<Longrightarrow> boosted S k k'"
  using reprioD [of t p k k'] unfolding boosted_def by (auto simp: same_but_sched_def)

lemma boostedD:
  assumes b: "boosted S k k'"
  shows "mtx_owner (mutexes k' m) = mtx_owner (mutexes k m)" "mtx_hold (mutexes k' m) = mtx_hold (mutexes k m)"
    "mtx_ceiling_priority (mutexes k' m) = mtx_ceiling_priority (mutexes k m)"
    "th_pending_object (threads k' t) = th_pending_object (threads k t)"
    "th_taken_object_list (threads k' t) = th_taken_object_list (threads k t)"
    "th_error (threads k' t) = th_error (threads k t)"
    "th_init_priority (threads k' t) = th_init_priority (threads k t)"
    "th_ttmr_set (threads k' t) = th_ttmr_set (threads k t)"
    "thread_suspended k' t = thread_suspended k t" "th_code k' t = th_code k t"
    "t \<notin> S \<Longrightarrow> th_prio k' t = th_prio k t"
    "(\<And>q. h \<noteq> ReadyL q) \<Longrightarrow> set (tlists k' h) = set (tlists k h)"
    "(\<And>q. h \<noteq> ReadyL q) \<Longrightarrow> (\<And>m. h \<noteq> MutexL m) \<Longrightarrow> tlists k' h = tlists k h"
    "rt_current_thread k' = rt_current_thread k" "objects k' = objects k" "rt_scheduler_lock_nest k' = rt_scheduler_lock_nest k"
    "timers k' = timers k" "rt_tick k' = rt_tick k" "rt_interrupt_nest k' = rt_interrupt_nest k"
proof -
  have m: "(mutexes k' m)\<lparr>mtx_priority := 0\<rparr> = (mutexes k m)\<lparr>mtx_priority := 0\<rparr>"
    and t: "(threads k' t)\<lparr>th_stat := 0, th_current_priority := 0, th_number_mask := 0\<rparr> =
          (threads k t)\<lparr>th_stat := 0, th_current_priority := 0, th_number_mask := 0\<rparr>"
    and c: "th_code k' t = th_code k t" using b by (simp_all add: boosted_def)
  show "mtx_owner (mutexes k' m) = mtx_owner (mutexes k m)" using arg_cong [OF m, of mtx_owner] by simp
  show "mtx_hold (mutexes k' m) = mtx_hold (mutexes k m)" using arg_cong [OF m, of mtx_hold] by simp
  show "mtx_ceiling_priority (mutexes k' m) = mtx_ceiling_priority (mutexes k m)" using arg_cong [OF m, of mtx_ceiling_priority] by simp
  show "th_pending_object (threads k' t) = th_pending_object (threads k t)" using arg_cong [OF t, of th_pending_object] by simp
  show "th_taken_object_list (threads k' t) = th_taken_object_list (threads k t)" using arg_cong [OF t, of th_taken_object_list] by simp
  show "th_error (threads k' t) = th_error (threads k t)" using arg_cong [OF t, of th_error] by simp
  show "th_init_priority (threads k' t) = th_init_priority (threads k t)" using arg_cong [OF t, of th_init_priority] by simp
  show "th_ttmr_set (threads k' t) = th_ttmr_set (threads k t)" using arg_cong [OF t, of th_ttmr_set] by simp
  show "th_code k' t = th_code k t" by (fact c)
  show "thread_suspended k' t = thread_suspended k t"
    unfolding thread_suspended_def by (subst (1 2) stat_suspended_iff) (simp add: c)
qed (use b in \<open>auto simp: boosted_def same_but_sched_def\<close>)

lemma boosted_kok: "kok n k \<Longrightarrow> kinv k' \<Longrightarrow> boosted S k k' \<Longrightarrow> kok n k'"
  using boostedD(8,9,15,16) [of S k k']
  by (simp add: kok_def nest_room_def ttmr_ok_def timer_active_def rt_object_get_type_def)

section \<open>The chain of owners\<close>

text \<open>\<open>t\<close> waits for a mutex of the first thread of the list, which waits for a mutex of the second, and so on; the
  last one does not wait for a mutex.\<close>

fun wait_chain :: "kernel \<Rightarrow> tid \<Rightarrow> tid list \<Rightarrow> bool" where
  "wait_chain k t [] \<longleftrightarrow> \<not> thread_suspended k t \<or> th_pending_object (threads k t) = None"
| "wait_chain k t (r # rs) \<longleftrightarrow> thread_suspended k t \<and> wait_chain k r rs \<and>
     (\<exists>m. th_pending_object (threads k t) = Some m \<and> t \<in> set (tlists k (MutexL m)) \<and> mtx_owner (mutexes k m) = Some r)"

lemma wait_chain_cong:
  assumes "\<And>t'. t' \<in> set (t # ts) \<Longrightarrow> thread_suspended k' t' = thread_suspended k t' \<and>
      th_pending_object (threads k' t') = th_pending_object (threads k t')"
    and "\<And>t' m. t' \<in> set (t # ts) \<Longrightarrow> t' \<in> set (tlists k (MutexL m)) \<Longrightarrow> t' \<in> set (tlists k' (MutexL m))"
    and "\<And>m. mtx_owner (mutexes k' m) = mtx_owner (mutexes k m)" and "wait_chain k t ts"
  shows "wait_chain k' t ts"
  using assms by (induction ts arbitrary: t) auto

lemma boosted_wait_chain: "boosted S k k' \<Longrightarrow> wait_chain k t ts \<Longrightarrow> wait_chain k' t ts"
  by (rule wait_chain_cong) (simp_all add: boostedD)

text \<open>A chain does not lead back to where it starts.\<close>

lemma wait_chain_unique: "wait_chain k t ts \<Longrightarrow> wait_chain k t ts' \<Longrightarrow> ts' = ts"
proof (induction ts arbitrary: t ts')
  case Nil
  then show ?case by (cases ts') auto
next
  case (Cons r rs)
  then show ?case by (cases ts') auto
qed

lemma wait_chain_suffix: "wait_chain k t (xs @ r # rs) \<Longrightarrow> wait_chain k r rs"
  by (induction xs arbitrary: t) auto

lemma wait_chain_acyclic: "wait_chain k t ts \<Longrightarrow> t \<notin> set ts"
proof
  assume c: "wait_chain k t ts" "t \<in> set ts"
  then obtain xs ys where "ts = xs @ t # ys" by (auto simp: in_set_conv_decomp)
  then show False using wait_chain_unique [OF c(1) wait_chain_suffix [of k t xs t ys]] c(1) by simp
qed

text \<open>Mutexes that none of the threads \<open>S\<close> owns are left alone.\<close>

definition untouched :: "tid set \<Rightarrow> kernel \<Rightarrow> kernel \<Rightarrow> bool" where
  "untouched S k k' \<longleftrightarrow> (\<forall>m. (\<forall>r \<in> S. mtx_owner (mutexes k m) \<noteq> Some r) \<longrightarrow>
     mutexes k' m = mutexes k m \<and> tlists k' (MutexL m) = tlists k (MutexL m))"

lemma untouched_refl [simp]: "untouched S k k"
  by (simp add: untouched_def)

lemma untouched_trans: "boosted A k k' \<Longrightarrow> untouched S k k' \<Longrightarrow> untouched S k' k'' \<Longrightarrow> untouched S k k''"
  by (simp add: untouched_def boostedD(1))

lemma reprio_untouched: "reprio t p k k' \<Longrightarrow> untouched S k k'"
  using reprioD(3) [of t p k k'] same_but_schedD(5) [OF reprioD(1), of t p k k'] by (auto simp: untouched_def)

section \<open>One step along the chain\<close>

definition head_prio :: "mid \<Rightarrow> kernel \<Rightarrow> u8" where
  "head_prio m k = (case tlists k (MutexL m) of [] \<Rightarrow> 0xff | w # _ \<Rightarrow> of_nat (th_prio k w))"

lemma mutex_update_eq: "mutex_update_priority m k = upd_mutex m (\<lambda>mtx. mtx\<lparr>mtx_priority := head_prio m k\<rparr>) k"
  by (simp add: mutex_update_priority_def head_prio_def rt_sched_thread_get_curr_prio_def split: list.split)

lemma waiter_prio: "kinv k \<Longrightarrow> w \<in> set (tlists k (MutexL m)) \<Longrightarrow> th_prio k w < 32"
proof -
  assume k: "kinv k" and w: "w \<in> set (tlists k (MutexL m))"
  have "th_code k w \<noteq> 0 \<and> th_code k w \<noteq> 1"
    using susp_memD [OF k _ w] stat_not_suspended_code [of "th_stat (threads k w)"] by (auto simp: thread_suspended_def)
  then show ?thesis using k by (auto simp: kinv_def thread_ok_def)
qed

lemma head_prio_bounds:
  assumes k: "kinv k" and s: "sorted (map (th_prio k) (tlists k (MutexL m)))"
  shows "w \<in> set (tlists k (MutexL m)) \<Longrightarrow> unat (head_prio m k) \<le> th_prio k w"
    "(\<And>w. w \<in> set (tlists k (MutexL m)) \<Longrightarrow> p \<le> th_prio k w) \<Longrightarrow> p < 256 \<Longrightarrow> p \<le> unat (head_prio m k)"
proof -
  have u: "unat (of_nat (th_prio k w) :: u8) = th_prio k w" if "w \<in> set (tlists k (MutexL m))" for w
    using waiter_prio [OF k that] by (simp add: unat_of_nat)
  show "unat (head_prio m k) \<le> th_prio k w" if "w \<in> set (tlists k (MutexL m))"
    using that s u by (auto simp: head_prio_def split: list.splits)
  show "p \<le> unat (head_prio m k)" if "\<And>w. w \<in> set (tlists k (MutexL m)) \<Longrightarrow> p \<le> th_prio k w" "p < 256"
    using that u by (auto simp: head_prio_def split: list.splits)
qed

definition requeued :: "mid \<Rightarrow> tid \<Rightarrow> kernel \<Rightarrow> kernel" where
  "requeued m t k = mutex_update_priority m
     (k\<lparr>tlists := (tlists k)(MutexL m := susp_insert (th_prio k) t (removeAll t (tlists k (MutexL m))))\<rparr>)"

lemma requeue_wp:
  assumes k: "kinv k" and t: "t \<in> set (tlists k (MutexL m))" and f: "ob_flag (objects k (OMutex m)) = RT_IPC_FLAG_PRIO"
    and Q: "kinv (requeued m t k) \<Longrightarrow> Q (requeued m t k)"
  shows "wp (rt_susp_list_enqueue (MutexL m) t (ob_flag (objects (tlist_remove t k) (OMutex m))) (tlist_remove t k))
     (\<lambda>k1. Q (mutex_update_priority m k1))"
proof -
  let ?l = "susp_insert (th_prio k) t (removeAll t (tlists k (MutexL m)))"
  let ?k = "k\<lparr>tlists := (tlists k)(MutexL m := ?l)\<rparr>"
  note K = k
  have s: "thread_suspended k t" using susp_memD [OF K _ t] by simp
  have T: "thread_ok k t'" for t' using K by (simp add: kinv_def)
  have c: "th_code k t \<noteq> 0" "th_code k t \<noteq> 1" "th_code k t \<noteq> 2" "th_code k t \<noteq> 3"
    using s stat_not_suspended_code [of "th_stat (threads k t)"] by (auto simp: thread_suspended_def)
  have b: "kinv_but t (tlist_remove t k)"
    using K T c by (intro tlist_remove_kinv_but) (auto simp: kinv_def thread_ok_def)
  have o: "removeAll t (tlists k h) = tlists k h" if "h \<noteq> MutexL m" for h
    using one_list [OF K t, of h] that removeAll_id by metis
  have "(\<lambda>h. removeAll t (tlists k h))(MutexL m := ?l) = (tlists k)(MutexL m := ?l)" using o by auto
  then have eq: "(tlist_remove t k)\<lparr>tlists := (tlists (tlist_remove t k))(MutexL m := ?l)\<rparr> = ?k"
    by (simp add: tlist_remove_def)
  have "wp (rt_susp_list_enqueue (MutexL m) t (ob_flag (objects (tlist_remove t k) (OMutex m))) (tlist_remove t k))
      (\<lambda>k'. kinv k' \<and> k' = ?k)"
    using enqueue_kinv [OF b, of "MutexL m" RT_IPC_FLAG_PRIO] f s T [of t] c eq
    by (auto simp: tlist_remove_def thread_suspended_def thread_ok_def elim!: wp_mono)
  moreover have "kinv (requeued m t k)" if "kinv ?k"
    using that unfolding requeued_def mutex_update_eq by (subst kinv_cong) (auto simp: upd_defs sched_view_def)
  ultimately show ?thesis using Q unfolding requeued_def by (auto elim!: wp_mono)
qed

lemma requeued_minv:
  assumes k: "kinv k" and i: "minv {t} {} {} k" and t: "t \<in> set (tlists k (MutexL m))"
    and o: "mtx_owner (mutexes k m) = Some r" and k': "kinv (requeued m t k)"
  shows "minv {} {r} {} (requeued m t k)"
proof -
  let ?l = "tlists k (MutexL m)" and ?k' = "requeued m t k"
  let ?k = "k\<lparr>tlists := (tlists k)(MutexL m := susp_insert (th_prio k) t (removeAll t ?l))\<rparr>"
  have K: "kinv ?k"
    using k' unfolding requeued_def mutex_update_eq by (subst (asm) kinv_cong) (auto simp: upd_defs sched_view_def)
  have st: "set (tlists ?k (MutexL m)) = set ?l" using t by auto
  have f: "threads ?k' = threads k" "tlists ?k' = tlists ?k" "objects ?k' = objects k"
    "mutexes ?k' m' = (if m' = m then (mutexes k m)\<lparr>mtx_priority := head_prio m ?k\<rparr> else mutexes k m')" for m'
    by (simp_all add: requeued_def mutex_update_eq upd_defs)
  have D: "mutex_ok {t} {} k m'" for m' using minvD [OF i] by simp
  have "sorted (map (th_prio k) (removeAll t ?l))"
    using mutex_okD(11) [OF D [of m]] by (simp add: removeAll_filter_not_eq eq_commute)
  then have s: "sorted (map (th_prio ?k) (tlists ?k (MutexL m)))" using susp_insert_sorted by simp
  have "mutex_ok {} {r} ?k' m'" for m'
  proof (cases "m' = m")
    case True
    have "unat (head_prio m ?k) \<le> th_prio k w" if "w \<in> set ?l" for w
      using head_prio_bounds(1) [OF K s] that st by auto
    then show ?thesis
      using True o s st mutex_ok_owned [OF D o] mutex_okD(6,12) [OF D]
      by (intro mutex_okI [where r = r]) (auto simp: f rt_object_get_type_def)
  next
    case False
    have "t \<notin> set (tlists k (MutexL m'))"
      using one_list [OF k t] False by auto
    from mutex_ok_not_waiter [OF D this] show ?thesis
      using False unfolding mutex_ok_def rt_object_get_type_def f by auto
  qed
  then show ?thesis by (simp add: minv_def)
qed

section \<open>The loop\<close>

lemma requeued_boosted:
  assumes "t \<in> set (tlists k (MutexL m))"
  shows "boosted S k (requeued m t k)"
  using assms by (auto simp: boosted_def requeued_def mutex_update_eq upd_defs same_but_sched_def)

lemma requeued_untouched: "mtx_owner (mutexes k m) = Some r \<Longrightarrow> r \<in> S \<Longrightarrow> untouched S k (requeued m t k)"
  by (auto simp: untouched_def requeued_def mutex_update_eq upd_defs)

lemma owner_prio_wp:
  assumes k: "kinv k" and i: "minv {} {r} {} k" and o: "mtx_owner (mutexes k m) = Some r"
    and Q0: "minv {} {} {} k \<Longrightarrow> Q k"
    and Q1: "\<And>k'. kinv k' \<Longrightarrow> reprio r (unat (thread_get_mutex_priority r k)) k k' \<Longrightarrow> minv {r} {} {} k' \<Longrightarrow>
        wp (update_priority_loop r 0 k') Q"
  shows "wp (if thread_get_mutex_priority r k \<noteq> of_nat (rt_sched_thread_get_curr_prio r k) then do {
                 (ret, k) \<leftarrow> rt_sched_thread_change_priority r (unat (thread_get_mutex_priority r k)) k;
                 update_priority_loop r ret k
               } else Some k) Q"
proof -
  let ?p = "thread_get_mutex_priority r k"
  have D: "mutex_ok {} {r} k m" for m using minvD [OF i] by simp
  have ip: "th_init_priority (threads k r) < 32" "th_prio k r < 32" using mutex_okD(9,10) [OF D] o by auto
  have le: "unat ?p \<le> unat (mtx_priority (mutexes k m'))" if "mtx_owner (mutexes k m') = Some r" for m'
    using get_mutex_priority_le(2) [OF ip(1)] mutex_okD(1) [OF D] that by blast
  have p: "unat ?p < 32" using get_mutex_priority_le(1) [OF ip(1)] ip(1) by simp
  show ?thesis
  proof (cases "?p = of_nat (th_prio k r)")
    case True
    then have "unat ?p = th_prio k r" using ip(2) by (simp add: unat_of_nat)
    then have "mutex_ok {} {} k m'" for m' using mutex_ok_close [OF D] le [of m'] by simp
    then show ?thesis using True Q0 by (simp add: minv_def rt_sched_thread_get_curr_prio_def)
  next
    case False
    have "wp (rt_sched_thread_change_priority r (unat ?p) k) (\<lambda>(ret, k). wp (update_priority_loop r ret k) Q)"
    proof (rule change_priority_kinv_wp [OF k p])
      fix k' assume k': "kinv k'" "reprio r (unat ?p) k k'"
      have "minv {r} {} {} k'" using reprio_minv [OF k'(2) i p] le by simp
      then show "case (0, k') of (ret, k) \<Rightarrow> wp (update_priority_loop r ret k) Q" using Q1 [OF k'] by simp
    qed
    then show ?thesis using False by (simp add: rt_sched_thread_get_curr_prio_def case_prod_unfold)
  qed
qed

lemma update_loop_wp:
  assumes "kinv k" and "minv {t} {} {} k" and "wait_chain k t ts" and "set ts \<subseteq> S"
    and Q: "\<And>k'. kinv k' \<Longrightarrow> minv {} {} {} k' \<Longrightarrow> boosted S k k' \<Longrightarrow> untouched S k k' \<Longrightarrow> Q k'"
  shows "wp (update_priority_loop t 0 k) Q"
  using assms
proof (induction ts arbitrary: t k)
  case Nil
  have "minv {} {} {} k" using minv_not_waiting_kinv [OF Nil(1,2)] Nil(3) by simp
  then have "Q k" using Nil by simp
  then show ?case
    using Nil(3) by (subst update_priority_loop.simps) (auto simp: rt_sched_thread_is_suspended_def thread_suspended_def split: option.split)
next
  case (Cons r ts)
  from Cons.prems(3) obtain m where m: "thread_suspended k t" "th_pending_object (threads k t) = Some m"
    "t \<in> set (tlists k (MutexL m))" "mtx_owner (mutexes k m) = Some r" by auto
  let ?k = "requeued m t k"
  have D: "mutex_ok {t} {} k m" using minvD [OF Cons.prems(2)] by simp
  have B: "boosted S k ?k" by (rule requeued_boosted [OF m(3)])
  have N: "untouched S k ?k" using requeued_untouched [OF m(4)] Cons.prems(4) by simp
  have "wp (rt_susp_list_enqueue (MutexL m) t (ob_flag (objects (tlist_remove t k) (OMutex m))) (tlist_remove t k))
     (\<lambda>k1. (\<lambda>k. wp (do { owner \<leftarrow> mtx_owner (mutexes k m);
        let mutex_priority = thread_get_mutex_priority owner k;
        if mutex_priority \<noteq> of_nat (rt_sched_thread_get_curr_prio owner k) then do {
          (ret, k) \<leftarrow> rt_sched_thread_change_priority owner (unat mutex_priority) k;
          update_priority_loop owner ret k
        } else Some k }) Q) (mutex_update_priority m k1))"
  proof (rule requeue_wp [OF Cons.prems(1) m(3)], goal_cases)
    case 1 show ?case using mutex_okD(4) [OF D] m(4) by simp
  next
    case 2
    have o: "mtx_owner (mutexes ?k m) = Some r" using m(4) boostedD(1) [OF B] by simp
    have "wp (if thread_get_mutex_priority r ?k \<noteq> of_nat (rt_sched_thread_get_curr_prio r ?k) then do {
                 (ret, k) \<leftarrow> rt_sched_thread_change_priority r (unat (thread_get_mutex_priority r ?k)) ?k;
                 update_priority_loop r ret k
               } else Some ?k) Q"
    proof (rule owner_prio_wp [OF 2 requeued_minv [OF Cons.prems(1,2) m(3,4) 2] o])
      assume "minv {} {} {} ?k"
      then show "Q ?k" using Cons.prems(5) 2 B N by simp
    next
      fix k' assume k': "kinv k'" "reprio r (unat (thread_get_mutex_priority r ?k)) ?k k'" "minv {r} {} {} k'"
      have B': "boosted S k k'"
        using boosted_trans [OF B reprio_boosted [OF k'(2)]] Cons.prems(4) by simp
      have N': "untouched S k k'" by (rule untouched_trans [OF B N reprio_untouched [OF k'(2)]])
      show "wp (update_priority_loop r 0 k') Q"
      proof (rule Cons.IH [OF k'(1,3)])
        show "wait_chain k' r ts" using boosted_wait_chain [OF B'] Cons.prems(3) by simp
        show "Q k''" if "kinv k''" "minv {} {} {} k''" "boosted S k' k''" "untouched S k' k''" for k''
          using Cons.prems(5) that boosted_trans [OF B'] untouched_trans [OF B' N'] by blast
      qed (use Cons.prems(4) in simp)
    qed
    then show ?case using o by simp
  qed
  then show ?case
    using m mutex_okD(3) [OF D]
    by (subst update_priority_loop.simps)
       (simp add: rt_sched_thread_is_suspended_def thread_suspended_def)
qed

text \<open>The same from the call on.\<close>

lemma update_priority_kinv_wp:
  assumes k: "kinv k" and i: "minv {} {r} {} k" and p: "unat p < 32" and c: "wait_chain k r ts"
    and le: "\<And>m. mtx_owner (mutexes k m) = Some r \<Longrightarrow> unat p \<le> unat (mtx_priority (mutexes k m))"
    and Q: "\<And>k'. kinv k' \<Longrightarrow> minv {} {} {} k' \<Longrightarrow> boosted (set (r # ts)) k k' \<Longrightarrow>
       th_prio k' r = unat p \<Longrightarrow> untouched (set ts) k k' \<Longrightarrow> Q k'"
  shows "wp (thread_update_priority r p k) Q"
proof -
  have "wp (rt_sched_thread_change_priority r (unat p) k) (\<lambda>(ret, k). wp (update_priority_loop r ret k) Q)"
  proof (rule change_priority_kinv_wp [OF k p])
    fix k1 assume k1: "kinv k1" "reprio r (unat p) k k1"
    have b: "boosted (set (r # ts)) k k1" by (rule reprio_boosted [OF k1(2)]) simp
    have c1: "wait_chain k1 r ts" by (rule boosted_wait_chain [OF b c])
    have "minv {r} {} {} k1" using reprio_minv [OF k1(2) i p] le by simp
    then have "wp (update_priority_loop r 0 k1) Q"
    proof (rule update_loop_wp [OF k1(1) _ c1 order_refl])
      fix k' assume k': "kinv k'" "minv {} {} {} k'" "boosted (set ts) k1 k'" "untouched (set ts) k1 k'"
      show "Q k'"
      proof (rule Q [OF k'(1,2)])
        show "boosted (set (r # ts)) k k'" using boosted_trans [OF b boosted_mono [OF k'(3)]] by auto
        show "th_prio k' r = unat p" using boostedD(11) [OF k'(3) wait_chain_acyclic [OF c1]] reprioD(6) [OF k1(2), of r] by simp
        show "untouched (set ts) k k'" by (rule untouched_trans [OF b reprio_untouched [OF k1(2)] k'(4)])
      qed
    qed
    then show "case (0, k1) of (ret, k) \<Rightarrow> wp (update_priority_loop r ret k) Q" by simp
  qed
  then show ?thesis by (simp add: thread_update_priority_def case_prod_unfold)
qed

lemma update_priority_wp:
  assumes k: "kok n k" and i: "minv {} {r} {} k" and p: "unat p < 32" and c: "wait_chain k r ts"
    and le: "\<And>m. mtx_owner (mutexes k m) = Some r \<Longrightarrow> unat p \<le> unat (mtx_priority (mutexes k m))"
    and Q: "\<And>k'. kok n k' \<Longrightarrow> minv {} {} {} k' \<Longrightarrow> boosted (set (r # ts)) k k' \<Longrightarrow> Q k'"
  shows "wp (thread_update_priority r p k) Q"
  by (rule update_priority_kinv_wp [OF kokD(1) [OF k] i p c le]) (use Q boosted_kok [OF k] in blast)+

section \<open>Inheriting\<close>

lemma mutex_ok_cong:
  assumes "mutexes k' m = mutexes k m" "tlists k' (MutexL m) = tlists k (MutexL m)"
    "objects k' (OMutex m) = objects k (OMutex m)" "\<And>t. th_prio k' t = th_prio k t"
    "\<And>t. m \<in> set (th_taken_object_list (threads k' t)) \<longleftrightarrow> m \<in> set (th_taken_object_list (threads k t))"
    "\<And>t. th_init_priority (threads k' t) = th_init_priority (threads k t)"
    "\<And>w. w \<in> set (tlists k (MutexL m)) \<Longrightarrow> th_pending_object (threads k' w) = th_pending_object (threads k w)"
  shows "mutex_ok W U k' m = mutex_ok W U k m"
  using assms unfolding mutex_ok_def rt_object_get_type_def by (simp cong: conj_cong)

text \<open>\<open>t\<close> has just been queued for \<open>m\<close>, which \<open>r\<close> owns.\<close>

lemma mutex_inherit_wp:
  assumes k: "kok n k" and i: "minv {t} {} {} k" and t: "t \<in> set (tlists k (MutexL m))"
    and s: "sorted (map (th_prio k) (tlists k (MutexL m)))" and o: "mtx_owner (mutexes k m) = Some r"
    and c: "wait_chain k r ts"
    and Q: "\<And>k'. kok n k' \<Longrightarrow> minv {} {} {} k' \<Longrightarrow> boosted (set (r # ts)) k k' \<Longrightarrow> Q k'"
  shows "wp (mutex_inherit m t k) Q"
proof -
  let ?p = "of_nat (th_prio k t) :: u8"
  let ?k = "upd_mutex m (\<lambda>mtx. mtx\<lparr>mtx_priority := ?p\<rparr>) k"
  have u: "unat ?p = th_prio k t" "th_prio k t < 32"
    using waiter_prio [OF kokD(1) [OF k] t] by (simp_all add: unat_of_nat)
  have D: "mutex_ok {t} {} k m'" for m' using minvD [OF i] by simp
  have other: "mutex_ok {} {} k m'" if "m' \<noteq> m" for m'
    using mutex_ok_not_waiter [of t "{}" "{}" k m'] D [of m'] one_list [OF kokD(1) [OF k] t, of "MutexL m'"] that by auto
  show ?thesis
  proof (cases "?p < mtx_priority (mutexes k m)")
    case False
    then have "unat (mtx_priority (mutexes k m)) \<le> th_prio k t" using u by (simp add: word_less_nat_alt)
    then have "mutex_ok {} {} k m" using D [of m] s unfolding mutex_ok_def by auto
    then have "minv {} {} {} k" using other unfolding minv_def by metis
    then show ?thesis using False Q [OF k] by (simp add: mutex_inherit_def Let_def rt_sched_thread_get_curr_prio_def)
  next
    case True
    have b: "boosted (set (r # ts)) k ?k" by (auto simp: boosted_def upd_defs same_but_sched_def)
    have kk: "kok n ?k" using k by simp
    have ok: "mutex_ok {} {} ?k m'" if "m' \<noteq> m" for m'
      using other [OF that] that by (subst mutex_ok_cong [of _ _ k]) (simp_all add: upd_defs)
    have le: "th_prio k t \<le> th_prio k w" if "w \<in> set (tlists k (MutexL m))" for w
      using mutex_okD(7) [OF D that] True u by (cases "w = t") (auto simp: word_less_nat_alt)
    then have okm: "mutex_ok {} {r} ?k m"
      using mutex_ok_owned [OF D o] mutex_okD(6,12) [OF D] s o u(1)
      by (intro mutex_okI [where r = r]) (auto simp: upd_defs rt_object_get_type_def)
    show ?thesis
    proof (cases "th_prio k t < th_prio k r")
      case True
      have "minv {} {r} {} ?k" using ok okm mutex_ok_open unfolding minv_def by metis
      then have "wp (thread_update_priority r ?p ?k) Q"
      proof (rule update_priority_wp [OF kk])
        show "wait_chain ?k r ts" by (rule boosted_wait_chain [OF b c])
        show "unat ?p \<le> unat (mtx_priority (mutexes ?k m'))" if "mtx_owner (mutexes ?k m') = Some r" for m'
          using that True mutex_okD(8) [OF D [of m'], of r] u by (auto simp: upd_defs split: if_splits)
        show "Q k'" if "kok n k'" "minv {} {} {} k'" "boosted (set (r # ts)) ?k k'" for k'
          using Q that boosted_trans [OF b] by blast
      qed (use u in simp)
      then show ?thesis
        using True \<open>?p < _\<close> u o by (simp add: mutex_inherit_def Let_def rt_sched_thread_get_curr_prio_def upd_defs)
    next
      case False
      then have "mutex_ok {} {} ?k m" using mutex_ok_close [OF okm] u by (simp add: upd_defs)
      then have "minv {} {} {} ?k" using ok unfolding minv_def by metis
      then have "Q ?k" using Q [OF kk] b by simp
      then show ?thesis
        using False \<open>?p < _\<close> u o by (simp add: mutex_inherit_def Let_def rt_sched_thread_get_curr_prio_def upd_defs)
    qed
  qed
qed

end
