(* ===== verification/Mutex.thy ===== *)
theory Mutex
  imports Mutex_Inherit Wait_Loop
begin

text \<open>
  The correctness of the mutex: taking, releasing and the end of a wait keep the invariant \<open>minv\<close>, and with it the
  absence of priority inversion.
\<close>

section \<open>Frames\<close>

lemma minv_cong:
  assumes "\<And>m. mutexes k' m = mutexes k m" "\<And>m. tlists k' (MutexL m) = tlists k (MutexL m)"
    "\<And>m. objects k' (OMutex m) = objects k (OMutex m)" "\<And>t. th_prio k' t = th_prio k t"
    "\<And>t. th_taken_object_list (threads k' t) = th_taken_object_list (threads k t)"
    "\<And>t. th_init_priority (threads k' t) = th_init_priority (threads k t)"
    "\<And>t. th_pending_object (threads k' t) = th_pending_object (threads k t)"
  shows "minv W U M k' = minv W U M k"
proof -
  have "mutex_ok W U k' m = mutex_ok W U k m" for m by (rule mutex_ok_cong) (simp_all add: assms)
  then show ?thesis by (simp add: minv_def)
qed

lemma minv_sched_only: "sched_only k k' \<Longrightarrow> minv W U M k' = minv W U M k"
  using sched_onlyD [of k k'] same_but_schedD [OF sched_onlyD(1), of k k'] by (intro minv_cong) simp_all

lemma minv_enter [simp]: "minv W U M (rt_enter_critical k) = minv W U M k"
  by (rule minv_cong) simp_all

lemma minv_nest [simp]: "minv W U M (k\<lparr>rt_scheduler_lock_nest := n\<rparr>) = minv W U M k"
  by (rule minv_cong) simp_all

lemma minv_error [simp]: "minv W U M (upd_thread t (\<lambda>th. th\<lparr>th_error := e\<rparr>) k) = minv W U M k"
  by (rule minv_cong) (simp_all add: upd_defs)

lemma minv_timer_started: "tt_wf k t \<Longrightarrow> minv W U M (timer_started t timeout k) = minv W U M k"
  using timer_started_fields [where k = k and t = t and timeout = timeout] by (intro minv_cong) (simp_all add: same_ipc_def)

lemma kok_set_pending [simp]: "kok n (upd_thread t (\<lambda>th. th\<lparr>th_pending_object := x\<rparr>) k) = kok n k"
  by (rule kok_upd_thread) (simp_all add: thread_view_def)

lemma blocked_threads:
  assumes "blocked t b l k k'"
  shows "th_prio k' t' = th_prio k t'" "th_init_priority (threads k' t') = th_init_priority (threads k t')"
    "th_taken_object_list (threads k' t') = th_taken_object_list (threads k t')"
    "th_pending_object (threads k' t') = th_pending_object (threads k t')"
    "mutexes k' = mutexes k" "objects k' (OMutex m) = objects k (OMutex m)"
proof -
  have e: "(threads k' t')\<lparr>th_stat := 0\<rparr> =
        (if t' = t then (threads k t)\<lparr>th_ttmr_set := b, th_stat := 0\<rparr> else (threads k t')\<lparr>th_stat := 0\<rparr>)"
    using assms by (simp add: blocked_def)
  note f = arg_cong [OF e]
  show "th_prio k' t' = th_prio k t'" using f [of th_current_priority] by (simp split: if_splits)
  show "th_init_priority (threads k' t') = th_init_priority (threads k t')" using f [of th_init_priority] by (simp split: if_splits)
  show "th_taken_object_list (threads k' t') = th_taken_object_list (threads k t')"
    using f [of th_taken_object_list] by (simp split: if_splits)
  show "th_pending_object (threads k' t') = th_pending_object (threads k t')" using f [of th_pending_object] by (simp split: if_splits)
qed (use assms in \<open>auto simp: blocked_def same_ipc_def\<close>)

lemma exit_outer_wp:
  assumes k: "kok (Suc n) k" and k2: "kok n k2" "rt_scheduler_lock_nest k2 = rt_scheduler_lock_nest k + 1"
    and Q: "\<And>k'. kok (Suc n) k' \<Longrightarrow> sched_only (k2\<lparr>rt_scheduler_lock_nest := rt_scheduler_lock_nest k\<rparr>) k' \<Longrightarrow> Q k'"
  shows "wp (rt_exit_critical k2) Q"
  using leave_wp [OF k k2, of False Q] Q by simp

section \<open>Waiting\<close>

text \<open>The running thread \<open>t\<close> has been queued for \<open>m\<close>, which \<open>r\<close> owns.\<close>

lemma queued_minv:
  assumes k: "kok n k" and i: "minv {} {} {} k" and o: "mtx_owner (mutexes k m) = Some r" and r: "\<not> thread_suspended k t"
    and ip: "th_init_priority (threads k t) < 32"
    and b: "blocked t False (queued (Some (MutexL m)) RT_IPC_FLAG_PRIO t k) k k1"
  defines "k2 \<equiv> upd_thread t (\<lambda>th. th\<lparr>th_pending_object := Some m\<rparr>) k1"
  shows "minv {t} {} {} k2" "sorted (map (th_prio k2) (tlists k2 (MutexL m)))" "t \<in> set (tlists k2 (MutexL m))"
    "mtx_owner (mutexes k2 m) = Some r" "wait_chain k r ts \<Longrightarrow> t \<notin> set (r # ts) \<Longrightarrow> wait_chain k2 r ts"
proof -
  note B = blocked_threads [OF b]
  have D: "mutex_ok {} {} k m'" for m' using minvD [OF i] by simp
  have f: "mutexes k2 = mutexes k" "objects k2 (OMutex m') = objects k (OMutex m')" "th_prio k2 t' = th_prio k t'"
    "th_taken_object_list (threads k2 t') = th_taken_object_list (threads k t')"
    "th_init_priority (threads k2 t') = th_init_priority (threads k t')"
    "th_pending_object (threads k2 t') = (if t' = t then Some m else th_pending_object (threads k t'))" for m' t'
    by (simp_all add: k2_def upd_defs B)
  have l: "tlists k2 (MutexL m') = (if m' = m then susp_insert (th_prio k) t (tlists k (MutexL m)) else tlists k (MutexL m'))" for m'
    using b by (auto simp: k2_def upd_defs blocked_def queued_def)
  have "thread_suspended k2 t' = thread_suspended k1 t'" for t' by (simp add: k2_def upd_defs thread_suspended_def)
  then have su: "thread_suspended k2 t' \<longleftrightarrow> t' = t \<or> thread_suspended k t'" for t' using b by (simp add: blocked_def)
  have nt: "t \<notin> set (tlists k (MutexL m'))" for m' using susp_memD [OF kokD(1) [OF k], of "MutexL m'" t] r by auto
  have srt: "sorted (map (th_prio k) (tlists k (MutexL m)))" using mutex_okD(11) [OF D] by simp
  have "th_prio k2 = th_prio k" using f(3) by blast
  then show s: "sorted (map (th_prio k2) (tlists k2 (MutexL m)))" using susp_insert_sorted [OF srt] by (simp add: l)
  show "t \<in> set (tlists k2 (MutexL m))" by (simp add: l)
  show o2: "mtx_owner (mutexes k2 m) = Some r" using o by (simp add: f)
  have "mutex_ok {t} {} k2 m'" for m'
  proof (cases "m' = m")
    case True
    have "sorted (map (th_prio k2) (filter (\<lambda>w. w \<notin> {t}) (tlists k2 (MutexL m))))" by (rule sorted_filter [OF s])
    then show ?thesis
      using True o2 mutex_ok_owned [OF D o] mutex_okD(6,7,12) [OF D] mutex_okD(8) [OF D o] ip
      by (intro mutex_okI [where r = r]) (auto simp: f l rt_object_get_type_def)
  next
    case False
    have "filter (\<lambda>w. w \<notin> {t}) (tlists k (MutexL m')) = tlists k (MutexL m')" using nt [of m'] by (auto intro: filter_True)
    moreover have "mutex_ok {} {} k2 m' = mutex_ok {} {} k m'" using False nt [of m'] by (intro mutex_ok_cong) (auto simp: f l)
    ultimately show ?thesis using D [of m'] False by (auto simp: mutex_ok_def l)
  qed
  then show "minv {t} {} {} k2" by (simp add: minv_def)
  show "wait_chain k2 r ts" if c: "wait_chain k r ts" "t \<notin> set (r # ts)"
  proof (rule wait_chain_cong [OF _ _ _ c(1)])
    show "thread_suspended k2 t' = thread_suspended k t' \<and> th_pending_object (threads k2 t') = th_pending_object (threads k t')"
      if "t' \<in> set (r # ts)" for t'
      using that c(2) su [of t'] f(6) [of t'] by auto
    show "t' \<in> set (tlists k2 (MutexL m'))" if "t' \<in> set (tlists k (MutexL m'))" for t' m'
      using that l [of m'] by auto
  qed (simp_all add: f)
qed

text \<open>What is known when the waiting thread has left the processor.\<close>

definition mutex_waits :: "tid \<Rightarrow> mid \<Rightarrow> u32 \<Rightarrow> kernel \<Rightarrow> kernel \<Rightarrow> bool" where
  "mutex_waits t m timeout k k' \<longleftrightarrow> thread_suspended k' t \<and> rt_current_thread k' \<noteq> Some t \<and>
     t \<in> set (tlists k' (MutexL m)) \<and> th_pending_object (threads k' t) = Some m \<and> th_prio k' t = th_prio k t \<and>
     (\<forall>m'. mtx_owner (mutexes k' m') = mtx_owner (mutexes k m') \<and> mtx_hold (mutexes k' m') = mtx_hold (mutexes k m')) \<and>
     (0 < sint timeout \<longrightarrow> timer_active k' (ThreadTimer t) \<and>
        tm_timeout_tick (timers k' (ThreadTimer t)) = rt_tick k + timeout)"

lemma timer_stage_wp:
  assumes k: "kok n k" and u: "rt_scheduler_lock_nest k = 1" and w: "tt_wf k t" and to: "timeout \<noteq> 0x7fffffff"
    and Q0: "\<not> 0 < sint timeout \<Longrightarrow> Q k"
    and Q1: "0 < sint timeout \<Longrightarrow> kok n (timer_started t timeout k) \<Longrightarrow> Q (timer_started t timeout k)"
  shows "wp (if 0 < sint timeout then start_thread_timer t timeout k else Some k) Q"
proof (cases "0 < sint timeout")
  case True
  have "start_thread_timer t timeout k = Some (timer_started t timeout k)"
    using kokD(2) [OF k] u w sint_half_range [OF True to] by (intro start_thread_timer_nested) simp_all
  then show ?thesis using True Q1 timer_started_kok [OF k w] by simp
qed (use Q0 in simp)

text \<open>Leaving the section: \<open>k1\<close> is the state after \<open>t\<close> was queued, \<open>k2\<close> the state after its priority was
  inherited and its timer started.\<close>

lemma mutex_wait_exit_wp:
  assumes k: "kok n k3" "Suc n < 0x8000" "rt_scheduler_lock_nest k3 = 1" "rt_current_thread k3 = Some t" "thread_suspended k3 t"
      "th_code k3 t0 = RT_THREAD_READY" "minv {} {} {} k3"
    and t: "th_pending_object (threads k3 t) = Some m" "th_prio k3 t = th_prio k t" "t \<in> set (tlists k3 (MutexL m))"
    and o: "\<And>m'. mtx_owner (mutexes k3 m') = mtx_owner (mutexes k m') \<and> mtx_hold (mutexes k3 m') = mtx_hold (mutexes k m')"
    and tm: "0 < sint timeout \<Longrightarrow> timer_active k3 (ThreadTimer t) \<and>
        tm_timeout_tick (timers k3 (ThreadTimer t)) = rt_tick k + timeout"
    and Q: "\<And>k'. kok (Suc n) k' \<Longrightarrow> minv {} {} {} k' \<Longrightarrow> mutex_waits t m timeout k k' \<Longrightarrow> Q k'"
  shows "wp (rt_exit_critical k3) Q"
proof (rule exit_away_wp [OF k(1-5)])
  fix k' assume k': "kok (Suc n) k'" "sched_only (k3\<lparr>rt_scheduler_lock_nest := 0\<rparr>) k'"
    "\<And>t'. th_code k3 t' = RT_THREAD_READY \<Longrightarrow> rt_current_thread k' \<noteq> Some t"
  note S = sched_onlyD [OF k'(2)] and F = same_but_schedD [OF sched_onlyD(1) [OF k'(2)]]
  have "mutex_waits t m timeout k k'"
    using k(5) t o tm k'(3) [OF k(6)] S(3) [of "MutexL m"] S(4,5,10) [of t] F
    by (simp add: mutex_waits_def thread_suspended_def timer_active_def)
  then show "Q k'" using Q k'(1) k(7) minv_sched_only [OF k'(2)] by simp
qed

lemma mutex_wait_wp:
  assumes k: "kok n k" "Suc n < 0x8000" and u: "rt_scheduler_lock_nest k = 1"
    and c: "rt_current_thread k = Some t" "th_code k t = RT_THREAD_RUNNING" and w: "tt_wf k t"
    and rd: "th_code k t0 = RT_THREAD_READY" and i: "minv {} {} {} k" and ip: "th_init_priority (threads k t) < 32"
    and o: "mtx_owner (mutexes k m) = Some r" and ch: "wait_chain k r ts" "t \<notin> set (r # ts)" and to: "timeout \<noteq> 0x7fffffff"
    and Q: "\<And>k'. kok (Suc n) k' \<Longrightarrow> minv {} {} {} k' \<Longrightarrow> mutex_waits t m timeout k k' \<Longrightarrow> Q k'"
  shows "wp (rt_thread_suspend_to_list t (Some (MutexL m)) (ob_flag (objects k (OMutex m))) flag k) (\<lambda>(ret, k1). ret = 0 \<and>
     wp (mutex_inherit m t (upd_thread t (\<lambda>th. th\<lparr>th_pending_object := Some m\<rparr>) k1)) (\<lambda>k2.
       wp (if 0 < sint timeout then start_thread_timer t timeout k2 else Some k2) (\<lambda>k3. wp (rt_exit_critical k3) Q)))"
proof -
  have D: "mutex_ok {} {} k m" using minvD [OF i] by simp
  have f: "ob_flag (objects k (OMutex m)) = RT_IPC_FLAG_PRIO" using mutex_okD(4) [OF D] o by simp
  have ns: "\<not> thread_suspended k t" using c(2) stat_not_suspended_code [of "th_stat (threads k t)"] by (auto simp: thread_suspended_def)
  show ?thesis
    unfolding f
  proof (rule suspend_to_list_wp [OF k(1) c])
    fix k1 assume k1: "kok n k1" "blocked t False (queued (Some (MutexL m)) RT_IPC_FLAG_PRIO t k) k k1"
    let ?k = "upd_thread t (\<lambda>th. th\<lparr>th_pending_object := Some m\<rparr>) k1"
    note M = queued_minv [OF k(1) i o ns ip k1(2)]
    have B: "rt_scheduler_lock_nest ?k = 1" "rt_current_thread ?k = Some t" "thread_suspended ?k t" "rt_tick ?k = rt_tick k"
      using k1(2) u by (simp_all add: blocked_def same_ipc_def upd_defs thread_suspended_def)
    have rd1: "th_code ?k t0 = RT_THREAD_READY"
      using k1(2) u rd c(2) by (cases "t0 = t") (auto simp: blocked_def upd_defs)
    have w1: "tt_wf ?k t" using blocked_tt_wf [OF k1(2) w] by (simp add: tt_wf_def upd_defs rt_object_get_type_def)
    have p: "th_prio ?k t = th_prio k t" using blocked_threads(1) [OF k1(2)] by (simp add: upd_defs)
    have mx: "mutexes ?k = mutexes k" using blocked_threads(5) [OF k1(2)] by (simp add: upd_defs)
    have "wp (mutex_inherit m t ?k) (\<lambda>k2. wp (if 0 < sint timeout then start_thread_timer t timeout k2 else Some k2)
        (\<lambda>k3. wp (rt_exit_critical k3) Q))"
    proof (rule mutex_inherit_wp [OF _ M(1,3,2,4) M(5) [OF ch]])
      fix k2 assume k2: "kok n k2" "minv {} {} {} k2" "boosted (set (r # ts)) ?k k2"
      note S = boostedD [OF k2(3)]
      have w2: "tt_wf k2 t" using w1 S by (simp add: tt_wf_def rt_object_get_type_def)
      have n2: "rt_scheduler_lock_nest k2 = 1" using S(16) B(1) by simp
      have base: "rt_current_thread k2 = Some t" "th_pending_object (threads k2 t) = Some m" "th_prio k2 t = th_prio k t"
        "thread_suspended k2 t" "th_code k2 t0 = RT_THREAD_READY" "t \<in> set (tlists k2 (MutexL m))" "rt_tick k2 = rt_tick k"
        "\<And>m'. mtx_owner (mutexes k2 m') = mtx_owner (mutexes k m') \<and> mtx_hold (mutexes k2 m') = mtx_hold (mutexes k m')"
        using S(1,2,18) S(4,9) [of t] S(10) [of t0] S(11) [of t] S(12) [of "MutexL m"] S(14) B ch(2) p mx rd1 M(3)
        by (simp_all add: upd_defs)
      show "wp (if 0 < sint timeout then start_thread_timer t timeout k2 else Some k2) (\<lambda>k3. wp (rt_exit_critical k3) Q)"
      proof (rule timer_stage_wp [OF k2(1) n2 w2 to])
        assume "0 < sint timeout" "kok n (timer_started t timeout k2)"
        then show "wp (rt_exit_critical (timer_started t timeout k2)) Q"
          using base timer_started_fields [OF w2] minv_timer_started [OF w2] k2(2) n2 Q k(2)
          by (intro mutex_wait_exit_wp [where k = k and t = t and m = m and timeout = timeout and ?t0.0 = t0])
             (auto simp: same_ipc_def thread_suspended_def)
      qed (use mutex_wait_exit_wp [where k = k and t = t and m = m and timeout = timeout and ?t0.0 = t0 and Q = Q, OF k2(1) k(2) n2]
           k2(2) base Q in simp)
    qed (use k1(1) in simp)
    then show "case (0, k1) of (ret, k1) \<Rightarrow> ret = 0 \<and> wp (mutex_inherit m t (upd_thread t (\<lambda>th. th\<lparr>th_pending_object := Some m\<rparr>) k1))
      (\<lambda>k2. wp (if 0 < sint timeout then start_thread_timer t timeout k2 else Some k2) (\<lambda>k3. wp (rt_exit_critical k3) Q))"
      by simp
  qed (use w in \<open>simp_all add: tt_wf_def\<close>)
qed

section \<open>Taking a free mutex\<close>

lemma reprio_same: "th_number_mask (threads k t) = prio_mask (th_prio k t) \<Longrightarrow> reprio t (th_prio k t) k k"
  by (simp add: reprio_def)

lemma running_prio:
  assumes "kok n k" and "th_code k t = RT_THREAD_RUNNING"
  shows "th_prio k t < 32" "th_number_mask (threads k t) = prio_mask (th_prio k t)" "\<not> thread_suspended k t"
  using assms stat_not_suspended_code [of "th_stat (threads k t)"]
  by (auto simp: kok_def kinv_def thread_ok_def thread_suspended_def)

text \<open>The priority of a thread that does not wait changes without further effects.\<close>

lemma update_priority_awake_wp:
  assumes k: "kok n k" and s: "\<not> thread_suspended k t" and p: "unat p < 32"
    and Q: "\<And>k'. kok n k' \<Longrightarrow> reprio t (unat p) k k' \<Longrightarrow> Q k'"
  shows "wp (thread_update_priority t p k) Q"
proof -
  have "wp (rt_sched_thread_change_priority t (unat p) k) (\<lambda>(ret, k). wp (update_priority_loop t ret k) Q)"
  proof (rule change_priority_wp [OF k p])
    fix k' assume k': "kok n k'" "reprio t (unat p) k k'"
    have "update_priority_loop t 0 k' = Some k'"
      using s reprioD(5) [OF k'(2)]
      by (subst update_priority_loop.simps) (simp add: rt_sched_thread_is_suspended_def thread_suspended_def)
    then show "case (0, k') of (ret, k) \<Rightarrow> wp (update_priority_loop t ret k) Q" using Q [OF k'] by simp
  qed
  then show ?thesis by (simp add: thread_update_priority_def case_prod_unfold)
qed

definition take_prio :: "mid \<Rightarrow> tid \<Rightarrow> kernel \<Rightarrow> nat" where
  "take_prio m t k = min (th_prio k t) (unat (mtx_ceiling_priority (mutexes k m)))"

lemma mutex_free_wp:
  fixes t :: tid and m :: mid
  defines "own \<equiv> \<lambda>mtx. mtx\<lparr>mtx_owner := Some t, mtx_priority := 0xff, mtx_hold := 1\<rparr>"
  assumes k: "kok n k" and i: "minv {} {} {} k" and r: "th_code k t = RT_THREAD_RUNNING" and o: "mtx_owner (mutexes k m) = None"
    and ob: "rt_object_get_type (OMutex m) k = RT_Object_Class_Mutex" "ob_flag (objects k (OMutex m)) = RT_IPC_FLAG_PRIO"
    and ip: "th_init_priority (threads k t) < 32" and c: "mtx_ceiling_priority (mutexes k m) = c" "c = 0xff \<or> c < 32"
    and Q: "\<And>k'. kok n (taken_insert t m k') \<Longrightarrow> minv {} {} {} (taken_insert t m k') \<Longrightarrow>
       reprio t (take_prio m t k) (upd_mutex m own k) k' \<Longrightarrow> Q k'"
  shows "wp (if c \<noteq> 0xff \<and> unat c < th_prio k t then thread_update_priority t c (upd_mutex m own k) else Some (upd_mutex m own k)) Q"
proof -
  let ?k = "upd_mutex m own k"
  note R = running_prio [OF k r]
  have D: "mutex_ok {} {} k m'" for m' using minvD [OF i] by simp
  have kk: "kok n ?k" using k by simp
  have i1: "minv {} {} {m} ?k" unfolding minv_def
  proof (intro allI impI)
    fix m' assume "m' \<notin> {m}"
    then show "mutex_ok {} {} ?k m'" using D [of m'] by (subst mutex_ok_cong [of _ _ k]) (simp_all add: upd_defs)
  qed
  have nt: "m \<notin> set (th_taken_object_list (threads k t'))" for t' using mutex_okD(1) [OF D] o by (metis option.discI)
  have nw: "tlists k (MutexL m) = []" using mutex_okD(5) [OF D, of _ m] o by (metis list.set_intros(1) neq_Nil_conv)
  have ns: "\<not> thread_suspended ?k t" using R(3) by (simp add: upd_defs thread_suspended_def)
  have fin: "Q k'" if k': "kok n k'" "reprio t p ?k k'" and p: "p = take_prio m t k" for k' p
  proof -
    note P = reprioD [OF k'(2)] and S = same_but_schedD [OF reprioD(1) [OF k'(2)]]
    have pp: "p < 32" "p \<le> th_prio k t" using R(1) p by (simp_all add: take_prio_def)
    have "p \<le> unat (mtx_priority (mutexes ?k m'))" if "m' \<notin> {m}" "mtx_owner (mutexes ?k m') = Some t" for m'
      using mutex_okD(8) [OF D, of m' t] that pp by (simp add: upd_defs)
    then have "minv {t} {} {m} k'" using reprio_minv [OF k'(2) i1 pp(1)] by simp
    then have i2: "minv {} {} {m} k'"
      by (rule minv_not_waiting [OF k'(1)]) (use P(5) [of t] ns in simp)
    have "mutex_ok {} {} (taken_insert t m k') m" unfolding taken_insert_def
      using nt nw P S ob ip pp by (intro mutex_okI [where r = t]) (auto simp: upd_defs own_def rt_object_get_type_def)
    moreover have "mutex_ok {} {} (taken_insert t m k') m'" if "m' \<noteq> m" for m'
      using minvD [OF i2, of m'] that unfolding taken_insert_def
      by (subst mutex_ok_cong [of _ _ k']) (simp_all add: upd_defs)
    ultimately have "minv {} {} {} (taken_insert t m k')" unfolding minv_def by metis
    moreover have "kok n (taken_insert t m k')" unfolding taken_insert_def
      using k'(1) by (subst kok_upd_thread) (simp_all add: thread_view_def)
    ultimately show ?thesis using Q k'(2) p by simp
  qed
  show ?thesis
  proof (cases "c \<noteq> 0xff \<and> unat c < th_prio k t")
    case True
    have "wp (thread_update_priority t c ?k) Q"
    proof (rule update_priority_awake_wp [OF kk])
      show "\<not> thread_suspended ?k t" by (fact ns)
      show "unat c < 32" using True R(1) by simp
    qed (use fin True c in \<open>auto simp: take_prio_def min_def\<close>)
    then show ?thesis using True by simp
  next
    case False
    have "unat c \<ge> th_prio k t" using False R(1) by auto
    then have e: "th_prio ?k t = take_prio m t k" using c by (simp add: take_prio_def upd_defs)
    have rp: "reprio t (th_prio ?k t) ?k ?k" using R(2) by (intro reprio_same) (simp add: upd_defs)
    have "Q ?k" by (rule fin [OF kk rp e])
    then show ?thesis using False by auto
  qed
qed

section \<open>Releasing\<close>

text \<open>The owner \<open>t\<close> has let go of \<open>m\<close>, whose fields are not updated yet.\<close>

lemma taken_remove_minv: "minv W U M k \<Longrightarrow> minv W U (insert m M) (taken_remove m k)"
  unfolding minv_def by (auto simp: taken_remove_def mutex_ok_def rt_object_get_type_def)

lemma taken_remove_kok [simp]: "kok n (taken_remove m k) = kok n k"
proof -
  have "kinv (taken_remove m k) = kinv k"
    by (rule kinv_cong) (simp_all add: taken_remove_def sched_view_def thread_view_def)
  then show ?thesis
    by (simp add: kok_def nest_room_def ttmr_ok_def taken_remove_def rt_object_get_type_def timer_active_def thread_suspended_def)
qed

text \<open>The priority \<^verbatim>\<open>_check_and_update_prio\<close> leaves the thread with.\<close>

definition drop_prio :: "mid \<Rightarrow> tid \<Rightarrow> kernel \<Rightarrow> nat" where
  "drop_prio m t k = (if mtx_ceiling_priority (mutexes k m) \<noteq> 0xff \<or> th_prio k t = unat (mtx_priority (mutexes k m))
     then unat (thread_get_mutex_priority t k) else th_prio k t)"

lemma check_prio_wp:
  assumes k: "kok n k" and i: "minv {} {} {m} k" and ip: "th_init_priority (threads k t) < 32"
    and m: "m \<notin> set (th_taken_object_list (threads k t))" and r: "th_code k t = RT_THREAD_RUNNING"
    and Q: "\<And>b k'. kok n k' \<Longrightarrow> minv {} {} {m} k' \<Longrightarrow> reprio t (drop_prio m t k) k k' \<Longrightarrow> Q (b, k')"
  shows "wp (check_and_update_prio t m k) Q"
proof -
  let ?p = "unat (thread_get_mutex_priority t k)"
  note R = running_prio [OF k r]
  have p: "?p < 32" using get_mutex_priority_le(1) [OF ip] ip by simp
  have le: "?p \<le> unat (mtx_priority (mutexes k m'))" if "m' \<notin> {m}" "mtx_owner (mutexes k m') = Some t" for m'
    using get_mutex_priority_le(2) [OF ip] mutex_okD(1) [OF minvD [OF i that(1)]] that(2) by blast
  show ?thesis
  proof (cases "mtx_ceiling_priority (mutexes k m) \<noteq> 0xff \<or> th_prio k t = unat (mtx_priority (mutexes k m))")
    case True
    have "wp (rt_sched_thread_change_priority t ?p k) (\<lambda>(_, k'). Q (True, k'))"
    proof (rule change_priority_wp [OF k p])
      fix k' assume k': "kok n k'" "reprio t ?p k k'"
      have "minv {t} {} {m} k'" using reprio_minv [OF k'(2) i p] le by simp
      then have "minv {} {} {m} k'" by (rule minv_not_waiting [OF k'(1)]) (use reprioD(5) [OF k'(2)] R(3) in simp)
      then show "case (0, k') of (_, k') \<Rightarrow> Q (True, k')" using Q [OF k'(1)] k'(2) True by (simp add: drop_prio_def)
    qed
    then show ?thesis using True by (auto simp: check_and_update_prio_def rt_sched_thread_get_curr_prio_def case_prod_unfold)
  next
    case False
    then have "reprio t (drop_prio m t k) k k" using reprio_same [OF R(2)] by (simp add: drop_prio_def)
    then show ?thesis using False Q [OF k i] by (simp add: check_and_update_prio_def rt_sched_thread_get_curr_prio_def)
  qed
qed

lemma wake_loop_wp:
  assumes k: "kok n k" and l: "tlists k (MutexL m) = w # ws"
    and Q: "\<And>k'. kok n k' \<Longrightarrow> woken w (th_error (threads k w)) k k' \<Longrightarrow> Q (Some w, k')"
  shows "wp (mutex_wake_loop m k) Q"
proof -
  have w: "w \<in> set (tlists k (MutexL m))" using l by simp
  note K = kokD(1) [OF k]
  have s: "thread_suspended k w" using susp_memD [OF K _ w] by simp
  have c: "th_code k w \<noteq> 0" "th_code k w \<noteq> 1" "th_code k w \<noteq> 2" "th_code k w \<noteq> 3"
    using s stat_not_suspended_code [of "th_stat (threads k w)"] by (auto simp: thread_suspended_def)
  have T: "thread_ok k t'" for t' using K by (simp add: kinv_def)
  have "kinv_but w (tlist_remove w k)" using K T c by (intro tlist_remove_kinv_but) (auto simp: kinv_def thread_ok_def)
  then have "kinv (tlist_remove w k)"
    using T [of w] s c by (intro kinv_but_suspended) (auto simp: tlist_remove_def thread_ok_def thread_suspended_def)
  then have kr: "kok n (tlist_remove w k)"
    using k by (simp add: kok_def nest_room_def ttmr_ok_def tlist_remove_def rt_object_get_type_def timer_active_def thread_suspended_def)
  have "wp (rt_sched_thread_ready w (tlist_remove w k)) (\<lambda>(e, k'). e = 0 \<and> Q (Some w, k'))"
  proof (rule ready_wake_wp [OF kr])
    fix k' assume k': "kok n k'" "woken w (th_error (threads (tlist_remove w k) w)) (tlist_remove w k) k'"
    then have "woken w (th_error (threads k w)) k k'"
      unfolding woken_def same_ipc_def by (simp add: tlist_remove_def thread_suspended_def)
    then show "case (0, k') of (e, k') \<Rightarrow> e = 0 \<and> Q (Some w, k')" using Q [OF k'(1)] by simp
  qed (use s in \<open>simp add: tlist_remove_def thread_suspended_def\<close>)
  then show ?thesis
    using l s by (subst mutex_wake_loop.simps)
      (auto simp: rt_sched_thread_is_suspended_def thread_suspended_def elim!: wp_mono)
qed

text \<open>The released mutex itself, between the two updates.\<close>

definition released :: "mid \<Rightarrow> kernel \<Rightarrow> bool" where
  "released m k \<longleftrightarrow> minv {} {} {m} k \<and> (\<forall>t. m \<notin> set (th_taken_object_list (threads k t))) \<and>
     rt_object_get_type (OMutex m) k = RT_Object_Class_Mutex \<and> ob_flag (objects k (OMutex m)) = RT_IPC_FLAG_PRIO \<and>
     sorted (map (th_prio k) (tlists k (MutexL m))) \<and>
     (\<forall>w \<in> set (tlists k (MutexL m)). th_pending_object (threads k w) = Some m \<and> th_init_priority (threads k w) < 32)"

lemma released_reprio:
  assumes "released m k" "minv {} {} {m} k'" "reprio t p k k'" "t \<notin> set (tlists k (MutexL m))"
  shows "released m k'"
proof -
  note R = reprioD [OF assms(3)] and S = same_but_schedD [OF reprioD(1) [OF assms(3)]]
  have l: "tlists k' (MutexL m) = tlists k (MutexL m)" by (simp add: R(3))
  have "map (th_prio k') (tlists k (MutexL m)) = map (th_prio k) (tlists k (MutexL m))" using assms(4) by (auto simp: R(6))
  then have "sorted (map (th_prio k') (tlists k (MutexL m)))" using assms(1) by (simp only: released_def)
  then show ?thesis using assms(1,2) R(7-9) by (simp add: released_def l S rt_object_get_type_def)
qed

lemma clear_owner_minv:
  assumes "released m k" and "tlists k (MutexL m) = []"
  shows "minv {} {} {} (mutex_clear_owner m k)"
proof -
  have "mutex_ok {} {} (mutex_clear_owner m k) m"
    using assms by (auto simp: mutex_ok_def mutex_clear_owner_def released_def upd_defs)
  moreover have "mutex_ok {} {} (mutex_clear_owner m k) m'" if "m' \<noteq> m" for m'
    using assms(1) that minvD [of "{}" "{}" "{m}" k m']
    by (subst mutex_ok_cong [of _ _ k]) (simp_all add: released_def mutex_clear_owner_def upd_defs)
  ultimately show ?thesis unfolding minv_def by metis
qed

lemma hand_over_minv:
  assumes k: "kok n k" and r: "released m k" and l: "tlists k (MutexL m) = w # ws" and k1: "kok n k1" and W: "woken w e k k1"
  shows "kok n (mutex_hand_over m w k1)" "minv {} {} {} (mutex_hand_over m w k1)" "tlists (mutex_hand_over m w k1) (MutexL m) = ws"
    "mtx_owner (mutexes (mutex_hand_over m w k1) m) = Some w" "mtx_hold (mutexes (mutex_hand_over m w k1) m) = 1"
    "th_error (threads (mutex_hand_over m w k1) w) = e" "thread_suspended (mutex_hand_over m w k1) w = False"
    "th_prio (mutex_hand_over m w k1) t = th_prio k t" "rt_scheduler_lock_nest (mutex_hand_over m w k1) = rt_scheduler_lock_nest k"
    "rt_current_thread (mutex_hand_over m w k1) = None \<longleftrightarrow> rt_current_thread k = None"
proof -
  let ?k = "mutex_hand_over m w k1"
  let ?a = "upd_thread w (\<lambda>th. th\<lparr>th_pending_object := None\<rparr>) (taken_insert w m (upd_mutex m (\<lambda>mtx. mtx\<lparr>mtx_owner := Some w, mtx_hold := 1\<rparr>) k1))"
  have e: "?k = upd_mutex m (\<lambda>mtx. mtx\<lparr>mtx_priority := head_prio m ?a\<rparr>) ?a" by (simp add: mutex_hand_over_def mutex_update_eq Let_def)
  note D = wokenD [OF W]
  have d: "distinct (w # ws)" using kokD(1) [OF k] l unfolding kinv_def kglobal_def lists_ok_def by metis
  have ka: "kok n ?a" unfolding taken_insert_def using k1
    by (simp, subst kok_upd_thread) (simp_all add: thread_view_def)
  then show "kok n ?k" unfolding e by simp
  have la: "tlists ?k (MutexL m') = tlists k1 (MutexL m')" for m' by (simp add: e upd_sel taken_insert_def)
  show lm: "tlists ?k (MutexL m) = ws" using D(2) [of "MutexL m"] l d by (simp add: la)
  have p: "th_prio ?k t' = th_prio k t'" for t' by (simp add: e upd_sel taken_insert_def D(8))
  then show "th_prio ?k t = th_prio k t" .
  have o: "objects k1 (OMutex m') = objects k (OMutex m')" for m' by (rule D(17)) simp
  have w: "\<And>v. v \<in> set (w # ws) \<Longrightarrow> th_pending_object (threads k v) = Some m \<and> th_init_priority (threads k v) < 32"
    "sorted (map (th_prio k) (w # ws))" using r unfolding released_def l by blast+
  have wp: "th_prio k v < 32" if "v \<in> set (w # ws)" for v using waiter_prio [OF kokD(1) [OF k], of v m] that l by simp
  have pa: "\<And>v. th_prio ?a v = th_prio k v" "tlists ?a (MutexL m) = ws" using p lm by (simp_all add: e upd_sel)
  have sa: "sorted (map (th_prio ?a) (tlists ?a (MutexL m)))" using w(2) by (simp add: pa)
  have h: "th_prio k w \<le> unat (head_prio m ?a)" "v \<in> set ws \<Longrightarrow> unat (head_prio m ?a) \<le> th_prio k v" for v
    using head_prio_bounds [OF kokD(1) [OF ka] sa, unfolded pa] w(2) wp [of w] by auto
  have mp: "mtx_priority (mutexes ?k m) = head_prio m ?a" by (simp add: e upd_sel)
  have "mutex_ok {} {} ?k m"
  proof (rule mutex_okI [where r = w])
    show "th_prio ?k w \<le> unat (mtx_priority (mutexes ?k m))" using h(1) by (simp only: mp p)
    show "unat (mtx_priority (mutexes ?k m)) \<le> th_prio ?k v" if "v \<in> set (tlists ?k (MutexL m))" for v
      using h(2) that by (simp only: mp p lm)
    show "sorted (map (th_prio ?k) (filter (\<lambda>w. w \<notin> {}) (tlists ?k (MutexL m))))" using w(2) by (simp add: p lm)
  qed (use r w wp [of w] o [of m] d D lm in \<open>auto simp: e upd_sel taken_insert_def released_def rt_object_get_type_def\<close>)
  moreover have "mutex_ok {} {} ?k m'" if m': "m' \<noteq> m" for m'
  proof -
    have "w \<notin> set (tlists k (MutexL m'))" using one_list [OF kokD(1) [OF k], of w "MutexL m" "MutexL m'"] l m' by auto
    moreover have "mutex_ok {} {} k m'" using r m' by (simp add: released_def minv_def)
    moreover have "mutexes k1 = mutexes k" using D(1) by (simp add: same_ipc_def)
    ultimately show ?thesis
      using m' D(2) [of "MutexL m'"] o [of m'] by (subst mutex_ok_cong [of _ _ k]) (auto simp: e upd_sel taken_insert_def D p)
  qed
  ultimately show "minv {} {} {} ?k" unfolding minv_def by metis
qed (use wokenD [OF W] in \<open>auto simp: mutex_hand_over_def mutex_update_eq Let_def upd_sel taken_insert_def thread_suspended_def same_ipc_def\<close>)

lemma released_remove:
  assumes k: "kok n k" and i: "minv {} {} {} k" and o: "mtx_owner (mutexes k m) = Some t"
  shows "released m (taken_remove m (upd_mutex m f k))"
proof -
  have D: "mutex_ok {} {} k m" using minvD [OF i] by simp
  have "minv {} {} {m} (upd_mutex m f k)" unfolding minv_def
  proof (intro allI impI)
    fix m' assume "m' \<notin> {m}"
    then show "mutex_ok {} {} (upd_mutex m f k) m'"
      using minvD [OF i, of m'] by (subst mutex_ok_cong [of _ _ k]) (simp_all add: upd_defs)
  qed
  then have "minv {} {} {m} (taken_remove m (upd_mutex m f k))" using taken_remove_minv [of "{}" "{}" "{m}" _ m] by simp
  then show ?thesis
    using mutex_ok_owned(3,4) [OF D o] mutex_okD(6,11,12) [OF D]
    by (simp add: released_def taken_remove_def upd_sel rt_object_get_type_def)
qed

text \<open>The part of \<^verbatim>\<open>rt_mutex_release\<close> that gives the mutex up: the releasing thread \<open>t\<close> falls back to the priority
  it has without \<open>m\<close>, and the first waiter becomes the owner.\<close>

lemma give_up_wp:
  assumes k: "kok n k" and r: "released m k" and ip: "th_init_priority (threads k t) < 32" and c: "th_code k t = RT_THREAD_RUNNING"
    and cur: "rt_current_thread k \<noteq> None"
    and Q: "\<And>b k'. kok n k' \<Longrightarrow> minv {} {} {} k' \<Longrightarrow> rt_scheduler_lock_nest k' = rt_scheduler_lock_nest k \<Longrightarrow>
      rt_current_thread k' \<noteq> None \<Longrightarrow> th_prio k' t = drop_prio m t k \<Longrightarrow>
      (case tlists k (MutexL m) of [] \<Rightarrow> mtx_owner (mutexes k' m) = None
       | w # ws \<Rightarrow> mtx_owner (mutexes k' m) = Some w \<and> mtx_hold (mutexes k' m) = 1 \<and> tlists k' (MutexL m) = ws \<and>
           \<not> thread_suspended k' w \<and> th_error (threads k' w) = th_error (threads k w)) \<Longrightarrow> Q (b, k')"
  shows "wp (do {
     (need_schedule, k) \<leftarrow> check_and_update_prio t m k;
     if tlists k (MutexL m) \<noteq> [] then do {
       (next_thread, k) \<leftarrow> mutex_wake_loop m k;
       case next_thread of
         Some t \<Rightarrow> Some (True, mutex_hand_over m t k)
       | None \<Rightarrow> Some (need_schedule, mutex_clear_owner m k)
     } else Some (need_schedule, mutex_clear_owner m k) }) Q"
proof -
  have "wp (check_and_update_prio t m k) (\<lambda>(b, k). wp (if tlists k (MutexL m) \<noteq> [] then do {
       (next_thread, k) \<leftarrow> mutex_wake_loop m k;
       case next_thread of
         Some t \<Rightarrow> Some (True, mutex_hand_over m t k)
       | None \<Rightarrow> Some (b, mutex_clear_owner m k)
     } else Some (b, mutex_clear_owner m k)) Q)"
  proof (rule check_prio_wp [OF k _ ip _ c])
    show "minv {} {} {m} k" "m \<notin> set (th_taken_object_list (threads k t))" using r by (simp_all add: released_def)
    fix b k2 assume k2: "kok n k2" "minv {} {} {m} k2" "reprio t (drop_prio m t k) k k2"
    note R = reprioD [OF k2(3)] and S = same_but_schedD [OF reprioD(1) [OF k2(3)]]
    have l: "tlists k2 (MutexL m) = tlists k (MutexL m)" by (simp add: R(3))
    have nt: "t \<notin> set (tlists k (MutexL m))"
      using susp_memD [OF kokD(1) [OF k], of "MutexL m" t] running_prio(3) [OF k c] by auto
    have r2: "released m k2" by (rule released_reprio [OF r k2(2,3) nt])
    show "case (b, k2) of (b, k) \<Rightarrow> wp (if tlists k (MutexL m) \<noteq> [] then do {
       (next_thread, k) \<leftarrow> mutex_wake_loop m k;
       case next_thread of
         Some t \<Rightarrow> Some (True, mutex_hand_over m t k)
       | None \<Rightarrow> Some (b, mutex_clear_owner m k)
     } else Some (b, mutex_clear_owner m k)) Q"
    proof (cases "tlists k (MutexL m)")
      case Nil
      have "Q (b, mutex_clear_owner m k2)"
      proof (rule Q)
        show "minv {} {} {} (mutex_clear_owner m k2)" using clear_owner_minv [OF r2] l Nil by simp
      qed (use k2(1) Nil R(2) R(6) [of t] S cur in \<open>simp_all add: mutex_clear_owner_def upd_sel\<close>)
      then show ?thesis using l Nil by simp
    next
      case (Cons w ws)
      have "wp (mutex_wake_loop m k2) (\<lambda>(x, k3). x = Some w \<and> Q (True, mutex_hand_over m w k3))"
      proof (rule wake_loop_wp [OF k2(1)])
        show lw: "tlists k2 (MutexL m) = w # ws" using l Cons by simp
        fix k3 assume k3: "kok n k3" "woken w (th_error (threads k2 w)) k2 k3"
        note H = hand_over_minv [OF k2(1) r2 lw k3]
        have "Q (True, mutex_hand_over m w k3)"
          using Cons R(2) R(6) [of t] R(10) [of w] S cur by (intro Q [OF H(1,2)]) (simp_all add: H)
        then show "case (Some w, k3) of (x, k3) \<Rightarrow> x = Some w \<and> Q (True, mutex_hand_over m w k3)" by simp
      qed
      then show ?thesis using l Cons by (auto elim!: wp_mono)
    qed
  qed
  then show ?thesis by (simp add: case_prod_unfold)
qed

section \<open>Giving up a wait\<close>

text \<open>Recomputing the priority of a mutex from its queue keeps the invariant, whoever has left the queue.\<close>

lemma mutex_update_minv:
  assumes k: "kinv k" and i: "minv {} {} {} k"
  shows "minv {} {} {} (mutex_update_priority m k)"
proof -
  let ?k = "mutex_update_priority m k"
  have D: "mutex_ok {} {} k m'" for m' using minvD [OF i] by simp
  have s: "sorted (map (th_prio k) (tlists k (MutexL m)))" using mutex_okD(11) [OF D [of m]] by simp
  note H = head_prio_bounds [OF k s]
  have "mutex_ok {} {} ?k m"
  proof (cases "mtx_owner (mutexes k m)")
    case None
    have "tlists k (MutexL m) = []" using mutex_okD(5) [OF D, of _ m] None by (metis list.set_intros(1) neq_Nil_conv)
    then show ?thesis using D [of m] None by (simp add: mutex_ok_def mutex_update_eq upd_sel)
  next
    case (Some r)
    have "th_prio k r \<le> unat (head_prio m k)"
      using mutex_okD(7) [OF D, of _ m] mutex_okD(8) [OF D Some] mutex_ok_owned(5) [OF D Some] by (intro H(2)) force+
    then show ?thesis
      using Some s H(1) mutex_ok_owned [OF D Some] mutex_okD(6,12) [OF D, of _ m]
      by (intro mutex_okI [where r = r]) (auto simp: mutex_update_eq upd_sel rt_object_get_type_def)
  qed
  moreover have "mutex_ok {} {} ?k m'" if "m' \<noteq> m" for m'
    using D [of m'] that by (subst mutex_ok_cong [of _ _ k]) (simp_all add: mutex_update_eq upd_sel)
  ultimately show ?thesis unfolding minv_def by metis
qed

text \<open>The priorities after \<open>t\<close> has given up waiting for \<open>m\<close>: the mutex has the priority of its first waiter; an owner that ran at
  the priority of \<open>t\<close> runs at the best of its own priority and those of the mutexes it holds, as they are now, and another owner keeps
  its priority.\<close>

definition wait_dropped :: "mid \<Rightarrow> tid \<Rightarrow> kernel \<Rightarrow> kernel \<Rightarrow> bool" where
  "wait_dropped m t k k' \<longleftrightarrow>
     mtx_priority (mutexes k' m) = (case tlists k (MutexL m) of [] \<Rightarrow> 0xff | w # _ \<Rightarrow> of_nat (th_prio k w)) \<and>
     tlists k' (MutexL m) = tlists k (MutexL m) \<and>
     (\<forall>r. mtx_owner (mutexes k m) = Some r \<longrightarrow> th_prio k' r =
        (if th_prio k r = th_prio k t then held_prio r (set (th_taken_object_list (threads k r))) k' else th_prio k r)) \<and>
     (\<forall>r. th_init_priority (threads k' r) = th_init_priority (threads k r)) \<and>
     (\<forall>m'. mtx_ceiling_priority (mutexes k' m') = mtx_ceiling_priority (mutexes k m'))"

lemma wait_dropped_start:
  assumes "\<And>r. th_init_priority (threads k0 r) = th_init_priority (threads k r)"
    "\<And>m'. mtx_ceiling_priority (mutexes k0 m') = mtx_ceiling_priority (mutexes k m')" and "\<And>t. th_prio k0 t = th_prio k t" "tlists k0 (MutexL m) = tlists k (MutexL m)" "mtx_owner (mutexes k0 m) = mtx_owner (mutexes k m)"
    "\<And>t. th_taken_object_list (threads k0 t) = th_taken_object_list (threads k t)"
  shows "wait_dropped m t k0 k' = wait_dropped m t k k'"
  by (simp add: wait_dropped_def assms cong: list.case_cong)

lemma held_prio_cong:
  "th_init_priority (threads k' t) = th_init_priority (threads k t) \<Longrightarrow> (\<And>m. m \<in> ms \<Longrightarrow> mutexes k' m = mutexes k m) \<Longrightarrow>
   held_prio t ms k' = held_prio t ms k"
  by (simp add: held_prio_def cong: image_cong_simp)

lemma mutex_drop_kinv_wp:
  assumes k: "kinv k" and i: "minv {} {} {} k" and ch: "\<And>r. mtx_owner (mutexes k m) = Some r \<Longrightarrow> \<exists>ts. wait_chain k r ts"
    and Q: "\<And>S k'. kinv k' \<Longrightarrow> minv {} {} {} k' \<Longrightarrow> boosted S k k' \<Longrightarrow> wait_dropped m t k k' \<Longrightarrow> Q k'"
  shows "wp (mutex_drop_update m t k) Q"
proof -
  let ?k = "mutex_update_priority m k"
  have kk: "kinv ?k" using k unfolding mutex_update_eq by (subst kinv_cong) (auto simp: upd_defs sched_view_def)
  have b: "boosted S k ?k" for S by (auto simp: boosted_def mutex_update_eq upd_defs same_but_sched_def)
  have ik: "minv {} {} {} ?k" by (rule mutex_update_minv [OF k i])
  have o: "mtx_owner (mutexes ?k m') = mtx_owner (mutexes k m')" for m' using boostedD(1) [OF b] .
  have f: "mtx_priority (mutexes ?k m) = head_prio m k" "tlists ?k = tlists k" "threads ?k = threads k"
    by (simp_all add: mutex_update_eq upd_sel)
  show ?thesis
  proof (cases "mtx_owner (mutexes k m)")
    case None
    then have "wait_dropped m t k ?k" using boostedD(3) [OF b] by (simp add: wait_dropped_def f head_prio_def)
    then show ?thesis using None Q [OF kk ik b] by (simp add: mutex_drop_update_def)
  next
    case (Some r)
    let ?p = "thread_get_mutex_priority r ?k"
    have D: "mutex_ok {} {} ?k m'" for m' using minvD [OF ik] by simp
    have or: "mtx_owner (mutexes ?k m) = Some r" using Some o by simp
    note ip = mutex_ok_owned(5,6) [OF D or]
    have pe: "unat ?p = held_prio r (set (th_taken_object_list (threads k r))) ?k" using get_mutex_priority_eq [OF ip(2)] f(3) by simp
    obtain ts where "wait_chain k r ts" using ch Some by blast
    then have c: "wait_chain ?k r ts" by (rule boosted_wait_chain [OF b])
    have rn: "r \<notin> set ts" by (rule wait_chain_acyclic [OF c])
    have "wp (thread_update_priority r ?p ?k) Q" if e: "th_prio k r = th_prio k t"
    proof (rule update_priority_kinv_wp [OF kk _ _ c])
      show "minv {} {r} {} ?k" using D mutex_ok_open by (simp add: minv_def)
      show "unat ?p < 32" using get_mutex_priority_le(1) [OF ip(2)] ip(2) by simp
      show "unat ?p \<le> unat (mtx_priority (mutexes ?k m'))" if "mtx_owner (mutexes ?k m') = Some r" for m'
        using get_mutex_priority_le(2) [OF ip(2)] mutex_okD(1) [OF D] that by blast
      fix k' assume k': "kinv k'" "minv {} {} {} k'" "boosted (set (r # ts)) ?k k'" "th_prio k' r = unat ?p" "untouched (set ts) ?k k'"
      have un: "mutexes k' m' = mutexes ?k m' \<and> tlists k' (MutexL m') = tlists ?k (MutexL m')" if "mtx_owner (mutexes ?k m') = Some r" for m'
        using k'(5) [unfolded untouched_def, rule_format, of m'] that rn by auto
      have "held_prio r (set (th_taken_object_list (threads k r))) k' = held_prio r (set (th_taken_object_list (threads k r))) ?k"
        by (rule held_prio_cong) (use boostedD(7) [OF k'(3)] un mutex_okD(1) [OF D] f(3) in auto)
      then have "wait_dropped m t k k'"
        using un [OF or] k'(4) Some e boostedD(3,7) [OF k'(3)] boostedD(3) [OF b] by (simp add: wait_dropped_def f head_prio_def pe)
      then show "Q k'" using Q [OF k'(1,2)] k'(3) boosted_trans [OF b] by blast
    qed
    moreover have "wait_dropped m t k ?k" if "th_prio k r = th_prio k t \<Longrightarrow> ?p = of_nat (th_prio k r)"
    proof -
      have "th_prio k r = held_prio r (set (th_taken_object_list (threads k r))) ?k" if "?p = of_nat (th_prio k r)"
        using that pe ip(1) f(3) by (simp add: unat_of_nat)
      then show ?thesis using that Some boostedD(3) [OF b] by (simp add: wait_dropped_def f head_prio_def)
    qed
    ultimately show ?thesis
      using Some or Q [OF kk ik b] f(3) by (auto simp: mutex_drop_update_def rt_sched_thread_get_curr_prio_def)
  qed
qed

lemma mutex_drop_wp:
  assumes k: "kok n k" and i: "minv {} {} {} k" and ch: "\<And>r. mtx_owner (mutexes k m) = Some r \<Longrightarrow> \<exists>ts. wait_chain k r ts"
    and Q: "\<And>S k'. kok n k' \<Longrightarrow> minv {} {} {} k' \<Longrightarrow> boosted S k k' \<Longrightarrow> wait_dropped m t k k' \<Longrightarrow> Q k'"
  shows "wp (mutex_drop_update m t k) Q"
  by (rule mutex_drop_kinv_wp [OF kokD(1) [OF k] i ch]) (use Q boosted_kok [OF k] in blast)+

lemma minv_clear_pending:
  assumes k: "kok n k" and s: "\<not> thread_suspended k t" and i: "minv {} {} {} k"
  shows "minv {} {} {} (upd_thread t (\<lambda>th. th\<lparr>th_pending_object := None\<rparr>) k)" (is "minv _ _ _ ?k")
proof -
  have "t \<notin> set (tlists k (MutexL m))" for m using s susp_memD [OF kokD(1) [OF k], of "MutexL m" t] by auto
  then have "mutex_ok {} {} ?k m = mutex_ok {} {} k m" for m by (intro mutex_ok_cong) (auto simp: upd_sel)
  then show ?thesis using i by (simp add: minv_def)
qed

text \<open>The error path of a take that waited.\<close>

lemma give_up_wait_wp:
  assumes k: "kok (Suc n) k" and i: "minv {} {} {} k" and s: "\<not> thread_suspended k t"
    and ch: "\<And>r. mtx_owner (mutexes k m) = Some r \<Longrightarrow> \<exists>ts. wait_chain k r ts"
    and Q: "\<And>k'. kok (Suc n) k' \<Longrightarrow> minv {} {} {} k' \<Longrightarrow> (\<And>m'. mtx_owner (mutexes k' m') = mtx_owner (mutexes k m')) \<Longrightarrow>
       th_pending_object (threads k' t) = None \<Longrightarrow> wait_dropped m t k k' \<Longrightarrow> Q k'"
  shows "wp (mutex_drop_update m t (rt_enter_critical k)) (\<lambda>k2. wp (rt_exit_critical k2)
     (\<lambda>k'. Q (upd_thread t (\<lambda>th. th\<lparr>th_pending_object := None\<rparr>) k')))"
proof (rule mutex_drop_wp)
  let ?e = "rt_enter_critical k"
  show "\<exists>ts. wait_chain ?e r ts" if o: "mtx_owner (mutexes ?e m) = Some r" for r
  proof -
    obtain ts where "wait_chain k r ts" using ch o by auto
    then have "wait_chain ?e r ts" by (rule wait_chain_cong [rotated 3]) (simp_all add: thread_suspended_def)
    then show ?thesis by blast
  qed
  fix A k2 assume k2: "kok n k2" "minv {} {} {} k2" "boosted A ?e k2" "wait_dropped m t ?e k2"
  have ns: "\<not> thread_suspended k2 t" using boostedD(9) [OF k2(3)] s by (simp add: thread_suspended_def)
  show "wp (rt_exit_critical k2) (\<lambda>k'. Q (upd_thread t (\<lambda>th. th\<lparr>th_pending_object := None\<rparr>) k'))"
  proof (rule exit_outer_wp [OF k k2(1)])
    fix k' assume k': "kok (Suc n) k'" "sched_only (k2\<lparr>rt_scheduler_lock_nest := rt_scheduler_lock_nest k\<rparr>) k'"
    have "\<not> thread_suspended k' t" using ns sched_onlyD(4) [OF k'(2)] by (simp add: thread_suspended_def)
    then have "minv {} {} {} (upd_thread t (\<lambda>th. th\<lparr>th_pending_object := None\<rparr>) k')"
      using minv_clear_pending [OF k'(1)] minv_sched_only [OF k'(2), of "{}" "{}" "{}"] k2(2) by simp
    moreover have "wait_dropped m t k (upd_thread t (\<lambda>th. th\<lparr>th_pending_object := None\<rparr>) k')"
      using k2(4) wait_dropped_start [of ?e k m t k2] sched_onlyD(3) [OF k'(2), of "MutexL m"] sched_onlyD(5,6) [OF k'(2)] same_but_schedD(5) [OF sched_onlyD(1) [OF k'(2)]]
      by (simp add: wait_dropped_def upd_sel held_prio_def)
    ultimately show "Q (upd_thread t (\<lambda>th. th\<lparr>th_pending_object := None\<rparr>) k')"
      using k'(1) same_but_schedD(5) [OF sched_onlyD(1) [OF k'(2)]] boostedD(1) [OF k2(3)] by (intro Q) (simp_all add: upd_sel)
  qed (use boostedD(16) [OF k2(3)] in simp)
qed (use kok_enter [OF k] i in simp_all)

section \<open>Properties\<close>

lemma minv_hold: "minv W U M k \<Longrightarrow> 0 < h \<Longrightarrow> minv W U M (upd_mutex m (\<lambda>mtx. mtx\<lparr>mtx_hold := h\<rparr>) k)"
  by (auto simp: minv_def mutex_ok_def upd_defs rt_object_get_type_def)

text \<open>The owner of \<open>m\<close> does not, through the mutexes it waits for, wait for \<open>t\<close>.\<close>

definition no_deadlock :: "tid \<Rightarrow> mid \<Rightarrow> kernel \<Rightarrow> bool" where
  "no_deadlock t m k \<longleftrightarrow> (\<forall>r. mtx_owner (mutexes k m) = Some r \<and> r \<noteq> t \<longrightarrow> (\<exists>ts. wait_chain k r ts \<and> t \<notin> set ts))"

definition mutex_taken :: "mid \<Rightarrow> u32 \<Rightarrow> tid \<Rightarrow> kernel \<Rightarrow> rt_err_t outcome \<Rightarrow> kernel \<Rightarrow> bool" where
  "mutex_taken m timeout t k out k' \<longleftrightarrow> (case mtx_owner (mutexes k m) of
     None \<Rightarrow> out = Returned RT_EOK \<and> mtx_owner (mutexes k' m) = Some t \<and> mtx_hold (mutexes k' m) = 1 \<and>
       th_prio k' t = min (th_prio k t) (unat (mtx_ceiling_priority (mutexes k m)))
   | Some r \<Rightarrow>
       if r = t then
         (if mtx_hold (mutexes k m) < RT_MUTEX_HOLD_MAX
          then out = Returned RT_EOK \<and> mutexes k' = (mutexes k)(m := (mutexes k m)\<lparr>mtx_hold := mtx_hold (mutexes k m) + 1\<rparr>)
          else out = Returned (- RT_EFULL) \<and> mutexes k' = mutexes k)
       else if timeout = 0 then out = Returned (- RT_ETIMEOUT) \<and> mutexes k' = mutexes k
       else out = Waiting \<and> mutex_waits t m timeout k k' \<and> th_prio k' r \<le> th_prio k t)"

lemma mutex_section_wp:
  assumes k: "kok n k" and i: "minv {} {} {} k" and Q: "\<And>k'. kok n k' \<Longrightarrow> minv {} {} {} k' \<Longrightarrow> mutexes k' = mutexes k \<Longrightarrow> Q k'"
  shows "wp (rt_exit_critical (rt_enter_critical k)) Q"
  by (rule kok_section_wp [OF k]) (use Q i minv_sched_only same_but_schedD(5) [OF sched_onlyD(1)] in blast)

text \<open>The two halves of \<^verbatim>\<open>_rt_mutex_take\<close> that do more than leave the section.\<close>

lemma take_free_wp:
  assumes k: "kok (Suc n) k" and m: "may_block t k" and i: "minv {} {} {} k" and ip: "th_init_priority (threads k t) < 32"
    and ob: "rt_object_get_type (OMutex m) k = RT_Object_Class_Mutex" "ob_flag (objects k (OMutex m)) = RT_IPC_FLAG_PRIO"
    and c: "mtx_ceiling_priority (mutexes k m) = 0xff \<or> mtx_ceiling_priority (mutexes k m) < 32"
    and o: "mtx_owner (mutexes k m) = None"
  shows "wp (mutex_take m timeout flag k) (\<lambda>(out, k'). kok (Suc n) k' \<and> minv {} {} {} k' \<and> mutex_taken m timeout t k out k')"
proof -
  let ?e = "upd_thread t (\<lambda>th. th\<lparr>th_error := RT_EOK\<rparr>) (rt_enter_critical k)" and ?c = "mtx_ceiling_priority (mutexes k m)"
  let ?k = "upd_mutex m (\<lambda>mtx. mtx\<lparr>mtx_owner := Some t, mtx_priority := 0xff, mtx_hold := 1\<rparr>) ?e"
  have ct: "rt_current_thread k = Some t" "th_code k t = RT_THREAD_RUNNING" using m by (simp_all add: may_block_def)
  have "wp (if ?c \<noteq> 0xff \<and> unat ?c < th_prio ?e t then thread_update_priority t ?c ?k else Some ?k)
     (\<lambda>k2. wp (rt_exit_critical (taken_insert t m k2)) (\<lambda>k'. kok (Suc n) k' \<and> minv {} {} {} k' \<and>
        mtx_owner (mutexes k' m) = Some t \<and> mtx_hold (mutexes k' m) = 1 \<and> th_prio k' t = take_prio m t k))"
  proof (rule mutex_free_wp)
    fix k2 assume k2: "kok n (taken_insert t m k2)" "minv {} {} {} (taken_insert t m k2)" "reprio t (take_prio m t ?e) ?k k2"
    note R = reprioD [OF k2(3)] and S = same_but_schedD [OF reprioD(1) [OF k2(3)]]
    show "wp (rt_exit_critical (taken_insert t m k2)) (\<lambda>k'. kok (Suc n) k' \<and> minv {} {} {} k' \<and>
        mtx_owner (mutexes k' m) = Some t \<and> mtx_hold (mutexes k' m) = 1 \<and> th_prio k' t = take_prio m t k)"
    proof (rule exit_outer_wp [OF k k2(1)])
      fix k' assume k': "kok (Suc n) k'"
        "sched_only ((taken_insert t m k2)\<lparr>rt_scheduler_lock_nest := rt_scheduler_lock_nest k\<rparr>) k'"
      show "kok (Suc n) k' \<and> minv {} {} {} k' \<and> mtx_owner (mutexes k' m) = Some t \<and> mtx_hold (mutexes k' m) = 1 \<and>
        th_prio k' t = take_prio m t k"
        using k'(1) k2(2) minv_sched_only [OF k'(2)] same_but_schedD(5) [OF sched_onlyD(1) [OF k'(2)]] S(5) R(6) [of t]
          sched_onlyD(5) [OF k'(2), of t]
        by (simp add: taken_insert_def upd_defs take_prio_def)
    qed (simp add: taken_insert_def upd_defs S)
  qed (use kok_enter [OF k] i ct ip ob c o in \<open>simp_all add: upd_sel rt_object_get_type_def\<close>)
  then show ?thesis
    unfolding mutex_take_def spin_defs rt_thread_self_def
    using may_block_debug [OF m] ct ob o
    by (auto simp: rt_sched_thread_get_curr_prio_def mutex_taken_def take_prio_def upd_sel Let_def elim!: wp_mono cong: if_cong)
qed

lemma take_wait_wp:
  assumes k: "kok (Suc n) k" and m: "may_block t k" and i: "minv {} {} {} k" and ip: "th_init_priority (threads k t) < 32"
    and ob: "rt_object_get_type (OMutex m) k = RT_Object_Class_Mutex"
    and o: "mtx_owner (mutexes k m) = Some r" "r \<noteq> t" and ch: "wait_chain k r ts" "t \<notin> set ts"
    and to: "timeout \<noteq> 0x7fffffff" "timeout \<noteq> 0"
  shows "wp (mutex_take m timeout flag k) (\<lambda>(out, k'). kok (Suc n) k' \<and> minv {} {} {} k' \<and> out = Waiting \<and>
     mutex_waits t m timeout k k')"
proof -
  let ?e = "upd_thread t (\<lambda>th. th\<lparr>th_error := RT_EOK\<rparr>) (rt_enter_critical k)"
  obtain t0 where t0: "th_code k t0 = RT_THREAD_READY" using m by (auto simp: may_block_def)
  have ct: "rt_current_thread k = Some t" "th_code k t = RT_THREAD_RUNNING" "rt_scheduler_lock_nest k = 0" "tt_wf k t"
    using m by (simp_all add: may_block_def)
  have "wait_chain ?e r ts"
    by (rule wait_chain_cong [OF _ _ _ ch(1)]) (simp_all add: upd_defs thread_suspended_def)
  moreover have "Suc n < 0x8000" using k ct(3) by (simp add: kok_def nest_room_def)
  ultimately have "wp (rt_thread_suspend_to_list t (Some (MutexL m)) (ob_flag (objects ?e (OMutex m))) flag ?e) (\<lambda>(ret, k1). ret = 0 \<and>
     wp (mutex_inherit m t (upd_thread t (\<lambda>th. th\<lparr>th_pending_object := Some m\<rparr>) k1)) (\<lambda>k2.
       wp (if 0 < sint timeout then start_thread_timer t timeout k2 else Some k2) (\<lambda>k3. wp (rt_exit_critical k3)
         (\<lambda>k'. kok (Suc n) k' \<and> minv {} {} {} k' \<and> mutex_waits t m timeout k k'))))"
    using kok_enter [OF k] i ip ct t0 o ch(2) to(1)
    by (intro mutex_wait_wp [where r = r and ts = ts and ?t0.0 = t0])
       (auto simp: upd_sel tt_wf_def rt_object_get_type_def mutex_waits_def)
  then show ?thesis
    unfolding mutex_take_def spin_defs rt_thread_self_def
    using may_block_debug [OF m] ct ob o to(2)
    by (auto simp: upd_sel Let_def mutex_waits_def elim!: wp_mono)
qed

text \<open>C7. Taking a mutex. A free mutex is taken at once, and the thread is raised to the ceiling; the owner takes it again until
  the hold counter is full (\<^verbatim>\<open>-RT_EFULL\<close>); a mutex of another thread makes the call fail with \<^verbatim>\<open>-RT_ETIMEOUT\<close>
  when it must not wait, and else suspends the caller in the queue, with its timer running, and raises the priority of the
  owner, and of the owners it waits for itself, to at least the caller's. The loop that passes the priority
  on ends when the chain of owners does not lead back to the caller. In every case no thread is left waiting for a mutex whose owner
  has a worse priority.\<close>

theorem rt_mutex_take_correct:
  assumes k: "kok (Suc n) k" and m: "may_block t k" and i: "minv {} {} {} k" and ip: "th_init_priority (threads k t) < 32"
    and ob: "rt_object_get_type (OMutex m) k = RT_Object_Class_Mutex" "ob_flag (objects k (OMutex m)) = RT_IPC_FLAG_PRIO"
    and c: "mtx_ceiling_priority (mutexes k m) = 0xff \<or> mtx_ceiling_priority (mutexes k m) < 32"
    and nd: "no_deadlock t m k" and to: "timeout \<noteq> 0x7fffffff"
  shows "wp (mutex_take m timeout flag k) (\<lambda>(out, k'). kok (Suc n) k' \<and> minv {} {} {} k' \<and> no_inversion k' \<and>
     mutex_taken m timeout t k out k')"
proof -
  let ?t = "upd_thread t (\<lambda>th. th\<lparr>th_error := RT_EOK\<rparr>) k"
  have ct: "rt_current_thread k = Some t" using m by (simp add: may_block_def)
  have kt: "kok (Suc n) ?t" "minv {} {} {} ?t" "mutexes ?t = mutexes k" using k i by (simp_all add: upd_sel)
  note start = mutex_take_def spin_defs rt_thread_self_def
  have "wp (mutex_take m timeout flag k) (\<lambda>(out, k'). kok (Suc n) k' \<and> minv {} {} {} k' \<and> mutex_taken m timeout t k out k')"
  proof (cases "mtx_owner (mutexes k m)")
    case None
    then show ?thesis using take_free_wp [OF k m i ip ob c] by simp
  next
    case (Some r)
    consider (again) "r = t" "mtx_hold (mutexes k m) < 0xff" | (full) "r = t" "\<not> mtx_hold (mutexes k m) < 0xff"
      | (no) "r \<noteq> t" "timeout = 0" | (wait) "r \<noteq> t" "timeout \<noteq> 0" by blast
    then show ?thesis
    proof cases
      case again
      let ?k = "upd_mutex m (\<lambda>mtx. mtx\<lparr>mtx_hold := mtx_hold mtx + 1\<rparr>) ?t"
      have "?k = upd_mutex m (\<lambda>mtx. mtx\<lparr>mtx_hold := mtx_hold (mutexes k m) + 1\<rparr>) ?t" by (simp add: upd_defs)
      moreover have "0 < mtx_hold (mutexes k m) + 1" using unat_inc_less [OF again(2)] by (simp add: word_less_nat_alt)
      ultimately have "minv {} {} {} ?k" using minv_hold [OF kt(2)] by simp
      then show ?thesis unfolding start using may_block_debug [OF m] ct ob(1) Some again kt(1)
        by (auto simp: enter_commute upd_sel mutex_taken_def intro!: mutex_section_wp)
    next
      case full
      show ?thesis unfolding start using may_block_debug [OF m] ct ob(1) Some full kt
        by (auto simp: enter_commute upd_sel mutex_taken_def intro!: mutex_section_wp)
    next
      case no
      show ?thesis unfolding start using may_block_debug [OF m] ct ob(1) Some no kt
        by (auto simp: enter_commute upd_sel mutex_taken_def intro!: mutex_section_wp)
    next
      case wait
      then obtain ts where ts: "wait_chain k r ts" "t \<notin> set ts" using nd Some by (auto simp: no_deadlock_def)
      have "th_prio k' r \<le> th_prio k t" if "minv {} {} {} k'" "mutex_waits t m timeout k k'" for k'
      proof -
        have "mtx_owner (mutexes k' m) = Some r" "t \<in> set (tlists k' (MutexL m))" "th_prio k' t = th_prio k t"
          using that(2) Some by (simp_all add: mutex_waits_def)
        then show ?thesis using minv_no_inversion [OF that(1)] unfolding no_inversion_def by metis
      qed
      with take_wait_wp [OF k m i ip ob(1) Some wait(1) ts to wait(2), of flag] show ?thesis
        using Some wait by (auto simp: mutex_taken_def elim!: wp_mono)
    qed
  qed
  then show ?thesis using minv_no_inversion by (auto elim!: wp_mono)
qed

lemma release_last_wp:
  assumes k: "kok (Suc n) k" and ct: "rt_current_thread k = Some t" "th_code k t = RT_THREAD_RUNNING" "rt_interrupt_get_nest k = 0"
    and i: "minv {} {} {} k" and ty: "rt_object_get_type (OMutex m) k = RT_Object_Class_Mutex"
    and o: "mtx_owner (mutexes k m) = Some t" "mtx_hold (mutexes k m) = 1"
  shows "wp (rt_mutex_release m k) (\<lambda>(ret, k'). kok (Suc n) k' \<and> minv {} {} {} k' \<and> ret = RT_EOK \<and>
     th_prio k' t = (if mtx_ceiling_priority (mutexes k m) \<noteq> 0xff \<or> th_prio k t = unat (mtx_priority (mutexes k m))
        then held_prio t (set (th_taken_object_list (threads k t)) - {m}) k else th_prio k t) \<and>
     (case tlists k (MutexL m) of
        [] \<Rightarrow> mtx_owner (mutexes k' m) = None
      | w # ws \<Rightarrow> mtx_owner (mutexes k' m) = Some w \<and> mtx_hold (mutexes k' m) = 1 \<and> tlists k' (MutexL m) = ws \<and>
          \<not> thread_suspended k' w \<and> th_error (threads k' w) = th_error (threads k w)))" (is "wp _ ?P")
proof -
  let ?h = "upd_mutex m (\<lambda>mtx. mtx\<lparr>mtx_hold := mtx_hold mtx - 1\<rparr>) (rt_enter_critical k)" and ?r = "\<lambda>k. taken_remove m k"
  have D: "mutex_ok {} {} k m" using minvD [OF i] by simp
  note ip = mutex_ok_owned(6) [OF D o(1)]
  have rl: "released m (?r ?h)" using kok_enter [OF k] i o by (intro released_remove) simp_all
  have kh: "kok n (?r ?h)" using kok_enter [OF k] by simp
  have f: "th_prio (?r ?h) t' = th_prio k t'" "tlists (?r ?h) = tlists k" "th_error (threads (?r ?h) t') = th_error (threads k t')" for t'
    by (simp_all add: taken_remove_def upd_sel)
  have "held_prio t (set (removeAll m (th_taken_object_list (threads k t)))) (?r ?h) = held_prio t (set (th_taken_object_list (threads k t)) - {m}) k"
    unfolding set_removeAll by (rule held_prio_cong) (auto simp: taken_remove_def upd_sel)
  then have pr: "drop_prio m t (?r ?h) = (if mtx_ceiling_priority (mutexes k m) \<noteq> 0xff \<or> th_prio k t = unat (mtx_priority (mutexes k m))
        then held_prio t (set (th_taken_object_list (threads k t)) - {m}) k else th_prio k t)"
    using get_mutex_priority_eq [of "?r ?h" t] ip by (simp add: drop_prio_def taken_remove_def upd_sel)
  have "wp (do {
     (need_schedule, k) \<leftarrow> check_and_update_prio t m (?r ?h);
     if tlists k (MutexL m) \<noteq> [] then do {
       (next_thread, k) \<leftarrow> mutex_wake_loop m k;
       case next_thread of
         Some t \<Rightarrow> Some (True, mutex_hand_over m t k)
       | None \<Rightarrow> Some (need_schedule, mutex_clear_owner m k)
     } else Some (need_schedule, mutex_clear_owner m k) })
     (\<lambda>(b, k2). wp (rt_exit_critical k2) (\<lambda>k3. wp (if b then rt_schedule k3 else Some k3) (\<lambda>k'. ?P (0, k'))))"
  proof (rule give_up_wp [OF kh rl])
    fix b k2 assume k2: "kok n k2" "minv {} {} {} k2" "rt_scheduler_lock_nest k2 = rt_scheduler_lock_nest (?r ?h)"
      "rt_current_thread k2 \<noteq> None" "th_prio k2 t = drop_prio m t (?r ?h)"
      "case tlists (?r ?h) (MutexL m) of [] \<Rightarrow> mtx_owner (mutexes k2 m) = None
       | w # ws \<Rightarrow> mtx_owner (mutexes k2 m) = Some w \<and> mtx_hold (mutexes k2 m) = 1 \<and> tlists k2 (MutexL m) = ws \<and>
           \<not> thread_suspended k2 w \<and> th_error (threads k2 w) = th_error (threads (?r ?h) w)"
    have "wp (rt_exit_critical k2) (\<lambda>k3. wp (if b then rt_schedule k3 else Some k3) (\<lambda>k'. ?P (0, k')))"
    proof (rule leave_wp [OF k k2(1)])
      fix k' assume k': "kok (Suc n) k'" "sched_only (k2\<lparr>rt_scheduler_lock_nest := rt_scheduler_lock_nest k\<rparr>) k'"
      note S = sched_onlyD [OF k'(2)] and F = same_but_schedD [OF sched_onlyD(1) [OF k'(2)]]
      have "minv {} {} {} k'" using minv_sched_only [OF k'(2)] k2(2) by simp
      moreover have "th_prio k' t = drop_prio m t (?r ?h)" using S(5) [of t] k2(5) by simp
      ultimately show "?P (0, k')"
        using k'(1) pr k2(6) S(3) [of "MutexL m"] S(4,7) F(5) by (auto simp: f thread_suspended_def split: list.splits)
    qed (use k2 in \<open>simp_all add: taken_remove_def upd_sel\<close>)
    then show "case (b, k2) of (b, k2) \<Rightarrow> wp (rt_exit_critical k2) (\<lambda>k3. wp (if b then rt_schedule k3 else Some k3) (\<lambda>k'. ?P (0, k')))"
      by simp
  qed (use ip ct in \<open>simp_all add: taken_remove_def upd_sel\<close>)
  then show ?thesis
    unfolding rt_mutex_release_def spin_defs rt_thread_self_def
    using ct ty o by (simp add: debug_in_thread_context_def debug_not_in_interrupt_def upd_sel case_prod_unfold Let_def)
qed

text \<open>C8. Releasing a mutex. Only the owner may: any other thread gets \<^verbatim>\<open>-RT_ERROR\<close>. A mutex taken several times only counts
  down. The last release hands the mutex to the first waiter, the one of the best priority, which is woken, and leaves it free if
  nobody waits. If the mutex has a ceiling, or the thread runs at the priority it inherited from the waiters of this mutex, the thread falls
  back exactly to the best of its own priority and the priorities and ceilings of the mutexes it still holds; otherwise it
  keeps its priority. No priority inversion is left.\<close>

theorem rt_mutex_release_correct:
  assumes k: "kok (Suc n) k" and ct: "rt_current_thread k = Some t" "th_code k t = RT_THREAD_RUNNING" "rt_interrupt_get_nest k = 0"
    and i: "minv {} {} {} k" and ty: "rt_object_get_type (OMutex m) k = RT_Object_Class_Mutex"
  shows "wp (rt_mutex_release m k) (\<lambda>(ret, k'). kok (Suc n) k' \<and> minv {} {} {} k' \<and> no_inversion k' \<and>
     (if mtx_owner (mutexes k m) \<noteq> Some t then ret = - RT_ERROR \<and> mutexes k' = mutexes k
      else ret = RT_EOK \<and>
        (if mtx_hold (mutexes k m) > 1
         then mutexes k' = (mutexes k)(m := (mutexes k m)\<lparr>mtx_hold := mtx_hold (mutexes k m) - 1\<rparr>)
         else th_prio k' t = (if mtx_ceiling_priority (mutexes k m) \<noteq> 0xff \<or> th_prio k t = unat (mtx_priority (mutexes k m))
                then held_prio t (set (th_taken_object_list (threads k t)) - {m}) k else th_prio k t) \<and>
           (case tlists k (MutexL m) of
              [] \<Rightarrow> mtx_owner (mutexes k' m) = None
            | w # ws \<Rightarrow> mtx_owner (mutexes k' m) = Some w \<and> mtx_hold (mutexes k' m) = 1 \<and> tlists k' (MutexL m) = ws \<and>
                \<not> thread_suspended k' w \<and> th_error (threads k' w) = th_error (threads k w)))))"
proof -
  have D: "mutex_ok {} {} k m" using minvD [OF i] by simp
  note start = rt_mutex_release_def spin_defs rt_thread_self_def
  have d: "debug_in_thread_context k" using ct by (simp add: debug_in_thread_context_def debug_not_in_interrupt_def)
  have "mtx_hold (mutexes k m) = 1 \<or> mtx_hold (mutexes k m) > 1" if "mtx_owner (mutexes k m) = Some t"
    using mutex_ok_owned(2) [OF D that] by (auto simp: word_less_nat_alt word_unat_eq_iff)
  then consider (other) "mtx_owner (mutexes k m) \<noteq> Some t" | (again) "mtx_owner (mutexes k m) = Some t" "mtx_hold (mutexes k m) > 1"
    | (last) "mtx_owner (mutexes k m) = Some t" "mtx_hold (mutexes k m) = 1"
    by blast
  then show ?thesis
  proof cases
    case other
    let ?t = "upd_thread t (\<lambda>th. th\<lparr>th_error := - RT_ERROR\<rparr>) k"
    have "kok (Suc n) ?t" "minv {} {} {} ?t" "mutexes ?t = mutexes k" using k i by (simp_all add: upd_sel)
    then show ?thesis unfolding start using ct(1) ty d other minv_no_inversion
      by (auto simp: enter_commute upd_sel intro!: mutex_section_wp)
  next
    case again
    let ?k = "upd_mutex m (\<lambda>mtx. mtx\<lparr>mtx_hold := mtx_hold mtx - 1\<rparr>) k"
    have h: "0 < mtx_hold (mutexes k m) - 1" "mtx_hold (mutexes k m) - 1 \<noteq> 0" using again(2) by (auto simp: word_gt_0)
    have "?k = upd_mutex m (\<lambda>mtx. mtx\<lparr>mtx_hold := mtx_hold (mutexes k m) - 1\<rparr>) k" by (simp add: upd_defs)
    then have "minv {} {} {} ?k" using minv_hold [OF i h(1)] by simp
    then show ?thesis unfolding start using k ct(1) ty d again h(2) minv_no_inversion
      by (auto simp: enter_commute upd_sel intro!: mutex_section_wp)
  next
    case last
    then show ?thesis
      using release_last_wp [OF k ct i ty last] minv_no_inversion by (auto elim!: wp_mono)
  qed
qed

text \<open>C9. How a take that waited ends, when its thread \<open>t\<close> runs again. If the mutex was handed over, the call returns
  \<^verbatim>\<open>RT_EOK\<close> and \<open>t\<close> owns it. If the thread was woken by its timer or by another error, the call returns the error as a negative
  code, no mutex changes hands, \<open>t\<close> no longer counts as a waiter, and the priorities are recomputed: the mutex has the priority of
  its first waiter again, or none; an owner that ran at the priority of \<open>t\<close> runs exactly at the best of its own priority and the priorities
  and ceilings of the mutexes it holds, and another owner keeps its priority. The change is passed on along the owners the owner waits
  for, and no priority inversion is left.\<close>

theorem rt_mutex_take_completion:
  assumes k: "kok (Suc n) k" and m: "may_block t k" "chosen t k" and i: "minv {} {} {} k"
    and e: "th_error (threads k t) = e" "e = RT_EOK \<longleftrightarrow> mtx_owner (mutexes k m) = Some t"
    and ch: "\<And>r. mtx_owner (mutexes k m) = Some r \<Longrightarrow> \<exists>ts. wait_chain k r ts"
  shows "wp (mutex_take_end t m k) (\<lambda>(out, k'). kok (Suc n) k' \<and> minv {} {} {} k' \<and> no_inversion k' \<and>
     out = Returned (if e > 0 then - e else e) \<and> (\<forall>m'. mtx_owner (mutexes k' m') = mtx_owner (mutexes k m')) \<and>
     (e \<noteq> RT_EOK \<longrightarrow> th_pending_object (threads k' t) = None \<and>
        wait_dropped m t k k'))" (is "wp _ ?P")
proof -
  have "wp (rt_schedule k) (\<lambda>k1. th_error (threads k1 t) = e \<and> mutexes k1 = mutexes k \<and>
     (if e = 0 then wp (rt_exit_critical (rt_enter_critical k1)) (\<lambda>k'. ?P (Returned 0, k'))
      else wp (mutex_drop_update m t (rt_enter_critical k1)) (\<lambda>k2. wp (rt_exit_critical k2)
        (\<lambda>k'. ?P (Returned (if e > 0 then - e else e), upd_thread t (\<lambda>th. th\<lparr>th_pending_object := None\<rparr>) k')))))"
  proof (rule chosen_schedule_wp [OF k m])
    fix k1 assume k1: "kok (Suc n) k1" "sched_only k k1" "may_block t k1"
    note S = sched_onlyD [OF k1(2)] and F = same_but_schedD [OF sched_onlyD(1) [OF k1(2)]]
    have i1: "minv {} {} {} k1" using minv_sched_only [OF k1(2)] i by simp
    have e1: "th_error (threads k1 t) = e" "mutexes k1 = mutexes k" using S(7) e(1) F(5) by simp_all
    have ns: "\<not> thread_suspended k1 t" using running_prio(3) [OF k1(1)] k1(3) by (simp add: may_block_def)
    have "\<exists>ts. wait_chain k1 r ts" if o: "mtx_owner (mutexes k1 m) = Some r" for r
    proof -
      obtain ts where "wait_chain k r ts" using ch o e1(2) by auto
      then have "wait_chain k1 r ts" by (rule wait_chain_cong [rotated 3]) (use S(3,4,10) F(5) in simp_all)
      then show ?thesis by blast
    qed
    then have fail: "wp (mutex_drop_update m t (rt_enter_critical k1)) (\<lambda>k2. wp (rt_exit_critical k2)
        (\<lambda>k'. ?P (Returned (if e > 0 then - e else e), upd_thread t (\<lambda>th. th\<lparr>th_pending_object := None\<rparr>) k')))"
      by (rule give_up_wait_wp [OF k1(1) i1 ns, where Q = "\<lambda>k'. ?P (Returned (if e > 0 then - e else e), k')"])
         (use e1(2) minv_no_inversion wait_dropped_start [of k1 k m t] S(5,6,9) S(3) [of "MutexL m"] in auto)
    show "th_error (threads k1 t) = e \<and> mutexes k1 = mutexes k \<and>
     (if e = 0 then wp (rt_exit_critical (rt_enter_critical k1)) (\<lambda>k'. ?P (Returned 0, k'))
      else wp (mutex_drop_update m t (rt_enter_critical k1)) (\<lambda>k2. wp (rt_exit_critical k2)
        (\<lambda>k'. ?P (Returned (if e > 0 then - e else e), upd_thread t (\<lambda>th. th\<lparr>th_pending_object := None\<rparr>) k'))))"
    proof (cases "e = 0")
      case True
      then show ?thesis using e1 mutex_section_wp [OF k1(1) i1] minv_no_inversion by auto
    next
      case False
      then show ?thesis using e1 fail by (simp only: if_False simp_thms)
    qed
  qed
  then show ?thesis using e unfolding mutex_take_end_def spin_defs by (auto elim!: wp_mono split: if_splits)
qed

section \<open>Samples\<close>

text \<open>Thread 4, of priority 20, owns mutex 2, and thread 2, of priority 10, is about to take it.\<close>

definition sample_mutex :: kernel where
  "sample_mutex = upd_object (OMutex 2) (\<lambda>ob. ob\<lparr>ob_flag := RT_IPC_FLAG_PRIO\<rparr>)
     (upd_mutex 2 (\<lambda>_. \<lparr>mtx_ceiling_priority = 0xff, mtx_priority = 0xff, mtx_hold = 1, mtx_owner = Some 4\<rparr>)
       (upd_thread 4 (\<lambda>th. th\<lparr>th_taken_object_list := [2]\<rparr>) sample_block))"

lemma sample_mutex_facts:
  "kok 8 sample_mutex" "may_block 2 sample_mutex" "chosen 2 sample_mutex" "minv {} {} {} sample_mutex"
  "wait_chain sample_mutex 4 []" "mtx_owner (mutexes sample_mutex 2) = Some 4" "th_init_priority (threads sample_mutex 2) = 10"
  "rt_object_get_type (OMutex 2) sample_mutex = RT_Object_Class_Mutex" "ob_flag (objects sample_mutex (OMutex 2)) = RT_IPC_FLAG_PRIO"
  "mtx_ceiling_priority (mutexes sample_mutex 2) = 0xff" "th_prio sample_mutex 2 = 10"
proof -
  have "kok 8 (upd_thread 4 (\<lambda>th. th\<lparr>th_taken_object_list := [2]\<rparr>) sample_block)"
    by (subst kok_upd_thread) (simp_all add: thread_view_def kok_sample_block)
  then show "kok 8 sample_mutex" unfolding sample_mutex_def by (subst kok_upd_object) simp_all
  show "may_block 2 sample_mutex"
    using may_block_sample unfolding may_block_def
    by (auto simp: sample_mutex_def upd_sel rt_interrupt_get_nest_def tt_wf_def rt_object_get_type_def)
  show "chosen 2 sample_mutex"
    unfolding chosen_def by (auto simp: sample_mutex_def upd_sel sample_ready keeps_cpu_def split: if_splits)
  have "mutex_ok {} {} sample_mutex m" for m
    unfolding mutex_ok_def
    by (auto simp: sample_mutex_def upd_sel rt_object_get_type_def sample_type_def zero_object_def sample_kernel_def zero_kernel_def
        sample_thread_def zero_thread_def zero_mutex_def split: if_splits)
  then show "minv {} {} {} sample_mutex" by (simp add: minv_def)
qed (simp_all add: sample_mutex_def upd_sel rt_object_get_type_def sample_type_def zero_object_def thread_suspended_def
      sample_thread_def zero_thread_def)

theorem rt_mutex_take_correct_witness:
  "wp (mutex_take 2 5 RT_UNINTERRUPTIBLE sample_mutex) (\<lambda>(out, k'). kok 8 k' \<and> no_inversion k' \<and> out = Waiting \<and>
     mutex_waits 2 2 5 sample_mutex k' \<and> th_prio k' 4 \<le> 10)"
proof -
  note F = sample_mutex_facts
  have "no_deadlock 2 2 sample_mutex" using F(5,6) by (auto simp: no_deadlock_def intro: exI [of _ "[]"])
  then show ?thesis
    using rt_mutex_take_correct [of 7 sample_mutex 2 2 5 RT_UNINTERRUPTIBLE] F by (auto simp: mutex_taken_def elim!: wp_mono)
qed

theorem rt_mutex_take_completion_witness:
  "wp (mutex_take_end 2 2 (upd_thread 2 (\<lambda>th. th\<lparr>th_error := - RT_ETIMEOUT\<rparr>) sample_mutex)) (\<lambda>(out, k').
     kok 8 k' \<and> no_inversion k' \<and> out = Returned (- RT_ETIMEOUT) \<and> mtx_owner (mutexes k' 2) = Some 4 \<and> th_prio k' 4 = th_prio sample_mutex 4)"
proof -
  note F = sample_mutex_facts
  let ?k = "upd_thread 2 (\<lambda>th. th\<lparr>th_error := - RT_ETIMEOUT\<rparr>) sample_mutex"
  have c: "th_code ?k t = th_code sample_mutex t" "th_prio ?k t = th_prio sample_mutex t" for t by (simp_all add: upd_sel)
  have "may_block 2 ?k" "chosen 2 ?k"
    using F(2,3) unfolding may_block_def chosen_def keeps_cpu_def c
    by (simp_all add: upd_sel rt_interrupt_get_nest_def tt_wf_def rt_object_get_type_def)
  moreover have "\<exists>ts. wait_chain ?k 4 ts"
    using F(5) by (intro exI [of _ "[]"]) (simp add: thread_suspended_def upd_sel)
  moreover have "th_prio sample_mutex 4 \<noteq> th_prio sample_mutex 2"
    by (simp add: sample_mutex_def upd_sel sample_kernel_def sample_thread_def)
  ultimately show ?thesis
    using rt_mutex_take_completion [of 7 ?k 2 "- RT_ETIMEOUT" 2] F(1,4,6) by (auto simp: upd_sel wait_dropped_def elim!: wp_mono)
qed

text \<open>Thread 2 owns mutex 2 and runs at the priority of thread 5, which waits for it.\<close>

definition sample_inherit :: kernel where
  "sample_inherit = sample_kernel\<lparr>
     objects := (objects sample_kernel)(OMutex 2 := zero_object\<lparr>ob_type := 0x83, ob_flag := RT_IPC_FLAG_PRIO\<rparr>),
     threads := (threads sample_kernel)(2 := (sample_thread 10 RT_THREAD_RUNNING)\<lparr>th_current_priority := 5,
         th_number_mask := prio_mask 5, th_taken_object_list := [2]\<rparr>,
       5 := (sample_thread 5 RT_THREAD_SUSPEND)\<lparr>th_pending_object := Some 2\<rparr>),
     mutexes := (mutexes sample_kernel)(2 := \<lparr>mtx_ceiling_priority = 0xff, mtx_priority = 5, mtx_hold = 1, mtx_owner = Some 2\<rparr>),
     tlists := (tlists sample_kernel)(SemL 2 := [], MutexL 2 := [5])\<rparr>"

lemma sample_inherit_facts:
  "kok 8 sample_inherit" "minv {} {} {} sample_inherit"
proof -
  have "thread_ok sample_inherit t" for t
    unfolding thread_ok_def
    by (intro conjI allI impI)
      (auto simp: sample_inherit_def sample_kernel_def zero_kernel_def zero_thread_def sample_thread_def
        thread_suspended_def split: if_splits)
  then have "kinv sample_inherit"
    by (auto simp: kinv_def kglobal_def lists_ok_def group_ok_def sample_inherit_def sample_kernel_def zero_kernel_def
       bit_or_iff bit_prio_mask)
  then show "kok 8 sample_inherit"
    by (auto simp: kok_def nest_room_def ttmr_ok_def sample_inherit_def sample_kernel_def zero_kernel_def sample_thread_def zero_thread_def)
  have "mutex_ok {} {} sample_inherit m" for m
    unfolding mutex_ok_def
    by (auto simp: sample_inherit_def rt_object_get_type_def sample_kernel_def zero_kernel_def
        sample_thread_def zero_thread_def zero_mutex_def zero_object_def split: if_splits)
  then show "minv {} {} {} sample_inherit" by (simp add: minv_def)
qed

theorem rt_mutex_release_correct_witness:
  "wp (rt_mutex_release 2 sample_inherit) (\<lambda>(ret, k'). kok 8 k' \<and> no_inversion k' \<and> ret = RT_EOK \<and> th_prio k' 2 = 10 \<and>
     mtx_owner (mutexes k' 2) = Some 5 \<and> \<not> thread_suspended k' 5)"
  using rt_mutex_release_correct [of 7 sample_inherit 2 2] sample_inherit_facts
  by (auto simp: sample_inherit_def rt_interrupt_get_nest_def rt_object_get_type_def zero_object_def sample_kernel_def zero_kernel_def
      sample_thread_def zero_thread_def held_prio_def elim!: wp_mono)

end
