(* ===== verification/MemHeap_Core.thy ===== *)
theory MemHeap_Core
  imports Semaphore Mutex
begin

text \<open>
  The dynamic memory of the configuration: the memory heap of \<^verbatim>\<open>src/memheap.c\<close> and the
  system heap of \<^verbatim>\<open>src/kservice.c\<close> on top of it (\<^verbatim>\<open>RT_USING_MEMHEAP_AS_HEAP\<close>,
  \<^verbatim>\<open>RT_USING_MEMHEAP_AUTO_BINDING\<close>, \<^verbatim>\<open>RT_MEMHEAP_FAST_MODE\<close>; no
  \<^verbatim>\<open>RT_USING_MEMTRACE\<close>).

  Memory is a partial function from word addresses to words, as the processor sees it: the headers
  of the blocks and the data of the blocks live in it, a field of a header is a word at its offset,
  and an access outside of it is \<open>None\<close>. The structure \<^verbatim>\<open>struct rt_memheap\<close> is the
  record \<open>rt_memheap\<close>, except for the embedded item \<^verbatim>\<open>free_header\<close>, which the free
  list links to and which therefore lives in memory, at its offset 48, and for the embedded semaphore
  \<^verbatim>\<open>lock\<close>, at offset 72, which is a semaphore of the kernel.
\<close>

section \<open>Memory\<close>

type_synonym memory = "u32 \<rightharpoonup> u32"

definition ld :: "u32 \<Rightarrow> memory \<Rightarrow> u32 option" where
  "ld a m = m a"

definition st :: "u32 \<Rightarrow> u32 \<Rightarrow> memory \<Rightarrow> memory option" where
  "st a v m = (if m a = None then None else Some (m(a \<mapsto> v)))"

text \<open>The bytes of a word, least significant first.\<close>

definition ld_byte :: "u32 \<Rightarrow> memory \<Rightarrow> u8 option" where
  "ld_byte a m = map_option (\<lambda>w. ucast (drop_bit (8 * unat (a AND 3)) w)) (ld (a AND NOT 3) m)"

definition st_byte :: "u32 \<Rightarrow> u8 \<Rightarrow> memory \<Rightarrow> memory option" where
  "st_byte a b m = do {
     w \<leftarrow> ld (a AND NOT 3) m;
     let s = 8 * unat (a AND 3);
     st (a AND NOT 3) ((w AND NOT (push_bit s 0xff)) OR push_bit s (ucast b)) m
   }"

text \<open>\<^verbatim>\<open>rt_memcpy\<close>: the loops that copy long words (the first of them four at a time), and the
  loop that copies bytes.\<close>

fun copy_longs :: "nat \<Rightarrow> u32 \<Rightarrow> u32 \<Rightarrow> memory \<Rightarrow> memory option" where
  "copy_longs 0 dst src m = Some m"
| "copy_longs (Suc n) dst src m = do {
     v \<leftarrow> ld src m;
     m \<leftarrow> st dst v m;
     copy_longs n (dst + 4) (src + 4) m
   }"

fun copy_bytes :: "nat \<Rightarrow> u32 \<Rightarrow> u32 \<Rightarrow> memory \<Rightarrow> memory option" where
  "copy_bytes 0 dst src m = Some m"
| "copy_bytes (Suc n) dst src m = do {
     v \<leftarrow> ld_byte src m;
     m \<leftarrow> st_byte dst v m;
     copy_bytes n (dst + 1) (src + 1) m
   }"

definition rt_memcpy :: "u32 \<Rightarrow> u32 \<Rightarrow> u32 \<Rightarrow> memory \<Rightarrow> memory option" where
  "rt_memcpy dst src count m =
     (if \<not> count < 16 \<and> (src AND 3) OR (dst AND 3) = 0 then do {
        let n = unat count div 4;
        m \<leftarrow> copy_longs n dst src m;
        copy_bytes (unat count mod 4) (dst + 4 * of_nat n) (src + 4 * of_nat n) m
      } else copy_bytes (unat count) dst src m)"

section \<open>The structures\<close>

record rt_memheap =
  mh_start_addr :: u32
  mh_pool_size :: u32
  mh_available_size :: u32
  mh_max_used_size :: u32
  mh_block_list :: u32
  mh_free_list :: u32
  mh_locked :: bool

abbreviation (input) free_header :: "u32 \<Rightarrow> u32" where "free_header h \<equiv> h + 48"

definition memheap_lock :: "u32 \<Rightarrow> sid" where
  "memheap_lock h = unat (h + 72)"

abbreviation (input) RT_MEMHEAP_MAGIC :: u32 where "RT_MEMHEAP_MAGIC \<equiv> 0x1ea01ea0"
abbreviation (input) RT_MEMHEAP_MASK :: u32 where "RT_MEMHEAP_MASK \<equiv> 0xFFFFFFFE"
abbreviation (input) RT_MEMHEAP_USED :: u32 where "RT_MEMHEAP_USED \<equiv> 1"
abbreviation (input) RT_MEMHEAP_FREED :: u32 where "RT_MEMHEAP_FREED \<equiv> 0"
abbreviation (input) RT_MEMHEAP_MINIALLOC :: u32 where "RT_MEMHEAP_MINIALLOC \<equiv> 16"
abbreviation (input) RT_MEMHEAP_SIZE :: u32 where "RT_MEMHEAP_SIZE \<equiv> 24"

text \<open>The fields of \<^verbatim>\<open>struct rt_memheap_item\<close>, by their offsets.\<close>

abbreviation i_magic :: "u32 \<Rightarrow> memory \<Rightarrow> u32 option" where "i_magic p \<equiv> ld p"
abbreviation i_pool_ptr :: "u32 \<Rightarrow> memory \<Rightarrow> u32 option" where "i_pool_ptr p \<equiv> ld (p + 4)"
abbreviation i_next :: "u32 \<Rightarrow> memory \<Rightarrow> u32 option" where "i_next p \<equiv> ld (p + 8)"
abbreviation i_prev :: "u32 \<Rightarrow> memory \<Rightarrow> u32 option" where "i_prev p \<equiv> ld (p + 12)"
abbreviation i_next_free :: "u32 \<Rightarrow> memory \<Rightarrow> u32 option" where "i_next_free p \<equiv> ld (p + 16)"
abbreviation i_prev_free :: "u32 \<Rightarrow> memory \<Rightarrow> u32 option" where "i_prev_free p \<equiv> ld (p + 20)"

abbreviation set_magic :: "u32 \<Rightarrow> u32 \<Rightarrow> memory \<Rightarrow> memory option" where "set_magic p \<equiv> st p"
abbreviation set_pool_ptr :: "u32 \<Rightarrow> u32 \<Rightarrow> memory \<Rightarrow> memory option" where "set_pool_ptr p \<equiv> st (p + 4)"
abbreviation set_inext :: "u32 \<Rightarrow> u32 \<Rightarrow> memory \<Rightarrow> memory option" where "set_inext p \<equiv> st (p + 8)"
abbreviation set_iprev :: "u32 \<Rightarrow> u32 \<Rightarrow> memory \<Rightarrow> memory option" where "set_iprev p \<equiv> st (p + 12)"
abbreviation set_next_free :: "u32 \<Rightarrow> u32 \<Rightarrow> memory \<Rightarrow> memory option" where "set_next_free p \<equiv> st (p + 16)"
abbreviation set_prev_free :: "u32 \<Rightarrow> u32 \<Rightarrow> memory \<Rightarrow> memory option" where "set_prev_free p \<equiv> st (p + 20)"

definition memitem_size :: "u32 \<Rightarrow> memory \<Rightarrow> u32 option" where
  "memitem_size p m = do {
     n \<leftarrow> i_next p m;
     Some (n - p - RT_MEMHEAP_SIZE)
   }"

definition memheap_is_used :: "u32 \<Rightarrow> memory \<Rightarrow> bool option" where
  "memheap_is_used p m = do {
     g \<leftarrow> i_magic p m;
     Some (g AND RT_MEMHEAP_USED \<noteq> 0)
   }"

text \<open>The state: the kernel, the heaps by their address, the memory, and \<^verbatim>\<open>__rt_errno\<close>.\<close>

record world =
  kern :: kernel
  heaps :: "u32 \<Rightarrow> rt_memheap"
  wmem :: memory
  rt_errno :: rt_err_t

definition upd_heap :: "u32 \<Rightarrow> rt_memheap \<Rightarrow> memory \<Rightarrow> world \<Rightarrow> world" where
  "upd_heap h hp m w = w\<lparr>heaps := (heaps w)(h := hp), wmem := m\<rparr>"

definition rt_set_errno :: "rt_err_t \<Rightarrow> world \<Rightarrow> world" where
  "rt_set_errno error w =
     (if rt_interrupt_nest (kern w) \<noteq> 0 then w\<lparr>rt_errno := error\<rparr>
      else case rt_current_thread (kern w) of
        None \<Rightarrow> w\<lparr>rt_errno := error\<rparr>
      | Some t \<Rightarrow> w\<lparr>kern := upd_thread t (\<lambda>th. th\<lparr>th_error := error\<rparr>) (kern w)\<rparr>)"

section \<open>Lists of items\<close>

text \<open>The statements the operations share: linking an item at the front of the free list, unlinking
  it, and cutting the block \<open>p\<close> at \<open>n\<close>, where a new free block starts.\<close>

definition memheap_link_free :: "u32 \<Rightarrow> u32 \<Rightarrow> memory \<Rightarrow> memory option" where
  "memheap_link_free fl n m = do {
     f \<leftarrow> i_next_free fl m;
     m \<leftarrow> set_next_free n f m;
     m \<leftarrow> set_prev_free n fl m;
     f \<leftarrow> i_next_free fl m;
     m \<leftarrow> set_prev_free f n m;
     set_next_free fl n m
   }"

definition memheap_unlink_free :: "u32 \<Rightarrow> memory \<Rightarrow> memory option" where
  "memheap_unlink_free p m = do {
     f \<leftarrow> i_next_free p m;
     b \<leftarrow> i_prev_free p m;
     m \<leftarrow> set_prev_free f b m;
     b \<leftarrow> i_prev_free p m;
     f \<leftarrow> i_next_free p m;
     set_next_free b f m
   }"

definition memheap_cut :: "u32 \<Rightarrow> u32 \<Rightarrow> u32 \<Rightarrow> memory \<Rightarrow> memory option" where
  "memheap_cut h p n m = do {
     m \<leftarrow> set_magic n (RT_MEMHEAP_MAGIC OR RT_MEMHEAP_FREED) m;
     m \<leftarrow> set_pool_ptr n h m;
     m \<leftarrow> set_iprev n p m;
     x \<leftarrow> i_next p m;
     m \<leftarrow> set_inext n x m;
     x \<leftarrow> i_next p m;
     m \<leftarrow> set_iprev x n m;
     set_inext p n m
   }"

definition remove_next_ptr :: "u32 \<Rightarrow> memory \<Rightarrow> memory option" where
  "remove_next_ptr p m = do {
     m \<leftarrow> memheap_unlink_free p m;
     x \<leftarrow> i_next p m;
     b \<leftarrow> i_prev p m;
     m \<leftarrow> set_iprev x b m;
     b \<leftarrow> i_prev p m;
     x \<leftarrow> i_next p m;
     set_inext b x m
   }"

section \<open>Initialisation\<close>

definition memheap_format :: "u32 \<Rightarrow> u32 \<Rightarrow> u32 \<Rightarrow> memory \<Rightarrow> memory option" where
  "memheap_format h start avail m = do {
     let item = free_header h;
     m \<leftarrow> set_magic item (RT_MEMHEAP_MAGIC OR RT_MEMHEAP_FREED) m;
     m \<leftarrow> set_pool_ptr item h m;
     m \<leftarrow> set_inext item 0 m;
     m \<leftarrow> set_iprev item 0 m;
     m \<leftarrow> set_next_free item item m;
     m \<leftarrow> set_prev_free item item m;
     let item = start;
     m \<leftarrow> set_magic item (RT_MEMHEAP_MAGIC OR RT_MEMHEAP_FREED) m;
     m \<leftarrow> set_pool_ptr item h m;
     m \<leftarrow> set_inext item 0 m;
     m \<leftarrow> set_iprev item 0 m;
     m \<leftarrow> set_next_free item item m;
     m \<leftarrow> set_prev_free item item m;
     m \<leftarrow> set_inext item (item + avail + RT_MEMHEAP_SIZE) m;
     x \<leftarrow> i_next item m;
     m \<leftarrow> set_iprev item x m;
     m \<leftarrow> memheap_link_free (free_header h) item m;
     item \<leftarrow> i_next item m;
     m \<leftarrow> set_magic item (RT_MEMHEAP_MAGIC OR RT_MEMHEAP_USED) m;
     m \<leftarrow> set_pool_ptr item h m;
     m \<leftarrow> set_inext item start m;
     m \<leftarrow> set_iprev item start m;
     m \<leftarrow> set_prev_free item 0 m;
     set_next_free item 0 m
   }"

definition rt_memheap_init :: "u32 \<Rightarrow> string \<Rightarrow> u32 \<Rightarrow> u32 \<Rightarrow> world \<Rightarrow> (rt_err_t \<times> world) option" where
  "rt_memheap_init h name start nbytes w = do {
     rt_assert (h \<noteq> 0);
     k \<leftarrow> rt_object_init (OMemHeap h) RT_Object_Class_MemHeap name (kern w);
     let pool = rt_align_down nbytes;
     let avail = pool - 2 * RT_MEMHEAP_SIZE;
     m \<leftarrow> memheap_format h start avail (wmem w);
     (_, k) \<leftarrow> rt_sem_init (memheap_lock h) name 1 RT_IPC_FLAG_PRIO k;
     let hp = \<lparr>mh_start_addr = start, mh_pool_size = pool, mh_available_size = avail,
               mh_max_used_size = pool - avail, mh_block_list = start, mh_free_list = free_header h,
               mh_locked = False\<rparr>;
     Some (RT_EOK, upd_heap h hp m (w\<lparr>kern := k\<rparr>))
   }"

definition rt_memheap_detach :: "u32 \<Rightarrow> world \<Rightarrow> (rt_err_t \<times> world) option" where
  "rt_memheap_detach h w = do {
     rt_assert (h \<noteq> 0);
     rt_assert (rt_object_get_type (OMemHeap h) (kern w) = RT_Object_Class_MemHeap);
     rt_assert (rt_object_is_systemobject (OMemHeap h) (kern w));
     (_, k) \<leftarrow> rt_sem_detach (memheap_lock h) (kern w);
     k \<leftarrow> rt_object_detach (OMemHeap h) k;
     Some (RT_EOK, w\<lparr>kern := k\<rparr>)
   }"

section \<open>The lock of a heap\<close>

definition memheap_take :: "u32 \<Rightarrow> world \<Rightarrow> (rt_err_t outcome \<times> world) option" where
  "memheap_take h w =
     (if mh_locked (heaps w h) then Some (Returned RT_EOK, w)
      else do {
        (out, k) \<leftarrow> rt_sem_take (memheap_lock h) RT_WAITING_FOREVER (kern w);
        Some (out, w\<lparr>kern := k\<rparr>)
      })"

definition memheap_give :: "u32 \<Rightarrow> world \<Rightarrow> world option" where
  "memheap_give h w =
     (if mh_locked (heaps w h) then Some w
      else do {
        (_, k) \<leftarrow> rt_sem_release (memheap_lock h) (kern w);
        Some (w\<lparr>kern := k\<rparr>)
      })"

section \<open>Allocation\<close>

definition memheap_round :: "u32 \<Rightarrow> u32" where
  "memheap_round nbytes =
     (let nbytes = rt_align nbytes
      in if nbytes < RT_MEMHEAP_MINIALLOC then RT_MEMHEAP_MINIALLOC else nbytes)"

text \<open>The new number of available bytes, and the maximum of the bytes in use.\<close>

definition memheap_charge :: "u32 \<Rightarrow> rt_memheap \<Rightarrow> rt_memheap" where
  "memheap_charge n hp =
     (let hp = hp\<lparr>mh_available_size := mh_available_size hp - n\<rparr>
      in if mh_pool_size hp - mh_available_size hp > mh_max_used_size hp
         then hp\<lparr>mh_max_used_size := mh_pool_size hp - mh_available_size hp\<rparr> else hp)"

partial_function (option) memheap_search ::
  "u32 \<Rightarrow> u32 \<Rightarrow> memory \<Rightarrow> u32 \<Rightarrow> u32 \<Rightarrow> (u32 \<times> u32) option" where
  "memheap_search fl nbytes m p free_size =
     (if p \<noteq> fl \<and> free_size < nbytes then do {
        free_size \<leftarrow> memitem_size p m;
        if free_size < nbytes then do {
          p \<leftarrow> i_next_free p m;
          memheap_search fl nbytes m p free_size
        } else memheap_search fl nbytes m p free_size
      } else Some (p, free_size))"

definition memheap_carve :: "u32 \<Rightarrow> u32 \<Rightarrow> u32 \<Rightarrow> u32 \<Rightarrow> rt_memheap \<Rightarrow> memory \<Rightarrow> (rt_memheap \<times> memory) option" where
  "memheap_carve h p nbytes free_size hp m = do {
     (hp, m) \<leftarrow>
       (if free_size \<ge> nbytes + RT_MEMHEAP_SIZE + RT_MEMHEAP_MINIALLOC then do {
          let n = p + nbytes + RT_MEMHEAP_SIZE;
          m \<leftarrow> memheap_cut h p n m;
          m \<leftarrow> memheap_unlink_free p m;
          m \<leftarrow> set_next_free p 0 m;
          m \<leftarrow> set_prev_free p 0 m;
          m \<leftarrow> memheap_link_free (mh_free_list hp) n m;
          Some (memheap_charge (nbytes + RT_MEMHEAP_SIZE) hp, m)
        } else do {
          let hp = memheap_charge free_size hp;
          m \<leftarrow> memheap_unlink_free p m;
          m \<leftarrow> set_next_free p 0 m;
          m \<leftarrow> set_prev_free p 0 m;
          Some (hp, m)
        });
     m \<leftarrow> set_magic p (RT_MEMHEAP_MAGIC OR RT_MEMHEAP_USED) m;
     Some (hp, m)
   }"

text \<open>The part of \<^verbatim>\<open>rt_memheap_alloc\<close> that runs under the lock; 0 is the null pointer.\<close>

definition memheap_alloc_body :: "u32 \<Rightarrow> u32 \<Rightarrow> rt_memheap \<Rightarrow> memory \<Rightarrow> (u32 \<times> rt_memheap \<times> memory) option" where
  "memheap_alloc_body h nbytes hp m = do {
     p \<leftarrow> i_next_free (mh_free_list hp) m;
     (p, free_size) \<leftarrow> memheap_search (mh_free_list hp) nbytes m p 0;
     if free_size \<ge> nbytes then do {
       (hp, m) \<leftarrow> memheap_carve h p nbytes free_size hp m;
       Some (p + RT_MEMHEAP_SIZE, hp, m)
     } else Some (0, hp, m)
   }"

text \<open>From the return of \<^verbatim>\<open>rt_sem_take\<close> on: a thread that had to wait for the lock continues
  here.\<close>

definition memheap_alloc_taken :: "u32 \<Rightarrow> u32 \<Rightarrow> rt_err_t \<Rightarrow> world \<Rightarrow> (u32 outcome \<times> world) option" where
  "memheap_alloc_taken h nbytes result w =
     (if result \<noteq> RT_EOK then Some (Returned 0, rt_set_errno result w)
      else do {
        (r, hp, m) \<leftarrow> memheap_alloc_body h nbytes (heaps w h) (wmem w);
        w \<leftarrow> memheap_give h (upd_heap h hp m w);
        Some (Returned r, w)
      })"

definition rt_memheap_alloc :: "u32 \<Rightarrow> u32 \<Rightarrow> world \<Rightarrow> (u32 outcome \<times> world) option" where
  "rt_memheap_alloc h nbytes w = do {
     rt_assert (h \<noteq> 0);
     rt_assert (rt_object_get_type (OMemHeap h) (kern w) = RT_Object_Class_MemHeap);
     let nbytes = memheap_round nbytes;
     if nbytes < mh_available_size (heaps w h) then do {
       (out, w) \<leftarrow> memheap_take h w;
       case out of
         Waiting \<Rightarrow> Some (Waiting, w)
       | Returned result \<Rightarrow> memheap_alloc_taken h nbytes result w
     } else Some (Returned 0, w)
   }"

section \<open>Release\<close>

text \<open>The three steps of \<^verbatim>\<open>rt_memheap_free\<close> under the lock: merging with the previous block,
  merging with the next block, and linking the block into the free list.\<close>

definition memheap_merge_prev :: "u32 \<Rightarrow> rt_memheap \<Rightarrow> memory \<Rightarrow> (u32 \<times> bool \<times> rt_memheap \<times> memory) option" where
  "memheap_merge_prev p hp m = do {
     b \<leftarrow> i_prev p m;
     used \<leftarrow> memheap_is_used b m;
     if \<not> used then do {
       let hp = hp\<lparr>mh_available_size := mh_available_size hp + RT_MEMHEAP_SIZE\<rparr>;
       b \<leftarrow> i_prev p m;
       x \<leftarrow> i_next p m;
       m \<leftarrow> set_inext b x m;
       x \<leftarrow> i_next p m;
       b \<leftarrow> i_prev p m;
       m \<leftarrow> set_iprev x b m;
       p \<leftarrow> i_prev p m;
       Some (p, False, hp, m)
     } else Some (p, True, hp, m)
   }"

definition memheap_merge_next :: "u32 \<Rightarrow> rt_memheap \<Rightarrow> memory \<Rightarrow> (rt_memheap \<times> memory) option" where
  "memheap_merge_next p hp m = do {
     x \<leftarrow> i_next p m;
     used \<leftarrow> memheap_is_used x m;
     if \<not> used then do {
       let hp = hp\<lparr>mh_available_size := mh_available_size hp + RT_MEMHEAP_SIZE\<rparr>;
       n \<leftarrow> i_next p m;
       x \<leftarrow> i_next n m;
       m \<leftarrow> set_iprev x p m;
       x \<leftarrow> i_next n m;
       m \<leftarrow> set_inext p x m;
       m \<leftarrow> memheap_unlink_free n m;
       Some (hp, m)
     } else Some (hp, m)
   }"

definition memheap_insert_header :: "u32 \<Rightarrow> u32 \<Rightarrow> memory \<Rightarrow> memory option" where
  "memheap_insert_header fl p m = do {
     n \<leftarrow> i_next_free fl m;
     m \<leftarrow> set_next_free p n m;
     b \<leftarrow> i_prev_free n m;
     m \<leftarrow> set_prev_free p b m;
     b \<leftarrow> i_prev_free n m;
     m \<leftarrow> set_next_free b p m;
     set_prev_free n p m
   }"

definition memheap_free_body :: "u32 \<Rightarrow> rt_memheap \<Rightarrow> memory \<Rightarrow> (rt_memheap \<times> memory) option" where
  "memheap_free_body p hp m = do {
     m \<leftarrow> set_magic p (RT_MEMHEAP_MAGIC OR RT_MEMHEAP_FREED) m;
     sz \<leftarrow> memitem_size p m;
     let hp = hp\<lparr>mh_available_size := mh_available_size hp + sz\<rparr>;
     (p, insert_header, hp, m) \<leftarrow> memheap_merge_prev p hp m;
     (hp, m) \<leftarrow> memheap_merge_next p hp m;
     m \<leftarrow> (if insert_header then memheap_insert_header (mh_free_list hp) p m else Some m);
     Some (hp, m)
   }"

definition memheap_free_taken :: "u32 \<Rightarrow> u32 \<Rightarrow> rt_err_t \<Rightarrow> world \<Rightarrow> (unit outcome \<times> world) option" where
  "memheap_free_taken h p result w =
     (if result \<noteq> RT_EOK then Some (Returned (), rt_set_errno result w)
      else do {
        (hp, m) \<leftarrow> memheap_free_body p (heaps w h) (wmem w);
        w \<leftarrow> memheap_give h (upd_heap h hp m w);
        Some (Returned (), w)
      })"

definition rt_memheap_free :: "u32 \<Rightarrow> world \<Rightarrow> (unit outcome \<times> world) option" where
  "rt_memheap_free ptr w =
     (if ptr = 0 then Some (Returned (), w)
      else do {
        let p = ptr - RT_MEMHEAP_SIZE;
        g \<leftarrow> i_magic p (wmem w);
        x \<leftarrow> i_next p (wmem w);
        g' \<leftarrow> i_magic x (wmem w);
        rt_assert (g = RT_MEMHEAP_MAGIC OR RT_MEMHEAP_USED);
        rt_assert (g' AND RT_MEMHEAP_MASK = RT_MEMHEAP_MAGIC);
        h \<leftarrow> i_pool_ptr p (wmem w);
        rt_assert (h \<noteq> 0);
        rt_assert (rt_object_get_type (OMemHeap h) (kern w) = RT_Object_Class_MemHeap);
        (out, w) \<leftarrow> memheap_take h w;
        case out of
          Waiting \<Rightarrow> Some (Waiting, w)
        | Returned result \<Rightarrow> memheap_free_taken h p result w
      })"

section \<open>Changing the size of a block\<close>

text \<open>Growing in place, when the next block is free and large enough; \<open>False\<close> in the result
  stands for the fall through to a new allocation. \<^verbatim>\<open>nextsize\<close> is signed, but the sum it is
  used in is unsigned.\<close>

definition memheap_grow_body :: "u32 \<Rightarrow> u32 \<Rightarrow> u32 \<Rightarrow> u32 \<Rightarrow> rt_memheap \<Rightarrow> memory \<Rightarrow> (bool \<times> rt_memheap \<times> memory) option" where
  "memheap_grow_body h p newsize oldsize hp m = do {
     n \<leftarrow> i_next p m;
     rt_assert (n > p);
     used \<leftarrow> memheap_is_used n m;
     if \<not> used then do {
       nextsize \<leftarrow> memitem_size n m;
       rt_assert (n > 0);
       if nextsize + oldsize > newsize + RT_MEMHEAP_MINIALLOC then do {
         let hp = memheap_charge (newsize - oldsize) hp;
         m \<leftarrow> remove_next_ptr n m;
         let n = p + RT_MEMHEAP_SIZE + newsize;
         m \<leftarrow> memheap_cut h p n m;
         m \<leftarrow> memheap_link_free (mh_free_list hp) n m;
         Some (True, hp, m)
       } else Some (False, hp, m)
     } else Some (False, hp, m)
   }"

definition memheap_shrink_body :: "u32 \<Rightarrow> u32 \<Rightarrow> u32 \<Rightarrow> rt_memheap \<Rightarrow> memory \<Rightarrow> (rt_memheap \<times> memory) option" where
  "memheap_shrink_body h p newsize hp m = do {
     let n = p + newsize + RT_MEMHEAP_SIZE;
     m \<leftarrow> memheap_cut h p n m;
     x \<leftarrow> i_next n m;
     used \<leftarrow> memheap_is_used x m;
     (hp, m) \<leftarrow>
       (if \<not> used then do {
          f \<leftarrow> i_next n m;
          sz \<leftarrow> memitem_size f m;
          let hp = hp\<lparr>mh_available_size := mh_available_size hp - sz\<rparr>;
          x \<leftarrow> i_next f m;
          m \<leftarrow> set_iprev x n m;
          x \<leftarrow> i_next f m;
          m \<leftarrow> set_inext n x m;
          m \<leftarrow> memheap_unlink_free f m;
          Some (hp, m)
        } else Some (hp, m));
     m \<leftarrow> memheap_link_free (mh_free_list hp) n m;
     sz \<leftarrow> memitem_size n m;
     Some (hp\<lparr>mh_available_size := mh_available_size hp + sz\<rparr>, m)
   }"

text \<open>The end of a reallocation that moves the block: the new block has been allocated, or not.\<close>

definition memheap_realloc_move :: "u32 \<Rightarrow> u32 \<Rightarrow> u32 \<Rightarrow> u32 \<Rightarrow> world \<Rightarrow> (u32 outcome \<times> world) option" where
  "memheap_realloc_move ptr oldsize newsize new_ptr w =
     (if new_ptr \<noteq> 0 then do {
        m \<leftarrow> rt_memcpy new_ptr ptr (if oldsize < newsize then oldsize else newsize) (wmem w);
        (out, w) \<leftarrow> rt_memheap_free ptr (w\<lparr>wmem := m\<rparr>);
        case out of
          Waiting \<Rightarrow> Some (Waiting, w)
        | Returned _ \<Rightarrow> Some (Returned new_ptr, w)
      } else Some (Returned new_ptr, w))"

definition memheap_grow_taken ::
  "u32 \<Rightarrow> u32 \<Rightarrow> u32 \<Rightarrow> u32 \<Rightarrow> rt_err_t \<Rightarrow> world \<Rightarrow> (u32 outcome \<times> world) option" where
  "memheap_grow_taken h ptr newsize oldsize result w =
     (if result \<noteq> RT_EOK then Some (Returned 0, rt_set_errno result w)
      else do {
        (grown, hp, m) \<leftarrow> memheap_grow_body h (ptr - RT_MEMHEAP_SIZE) newsize oldsize (heaps w h) (wmem w);
        w \<leftarrow> memheap_give h (upd_heap h hp m w);
        if grown then Some (Returned ptr, w)
        else do {
          (out, w) \<leftarrow> rt_memheap_alloc h newsize w;
          case out of
            Waiting \<Rightarrow> Some (Waiting, w)
          | Returned new_ptr \<Rightarrow> memheap_realloc_move ptr oldsize newsize new_ptr w
        }
      })"

definition memheap_shrink_taken :: "u32 \<Rightarrow> u32 \<Rightarrow> u32 \<Rightarrow> rt_err_t \<Rightarrow> world \<Rightarrow> (u32 outcome \<times> world) option" where
  "memheap_shrink_taken h ptr newsize result w =
     (if result \<noteq> RT_EOK then Some (Returned 0, rt_set_errno result w)
      else do {
        (hp, m) \<leftarrow> memheap_shrink_body h (ptr - RT_MEMHEAP_SIZE) newsize (heaps w h) (wmem w);
        w \<leftarrow> memheap_give h (upd_heap h hp m w);
        Some (Returned ptr, w)
      })"

definition rt_memheap_realloc :: "u32 \<Rightarrow> u32 \<Rightarrow> u32 \<Rightarrow> world \<Rightarrow> (u32 outcome \<times> world) option" where
  "rt_memheap_realloc h ptr newsize w = do {
     rt_assert (h \<noteq> 0);
     rt_assert (rt_object_get_type (OMemHeap h) (kern w) = RT_Object_Class_MemHeap);
     if newsize = 0 then do {
       (out, w) \<leftarrow> rt_memheap_free ptr w;
       case out of
         Waiting \<Rightarrow> Some (Waiting, w)
       | Returned _ \<Rightarrow> Some (Returned 0, w)
     } else do {
       let newsize = memheap_round newsize;
       if ptr = 0 then rt_memheap_alloc h newsize w
       else do {
         oldsize \<leftarrow> memitem_size (ptr - RT_MEMHEAP_SIZE) (wmem w);
         if newsize > oldsize then do {
           (out, w) \<leftarrow> memheap_take h w;
           case out of
             Waiting \<Rightarrow> Some (Waiting, w)
           | Returned result \<Rightarrow> memheap_grow_taken h ptr newsize oldsize result w
         } else if newsize + RT_MEMHEAP_SIZE + RT_MEMHEAP_MINIALLOC \<ge> oldsize then Some (Returned ptr, w)
         else do {
           (out, w) \<leftarrow> memheap_take h w;
           case out of
             Waiting \<Rightarrow> Some (Waiting, w)
           | Returned result \<Rightarrow> memheap_shrink_taken h ptr newsize result w
         }
       }
     }
   }"

definition rt_memheap_info :: "u32 \<Rightarrow> world \<Rightarrow> ((u32 \<times> u32 \<times> u32) option outcome \<times> world) option" where
  "rt_memheap_info h w = do {
     (out, w) \<leftarrow> memheap_take h w;
     case out of
       Waiting \<Rightarrow> Some (Waiting, w)
     | Returned result \<Rightarrow>
         if result \<noteq> RT_EOK then Some (Returned None, rt_set_errno result w)
         else do {
           let hp = heaps w h;
           w \<leftarrow> memheap_give h w;
           Some (Returned (Some (mh_pool_size hp, mh_pool_size hp - mh_available_size hp, mh_max_used_size hp)), w)
         }
   }"

end
