(* ===== verification/MemHeap_Items.thy ===== *)
theory MemHeap_Items
  imports MemHeap_Core RT_List
begin

text \<open>
  The headers of the blocks of a memory heap as a typed store. The words of the headers at a set
  \<open>H\<close> of addresses that lie apart are a store \<open>istore\<close> of items: magic numbers, pool
  pointers, and two sets of links, for the ring of all blocks and for the free list. Each access of
  the code through a field of an item acts on this store (locale \<open>item_field\<close>, with an
  interpretation for each field); the sequences of pointer assignments of the code are then
  insertions into rings and removals from rings, as in theory \<open>RT_List\<close>.
\<close>

section \<open>Items\<close>

record istore =
  it_magic :: "u32 \<Rightarrow> u32"
  it_pool :: "u32 \<Rightarrow> u32"
  it_blocks :: "u32 links"
  it_frees :: "u32 links"

text \<open>Two headers do not overlap; a set of headers that lie in the address space.\<close>

definition apart :: "u32 \<Rightarrow> u32 \<Rightarrow> bool" where
  "apart p q \<longleftrightarrow> unat p + 24 \<le> unat q \<or> unat q + 24 \<le> unat p"

definition headers :: "u32 set \<Rightarrow> bool" where
  "headers H \<longleftrightarrow> (\<forall>p \<in> H. unat p + 24 \<le> 0x100000000) \<and> (\<forall>p \<in> H. \<forall>q \<in> H. p \<noteq> q \<longrightarrow> apart p q)"

abbreviation offsets :: "u32 set" where "offsets \<equiv> {0, 4, 8, 12, 16, 20}"

definition words_of :: "u32 set \<Rightarrow> u32 set" where
  "words_of H = {p + i | p i. p \<in> H \<and> i \<in> offsets}"

text \<open>The contents of the header at \<open>p\<close>, in the store and in memory.\<close>

definition item :: "istore \<Rightarrow> u32 \<Rightarrow> u32 list" where
  "item S p = [it_magic S p, it_pool S p, lnext (it_blocks S) p, lprev (it_blocks S) p,
     lnext (it_frees S) p, lprev (it_frees S) p]"

definition header :: "memory \<Rightarrow> u32 \<Rightarrow> u32 option list" where
  "header m p = [m p, m (p + 4), m (p + 8), m (p + 12), m (p + 16), m (p + 20)]"

definition agree :: "u32 set \<Rightarrow> istore \<Rightarrow> memory \<Rightarrow> bool" where
  "agree H S m \<longleftrightarrow> headers H \<and> (\<forall>p \<in> H. header m p = map Some (item S p))"

text \<open>The memory \<open>m\<close> was reached from \<open>m0\<close> by writing headers of \<open>H\<close> only.\<close>

definition wrote :: "u32 set \<Rightarrow> memory \<Rightarrow> memory \<Rightarrow> bool" where
  "wrote H m0 m \<longleftrightarrow> dom m = dom m0 \<and> (\<forall>a. a \<notin> words_of H \<longrightarrow> m a = m0 a)"

definition at_items :: "memory \<Rightarrow> u32 set \<Rightarrow> istore \<Rightarrow> memory \<Rightarrow> bool" where
  "at_items m0 H S m \<longleftrightarrow> agree H S m \<and> wrote H m0 m"

lemma wrote_refl [simp]: "wrote H m m"
  by (simp add: wrote_def)

lemma wrote_trans: "wrote H m0 m1 \<Longrightarrow> wrote H m1 m2 \<Longrightarrow> wrote H m0 m2"
  by (simp add: wrote_def)

lemma wrote_mono: "wrote H m0 m \<Longrightarrow> H \<subseteq> H' \<Longrightarrow> wrote H' m0 m"
proof -
  assume "wrote H m0 m" "H \<subseteq> H'"
  moreover from this(2) have "words_of H \<subseteq> words_of H'" unfolding words_of_def by blast
  ultimately show ?thesis by (auto simp: wrote_def)
qed

lemma unat_offset:
  assumes "unat p + 24 \<le> 0x100000000" "i \<in> offsets"
  shows "unat (p + i) = unat p + unat i" "unat i \<le> 20"
  using assms by (auto simp: unat_plus_if' split: if_splits)

lemma apart_offset:
  assumes "headers H" "p \<in> H" "q \<in> H" "p \<noteq> q" "i \<in> offsets" "j \<in> offsets"
  shows "p + i \<noteq> q + j"
proof
  assume "p + i = q + j"
  then have "unat p + unat i = unat q + unat j"
    using unat_offset [of p i] unat_offset [of q j] assms by (metis headers_def)
  then show False
    using assms unat_offset(2) [of p i] unat_offset(2) [of q j] by (fastforce simp: headers_def apart_def)
qed

text \<open>Writing one word of a header changes no word of another header.\<close>

lemma header_other:
  assumes "headers H" "p \<in> H" "q \<in> H" "p \<noteq> q" "i \<in> offsets"
  shows "header (m(p + i \<mapsto> v)) q = header m q"
proof -
  have "p + i \<noteq> q + j" if "j \<in> offsets" for j
    using apart_offset [OF assms that] .
  from this [of 0] this [of 4] this [of 8] this [of 12] this [of 16] this [of 20]
  show ?thesis by (simp add: header_def)
qed

lemma agree_put:
  assumes a: "agree H S m" and p: "p \<in> H" and i: "i \<in> offsets"
    and other: "\<And>q. q \<noteq> p \<Longrightarrow> item S' q = item S q"
    and here: "header (m(p + i \<mapsto> v)) p = map Some (item S' p)"
  shows "agree H S' (m(p + i \<mapsto> v))"
  unfolding agree_def
proof (intro conjI ballI)
  show H: "headers H" using a by (simp add: agree_def)
  fix q assume q: "q \<in> H"
  show "header (m(p + i \<mapsto> v)) q = map Some (item S' q)"
  proof (cases "q = p")
    case False
    then show ?thesis
      using header_other [OF H p q] i a q other [of q] by (auto simp: agree_def)
  qed (use here in simp)
qed

section \<open>The fields\<close>

locale item_field =
  fixes off :: u32
    and get :: "istore \<Rightarrow> u32 \<Rightarrow> u32"
    and put :: "u32 \<Rightarrow> u32 \<Rightarrow> istore \<Rightarrow> istore"
  assumes off: "off \<in> offsets"
    and read: "header m p = map Some (item S p) \<Longrightarrow> m (p + off) = Some (get S p)"
    and here: "header m p = map Some (item S p) \<Longrightarrow> header (m(p + off \<mapsto> v)) p = map Some (item (put p v S) p)"
    and other: "q \<noteq> p \<Longrightarrow> item (put p v S) q = item S q"
begin

lemma ld_item: "at_items m0 H S m \<Longrightarrow> p \<in> H \<Longrightarrow> ld (p + off) m = Some (get S p)"
  by (auto simp: at_items_def ld_def agree_def intro!: read)

lemma st_item_wp:
  assumes a: "at_items m0 H S m" "p \<in> H"
    and Q: "\<And>m'. at_items m0 H (put p v S) m' \<Longrightarrow> Q m'"
  shows "wp (st (p + off) v m) Q"
proof -
  have h: "agree H S m" "header m p = map Some (item S p)" using a by (auto simp: at_items_def agree_def)
  have "p + off \<in> words_of H" using a(2) off unfolding words_of_def by blast
  then have "wrote H m0 (m(p + off \<mapsto> v))"
    using a(1) read [OF h(2)] by (auto simp: at_items_def wrote_def)
  then show ?thesis
    using agree_put [OF h(1) a(2) off other here [OF h(2)]] read [OF h(2)]
    by (simp add: st_def Q at_items_def)
qed

end

definition put_magic :: "u32 \<Rightarrow> u32 \<Rightarrow> istore \<Rightarrow> istore" where
  "put_magic p v S = S\<lparr>it_magic := (it_magic S)(p := v)\<rparr>"

definition put_pool :: "u32 \<Rightarrow> u32 \<Rightarrow> istore \<Rightarrow> istore" where
  "put_pool p v S = S\<lparr>it_pool := (it_pool S)(p := v)\<rparr>"

definition put_next :: "u32 \<Rightarrow> u32 \<Rightarrow> istore \<Rightarrow> istore" where
  "put_next p v S = S\<lparr>it_blocks := set_next p v (it_blocks S)\<rparr>"

definition put_prev :: "u32 \<Rightarrow> u32 \<Rightarrow> istore \<Rightarrow> istore" where
  "put_prev p v S = S\<lparr>it_blocks := set_prev p v (it_blocks S)\<rparr>"

definition put_next_free :: "u32 \<Rightarrow> u32 \<Rightarrow> istore \<Rightarrow> istore" where
  "put_next_free p v S = S\<lparr>it_frees := set_next p v (it_frees S)\<rparr>"

definition put_prev_free :: "u32 \<Rightarrow> u32 \<Rightarrow> istore \<Rightarrow> istore" where
  "put_prev_free p v S = S\<lparr>it_frees := set_prev p v (it_frees S)\<rparr>"

lemmas put_defs = put_magic_def put_pool_def put_next_def put_prev_def put_next_free_def put_prev_free_def

interpretation magic: item_field 0 it_magic put_magic
  by unfold_locales (auto simp: header_def item_def put_defs)

interpretation pool_ptr: item_field 4 it_pool put_pool
  by unfold_locales (auto simp: header_def item_def put_defs)

interpretation nxt: item_field 8 "\<lambda>S. lnext (it_blocks S)" put_next
  by unfold_locales (auto simp: header_def item_def put_defs)

interpretation prv: item_field 12 "\<lambda>S. lprev (it_blocks S)" put_prev
  by unfold_locales (auto simp: header_def item_def put_defs)

interpretation nfree: item_field 16 "\<lambda>S. lnext (it_frees S)" put_next_free
  by unfold_locales (auto simp: header_def item_def put_defs)

interpretation pfree: item_field 20 "\<lambda>S. lprev (it_frees S)" put_prev_free
  by unfold_locales (auto simp: header_def item_def put_defs)

lemmas ld_items = magic.ld_item [simplified] pool_ptr.ld_item nxt.ld_item prv.ld_item nfree.ld_item pfree.ld_item
lemmas st_items = magic.st_item_wp [simplified] pool_ptr.st_item_wp nxt.st_item_wp prv.st_item_wp nfree.st_item_wp
  pfree.st_item_wp

section \<open>The sequences of assignments\<close>

text \<open>Unlinking a node from a ring, without the last two assignments of \<^verbatim>\<open>rt_list_remove\<close>.\<close>

definition del_edge :: "'n \<Rightarrow> 'n links \<Rightarrow> 'n links" where
  "del_edge n s = (let a = lprev s n; b = lnext s n
     in s\<lparr>lnext := (lnext s)(a := b), lprev := (lprev s)(b := a)\<rparr>)"

lemma links_commute: "lprev_update f (lnext_update g s) = lnext_update g (lprev_update f s)"
  by simp

lemmas put_eqs = put_defs ins_edge_def del_edge_def Let_def links_commute fun_upd_twist

lemma link_free_wp:
  assumes a: "at_items m0 H S m" and H: "fl \<in> H" "n \<in> H" "lnext (it_frees S) fl \<in> H"
    and n: "n \<noteq> fl" "n \<noteq> lnext (it_frees S) fl"
    and Q: "\<And>m'. at_items m0 H (S\<lparr>it_frees := ins_edge fl n (lnext (it_frees S) fl) (it_frees S)\<rparr>) m' \<Longrightarrow> Q m'"
  shows "wp (memheap_link_free fl n m) Q"
  unfolding memheap_link_free_def
  using a H n by - ((simp add: ld_items put_defs | (rule st_items, assumption, assumption))+, rule Q, simp add: put_eqs)

lemma unlink_free_wp:
  assumes a: "at_items m0 H S m" and H: "p \<in> H" "lnext (it_frees S) p \<in> H" "lprev (it_frees S) p \<in> H"
    and n: "p \<noteq> lnext (it_frees S) p"
    and Q: "\<And>m'. at_items m0 H (S\<lparr>it_frees := del_edge p (it_frees S)\<rparr>) m' \<Longrightarrow> Q m'"
  shows "wp (memheap_unlink_free p m) Q"
  unfolding memheap_unlink_free_def
  using a H n by - ((simp add: ld_items put_defs | (rule st_items, assumption, assumption))+, rule Q, simp add: put_eqs)

lemma cut_wp:
  assumes a: "at_items m0 H S m" and H: "p \<in> H" "n \<in> H" "lnext (it_blocks S) p \<in> H"
    and n: "n \<noteq> p" "n \<noteq> lnext (it_blocks S) p"
    and Q: "\<And>m'. at_items m0 H (S\<lparr>it_magic := (it_magic S)(n := RT_MEMHEAP_MAGIC), it_pool := (it_pool S)(n := h),
       it_blocks := ins_edge p n (lnext (it_blocks S) p) (it_blocks S)\<rparr>) m' \<Longrightarrow> Q m'"
  shows "wp (memheap_cut h p n m) Q"
  unfolding memheap_cut_def
  using a H n by - ((simp add: ld_items put_defs | (rule st_items, assumption, assumption))+, rule Q, simp add: put_eqs)

lemma remove_next_ptr_wp:
  assumes a: "at_items m0 H S m" and H: "p \<in> H" "lnext (it_frees S) p \<in> H" "lprev (it_frees S) p \<in> H"
      "lnext (it_blocks S) p \<in> H" "lprev (it_blocks S) p \<in> H"
    and n: "p \<noteq> lnext (it_frees S) p" "p \<noteq> lnext (it_blocks S) p"
    and Q: "\<And>m'. at_items m0 H (S\<lparr>it_frees := del_edge p (it_frees S), it_blocks := del_edge p (it_blocks S)\<rparr>) m' \<Longrightarrow> Q m'"
  shows "wp (remove_next_ptr p m) Q"
  unfolding remove_next_ptr_def wp_simps
proof (rule unlink_free_wp [OF a H(1-3) n(1)])
  fix m1 assume "at_items m0 H (S\<lparr>it_frees := del_edge p (it_frees S)\<rparr>) m1"
  then show "wp (i_next p m1) (\<lambda>x. wp (i_prev p m1) (\<lambda>b. wp (set_iprev x b m1)
     (\<lambda>m. wp (i_prev p m) (\<lambda>b. wp (i_next p m) (\<lambda>x. wp (set_inext b x m) Q)))))"
    using H n by - ((simp add: ld_items put_defs | (rule st_items, assumption, assumption))+, rule Q, simp add: put_eqs)
qed

lemma insert_header_wp:
  assumes a: "at_items m0 H S m" and H: "fl \<in> H" "p \<in> H" "lnext (it_frees S) fl \<in> H"
    and n: "p \<noteq> fl" "p \<noteq> lnext (it_frees S) fl" "lprev (it_frees S) (lnext (it_frees S) fl) = fl"
    and Q: "\<And>m'. at_items m0 H (S\<lparr>it_frees := ins_edge fl p (lnext (it_frees S) fl) (it_frees S)\<rparr>) m' \<Longrightarrow> Q m'"
  shows "wp (memheap_insert_header fl p m) Q"
  unfolding memheap_insert_header_def
  using a H n by - ((simp add: ld_items put_defs | (rule st_items, assumption, assumption))+, rule Q, simp add: put_eqs)

text \<open>Merging a block with the block before it, and with the block behind it.\<close>

definition add_avail :: "u32 \<Rightarrow> rt_memheap \<Rightarrow> rt_memheap" where
  "add_avail n hp = hp\<lparr>mh_available_size := mh_available_size hp + n\<rparr>"

lemma merge_prev_wp:
  assumes a: "at_items m0 H S m" and b: "lprev (it_blocks S) p = b" "lnext (it_blocks S) p = x"
    and H: "p \<in> H" "b \<in> H" "x \<in> H" "p \<noteq> b" "p \<noteq> x"
    and Q: "it_magic S b AND 1 \<noteq> 0 \<Longrightarrow> Q (p, True, hp, m)"
      "\<And>m'. it_magic S b AND 1 = 0 \<Longrightarrow> at_items m0 H (S\<lparr>it_blocks := del_edge p (it_blocks S)\<rparr>) m' \<Longrightarrow>
         Q (b, False, add_avail RT_MEMHEAP_SIZE hp, m')"
  shows "wp (memheap_merge_prev p hp m) Q"
proof (cases "it_magic S b AND 1 = 0")
  case True
  note Q2 = Q(2) [OF True, unfolded add_avail_def]
  show ?thesis
    unfolding memheap_merge_prev_def memheap_is_used_def using a H b True
    by - ((simp add: ld_items put_defs Let_def | (rule st_items, assumption, assumption))+, rule Q2, simp add: put_eqs)
next
  case False
  then show ?thesis
    unfolding memheap_merge_prev_def memheap_is_used_def using a H b Q(1) by (simp add: ld_items)
qed

lemma merge_next_wp:
  assumes a: "at_items m0 H S m" and b: "lnext (it_blocks S) p = n" "lprev (it_blocks S) n = p" "lnext (it_blocks S) n = x"
    and H: "p \<in> H" "n \<in> H" "n \<noteq> p"
    and F: "it_magic S n AND 1 = 0 \<Longrightarrow> x \<in> H \<and> n \<noteq> lnext (it_frees S) n \<and>
       lnext (it_frees S) n \<in> H \<and> lprev (it_frees S) n \<in> H"
    and Q: "it_magic S n AND 1 \<noteq> 0 \<Longrightarrow> Q (hp, m)"
      "\<And>m'. it_magic S n AND 1 = 0 \<Longrightarrow>
         at_items m0 H (S\<lparr>it_blocks := del_edge n (it_blocks S), it_frees := del_edge n (it_frees S)\<rparr>) m' \<Longrightarrow>
         Q (add_avail RT_MEMHEAP_SIZE hp, m')"
  shows "wp (memheap_merge_next p hp m) Q"
proof (cases "it_magic S n AND 1 = 0")
  case True
  note Q2 = Q(2) [OF True, unfolded add_avail_def]
  have U: "wp (memheap_unlink_free n m1) (\<lambda>m'. Q (hp\<lparr>mh_available_size := mh_available_size hp + 24\<rparr>, m'))"
    if "at_items m0 H (S\<lparr>it_blocks := del_edge n (it_blocks S)\<rparr>) m1" for m1
    by (rule unlink_free_wp [OF that]) (use F [OF True] H Q2 in simp_all)
  have "x \<in> H" using F [OF True] by simp
  then show ?thesis
    unfolding memheap_merge_next_def memheap_is_used_def using a H b True
    by - ((simp add: ld_items put_defs Let_def | (rule st_items, assumption, assumption))+, rule U, simp add: put_eqs)
next
  case False
  then show ?thesis
    unfolding memheap_merge_next_def memheap_is_used_def using a H b Q(1) by (simp add: ld_items)
qed

section \<open>Rings\<close>

text \<open>A ring given by all of its nodes, from the head on.\<close>

definition rg :: "'n links \<Rightarrow> 'n list \<Rightarrow> bool" where
  "rg s xs \<longleftrightarrow> xs \<noteq> [] \<and> ring s (hd xs) (tl xs)"

lemma rg_Cons: "rg s (h # xs) \<longleftrightarrow> ring s h xs"
  by (simp add: rg_def)

lemma rg_linked: "rg s xs \<longleftrightarrow> xs \<noteq> [] \<and> distinct xs \<and> linked s (xs @ [hd xs])"
  by (cases xs) (auto simp: rg_def ring_def)

lemma rg_distinct: "rg s xs \<Longrightarrow> distinct xs"
  by (simp add: rg_linked)

lemma rg_next:
  assumes "rg s (xs @ a # b # ys)"
  shows "lnext s a = b" "lprev s b = a"
  using assms linked_edge [of s xs a b "ys @ [hd (xs @ a # b # ys)]"] by (simp_all add: rg_linked)

lemma rg_last:
  assumes "rg s (xs @ [a])"
  shows "lnext s a = hd (xs @ [a])" "lprev s (hd (xs @ [a])) = a"
  using assms linked_edge [of s xs a "hd (xs @ [a])" "[]"] by (simp_all add: rg_linked)

lemma rg_closed:
  assumes "rg s xs" "x \<in> set xs"
  shows "lnext s x \<in> set xs" "lprev s x \<in> set xs"
proof -
  have l: "linked s (xs @ [hd xs])" "xs \<noteq> []" using assms(1) by (auto simp: rg_linked)
  show "lnext s x \<in> set xs" using linked_next [OF l(1), of x] assms(2) l(2) by (cases xs) auto
  have "x \<in> set (tl (xs @ [hd xs]))" using assms(2) l(2) by (cases xs) auto
  then show "lprev s x \<in> set xs" using linked_prev [OF l(1)] l(2) by auto
qed

lemma rg_insert:
  assumes r: "rg s (xs @ a # ys)" and n: "n \<notin> set (xs @ a # ys)"
  shows "rg (ins_edge a n (lnext s a) s) (xs @ a # n # ys)"
proof -
  obtain h zs where z: "xs @ a # ys = h # zs" by (cases xs) auto
  obtain us where us: "h # us = xs @ [a]" "zs = us @ ys" using z by (cases xs) auto
  have c: "edge_cut h us ys xs a (hd (ys @ [h])) (tl (ys @ [h]))"
    using us by (auto simp: edge_cut_def)
  have "ring s h (us @ ys)" using r z us by (simp add: rg_Cons)
  note e = ring_ins_edge [OF this _ c, of n] ring_edge(1) [OF this c]
  have "n \<notin> set (h # us @ ys)" using n us(1) by (metis z us(2))
  then have "ring (ins_edge a n (lnext s a) s) h (us @ n # ys)" using e by simp
  moreover have "xs @ a # n # ys = h # us @ n # ys" using us(1) by (metis append.assoc append_Cons append_Nil)
  ultimately show ?thesis by (simp only: rg_Cons)
qed

lemma rg_remove:
  assumes r: "rg s (xs @ n # ys)" and n: "xs \<noteq> []"
  shows "rg (del_edge n s) (xs @ ys)"
proof -
  obtain h zs where z: "xs = h # zs" using n by (cases xs) auto
  have R: "ring s h (zs @ n # ys)" using r by (simp add: z rg_Cons)
  have s: "del_edge n s = (rt_list_remove n s)\<lparr>lnext := (lnext (rt_list_remove n s))(n := lnext (del_edge n s) n),
      lprev := (lprev (rt_list_remove n s))(n := lprev (del_edge n s) n)\<rparr>" if "lnext s n \<noteq> n"
    using that by (intro links.equality) (auto simp: del_edge_def rt_list_remove_def Let_def fun_eq_iff)
  have ne: "lnext s n \<noteq> n"
  proof (cases ys)
    case Nil
    then show ?thesis using rg_last(1) [of s xs n] r n by (auto simp: rg_linked z)
  next
    case (Cons y ys')
    then show ?thesis using rg_next(1) [of s xs n y ys'] r by (auto simp: rg_linked)
  qed
  have "ring (del_edge n s) h (zs @ ys)"
    by (rule ring_frame [OF ring_remove(1) [OF R]])
      (use R in \<open>(subst s [OF ne], auto simp: ring_def)+\<close>)
  then show ?thesis by (simp add: z rg_Cons)
qed

lemma rg_cong:
  assumes "rg s xs" "\<And>x. x \<in> set xs \<Longrightarrow> lnext s' x = lnext s x" "\<And>x. x \<in> set xs \<Longrightarrow> lprev s' x = lprev s x"
  shows "rg s' xs"
  using assms ring_frame [of s "hd xs" "tl xs" s'] by (auto simp: rg_def)

end
