(* ===== verification/MemHeap_Layout.thy ===== *)
theory MemHeap_Layout
  imports MemHeap_Items
begin

text \<open>
  The layout of a memory heap. The pool is divided into consecutive blocks, each with a header of 24
  bytes; the list \<open>bs\<close> of the addresses of all headers, ending with the empty block at the end
  of the pool, and the list \<open>fl\<close> of the headers on the free list describe a heap completely.
  The predicate \<open>heap_ok\<close> is the invariant and the relation between the memory and this
  description. On the description the operations have a simple meaning: first fit along the free
  list with a split (\<open>aheap_alloc\<close>), and release with merging of neighbours
  (\<open>aheap_free\<close>).
\<close>

section \<open>Block lists\<close>

abbreviation spaced :: "u32 list \<Rightarrow> bool" where
  "spaced \<equiv> sorted_wrt (\<lambda>a b. unat a + 24 \<le> unat b)"

text \<open>The size of the data of the block at \<open>q\<close>: up to the next header.\<close>

fun bsize :: "u32 list \<Rightarrow> u32 \<Rightarrow> nat" where
  "bsize (a # b # bs) q = (if q = a then unat b - unat a - 24 else bsize (b # bs) q)"
| "bsize _ q = 0"

fun ins_after :: "u32 \<Rightarrow> u32 \<Rightarrow> u32 list \<Rightarrow> u32 list" where
  "ins_after q n (a # bs) = (if a = q then a # n # bs else a # ins_after q n bs)"
| "ins_after q n [] = []"

lemma spaced_distinct: "spaced bs \<Longrightarrow> distinct bs"
  by (induction bs) force+

lemma ins_after_split: "q \<notin> set xs \<Longrightarrow> ins_after q n (xs @ q # ys) = xs @ q # n # ys"
  by (induction xs) auto

lemma bsize_split: "q \<notin> set xs \<Longrightarrow> bsize (xs @ q # x # ys) q = unat x - unat q - 24"
proof (induction xs)
  case (Cons a xs)
  then show ?case by (cases xs) auto
qed simp

text \<open>The size of a block depends on the block and its successor only.\<close>

lemma bsize_app1: "q \<in> set xs \<Longrightarrow> bsize (xs @ a # ys) q = bsize (xs @ [a]) q"
proof (induction xs)
  case (Cons x xs)
  then show ?case by (cases xs) auto
qed simp

lemma bsize_app2: "q \<notin> set xs \<Longrightarrow> bsize (xs @ a # ys) q = bsize (a # ys) q"
proof (induction xs)
  case (Cons x xs)
  then show ?case by (cases xs) auto
qed simp

lemma bsize_mid:
  assumes "q \<noteq> n" "q \<noteq> a" "distinct (xs @ a # n # x # ys)"
  shows "bsize (xs @ a # n # x # ys) q = bsize (xs @ a # x # ys) q"
  using assms bsize_app1 [of q xs a "n # x # ys"] bsize_app1 [of q xs a "x # ys"]
    bsize_app2 [of q xs a "n # x # ys"] bsize_app2 [of q xs a "x # ys"]
  by (cases "q \<in> set xs") simp_all

lemma bsize_sum:
  "spaced bs \<Longrightarrow> bs \<noteq> [] \<Longrightarrow>
   (\<Sum>q\<leftarrow>butlast bs. bsize bs q) + 24 * (length bs - 1) = unat (last bs) - unat (hd bs)"
proof (induction bs rule: induct_list012)
  case (3 a b bs)
  have d: "a \<noteq> q" if "q \<in> set (butlast (b # bs))" for q
    using spaced_distinct [OF 3(3)] in_set_butlastD [OF that] by auto
  have "(\<Sum>q\<leftarrow>butlast (b # bs). bsize (a # b # bs) q) = (\<Sum>q\<leftarrow>butlast (b # bs). bsize (b # bs) q)"
    by (rule arg_cong [where f = sum_list], rule map_cong) (use d in auto)
  moreover have "unat a + 24 \<le> unat b" "unat b \<le> unat (last (b # bs))"
    using 3(3) last_in_set [of bs] by fastforce+
  ultimately show ?case using 3(2,3) by simp
qed simp_all

lemma bsize_bound:
  assumes "spaced bs" "bs \<noteq> []" "distinct fl" "set fl \<subseteq> set (butlast bs)"
  shows "(\<Sum>q\<leftarrow>fl. bsize bs q) + 24 * (length bs - 1) \<le> unat (last bs) - unat (hd bs)"
proof -
  have d: "distinct (butlast bs)" using spaced_distinct [OF assms(1)] by (rule distinct_butlast)
  have "(\<Sum>q\<leftarrow>fl. bsize bs q) = (\<Sum>q\<in>set fl. bsize bs q)" by (rule sum_list_distinct_conv_sum_set [OF assms(3)])
  also have "\<dots> \<le> (\<Sum>q\<in>set (butlast bs). bsize bs q)" by (rule sum_mono2) (use assms(4) in auto)
  also have "\<dots> = (\<Sum>q\<leftarrow>butlast bs. bsize bs q)" by (rule sum_list_distinct_conv_sum_set [OF d, symmetric])
  finally show ?thesis using bsize_sum [OF assms(1,2)] by simp
qed

text \<open>No two neighbours belong to \<open>F\<close>.\<close>

fun lone :: "u32 set \<Rightarrow> u32 list \<Rightarrow> bool" where
  "lone F (a # b # bs) \<longleftrightarrow> (a \<notin> F \<or> b \<notin> F) \<and> lone F (b # bs)"
| "lone F _ \<longleftrightarrow> True"

lemma lone_append: "lone F (xs @ a # ys) \<longleftrightarrow> lone F (xs @ [a]) \<and> lone F (a # ys)"
proof (induction xs)
  case (Cons x xs)
  then show ?case by (cases xs) auto
qed simp

lemma lone_edge: "lone F (xs @ a # b # ys) \<longleftrightarrow> lone F (xs @ [a]) \<and> (a \<notin> F \<or> b \<notin> F) \<and> lone F (b # ys)"
  by (subst lone_append) simp

lemma lone_mono: "lone F bs \<Longrightarrow> F' \<inter> set bs \<subseteq> F \<Longrightarrow> lone F' bs"
  by (induction F bs rule: lone.induct) auto

section \<open>The invariant\<close>

abbreviation used_magic :: u32 where "used_magic \<equiv> 0x1ea01ea1"
abbreviation free_magic :: u32 where "free_magic \<equiv> 0x1ea01ea0"

text \<open>The pool of a heap lies in memory, apart from the free list header.\<close>

definition pool_ok :: "u32 \<Rightarrow> rt_memheap \<Rightarrow> memory \<Rightarrow> bool" where
  "pool_ok h hp m \<longleftrightarrow> h \<noteq> 0 \<and> mh_start_addr hp \<noteq> 0 \<and>
     mh_block_list hp = mh_start_addr hp \<and> mh_free_list hp = free_header h \<and>
     8 dvd unat (mh_start_addr hp) \<and> 8 dvd unat (mh_pool_size hp) \<and>
     unat (mh_start_addr hp) + unat (mh_pool_size hp) \<le> 0x100000000 \<and>
     unat (free_header h) + 24 \<le> 0x100000000 \<and>
     (unat (free_header h) + 24 \<le> unat (mh_start_addr hp) \<or>
      unat (mh_start_addr hp) + unat (mh_pool_size hp) \<le> unat (free_header h)) \<and>
     (\<forall>a. 4 dvd unat a \<and> unat (mh_start_addr hp) \<le> unat a \<and>
        unat a < unat (mh_start_addr hp) + unat (mh_pool_size hp) \<longrightarrow> m a \<noteq> None)"

text \<open>The headers from the start of the pool to the empty block at its end.\<close>

definition blocks_ok :: "rt_memheap \<Rightarrow> u32 list \<Rightarrow> bool" where
  "blocks_ok hp bs \<longleftrightarrow> 2 \<le> length bs \<and> hd bs = mh_start_addr hp \<and>
     unat (last bs) + 24 = unat (mh_start_addr hp) + unat (mh_pool_size hp) \<and>
     spaced bs \<and> (\<forall>b \<in> set bs. 8 dvd unat b)"

text \<open>No two neighbours are both free; a block in use has at least the minimal size; the count of
  available bytes is the sum of the sizes of the free blocks.\<close>

definition frees_ok :: "rt_memheap \<Rightarrow> u32 list \<Rightarrow> u32 list \<Rightarrow> bool" where
  "frees_ok hp bs fl \<longleftrightarrow> set fl \<subseteq> set (butlast bs) \<and> distinct fl \<and>
     lone (set fl) bs \<and>
     (\<forall>b \<in> set (butlast bs). b \<notin> set fl \<longrightarrow> 16 \<le> bsize bs b) \<and>
     unat (mh_available_size hp) = (\<Sum>q\<leftarrow>fl. bsize bs q) \<and>
     unat (mh_pool_size hp) - unat (mh_available_size hp) \<le> unat (mh_max_used_size hp) \<and>
     unat (mh_max_used_size hp) \<le> unat (mh_pool_size hp)"

definition items_ok :: "u32 \<Rightarrow> istore \<Rightarrow> u32 list \<Rightarrow> u32 list \<Rightarrow> bool" where
  "items_ok h S bs fl \<longleftrightarrow> rg (it_blocks S) bs \<and> rg (it_frees S) (free_header h # fl) \<and>
     (\<forall>b \<in> set bs. it_pool S b = h \<and> it_magic S b = (if b \<in> set fl then free_magic else used_magic))"

definition heap_ok :: "u32 \<Rightarrow> rt_memheap \<Rightarrow> memory \<Rightarrow> u32 list \<Rightarrow> u32 list \<Rightarrow> bool" where
  "heap_ok h hp m bs fl \<longleftrightarrow> pool_ok h hp m \<and> blocks_ok hp bs \<and> frees_ok hp bs fl \<and>
     (\<exists>S. agree (insert (free_header h) (set bs)) S m \<and> items_ok h S bs fl)"

section \<open>Headers and data\<close>

lemma block_range:
  assumes "blocks_ok hp bs" "b \<in> set bs"
  shows "unat (mh_start_addr hp) \<le> unat b" "unat b + 24 \<le> unat (mh_start_addr hp) + unat (mh_pool_size hp)"
proof -
  have s: "spaced bs" "bs \<noteq> []" using assms by (auto simp: blocks_ok_def)
  have "b = hd bs \<or> unat (hd bs) + 24 \<le> unat b" using s assms(2) by (cases bs) auto
  then show "unat (mh_start_addr hp) \<le> unat b" using assms(1) by (auto simp: blocks_ok_def)
  have "bs = butlast bs @ [last bs]" using s by simp
  then have "sorted_wrt (\<lambda>a b. unat a + 24 \<le> unat b) (butlast bs @ [last bs])" "b \<in> set (butlast bs @ [last bs])"
    using s assms(2) by simp_all
  then have "b = last bs \<or> unat b + 24 \<le> unat (last bs)" by (auto simp: sorted_wrt_append)
  then show "unat b + 24 \<le> unat (mh_start_addr hp) + unat (mh_pool_size hp)"
    using assms(1) by (auto simp: blocks_ok_def)
qed

lemma spaced_apart: "spaced bs \<Longrightarrow> p \<in> set bs \<Longrightarrow> q \<in> set bs \<Longrightarrow> p \<noteq> q \<Longrightarrow> apart p q"
  by (induction bs) (auto simp: apart_def)

lemma headers_blocks:
  assumes "pool_ok h hp m" "blocks_ok hp bs"
  shows "headers (insert (free_header h) (set bs))"
  unfolding headers_def
proof (intro conjI ballI impI)
  fix p assume p: "p \<in> insert (h + 48) (set bs)"
  then show "unat p + 24 \<le> 0x100000000"
    using assms(1) block_range [OF assms(2), of p] by (auto simp: pool_ok_def)
  fix q assume q: "q \<in> insert (h + 48) (set bs)" "p \<noteq> q"
  show "apart p q"
    using p q spaced_apart [of bs p q] assms block_range [OF assms(2), of p] block_range [OF assms(2), of q]
    by (auto simp: pool_ok_def blocks_ok_def apart_def)
qed

lemma bsize_pos_split:
  assumes "q \<in> set (butlast bs)" "distinct bs"
  obtains xs x ys where "bs = xs @ q # x # ys" "q \<notin> set xs" "bsize bs q = unat x - unat q - 24"
proof -
  obtain xs zs where z: "butlast bs = xs @ q # zs" using assms(1) by (meson split_list)
  have "bs \<noteq> []" using assms(1) by auto
  then have b: "bs = xs @ q # zs @ [last bs]" using z append_butlast_last_id [of bs] by simp
  then have "q \<notin> set xs" using assms(2) by (metis distinct_append disjoint_iff list.set_intros(1))
  moreover obtain x ys where "zs @ [last bs] = x # ys" by (cases zs) auto
  ultimately show thesis using that [of xs x ys] b bsize_split [of q xs x ys] by simp
qed

text \<open>The words of the data of a block are not words of a header.\<close>

lemma data_no_header:
  assumes p: "pool_ok h hp m" "blocks_ok hp bs" and q: "q \<in> set (butlast bs)" and i: "4 * i + 4 \<le> bsize bs q"
  shows "q + 24 + 4 * of_nat i \<notin> words_of (insert (free_header h) (set bs))"
    "unat (q + 24 + 4 * of_nat i) = unat q + 24 + 4 * i" "m (q + 24 + 4 * of_nat i) \<noteq> None"
proof -
  have sp: "spaced bs" using p(2) by (simp add: blocks_ok_def)
  obtain xs x ys where b: "bs = xs @ q # x # ys" "bsize bs q = unat x - unat q - 24"
    using bsize_pos_split [OF q spaced_distinct [OF sp]] by metis
  have x: "unat x + 24 \<le> unat (mh_start_addr hp) + unat (mh_pool_size hp)" "unat (mh_start_addr hp) \<le> unat q"
    using block_range [OF p(2), of x] block_range [OF p(2), of q] b(1) by auto
  have l: "unat q + 24 + 4 * i + 4 \<le> unat x" using i b(2) by linarith
  moreover have "unat x < 2 ^ LENGTH(32)" by (rule unsigned_less)
  ultimately have "4 * i < 2 ^ 32" "unat q + 24 + 4 * i < 2 ^ 32" by simp_all
  then have u: "unat (4 * of_nat i :: u32) = 4 * i" "unat (q + 24 + 4 * of_nat i) = unat q + 24 + 4 * i"
    by (simp_all add: unat_word_ariths unat_of_nat)
  then show U: "unat (q + 24 + 4 * of_nat i) = unat q + 24 + 4 * i" by simp
  have "8 dvd unat q" using p(2) b(1) by (auto simp: blocks_ok_def)
  then have "4 dvd unat q + 24 + 4 * i" by (intro dvd_add) auto
  then show "m (q + 24 + 4 * of_nat i) \<noteq> None"
    using p(1) u(2) l x by (auto simp: pool_ok_def)
  have H: "headers (insert (free_header h) (set bs))" by (rule headers_blocks [OF p])
  show "q + 24 + 4 * of_nat i \<notin> words_of (insert (free_header h) (set bs))"
  proof
    assume "q + 24 + 4 * of_nat i \<in> words_of (insert (free_header h) (set bs))"
    then obtain c j where c: "c \<in> insert (free_header h) (set bs)" "j \<in> offsets" "q + 24 + 4 * of_nat i = c + j"
      unfolding words_of_def by blast
    have j: "unat q + 24 + 4 * i = unat c + unat j" "unat j \<le> 20"
      using unat_offset [of c j] c H u(2) unfolding headers_def by metis+
    have "c = h + 48 \<or> c \<in> set xs \<or> c = q \<or> c = x \<or> c \<in> set ys" using c(1) b(1) by auto
    moreover have "\<forall>c \<in> set xs. unat c + 24 \<le> unat q" "\<forall>c \<in> set ys. unat x + 24 \<le> unat c"
      using sp b(1) by (auto simp: sorted_wrt_append)
    ultimately show False using j l x p(1) by (auto simp: pool_ok_def)
  qed
qed

text \<open>The data of a block, word by word.\<close>

definition block_data :: "u32 list \<Rightarrow> memory \<Rightarrow> u32 \<Rightarrow> u32 option list" where
  "block_data bs m q = map (\<lambda>i. m (q + 24 + 4 * of_nat i)) [0..<bsize bs q div 4]"

lemma block_data_kept:
  assumes "pool_ok h hp m" "blocks_ok hp bs" "q \<in> set (butlast bs)" "wrote (insert (free_header h) (set bs)) m m'"
  shows "block_data bs m' q = block_data bs m q"
  using assms(4) data_no_header(1) [OF assms(1-3)] by (auto simp: block_data_def wrote_def)

section \<open>The abstract heap\<close>

type_synonym aheap = "u32 list \<times> u32 list"

definition aheap_avail :: "aheap \<Rightarrow> nat" where
  "aheap_avail A = (\<Sum>q\<leftarrow>snd A. bsize (fst A) q)"

text \<open>Taking the free block \<open>q\<close> for a request of \<open>n\<close> bytes: the rest is split off when a
  minimal block fits into it.\<close>

definition aheap_carve :: "u32 \<Rightarrow> nat \<Rightarrow> aheap \<Rightarrow> aheap" where
  "aheap_carve q n A = (case A of (bs, fl) \<Rightarrow>
     if n + 40 \<le> bsize bs q
     then (ins_after q (q + of_nat (n + 24)) bs, (q + of_nat (n + 24)) # remove1 q fl)
     else (bs, remove1 q fl))"

definition aheap_alloc :: "nat \<Rightarrow> aheap \<Rightarrow> u32 option \<times> aheap" where
  "aheap_alloc n A =
     (case find (\<lambda>q. n \<le> bsize (fst A) q) (snd A) of
        None \<Rightarrow> (None, A)
      | Some q \<Rightarrow> (Some q, aheap_carve q n A))"

fun before :: "u32 \<Rightarrow> u32 list \<Rightarrow> u32 option" where
  "before q (a # b # bs) = (if q = b then Some a else before q (b # bs))"
| "before q _ = None"

fun behind :: "u32 \<Rightarrow> u32 list \<Rightarrow> u32 option" where
  "behind q (a # b # bs) = (if q = a then Some b else behind q (b # bs))"
| "behind q _ = None"

text \<open>Releasing the block \<open>q\<close>.\<close>

definition aheap_free :: "u32 \<Rightarrow> aheap \<Rightarrow> aheap" where
  "aheap_free q A = (case A of (bs, fl) \<Rightarrow>
     let (p, bs1, ins) = (case before q bs of
           Some b \<Rightarrow> if b \<in> set fl then (b, remove1 q bs, False) else (q, bs, True)
         | None \<Rightarrow> (q, bs, True));
         (bs2, fl2) = (case behind p bs1 of
           Some n \<Rightarrow> if n \<in> set fl then (remove1 n bs1, remove1 n fl) else (bs1, fl)
         | None \<Rightarrow> (bs1, fl))
     in (bs2, if ins then p # fl2 else fl2))"

end
