(* ===== verification/MemHeap_Alloc.thy ===== *)
theory MemHeap_Alloc
  imports MemHeap_Layout
begin

text \<open>
  Allocation from a memory heap under its lock: the search finds the first free block that is large
  enough, and taking it keeps the invariant \<open>heap_ok\<close> and acts as \<open>aheap_alloc\<close> on the
  abstract heap.
\<close>

section \<open>Reading the heap\<close>

lemma unat_minus: "unat b \<le> unat a \<Longrightarrow> unat (a - b) = unat a - unat b" for a b :: u32
  by (rule unat_sub) (simp add: word_le_nat_alt)

lemma spaced_split:
  assumes "spaced (xs @ q # x # ys)"
  shows "unat q + 24 \<le> unat x" "q \<notin> set xs" "q \<noteq> x" "q \<notin> set ys" "x \<notin> set xs" "x \<notin> set ys"
    "\<forall>a \<in> set xs. unat a + 24 \<le> unat q" "\<forall>a \<in> set ys. unat x + 24 \<le> unat a"
  using assms spaced_distinct [OF assms] by (auto simp: sorted_wrt_append)

lemma memitem_size_wp:
  assumes a: "at_items m0 H S m" and H: "set bs \<subseteq> H" and r: "rg (it_blocks S) bs" and s: "spaced bs"
    and q: "q \<in> set (butlast bs)" and Q: "\<And>z. unat z = bsize bs q \<Longrightarrow> Q z"
  shows "wp (memitem_size q m) Q"
proof -
  obtain xs x ys where b: "bs = xs @ q # x # ys" "bsize bs q = unat x - unat q - 24"
    using bsize_pos_split [OF q spaced_distinct [OF s]] by metis
  have x: "lnext (it_blocks S) q = x" using rg_next [of "it_blocks S" xs q x ys] r b(1) by simp
  have u: "unat q + 24 \<le> unat x" using spaced_split [of xs q x ys] s b(1) by simp
  then have "unat (x - q) = unat x - unat q" by (simp add: unat_minus)
  then have "unat (x - q - 24) = bsize bs q" using u b(2) by (subst unat_minus) simp_all
  moreover have "q \<in> H" using H b(1) by auto
  ultimately show ?thesis using Q a x by (simp add: memitem_size_def ld_items)
qed

text \<open>The search along the free list, from any node on: the first block that is large enough.\<close>

lemma memheap_search_wp:
  assumes a: "at_items m0 H S m" and H: "set bs \<subseteq> H" and i: "items_ok h S bs fl"
    and s: "spaced bs" and f: "set fl \<subseteq> set (butlast bs)"
  shows "fl = xs @ ys \<Longrightarrow> g < sz \<Longrightarrow>
    wp (memheap_search (free_header h) sz m (hd (ys @ [free_header h])) g)
      (\<lambda>(p, g'). case find (\<lambda>q. unat sz \<le> bsize bs q) ys of
         Some q \<Rightarrow> p = q \<and> unat g' = bsize bs q | None \<Rightarrow> g' < sz)"
proof (induction ys arbitrary: xs g)
  case Nil
  then show ?case by (subst memheap_search.simps) simp
next
  case (Cons y ys)
  have r: "rg (it_blocks S) bs" "rg (it_frees S) (free_header h # xs @ y # ys)"
    using i Cons(2) by (simp_all add: items_ok_def)
  have y: "y \<in> set (butlast bs)" "y \<noteq> h + 48" using f Cons(2) rg_distinct [OF r(2)] by auto
  have "y \<in> H" using H in_set_butlastD [OF y(1)] by blast
  then have n: "i_next_free y m = Some (hd (ys @ [h + 48]))"
    using a rg_last [of "it_frees S" "(h + 48) # xs" y] rg_next [of "it_frees S" "(h + 48) # xs" y] r(2)
    by (cases ys) (simp_all add: ld_items)
  have "memheap_search (h + 48) sz m y g = memitem_size y m \<bind> (\<lambda>z. if z < sz
     then i_next_free y m \<bind> (\<lambda>p. memheap_search (h + 48) sz m p z) else memheap_search (h + 48) sz m y z)"
    by (subst memheap_search.simps) (simp add: y(2) Cons(3))
  moreover have "wp (if z < sz then i_next_free y m \<bind> (\<lambda>p. memheap_search (h + 48) sz m p z)
      else memheap_search (h + 48) sz m y z) (\<lambda>(p, g'). case find (\<lambda>q. unat sz \<le> bsize bs q) (y # ys) of
        Some q \<Rightarrow> p = q \<and> unat g' = bsize bs q | None \<Rightarrow> g' < sz)" if z: "unat z = bsize bs y" for z
  proof (cases "z < sz")
    case True
    then show ?thesis using n z Cons(1) [of "xs @ [y]" z] Cons(2) by (simp add: word_less_nat_alt)
  next
    case False
    then show ?thesis using z by (subst memheap_search.simps) (simp add: word_less_nat_alt)
  qed
  ultimately show ?case
    by (simp only: append_Cons list.sel wp_simps) (rule memitem_size_wp [OF a H r(1) s y(1)])
qed

section \<open>New headers\<close>

text \<open>A header can be written anywhere in the pool.\<close>

lemma agree_extend:
  assumes a: "agree H S m" and n: "n \<notin> H" "headers (insert n H)"
    and p: "pool_ok h hp m" "8 dvd unat n" "unat (mh_start_addr hp) \<le> unat n"
      "unat n + 24 \<le> unat (mh_start_addr hp) + unat (mh_pool_size hp)"
  obtains S' where "agree (insert n H) S' m" "\<And>p. p \<noteq> n \<Longrightarrow> item S' p = item S p"
proof -
  have w: "m (n + i) \<noteq> None" if "i \<in> offsets" for i
  proof -
    have "unat n + 24 \<le> 0x100000000" using n(2) by (simp add: headers_def)
    then have "unat (n + i) = unat n + unat i" "unat i \<le> 20" by (rule unat_offset [OF _ that])+
    moreover have "4 dvd unat n" using p(2) by presburger
    moreover have "4 dvd unat i" using that by auto
    ultimately show ?thesis using p by (auto simp: pool_ok_def)
  qed
  let ?S = "S\<lparr>it_magic := (it_magic S)(n := the (m n)), it_pool := (it_pool S)(n := the (m (n + 4))),
     it_blocks := set_prev n (the (m (n + 12))) (set_next n (the (m (n + 8))) (it_blocks S)),
     it_frees := set_prev n (the (m (n + 20))) (set_next n (the (m (n + 16))) (it_frees S))\<rparr>"
  have "header m n = map Some (item ?S n)"
    using w [of 0] w [of 4] w [of 8] w [of 12] w [of 16] w [of 20] by (simp add: header_def item_def)
  moreover have "item ?S p = item S p" if "p \<noteq> n" for p using that by (simp add: item_def)
  ultimately show thesis using that [of ?S] a n unfolding agree_def by (metis insertE)
qed

lemma items_ok_cong:
  assumes "items_ok h S bs fl" "\<And>p. p \<in> insert (free_header h) (set bs) \<Longrightarrow> item S' p = item S p"
    and "set fl \<subseteq> set bs"
  shows "items_ok h S' bs fl"
  unfolding items_ok_def
proof (intro conjI ballI)
  have i: "it_magic S' p = it_magic S p" "it_pool S' p = it_pool S p" "lnext (it_blocks S') p = lnext (it_blocks S) p"
    "lprev (it_blocks S') p = lprev (it_blocks S) p" "lnext (it_frees S') p = lnext (it_frees S) p"
    "lprev (it_frees S') p = lprev (it_frees S) p" if "p \<in> insert (free_header h) (set bs)" for p
    using assms(2) [OF that] by (simp_all add: item_def)
  show "rg (it_blocks S') bs"
    by (rule rg_cong [of "it_blocks S"]) (use assms(1) i in \<open>auto simp: items_ok_def\<close>)
  show "rg (it_frees S') (free_header h # fl)"
    by (rule rg_cong [of "it_frees S"]) (use assms(1,3) i in \<open>auto simp: items_ok_def subset_iff\<close>)
  fix b assume "b \<in> set bs"
  then show "it_pool S' b = h" "it_magic S' b = (if b \<in> set fl then free_magic else used_magic)"
    using assms(1) i by (auto simp: items_ok_def)
qed

section \<open>Taking a block from the free list\<close>

lemma rg_taken:
  assumes "rg s (x # us @ q # vs)"
  shows "rg (set_prev q b (set_next q a (del_edge q s))) (x # us @ vs)"
  by (rule rg_cong [OF rg_remove [of s "x # us" q vs, simplified]])
    (use assms rg_distinct [OF assms] in auto)

lemma free_neighbours:
  assumes "rg s (x # us @ q # vs)"
  shows "lnext s q \<in> insert x (set (us @ vs))" "lprev s q \<in> insert x (set (us @ vs))" "q \<noteq> lnext s q"
proof -
  note d = rg_distinct [OF assms]
  have "lnext s q = hd (vs @ [x])"
    using rg_last [of s "x # us" q] rg_next [of s "x # us" q] assms by (cases vs) auto
  then show "lnext s q \<in> insert x (set (us @ vs))" "q \<noteq> lnext s q" using d by (cases vs; auto)+
  have "x # us = butlast (x # us) @ [last (x # us)]" by (rule append_butlast_last_id [symmetric]) simp
  then have "lprev s q = last (x # us)"
    using rg_next(2) [of s "butlast (x # us)" "last (x # us)" q vs] assms by (metis append.assoc append_Cons append_Nil)
  then show "lprev s q \<in> insert x (set (us @ vs))" by auto
qed

text \<open>The statements after the search that are common to both ways of taking a block.\<close>

lemma take_block_wp:
  assumes a: "at_items m0 H S m" and H: "set (free_header h # us @ q # vs) \<subseteq> H"
    and r: "rg (it_frees S) (free_header h # us @ q # vs)"
    and Q: "\<And>m'. at_items m0 H (S\<lparr>it_frees := set_prev q 0 (set_next q 0 (del_edge q (it_frees S)))\<rparr>) m' \<Longrightarrow> Q m'"
  shows "wp (memheap_unlink_free q m) (\<lambda>m. wp (set_next_free q 0 m) (\<lambda>m. wp (set_prev_free q 0 m) Q))"
proof (rule unlink_free_wp [OF a])
  note n = free_neighbours [OF r]
  show "q \<in> H" "lnext (it_frees S) q \<in> H" "lprev (it_frees S) q \<in> H" "q \<noteq> lnext (it_frees S) q"
    using H n by auto
  fix m1 assume m1: "at_items m0 H (S\<lparr>it_frees := del_edge q (it_frees S)\<rparr>) m1"
  show "wp (set_next_free q 0 m1) (\<lambda>m. wp (set_prev_free q 0 m) Q)"
  proof (rule nfree.st_item_wp [OF m1 \<open>q \<in> H\<close>])
    fix m2 assume "at_items m0 H (put_next_free q 0 (S\<lparr>it_frees := del_edge q (it_frees S)\<rparr>)) m2"
    then show "wp (set_prev_free q 0 m2) Q"
      by (rule pfree.st_item_wp [OF _ \<open>q \<in> H\<close>], intro Q) (simp add: put_defs)
  qed
qed

lemma free_split:
  assumes "q \<in> set fl" "distinct fl"
  obtains us vs where "fl = us @ q # vs" "remove1 q fl = us @ vs" "q \<notin> set (us @ vs)"
proof -
  obtain us vs where f: "fl = us @ q # vs" "q \<notin> set us" using split_list_first [OF assms(1)] by blast
  then show thesis using that [of us vs] assms(2) by (simp add: remove1_append)
qed

lemma avail_take:
  assumes "frees_ok hp bs fl" "q \<in> set fl"
  shows "unat (mh_available_size hp) = bsize bs q + (\<Sum>q\<leftarrow>remove1 q fl. bsize bs q)"
  using assms sum_list_map_remove1 [of q fl "bsize bs"] by (simp add: frees_ok_def)

lemma charge_sel [simp]:
  "mh_start_addr (memheap_charge n hp) = mh_start_addr hp" "mh_pool_size (memheap_charge n hp) = mh_pool_size hp"
  "mh_block_list (memheap_charge n hp) = mh_block_list hp" "mh_free_list (memheap_charge n hp) = mh_free_list hp"
  "mh_locked (memheap_charge n hp) = mh_locked hp"
  "mh_available_size (memheap_charge n hp) = mh_available_size hp - n"
  by (simp_all add: memheap_charge_def Let_def)

lemma charge_max:
  assumes "unat (mh_available_size hp - n) \<le> unat (mh_pool_size hp)" "unat (mh_max_used_size hp) \<le> unat (mh_pool_size hp)"
  shows "unat (mh_pool_size hp) - unat (mh_available_size hp - n) \<le> unat (mh_max_used_size (memheap_charge n hp))"
    "unat (mh_max_used_size (memheap_charge n hp)) \<le> unat (mh_pool_size hp)"
  using assms by (auto simp: memheap_charge_def Let_def word_less_nat_alt unat_minus)

section \<open>Taking a whole block\<close>

lemma avail_le_pool:
  assumes "blocks_ok hp bs" "distinct fl" "set fl \<subseteq> set (butlast bs)"
  shows "(\<Sum>q\<leftarrow>fl. bsize bs q) + 48 \<le> unat (mh_pool_size hp)"
proof -
  have b: "spaced bs" "bs \<noteq> []" "2 \<le> length bs" using assms(1) by (auto simp: blocks_ok_def)
  show ?thesis using bsize_bound [OF b(1,2) assms(2,3)] assms(1) b(3) by (auto simp: blocks_ok_def)
qed

lemma frees_ok_whole:
  assumes f: "frees_ok hp bs fl" and b: "blocks_ok hp bs" and q: "q \<in> set fl" "16 \<le> bsize bs q" and z: "unat z = bsize bs q"
  shows "frees_ok (memheap_charge z hp) bs (remove1 q fl)"
proof -
  note t = avail_take [OF f q(1)]
  have u: "unat (mh_available_size hp - z) = (\<Sum>q\<leftarrow>remove1 q fl. bsize bs q)"
    using t z by (subst unat_minus) simp_all
  have p: "unat (mh_available_size hp) \<le> unat (mh_pool_size hp)"
    using avail_le_pool [OF b, of fl] f by (simp add: frees_ok_def)
  have s: "lone (set (remove1 q fl)) bs"
    by (rule lone_mono [of "set fl"]) (use f in \<open>auto simp: frees_ok_def dest: set_remove1_subset [THEN subsetD]\<close>)
  have "set (remove1 q fl) \<subseteq> set (butlast bs)" "distinct (remove1 q fl)"
    using f set_remove1_subset [of q fl] by (auto simp: frees_ok_def)
  moreover have "16 \<le> bsize bs b" if "b \<in> set (butlast bs)" "b \<notin> set (remove1 q fl)" for b
    using f that q(2) by (cases "b = q") (auto simp: frees_ok_def in_set_remove1)
  ultimately show ?thesis
    unfolding frees_ok_def using s u charge_max [of hp z] p f t by (auto simp: frees_ok_def)
qed

lemma items_ok_taken:
  assumes i: "items_ok h S bs fl" and fl: "fl = us @ q # vs" and q: "q \<in> set bs"
  shows "items_ok h (S\<lparr>it_frees := set_prev q 0 (set_next q 0 (del_edge q (it_frees S))),
     it_magic := (it_magic S)(q := used_magic)\<rparr>) bs (us @ vs)"
proof -
  have r: "rg (it_frees S) (free_header h # us @ q # vs)" using i fl by (simp add: items_ok_def)
  have "q \<notin> set (us @ vs)" using rg_distinct [OF r] by auto
  then show ?thesis using i rg_taken [OF r, of 0 0] fl by (auto simp: items_ok_def)
qed

lemma pool_ok_cong:
  "pool_ok h hp m \<Longrightarrow> dom m' = dom m \<Longrightarrow> mh_start_addr hp' = mh_start_addr hp \<Longrightarrow> mh_pool_size hp' = mh_pool_size hp \<Longrightarrow>
   mh_block_list hp' = mh_block_list hp \<Longrightarrow> mh_free_list hp' = mh_free_list hp \<Longrightarrow> pool_ok h hp' m'"
  unfolding pool_ok_def by (metis domIff)

lemma blocks_ok_cong:
  "blocks_ok hp bs \<Longrightarrow> mh_start_addr hp' = mh_start_addr hp \<Longrightarrow> mh_pool_size hp' = mh_pool_size hp \<Longrightarrow> blocks_ok hp' bs"
  by (simp add: blocks_ok_def)

lemma heap_ok_at:
  assumes "heap_ok h hp m bs fl"
  obtains S where "at_items m (insert (free_header h) (set bs)) S m" "items_ok h S bs fl"
  using assms by (auto simp: heap_ok_def at_items_def)

lemma heap_okD:
  assumes "heap_ok h hp m bs fl"
  shows "pool_ok h hp m" "blocks_ok hp bs" "frees_ok hp bs fl" "spaced bs" "distinct fl" "mh_free_list hp = free_header h"
    "set fl \<subseteq> set (butlast bs)" "set fl \<subseteq> set bs"
  using assms by (auto simp: heap_ok_def blocks_ok_def frees_ok_def pool_ok_def dest: in_set_butlastD)

lemma heap_okI:
  assumes "at_items m (insert (free_header h) (set bs)) S m'" "items_ok h S bs fl" "pool_ok h hp m"
    "blocks_ok hp' bs" "frees_ok hp' bs fl" "mh_start_addr hp' = mh_start_addr hp" "mh_pool_size hp' = mh_pool_size hp"
    "mh_block_list hp' = mh_block_list hp" "mh_free_list hp' = mh_free_list hp"
  shows "heap_ok h hp' m' bs fl"
  using assms pool_ok_cong [of h hp m m' hp'] by (auto simp: heap_ok_def at_items_def wrote_def)

lemma carve_whole_wp:
  assumes k: "heap_ok h hp m bs fl" and q: "q \<in> set fl" "16 \<le> bsize bs q" and z: "unat z = bsize bs q"
    and no: "\<not> unat sz + 40 \<le> bsize bs q" "unat sz + 40 < 2 ^ 32"
  shows "wp (memheap_carve h q sz z hp m) (\<lambda>(hp', m'). hp' = memheap_charge z hp \<and>
     heap_ok h hp' m' bs (remove1 q fl) \<and> wrote (insert (free_header h) (set bs)) m m')"
proof -
  obtain S where a: "at_items m (insert (free_header h) (set bs)) S m" and i: "items_ok h S bs fl"
    by (rule heap_ok_at [OF k])
  note d = heap_okD [OF k]
  obtain us vs where f: "fl = us @ q # vs" "remove1 q fl = us @ vs" by (rule free_split [OF q(1) d(5)])
  note fl = d(8)
  have qb: "q \<in> set bs" using q(1) fl by auto
  have "unat (sz + 24 + 16) = unat sz + 40" using no(2) by (simp add: unat_word_ariths)
  then have n: "\<not> sz + 24 + 16 \<le> z" using no(1) z by (simp add: word_le_nat_alt)
  have r: "rg (it_frees S) (free_header h # us @ q # vs)" using i f by (simp add: items_ok_def)
  show ?thesis
    unfolding memheap_carve_def using n
    apply (simp add: Let_def)
    apply (rule take_block_wp [OF a _ r])
    subgoal using fl f by auto
    subgoal for m1
      apply (erule magic.st_item_wp [simplified])
      subgoal using qb by simp
      subgoal for m2
        using heap_okI [of m h bs _ m2 "us @ vs" hp "memheap_charge z hp"] items_ok_taken [OF i f(1) qb] d f(2)
          frees_ok_whole [OF d(3,2) q z] blocks_ok_cong [of hp bs "memheap_charge z hp"]
        by (simp add: put_defs at_items_def) blast
      done
    done
qed

section \<open>Splitting a block\<close>

text \<open>A header \<open>n\<close> inside of the block at \<open>q\<close>.\<close>

lemma blocks_ok_split:
  assumes b: "blocks_ok hp (xs @ q # x # ys)" and n: "unat q + 24 \<le> unat n" "unat n + 24 \<le> unat x" "8 dvd unat n"
  shows "blocks_ok hp (xs @ q # n # x # ys)" "n \<notin> set (xs @ q # x # ys)"
proof -
  have s: "spaced (xs @ q # x # ys)" using b by (simp add: blocks_ok_def)
  then show "n \<notin> set (xs @ q # x # ys)" using n spaced_split [OF s] by force
  have "spaced (xs @ q # n # x # ys)" using s n by (fastforce simp: sorted_wrt_append)
  then show "blocks_ok hp (xs @ q # n # x # ys)" using b n(3) by (auto simp: blocks_ok_def hd_append)
qed

lemma blocks_distinct: "blocks_ok hp bs \<Longrightarrow> distinct bs"
  by (simp add: blocks_ok_def spaced_distinct)

lemma bsize_new:
  assumes "distinct (xs @ q # n # x # ys)"
  shows "bsize (xs @ q # n # x # ys) q = unat n - unat q - 24" "bsize (xs @ q # n # x # ys) n = unat x - unat n - 24"
  using assms bsize_split [of q xs n "x # ys"] bsize_split [of n "xs @ [q]" x ys] by auto

lemma frees_ok_split:
  assumes f: "frees_ok hp (xs @ q # x # ys) fl" and b: "blocks_ok hp (xs @ q # x # ys)" and q: "q \<in> set fl"
    and n: "unat q + 40 \<le> unat n" "unat n + 24 \<le> unat x" "8 dvd unat n" and w: "unat w = unat n - unat q"
  shows "frees_ok (memheap_charge w hp) (xs @ q # n # x # ys) (n # remove1 q fl)" (is "frees_ok _ ?bs ?fl")
proof -
  let ?cs = "xs @ q # x # ys"
  have b': "blocks_ok hp ?bs" "n \<notin> set ?cs" using blocks_ok_split [OF b, of n] n by simp_all
  have d: "distinct ?bs" "distinct ?cs" using blocks_distinct [OF b'(1)] blocks_distinct [OF b] .
  have F: "distinct fl" "set fl \<subseteq> set (butlast ?cs)" "lone (set fl) ?cs" using f by (auto simp: frees_ok_def)
  have nf: "n \<notin> set fl" using F(2) b'(2) in_set_butlastD by fastforce
  have xf: "x \<notin> set fl" using F(3) q by (simp add: lone_edge)
  have lone: "lone (set ?fl) ?bs"
    using F(1,3) d xf lone_mono [of "set fl" "xs @ [q]" "set ?fl"] lone_mono [of "set fl" "x # ys" "set ?fl"]
    by (auto simp: lone_edge lone_edge [of _ "xs @ [q]", simplified])
  have sub: "set ?fl \<subseteq> set (butlast ?bs)" using F(1,2) by (auto simp: butlast_append)
  have dist: "distinct ?fl" using F(1) nf by simp
  have sz: "bsize ?bs p = bsize ?cs p" if "p \<noteq> q" "p \<noteq> n" for p
    using bsize_mid [OF that(2,1) d(1)] .
  have "(\<Sum>p\<leftarrow>remove1 q fl. bsize ?bs p) = (\<Sum>p\<leftarrow>remove1 q fl. bsize ?cs p)"
    by (rule arg_cong [where f = sum_list], rule map_cong) (use sz F(1) nf in auto)
  moreover have "unat (mh_available_size hp) = unat x - unat q - 24 + (\<Sum>p\<leftarrow>remove1 q fl. bsize ?cs p)"
    using avail_take [OF f q] bsize_split [of q xs x ys] d(2) by simp
  ultimately have avail: "unat (mh_available_size hp - w) = (\<Sum>p\<leftarrow>?fl. bsize ?bs p)"
    using n w bsize_new(2) [OF d(1)] by (subst unat_minus) simp_all
  have min: "16 \<le> bsize ?bs p" if "p \<in> set (butlast ?bs)" "p \<notin> set ?fl" for p
    using that f F(1) n bsize_new(1) [OF d(1)] sz [of p] by (cases "p = q") (auto simp: frees_ok_def butlast_append split: if_splits)
  show ?thesis
    unfolding frees_ok_def using sub dist lone min avail charge_max [of hp w] avail_le_pool [OF b'(1) dist sub] f
    by (simp add: frees_ok_def)
qed

lemma items_ok_split:
  assumes i: "items_ok h S (xs @ q # x # ys) (us @ q # vs)" and n: "n \<notin> insert (free_header h) (set (xs @ q # x # ys))"
    and sub: "set (us @ q # vs) \<subseteq> set (xs @ q # x # ys)"
  defines "s \<equiv> set_prev q 0 (set_next q 0 (del_edge q (it_frees S)))"
  shows "items_ok h (S\<lparr>it_pool := (it_pool S)(n := h), it_blocks := ins_edge q n (lnext (it_blocks S) q) (it_blocks S),
     it_frees := ins_edge (free_header h) n (lnext s (free_header h)) s,
     it_magic := (it_magic S)(n := free_magic, q := used_magic)\<rparr>) (xs @ q # n # x # ys) (n # us @ vs)"
proof -
  have r: "rg (it_frees S) (free_header h # us @ q # vs)" "rg (it_blocks S) (xs @ q # x # ys)"
    using i by (simp_all add: items_ok_def)
  have q: "q \<notin> set (us @ vs)" "n \<noteq> q" using rg_distinct [OF r(1)] n by auto
  have "rg s (free_header h # us @ vs)" unfolding s_def by (rule rg_taken [OF r(1)])
  moreover have "n \<notin> set (free_header h # us @ vs)" using n sub by auto
  ultimately have "rg (ins_edge (free_header h) n (lnext s (free_header h)) s) (free_header h # n # us @ vs)"
    using rg_insert [of s "[]" "free_header h" "us @ vs" n] by simp
  moreover have "rg (ins_edge q n (lnext (it_blocks S) q) (it_blocks S)) (xs @ q # n # x # ys)"
    using rg_insert [OF r(2)] n by simp
  ultimately show ?thesis using i q by (auto simp: items_ok_def)
qed

lemma header_free:
  assumes "pool_ok h hp m" "unat (mh_start_addr hp) \<le> unat n" "unat n + 24 \<le> unat (mh_start_addr hp) + unat (mh_pool_size hp)"
  shows "n \<noteq> free_header h"
  using assms by (auto simp: pool_ok_def)

text \<open>The store for the headers of a heap and one more header in a free block.\<close>

lemma heap_ok_extend:
  assumes k: "heap_ok h hp m (xs @ q # x # ys) fl"
    and n: "unat q + 24 \<le> unat n" "unat n + 24 \<le> unat x" "8 dvd unat n"
  obtains S where "at_items m (insert (free_header h) (set (xs @ q # n # x # ys))) S m" "items_ok h S (xs @ q # x # ys) fl"
    "n \<notin> insert (free_header h) (set (xs @ q # x # ys))" "blocks_ok hp (xs @ q # n # x # ys)"
proof -
  let ?bs = "xs @ q # x # ys"
  obtain S where a: "at_items m (insert (free_header h) (set ?bs)) S m" and i: "items_ok h S ?bs fl"
    by (rule heap_ok_at [OF k])
  note d = heap_okD [OF k]
  note b = blocks_ok_split [OF d(2) n]
  have range: "unat (mh_start_addr hp) \<le> unat n" "unat n + 24 \<le> unat (mh_start_addr hp) + unat (mh_pool_size hp)"
    using block_range [OF b(1), of n] by simp_all
  have nh: "n \<notin> insert (free_header h) (set ?bs)" using b(2) header_free [OF d(1) range] by blast
  have eq: "insert n (insert (free_header h) (set ?bs)) = insert (free_header h) (set (xs @ q # n # x # ys))" by auto
  have "headers (insert n (insert (free_header h) (set ?bs)))"
    using headers_blocks [OF d(1) b(1)] by (simp only: eq)
  then obtain S' where S': "agree (insert n (insert (free_header h) (set ?bs))) S' m"
    "\<And>p. p \<noteq> n \<Longrightarrow> item S' p = item S p"
    using agree_extend [OF _ nh _ d(1) n(3) range] a unfolding at_items_def by blast
  have "items_ok h S' ?bs fl" by (rule items_ok_cong [OF i]) (use S'(2) nh d(8) in metis, rule d(8))
  then show thesis using that [of S'] S'(1) nh b(1) unfolding eq by (simp add: at_items_def)
qed

lemma carve_split_wp:
  assumes k: "heap_ok h hp m (xs @ q # x # ys) fl" and q: "q \<in> set fl"
    and z: "unat z = unat x - unat q - 24" "unat sz + 40 \<le> unat x - unat q - 24"
    and sz: "8 dvd unat sz" "16 \<le> unat sz"
  defines "n \<equiv> q + sz + 24"
  shows "wp (memheap_carve h q sz z hp m) (\<lambda>(hp', m'). hp' = memheap_charge (sz + 24) hp \<and>
     heap_ok h hp' m' (xs @ q # n # x # ys) (n # remove1 q fl) \<and>
     wrote (insert (free_header h) (set (xs @ q # n # x # ys))) m m')"
proof -
  let ?bs = "xs @ q # x # ys" and ?cs = "xs @ q # n # x # ys" and ?fh = "h + 48"
  note d = heap_okD [OF k]
  have x: "unat x < 2 ^ LENGTH(32)" by (rule unsigned_less)
  have un: "unat n = unat q + unat sz + 24" "unat (sz + 24) = unat n - unat q" "unat (sz + 24 + 16) = unat sz + 40"
    using z(2) x unfolding n_def by (simp_all add: unat_word_ariths)
  have "8 dvd unat q" using d(2) by (simp add: blocks_ok_def)
  then have n: "unat q + 40 \<le> unat n" "unat n + 24 \<le> unat x" "8 dvd unat n" using un(1) z(2) sz by simp_all
  obtain us vs where f: "fl = us @ q # vs" "remove1 q fl = us @ vs" by (rule free_split [OF q d(5)])
  obtain S where a: "at_items m (insert ?fh (set ?cs)) S m" and i: "items_ok h S ?bs fl"
    and nh: "n \<notin> insert ?fh (set ?bs)" and b: "blocks_ok hp ?cs"
    using heap_ok_extend [OF k, of n] n by auto
  define s where "s = set_prev q 0 (set_next q 0 (del_edge q (it_frees S)))"
  have r: "rg (it_frees S) (?fh # us @ q # vs)" "rg (it_blocks S) ?bs" using i f by (simp_all add: items_ok_def)
  have nx: "lnext (it_blocks S) q = x" using rg_next(1) [OF r(2)] .
  have rs: "rg s (?fh # us @ vs)" unfolding s_def by (rule rg_taken [OF r(1)])
  have sub: "set (us @ q # vs) \<subseteq> set ?bs" using d(8) f by simp
  have ns: "lnext s ?fh \<in> insert ?fh (set ?cs)" "n \<noteq> lnext s ?fh"
    using rg_closed(1) [OF rs, of ?fh] sub nh by auto
  have cond: "sz + 24 + 16 \<le> z" using un(3) z by (simp add: word_le_nat_alt)
  have fin: "heap_ok h (memheap_charge (sz + 24) hp) m' ?cs (n # us @ vs) \<and> wrote (insert ?fh (set ?cs)) m m'"
    if "at_items m (insert ?fh (set ?cs)) (S\<lparr>it_pool := (it_pool S)(n := h),
       it_blocks := ins_edge q n (lnext (it_blocks S) q) (it_blocks S), it_frees := ins_edge ?fh n (lnext s ?fh) s,
       it_magic := (it_magic S)(n := free_magic, q := used_magic)\<rparr>) m'" for m'
    using heap_okI [OF that items_ok_split [of h S xs q x ys us vs n, folded s_def], of hp] i nh sub f d(1) b
      blocks_ok_cong [OF b] frees_ok_split [OF d(3,2) q n un(2)] that by (simp add: at_items_def)
  show ?thesis
    unfolding memheap_carve_def using cond n_def [symmetric] d(6) f(2)
    apply (simp add: Let_def)
    apply (rule cut_wp [OF a])
         apply (use nh nx in \<open>auto\<close>)[5]
    apply (rule take_block_wp [of m "insert ?fh (set ?cs)" _ _ h us q vs], assumption)
      apply (use sub r(1) in \<open>auto\<close>)[2]
    apply (rule link_free_wp, assumption)
         apply (use nh ns in \<open>auto simp: s_def\<close>)[5]
    apply (rule magic.st_item_wp [simplified], assumption)
     apply simp
    subgoal for m1 m2 m3 m4 using fin [of m4] by (simp add: put_defs s_def add.commute)
    done
qed

section \<open>Allocation under the lock\<close>

text \<open>What no operation changes in the record of a heap.\<close>

definition same_pool :: "rt_memheap \<Rightarrow> rt_memheap \<Rightarrow> bool" where
  "same_pool hp hp' \<longleftrightarrow> mh_start_addr hp' = mh_start_addr hp \<and> mh_pool_size hp' = mh_pool_size hp \<and>
     mh_locked hp' = mh_locked hp"

lemma carve_wp:
  assumes k: "heap_ok h hp m bs fl" and q: "q \<in> set fl" "unat sz \<le> bsize bs q" and z: "unat z = bsize bs q"
    and sz: "8 dvd unat sz" "16 \<le> unat sz" "unat sz + 40 < 2 ^ 32"
  shows "wp (memheap_carve h q sz z hp m) (\<lambda>(hp', m'). same_pool hp hp' \<and>
     (case aheap_carve q (unat sz) (bs, fl) of (bs', fl') \<Rightarrow>
        heap_ok h hp' m' bs' fl' \<and> wrote (insert (free_header h) (set bs')) m m'))"
proof (cases "unat sz + 40 \<le> bsize bs q")
  case True
  note d = heap_okD [OF k]
  have "q \<in> set (butlast bs)" using q(1) d(7) by auto
  then obtain xs x ys where b: "bs = xs @ q # x # ys" "q \<notin> set xs" "bsize bs q = unat x - unat q - 24"
    by (rule bsize_pos_split [OF _ spaced_distinct [OF d(4)]])
  have "q + of_nat (unat sz + 24) = q + sz + 24" by (simp add: add.assoc)
  then have c: "aheap_carve q (unat sz) (bs, fl) = (xs @ q # (q + sz + 24) # x # ys, (q + sz + 24) # remove1 q fl)"
    using True ins_after_split [OF b(2)] by (simp add: aheap_carve_def b(1) del: of_nat_add)
  show ?thesis
    by (rule wp_mono [OF carve_split_wp [of h hp m xs q x ys fl z sz]])
      (use k q z sz b True c in \<open>auto simp: same_pool_def\<close>)
next
  case False
  then show ?thesis
    by (intro wp_mono [OF carve_whole_wp [OF k q(1) _ z False sz(3)]])
      (use q sz in \<open>auto simp: aheap_carve_def same_pool_def\<close>)
qed

lemma alloc_body_wp:
  assumes k: "heap_ok h hp m bs fl" and sz: "8 dvd unat sz" "16 \<le> unat sz" "unat sz + 40 < 2 ^ 32"
  shows "wp (memheap_alloc_body h sz hp m) (\<lambda>(r, hp', m'). same_pool hp hp' \<and>
     (case aheap_alloc (unat sz) (bs, fl) of (out, bs', fl') \<Rightarrow>
        heap_ok h hp' m' bs' fl' \<and> wrote (insert (free_header h) (set bs')) m m' \<and>
        (out = None \<longrightarrow> m' = m \<and> hp' = hp) \<and>
        r = (case out of None \<Rightarrow> 0 | Some q \<Rightarrow> q + 24)))" (is "wp _ ?Q")
proof -
  obtain S where a: "at_items m (insert (free_header h) (set bs)) S m" and i: "items_ok h S bs fl"
    by (rule heap_ok_at [OF k])
  note d = heap_okD [OF k]
  have r: "rg (it_frees S) (free_header h # fl)" using i by (simp add: items_ok_def)
  have "lnext (it_frees S) (h + 48) = hd (fl @ [h + 48])"
    using rg_last [of "it_frees S" "[]" "h + 48"] rg_next [of "it_frees S" "[]" "h + 48"] r by (cases fl) simp_all
  then have n: "i_next_free (h + 48) m = Some (hd (fl @ [h + 48]))" using nfree.ld_item [OF a, of "h + 48"] by simp
  have "0 < sz" using sz(2) by (simp add: word_less_nat_alt)
  note s = memheap_search_wp [OF a subset_insertI i d(4,7), of "[]" fl 0 sz, simplified, OF this]
  have fin: "wp (if sz \<le> g then memheap_carve h p sz g hp m \<bind> (\<lambda>(hp, m). Some (p + 24, hp, m)) else Some (0, hp, m)) ?Q"
    if f: "case find (\<lambda>q. unat sz \<le> bsize bs q) fl of Some q \<Rightarrow> p = q \<and> unat g = bsize bs q | None \<Rightarrow> g < sz" for p g
  proof (cases "find (\<lambda>q. unat sz \<le> bsize bs q) fl")
    case None
    then have "\<not> sz \<le> g" using f by (simp add: not_le)
    then show ?thesis using None k by (simp add: aheap_alloc_def same_pool_def)
  next
    case (Some q)
    then have q: "q \<in> set fl" "unat sz \<le> bsize bs q" using find_Some_mem by force+
    have g: "p = q" "unat g = bsize bs q" "sz \<le> g" using f Some q(2) by (simp_all add: word_le_nat_alt)
    show ?thesis
      using carve_wp [OF k q g(2) sz] g(1,3) Some
      by (auto simp: aheap_alloc_def elim!: wp_mono)
  qed
  have "wp (memheap_search (h + 48) sz m (hd (fl @ [h + 48])) 0) (\<lambda>(p, g).
      wp (if sz \<le> g then memheap_carve h p sz g hp m \<bind> (\<lambda>(hp, m). Some (p + 24, hp, m)) else Some (0, hp, m)) ?Q)"
  proof (rule wp_mono [OF s])
    fix pg assume "case pg of (p, g) \<Rightarrow> case find (\<lambda>q. unat sz \<le> bsize bs q) fl of
       None \<Rightarrow> g < sz | Some q \<Rightarrow> p = q \<and> unat g = bsize bs q"
    then show "case pg of (p, g) \<Rightarrow> wp (if sz \<le> g then memheap_carve h p sz g hp m \<bind>
       (\<lambda>(hp, m). Some (p + 24, hp, m)) else Some (0, hp, m)) ?Q"
      by (cases pg) (simp only: prod.case fin)
  qed
  then show ?thesis unfolding memheap_alloc_body_def d(6) n by (simp only: wp_simps wp_case_prod)
qed

end
