(* ===== verification/MemHeap_Free.thy ===== *)
theory MemHeap_Free
  imports MemHeap_Alloc
begin

text \<open>
  Releasing a block under the lock of the heap: merging with the free neighbours keeps the invariant
  \<open>heap_ok\<close> and acts as \<open>aheap_free\<close> on the abstract heap.
\<close>

section \<open>Removing a header\<close>

lemma blocks_ok_delete:
  assumes "blocks_ok hp (xs @ p # n # x # ys)"
  shows "blocks_ok hp (xs @ p # x # ys)"
  using assms by (auto simp: blocks_ok_def sorted_wrt_append hd_append)

lemma bsize_delete:
  assumes "spaced (xs @ p # n # x # ys)"
  shows "bsize (xs @ p # x # ys) p = bsize (xs @ p # n # x # ys) p + bsize (xs @ p # n # x # ys) n + 24"
    "\<And>q. q \<noteq> p \<Longrightarrow> q \<noteq> n \<Longrightarrow> bsize (xs @ p # x # ys) q = bsize (xs @ p # n # x # ys) q"
proof -
  note d = spaced_distinct [OF assms]
  have s: "unat p + 24 \<le> unat n" "unat n + 24 \<le> unat x" using assms by (auto simp: sorted_wrt_append)
  show "bsize (xs @ p # x # ys) p = bsize (xs @ p # n # x # ys) p + bsize (xs @ p # n # x # ys) n + 24"
    using bsize_split [of p xs x ys] bsize_new [OF d] d s by simp
  show "bsize (xs @ p # x # ys) q = bsize (xs @ p # n # x # ys) q" if "q \<noteq> p" "q \<noteq> n" for q
    using bsize_mid [OF that(2,1) d] by simp
qed

lemma min_delete:
  assumes s: "spaced (xs @ p # n # x # ys)" and q: "q \<in> set (butlast (xs @ p # x # ys))" "q \<noteq> p"
    and m: "q \<in> set (butlast (xs @ p # n # x # ys)) \<Longrightarrow> 16 \<le> bsize (xs @ p # n # x # ys) q"
  shows "16 \<le> bsize (xs @ p # x # ys) q"
proof -
  have "q \<noteq> n" using in_set_butlastD [OF q(1)] spaced_distinct [OF s] by auto
  moreover have "q \<in> set (butlast (xs @ p # n # x # ys))" using q(1) by (auto simp: butlast_append)
  ultimately show ?thesis using m bsize_delete(2) [OF s q(2)] by simp
qed

text \<open>Merging two free neighbours gains the bytes of a header.\<close>

lemma bsize_sum_delete:
  assumes "spaced (xs @ p # n # x # ys)" "finite F" "p \<in> F" "n \<in> F"
  shows "(\<Sum>q\<in>F - {n}. bsize (xs @ p # x # ys) q) = (\<Sum>q\<in>F. bsize (xs @ p # n # x # ys) q) + 24"
proof -
  let ?f = "bsize (xs @ p # n # x # ys)" and ?g = "bsize (xs @ p # x # ys)"
  note d = bsize_delete [OF assms(1)]
  have pn: "p \<noteq> n" using spaced_distinct [OF assms(1)] by auto
  have "(\<Sum>q\<in>F - {n}. ?g q) = ?g p + (\<Sum>q\<in>F - {n} - {p}. ?g q)"
    using assms pn by (intro sum.remove) auto
  also have "(\<Sum>q\<in>F - {n} - {p}. ?g q) = (\<Sum>q\<in>F - {n} - {p}. ?f q)" using d(2) by (intro sum.cong) auto
  also have "?g p + \<dots> = ?f n + (?f p + (\<Sum>q\<in>F - {n} - {p}. ?f q)) + 24" using d(1) by simp
  also have "?f p + (\<Sum>q\<in>F - {n} - {p}. ?f q) = (\<Sum>q\<in>F - {n}. ?f q)"
    using assms pn by (intro sum.remove [symmetric]) auto
  also have "?f n + \<dots> = (\<Sum>q\<in>F. ?f q)" using assms by (intro sum.remove [symmetric]) auto
  finally show ?thesis .
qed

text \<open>The invariant of the free blocks after a release that makes \<open>c\<close> more bytes available.\<close>

lemma frees_ok_grow:
  assumes f: "frees_ok hp bs fl" and b: "blocks_ok hp bs'" and d: "distinct fl'" "set fl' \<subseteq> set (butlast bs')"
    and l: "lone (set fl') bs'" and m: "\<And>p. p \<in> set (butlast bs') \<Longrightarrow> p \<notin> set fl' \<Longrightarrow> 16 \<le> bsize bs' p"
    and s: "(\<Sum>q\<in>set fl'. bsize bs' q) = (\<Sum>q\<in>set fl. bsize bs q) + c" and w: "unat w = c"
  shows "frees_ok (add_avail w hp) bs' fl'"
proof -
  have fl: "distinct fl" "unat (mh_available_size hp) = (\<Sum>q\<leftarrow>fl. bsize bs q)" using f by (auto simp: frees_ok_def)
  have e: "(\<Sum>q\<leftarrow>fl'. bsize bs' q) = unat (mh_available_size hp) + c"
    using fl s sum_list_distinct_conv_sum_set [OF d(1), of "bsize bs'"] sum_list_distinct_conv_sum_set [OF fl(1), of "bsize bs"]
    by simp
  have p: "unat (mh_available_size hp) + c + 48 \<le> unat (mh_pool_size hp)"
    using avail_le_pool [OF b d] unfolding e .
  moreover have "unat (mh_pool_size hp) < 2 ^ LENGTH(32)" by (rule unsigned_less)
  ultimately have "unat (mh_available_size hp + w) = unat (mh_available_size hp) + c"
    using w by (simp add: unat_word_ariths)
  then show ?thesis using f d l m e by (auto simp: frees_ok_def add_avail_def)
qed

section \<open>The four cases\<close>

lemma before_none: "q \<notin> set (tl bs) \<Longrightarrow> before q bs = None"
  by (induction q bs rule: before.induct) auto

lemma before_split: "distinct (xs @ q # ys) \<Longrightarrow> before q (xs @ q # ys) = (if xs = [] then None else Some (last xs))"
proof (induction xs)
  case Nil
  then show ?case using before_none [of q "q # ys"] by simp
next
  case (Cons a xs)
  then show ?case by (cases xs) auto
qed

lemma behind_split: "q \<notin> set xs \<Longrightarrow> behind q (xs @ q # x # ys) = Some x"
proof (induction xs)
  case (Cons a xs)
  then show ?case by (cases xs) auto
qed simp

text \<open>The block lists around the released block \<open>q\<close>: merged with the block before it
  (\<open>m\<close>) and with the block behind it (\<open>n\<close>).\<close>

lemma aheap_free_split:
  assumes d: "distinct (xs @ q # x # ys)" and q: "q \<notin> set fl"
  shows "xs = [] \<or> last xs \<notin> set fl \<Longrightarrow> x \<notin> set fl \<Longrightarrow> aheap_free q (xs @ q # x # ys, fl) = (xs @ q # x # ys, q # fl)"
    "xs = [] \<or> last xs \<notin> set fl \<Longrightarrow> x \<in> set fl \<Longrightarrow>
       aheap_free q (xs @ q # x # ys, fl) = (xs @ q # ys, q # remove1 x fl)"
    "xs = us @ [b] \<Longrightarrow> b \<in> set fl \<Longrightarrow> x \<notin> set fl \<Longrightarrow> aheap_free q (xs @ q # x # ys, fl) = (us @ b # x # ys, fl)"
    "xs = us @ [b] \<Longrightarrow> b \<in> set fl \<Longrightarrow> x \<in> set fl \<Longrightarrow>
       aheap_free q (xs @ q # x # ys, fl) = (us @ b # ys, remove1 x fl)"
  using d before_split [OF d] behind_split [of q xs x ys] behind_split [of b us x ys]
  by (auto simp: aheap_free_def remove1_append Let_def split: if_splits)

lemma frees_ok_free0:
  assumes f: "frees_ok hp (xs @ q # x # ys) fl" and b: "blocks_ok hp (xs @ q # x # ys)" and q: "q \<notin> set fl"
    and n: "xs = [] \<or> last xs \<notin> set fl" "x \<notin> set fl" and z: "unat z = bsize (xs @ q # x # ys) q"
  shows "frees_ok (add_avail z hp) (xs @ q # x # ys) (q # fl)"
proof (rule frees_ok_grow [OF f b _ _ _ _ _ z])
  let ?bs = "xs @ q # x # ys"
  note d = blocks_distinct [OF b]
  have F: "set fl \<subseteq> set (butlast ?bs)" "distinct fl" "lone (set fl) ?bs" using f by (auto simp: frees_ok_def)
  show "distinct (q # fl)" using F(2) q by simp
  show "set (q # fl) \<subseteq> set (butlast ?bs)" using F(1) by (auto simp: butlast_append)
  show "(\<Sum>p\<in>set (q # fl). bsize ?bs p) = (\<Sum>p\<in>set fl. bsize ?bs p) + bsize ?bs q" using q by simp
  show "16 \<le> bsize ?bs p" if "p \<in> set (butlast ?bs)" "p \<notin> set (q # fl)" for p
    using f that by (auto simp: frees_ok_def)
  have "lone (insert q (set fl)) (x # ys)" by (rule lone_mono [of "set fl"]) (use F(3) d in \<open>auto simp: lone_edge\<close>)
  moreover have "lone (insert q (set fl)) (xs @ [q])"
  proof (cases xs rule: rev_cases)
    case (snoc us b)
    have "lone (insert q (set fl)) (us @ [b])"
      by (rule lone_mono [of "set fl"]) (use F(3) d in \<open>auto simp: lone_edge snoc\<close>)
    then show ?thesis using n d by (simp add: snoc lone_edge)
  qed simp
  ultimately show "lone (set (q # fl)) ?bs" using n(2) d by (auto simp: lone_edge)
qed

lemma frees_ok_free_next:
  assumes f: "frees_ok hp (xs @ q # x # y # ys) fl" and b: "blocks_ok hp (xs @ q # x # y # ys)" and q: "q \<notin> set fl"
    and n: "xs = [] \<or> last xs \<notin> set fl" "x \<in> set fl" and w: "unat w = bsize (xs @ q # x # y # ys) q + 24"
  shows "frees_ok (add_avail w hp) (xs @ q # y # ys) (q # remove1 x fl)"
proof (rule frees_ok_grow [OF f _ _ _ _ _ _ w])
  let ?bs = "xs @ q # x # y # ys" and ?cs = "xs @ q # y # ys" and ?F = "insert q (set fl)"
  note d = blocks_distinct [OF b]
  have sp: "spaced ?bs" using b by (simp add: blocks_ok_def)
  have F: "set fl \<subseteq> set (butlast ?bs)" "distinct fl" "lone (set fl) ?bs" using f by (auto simp: frees_ok_def)
  have fl: "set (q # remove1 x fl) = ?F - {x}" using F(2) d by auto
  have l: "lone (set fl) (xs @ [q])" "y \<notin> set fl" "lone (set fl) (y # ys)"
    using F(3) n(2) by (simp_all add: lone_edge lone_edge [of _ "xs @ [q]", simplified])
  show "blocks_ok hp ?cs" by (rule blocks_ok_delete [OF b])
  show "distinct (q # remove1 x fl)" using F(2) q by simp
  show "set (q # remove1 x fl) \<subseteq> set (butlast ?cs)" using F(1) d unfolding fl by (auto simp: butlast_append)
  show "(\<Sum>p\<in>set (q # remove1 x fl). bsize ?cs p) = (\<Sum>p\<in>set fl. bsize ?bs p) + (bsize ?bs q + 24)"
    using bsize_sum_delete [OF sp, of ?F] n(2) q unfolding fl by simp
  show "16 \<le> bsize ?cs p" if "p \<in> set (butlast ?cs)" "p \<notin> set (q # remove1 x fl)" for p
  proof (rule min_delete [OF sp that(1)])
    have "p \<noteq> x" using in_set_butlastD [OF that(1)] d by auto
    then show "16 \<le> bsize ?bs p" if "p \<in> set (butlast ?bs)"
      using f that \<open>p \<notin> set (q # remove1 x fl)\<close> F(2) by (auto simp: frees_ok_def)
  qed (use that(2) in simp)
  have "lone (?F - {x}) (y # ys)" by (rule lone_mono [OF l(3)]) (use d in auto)
  moreover have "lone (?F - {x}) (xs @ [q])"
  proof (cases xs rule: rev_cases)
    case (snoc us b)
    have "lone (?F - {x}) (us @ [b])"
      by (rule lone_mono [of "set fl"]) (use F(3) d in \<open>auto simp: lone_edge snoc\<close>)
    then show ?thesis using n d by (simp add: snoc lone_edge)
  qed simp
  ultimately show "lone (set (q # remove1 x fl)) ?cs" unfolding fl using l(2) d by (auto simp: lone_edge)
qed

lemma frees_ok_free_prev:
  assumes f: "frees_ok hp (us @ b # q # x # ys) fl" and b: "blocks_ok hp (us @ b # q # x # ys)" and q: "q \<notin> set fl"
    and n: "b \<in> set fl" "x \<notin> set fl" and w: "unat w = bsize (us @ b # q # x # ys) q + 24"
  shows "frees_ok (add_avail w hp) (us @ b # x # ys) fl"
proof (rule frees_ok_grow [OF f _ _ _ _ _ _ w])
  let ?bs = "us @ b # q # x # ys" and ?cs = "us @ b # x # ys" and ?F = "insert q (set fl)"
  note d = blocks_distinct [OF b]
  have sp: "spaced ?bs" using b by (simp add: blocks_ok_def)
  have F: "set fl \<subseteq> set (butlast ?bs)" "lone (set fl) ?bs" using f by (auto simp: frees_ok_def)
  show "blocks_ok hp ?cs" by (rule blocks_ok_delete [OF b])
  show "distinct fl" using f by (simp add: frees_ok_def)
  show "set fl \<subseteq> set (butlast ?cs)" using F(1) q by (auto simp: butlast_append)
  show "(\<Sum>p\<in>set fl. bsize ?cs p) = (\<Sum>p\<in>set fl. bsize ?bs p) + (bsize ?bs q + 24)"
    using bsize_sum_delete [OF sp, of ?F] n(1) q by simp
  show "16 \<le> bsize ?cs p" if "p \<in> set (butlast ?cs)" "p \<notin> set fl" for p
    by (rule min_delete [OF sp that(1)]) (use f that(2) n(1) in \<open>auto simp: frees_ok_def\<close>)
  show "lone (set fl) ?cs"
    using F(2) n(2) by (simp add: lone_edge lone_edge [of _ "us @ [b]", simplified])
qed

text \<open>With both neighbours free, the merge with the block behind comes second.\<close>

lemma frees_ok_free_both:
  assumes f: "frees_ok hp (us @ b # q # x # y # ys) fl" and b: "blocks_ok hp (us @ b # q # x # y # ys)" and q: "q \<notin> set fl"
    and n: "b \<in> set fl" "x \<in> set fl" and w: "unat w = bsize (us @ b # q # x # y # ys) q + 48"
  shows "frees_ok (add_avail w hp) (us @ b # y # ys) (remove1 x fl)"
proof (rule frees_ok_grow [OF f _ _ _ _ _ _ w])
  let ?bs = "us @ b # q # x # y # ys" and ?cs = "us @ b # x # y # ys" and ?ds = "us @ b # y # ys" and ?F = "insert q (set fl)"
  note d = blocks_distinct [OF b]
  note b1 = blocks_ok_delete [OF b]
  have sp: "spaced ?bs" "spaced ?cs" using b b1 by (simp_all add: blocks_ok_def)
  have F: "set fl \<subseteq> set (butlast ?bs)" "lone (set fl) ?bs" "distinct fl" using f by (auto simp: frees_ok_def)
  have fl: "set (remove1 x fl) = set fl - {x}" using F(3) by simp
  show "blocks_ok hp ?ds" by (rule blocks_ok_delete [OF b1])
  show "distinct (remove1 x fl)" using F(3) by simp
  show "set (remove1 x fl) \<subseteq> set (butlast ?ds)" using F(1) q unfolding fl by (auto simp: butlast_append)
  show "(\<Sum>p\<in>set (remove1 x fl). bsize ?ds p) = (\<Sum>p\<in>set fl. bsize ?bs p) + (bsize ?bs q + 48)"
    using bsize_sum_delete [OF sp(1), of ?F] bsize_sum_delete [OF sp(2), of "set fl"] n q unfolding fl by simp
  show "16 \<le> bsize ?ds p" if "p \<in> set (butlast ?ds)" "p \<notin> set (remove1 x fl)" for p
  proof (rule min_delete [OF sp(2) that(1)], use that(2) n(1) d F(3) in force, rule min_delete [OF sp(1)])
    have "p \<noteq> x" using in_set_butlastD [OF that(1)] d by auto
    then show "16 \<le> bsize ?bs p" if "p \<in> set (butlast ?bs)"
      using f that \<open>p \<notin> set (remove1 x fl)\<close> F(3) by (auto simp: frees_ok_def)
  qed (use that(2) n(1) d F(3) in force)+
  have l: "lone (set fl) (us @ [b])" "y \<notin> set fl" "lone (set fl) (y # ys)"
    using F(2) n by (simp_all add: lone_edge lone_edge [of _ "us @ [b]", simplified] lone_edge [of _ "us @ [b, q]", simplified])
  show "lone (set (remove1 x fl)) ?ds"
    unfolding fl using l lone_mono [OF l(1), of "set fl - {x}"] lone_mono [OF l(3), of "set fl - {x}"]
    by (auto simp: lone_edge)
qed

section \<open>The code\<close>

lemma rg_prev:
  assumes "rg s (xs @ q # ys)"
  shows "lprev s q = (if xs = [] then last (q # ys) else last xs)"
proof (cases xs rule: rev_cases)
  case Nil
  have "q # ys = butlast (q # ys) @ [last (q # ys)]" by simp
  then show ?thesis using rg_last(2) [of s "butlast (q # ys)" "last (q # ys)"] assms Nil by (metis append_Nil list.sel(1))
next
  case (snoc us b)
  then show ?thesis using rg_next(2) [of s us b q ys] assms by simp
qed

lemma add_avail_add: "add_avail a (add_avail b hp) = add_avail (b + a) hp"
  by (simp add: add_avail_def add.assoc)

lemma add_avail_sel [simp]:
  "mh_start_addr (add_avail n hp) = mh_start_addr hp" "mh_pool_size (add_avail n hp) = mh_pool_size hp"
  "mh_block_list (add_avail n hp) = mh_block_list hp" "mh_free_list (add_avail n hp) = mh_free_list hp"
  "mh_locked (add_avail n hp) = mh_locked hp"
  by (simp_all add: add_avail_def)

lemma items_okD:
  assumes "items_ok h S bs fl"
  shows "rg (it_blocks S) bs" "rg (it_frees S) (free_header h # fl)"
    "b \<in> set bs \<Longrightarrow> it_pool S b = h" "b \<in> set bs \<Longrightarrow> it_magic S b = (if b \<in> set fl then free_magic else used_magic)"
  using assms by (simp_all add: items_ok_def)

text \<open>Marking the block as free and merging it with the block before it.\<close>

lemma free_head_wp:
  assumes k: "heap_ok h hp m (xs @ q # x # ys) fl" and q: "q \<notin> set fl"
    and a: "at_items m H S m" "insert (free_header h) (set (xs @ q # x # ys)) \<subseteq> H" and i: "items_ok h S (xs @ q # x # ys) fl"
    and Q: "\<And>z m' s. unat z = bsize (xs @ q # x # ys) q \<Longrightarrow> rg s (xs @ q # x # ys) \<Longrightarrow> xs = [] \<or> last xs \<notin> set fl \<Longrightarrow>
        at_items m H (S\<lparr>it_magic := (it_magic S)(q := free_magic), it_blocks := s\<rparr>) m' \<Longrightarrow> Q (q, True, add_avail z hp, m')"
      "\<And>z m' s us b. unat z = bsize (xs @ q # x # ys) q \<Longrightarrow> xs = us @ [b] \<Longrightarrow> b \<in> set fl \<Longrightarrow> rg s (us @ b # x # ys) \<Longrightarrow>
        at_items m H (S\<lparr>it_magic := (it_magic S)(q := free_magic), it_blocks := s\<rparr>) m' \<Longrightarrow>
        Q (b, False, add_avail (z + 24) hp, m')"
  shows "wp (set_magic q free_magic m) (\<lambda>m. wp (memitem_size q m) (\<lambda>z. wp (memheap_merge_prev q (add_avail z hp) m) Q))"
proof (rule magic.st_item_wp [simplified, OF a(1)])
  let ?bs = "xs @ q # x # ys" and ?b = "lprev (it_blocks S) q"
  note d = heap_okD [OF k]
  show qH: "q \<in> H" using a(2) by auto
  have r: "rg (it_blocks S) ?bs" using i by (simp add: items_ok_def)
  have b: "?b = (if xs = [] then last (x # ys) else last xs)" using rg_prev [OF r] by simp
  have bm: "?b \<in> set ?bs" "lnext (it_blocks S) q = x" using rg_closed(2) [OF r, of q] rg_next(1) [OF r] by auto
  have dist: "distinct ?bs" by (rule rg_distinct [OF r])
  then have ne: "q \<noteq> ?b" "q \<noteq> x" unfolding b by (cases xs rule: rev_cases; auto)+
  have "last ?bs \<notin> set (butlast ?bs)" using dist by (metis append_butlast_last_id distinct_append
      disjoint_iff list.set_intros(1) Nil_is_append_conv list.distinct(1))
  then have tl: "last (x # ys) \<notin> set fl" using d(7) by auto
  fix m1 assume m1: "at_items m H (put_magic q free_magic S) m1"
  show "wp (memitem_size q m1) (\<lambda>z. wp (memheap_merge_prev q (add_avail z hp) m1) Q)"
  proof (rule memitem_size_wp [OF m1 _ _ d(4)])
    fix z :: u32 assume z: "unat z = bsize ?bs q"
    have g: "it_magic (put_magic q free_magic S) ?b = (if ?b \<in> set fl then free_magic else used_magic)"
      using items_okD(4) [OF i bm(1)] ne by (simp add: put_defs)
    show "wp (memheap_merge_prev q (add_avail z hp) m1) Q"
    proof (rule merge_prev_wp [OF m1, of q ?b x])
      assume "it_magic (put_magic q free_magic S) ?b AND 1 \<noteq> 0"
      then have "xs = [] \<or> last xs \<notin> set fl" using g b by (auto split: if_splits)
      then show "Q (q, True, add_avail z hp, m1)" using Q(1) [OF z r, of m1] m1 by (simp add: put_defs)
    next
      fix m2 assume "it_magic (put_magic q free_magic S) ?b AND 1 = 0"
        and m2: "at_items m H ((put_magic q free_magic S)\<lparr>it_blocks := del_edge q (it_blocks (put_magic q free_magic S))\<rparr>) m2"
      then have bf: "?b \<in> set fl" using g by (auto split: if_splits)
      then obtain us where us: "xs = us @ [?b]" using b tl by (cases xs rule: rev_cases) auto
      have "rg (del_edge q (it_blocks S)) (us @ ?b # x # ys)" using rg_remove [OF r] us by (metis append.assoc append_Cons append_Nil snoc_eq_iff_butlast)
      then show "Q (?b, False, add_avail 24 (add_avail z hp), m2)"
        using Q(2) [OF z us bf, of _ m2] m2 by (simp add: put_defs add_avail_add)
    qed (use ne bm a(2) qH in \<open>auto simp: put_defs\<close>)
  qed (use a(2) r in \<open>auto simp: put_defs butlast_append\<close>)
qed

text \<open>Merging with the block behind, and linking the block into the free list.\<close>

lemma free_tail_wp:
  assumes a: "at_items m0 H S m" "insert (free_header h) (set (xs @ p # x # ys)) \<subseteq> H"
    and r: "rg (it_blocks S) (xs @ p # x # ys)" "rg (it_frees S) (free_header h # fl)" "set fl \<subseteq> set (xs @ p # x # ys)"
    and x: "it_magic S x = (if x \<in> set fl then free_magic else used_magic)" and ins: "ins \<longleftrightarrow> p \<notin> set fl" "p \<noteq> free_header h"
    and hp: "mh_free_list hp = free_header h"
    and Q: "\<And>m' s. x \<notin> set fl \<Longrightarrow> rg s (free_header h # (if ins then p # fl else fl)) \<Longrightarrow>
        at_items m0 H (S\<lparr>it_frees := s\<rparr>) m' \<Longrightarrow> Q (hp, m')"
      "\<And>m' s t. x \<in> set fl \<Longrightarrow> rg t (xs @ p # ys) \<Longrightarrow> rg s (free_header h # (if ins then p # remove1 x fl else remove1 x fl)) \<Longrightarrow>
        at_items m0 H (S\<lparr>it_blocks := t, it_frees := s\<rparr>) m' \<Longrightarrow> Q (add_avail 24 hp, m')"
  shows "wp (memheap_merge_next p hp m) (\<lambda>(hp, m). wp (if ins then memheap_insert_header (mh_free_list hp) p m else Some m)
     (\<lambda>m. Q (hp, m)))"
proof -
  let ?fh = "free_header h" and ?bs = "xs @ p # x # ys"
  note d = rg_distinct [OF r(1)]
  have L: "wp (if ins then memheap_insert_header ?fh p m' else Some m') (\<lambda>m. Q (hp', m))"
    if at: "at_items m0 H S' m'" and rs: "rg (it_frees S') (?fh # gl)" and g: "set gl \<subseteq> set fl"
      and q: "\<And>m'' s. rg s (?fh # (if ins then p # gl else gl)) \<Longrightarrow> at_items m0 H (S'\<lparr>it_frees := s\<rparr>) m'' \<Longrightarrow> Q (hp', m'')"
    for S' m' gl hp'
  proof (cases ins)
    case True
    have pg: "p \<notin> set (?fh # gl)" using True ins g by auto
    have n: "lnext (it_frees S') ?fh \<in> insert ?fh (set gl)" using rg_closed(1) [OF rs, of ?fh] by simp
    have pv: "lprev (it_frees S') (lnext (it_frees S') ?fh) = ?fh"
      using rs rg_next [of "it_frees S'" "[]" ?fh] rg_last [of "it_frees S'" "[]" ?fh] by (cases gl) auto
    have rg: "rg (ins_edge ?fh p (lnext (it_frees S') ?fh) (it_frees S')) (?fh # p # gl)"
      using rg_insert [of "it_frees S'" "[]" ?fh gl p] rs pg by simp
    have "wp (memheap_insert_header ?fh p m') (\<lambda>m. Q (hp', m))"
      by (rule insert_header_wp [OF at _ _ _ _ _ pv]) (use a(2) r(3) g n pg q [of _] rg True in auto)
    then show ?thesis using True by simp
  next
    case False
    then show ?thesis using q [of "it_frees S'" m'] rs at by simp
  qed
  have n: "lnext (it_blocks S) p = x" "lprev (it_blocks S) x = p" using rg_next [OF r(1)] by auto
  show ?thesis
  proof (rule merge_next_wp [OF a(1) n refl])
    assume "it_magic S x AND 1 \<noteq> 0"
    then have x': "x \<notin> set fl" using x by auto
    show "case (hp, m) of (hp, m) \<Rightarrow> wp (if ins then memheap_insert_header (mh_free_list hp) p m else Some m) (\<lambda>m. Q (hp, m))"
      unfolding prod.case hp by (rule L [OF a(1) r(2)]) (use Q(1) [OF x'] in auto)
  next
    assume "it_magic S x AND 1 = 0"
    then have x': "x \<in> set fl" using x by (auto split: if_splits)
    obtain us vs where f: "fl = us @ x # vs" "remove1 x fl = us @ vs"
      by (rule free_split [OF x']) (use rg_distinct [OF r(2)] in simp)
    have rf: "rg (it_frees S) (?fh # us @ x # vs)" using r(2) f by simp
    show "lnext (it_blocks S) x \<in> H \<and> x \<noteq> lnext (it_frees S) x \<and> lnext (it_frees S) x \<in> H \<and> lprev (it_frees S) x \<in> H"
      using rg_closed(1) [OF r(1), of x] free_neighbours [OF rf] a(2) r(3) f(1) by auto
    fix m1 assume m1: "at_items m0 H (S\<lparr>it_blocks := del_edge x (it_blocks S), it_frees := del_edge x (it_frees S)\<rparr>) m1"
    have rx: "rg (del_edge x (it_blocks S)) (xs @ p # ys)" using rg_remove [of "it_blocks S" "xs @ [p]" x ys] r(1) by simp
    have "rg (del_edge x (it_frees S)) (?fh # remove1 x fl)" using rg_remove [of "it_frees S" "?fh # us" x vs] rf f(2) by simp
    then show "case (add_avail 24 hp, m1) of (hp, m) \<Rightarrow> wp (if ins then memheap_insert_header (mh_free_list hp) p m else Some m) (\<lambda>m. Q (hp, m))"
      unfolding prod.case add_avail_sel hp
      by (intro L [OF m1]) (use Q(2) [OF x' rx] set_remove1_subset [of x fl] in auto)
  qed (use a(2) d in auto)
qed

section \<open>Release under the lock\<close>

lemma items_ok_freed:
  assumes i: "items_ok h S bs fl" and r: "rg t bs'" "rg s (free_header h # fl')"
    and b: "set bs' \<subseteq> set bs" "\<And>b. b \<in> set bs' \<Longrightarrow> b \<in> set fl' \<longleftrightarrow> b \<in> insert q (set fl)"
  shows "items_ok h (S\<lparr>it_magic := (it_magic S)(q := free_magic), it_blocks := t, it_frees := s\<rparr>) bs' fl'"
  unfolding items_ok_def
proof (intro conjI ballI)
  fix c assume c: "c \<in> set bs'"
  note d = items_okD(3,4) [OF i subsetD [OF b(1) c]]
  show "it_pool (S\<lparr>it_magic := (it_magic S)(q := free_magic), it_blocks := t, it_frees := s\<rparr>) c = h" using d by simp
  show "it_magic (S\<lparr>it_magic := (it_magic S)(q := free_magic), it_blocks := t, it_frees := s\<rparr>) c =
     (if c \<in> set fl' then free_magic else used_magic)" using d b(2) [OF c] by simp
qed (use r in simp_all)

lemma at_items_mono: "at_items m0 H S m \<Longrightarrow> H' \<subseteq> H \<Longrightarrow> agree H' S m"
  unfolding at_items_def agree_def headers_def by blast

lemma heap_ok_merged:
  assumes a: "at_items m H (S\<lparr>it_magic := (it_magic S)(q := free_magic), it_blocks := t, it_frees := s\<rparr>) m'"
    and H: "H = insert (free_header h) (set bs)"
    and k: "pool_ok h hp m" and i: "items_ok h S bs fl" and r: "rg t bs'" "rg s (free_header h # fl')"
    and b: "set bs' \<subseteq> set bs" "\<And>b. b \<in> set bs' \<Longrightarrow> b \<in> set fl' \<longleftrightarrow> b \<in> insert q (set fl)"
    and f: "blocks_ok hp bs'" "frees_ok (add_avail w hp) bs' fl'"
  shows "same_pool hp (add_avail w hp) \<and> wrote H m m' \<and> heap_ok h (add_avail w hp) m' bs' fl'"
proof -
  have "insert (free_header h) (set bs') \<subseteq> H" using H b(1) by auto
  note g = at_items_mono [OF a this]
  have w: "wrote H m m'" "dom m' = dom m" using a by (auto simp: at_items_def wrote_def)
  have "pool_ok h (add_avail w hp) m'" by (rule pool_ok_cong [OF k w(2)]) simp_all
  then show ?thesis
    using g w items_ok_freed [OF i r b] f blocks_ok_cong [OF f(1), of "add_avail w hp"]
    by (auto simp: heap_ok_def same_pool_def)
qed

lemma free_body_eq:
  "memheap_free_body p hp m = set_magic p free_magic m \<bind> (\<lambda>m. memitem_size p m \<bind> (\<lambda>z.
     memheap_merge_prev p (add_avail z hp) m \<bind> (\<lambda>(p, ins, hp, m). memheap_merge_next p hp m \<bind> (\<lambda>(hp, m).
       (if ins then memheap_insert_header (mh_free_list hp) p m else Some m) \<bind> (\<lambda>m. Some (hp, m))))))"
  by (simp add: memheap_free_body_def add_avail_def Let_def)

lemma room_for_headers:
  assumes "pool_ok h hp m" "blocks_ok hp bs" "q \<in> set (butlast bs)" and z: "unat (z :: u32) = bsize bs q"
  shows "unat (z + 24) = bsize bs q + 24" "unat (z + 48) = bsize bs q + 48"
proof -
  have d: "distinct bs" using assms(2) by (rule blocks_distinct)
  obtain xs x ys where b: "bs = xs @ q # x # ys" "bsize bs q = unat x - unat q - 24"
    using bsize_pos_split [OF assms(3) d] by metis
  have "unat x + 24 \<le> 2 ^ 32" "unat (mh_start_addr hp) \<le> unat q" "0 < unat (mh_start_addr hp)" "unat q + 24 \<le> unat x"
    using block_range [OF assms(2), of x] block_range [OF assms(2), of q] assms(1,2) b(1)
    by (auto simp: pool_ok_def blocks_ok_def sorted_wrt_append unat_gt_0)
  then have "bsize bs q + 48 < 2 ^ 32" using b(2) by simp
  then show "unat (z + 24) = bsize bs q + 24" "unat (z + 48) = bsize bs q + 48"
    using z by (simp_all add: unat_word_ariths)
qed

definition freed :: "u32 \<Rightarrow> rt_memheap \<Rightarrow> memory \<Rightarrow> u32 list \<Rightarrow> u32 list \<Rightarrow> u32 \<Rightarrow> rt_memheap \<times> memory \<Rightarrow> bool" where
  "freed h hp m bs fl q = (\<lambda>(hp', m'). same_pool hp hp' \<and> wrote (insert (free_header h) (set bs)) m m' \<and>
     (case aheap_free q (bs, fl) of (bs', fl') \<Rightarrow> heap_ok h hp' m' bs' fl'))"

lemma free_alone_wp:
  assumes k: "heap_ok h hp m (xs @ q # x # ys) fl" and q: "q \<notin> set fl" and i: "items_ok h S (xs @ q # x # ys) fl"
    and z: "unat z = bsize (xs @ q # x # ys) q" and t: "rg t (xs @ q # x # ys)" and n: "xs = [] \<or> last xs \<notin> set fl"
    and at: "at_items m (insert (free_header h) (set (xs @ q # x # ys)))
      (S\<lparr>it_magic := (it_magic S)(q := free_magic), it_blocks := t\<rparr>) m1"
  shows "wp (memheap_merge_next q (add_avail z hp) m1) (\<lambda>(hp', m2). wp (if True then memheap_insert_header (mh_free_list hp') q m2
     else Some m2) (\<lambda>m'. freed h hp m (xs @ q # x # ys) fl q (hp', m')))"
proof -
  let ?bs = "xs @ q # x # ys" and ?fh = "free_header h"
  note d = heap_okD [OF k]
  note ds = blocks_distinct [OF d(2)]
  note iD = items_okD [OF i]
  have qb: "q \<in> set (butlast ?bs)" by (simp add: butlast_append)
  have qh: "q \<noteq> ?fh" using header_free [OF d(1)] block_range [OF d(2), of q] by auto
  note w = room_for_headers [OF d(1,2) qb z]
  show ?thesis
  proof (rule free_tail_wp [OF at, of h xs q x ys fl True])
    fix m' s assume c: "x \<notin> set fl" "rg s (?fh # (if True then q # fl else fl))"
      "at_items m (insert ?fh (set ?bs)) (S\<lparr>it_magic := (it_magic S)(q := free_magic), it_blocks := t, it_frees := s\<rparr>) m'"
    show "freed h hp m ?bs fl q (add_avail z hp, m')"
      unfolding freed_def aheap_free_split(1) [OF ds q n c(1)] prod.case
      by (rule heap_ok_merged [OF c(3) refl d(1) i t]) (use c d frees_ok_free0 [OF d(3,2) q n c(1) z] in auto)
  next
    fix m' s u assume c: "x \<in> set fl" "rg u (xs @ q # ys)" "rg s (?fh # (if True then q # remove1 x fl else remove1 x fl))"
      "at_items m (insert ?fh (set ?bs)) (S\<lparr>it_magic := (it_magic S)(q := free_magic), it_blocks := t, it_blocks := u, it_frees := s\<rparr>) m'"
    obtain y ys' where ys: "ys = y # ys'" using c(1) d(7) ds by (cases ys) (auto simp: butlast_append)
    show "freed h hp m ?bs fl q (add_avail 24 (add_avail z hp), m')"
      unfolding freed_def aheap_free_split(2) [OF ds q n c(1)] prod.case add_avail_add
      by (rule heap_ok_merged [OF _ refl d(1) i c(2)])
        (use c d ds w frees_ok_free_next [of hp xs q x y ys' fl "z + 24"] q n blocks_ok_delete [of hp xs q x y ys'] in \<open>auto simp: ys\<close>)
  qed (use d q qh ds t iD in auto)
qed

lemma free_merged_wp:
  assumes k: "heap_ok h hp m (us @ b # q # x # ys) fl" and q: "q \<notin> set fl" and i: "items_ok h S (us @ b # q # x # ys) fl"
    and z: "unat z = bsize (us @ b # q # x # ys) q" and b: "b \<in> set fl" and t: "rg t (us @ b # x # ys)"
    and at: "at_items m (insert (free_header h) (set (us @ b # q # x # ys)))
      (S\<lparr>it_magic := (it_magic S)(q := free_magic), it_blocks := t\<rparr>) m1"
  shows "wp (memheap_merge_next b (add_avail (z + 24) hp) m1) (\<lambda>(hp', m2). wp (if False then memheap_insert_header (mh_free_list hp') b m2
     else Some m2) (\<lambda>m'. freed h hp m (us @ b # q # x # ys) fl q (hp', m')))"
proof -
  let ?bs = "us @ b # q # x # ys" and ?fh = "free_header h"
  note d = heap_okD [OF k]
  note ds = blocks_distinct [OF d(2)]
  note iD = items_okD [OF i]
  note af = aheap_free_split(3,4) [of "us @ [b]" q x ys fl us b, simplified, OF ds [simplified] q b]
  have qb: "q \<in> set (butlast ?bs)" by (simp add: butlast_append)
  have bh: "b \<noteq> ?fh" using rg_distinct [OF iD(2)] b by auto
  note w = room_for_headers [OF d(1,2) qb z]
  show ?thesis
  proof (rule free_tail_wp [OF at, of h us b x ys fl False])
    fix m' s assume c: "x \<notin> set fl" "rg s (?fh # (if False then b # fl else fl))"
      "at_items m (insert ?fh (set ?bs)) (S\<lparr>it_magic := (it_magic S)(q := free_magic), it_blocks := t, it_frees := s\<rparr>) m'"
    show "freed h hp m ?bs fl q (add_avail (z + 24) hp, m')"
      unfolding freed_def af(1) [OF c(1)] prod.case
      by (rule heap_ok_merged [OF c(3) refl d(1) i t])
        (use c d ds frees_ok_free_prev [OF d(3,2) q b c(1) w(1)] blocks_ok_delete [OF d(2)] in auto)
  next
    fix m' s u assume c: "x \<in> set fl" "rg u (us @ b # ys)" "rg s (?fh # (if False then b # remove1 x fl else remove1 x fl))"
      "at_items m (insert ?fh (set ?bs)) (S\<lparr>it_magic := (it_magic S)(q := free_magic), it_blocks := t, it_blocks := u, it_frees := s\<rparr>) m'"
    obtain y ys' where ys: "ys = y # ys'" using c(1) d(7) ds by (cases ys) (auto simp: butlast_append)
    show "freed h hp m ?bs fl q (add_avail 24 (add_avail (z + 24) hp), m')"
      unfolding freed_def af(2) [OF c(1)] prod.case add_avail_add
      by (intro heap_ok_merged [OF _ refl d(1) i c(2)])
        (use c d ds w(2) [unfolded add.commute [of z]] frees_ok_free_both [of hp us b q x y ys' fl "48 + z"] q b
          blocks_ok_delete [OF blocks_ok_delete [of hp us b q x "y # ys'"]] in \<open>auto simp: ys\<close>)
  qed (use d q bh ds t iD b in auto)
qed

lemma free_body_wp:
  assumes k: "heap_ok h hp m bs fl" and q: "q \<in> set (butlast bs)" "q \<notin> set fl"
  shows "wp (memheap_free_body q hp m) (freed h hp m bs fl q)"
proof -
  obtain S where a: "at_items m (insert (free_header h) (set bs)) S m" and i: "items_ok h S bs fl"
    by (rule heap_ok_at [OF k])
  note d = heap_okD [OF k]
  obtain xs x ys where b: "bs = xs @ q # x # ys" by (rule bsize_pos_split [OF q(1) spaced_distinct [OF d(4)]])
  show ?thesis
    unfolding free_body_eq wp_simps
  proof (rule free_head_wp [OF k [unfolded b] q(2) a [unfolded b] subset_refl i [unfolded b]])
    fix z :: u32 and m' s
    assume c: "unat z = bsize (xs @ q # x # ys) q" "rg s (xs @ q # x # ys)" "xs = [] \<or> last xs \<notin> set fl"
      "at_items m (insert (h + 48) (set (xs @ q # x # ys))) (S\<lparr>it_magic := (it_magic S)(q := free_magic), it_blocks := s\<rparr>) m'"
    show "wp (case (q, True, add_avail z hp, m') of (p, ins, hp, m) \<Rightarrow> memheap_merge_next p hp m \<bind>
       (\<lambda>(hp, m). (if ins then memheap_insert_header (mh_free_list hp) p m else Some m) \<bind> (\<lambda>m. Some (hp, m)))) (freed h hp m bs fl q)"
      using free_alone_wp [OF k [unfolded b] q(2) i [unfolded b] c] by (simp add: b case_prod_unfold)
  next
    fix z :: u32 and m' s us c
    assume c: "unat z = bsize (xs @ q # x # ys) q" "xs = us @ [c]" "c \<in> set fl" "rg s (us @ c # x # ys)"
      "at_items m (insert (h + 48) (set (xs @ q # x # ys))) (S\<lparr>it_magic := (it_magic S)(q := free_magic), it_blocks := s\<rparr>) m'"
    show "wp (case (c, False, add_avail (z + 24) hp, m') of (p, ins, hp, m) \<Rightarrow> memheap_merge_next p hp m \<bind>
       (\<lambda>(hp, m). (if ins then memheap_insert_header (mh_free_list hp) p m else Some m) \<bind> (\<lambda>m. Some (hp, m)))) (freed h hp m bs fl q)"
      using free_merged_wp [of h hp m us c q x ys fl S z s m'] k q(2) i c by (simp add: b case_prod_unfold)
  qed
qed

end
