(* ===== verification/MemHeap_Init.thy ===== *)
theory MemHeap_Init
  imports MemHeap_Free
begin

text \<open>
  Initialisation of a memory heap: the pool becomes one free block in front of the empty block at its
  end. The heap that it makes of a pool of 4 KiB is the sample of the other theories.
\<close>

section \<open>Alignment\<close>

text \<open>Clearing the three low bits rounds down to a multiple of eight.\<close>

lemma and_not_7: "(x :: u32) AND NOT 7 = push_bit 3 (drop_bit 3 x)"
proof (rule bit_word_eqI)
  fix n assume n: "n < LENGTH(32)"
  have "(7 :: u32) = mask 3" by (simp add: mask_eq_exp_minus_1)
  then have "bit (7 :: u32) n \<longleftrightarrow> n < 3" using n by (simp only: bit_mask_iff) auto
  then show "bit (x AND NOT 7) n \<longleftrightarrow> bit (push_bit 3 (drop_bit 3 x)) n"
    using n by (cases "n < 3") (simp_all only: bit_and_iff bit_not_iff bit_push_bit_iff bit_drop_bit_eq comp_def, auto)
qed

lemma unat_u32: "unat (x :: u32) < 0x100000000"
proof -
  have "unat x < 2 ^ LENGTH(32)" by (rule unsigned_less)
  then show ?thesis by simp
qed

lemma unat_and_not_7: "unat (x AND NOT 7 :: u32) = unat x div 8 * 8"
proof -
  have "unat x div 8 * 8 < 2 ^ 32" using unat_u32 [of x] by simp
  then show ?thesis
    unfolding and_not_7 by (simp add: push_bit_eq_mult drop_bit_eq_div unat_word_ariths unat_div)
qed

section \<open>Formatting the pool\<close>

definition memory_items :: "memory \<Rightarrow> istore" where
  "memory_items m = \<lparr>it_magic = \<lambda>p. the (m p), it_pool = \<lambda>p. the (m (p + 4)),
     it_blocks = \<lparr>lnext = \<lambda>p. the (m (p + 8)), lprev = \<lambda>p. the (m (p + 12))\<rparr>,
     it_frees = \<lparr>lnext = \<lambda>p. the (m (p + 16)), lprev = \<lambda>p. the (m (p + 20))\<rparr>\<rparr>"

lemma agree_memory:
  assumes "headers H" "\<And>p i. p \<in> H \<Longrightarrow> i \<in> offsets \<Longrightarrow> m (p + i) \<noteq> None"
  shows "agree H (memory_items m) m"
  unfolding agree_def
proof (intro conjI ballI assms(1))
  fix p assume p: "p \<in> H"
  show "header m p = map Some (item (memory_items m) p)"
    using assms(2) [OF p, of 0] assms(2) [OF p, of 4] assms(2) [OF p, of 8] assms(2) [OF p, of 12]
      assms(2) [OF p, of 16] assms(2) [OF p, of 20] by (simp add: header_def item_def memory_items_def)
qed

lemma pool_header:
  assumes p: "pool_ok h hp m" and b: "blocks_ok hp bs" "q \<in> set bs" and i: "i \<in> offsets"
  shows "m (q + i) \<noteq> None"
proof -
  note r = block_range [OF b]
  have "unat q + 24 \<le> 0x100000000" using r(2) p by (simp add: pool_ok_def)
  note u = unat_offset [OF this i]
  have "8 dvd unat q" using b by (simp add: blocks_ok_def)
  moreover have "4 dvd unat i" using i by auto
  ultimately have "4 dvd unat q + unat i" by presburger
  then show ?thesis using p r u by (auto simp: pool_ok_def)
qed

text \<open>The record of a new heap, and the headers after the formatting.\<close>

definition new_heap :: "u32 \<Rightarrow> u32 \<Rightarrow> u32 \<Rightarrow> rt_memheap" where
  "new_heap h start pool = \<lparr>mh_start_addr = start, mh_pool_size = pool, mh_available_size = pool - 48,
     mh_max_used_size = 48, mh_block_list = start, mh_free_list = free_header h, mh_locked = False\<rparr>"

lemma blocks_ok_new:
  assumes p: "pool_ok h (new_heap h start pool) m" and s: "48 \<le> unat pool"
  defines "tail \<equiv> start + (pool - 48) + 24"
  shows "blocks_ok (new_heap h start pool) [start, tail]" "bsize [start, tail] start = unat (pool - 48)"
    "unat (pool - 48) = unat pool - 48"
proof -
  have u: "unat (pool - 48) = unat pool - 48" using s by (subst unat_minus) simp_all
  then show "unat (pool - 48) = unat pool - 48" .
  have le: "unat start + unat pool \<le> 0x100000000" using p by (simp add: pool_ok_def new_heap_def)
  have v: "unat (pool - 24) = unat pool - 24" using s by (subst unat_minus) simp_all
  have "tail = start + (pool - 24)" by (simp add: tail_def)
  also have "unat \<dots> = (unat start + unat (pool - 24)) mod 2 ^ LENGTH(32)" by (rule unat_word_ariths(1))
  finally have t: "unat tail = unat start + unat pool - 24" using le s by (simp add: v)
  show "bsize [start, tail] start = unat (pool - 48)" using t u s by simp
  show "blocks_ok (new_heap h start pool) [start, tail]"
    using p t s by (auto simp: blocks_ok_def new_heap_def pool_ok_def)
qed

lemma frees_ok_new:
  assumes "bsize [start, tail] start = unat (pool - 48)" "unat (pool - 48) = unat pool - 48" "48 \<le> unat pool" "start \<noteq> tail"
  shows "frees_ok (new_heap h start pool) [start, tail] [start]"
  using assms by (simp add: frees_ok_def new_heap_def)

lemma memheap_format_wp:
  assumes p: "pool_ok h (new_heap h start pool) m" and s: "48 \<le> unat pool"
    and f: "\<And>i. i \<in> offsets \<Longrightarrow> m (free_header h + i) \<noteq> None"
  defines "tail \<equiv> start + (pool - 48) + 24"
  shows "wp (memheap_format h start (pool - 48) m) (\<lambda>m'. heap_ok h (new_heap h start pool) m' [start, tail] [start] \<and>
     dom m' = dom m)"
proof -
  define fh where "fh = free_header h"
  note b = blocks_ok_new [OF p s, folded tail_def]
  let ?H = "insert fh (set [start, tail])"
  have H: "headers ?H" unfolding fh_def by (rule headers_blocks [OF p b(1)])
  then have "agree ?H (memory_items m) m"
    using pool_header [OF p b(1)] f by (intro agree_memory) (auto simp: fh_def)
  then obtain S where a: "at_items m ?H S m" by (auto simp: at_items_def)
  have d: "start \<noteq> tail" "start \<noteq> fh" "tail \<noteq> fh"
    using blocks_distinct [OF b(1)] header_free [OF p, of start] header_free [OF p, of tail]
      block_range [OF b(1), of start] block_range [OF b(1), of tail] unfolding fh_def by auto
  have fin: "heap_ok h (new_heap h start pool) m' [start, tail] [start] \<and> dom m' = dom m"
    if "at_items m ?H S' m'" "items_ok h S' [start, tail] [start]" for S' m'
    using heap_okI [OF that(1) [unfolded fh_def] that(2) p, of "new_heap h start pool"] b d
      frees_ok_new [OF b(2,3) s d(1)] that by (simp add: at_items_def wrote_def)
  obtain H where Hd: "H = ?H" by blast
  have m: "fh \<in> H" "start \<in> H" "tail \<in> H" and a': "at_items m H S m" using a by (auto simp: Hd)
  show ?thesis
    unfolding memheap_format_def memheap_link_free_def Let_def fh_def [symmetric] tail_def [symmetric]
    using m a' d
    by - ((simp add: ld_items put_defs | (rule st_items, assumption, assumption))+, rule fin [folded Hd], assumption,
      simp add: items_ok_def rg_linked fh_def [symmetric])
qed

section \<open>Initialisation\<close>

lemma align_down_eq: "unat (rt_align_down sz) = unat sz div 8 * 8"
  unfolding rt_align_down_def by (rule unat_and_not_7)

text \<open>C35. Initialising a memory heap on a pool of at least 48 bytes succeeds without a violated
  assertion or an access outside of the pool and of the structure: the heap satisfies its invariant, with
  one free block of all bytes but the two headers; its lock is free, the object is registered.\<close>

theorem rt_memheap_init_correct:
  assumes k: "kinv (kern w)" "nest_ok (kern w)" "OMemHeap h \<notin> set (object_list (kern w) RT_Object_Class_MemHeap)"
      "OSem (memheap_lock h) \<notin> set (object_list (kern w) RT_Object_Class_Semaphore)"
    and p: "pool_ok h (new_heap h start (rt_align_down sz)) (wmem w)" and s: "48 \<le> unat sz"
    and f: "\<And>i. i \<in> offsets \<Longrightarrow> wmem w (free_header h + i) \<noteq> None"
  shows "wp (rt_memheap_init h name start sz w) (\<lambda>(err, w'). err = RT_EOK \<and>
     heaps w' = (heaps w)(h := new_heap h start (rt_align_down sz)) \<and>
     heap_ok h (heaps w' h) (wmem w') [start, start + (rt_align_down sz - 48) + 24] [start] \<and>
     rt_object_get_type (OMemHeap h) (kern w') = RT_Object_Class_MemHeap \<and>
     sem_value (sems (kern w') (memheap_lock h)) = 1 \<and> tlists (kern w') (SemL (memheap_lock h)) = [] \<and>
     dom (wmem w') = dom (wmem w))" (is "wp _ ?Q")
proof -
  let ?c = "\<lambda>c. rt_object_get_information c = Some c"
  have i: "?c RT_Object_Class_MemHeap" "?c RT_Object_Class_Semaphore"
    by (simp_all add: rt_object_get_information_def object_container_def)
  have s': "48 \<le> unat (rt_align_down sz)" using s by (simp add: align_down_eq)
  note fmt = memheap_format_wp [OF p s' f]
  let ?k = "kern w" and ?s = "memheap_lock h" and ?t = "\<lambda>k. rt_object_get_type (OMemHeap h) k = RT_Object_Class_MemHeap"
  have sem: "wp (rt_sem_init ?s name 1 RT_IPC_FLAG_PRIO k1) (\<lambda>(_, k2). ?t k2 \<and> sem_value (sems k2 ?s) = 1 \<and> tlists k2 (SemL ?s) = [])"
    if k1: "kinv k1" "nest_ok k1" "OSem ?s \<notin> set (object_list k1 RT_Object_Class_Semaphore)" "?t k1" for k1
    unfolding rt_sem_init_def
    by (simp, rule object_init_wp [OF k1(1,2) i(2) k1(3)])
      (use k1(4) same_but_schedD(1) [OF sched_onlyD(1)] in \<open>auto simp: sem_object_init_def ipc_object_init_def
        tlist_init_def Let_def upd_sel rt_object_get_type_def\<close>)
  have "wp (rt_object_init (OMemHeap h) RT_Object_Class_MemHeap name ?k) (\<lambda>k1. kinv k1 \<and> nest_ok k1 \<and> ?t k1 \<and>
     OSem ?s \<notin> set (object_list k1 RT_Object_Class_Semaphore))"
  proof (rule object_init_wp [OF k(1,2) i(1) k(3)], goal_cases)
    case (1 k1)
    note g = same_but_schedD [OF sched_onlyD(1) [OF 1(2)]]
    show ?case using 1(1) k(2,4) by (simp add: nest_ok_def rt_object_get_type_def g)
  qed
  then have "wp (rt_object_init (OMemHeap h) RT_Object_Class_MemHeap name ?k) (\<lambda>k1.
     wp (memheap_format h start (rt_align_down sz - 48) (wmem w)) (\<lambda>m. wp (rt_sem_init ?s name 1 RT_IPC_FLAG_PRIO k1)
       (\<lambda>(_, k2). ?Q (RT_EOK, upd_heap h (new_heap h start (rt_align_down sz)) m (w\<lparr>kern := k2\<rparr>)))))"
  proof (rule wp_mono, goal_cases)
    case (1 k1)
    then show ?case
      by (intro wp_mono [OF fmt] wp_mono [OF sem [of k1]]) (auto simp: upd_heap_def)
  qed
  moreover have "h \<noteq> 0" using p by (simp add: pool_ok_def)
  moreover have "rt_align_down sz - (rt_align_down sz - 48) = 48" by simp
  ultimately show ?thesis
    unfolding rt_memheap_init_def new_heap_def by (simp add: Let_def case_prod_unfold)
qed

section \<open>A sample heap\<close>

text \<open>A heap structure at \<^verbatim>\<open>0x100\<close> with a pool of 4 KiB at \<^verbatim>\<open>0x1000\<close>, in 8 KiB of memory.\<close>

definition sample_memory :: memory where
  "sample_memory a = (if 4 dvd unat a \<and> unat a < 0x2000 then Some 0 else None)"

definition sample_formatted :: memory where
  "sample_formatted = the (memheap_format 0x100 0x1000 (0x1000 - 48) sample_memory)"

definition sample_world :: world where
  "sample_world = \<lparr>kern = upd_sem (memheap_lock 0x100) (\<lambda>sem. sem\<lparr>sem_value := 1, sem_max_value := 0xffff\<rparr>) sample_block,
     heaps = \<lambda>_. new_heap 0x100 0x1000 0x1000, wmem = sample_formatted, rt_errno = 0\<rparr>"

lemma pool_ok_sample: "pool_ok 0x100 (new_heap 0x100 0x1000 0x1000) sample_memory"
  by (simp add: pool_ok_def new_heap_def sample_memory_def)

lemma sample_header: "i \<in> offsets \<Longrightarrow> sample_memory (free_header 0x100 + i) \<noteq> None"
  by (auto simp: sample_memory_def)

lemma heap_ok_sample: "heap_ok 0x100 (new_heap 0x100 0x1000 0x1000) sample_formatted [0x1000, 0x1fe8] [0x1000]"
proof -
  have "wp (memheap_format 0x100 0x1000 (0x1000 - 48) sample_memory)
    (\<lambda>m'. heap_ok 0x100 (new_heap 0x100 0x1000 0x1000) m' [0x1000, 0x1fe8] [0x1000])"
    using memheap_format_wp [OF pool_ok_sample _ sample_header] by (auto elim!: wp_mono)
  then show ?thesis by (auto simp: sample_formatted_def wp_def)
qed

lemma sample_world_fields [simp]:
  "heaps sample_world h = new_heap 0x100 0x1000 0x1000" "wmem sample_world = sample_formatted"
  "rt_object_get_type (OMemHeap h) (kern sample_world) = RT_Object_Class_MemHeap"
  by (simp_all add: sample_world_def rt_object_get_type_def upd_sel sample_type_def zero_object_def)

theorem rt_memheap_init_correct_witness:
  "wp (rt_memheap_init 0x100 ''heap'' 0x1000 0x1004 (sample_world\<lparr>kern := sample_kernel, wmem := sample_memory\<rparr>)) (\<lambda>(err, w').
     err = RT_EOK \<and> heap_ok 0x100 (heaps w' 0x100) (wmem w') [0x1000, 0x1fe8] [0x1000])"
proof -
  have a: "rt_align_down 0x1004 = 0x1000" by (simp add: rt_align_down_def)
  have k: "nest_ok sample_kernel" "OMemHeap 0x100 \<notin> set (object_list sample_kernel RT_Object_Class_MemHeap)"
    "OSem (memheap_lock 0x100) \<notin> set (object_list sample_kernel RT_Object_Class_Semaphore)"
    by (simp_all add: nest_ok_def sample_kernel_def zero_kernel_def)
  show ?thesis
    by (rule wp_mono [OF rt_memheap_init_correct]) (use kinv_sample k pool_ok_sample sample_header in \<open>auto simp: a\<close>)
qed

end
