(* ===== verification/MemHeap.thy ===== *)
theory MemHeap
  imports MemHeap_Init
begin

text \<open>
  The public operations of a memory heap, with their lock: allocation and release refine the abstract
  operations of theory \<open>MemHeap_Layout\<close>, keep the invariant, and leave the data of all other
  blocks alone.
\<close>

section \<open>The lock\<close>

text \<open>A heap that the caller has locked already, or whose semaphore is available to the running
  thread.\<close>

definition lock_free :: "nat \<Rightarrow> u32 \<Rightarrow> world \<Rightarrow> bool" where
  "lock_free n h w \<longleftrightarrow> mh_locked (heaps w h) \<or>
     (kok (Suc n) (kern w) \<and> rt_object_get_type (OSem (memheap_lock h)) (kern w) = RT_Object_Class_Semaphore \<and>
      (\<exists>t. may_block t (kern w)) \<and> 0 < sem_value (sems (kern w) (memheap_lock h)) \<and>
      sem_value (sems (kern w) (memheap_lock h)) \<le> sem_max_value (sems (kern w) (memheap_lock h)) \<and>
      tlists (kern w) (SemL (memheap_lock h)) = [])"

text \<open>The kernel \<open>k\<close> in which the lock is held, taken in the state \<open>w\<close>.\<close>

definition lock_held :: "nat \<Rightarrow> u32 \<Rightarrow> world \<Rightarrow> kernel \<Rightarrow> bool" where
  "lock_held n h w k \<longleftrightarrow>
     (if mh_locked (heaps w h) then k = kern w
      else kok (Suc n) k \<and> objects k = objects (kern w) \<and> rt_current_thread k \<noteq> None \<and>
        rt_object_get_type (OSem (memheap_lock h)) (kern w) = RT_Object_Class_Semaphore \<and>
        unat (sem_value (sems k (memheap_lock h))) + 1 = unat (sem_value (sems (kern w) (memheap_lock h))) \<and>
        sem_value (sems k (memheap_lock h)) < sem_max_value (sems k (memheap_lock h)) \<and>
        tlists k (SemL (memheap_lock h)) = [])"

text \<open>The lock has been given back.\<close>

definition lock_kept :: "nat \<Rightarrow> u32 \<Rightarrow> world \<Rightarrow> world \<Rightarrow> bool" where
  "lock_kept n h w w' \<longleftrightarrow>
     (if mh_locked (heaps w h) then kern w' = kern w
      else kok (Suc n) (kern w') \<and>
        sem_value (sems (kern w') (memheap_lock h)) = sem_value (sems (kern w) (memheap_lock h)) \<and>
        tlists (kern w') (SemL (memheap_lock h)) = [])"

lemma memheap_take_wp:
  assumes f: "lock_free n h w" and Q: "\<And>k. lock_held n h w k \<Longrightarrow> Q (Returned RT_EOK, w\<lparr>kern := k\<rparr>)"
  shows "wp (memheap_take h w) Q"
proof (cases "mh_locked (heaps w h)")
  case True
  then show ?thesis using Q [of "kern w"] by (simp add: memheap_take_def lock_held_def)
next
  case False
  let ?s = "memheap_lock h" and ?k = "kern w"
  obtain t where l: "kok (Suc n) ?k" "rt_object_get_type (OSem ?s) ?k = RT_Object_Class_Semaphore" "may_block t ?k"
    "0 < sem_value (sems ?k ?s)" "sem_value (sems ?k ?s) \<le> sem_max_value (sems ?k ?s)" "tlists ?k (SemL ?s) = []"
    using f False by (auto simp: lock_free_def)
  have "wp (sem_take ?s 0xffffffff RT_UNINTERRUPTIBLE ?k) (\<lambda>(out, k). Q (out, w\<lparr>kern := k\<rparr>))"
  proof (rule sem_take_avail_wp [OF l(1-4)])
    fix k' assume s: "kok (Suc n) k'" "sched_only (upd_sem ?s (\<lambda>sem. sem\<lparr>sem_value := sem_value sem - 1\<rparr>) ?k) k'"
    have v: "unat (sem_value (sems ?k ?s) - 1) + 1 = unat (sem_value (sems ?k ?s))" "sem_value (sems ?k ?s) - 1 < sem_max_value (sems ?k ?s)"
      using l(4,5) unat_dec_pos [of "sem_value (sems ?k ?s)"] unat_gt_0 [of "sem_value (sems ?k ?s)"]
      by (simp_all add: word_less_nat_alt word_le_nat_alt)
    have "lock_held n h w k'"
      using s(1) l v False sched_onlyD(1,2) [OF s(2)] sched_only_susp [OF s(2), of "SemL ?s"]
      by (auto simp: lock_held_def same_but_sched_def upd_defs may_block_def)
    then show "case (Returned 0, k') of (out, k) \<Rightarrow> Q (out, w\<lparr>kern := k\<rparr>)" using Q by simp
  qed
  then show ?thesis using False by (simp add: memheap_take_def rt_sem_take_def case_prod_unfold)
qed

lemma memheap_give_wp:
  assumes f: "lock_held n h w k" and h: "mh_locked hp = mh_locked (heaps w h)"
    and Q: "\<And>w'. lock_kept n h w w' \<Longrightarrow> heaps w' = (heaps w)(h := hp) \<Longrightarrow> wmem w' = m \<Longrightarrow> Q w'"
  shows "wp (memheap_give h (upd_heap h hp m (w\<lparr>kern := k\<rparr>))) Q"
proof (cases "mh_locked (heaps w h)")
  case True
  then show ?thesis
    using f h Q [of "upd_heap h hp m w"] by (simp add: memheap_give_def lock_held_def lock_kept_def upd_heap_def)
next
  case False
  let ?s = "memheap_lock h"
  have l: "kok (Suc n) k" "rt_object_get_type (OSem ?s) k = RT_Object_Class_Semaphore" "rt_current_thread k \<noteq> None"
    "unat (sem_value (sems k ?s)) + 1 = unat (sem_value (sems (kern w) ?s))" "sem_value (sems k ?s) < sem_max_value (sems k ?s)"
    "tlists k (SemL ?s) = []"
    using f False by (auto simp: lock_held_def rt_object_get_type_def)
  have "wp (rt_sem_release ?s k) (\<lambda>(_, k'). lock_kept n h w (w\<lparr>kern := k'\<rparr>))"
    by (rule wp_mono [OF sem_release_wp [OF l(1-3)]])
      (use l(4-6) False in \<open>auto simp: lock_kept_def intro: unsigned_word_eqI\<close>)
  then show ?thesis
    using False h Q by (auto simp: memheap_give_def upd_heap_def lock_kept_def elim!: wp_mono)
qed

section \<open>Sizes\<close>

lemma rt_align_div: "unat (rt_align sz) = unat (sz + 7) div 8 * 8"
  unfolding rt_align_def by (rule unat_and_not_7)

lemma rt_align_unat: "sz \<le> 0xfffffff8 \<Longrightarrow> unat (rt_align sz) = (unat sz + 7) div 8 * 8"
  unfolding rt_align_div by (simp add: unat_word_ariths word_le_nat_alt)

lemma round_ge: "8 dvd unat (memheap_round sz)" "16 \<le> unat (memheap_round sz)"
  by (auto simp: memheap_round_def Let_def rt_align_div word_less_nat_alt)

text \<open>A request is rounded up, unless it is so large that the rounding wraps around.\<close>

lemma round_unat: "sz \<le> 0xfffffff8 \<Longrightarrow> unat (memheap_round sz) = max 16 ((unat sz + 7) div 8 * 8)"
  by (simp add: memheap_round_def Let_def word_less_nat_alt rt_align_unat)

lemma round_wraps: "0xfffffff8 < sz \<Longrightarrow> memheap_round sz = 16"
proof -
  assume "0xfffffff8 < sz"
  then have "0xfffffff8 < unat sz" by (simp add: word_less_nat_alt)
  moreover have "unat sz < 2 ^ LENGTH(32)" by (rule unsigned_less)
  ultimately have "unat (sz + 7) < 8" by (simp add: unat_word_ariths le_mod_geq)
  then have "unat (rt_align sz) = 0" by (simp add: rt_align_div)
  then show ?thesis by (simp add: memheap_round_def Let_def word_less_nat_alt)
qed

section \<open>Allocation\<close>

text \<open>Taking a block changes the size of this block only.\<close>

lemma carve_sizes:
  assumes k: "heap_ok h hp m bs fl" and q: "q \<in> set fl" and c: "aheap_carve q n (bs, fl) = (bs', fl')"
    and n: "n + 40 \<le> bsize bs q \<longrightarrow> 8 dvd n" "n \<le> bsize bs q"
  shows "q \<in> set (butlast bs') - set fl'" "n \<le> bsize bs' q"
    "\<And>p. p \<in> set (butlast bs) - set fl \<Longrightarrow> p \<in> set (butlast bs') - set fl' \<and> bsize bs' p = bsize bs p"
proof -
  note d = heap_okD [OF k]
  have qb: "q \<in> set (butlast bs)" using d(7) q by auto
  obtain xs x ys where b: "bs = xs @ q # x # ys" "q \<notin> set xs" "bsize bs q = unat x - unat q - 24"
    by (rule bsize_pos_split [OF qb spaced_distinct [OF d(4)]])
  have "(q \<in> set (butlast bs') - set fl' \<and> n \<le> bsize bs' q) \<and>
    (\<forall>p \<in> set (butlast bs) - set fl. p \<in> set (butlast bs') - set fl' \<and> bsize bs' p = bsize bs p)"
  proof (cases "n + 40 \<le> bsize bs q")
    case True
    let ?n = "q + of_nat (n + 24)"
    have u: "unat (of_nat (n + 24) :: u32) = n + 24" "unat ?n = unat q + n + 24"
    proof -
      have "unat x < 2 ^ LENGTH(32)" by (rule unsigned_less)
      then show "unat (of_nat (n + 24) :: u32) = n + 24" using True b(3) by (simp add: unat_of_nat del: of_nat_add)
      then show "unat ?n = unat q + n + 24" using \<open>unat x < 2 ^ LENGTH(32)\<close> True b(3) by (simp add: unat_word_ariths)
    qed
    have "8 dvd unat q" using d(2) b(1) by (simp add: blocks_ok_def)
    then have "8 dvd unat ?n" unfolding u(2) using True n(1) by simp
    note s = blocks_ok_split [OF d(2) [unfolded b(1)], of ?n] blocks_distinct
    have bs': "bs' = xs @ q # ?n # x # ys" "fl' = ?n # remove1 q fl"
      using c True ins_after_split [OF b(2)] by (auto simp: aheap_carve_def b(1))
    have o: "blocks_ok hp bs'" "?n \<notin> set bs" unfolding bs' using s(1,2) u True b \<open>8 dvd unat ?n\<close> by simp_all
    note ds = blocks_distinct [OF o(1)]
    have "n \<le> bsize bs' q" using bsize_new(1) [of xs q ?n x ys] ds u(2) by (simp add: bs')
    moreover have "bsize bs' p = bsize bs p" if "p \<in> set (butlast bs) - set fl" for p
      using bsize_mid [of p ?n q xs x ys] that q o(2) ds in_set_butlastD [of p bs] unfolding bs'(1) b(1) by auto
    ultimately show ?thesis
      using d(5,7) q o(2) b(1) in_set_butlastD [of _ ys] unfolding bs' by (auto simp: butlast_append)
  next
    case False
    then show ?thesis using c d(5) q n(2) qb by (auto simp: aheap_carve_def)
  qed
  then show "q \<in> set (butlast bs') - set fl'" "n \<le> bsize bs' q"
    "\<And>p. p \<in> set (butlast bs) - set fl \<Longrightarrow> p \<in> set (butlast bs') - set fl' \<and> bsize bs' p = bsize bs p" by auto
qed

text \<open>A request of \<open>n\<close> bytes is tried only if fewer bytes than available are asked for.\<close>

definition aheap_request :: "nat \<Rightarrow> aheap \<Rightarrow> u32 option \<times> aheap" where
  "aheap_request n A = (if n < aheap_avail A then aheap_alloc n A else (None, A))"

definition data_kept :: "u32 list \<Rightarrow> memory \<Rightarrow> u32 list \<Rightarrow> memory \<Rightarrow> u32 set \<Rightarrow> bool" where
  "data_kept bs m bs' m' U \<longleftrightarrow> (\<forall>b \<in> U. block_data bs' m' b = block_data bs m b)"

lemma alloc_data_kept:
  assumes k: "heap_ok h hp m bs fl" and k': "heap_ok h hp' m' bs' fl'" and sp: "same_pool hp hp'"
    and w: "wrote (insert (free_header h) (set bs')) m m'"
    and s: "\<And>p. p \<in> U \<Longrightarrow> p \<in> set (butlast bs') \<and> bsize bs' p = bsize bs p"
  shows "data_kept bs m bs' m' U"
  unfolding data_kept_def
proof
  fix b assume b: "b \<in> U"
  have p: "pool_ok h hp m" "blocks_ok hp bs'"
    using k blocks_ok_cong [OF heap_okD(2) [OF k'], of hp] sp by (auto simp: heap_ok_def same_pool_def)
  show "block_data bs' m' b = block_data bs m b"
    using block_data_kept [OF p _ w, of b] s [OF b] by (simp add: block_data_def)
qed

lemma alloc_size: "aheap_request n (bs, fl) = (Some q, A) \<Longrightarrow> q \<in> set fl \<and> n \<le> bsize bs q \<and> A = aheap_carve q n (bs, fl)"
  by (auto simp: aheap_request_def aheap_alloc_def dest: find_Some_mem split: if_splits option.splits)

lemma memheap_alloc_wp:
  assumes k: "heap_ok h (heaps w h) (wmem w) bs fl"
    and ty: "rt_object_get_type (OMemHeap h) (kern w) = RT_Object_Class_MemHeap" and l: "lock_free n h w"
  shows "wp (rt_memheap_alloc h req w) (\<lambda>(out, w').
     case aheap_request (unat (memheap_round req)) (bs, fl) of (q, bs', fl') \<Rightarrow>
       out = Returned (case q of None \<Rightarrow> 0 | Some p \<Rightarrow> p + 24) \<and> heap_ok h (heaps w' h) (wmem w') bs' fl' \<and>
       same_pool (heaps w h) (heaps w' h) \<and> (\<forall>g. g \<noteq> h \<longrightarrow> heaps w' g = heaps w g) \<and> lock_kept n h w w' \<and>
       wrote (insert (free_header h) (set bs')) (wmem w) (wmem w') \<and> (q = None \<longrightarrow> heaps w' = heaps w \<and> wmem w' = wmem w))"
    (is "wp _ ?Q")
proof -
  let ?sz = "memheap_round req" and ?hp = "heaps w h"
  note d = heap_okD [OF k]
  have av: "unat (mh_available_size ?hp) = aheap_avail (bs, fl)" using d(3) by (simp add: frees_ok_def aheap_avail_def)
  have h: "h \<noteq> 0" using d(1) by (simp add: pool_ok_def)
  show ?thesis
  proof (cases "?sz < mh_available_size ?hp")
    case False
    then have "aheap_request (unat ?sz) (bs, fl) = (None, bs, fl)" using av by (simp add: aheap_request_def word_less_nat_alt)
    moreover have "lock_kept n h w w" using l by (auto simp: lock_kept_def lock_free_def)
    ultimately show ?thesis
      unfolding rt_memheap_alloc_def using h ty False k by (simp add: Let_def same_pool_def)
  next
    case True
    then have r: "aheap_request (unat ?sz) (bs, fl) = aheap_alloc (unat ?sz) (bs, fl)" and lt: "unat ?sz + 40 < 2 ^ 32"
      using av avail_le_pool [OF d(2,5,7)] unat_u32 [of "mh_pool_size ?hp"]
      by (simp_all add: aheap_request_def word_less_nat_alt aheap_avail_def)
    have taken: "wp (memheap_alloc_taken h ?sz 0 (w\<lparr>kern := k'\<rparr>)) ?Q" if l': "lock_held n h w k'" for k'
    proof -
      have "wp (memheap_alloc_body h ?sz ?hp (wmem w))
        (\<lambda>(a, hp', m'). wp (memheap_give h (upd_heap h hp' m' (w\<lparr>kern := k'\<rparr>))) (\<lambda>w'. ?Q (Returned a, w')))"
      proof (rule wp_mono [OF alloc_body_wp [OF k round_ge lt]], goal_cases)
        case (1 x)
        obtain a hp' m' q bs' fl' where x: "x = (a, hp', m')" and q: "aheap_alloc (unat ?sz) (bs, fl) = (q, bs', fl')"
          by (metis prod_cases3)
        have "wp (memheap_give h (upd_heap h hp' m' (w\<lparr>kern := k'\<rparr>))) (\<lambda>w'. ?Q (Returned a, w'))"
          by (rule memheap_give_wp [OF l']) (use 1 x r q in \<open>auto simp: same_pool_def fun_upd_idem\<close>)
        then show ?case by (simp add: x)
      qed
      then show ?thesis by (simp add: memheap_alloc_taken_def case_prod_unfold)
    qed
    have "wp (memheap_take h w) (\<lambda>(out, w). wp (case out of Returned result \<Rightarrow> memheap_alloc_taken h ?sz result w
       | Waiting \<Rightarrow> Some (Waiting, w)) ?Q)"
      by (rule memheap_take_wp [OF l]) (use taken in simp)
    then show ?thesis
      unfolding rt_memheap_alloc_def using h ty True by (simp add: Let_def case_prod_unfold)
  qed
qed

section \<open>Release\<close>

lemma memheap_free_wp:
  assumes k: "heap_ok h (heaps w h) (wmem w) bs fl" and q: "q \<in> set (butlast bs)" "q \<notin> set fl"
    and ty: "rt_object_get_type (OMemHeap h) (kern w) = RT_Object_Class_MemHeap" and l: "lock_free n h w"
  shows "wp (rt_memheap_free (q + 24) w) (\<lambda>(out, w'). out = Returned () \<and>
       freed h (heaps w h) (wmem w) bs fl q (heaps w' h, wmem w') \<and>
       (\<forall>g. g \<noteq> h \<longrightarrow> heaps w' g = heaps w g) \<and> lock_kept n h w w')" (is "wp _ ?Q")
proof -
  let ?hp = "heaps w h"
  note d = heap_okD [OF k]
  obtain S where a: "at_items (wmem w) (insert (free_header h) (set bs)) S (wmem w)" and i: "items_ok h S bs fl"
    by (rule heap_ok_at [OF k])
  note iD = items_okD [OF i]
  have qb: "q \<in> set bs" "lnext (it_blocks S) q \<in> set bs"
    using in_set_butlastD [OF q(1)] rg_closed(1) [OF iD(1)] by auto
  have rd: "i_magic q (wmem w) = Some used_magic" "i_pool_ptr q (wmem w) = Some h"
    "i_next q (wmem w) = Some (lnext (it_blocks S) q)"
    using ld_items [OF a, of q] iD(3,4) [OF qb(1)] q(2) qb(1) by simp_all
  have g: "\<exists>g. i_magic (lnext (it_blocks S) q) (wmem w) = Some g \<and> g AND 0xFFFFFFFE = free_magic"
    using ld_items(1) [OF a, of "lnext (it_blocks S) q"] iD(4) [OF qb(2)] qb(2) by auto
  have nz: "q + 24 \<noteq> 0"
  proof -
    obtain xs x ys where b: "bs = xs @ q # x # ys" by (rule bsize_pos_split [OF q(1) spaced_distinct [OF d(4)]])
    have "unat q + 24 < 0x100000000" using spaced_split(1) [of xs q x ys] d(4) unat_u32 [of x] by (simp add: b)
    then have "unat (q + 24) = unat q + 24" by (simp add: unat_word_ariths)
    then show ?thesis by (metis add_is_0 unat_0 zero_neq_numeral)
  qed
  have taken: "wp (memheap_free_taken h q 0 (w\<lparr>kern := k'\<rparr>)) ?Q" if l': "lock_held n h w k'" for k'
  proof -
    have "wp (memheap_free_body q ?hp (wmem w))
      (\<lambda>(hp', m'). wp (memheap_give h (upd_heap h hp' m' (w\<lparr>kern := k'\<rparr>))) (\<lambda>w'. ?Q (Returned (), w')))"
    proof (rule wp_mono [OF free_body_wp [OF k q]], goal_cases)
      case (1 x)
      obtain hp' m' where x: "x = (hp', m')" by (cases x)
      have "wp (memheap_give h (upd_heap h hp' m' (w\<lparr>kern := k'\<rparr>))) (\<lambda>w'. ?Q (Returned (), w'))"
        by (rule memheap_give_wp [OF l']) (use 1 x in \<open>auto simp: freed_def same_pool_def\<close>)
      then show ?case by (simp add: x)
    qed
    then show ?thesis by (simp add: memheap_free_taken_def case_prod_unfold)
  qed
  have "wp (memheap_take h w) (\<lambda>(out, w). wp (case out of Returned result \<Rightarrow> memheap_free_taken h q result w
     | Waiting \<Rightarrow> Some (Waiting, w)) ?Q)"
    by (rule memheap_take_wp [OF l]) (use taken in simp)
  moreover have "h \<noteq> 0" using d(1) by (simp add: pool_ok_def)
  ultimately show ?thesis
    unfolding rt_memheap_free_def using nz rd g ty by (auto simp: Let_def case_prod_unfold)
qed

text \<open>Releasing a block changes the size of no other block in use.\<close>

lemma free_sizes:
  assumes d: "spaced bs" "distinct fl" "set fl \<subseteq> set (butlast bs)"
    and q: "q \<in> set (butlast bs)" "q \<notin> set fl" and f: "aheap_free q (bs, fl) = (bs', fl')"
    and p: "p \<in> set (butlast bs) - set fl" "p \<noteq> q"
  shows "p \<in> set (butlast bs') - set fl' \<and> bsize bs' p = bsize bs p"
proof -
  obtain xs x ys where b: "bs = xs @ q # x # ys" by (rule bsize_pos_split [OF q(1) spaced_distinct [OF d(1)]])
  have ds: "distinct (xs @ q # x # ys)" "spaced (xs @ q # x # ys)" using d(1) spaced_distinct [OF d(1)] b by simp_all
  note af = aheap_free_split [OF ds(1) q(2)]
  have pb: "p \<in> set bs" using p(1) in_set_butlastD by fast
  have x: "x \<in> set fl \<Longrightarrow> \<exists>y ys'. ys = y # ys'" using d(3) ds(1) b by (cases ys) (auto simp: butlast_append)
  consider (a) "xs = [] \<or> last xs \<notin> set fl" "x \<notin> set fl" | (n) y ys' where "xs = [] \<or> last xs \<notin> set fl" "x \<in> set fl" "ys = y # ys'"
    | (m) us c where "xs = us @ [c]" "c \<in> set fl" "x \<notin> set fl"
    | (mn) us c y ys' where "xs = us @ [c]" "c \<in> set fl" "x \<in> set fl" "ys = y # ys'"
    using x by (cases xs rule: rev_cases) (auto, blast)
  then show ?thesis
  proof cases
    case a
    then show ?thesis using af(1) f p b by auto
  next
    case n
    then have "bs' = xs @ q # y # ys'" "fl' = q # remove1 x fl" using af(2) f b by auto
    then show ?thesis using p n ds bsize_delete(2) [of xs q x y ys' p] d(2) unfolding b by (auto simp: butlast_append)
  next
    case m
    then have "bs' = us @ c # x # ys" "fl' = fl" using af(3) f b by auto
    then show ?thesis using p m ds bsize_delete(2) [of us c q x ys p] unfolding b by (auto simp: butlast_append)
  next
    case mn
    then have "bs' = us @ c # y # ys'" "fl' = remove1 x fl" using af(4) f b by auto
    moreover have "spaced (us @ c # x # y # ys')" using ds(2) mn by (auto simp: sorted_wrt_append)
    ultimately show ?thesis
      using p mn ds bsize_delete(2) [of us c q x "y # ys'" p] bsize_delete(2) [of us c x y ys' p] d(2) unfolding b
      by (auto simp: butlast_append)
  qed
qed

lemma free_data_kept:
  assumes k: "heap_ok h hp m bs fl" and q: "q \<in> set (butlast bs)" "q \<notin> set fl" and f: "aheap_free q (bs, fl) = (bs', fl')"
    and w: "wrote (insert (free_header h) (set bs)) m m'"
  shows "data_kept bs m bs' m' (set (butlast bs) - set fl - {q})"
  unfolding data_kept_def
proof
  fix b assume b: "b \<in> set (butlast bs) - set fl - {q}"
  then have "p \<in> set (butlast bs') - set fl' \<and> bsize bs' p = bsize bs p" if "p = b" for p
    using free_sizes [OF heap_okD(4,5,7) [OF k] q f, of p] that by simp
  then show "block_data bs' m' b = block_data bs m b"
    using block_data_kept [OF heap_okD(1,2) [OF k] _ w, of b] b by (simp add: block_data_def)
qed

text \<open>Giving back a block that was just taken restores the list of blocks.\<close>

lemma free_carve:
  assumes k: "heap_ok h hp m bs fl" and q: "q \<in> set fl" and n: "n + 40 \<le> bsize bs q \<longrightarrow> 8 dvd n"
  shows "aheap_free q (aheap_carve q n (bs, fl)) = (bs, q # remove1 q fl)"
proof -
  note d = heap_okD [OF k]
  have qb: "q \<in> set (butlast bs)" using d(7) q by auto
  obtain xs x ys where b: "bs = xs @ q # x # ys" "q \<notin> set xs" "bsize bs q = unat x - unat q - 24"
    by (rule bsize_pos_split [OF qb spaced_distinct [OF d(4)]])
  have l: "lone (set fl) (xs @ q # x # ys)" using d(3) by (simp add: frees_ok_def b(1))
  then have x: "x \<notin> set fl" using q by (simp add: lone_edge)
  have xs: "xs = [] \<or> last xs \<notin> set fl" using l q by (cases xs rule: rev_cases) (auto simp: lone_edge)
  have r: "q \<notin> set (remove1 q fl)" using d(5) by simp
  have ds: "distinct (xs @ q # x # ys)" using spaced_distinct [OF d(4)] b(1) by simp
  show ?thesis
  proof (cases "n + 40 \<le> bsize bs q")
    case True
    let ?n = "q + of_nat (n + 24)"
    have c: "aheap_carve q n (bs, fl) = (xs @ q # ?n # x # ys, ?n # remove1 q fl)"
      using True ins_after_split [OF b(2)] by (simp add: aheap_carve_def b(1) del: of_nat_add)
    have un: "unat (of_nat (n + 24) :: u32) = n + 24" "unat ?n = unat q + (n + 24)"
      using True b(3) unat_u32 [of x] by (simp_all add: unat_word_ariths unat_of_nat del: of_nat_add)
    have "8 dvd unat ?n" using True n d(2) unfolding un(2) by (auto simp: blocks_ok_def b(1))
    then have s: "blocks_ok hp (xs @ q # ?n # x # ys)" "?n \<notin> set (xs @ q # x # ys)"
      using blocks_ok_split [of hp xs q x ys ?n] d(2) True b un by simp_all
    have "?n \<noteq> q" "?n \<notin> set fl" using s(2) d(8) b(1) by auto
    then show ?thesis
      unfolding c using aheap_free_split(2) [OF blocks_distinct [OF s(1)], of "?n # remove1 q fl"] xs r s(2) b(1) d(5)
      by (cases xs rule: rev_cases) (auto simp: remove1_idem)
  next
    case False
    then show ?thesis
      using aheap_free_split(1) [OF ds r] xs x d(5) by (auto simp: aheap_carve_def b(1))
  qed
qed

section \<open>Properties\<close>

text \<open>C16. Allocation refines the abstract request: when fewer bytes than available are asked for, the
  first block of the free list that is large enough is taken, whole or split; otherwise, or if there is
  none, the null pointer is returned and nothing changes. The block was free, is in use afterwards and is
  at least as large as the request (unless the request is so close to the end of the address space that
  rounding wraps); the invariant holds again, the data of all blocks in use is unchanged, and the
  lock is free again.\<close>

theorem rt_memheap_alloc_refines:
  assumes k: "heap_ok h (heaps w h) (wmem w) bs fl" and l: "lock_free n h w"
    and ty: "rt_object_get_type (OMemHeap h) (kern w) = RT_Object_Class_MemHeap"
  shows "wp (rt_memheap_alloc h req w) (\<lambda>(out, w').
     case aheap_request (unat (memheap_round req)) (bs, fl) of (q, bs', fl') \<Rightarrow>
       heap_ok h (heaps w' h) (wmem w') bs' fl' \<and> lock_kept n h w w' \<and>
       data_kept bs (wmem w) bs' (wmem w') (set (butlast bs) - set fl) \<and>
       (case q of
          None \<Rightarrow> out = Returned 0 \<and> heaps w' = heaps w \<and> wmem w' = wmem w
        | Some p \<Rightarrow> out = Returned (p + 24) \<and> p \<in> set fl \<and> p \<in> set (butlast bs') - set fl' \<and>
            (req \<le> 0xfffffff8 \<longrightarrow> unat req \<le> bsize bs' p)))"
proof (rule wp_mono [OF memheap_alloc_wp [OF k ty l]], goal_cases)
  case (1 r)
  obtain out w' where r: "r = (out, w')" by (cases r)
  obtain q bs' fl' where q: "aheap_request (unat (memheap_round req)) (bs, fl) = (q, bs', fl')" by (metis prod_cases3)
  note A = 1 [unfolded r q prod.case]
  show ?case
  proof (cases q)
    case None
    then have "bs' = bs" "fl' = fl" using q by (auto simp: aheap_request_def aheap_alloc_def split: if_splits option.splits)
    then show ?thesis using A None k by (simp add: r q data_kept_def)
  next
    case (Some p)
    note z = alloc_size [OF q [unfolded Some]]
    have c: "aheap_carve p (unat (memheap_round req)) (bs, fl) = (bs', fl')" using z by simp
    note s = carve_sizes [OF k _ c] z round_ge(1)
    have "data_kept bs (wmem w) bs' (wmem w') (set (butlast bs) - set fl)"
      by (rule alloc_data_kept [OF k]) (use A s in auto)
    moreover have "req \<le> 0xfffffff8 \<longrightarrow> unat req \<le> bsize bs' p" using s(2) z round_ge(1) round_unat [of req] by fastforce
    moreover have "p \<in> set (butlast bs') - set fl'" using s(1) z round_ge(1) by blast
    ultimately show ?thesis using A Some conjunct1 [OF z] by (simp add: r q)
  qed
qed

lemma lock_free_sample: "lock_free 7 0x100 sample_world"
proof -
  have "kok 8 (kern sample_world)" using kok_sample_block by (simp add: sample_world_def)
  moreover have "may_block 2 (kern sample_world)"
    using may_block_sample
    by (simp add: may_block_def sample_world_def upd_sel rt_interrupt_get_nest_def tt_wf_def rt_object_get_type_def)
  ultimately show ?thesis
    by (auto simp: lock_free_def sample_world_def upd_sel rt_object_get_type_def sample_type_def zero_object_def
      memheap_lock_def sample_block_def sample_kernel_def zero_kernel_def)
qed

lemma sample_request:
  "aheap_request (unat (memheap_round 100)) ([0x1000, 0x1fe8], [0x1000]) = (Some 0x1000, [0x1000, 0x1080, 0x1fe8], [0x1080])"
proof -
  have "memheap_round 100 = 104" by (simp add: memheap_round_def rt_align_def)
  then show ?thesis by (simp add: aheap_request_def aheap_alloc_def aheap_avail_def aheap_carve_def)
qed

theorem rt_memheap_alloc_refines_witness:
  "wp (rt_memheap_alloc 0x100 100 sample_world) (\<lambda>(out, w'). out = Returned 0x1018 \<and>
     heap_ok 0x100 (heaps w' 0x100) (wmem w') [0x1000, 0x1080, 0x1fe8] [0x1080])"
  using sample_request
    by (intro wp_mono [OF rt_memheap_alloc_refines [OF _ lock_free_sample, of "[0x1000, 0x1fe8]" "[0x1000]" 100]])
      (use heap_ok_sample in auto)

text \<open>C17. Releasing a block in use refines the abstract release: the block becomes free, merged with its
  free neighbours, so that no two neighbours are both free. The available bytes grow by the size of the
  block and of the headers that disappear, the data of all other blocks in use is unchanged, and the
  lock is free again.\<close>

theorem rt_memheap_free_refines:
  assumes k: "heap_ok h (heaps w h) (wmem w) bs fl" and l: "lock_free n h w" and q: "q \<in> set (butlast bs)" "q \<notin> set fl"
    and ty: "rt_object_get_type (OMemHeap h) (kern w) = RT_Object_Class_MemHeap"
  shows "wp (rt_memheap_free (q + 24) w) (\<lambda>(out, w'). case aheap_free q (bs, fl) of (bs', fl') \<Rightarrow>
     out = Returned () \<and> heap_ok h (heaps w' h) (wmem w') bs' fl' \<and> lone (set fl') bs' \<and>
     unat (mh_available_size (heaps w' h)) = aheap_avail (bs', fl') \<and>
     data_kept bs (wmem w) bs' (wmem w') (set (butlast bs) - set fl - {q}) \<and> lock_kept n h w w')"
proof (rule wp_mono [OF memheap_free_wp [OF k q ty l]], goal_cases)
  case (1 r)
  obtain out w' where r: "r = (out, w')" by (cases r)
  obtain bs' fl' where f: "aheap_free q (bs, fl) = (bs', fl')" by (cases "aheap_free q (bs, fl)")
  note A = 1 [unfolded r prod.case freed_def f]
  have k': "heap_ok h (heaps w' h) (wmem w') bs' fl'" using A by simp
  have "data_kept bs (wmem w) bs' (wmem w') (set (butlast bs) - set fl - {q})"
    by (rule free_data_kept [OF k q f]) (use A in blast)
  then show ?case using A heap_okD(3) [OF k'] k' by (simp add: r f frees_ok_def aheap_avail_def)
qed

text \<open>The sample heap, locked by its user, with a block of 104 bytes in use.\<close>

lemma heap_ok_locked: "heap_ok h (hp\<lparr>mh_locked := b\<rparr>) m bs fl \<longleftrightarrow> heap_ok h hp m bs fl"
  by (simp add: heap_ok_def pool_ok_def blocks_ok_def frees_ok_def)

definition sample_locked :: world where
  "sample_locked = sample_world\<lparr>heaps := \<lambda>_. (new_heap 0x100 0x1000 0x1000)\<lparr>mh_locked := True\<rparr>\<rparr>"

definition sample_in_use :: world where
  "sample_in_use = snd (the (rt_memheap_alloc 0x100 100 sample_locked))"

lemma sample_locked_ok:
  "heap_ok 0x100 (heaps sample_locked 0x100) (wmem sample_locked) [0x1000, 0x1fe8] [0x1000]"
  "lock_free n 0x100 sample_locked" "rt_object_get_type (OMemHeap h) (kern sample_locked) = RT_Object_Class_MemHeap"
  "mh_locked (heaps sample_locked 0x100)"
  using heap_ok_sample by (simp_all add: sample_locked_def heap_ok_locked lock_free_def)

lemma sample_in_use_ok:
  "heap_ok 0x100 (heaps sample_in_use 0x100) (wmem sample_in_use) [0x1000, 0x1080, 0x1fe8] [0x1080]"
  "lock_free n 0x100 sample_in_use" "rt_object_get_type (OMemHeap 0x100) (kern sample_in_use) = RT_Object_Class_MemHeap"
  "mh_locked (heaps sample_in_use 0x100)"
proof -
  have "wp (rt_memheap_alloc 0x100 100 sample_locked) (\<lambda>(_, w). mh_locked (heaps w 0x100) \<and>
     heap_ok 0x100 (heaps w 0x100) (wmem w) [0x1000, 0x1080, 0x1fe8] [0x1080] \<and> kern w = kern sample_locked)"
    using memheap_alloc_wp [OF sample_locked_ok(1,3,2), of 100] sample_request sample_locked_ok(4)
    by (auto simp: same_pool_def lock_kept_def elim!: wp_mono)
  then have u: "mh_locked (heaps sample_in_use 0x100)"
    "heap_ok 0x100 (heaps sample_in_use 0x100) (wmem sample_in_use) [0x1000, 0x1080, 0x1fe8] [0x1080]"
    "kern sample_in_use = kern sample_locked"
    by (auto simp: wp_def sample_in_use_def)
  then show "heap_ok 0x100 (heaps sample_in_use 0x100) (wmem sample_in_use) [0x1000, 0x1080, 0x1fe8] [0x1080]"
    "lock_free n 0x100 sample_in_use" "rt_object_get_type (OMemHeap 0x100) (kern sample_in_use) = RT_Object_Class_MemHeap"
    "mh_locked (heaps sample_in_use 0x100)"
    using sample_locked_ok(3) by (simp_all add: lock_free_def)
qed

theorem rt_memheap_free_refines_witness:
  "wp (rt_memheap_free 0x1018 sample_in_use) (\<lambda>(out, w'). out = Returned () \<and>
     heap_ok 0x100 (heaps w' 0x100) (wmem w') [0x1000, 0x1fe8] [0x1000])"
proof -
  have "aheap_free 0x1000 ([0x1000, 0x1080, 0x1fe8], [0x1080]) = ([0x1000, 0x1fe8], [0x1000])"
    by (simp add: aheap_free_def)
  then show ?thesis
    using rt_memheap_free_refines [OF sample_in_use_ok(1,2), where q = "0x1000" and n = 0] sample_in_use_ok(3)
    by (auto elim!: wp_mono)
qed

text \<open>C34. Allocating a block and releasing it again restores the heap: the same blocks at the same
  addresses, the same bytes available, and the block at the front of the free list.\<close>

theorem memheap_alloc_free_roundtrip:
  assumes k: "heap_ok h (heaps w h) (wmem w) bs fl" and l: "mh_locked (heaps w h)"
    and ty: "rt_object_get_type (OMemHeap h) (kern w) = RT_Object_Class_MemHeap"
  shows "wp (rt_memheap_alloc h req w) (\<lambda>(out, w1). \<forall>p. out = Returned (p + 24) \<and> p + 24 \<noteq> 0 \<longrightarrow>
     wp (rt_memheap_free (p + 24) w1) (\<lambda>(_, w2). heap_ok h (heaps w2 h) (wmem w2) bs (p # remove1 p fl) \<and>
       mh_available_size (heaps w2 h) = mh_available_size (heaps w h) \<and> kern w2 = kern w))"
proof -
  have f: "lock_free 0 h w" using l by (simp add: lock_free_def)
  show ?thesis
  proof (rule wp_mono [OF memheap_alloc_wp [OF k ty f, of req]], goal_cases)
    case (1 r)
    obtain out w1 where r: "r = (out, w1)" by (cases r)
    obtain q bs' fl' where q: "aheap_request (unat (memheap_round req)) (bs, fl) = (q, bs', fl')" by (metis prod_cases3)
    note A = 1 [unfolded r q prod.case]
    have w1: "mh_locked (heaps w1 h)" "kern w1 = kern w" using A l by (simp_all add: same_pool_def lock_kept_def)
    have "wp (rt_memheap_free (p + 24) w1) (\<lambda>(_, w2). heap_ok h (heaps w2 h) (wmem w2) bs (p # remove1 p fl) \<and>
       mh_available_size (heaps w2 h) = mh_available_size (heaps w h) \<and> kern w2 = kern w)" if p: "q = Some p" for p
    proof -
      note z = alloc_size [OF q [unfolded p]]
      have c: "aheap_carve p (unat (memheap_round req)) (bs, fl) = (bs', fl')" using z by simp
      have s: "p \<in> set (butlast bs')" "p \<notin> set fl'" using carve_sizes(1) [OF k _ c] z round_ge(1) by blast+
      have b: "aheap_free p (bs', fl') = (bs, p # remove1 p fl)" using free_carve [OF k] z round_ge(1) c by metis
      have av: "(\<Sum>q\<leftarrow>p # remove1 p fl. bsize bs q) = (\<Sum>q\<leftarrow>fl. bsize bs q)"
        using sum_list_map_remove1 [of p fl "bsize bs"] z by simp
      show ?thesis
      proof (rule wp_mono [OF memheap_free_wp [of h w1 bs' fl' p 0]], goal_cases)
        case (6 x)
        then have o: "heap_ok h (heaps (snd x) h) (wmem (snd x)) bs (p # remove1 p fl)" "kern (snd x) = kern w"
          using w1 by (auto simp: freed_def b lock_kept_def)
        have "unat (mh_available_size (heaps (snd x) h)) = unat (mh_available_size (heaps w h))"
          using heap_okD(3) [OF o(1)] heap_okD(3) [OF k] av by (simp add: frees_ok_def)
        then show ?case using o by (auto intro: unsigned_word_eqI)
      qed (use A s ty w1 in \<open>auto simp: lock_free_def\<close>)
    qed
    then show ?case using A by (cases q) (auto simp: r)
  qed
qed

theorem memheap_alloc_free_roundtrip_witness:
  "wp (rt_memheap_alloc 0x100 100 sample_locked) (\<lambda>(out, w1). \<forall>p. out = Returned (p + 24) \<and> p + 24 \<noteq> 0 \<longrightarrow>
     wp (rt_memheap_free (p + 24) w1) (\<lambda>(_, w2).
       heap_ok 0x100 (heaps w2 0x100) (wmem w2) [0x1000, 0x1fe8] (p # remove1 p [0x1000]) \<and>
       mh_available_size (heaps w2 0x100) = mh_available_size (heaps sample_locked 0x100) \<and> kern w2 = kern sample_locked))"
  by (rule memheap_alloc_free_roundtrip [OF sample_locked_ok(1,4,3)])

text \<open>A request of more than \<^verbatim>\<open>0xfffffff8\<close> bytes is rounded to 16 bytes: as soon as some
  free block has more than 16 bytes, the allocation succeeds, with a block that is smaller than the request.\<close>

theorem rt_memheap_alloc_huge:
  assumes k: "heap_ok h (heaps w h) (wmem w) bs fl" and l: "lock_free n h w"
    and ty: "rt_object_get_type (OMemHeap h) (kern w) = RT_Object_Class_MemHeap"
    and req: "0xfffffff8 < req" and b: "b \<in> set fl" "16 < bsize bs b"
  shows "wp (rt_memheap_alloc h req w) (\<lambda>(out, w'). \<exists>p bs' fl'. out = Returned (p + 24) \<and> p \<in> set fl \<and>
     heap_ok h (heaps w' h) (wmem w') bs' fl' \<and> p \<in> set (butlast bs') - set fl' \<and> bsize bs' p < unat req)"
proof (rule wp_mono [OF memheap_alloc_wp [OF k ty l]], goal_cases)
  case (1 r)
  obtain out w' where r: "r = (out, w')" by (cases r)
  obtain q bs' fl' where q: "aheap_request (unat (memheap_round req)) (bs, fl) = (q, bs', fl')" by (metis prod_cases3)
  note A = 1 [unfolded r q prod.case]
  have u: "unat (memheap_round req) = 16" using round_wraps [OF req] by simp
  have "bsize bs b \<le> aheap_avail (bs, fl)" using sum_list_map_remove1 [OF b(1), of "bsize bs"] by (simp add: aheap_avail_def)
  moreover have "find (\<lambda>q. 16 \<le> bsize bs q) fl \<noteq> None" using b by (auto simp: find_None_iff)
  moreover obtain p where "find (\<lambda>q. 16 \<le> bsize bs q) fl = Some p" using calculation by blast
  ultimately have p: "q = Some p" using q b(2) u by (simp add: aheap_request_def aheap_alloc_def)
  note z = alloc_size [OF q [unfolded p]]
  have c: "aheap_carve p (unat (memheap_round req)) (bs, fl) = (bs', fl')" using z by simp
  have s: "p \<in> set (butlast bs') - set fl'" using carve_sizes(1) [OF k _ c] z round_ge(1) by blast
  have k': "heap_ok h (heaps w' h) (wmem w') bs' fl'" using A by simp
  have "bsize bs' p + 48 \<le> unat (mh_pool_size (heaps w' h))"
    using avail_le_pool [OF heap_okD(2) [OF k'], of "[p]"] s by simp
  then have "bsize bs' p < unat req" using req unat_u32 [of "mh_pool_size (heaps w' h)"] by (simp add: word_less_nat_alt)
  then show ?case using A p z s k' by (auto simp: r)
qed

end
