(* ===== verification/MemHeap_Realloc.thy ===== *)
theory MemHeap_Realloc
  imports MemHeap
begin

text \<open>
  Changing the size of a block of a memory heap in place, under its lock. Shrinking cuts the block and
  releases the rest (\<open>aheap_shrink\<close>); growing takes bytes from the free block behind
  (\<open>aheap_grow\<close>).
\<close>

section \<open>Shrinking\<close>

text \<open>A block in use cut into two blocks in use.\<close>

lemma frees_ok_cut:
  assumes f: "frees_ok hp (xs @ p # x # ys) fl" and b: "blocks_ok hp (xs @ p # x # ys)" and p: "p \<notin> set fl"
    and n: "unat p + 40 \<le> unat n" "unat n + 40 \<le> unat x" "8 dvd unat n"
  shows "frees_ok hp (xs @ p # n # x # ys) fl"
proof -
  let ?bs = "xs @ p # x # ys" and ?cs = "xs @ p # n # x # ys"
  have s: "blocks_ok hp ?cs" "n \<notin> set ?bs" using blocks_ok_split [OF b, of n] n by simp_all
  note ds = blocks_distinct [OF s(1)]
  have F: "set fl \<subseteq> set (butlast ?bs)" "distinct fl" "lone (set fl) ?bs" using f by (auto simp: frees_ok_def)
  have nf: "n \<notin> set fl" using F(1) s(2) in_set_butlastD by fastforce
  have sz: "bsize ?cs q = bsize ?bs q" if "q \<noteq> p" "q \<noteq> n" for q using bsize_mid [OF that(2,1) ds] .
  have "(\<Sum>q\<leftarrow>fl. bsize ?cs q) = (\<Sum>q\<leftarrow>fl. bsize ?bs q)"
    by (rule arg_cong [where f = sum_list], rule map_cong) (auto intro!: sz simp: p nf)
  moreover have "lone (set fl) ?cs" using F(3) p nf by (simp add: lone_edge lone_edge [of _ "xs @ [p]", simplified])
  moreover have "16 \<le> bsize ?cs q" if "q \<in> set (butlast ?cs)" "q \<notin> set fl" for q
  proof -
    have "q \<noteq> p \<Longrightarrow> q \<noteq> n \<Longrightarrow> q \<in> set (butlast ?bs)" using that(1) by (auto simp: butlast_append split: if_splits)
    then show ?thesis using f that(2) bsize_new [OF ds] n sz [of q] by (cases "q = p"; cases "q = n") (auto simp: frees_ok_def)
  qed
  moreover have "set fl \<subseteq> set (butlast ?cs)" using F(1) by (auto simp: butlast_append)
  ultimately show ?thesis using f unfolding frees_ok_def by auto
qed

lemma items_ok_cut:
  assumes i: "items_ok h S (xs @ p # x # ys) fl" and n: "n \<notin> set (xs @ p # x # ys)" "n \<notin> set fl"
  shows "items_ok h (S\<lparr>it_magic := (it_magic S)(n := used_magic), it_pool := (it_pool S)(n := h),
     it_blocks := ins_edge p n (lnext (it_blocks S) p) (it_blocks S)\<rparr>) (xs @ p # n # x # ys) fl"
  using i n rg_insert [of "it_blocks S" xs p "x # ys" n] by (auto simp: items_ok_def)

text \<open>The rest of the shrinking, after the cut at \<open>n\<close>.\<close>

lemma shrink_rest_wp:
  assumes a: "at_items m0 H S m" "insert (free_header h) (set (xs @ n # x # ys)) \<subseteq> H" and s: "spaced (xs @ n # x # ys)"
    and r: "rg (it_blocks S) (xs @ n # x # ys)" "rg (it_frees S) (free_header h # fl)" "set fl \<subseteq> set (butlast (xs @ n # x # ys))"
    and x: "it_magic S x = (if x \<in> set fl then free_magic else used_magic)" and n: "n \<notin> set fl" "n \<noteq> free_header h"
    and hp: "mh_free_list hp = free_header h"
    and Q: "\<And>m' u z. x \<notin> set fl \<Longrightarrow> rg u (free_header h # n # fl) \<Longrightarrow> unat z = bsize (xs @ n # x # ys) n \<Longrightarrow>
        at_items m0 H (S\<lparr>it_frees := u\<rparr>) m' \<Longrightarrow> Q (add_avail z hp, m')"
      "\<And>m' u t z. x \<in> set fl \<Longrightarrow> rg t (xs @ n # ys) \<Longrightarrow> rg u (free_header h # n # remove1 x fl) \<Longrightarrow>
        unat z = bsize (xs @ n # x # ys) n + 24 \<Longrightarrow>
        at_items m0 H (S\<lparr>it_blocks := t, it_frees := u\<rparr>) m' \<Longrightarrow> Q (add_avail z hp, m')"
  shows "wp (i_next n m \<bind> (\<lambda>x. memheap_is_used x m \<bind> (\<lambda>used.
     (if \<not> used then i_next n m \<bind> (\<lambda>f. memitem_size f m \<bind> (\<lambda>sz. i_next f m \<bind> (\<lambda>x. set_iprev x n m \<bind>
        (\<lambda>m. i_next f m \<bind> (\<lambda>x. set_inext n x m \<bind> (\<lambda>m. memheap_unlink_free f m \<bind>
        (\<lambda>m. Some (hp\<lparr>mh_available_size := mh_available_size hp - sz\<rparr>, m))))))))
      else Some (hp, m)) \<bind> (\<lambda>(hp, m). memheap_link_free (mh_free_list hp) n m \<bind> (\<lambda>m. memitem_size n m \<bind>
        (\<lambda>sz. Some (hp\<lparr>mh_available_size := mh_available_size hp + sz\<rparr>, m))))))) Q"
proof -
  let ?fh = "free_header h" and ?bs = "xs @ n # x # ys"
  note d = rg_distinct [OF r(1)]
  have L: "wp (memheap_link_free ?fh n m') (\<lambda>m. wp (memitem_size n m) (\<lambda>z. P z m))"
    if at: "at_items m0 H S' m'" and rs: "rg (it_frees S') (?fh # gl)" "set gl \<subseteq> set fl"
      and rb: "rg (it_blocks S') bs" "spaced bs" "set bs \<subseteq> set ?bs" "n \<in> set (butlast bs)"
      and q: "\<And>m'' u z. rg u (?fh # n # gl) \<Longrightarrow> unat z = bsize bs n \<Longrightarrow> at_items m0 H (S'\<lparr>it_frees := u\<rparr>) m'' \<Longrightarrow> P z m''"
    for S' m' gl bs P
  proof (rule link_free_wp [OF at])
    have nx: "lnext (it_frees S') ?fh \<in> insert ?fh (set gl)" using rg_closed(1) [OF rs(1), of ?fh] by simp
    have fb: "set fl \<subseteq> set ?bs" using r(3) in_set_butlastD by fast
    show "?fh \<in> H" "n \<in> H" "lnext (it_frees S') ?fh \<in> H" "n \<noteq> ?fh" "n \<noteq> lnext (it_frees S') ?fh"
      using a(2) nx rs(2) fb n by auto
    have rn: "rg (ins_edge ?fh n (lnext (it_frees S') ?fh) (it_frees S')) (?fh # n # gl)"
      using rg_insert [of "it_frees S'" "[]" ?fh gl n] rs n by auto
    fix m2 assume m2: "at_items m0 H (S'\<lparr>it_frees := ins_edge ?fh n (lnext (it_frees S') ?fh) (it_frees S')\<rparr>) m2"
    show "wp (memitem_size n m2) (\<lambda>z. P z m2)"
      by (rule memitem_size_wp [OF m2 _ _ rb(2,4)]) (use a(2) rb q [OF rn _ m2] in auto)
  qed
  have nx: "lnext (it_blocks S) n = x" "lprev (it_blocks S) x = n" using rg_next [OF r(1)] by auto
  have H: "n \<in> H" "x \<in> H" "n \<noteq> x" using a(2) d by auto
  have nb: "n \<in> set (butlast ?bs)" by (simp add: butlast_append)
  show ?thesis
  proof (cases "x \<in> set fl")
    case False
    have "wp (memheap_link_free ?fh n m) (\<lambda>m. wp (memitem_size n m) (\<lambda>z. Q (add_avail z hp, m)))"
      by (rule L [OF a(1) r(2) subset_refl r(1) s subset_refl nb]) (use Q(1) [OF False] in auto)
    then show ?thesis
      using a(1) H nx x False hp by (simp add: ld_items memheap_is_used_def add_avail_def)
  next
    case True
    obtain y ys' where ys: "ys = y # ys'" using True r(3) d by (cases ys) (auto simp: butlast_append)
    obtain us vs where f: "fl = us @ x # vs" "remove1 x fl = us @ vs"
      by (rule free_split [OF True]) (use rg_distinct [OF r(2)] in simp)
    have rf: "rg (it_frees S) (?fh # us @ x # vs)" using r(2) f by simp
    have fb: "set fl \<subseteq> set ?bs" using r(3) in_set_butlastD by fast
    have F: "lnext (it_blocks S) x \<in> H" "x \<noteq> lnext (it_frees S) x" "lnext (it_frees S) x \<in> H" "lprev (it_frees S) x \<in> H"
      using rg_closed(1) [OF r(1), of x] free_neighbours [OF rf] a(2) fb f(1) by auto
    have rx: "rg (del_edge x (it_blocks S)) (xs @ n # ys)" "rg (del_edge x (it_frees S)) (?fh # remove1 x fl)"
      using rg_remove [of "it_blocks S" "xs @ [n]" x ys] rg_remove [of "it_frees S" "?fh # us" x vs] r(1) rf f(2) by simp_all
    have sp: "spaced (xs @ n # ys)" using s by (auto simp: sorted_wrt_append)
    have B: "bsize (xs @ n # ys) n = bsize ?bs n + bsize ?bs x + 24" using bsize_delete(1) [of xs n x y ys'] s ys by simp
    have body: "wp (memheap_unlink_free x m1) (\<lambda>m. wp (memheap_link_free ?fh n m) (\<lambda>m. wp (memitem_size n m)
        (\<lambda>z. Q (hp\<lparr>mh_available_size := mh_available_size hp - zx + z\<rparr>, m))))"
      if zx: "unat zx = bsize ?bs x" and m1: "at_items m0 H (S\<lparr>it_blocks := del_edge x (it_blocks S)\<rparr>) m1" for m1 zx
    proof (rule unlink_free_wp [OF m1], simp_all add: H F)
      fix m2 assume m2: "at_items m0 H (S\<lparr>it_blocks := del_edge x (it_blocks S), it_frees := del_edge x (it_frees S)\<rparr>) m2"
      show "wp (memheap_link_free (h + 48) n m2) (\<lambda>m. wp (memitem_size n m) (\<lambda>z. Q (hp\<lparr>mh_available_size := mh_available_size hp - zx + z\<rparr>, m)))"
      proof (rule L [where gl = "remove1 x fl", OF m2 _ _ _ sp], goal_cases)
        case (6 m3 u z)
        have "unat (z - zx) = bsize ?bs n + 24" using 6(2) B zx by (subst unat_minus) simp_all
        then have "Q (add_avail (z - zx) hp, m3)" using Q(2) [OF True rx(1) 6(1), of "z - zx" m3] 6(3) by simp
        then show ?case by (simp add: add_avail_def algebra_simps)
      qed (use rx r(3) set_remove1_subset [of x fl] ys in \<open>auto simp: butlast_append\<close>)
    qed
    have "wp (memitem_size x m) (\<lambda>zx. wp (set_iprev (lnext (it_blocks S) x) n m) (\<lambda>m. wp (i_next x m) (\<lambda>y. wp (set_inext n y m)
       (\<lambda>m. wp (memheap_unlink_free x m) (\<lambda>m. wp (memheap_link_free ?fh n m) (\<lambda>m. wp (memitem_size n m)
        (\<lambda>z. Q (hp\<lparr>mh_available_size := mh_available_size hp - zx + z\<rparr>, m))))))))"
    proof (rule memitem_size_wp [OF a(1) _ r(1) s])
      fix zx :: u32 assume zx: "unat zx = bsize ?bs x"
      note U = body [OF zx]
      show "wp (set_iprev (lnext (it_blocks S) x) n m) (\<lambda>m. wp (i_next x m) (\<lambda>y. wp (set_inext n y m)
       (\<lambda>m. wp (memheap_unlink_free x m) (\<lambda>m. wp (memheap_link_free ?fh n m) (\<lambda>m. wp (memitem_size n m)
        (\<lambda>z. Q (hp\<lparr>mh_available_size := mh_available_size hp - zx + z\<rparr>, m)))))))"
        using a(1) H F(1) nx
        by - ((simp add: ld_items put_defs | (rule st_items, assumption, assumption))+, rule U, simp add: put_eqs)
    qed (use a(2) True r(3) in auto)
    then show ?thesis
      using a(1) H nx x True hp by (simp add: ld_items memheap_is_used_def)
  qed
qed

text \<open>Shrinking the block at \<open>p\<close> to \<open>n\<close> bytes.\<close>

definition aheap_shrink :: "u32 \<Rightarrow> nat \<Rightarrow> aheap \<Rightarrow> aheap" where
  "aheap_shrink p n A = (let b = p + of_nat (n + 24) in aheap_free b (ins_after p b (fst A), snd A))"

lemma shrink_freed_wp:
  assumes k: "heap_ok h hp m (xs @ p # x # ys) fl" and p: "p \<notin> set fl"
    and n: "unat p + 40 \<le> unat n" "unat n + 40 \<le> unat x" "8 dvd unat n" "n = p + sz + 24"
  shows "wp (memheap_shrink_body h p sz hp m) (freed h hp m (xs @ p # n # x # ys) fl n)"
proof -
  let ?bs = "xs @ p # x # ys" and ?cs = "xs @ p # n # x # ys" and ?fh = "free_header h"
  note d = heap_okD [OF k]
  obtain S where a: "at_items m (insert ?fh (set ?cs)) S m" and i: "items_ok h S ?bs fl"
    and nh: "n \<notin> insert ?fh (set ?bs)" and b: "blocks_ok hp ?cs"
    using heap_ok_extend [OF k, of n] n by auto
  have nf: "n \<notin> set fl" using nh d(8) by auto
  define S1 where "S1 = S\<lparr>it_magic := (it_magic S)(n := used_magic), it_pool := (it_pool S)(n := h),
     it_blocks := ins_edge p n (lnext (it_blocks S) p) (it_blocks S)\<rparr>"
  have i1: "items_ok h S1 ?cs fl" unfolding S1_def by (rule items_ok_cut [OF i _ nf]) (use nh in auto)
  have f1: "frees_ok hp ?cs fl" by (rule frees_ok_cut [OF d(3,2) p n(1-3)])
  have f1': "frees_ok hp ((xs @ [p]) @ n # x # ys) fl" and b': "blocks_ok hp ((xs @ [p]) @ n # x # ys)" using f1 b by simp_all
  note ds = blocks_distinct [OF b']
  have lp: "xs @ [p] = [] \<or> last (xs @ [p]) \<notin> set fl" using p by simp
  note nx = rg_next(1) [OF items_okD(1) [OF i]]
  note iD = items_okD [OF i1]
  have sp: "spaced ((xs @ [p]) @ n # x # ys)" "set fl \<subseteq> set (butlast ((xs @ [p]) @ n # x # ys))"
    using b' f1' by (auto simp: blocks_ok_def frees_ok_def)
  have e: "S1\<lparr>it_magic := (it_magic S1)(n := free_magic)\<rparr> = S\<lparr>it_magic := (it_magic S)(n := free_magic), it_pool := (it_pool S)(n := h),
       it_blocks := ins_edge p n (lnext (it_blocks S) p) (it_blocks S)\<rparr>" by (simp add: S1_def)
  have rest: "wp (i_next n m1 \<bind> (\<lambda>x. memheap_is_used x m1 \<bind> (\<lambda>used.
     (if \<not> used then i_next n m1 \<bind> (\<lambda>f. memitem_size f m1 \<bind> (\<lambda>sz. i_next f m1 \<bind> (\<lambda>x. set_iprev x n m1 \<bind>
        (\<lambda>m. i_next f m \<bind> (\<lambda>x. set_inext n x m \<bind> (\<lambda>m. memheap_unlink_free f m \<bind>
        (\<lambda>m. Some (hp\<lparr>mh_available_size := mh_available_size hp - sz\<rparr>, m))))))))
      else Some (hp, m1)) \<bind> (\<lambda>(hp, m). memheap_link_free (mh_free_list hp) n m \<bind> (\<lambda>m. memitem_size n m \<bind>
        (\<lambda>sz. Some (hp\<lparr>mh_available_size := mh_available_size hp + sz\<rparr>, m))))))) (freed h hp m ?cs fl n)"
    if m1: "at_items m (insert ?fh (set ?cs)) (S1\<lparr>it_magic := (it_magic S1)(n := free_magic)\<rparr>) m1" for m1
  proof (rule shrink_rest_wp [OF m1 _ sp(1) _ _ sp(2)])
    fix m' u and z :: u32 assume c: "x \<notin> set fl" "rg u (?fh # n # fl)" "unat z = bsize ((xs @ [p]) @ n # x # ys) n"
      "at_items m (insert ?fh (set ?cs)) (S1\<lparr>it_magic := (it_magic S1)(n := free_magic), it_frees := u\<rparr>) m'"
    show "freed h hp m ?cs fl n (add_avail z hp, m')"
      using c aheap_free_split(1) [OF ds nf lp c(1)] frees_ok_free0 [OF f1' b' nf lp c(1,3)] b nh
        heap_ok_merged [where S = S1 and t = "it_blocks S1" and s = u and q = n and w = z, OF _ refl d(1) i1 iD(1) c(2), of m']
      by (simp add: freed_def)
  next
    fix m' u t and z :: u32 assume c: "x \<in> set fl" "rg t ((xs @ [p]) @ n # ys)" "rg u (?fh # n # remove1 x fl)"
      "unat z = bsize ((xs @ [p]) @ n # x # ys) n + 24"
      "at_items m (insert ?fh (set ?cs)) (S1\<lparr>it_magic := (it_magic S1)(n := free_magic), it_blocks := t, it_frees := u\<rparr>) m'"
    obtain y ys' where ys: "ys = y # ys'" using c(1) sp(2) ds by (cases ys) (auto simp: butlast_append)
    have f2: "frees_ok (add_avail z hp) ((xs @ [p]) @ n # ys) (n # remove1 x fl)"
      using frees_ok_free_next [OF f1' [unfolded ys] b' [unfolded ys] nf lp c(1) c(4) [unfolded ys]] ys by simp
    have b2: "blocks_ok hp ((xs @ [p]) @ n # ys)" using blocks_ok_delete [OF b' [unfolded ys]] ys by simp
    have "same_pool hp (add_avail z hp) \<and> wrote (insert ?fh (set ?cs)) m m' \<and>
       heap_ok h (add_avail z hp) m' ((xs @ [p]) @ n # ys) (n # remove1 x fl)"
      by (rule heap_ok_merged [OF c(5) refl d(1) i1 c(2,3) _ _ b2 f2]) (use d(5) ds in auto)
    then show "freed h hp m ?cs fl n (add_avail z hp, m')"
      using aheap_free_split(2) [OF ds nf lp c(1)] by (simp add: freed_def)
  qed (use iD nh d(6) nf ds in \<open>auto\<close>)
  show ?thesis
    unfolding memheap_shrink_body_def Let_def n(4) [symmetric] wp_simps(4) [of "memheap_cut h p n m"]
    by (rule cut_wp [OF a]) (use nh nx rest e in \<open>auto\<close>)
qed

lemma shrink_body_wp:
  assumes k: "heap_ok h hp m bs fl" and p: "p \<in> set (butlast bs)" "p \<notin> set fl"
    and sz: "8 dvd unat sz" "16 \<le> unat sz" "unat sz + 40 < bsize bs p"
  shows "wp (memheap_shrink_body h p sz hp m) (\<lambda>(hp', m'). same_pool hp hp' \<and>
     wrote (insert (free_header h) (set (ins_after p (p + sz + 24) bs))) m m' \<and>
     (case aheap_shrink p (unat sz) (bs, fl) of (bs', fl') \<Rightarrow> heap_ok h hp' m' bs' fl'))"
proof -
  note d = heap_okD [OF k]
  obtain xs x ys where b: "bs = xs @ p # x # ys" "p \<notin> set xs" "bsize bs p = unat x - unat p - 24"
    by (rule bsize_pos_split [OF p(1) spaced_distinct [OF d(4)]])
  have "unat x < 2 ^ LENGTH(32)" by (rule unsigned_less)
  then have n: "unat (p + sz + 24) = unat p + unat sz + 24" using sz(3) b(3) by (simp add: unat_word_ariths)
  have "8 dvd unat p" "8 dvd unat x" using d(2) b(1) by (auto simp: blocks_ok_def)
  then have al: "8 dvd unat (p + sz + 24)" unfolding n using sz(1) by simp
  have "p + of_nat (unat sz + 24) = p + sz + 24" by (simp add: add.assoc)
  then have s: "aheap_shrink p (unat sz) (bs, fl) = aheap_free (p + sz + 24) (xs @ p # (p + sz + 24) # x # ys, fl)"
    using ins_after_split [OF b(2)] by (simp add: aheap_shrink_def Let_def b(1) add.assoc del: of_nat_add)
  show ?thesis
    using shrink_freed_wp [OF k [unfolded b(1)] p(2) _ _ al refl] n sz b(3) ins_after_split [OF b(2)]
    by (simp add: s [unfolded b(1)] freed_def b(1))
qed

section \<open>Growing in place\<close>

text \<open>The free block \<open>x\<close> behind \<open>p\<close> becomes part of \<open>p\<close>. In between, the
  counters of the heap do not fit the blocks; \<open>swallowed\<close> has the counters that do.\<close>

definition swallowed :: "nat \<Rightarrow> rt_memheap \<Rightarrow> rt_memheap" where
  "swallowed c hp = hp\<lparr>mh_available_size := mh_available_size hp - of_nat c, mh_max_used_size := mh_pool_size hp\<rparr>"

lemma swallowed_sel [simp]:
  "mh_start_addr (swallowed c hp) = mh_start_addr hp" "mh_pool_size (swallowed c hp) = mh_pool_size hp"
  "mh_block_list (swallowed c hp) = mh_block_list hp" "mh_free_list (swallowed c hp) = mh_free_list hp"
  "mh_available_size (swallowed c hp) = mh_available_size hp - of_nat c" "mh_max_used_size (swallowed c hp) = mh_pool_size hp"
  by (simp_all add: swallowed_def)

lemma frees_ok_swallow:
  assumes f: "frees_ok hp (xs @ p # x # y # ys) fl" and b: "blocks_ok hp (xs @ p # x # y # ys)" and p: "p \<notin> set fl" "x \<in> set fl"
  shows "frees_ok (swallowed (bsize (xs @ p # x # y # ys) x) hp) (xs @ p # y # ys) (remove1 x fl)"
proof -
  let ?bs = "xs @ p # x # y # ys" and ?cs = "xs @ p # y # ys"
  note ds = blocks_distinct [OF b]
  have sp: "spaced ?bs" using b by (simp add: blocks_ok_def)
  have F: "set fl \<subseteq> set (butlast ?bs)" "distinct fl" "lone (set fl) ?bs" using f by (auto simp: frees_ok_def)
  have fl: "set (remove1 x fl) = set fl - {x}" using F(2) by simp
  have sz: "bsize ?cs q = bsize ?bs q" if "q \<noteq> p" "q \<noteq> x" for q using bsize_delete(2) [OF sp that] .
  have av: "unat (mh_available_size hp) = bsize ?bs x + (\<Sum>q\<leftarrow>remove1 x fl. bsize ?bs q)" by (rule avail_take [OF f p(2)])
  have "(\<Sum>q\<leftarrow>remove1 x fl. bsize ?cs q) = (\<Sum>q\<leftarrow>remove1 x fl. bsize ?bs q)"
    by (rule arg_cong [where f = sum_list], rule map_cong) (use F(2) p in \<open>auto intro!: sz\<close>)
  moreover have u: "unat (of_nat (bsize ?bs x) :: u32) = bsize ?bs x"
    using av unat_u32 [of "mh_available_size hp"] by (simp add: unat_of_nat)
  moreover have "unat (mh_available_size hp - of_nat (bsize ?bs x)) = unat (mh_available_size hp) - bsize ?bs x"
    using unat_minus [of "of_nat (bsize ?bs x)" "mh_available_size hp"] av u by simp
  moreover have "lone (set fl - {x}) ?cs"
    by (rule lone_mono [of "set fl"]) (use F(3) p in \<open>auto simp: lone_edge lone_edge [of _ "xs @ [p]", simplified]\<close>)
  moreover have "16 \<le> bsize ?cs q" if "q \<in> set (butlast ?cs)" "q \<notin> set fl - {x}" for q
  proof (cases "q = p")
    case True
    have "16 \<le> bsize ?bs p" using f p by (auto simp: frees_ok_def butlast_append)
    then show ?thesis using bsize_delete(1) [OF sp] True by simp
  next
    case False
    have "q \<noteq> x" using in_set_butlastD [OF that(1)] ds by auto
    then show ?thesis by (intro min_delete [OF sp that(1) False]) (use f that(2) in \<open>auto simp: frees_ok_def\<close>)
  qed
  moreover have "set fl - {x} \<subseteq> set (butlast ?cs)" using F(1) p(1) by (auto simp: butlast_append)
  ultimately show ?thesis unfolding frees_ok_def fl using F(2) av by simp
qed

lemma swallow_wp:
  assumes k: "heap_ok h hp m (xs @ p # x # y # ys) fl" and p: "p \<notin> set fl" "x \<in> set fl"
  shows "wp (remove_next_ptr x m) (\<lambda>m'. wrote (insert (free_header h) (set (xs @ p # x # y # ys))) m m' \<and>
     heap_ok h (swallowed (bsize (xs @ p # x # y # ys) x) hp) m' (xs @ p # y # ys) (remove1 x fl))"
proof -
  let ?bs = "xs @ p # x # y # ys" and ?cs = "xs @ p # y # ys" and ?fh = "free_header h"
  let ?hp = "swallowed (bsize ?bs x) hp" and ?H = "insert (free_header h) (set (xs @ p # x # y # ys))"
  obtain S where a: "at_items m ?H S m" and i: "items_ok h S ?bs fl" by (rule heap_ok_at [OF k])
  note d = heap_okD [OF k]
  note iD = items_okD [OF i]
  note ds = rg_distinct [OF iD(1)]
  obtain us vs where f: "fl = us @ x # vs" "remove1 x fl = us @ vs" by (rule free_split [OF p(2) d(5)])
  have rf: "rg (it_frees S) (?fh # us @ x # vs)" using iD(2) f by simp
  have nx: "lnext (it_blocks S) x = y" "lprev (it_blocks S) x = p"
    using rg_next(1) [of "it_blocks S" "xs @ [p]" x y ys] rg_next(2) [of "it_blocks S" xs p x "y # ys"] iD(1) by simp_all
  have rx: "rg (del_edge x (it_blocks S)) ?cs" "rg (del_edge x (it_frees S)) (?fh # remove1 x fl)"
    using rg_remove [of "it_blocks S" "xs @ [p]" x "y # ys"] rg_remove [of "it_frees S" "?fh # us" x vs] iD(1) rf f(2) by simp_all
  show ?thesis
  proof (rule remove_next_ptr_wp [OF a])
    fix m' assume m': "at_items m ?H (S\<lparr>it_frees := del_edge x (it_frees S), it_blocks := del_edge x (it_blocks S)\<rparr>) m'"
    have w: "wrote ?H m m'" "dom m' = dom m" using m' by (auto simp: at_items_def wrote_def)
    have "insert ?fh (set ?cs) \<subseteq> ?H" by auto
    note g = at_items_mono [OF m' this]
    have "items_ok h (S\<lparr>it_frees := del_edge x (it_frees S), it_blocks := del_edge x (it_blocks S)\<rparr>) ?cs (remove1 x fl)"
      using rx iD(3,4) ds d(5) by (auto simp: items_ok_def)
    moreover have "pool_ok h ?hp m'" by (rule pool_ok_cong [OF d(1) w(2)]) simp_all
    moreover have "blocks_ok ?hp ?cs" by (rule blocks_ok_cong [OF blocks_ok_delete [OF d(2)]]) simp_all
    ultimately show "wrote ?H m m' \<and> heap_ok h ?hp m' ?cs (remove1 x fl)"
      using w(1) g frees_ok_swallow [OF d(3,2) p] unfolding heap_ok_def by blast
  qed (use nx free_neighbours [OF rf] d(8) f(1) ds in auto)
qed

lemma cut_link_wp:
  assumes k: "heap_ok h hp m (xs @ p # y # ys) fl" and p: "p \<notin> set fl" "y \<notin> set fl"
    and n: "unat p + 40 \<le> unat n" "unat n + 40 \<le> unat y" "8 dvd unat n" and z: "unat z = unat y - unat n - 24"
  shows "wp (memheap_cut h p n m) (\<lambda>m1. wp (memheap_link_free (free_header h) n m1) (\<lambda>m'.
     wrote (insert (free_header h) (set (xs @ p # n # y # ys))) m m' \<and> heap_ok h (add_avail z hp) m' (xs @ p # n # y # ys) (n # fl)))"
proof -
  let ?bs = "xs @ p # y # ys" and ?cs = "xs @ p # n # y # ys" and ?fh = "free_header h"
  note d = heap_okD [OF k]
  obtain S where a: "at_items m (insert ?fh (set ?cs)) S m" and i: "items_ok h S ?bs fl"
    and nh: "n \<notin> insert ?fh (set ?bs)" and b: "blocks_ok hp ?cs"
    using heap_ok_extend [OF k, of n] n by auto
  have nf: "n \<notin> set fl" using nh d(8) by auto
  define S1 where "S1 = S\<lparr>it_magic := (it_magic S)(n := used_magic), it_pool := (it_pool S)(n := h),
     it_blocks := ins_edge p n (lnext (it_blocks S) p) (it_blocks S)\<rparr>"
  have i1: "items_ok h S1 ?cs fl" unfolding S1_def by (rule items_ok_cut [OF i _ nf]) (use nh in auto)
  note iD = items_okD [OF i1]
  have fb: "frees_ok hp ((xs @ [p]) @ n # y # ys) fl" "blocks_ok hp ((xs @ [p]) @ n # y # ys)"
    using frees_ok_cut [OF d(3,2) p(1) n] b by simp_all
  note f2 = frees_ok_free0 [OF fb nf _ p(2), of z]
  have zs: "unat z = bsize ((xs @ [p]) @ n # y # ys) n" using z bsize_new(2) [OF blocks_distinct [OF b]] by simp
  note nx = rg_next(1) [OF items_okD(1) [OF i]]
  have nfh: "lnext (it_frees S) ?fh \<in> insert ?fh (set fl)" using rg_closed(1) [OF items_okD(2) [OF i], of ?fh] by simp
  define u where "u = ins_edge ?fh n (lnext (it_frees S) ?fh) (it_frees S)"
  have ru: "rg u (?fh # n # fl)" unfolding u_def
    using rg_insert [of "it_frees S" "[]" ?fh fl n] items_okD(2) [OF i] nh nf by simp
  have e: "S1\<lparr>it_magic := (it_magic S1)(n := free_magic), it_blocks := it_blocks S1, it_frees := u\<rparr> =
     S\<lparr>it_magic := (it_magic S)(n := free_magic), it_pool := (it_pool S)(n := h), it_blocks := ins_edge p n y (it_blocks S),
       it_frees := ins_edge ?fh n (lnext (it_frees S) ?fh) (it_frees S)\<rparr>" using nx by (simp add: S1_def u_def)
  show ?thesis
  proof (rule cut_wp [OF a, of p n h], use nh nx in \<open>simp_all\<close>, rule link_free_wp, assumption)
    fix m1 m' assume "at_items m (insert ?fh (insert p (insert n (insert y (set xs \<union> set ys)))))
       (S\<lparr>it_magic := (it_magic S)(n := free_magic), it_pool := (it_pool S)(n := h), it_blocks := ins_edge p n y (it_blocks S),
          it_frees := ins_edge (h + 48) n (lnext (it_frees (S\<lparr>it_magic := (it_magic S)(n := free_magic), it_pool := (it_pool S)(n := h),
            it_blocks := ins_edge p n y (it_blocks S)\<rparr>)) (h + 48)) (it_frees (S\<lparr>it_magic := (it_magic S)(n := free_magic),
            it_pool := (it_pool S)(n := h), it_blocks := ins_edge p n y (it_blocks S)\<rparr>))\<rparr>) m'"
    then have m': "at_items m (insert ?fh (set ?cs)) (S1\<lparr>it_magic := (it_magic S1)(n := free_magic), it_blocks := it_blocks S1, it_frees := u\<rparr>) m'"
      using nx e by (simp add: insert_commute)
    have "same_pool hp (add_avail z hp) \<and> wrote (insert ?fh (set ?cs)) m m' \<and> heap_ok h (add_avail z hp) m' ?cs (n # fl)"
      by (rule heap_ok_merged [OF m' refl d(1) i1 iD(1) ru]) (use f2 zs p(1) b in auto)
    then show "wrote (insert ?fh (insert p (insert n (insert y (set xs \<union> set ys))))) m m' \<and> heap_ok h (add_avail z hp) m' ?cs (n # fl)"
      by (simp add: insert_commute)
  qed (use nh nfh d(8) in auto)
qed

text \<open>Growing the block at \<open>p\<close> to \<open>n\<close> bytes in place, if the block behind it is free and large
  enough.\<close>

definition aheap_grow :: "u32 \<Rightarrow> nat \<Rightarrow> aheap \<Rightarrow> aheap option" where
  "aheap_grow p n A = (case A of (bs, fl) \<Rightarrow>
     case behind p bs of
       None \<Rightarrow> None
     | Some x \<Rightarrow>
         if x \<in> set fl \<and> n + 16 < bsize bs p + bsize bs x
         then let b = p + of_nat (n + 24) in Some (ins_after p b (remove1 x bs), b # remove1 x fl)
         else None)"

lemma heap_ok_counters:
  assumes "heap_ok h hp m bs fl" "mh_start_addr hp' = mh_start_addr hp" "mh_pool_size hp' = mh_pool_size hp"
    "mh_block_list hp' = mh_block_list hp" "mh_free_list hp' = mh_free_list hp" "mh_available_size hp' = mh_available_size hp"
    "unat (mh_pool_size hp) - unat (mh_available_size hp) \<le> unat (mh_max_used_size hp')"
    "unat (mh_max_used_size hp') \<le> unat (mh_pool_size hp)"
  shows "heap_ok h hp' m bs fl"
  using assms by (simp add: heap_ok_def pool_ok_def blocks_ok_def frees_ok_def)

lemma grow_in_place_wp:
  assumes k: "heap_ok h hp m (xs @ p # x # y # ys) fl" and p: "p \<notin> set fl" "x \<in> set fl"
    and sz: "8 dvd unat sz" "unat old = bsize (xs @ p # x # y # ys) p" "unat old < unat sz"
      "unat sz + 16 < unat old + bsize (xs @ p # x # y # ys) x"
    and n: "n = p + 24 + sz"
  defines "hp' \<equiv> memheap_charge (sz - old) hp"
  shows "wp (remove_next_ptr x m) (\<lambda>m1. wp (memheap_cut h p n m1) (\<lambda>m2. wp (memheap_link_free (free_header h) n m2) (\<lambda>m'.
     heap_ok h hp' m' (xs @ p # n # y # ys) (n # remove1 x fl) \<and>
     wrote (insert (free_header h) (set (xs @ p # x # y # ys)) \<union> insert (free_header h) (set (xs @ p # n # y # ys))) m m')))"
proof (rule wp_mono [OF swallow_wp [OF k p]])
  let ?bs = "xs @ p # x # y # ys" and ?cs = "xs @ p # n # y # ys" and ?fh = "free_header h"
  let ?hp1 = "swallowed (bsize ?bs x) hp"
  note d = heap_okD [OF k]
  fix m1 assume m1: "wrote (insert ?fh (set ?bs)) m m1 \<and> heap_ok h ?hp1 m1 (xs @ p # y # ys) (remove1 x fl)"
  note ds = blocks_distinct [OF d(2)]
  have g: "unat p + 24 \<le> unat x" "unat x + 24 \<le> unat y" using d(4) by (auto simp: sorted_wrt_append)
  have B: "bsize ?bs p = unat x - unat p - 24" "bsize ?bs x = unat y - unat x - 24" using bsize_new [OF ds] by simp_all
  have un: "unat n = unat p + 24 + unat sz" unfolding n using sz g B unat_u32 [of y] by (simp add: unat_word_ariths)
  have al: "8 dvd unat p" "8 dvd unat y" "8 dvd unat x" using d(2) by (auto simp: blocks_ok_def)
  then have n8: "8 dvd unat n" unfolding un using sz(1) by simp
  have o16: "16 \<le> unat old" using d(3) p(1) sz(2) by (auto simp: frees_ok_def butlast_append)
  have n1: "unat p + 40 \<le> unat n" "unat n + 40 \<le> unat y" using un o16 sz g B by simp_all
  have y: "y \<notin> set (remove1 x fl)"
    using d(3) p(2) by (auto simp: frees_ok_def lone_edge lone_edge [of _ "xs @ [p]", simplified] dest: set_remove1_subset [THEN subsetD])
  define z where "z = y - n - 24"
  have z: "unat z = unat y - unat n - 24" unfolding z_def using n1 by (simp add: unat_minus)
  have av: "unat (mh_available_size hp) = bsize ?bs x + (\<Sum>q\<leftarrow>remove1 x fl. bsize ?bs q)" by (rule avail_take [OF d(3) p(2)])
  have u: "unat (of_nat (bsize ?bs x) :: u32) = bsize ?bs x" using av unat_u32 [of "mh_available_size hp"] by (simp add: unat_of_nat)
  have so: "unat (sz - old) = unat sz - unat old" using sz(3) by (simp add: unat_minus)
  have "mh_available_size hp - of_nat (bsize ?bs x) + z = mh_available_size hp - (sz - old)"
  proof -
    have lt: "unat z + unat (sz - old) < 4294967296" "unat z + unat (sz - old) = bsize ?bs x"
      using z so un sz g B n1 unat_u32 [of y] by simp_all
    then have "unat (z + (sz - old)) = bsize ?bs x" by (simp add: unat_word_ariths)
    then have "of_nat (bsize ?bs x) = z + (sz - old)" by (metis u word_unat_eq_iff)
    then show ?thesis by simp
  qed
  then have e: "mh_available_size hp' = mh_available_size (add_avail z ?hp1)" by (simp add: hp'_def add_avail_def)
  have ap: "unat (mh_available_size hp - (sz - old)) \<le> unat (mh_pool_size hp)"
  proof -
    have "unat (mh_available_size hp) \<le> unat (mh_pool_size hp)" using avail_le_pool [OF d(2,5,7)] d(3) by (simp add: frees_ok_def)
    moreover have "unat (sz - old) \<le> unat (mh_available_size hp)" using so sz(4) av by linarith
    ultimately show ?thesis using unat_minus [of "sz - old" "mh_available_size hp"] by linarith
  qed
  show "wp (memheap_cut h p n m1) (\<lambda>m2. wp (memheap_link_free ?fh n m2) (\<lambda>m'.
     heap_ok h hp' m' ?cs (n # remove1 x fl) \<and> wrote (insert ?fh (set ?bs) \<union> insert ?fh (set ?cs)) m m'))"
  proof (rule wp_mono [OF cut_link_wp [OF conjunct2 [OF m1] _ y n1 n8 z]], use p(1) set_remove1_subset [of x fl] in blast, erule wp_mono)
    fix m2 m' assume m': "wrote (insert ?fh (set ?cs)) m1 m' \<and> heap_ok h (add_avail z ?hp1) m' ?cs (n # remove1 x fl)"
    have "heap_ok h hp' m' ?cs (n # remove1 x fl)"
      by (rule heap_ok_counters [OF conjunct2 [OF m']])
        (use e charge_max [OF ap] d(3) in \<open>auto simp: hp'_def frees_ok_def\<close>)
    moreover have "wrote (insert ?fh (set ?bs) \<union> insert ?fh (set ?cs)) m m'"
      using wrote_trans [OF wrote_mono [of "insert ?fh (set ?bs)" m m1] wrote_mono [of "insert ?fh (set ?cs)" m1 m']] m1 m'
      by (meson sup_ge1 sup_ge2)
    ultimately show "heap_ok h hp' m' ?cs (n # remove1 x fl) \<and> wrote (insert ?fh (set ?bs) \<union> insert ?fh (set ?cs)) m m'" ..
  qed
qed

lemma grow_body_wp:
  assumes k: "heap_ok h hp m bs fl" and p: "p \<in> set (butlast bs)" "p \<notin> set fl"
    and sz: "8 dvd unat sz" "unat old = bsize bs p" "unat old < unat sz" "unat sz + 16 < 2 ^ 32"
  shows "wp (memheap_grow_body h p sz old hp m) (\<lambda>(grown, hp', m'). same_pool hp hp' \<and>
     (case aheap_grow p (unat sz) (bs, fl) of
        None \<Rightarrow> \<not> grown \<and> hp' = hp \<and> m' = m
      | Some (bs', fl') \<Rightarrow> grown \<and> heap_ok h hp' m' bs' fl' \<and>
          wrote (insert (free_header h) (set bs) \<union> insert (free_header h) (set bs')) m m'))" (is "wp _ ?Q")
proof -
  let ?fh = "free_header h"
  note d = heap_okD [OF k]
  obtain S where a: "at_items m (insert ?fh (set bs)) S m" and i: "items_ok h S bs fl" by (rule heap_ok_at [OF k])
  note iD = items_okD [OF i]
  note ds = spaced_distinct [OF d(4)]
  obtain xs x ys where b: "bs = xs @ p # x # ys" "p \<notin> set xs" by (rule bsize_pos_split [OF p(1) ds])
  have nx: "lnext (it_blocks S) p = x" using rg_next(1) [OF iD(1) [unfolded b(1)]] .
  have gt: "unat p + 24 \<le> unat x" using d(4) by (auto simp: b(1) sorted_wrt_append)
  then have px: "p < x" "0 < x" by (simp_all add: word_less_nat_alt)
  have bh: "behind p bs = Some x" using behind_split [OF b(2)] b(1) by simp
  have rd: "i_next p m = Some x" "memheap_is_used x m = Some (x \<notin> set fl)"
    using ld_items [OF a, of p] ld_items [OF a, of x] nx iD(4) [of x] by (auto simp: b(1) memheap_is_used_def)
  show ?thesis
  proof (cases "x \<in> set fl")
    case False
    then show ?thesis
      unfolding memheap_grow_body_def using rd px bh by (simp add: aheap_grow_def same_pool_def)
  next
    case True
    obtain y ys' where ys: "ys = y # ys'" using True d(7) ds b(1) by (cases ys) (auto simp: butlast_append)
    have b': "bs = xs @ p # x # y # ys'" using b ys by simp
    have xb: "x \<in> set (butlast bs)" using d(7) True by auto
    have fin: "wp (if sz + 16 < z + old then (let hp = memheap_charge (sz - old) hp in remove_next_ptr x m \<bind>
        (\<lambda>m. let n = p + 24 + sz in memheap_cut h p n m \<bind> (\<lambda>m. memheap_link_free (mh_free_list hp) n m \<bind>
        (\<lambda>m. Some (True, hp, m))))) else Some (False, hp, m)) ?Q" if z: "unat z = bsize bs x" for z
    proof -
      have "bsize bs p + bsize bs x + 48 \<le> unat (mh_pool_size hp)"
        using avail_le_pool [OF d(2), of "[p, x]"] p(1) xb ds b(1) by auto
      then have "unat (z + old) = unat z + unat old" "unat (sz + 16) = unat sz + 16"
        using sz(2,4) z unat_u32 [of "mh_pool_size hp"] by (simp_all add: unat_word_ariths)
      then have c: "sz + 16 < z + old \<longleftrightarrow> unat sz + 16 < unat old + bsize bs x" using z by (auto simp: word_less_nat_alt)
      show ?thesis
      proof (cases "unat sz + 16 < unat old + bsize bs x")
        case False
        then show ?thesis using c bh sz(2) by (simp add: aheap_grow_def same_pool_def)
      next
        case gr: True
        let ?n = "p + 24 + sz"
        have "p + of_nat (unat sz + 24) = ?n" by (simp add: algebra_simps)
        then have g: "aheap_grow p (unat sz) (bs, fl) = Some (xs @ p # ?n # y # ys', ?n # remove1 x fl)"
          using bh True gr sz(2) ins_after_split [OF b(2)] ds
          by (simp add: aheap_grow_def Let_def b' remove1_append del: of_nat_add)
        have "wp (remove_next_ptr x m) (\<lambda>m1. wp (memheap_cut h p ?n m1) (\<lambda>m2. wp (memheap_link_free ?fh ?n m2)
           (\<lambda>m'. ?Q (True, memheap_charge (sz - old) hp, m'))))"
          unfolding g prod.case option.case
          using grow_in_place_wp [OF k [unfolded b'] p(2) True sz(1) _ sz(3) _ refl] sz(2) gr by (simp add: b' same_pool_def)
        then show ?thesis using c gr d(6) by (simp add: Let_def)
      qed
    qed
    have "wp (memitem_size x m) (\<lambda>z. wp (if sz + 16 < z + old then (let hp = memheap_charge (sz - old) hp in remove_next_ptr x m \<bind>
        (\<lambda>m. let n = p + 24 + sz in memheap_cut h p n m \<bind> (\<lambda>m. memheap_link_free (mh_free_list hp) n m \<bind>
        (\<lambda>m. Some (True, hp, m))))) else Some (False, hp, m)) ?Q)"
      by (rule memitem_size_wp [OF a _ iD(1) d(4) xb]) (blast, erule fin)
    then show ?thesis
      unfolding memheap_grow_body_def using rd px True by simp
  qed
qed

end
