(* ===== verification/MemHeap_Resize.thy ===== *)
theory MemHeap_Resize
  imports MemHeap_Realloc
begin

text \<open>
  Reallocation: in place where possible, otherwise into a new block, with a copy of the data. The
  theorem is about a heap that its user has locked, as the system heap is.
\<close>

section \<open>Moving a block\<close>

lemma copy_longs_wp:
  assumes "\<And>i. i < n \<Longrightarrow> m (src + 4 * of_nat i) \<noteq> None \<and> m (dst + 4 * of_nat i) \<noteq> None"
    and "\<And>i j. i < n \<Longrightarrow> j < n \<Longrightarrow> dst + 4 * of_nat i \<noteq> src + 4 * of_nat j"
    and "inj_on (\<lambda>i. dst + 4 * of_nat i) {..<n}"
  shows "wp (copy_longs n dst src m) (\<lambda>m'. dom m' = dom m \<and> (\<forall>i<n. m' (dst + 4 * of_nat i) = m (src + 4 * of_nat i)) \<and>
     (\<forall>a. (\<forall>i<n. a \<noteq> dst + 4 * of_nat i) \<longrightarrow> m' a = m a))"
  using assms
proof (induction n arbitrary: dst src m)
  case (Suc n)
  obtain v where v: "m src = Some v" "m dst \<noteq> None" using Suc(2) [of 0] by auto
  let ?m = "m(dst \<mapsto> v)"
  have sh: "a + 4 + 4 * of_nat i = a + 4 * of_nat (Suc i)" for a :: u32 and i by (simp add: algebra_simps)
  have d0: "dst \<noteq> src + 4 * of_nat (Suc i)" "dst \<noteq> dst + 4 * of_nat (Suc i)" if "i < n" for i
    using Suc(3) [of 0 "Suc i"] inj_onD [OF Suc(4), of 0 "Suc i"] that by auto
  have I: "inj_on (\<lambda>i. dst + 4 + 4 * of_nat i) {..<n}"
  proof (rule inj_onI)
    fix i j assume "i \<in> {..<n}" "j \<in> {..<n}" "dst + 4 + 4 * of_nat i = dst + 4 + 4 * of_nat j"
    then show "i = j" using inj_onD [OF Suc(4), of "Suc i" "Suc j"] unfolding sh by simp
  qed
  show ?case
    unfolding copy_longs.simps wp_simps ld_def v(1) st_def using v(2)
    apply simp
  proof (rule wp_mono [OF Suc(1) [OF _ _ I]], goal_cases)
    case (1 i)
    then show ?case using Suc(2) [of "Suc i"] v(1) unfolding sh by simp
  next
    case (2 i j)
    then show ?case using Suc(3) [of "Suc i" "Suc j"] unfolding sh by simp
  next
    case (3 m')
    have "m' (dst + 4 * of_nat i) = m (src + 4 * of_nat i)" if "i < Suc n" for i
    proof (cases i)
      case 0
      then show ?thesis using 3 d0(2) v(1) unfolding sh by auto
    next
      case (Suc j)
      then show ?thesis using 3 d0(1) [of j] that unfolding sh by auto
    qed
    moreover have "m' a = m a" if "\<forall>i<Suc n. a \<noteq> dst + 4 * of_nat i" for a
      using 3 that [rule_format, of 0] that [rule_format, of "Suc _"] unfolding sh by auto
    moreover have "dom m' = dom m" using 3 v(2) by (auto simp: dom_def)
    ultimately show ?case by blast
  qed
qed simp

text \<open>The words of the data of a block, up to \<open>n\<close> bytes.\<close>

definition words_at :: "nat \<Rightarrow> memory \<Rightarrow> u32 \<Rightarrow> u32 option list" where
  "words_at n m q = map (\<lambda>i. m (q + 24 + 4 * of_nat i)) [0..<n div 4]"

lemma words_at_eq: "(\<And>i. 4 * i + 4 \<le> n \<Longrightarrow> m' (q' + 24 + 4 * of_nat i) = m (q + 24 + 4 * of_nat i)) \<Longrightarrow> words_at n m' q' = words_at n m q"
  by (simp add: words_at_def)

lemma block_data_words: "block_data bs m q = words_at (bsize bs q) m q"
  by (simp add: block_data_def words_at_def)

lemma words_of_Un: "words_of (H \<union> K) = words_of H \<union> words_of K"
  unfolding words_of_def by blast

lemma block_apart:
  assumes s: "spaced bs" and b: "b \<in> set (butlast bs)" "q \<in> set (butlast bs)" "b \<noteq> q"
  shows "unat b + 24 + bsize bs b \<le> unat q \<or> unat q + 24 + bsize bs q \<le> unat b"
proof -
  obtain xs x ys where x: "bs = xs @ b # x # ys" "bsize bs b = unat x - unat b - 24"
    using bsize_pos_split [OF b(1) spaced_distinct [OF s]] by metis
  obtain us u vs where u: "bs = us @ q # u # vs" "bsize bs q = unat u - unat q - 24"
    using bsize_pos_split [OF b(2) spaced_distinct [OF s]] by metis
  note sx = spaced_split [OF s [unfolded x(1)]] and su = spaced_split [OF s [unfolded u(1)]]
  have "q \<in> set xs \<or> q = x \<or> q \<in> set ys" using in_set_butlastD [OF b(2)] b(3) by (auto simp: x(1))
  then show ?thesis
  proof (elim disjE)
    assume q: "q \<in> set xs"
    have "b \<in> set us \<or> b = u \<or> b \<in> set vs" using in_set_butlastD [OF b(1)] b(3) by (auto simp: u(1))
    then show ?thesis using q sx(7) su u(2) by force
  qed (use sx x(2) in force)+
qed

lemma and_3_aligned: "8 dvd unat p \<Longrightarrow> p AND 3 = 0" for p :: u32
proof -
  assume "8 dvd unat p"
  then have "unat p mod 4 = 0" by presburger
  moreover have "unat (p AND 3) = unat p mod 4"
  proof -
    have "p AND 3 = take_bit 2 p" by (simp add: take_bit_eq_mask mask_eq_exp_minus_1)
    then show ?thesis by (simp add: take_bit_eq_mod unat_mod)
  qed
  ultimately show ?thesis by (simp add: unat_eq_0)
qed

lemma heap_ok_data:
  assumes k: "heap_ok h hp m bs fl" and m: "dom m' = dom m" "\<And>a. a \<in> words_of (insert (free_header h) (set bs)) \<Longrightarrow> m' a = m a"
  shows "heap_ok h hp m' bs fl"
proof -
  obtain S where a: "agree (insert (free_header h) (set bs)) S m" "items_ok h S bs fl" using k by (auto simp: heap_ok_def)
  have "header m' p = header m p" if "p \<in> insert (free_header h) (set bs)" for p
  proof -
    have "m' (p + i) = m (p + i)" if "i \<in> offsets" for i
      by (rule m(2)) (use \<open>p \<in> _\<close> that in \<open>unfold words_of_def, blast\<close>)
    from this [of 0] this [of 4] this [of 8] this [of 12] this [of 16] this [of 20] show ?thesis by (simp add: header_def)
  qed
  then have "agree (insert (free_header h) (set bs)) S m'" using a(1) by (auto simp: agree_def)
  then show ?thesis using k a(2) pool_ok_cong [OF _ m(1), of h hp hp] by (auto simp: heap_ok_def)
qed

lemma bsize_8:
  assumes "blocks_ok hp bs" "q \<in> set (butlast bs)"
  shows "8 dvd bsize bs q"
proof -
  obtain xs x ys where x: "bs = xs @ q # x # ys" "bsize bs q = unat x - unat q - 24"
    using bsize_pos_split [OF assms(2) blocks_distinct [OF assms(1)]] by metis
  have "8 dvd unat x" "8 dvd unat q" using assms(1) by (auto simp: blocks_ok_def x(1))
  then show ?thesis unfolding x(2) by (intro dvd_diff_nat) auto
qed

lemma copy_block_wp:
  assumes k: "heap_ok h hp m bs fl" and p: "p \<in> set (butlast bs)" and q: "q \<in> set (butlast bs)" and n: "p \<noteq> q"
    and c: "unat c = bsize bs p" "16 \<le> bsize bs p" "bsize bs p \<le> bsize bs q"
  shows "wp (rt_memcpy (q + 24) (p + 24) c m) (\<lambda>m'. heap_ok h hp m' bs fl \<and> words_at (bsize bs p) m' q = words_at (bsize bs p) m p \<and>
     (\<forall>b \<in> set (butlast bs) - {q}. block_data bs m' b = block_data bs m b))"
proof -
  note d = heap_okD [OF k]
  let ?n = "bsize bs p div 4"
  have n4: "4 * ?n = bsize bs p" "bsize bs p mod 4 = 0" using bsize_8 [OF d(2) p] by presburger+
  note P = data_no_header [OF d(1,2) p] and Q = data_no_header [OF d(1,2) q]
  have al: "8 dvd unat p" "8 dvd unat q" using d(2) in_set_butlastD [OF p] in_set_butlastD [OF q] by (auto simp: blocks_ok_def)
  have u: "unat (p + 24) = unat p + 24" "unat (q + 24) = unat q + 24" using P(2) [of 0] Q(2) [of 0] c(2,3) by simp_all
  have a0: "(p + 24) AND 3 = 0" "(q + 24) AND 3 = 0" by (rule and_3_aligned, use al u in simp)+
  have ge: "\<not> c < 16" using c(1,2) by (simp add: word_less_nat_alt)
  have L: "wp (copy_longs ?n (q + 24) (p + 24) m) (\<lambda>m'. dom m' = dom m \<and> (\<forall>i<?n. m' (q + 24 + 4 * of_nat i) = m (p + 24 + 4 * of_nat i)) \<and>
     (\<forall>a. (\<forall>i<?n. a \<noteq> q + 24 + 4 * of_nat i) \<longrightarrow> m' a = m a))"
  proof (rule copy_longs_wp)
    fix i assume "i < ?n"
    then show "m (p + 24 + 4 * of_nat i) \<noteq> None \<and> m (q + 24 + 4 * of_nat i) \<noteq> None"
      using P(3) [of i] Q(3) [of i] c(3) n4 by linarith
    fix j assume "j < ?n"
    then show "q + 24 + 4 * of_nat i \<noteq> p + 24 + 4 * of_nat j"
      using P(2) [of j] Q(2) [of i] c(3) n4(1) block_apart [OF d(4) p q n] \<open>i < ?n\<close> by force
  next
    show "inj_on (\<lambda>i. q + 24 + 4 * of_nat i) {..<?n}"
    proof (rule inj_onI)
      fix i j assume ij: "i \<in> {..<?n}" "j \<in> {..<?n}" "q + 24 + 4 * word_of_nat i = q + 24 + 4 * word_of_nat j"
      have "4 * i + 4 \<le> bsize bs q" "4 * j + 4 \<le> bsize bs q" using ij(1,2) c(3) n4(1) by auto
      then have "unat q + 24 + 4 * i = unat q + 24 + 4 * j" using Q(2) [of i] Q(2) [of j] by (simp only: ij(3))
      then show "i = j" by simp
    qed
  qed
  show ?thesis
    unfolding rt_memcpy_def using ge a0 c(1) n4(2)
    apply (simp add: Let_def)
  proof (rule wp_mono [OF L], goal_cases)
    case (1 m')
    have other: "m' a = m a" if "\<And>i. 4 * i + 4 \<le> bsize bs q \<Longrightarrow> a \<noteq> q + 24 + 4 * of_nat i" for a
    proof -
      have "\<forall>i<?n. a \<noteq> q + 24 + 4 * of_nat i" using that c(3) n4(1) by auto
      then show ?thesis using 1 by blast
    qed
    have "heap_ok h hp m' bs fl"
    proof (rule heap_ok_data [OF k])
      show "dom m' = dom m" using 1 by blast
      fix a assume a: "a \<in> words_of (insert (free_header h) (set bs))"
      show "m' a = m a" by (rule other) (use a Q(1) in metis)
    qed
    moreover have "words_at (bsize bs p) m' q = words_at (bsize bs p) m p"
    proof (rule words_at_eq)
      fix i assume "4 * i + 4 \<le> bsize bs p"
      then have "i < ?n" using n4(1) by linarith
      then show "m' (q + 24 + 4 * word_of_nat i) = m (p + 24 + 4 * word_of_nat i)" using 1 by blast
    qed
    moreover have "block_data bs m' b = block_data bs m b" if b: "b \<in> set (butlast bs) - {q}" for b
      unfolding block_data_words
    proof (rule words_at_eq, rule other)
      fix i j assume ij: "4 * i + 4 \<le> bsize bs b" "4 * j + 4 \<le> bsize bs q"
      have "unat (b + 24 + 4 * word_of_nat i) = unat b + 24 + 4 * i" by (rule data_no_header(2) [OF d(1,2) _ ij(1)]) (use b in simp)
      moreover have "unat b + 24 + 4 * i \<noteq> unat q + 24 + 4 * j" using block_apart [OF d(4), of b q] b q ij by auto
      ultimately show "b + 24 + 4 * word_of_nat i \<noteq> q + 24 + 4 * word_of_nat j" using Q(2) [OF ij(2)] by metis
    qed
    ultimately show ?case by blast
  qed
qed

section \<open>The data of resized blocks\<close>

lemma words_kept:
  assumes p: "pool_ok h hp m" "blocks_ok hp bs" "blocks_ok hp bs'" and b: "b \<in> set (butlast bs)" "b \<in> set (butlast bs')"
    and n: "n \<le> bsize bs b" "n \<le> bsize bs' b"
    and w: "wrote (insert (free_header h) (set bs) \<union> insert (free_header h) (set bs')) m m'"
  shows "words_at n m' b = words_at n m b"
proof (rule words_at_eq)
  fix i assume "4 * i + 4 \<le> n"
  then have i: "4 * i + 4 \<le> bsize bs b" "4 * i + 4 \<le> bsize bs' b" using n by simp_all
  show "m' (b + 24 + 4 * word_of_nat i) = m (b + 24 + 4 * word_of_nat i)"
    using w data_no_header(1) [OF p(1,2) b(1) i(1)] data_no_header(1) [OF p(1,3) b(2) i(2)]
    unfolding wrote_def words_of_Un by blast
qed

text \<open>The block \<open>p\<close> has become the block \<open>p'\<close> of at least \<open>n\<close> bytes, with the same data as far
  as both blocks reach; the data of all other blocks in use is unchanged.\<close>

definition resized ::
  "u32 list \<Rightarrow> u32 list \<Rightarrow> memory \<Rightarrow> u32 \<Rightarrow> nat \<Rightarrow> u32 list \<Rightarrow> u32 list \<Rightarrow> memory \<Rightarrow> u32 \<Rightarrow> bool" where
  "resized bs fl m p n bs' fl' m' p' \<longleftrightarrow> p' \<in> set (butlast bs') - set fl' \<and> n \<le> bsize bs' p' \<and>
     words_at (min (bsize bs p) n) m' p' = words_at (min (bsize bs p) n) m p \<and>
     data_kept bs m bs' m' (set (butlast bs) - set fl - {p})"

lemma resizedI:
  assumes p: "pool_ok h hp m" "blocks_ok hp bs" "blocks_ok hp cs" and w: "wrote (insert (free_header h) (set bs) \<union> insert (free_header h) (set cs)) m m'"
    and b: "p \<in> set (butlast bs)" "p \<in> set (butlast cs)" "n \<le> bsize cs p" "p \<in> set (butlast bs') - set fl'" "n \<le> bsize bs' p"
    and o: "\<And>b. b \<in> set (butlast bs) - set fl - {p} \<Longrightarrow> b \<in> set (butlast cs) \<and> bsize cs b = bsize bs b \<and> bsize bs' b = bsize bs b"
  shows "resized bs fl m p n bs' fl' m' p"
  unfolding resized_def data_kept_def block_data_words
proof (intro conjI ballI)
  show "words_at (min (bsize bs p) n) m' p = words_at (min (bsize bs p) n) m p"
    by (rule words_kept [OF p b(1,2) _ _ w]) (use b(3) in simp_all)
  fix b assume "b \<in> set (butlast bs) - set fl - {p}"
  then show "words_at (bsize bs' b) m' b = words_at (bsize bs b) m b"
    using o [of b] words_kept [OF p, of b "bsize bs b" m'] w by simp
qed (use b in auto)

lemma shrink_resized:
  assumes k: "heap_ok h hp m bs fl" and p: "p \<in> set (butlast bs)" "p \<notin> set fl"
    and sz: "8 dvd unat sz" "16 \<le> unat sz" "unat sz + 40 < bsize bs p" and s: "aheap_shrink p (unat sz) (bs, fl) = (bs', fl')"
    and w: "wrote (insert (free_header h) (set (ins_after p (p + sz + 24) bs))) m m'"
  shows "resized bs fl m p (unat sz) bs' fl' m' p"
proof -
  note d = heap_okD [OF k]
  obtain xs x ys where b: "bs = xs @ p # x # ys" "p \<notin> set xs" "bsize bs p = unat x - unat p - 24"
    by (rule bsize_pos_split [OF p(1) spaced_distinct [OF d(4)]])
  let ?n = "p + sz + 24"
  let ?cs = "xs @ p # ?n # x # ys"
  have n: "unat ?n = unat p + unat sz + 24" using sz(3) b(3) unat_u32 [of x] by (simp add: unat_word_ariths)
  have al: "8 dvd unat ?n" unfolding n using sz(1) d(2) by (auto simp: blocks_ok_def b(1))
  have c: "blocks_ok hp ?cs" "?n \<notin> set bs"
    using blocks_ok_split [of hp xs p x ys ?n] d(2) n al sz b by simp_all
  note ds = blocks_distinct [OF c(1)]
  have cs: "ins_after p ?n bs = ?cs" using ins_after_split [OF b(2)] b(1) by simp
  have "p + of_nat (unat sz + 24) = ?n" by (simp add: add.assoc)
  then have f: "aheap_free ?n (?cs, fl) = (bs', fl')" using s cs by (simp add: aheap_shrink_def Let_def add.assoc del: of_nat_add)
  have nf: "?n \<notin> set fl" using c(2) d(8) by auto
  have bz: "bsize ?cs p = unat sz" "b \<in> set bs \<Longrightarrow> b \<noteq> p \<Longrightarrow> bsize ?cs b = bsize bs b" for b
    using bsize_new(1) [OF ds] n bsize_mid [OF _ _ ds, of b] c(2) by (auto simp: b(1))
  have sub: "set (butlast bs) \<subseteq> set (butlast ?cs)" "?n \<in> set (butlast ?cs)" by (auto simp: b(1) butlast_append)
  have F: "b \<in> set (butlast bs') - set fl' \<and> bsize bs' b = bsize ?cs b" if "b \<in> set (butlast bs) - set fl" for b
    by (rule free_sizes [OF _ d(5) _ sub(2) nf f]) (use c d(7) sub that in_set_butlastD [of b bs] in \<open>auto simp: blocks_ok_def\<close>)
  show ?thesis
  proof (rule resizedI [OF d(1,2) c(1)])
    show "wrote (insert (free_header h) (set bs) \<union> insert (free_header h) (set ?cs)) m m'"
      by (rule wrote_mono [OF w [unfolded cs]]) blast
  qed (use p sub bz F in_set_butlastD [of _ bs] in auto)
qed

lemma grow_resized:
  assumes k: "heap_ok h hp m bs fl" and p: "p \<in> set (butlast bs)" "p \<notin> set fl" and sz: "8 dvd unat sz" "bsize bs p < unat sz"
    and g: "aheap_grow p (unat sz) (bs, fl) = Some (bs', fl')"
    and k': "heap_ok h hp' m' bs' fl'" "same_pool hp hp'"
    and w: "wrote (insert (free_header h) (set bs) \<union> insert (free_header h) (set bs')) m m'"
  shows "resized bs fl m p (unat sz) bs' fl' m' p"
proof -
  note d = heap_okD [OF k]
  obtain xs x ys where b: "bs = xs @ p # x # ys" "p \<notin> set xs" "bsize bs p = unat x - unat p - 24"
    by (rule bsize_pos_split [OF p(1) spaced_distinct [OF d(4)]])
  note ds = spaced_distinct [OF d(4)]
  have x: "x \<in> set fl" "unat sz + 16 < bsize bs p + bsize bs x"
    using g behind_split [OF b(2), of x ys] by (auto simp: aheap_grow_def b(1) split: if_splits)
  obtain y zs where ys: "ys = y # zs" using x(1) d(7) ds b(1) by (cases ys) (auto simp: butlast_append)
  let ?n = "p + of_nat (unat sz + 24)"
  have bs': "bs' = xs @ p # ?n # y # zs" "fl' = ?n # remove1 x fl"
    using g behind_split [OF b(2), of x ys] x ds ins_after_split [OF b(2)]
    by (auto simp: aheap_grow_def b(1) ys Let_def remove1_append split: if_splits simp del: of_nat_add)
  have sp: "unat p + 24 \<le> unat x" "unat x + 24 \<le> unat y" using d(4) by (auto simp: b(1) ys sorted_wrt_append)
  have bx: "bsize bs x = unat y - unat x - 24" using bsize_new(2) [of xs p x y zs] ds by (simp add: b(1) ys)
  have un: "unat (of_nat (unat sz + 24) :: u32) = unat sz + 24" "unat ?n = unat p + unat sz + 24"
    using x(2) b(3) bx sp unat_u32 [of y] by (simp_all add: unat_word_ariths unat_of_nat del: of_nat_add)
  have bo: "blocks_ok hp bs'" using heap_okD(2) [OF k'(1)] k'(2) by (simp add: blocks_ok_def same_pool_def)
  note ds' = blocks_distinct [OF bo [unfolded bs']]
  have nb: "?n \<notin> set bs"
  proof -
    have "unat x < unat ?n" unfolding un(2) using sz(2) b(3) sp by linarith
    then have "?n \<noteq> x" by fastforce
    then show ?thesis using ds' by (auto simp: b(1) ys)
  qed
  have e: "bsize bs' b = bsize bs b" if "b \<in> set bs" "b \<noteq> p" "b \<noteq> x" for b
    using bsize_mid [OF _ that(2), of ?n xs y zs] bsize_mid [OF that(3,2), of xs y zs] ds ds' nb that(1)
    unfolding bs' b(1) ys by metis
  have z: "bsize bs' p = unat sz" using bsize_new(1) [OF ds'] un(2) by (simp add: bs'(1))
  have sub: "b \<in> set (butlast bs')" if "b \<in> set (butlast bs)" "b \<noteq> x" for b
    using that by (auto simp: bs'(1) b(1) ys butlast_append split: if_splits)
  show ?thesis
  proof (rule resizedI [OF d(1,2) bo w])
    fix b assume "b \<in> set (butlast bs) - set fl - {p}"
    then show "b \<in> set (butlast bs') \<and> bsize bs' b = bsize bs b \<and> bsize bs' b = bsize bs b"
      using sub [of b] e [of b] x(1) in_set_butlastD [of b bs] by auto
  qed (use p sub [of p] z sz x(1) nb in_set_butlastD [of p bs] in \<open>auto simp: bs'(2) dest: set_remove1_subset [THEN subsetD]\<close>)
qed

section \<open>Reallocation\<close>

text \<open>Shrinking a block is skipped when the rest is too small for a block; a block that cannot grow in
  place moves.\<close>

definition aheap_realloc :: "u32 \<Rightarrow> nat \<Rightarrow> aheap \<Rightarrow> u32 option \<times> aheap" where
  "aheap_realloc p n A =
     (if bsize (fst A) p < n then
        case aheap_grow p n A of
          Some A' \<Rightarrow> (Some p, A')
        | None \<Rightarrow> (case aheap_request n A of
            (None, _) \<Rightarrow> (None, A)
          | (Some q, A') \<Rightarrow> (Some q, aheap_free p A'))
      else if bsize (fst A) p \<le> n + 40 then (Some p, A)
      else (Some p, aheap_shrink p n A))"

definition realloc_post :: "u32 \<Rightarrow> world \<Rightarrow> u32 list \<Rightarrow> u32 list \<Rightarrow> u32 \<Rightarrow> nat \<Rightarrow> u32 outcome \<times> world \<Rightarrow> bool" where
  "realloc_post h w bs fl p n = (\<lambda>(out, w'). case aheap_realloc p n (bs, fl) of (q, bs', fl') \<Rightarrow>
     kern w' = kern w \<and> heap_ok h (heaps w' h) (wmem w') bs' fl' \<and>
     (case q of
        None \<Rightarrow> out = Returned 0 \<and> wmem w' = wmem w \<and> bs' = bs \<and> fl' = fl
      | Some p' \<Rightarrow> out = Returned (p' + 24) \<and> resized bs fl (wmem w) p n bs' fl' (wmem w') p'))"

lemma locked_simps:
  "mh_locked (heaps w h) \<Longrightarrow> memheap_take h w = Some (Returned RT_EOK, w)"
  "mh_locked hp \<Longrightarrow> memheap_give h (upd_heap h hp m w) = Some (upd_heap h hp m w)"
  by (simp_all add: memheap_take_def memheap_give_def upd_heap_def)

lemma round_round: "sz \<le> 0xfffffff8 \<Longrightarrow> memheap_round (memheap_round sz) = memheap_round sz"
proof -
  assume sz: "sz \<le> 0xfffffff8"
  note r = round_ge [of sz]
  have "unat (memheap_round sz) \<le> 0xfffffff8" using round_unat [OF sz] sz by (auto simp: word_le_nat_alt)
  then have le: "memheap_round sz \<le> 0xfffffff8" by (simp add: word_le_nat_alt)
  have "(unat (memheap_round sz) + 7) div 8 * 8 = unat (memheap_round sz)" using r(1) by presburger
  then have "unat (memheap_round (memheap_round sz)) = unat (memheap_round sz)" using round_unat [OF le] r(2) by simp
  then show ?thesis by (simp add: word_unat_eq_iff)
qed

lemma shrink_taken_wp:
  assumes k: "heap_ok h (heaps w h) (wmem w) bs fl" and l: "mh_locked (heaps w h)" and p: "p \<in> set (butlast bs)" "p \<notin> set fl"
    and sz: "8 dvd unat sz" "16 \<le> unat sz" "unat sz + 40 < bsize bs p"
  shows "wp (memheap_shrink_taken h (p + 24) sz RT_EOK w) (realloc_post h w bs fl p (unat sz))"
proof -
  obtain bs' fl' where s: "aheap_shrink p (unat sz) (bs, fl) = (bs', fl')" by (metis surj_pair)
  have r: "aheap_realloc p (unat sz) (bs, fl) = (Some p, bs', fl')" using sz(3) s by (simp add: aheap_realloc_def)
  have "wp (memheap_shrink_body h p sz (heaps w h) (wmem w)) (\<lambda>(hp, m). wp (memheap_give h (upd_heap h hp m w))
     (\<lambda>w'. realloc_post h w bs fl p (unat sz) (Returned (p + 24), w')))"
  proof (rule wp_mono [OF shrink_body_wp [OF k p sz]], goal_cases)
    case (1 x)
    obtain hp' m' where x: "x = (hp', m')" by (cases x)
    have "resized bs fl (wmem w) p (unat sz) bs' fl' m' p"
      by (rule shrink_resized [OF k p sz s]) (use 1 x in simp)
    then show ?case using 1 l by (auto simp: x s r memheap_give_def same_pool_def realloc_post_def upd_heap_def)
  qed
  then show ?thesis by (simp add: memheap_shrink_taken_def case_prod_unfold)
qed

lemma move_wp:
  assumes k: "heap_ok h (heaps w h) (wmem w) bs fl" and l: "mh_locked (heaps w h)"
    and ty: "rt_object_get_type (OMemHeap h) (kern w) = RT_Object_Class_MemHeap"
    and p: "p \<in> set (butlast bs)" "p \<notin> set fl" and sz: "unat old = bsize bs p" "unat old < unat sz" "memheap_round sz = sz"
    and g: "aheap_grow p (unat sz) (bs, fl) = None"
  shows "wp (rt_memheap_alloc h sz w) (\<lambda>(out, w1). wp (case out of Waiting \<Rightarrow> Some (Waiting, w1)
     | Returned q \<Rightarrow> memheap_realloc_move (p + 24) old sz q w1) (realloc_post h w bs fl p (unat sz)))"
proof -
  have f: "lock_free 0 h w" using l by (simp add: lock_free_def)
  note d = heap_okD [OF k]
  show ?thesis
  proof (rule wp_mono [OF memheap_alloc_wp [OF k ty f, of sz]], goal_cases)
    case (1 r)
    obtain out w1 where r: "r = (out, w1)" by (cases r)
    obtain q bs1 fl1 where q: "aheap_request (unat sz) (bs, fl) = (q, bs1, fl1)" by (metis prod_cases3)
    note A = 1 [unfolded r sz(3) q prod.case]
    have w1: "mh_locked (heaps w1 h)" "kern w1 = kern w" using A l by (simp_all add: same_pool_def lock_kept_def)
    show ?case
    proof (cases q)
      case None
      have "aheap_realloc p (unat sz) (bs, fl) = (None, bs, fl)" using sz g q None by (simp add: aheap_realloc_def)
      then show ?thesis using A None w1 k by (simp add: r memheap_realloc_move_def realloc_post_def)
    next
      case (Some c)
      note z = alloc_size [OF q [unfolded Some]]
      have cv: "aheap_carve c (unat sz) (bs, fl) = (bs1, fl1)" using z by simp
      note cs = carve_sizes [OF k conjunct1 [OF z] cv] 
      have 8: "unat sz + 40 \<le> bsize bs c \<longrightarrow> 8 dvd unat sz" using round_ge(1) [of sz] sz(3) by simp
      have c1: "c \<in> set (butlast bs1) - set fl1" "unat sz \<le> bsize bs1 c" using cs(1,2) [OF 8] z by blast+
      have old: "b \<in> set (butlast bs1) - set fl1 \<and> bsize bs1 b = bsize bs b" if "b \<in> set (butlast bs) - set fl" for b
        using cs(3) [OF 8 _ that] z by blast
      note p1 = old [of p]
      have pc: "p \<noteq> c" using z p by auto
      have k1: "heap_ok h (heaps w1 h) (wmem w1) bs1 fl1" using A by simp
      have nz: "c + 24 \<noteq> 0" using data_no_header(2) [OF heap_okD(1,2) [OF k1], of c 0] c1 round_ge(2) [of sz] sz(3) by (auto simp: word_unat_eq_iff)
      have D1: "data_kept bs (wmem w) bs1 (wmem w1) (set (butlast bs) - set fl)"
        by (rule alloc_data_kept [OF k k1]) (use A old in auto)
      have D1p: "words_at (bsize bs p) (wmem w1) p = words_at (bsize bs p) (wmem w) p"
        using D1 [unfolded data_kept_def block_data_words, rule_format, of p] p p1 by simp
      obtain bs2 fl2 where fr: "aheap_free p (bs1, fl1) = (bs2, fl2)" by (metis surj_pair)
      have R: "aheap_realloc p (unat sz) (bs, fl) = (Some c, bs2, fl2)" using sz g q Some fr by (simp add: aheap_realloc_def)
      have p16: "16 \<le> bsize bs1 p" using heap_okD(3) [OF k1] p1 p by (auto simp: frees_ok_def)
      have "wp (rt_memcpy (c + 24) (p + 24) old (wmem w1)) (\<lambda>m. wp (rt_memheap_free (p + 24) (w1\<lparr>wmem := m\<rparr>)) (\<lambda>(out, w2).
         out = Returned () \<and> realloc_post h w bs fl p (unat sz) (Returned (c + 24), w2)))"
      proof (rule wp_mono [OF copy_block_wp [OF k1 _ _ pc]], goal_cases)
        case (6 m)
        let ?w = "w1\<lparr>wmem := m\<rparr>"
        note K = 6 [THEN conjunct1]
        have "wp (rt_memheap_free (p + 24) ?w) (\<lambda>(out, w'). out = Returned () \<and> freed h (heaps ?w h) (wmem ?w) bs1 fl1 p (heaps w' h, wmem w') \<and>
           (\<forall>g. g \<noteq> h \<longrightarrow> heaps w' g = heaps ?w g) \<and> lock_kept 0 h ?w w')"
          by (rule memheap_free_wp) (use K p1 p w1 ty in \<open>auto simp: lock_free_def\<close>)
        then show ?case
        proof (rule wp_mono, goal_cases)
          case (1 x)
          obtain o2 w2 where x: "x = (o2, w2)" by (cases x)
          note B = 1 [unfolded x prod.case freed_def fr, simplified]
          have k2: "heap_ok h (heaps w2 h) (wmem w2) bs2 fl2" using B by simp
          have S2: "b \<in> set (butlast bs2) - set fl2 \<and> bsize bs2 b = bsize bs1 b" if "b \<in> set (butlast bs1) - set fl1" "b \<noteq> p" for b
            by (rule free_sizes [OF heap_okD(4,5,7) [OF k1] _ _ fr that]) (use p1 p in auto)
          have W: "words_at n (wmem w2) b = words_at n m b" if "b \<in> set (butlast bs1)" "n \<le> bsize bs1 b" for b n
            by (rule words_kept [OF heap_okD(1,2,2) [OF K]]) (use B that in auto)
          have "words_at (min (bsize bs p) (unat sz)) (wmem w2) c = words_at (min (bsize bs p) (unat sz)) (wmem w) p"
            using W [of c "bsize bs p"] 6 c1 p1 p sz D1p by (simp add: min_def)
          moreover have "data_kept bs (wmem w) bs2 (wmem w2) (set (butlast bs) - set fl - {p})"
            unfolding data_kept_def block_data_words
          proof
            fix b assume b: "b \<in> set (butlast bs) - set fl - {p}"
            have bc: "b \<noteq> c" using b z by auto
            have "words_at (bsize bs2 b) (wmem w2) b = words_at (bsize bs1 b) m b" using W [of b "bsize bs1 b"] S2 [of b] old [of b] b by auto
            also have "\<dots> = words_at (bsize bs1 b) (wmem w1) b" using 6 [unfolded block_data_words] b bc old [of b] by blast
            also have "\<dots> = words_at (bsize bs b) (wmem w) b" using D1 b by (simp add: data_kept_def block_data_words)
            finally show "words_at (bsize bs2 b) (wmem w2) b = words_at (bsize bs b) (wmem w) b" .
          qed
          ultimately have "resized bs fl (wmem w) p (unat sz) bs2 fl2 (wmem w2) c" using S2 [of c] c1 pc by (simp add: resized_def)
          then show ?case using B w1 k2 by (simp add: x R realloc_post_def lock_kept_def)
        qed
      qed (use c1 p1 p p16 sz in auto)
      then show ?thesis
        using A Some nz sz(2) by (auto simp: r memheap_realloc_move_def word_less_nat_alt case_prod_unfold elim!: wp_mono)
    qed
  qed
qed

lemma grow_taken_wp:
  assumes k: "heap_ok h (heaps w h) (wmem w) bs fl" and l: "mh_locked (heaps w h)"
    and ty: "rt_object_get_type (OMemHeap h) (kern w) = RT_Object_Class_MemHeap"
    and p: "p \<in> set (butlast bs)" "p \<notin> set fl"
    and sz: "unat old = bsize bs p" "unat old < unat sz" "memheap_round sz = sz" "unat sz + 16 < 2 ^ 32"
  shows "wp (memheap_grow_taken h (p + 24) sz old RT_EOK w) (realloc_post h w bs fl p (unat sz))"
proof -
  have 8: "8 dvd unat sz" using round_ge(1) [of sz] sz(3) by simp
  have "wp (memheap_grow_body h p sz old (heaps w h) (wmem w)) (\<lambda>(grown, hp, m). wp (memheap_give h (upd_heap h hp m w) \<bind>
     (\<lambda>w. if grown then Some (Returned (p + 24), w) else rt_memheap_alloc h sz w \<bind> (\<lambda>(out, w). case out of Waiting \<Rightarrow> Some (Waiting, w)
       | Returned q \<Rightarrow> memheap_realloc_move (p + 24) old sz q w))) (realloc_post h w bs fl p (unat sz)))"
  proof (rule wp_mono [OF grow_body_wp [OF k p 8 sz(1,2,4)]], goal_cases)
    case (1 x)
    obtain g hp' m' where x: "x = (g, hp', m')" by (cases x)
    note A = 1 [unfolded x prod.case]
    have lk: "mh_locked hp'" using A l by (simp add: same_pool_def)
    show ?case
    proof (cases "aheap_grow p (unat sz) (bs, fl)")
      case None
      have "upd_heap h (heaps w h) (wmem w) w = w" by (simp add: upd_heap_def)
      then show ?thesis
        using A None lk move_wp [OF k l ty p sz(1-3) None] locked_simps(2) [of "heaps w h" h "wmem w" w]
        by (simp add: x case_prod_unfold)
    next
      case (Some A')
      obtain bs' fl' where A': "A' = (bs', fl')" by (cases A')
      have k': "heap_ok h hp' m' bs' fl'" "same_pool (heaps w h) hp'" using A Some A' by simp_all
      have "resized bs fl (wmem w) p (unat sz) bs' fl' m' p"
        by (rule grow_resized [OF k p 8 _ Some [unfolded A'] k']) (use A Some A' sz in simp_all)
      then show ?thesis
        using A Some A' lk sz k' locked_simps(2) [OF lk, of h m' w]
        by (simp add: x realloc_post_def aheap_realloc_def) (simp add: upd_heap_def)
    qed
  qed
  then show ?thesis by (simp add: memheap_grow_taken_def case_prod_unfold)
qed

text \<open>C18. Reallocation of a block of a heap that its user has locked refines the abstract reallocation: the block keeps its place
  when its size is right, is cut and the rest released when it is too large, takes bytes from a large enough free block behind
  it, and otherwise moves to a new block. The result has at least the requested size and starts with the old data; the data of all other
  blocks is unchanged and the invariant holds again. If there is no memory, the null pointer is
  returned and memory is unchanged, the block included.\<close>

theorem rt_memheap_realloc_refines:
  assumes k: "heap_ok h (heaps w h) (wmem w) bs fl" and l: "mh_locked (heaps w h)"
    and ty: "rt_object_get_type (OMemHeap h) (kern w) = RT_Object_Class_MemHeap"
    and p: "p \<in> set (butlast bs)" "p \<notin> set fl" and req: "0 < req" "req \<le> 0xffffffe8"
  shows "wp (rt_memheap_realloc h (p + 24) req w) (\<lambda>(out, w').
     case aheap_realloc p (unat (memheap_round req)) (bs, fl) of (q, bs', fl') \<Rightarrow>
       kern w' = kern w \<and> heap_ok h (heaps w' h) (wmem w') bs' fl' \<and>
       (case q of
          None \<Rightarrow> out = Returned 0 \<and> wmem w' = wmem w \<and> bs' = bs \<and> fl' = fl
        | Some p' \<Rightarrow> out = Returned (p' + 24) \<and> unat req \<le> bsize bs' p' \<and>
            resized bs fl (wmem w) p (unat (memheap_round req)) bs' fl' (wmem w') p'))"
proof -
  let ?sz = "memheap_round req"
  note d = heap_okD [OF k]
  have h: "h \<noteq> 0" using d(1) by (simp add: pool_ok_def)
  obtain S where a: "at_items (wmem w) (insert (free_header h) (set bs)) S (wmem w)" and i: "items_ok h S bs fl"
    by (rule heap_ok_at [OF k])
  have r8: "req \<le> 0xfffffff8" using req(2) by (simp add: word_le_nat_alt)
  have rr: "memheap_round ?sz = ?sz" by (rule round_round [OF r8])
  have ru: "unat ?sz = max 16 ((unat req + 7) div 8 * 8)" by (rule round_unat [OF r8])
  have le: "unat ?sz + 16 < 2 ^ 32" "unat req \<le> unat ?sz" using ru req(2) by (auto simp: word_le_nat_alt)
  have p16: "16 \<le> bsize bs p" using d(3) p by (auto simp: frees_ok_def)
  have p0: "p + 24 \<noteq> 0" using data_no_header(2) [OF d(1,2) p(1), of 0] p16 by (auto simp: word_unat_eq_iff)
  have pool: "bsize bs p + 48 \<le> unat (mh_pool_size (heaps w h))" using avail_le_pool [OF d(2), of "[p]"] p(1) by simp
  have body: "wp (if old < ?sz then memheap_grow_taken h (p + 24) ?sz old 0 w
      else if old \<le> ?sz + 24 + 16 then Some (Returned (p + 24), w) else memheap_shrink_taken h (p + 24) ?sz 0 w)
      (realloc_post h w bs fl p (unat ?sz))" if z: "unat old = bsize bs p" for old
  proof -
    consider (g) "old < ?sz" | (n) "\<not> old < ?sz" "old \<le> ?sz + 24 + 16" | (s) "\<not> old < ?sz" "\<not> old \<le> ?sz + 24 + 16" by blast
    then show ?thesis
    proof cases
      case g
      then show ?thesis using grow_taken_wp [OF k l ty p z _ rr le(1)] by (simp add: word_less_nat_alt)
    next
      case n
      have "unat (?sz + 24 + 16) = unat ?sz + 40" using n(1) z pool unat_u32 [of "mh_pool_size (heaps w h)"]
        by (simp add: word_less_nat_alt unat_word_ariths)
      then have "aheap_realloc p (unat ?sz) (bs, fl) = (Some p, bs, fl)" "unat ?sz \<le> bsize bs p"
        using n z by (simp_all add: aheap_realloc_def word_less_nat_alt word_le_nat_alt)
      then show ?thesis using n k p by (auto simp: realloc_post_def resized_def data_kept_def)
    next
      case s
      have "unat (?sz + 24 + 16) = unat ?sz + 40" using s(1) z pool unat_u32 [of "mh_pool_size (heaps w h)"]
        by (simp add: word_less_nat_alt unat_word_ariths)
      then have "unat ?sz + 40 < bsize bs p" using s z by (simp add: word_le_nat_alt)
      then show ?thesis using s shrink_taken_wp [OF k l p round_ge] by simp
    qed
  qed
  have "wp (memitem_size p (wmem w)) (\<lambda>old. wp (if old < ?sz then memheap_grow_taken h (p + 24) ?sz old 0 w
      else if old \<le> ?sz + 24 + 16 then Some (Returned (p + 24), w) else memheap_shrink_taken h (p + 24) ?sz 0 w)
      (realloc_post h w bs fl p (unat ?sz)))"
    by (rule memitem_size_wp [OF a _ items_okD(1) [OF i] d(4) p(1)]) (blast, erule body)
  then have "wp (rt_memheap_realloc h (p + 24) req w) (realloc_post h w bs fl p (unat ?sz))"
    unfolding rt_memheap_realloc_def using h ty req(1) p0 by (simp add: Let_def locked_simps(1) [OF l] word_greater_zero_iff cong: if_cong)
  then show ?thesis
    by (rule wp_mono) (use le(2) in \<open>auto simp: realloc_post_def resized_def split: option.splits\<close>)
qed

theorem rt_memheap_realloc_refines_witness:
  "wp (rt_memheap_realloc 0x100 0x1018 200 sample_in_use) (\<lambda>(out, w'). out = Returned 0x1018 \<and>
     heap_ok 0x100 (heaps w' 0x100) (wmem w') [0x1000, 0x10e0, 0x1fe8] [0x10e0])"
proof -
  have "memheap_round 200 = 200" by (simp add: memheap_round_def rt_align_def)
  then have "aheap_realloc 0x1000 (unat (memheap_round 200)) ([0x1000, 0x1080, 0x1fe8], [0x1080]) =
     (Some 0x1000, [0x1000, 0x10e0, 0x1fe8], [0x10e0])"
    by (simp add: aheap_realloc_def aheap_grow_def)
  then show ?thesis
    using rt_memheap_realloc_refines [OF sample_in_use_ok(1) _ sample_in_use_ok(3), where p = "0x1000" and req = 200]
      sample_in_use_ok(4) by (auto elim!: wp_mono)
qed

end
