(* ===== verification/System_Heap.thy ===== *)
theory System_Heap
  imports MemHeap_Resize
begin

text \<open>
  The system heap: \<^verbatim>\<open>rt_malloc\<close> and its relatives of \<^verbatim>\<open>src/kservice.c\<close> and the port functions
  at the end of \<^verbatim>\<open>src/memheap.c\<close>. The heap is the static memory heap \<^verbatim>\<open>system_heap\<close>, whose address \<open>sh\<close>
  is chosen by the linker and therefore an argument of the operations; a request that it cannot serve goes to the other
  registered memory heaps (\<^verbatim>\<open>RT_USING_MEMHEAP_AUTO_BINDING\<close>). Access is serialised by the static
  mutex \<^verbatim>\<open>_lock\<close>, so the heap itself is marked as locked. Hooks are not registered.
\<close>

section \<open>Filling memory\<close>

text \<open>\<^verbatim>\<open>rt_memset\<close>: the loops that store long words (the first of them four at a time), and the loop that
  stores bytes.\<close>

fun set_longs :: "nat \<Rightarrow> u32 \<Rightarrow> u32 \<Rightarrow> memory \<Rightarrow> memory option" where
  "set_longs 0 a buffer m = Some m"
| "set_longs (Suc n) a buffer m = do {
     m \<leftarrow> st a buffer m;
     set_longs n (a + 4) buffer m
   }"

fun set_bytes :: "nat \<Rightarrow> u32 \<Rightarrow> u8 \<Rightarrow> memory \<Rightarrow> memory option" where
  "set_bytes 0 a d m = Some m"
| "set_bytes (Suc n) a d m = do {
     m \<leftarrow> st_byte a d m;
     set_bytes n (a + 1) d m
   }"

definition rt_memset :: "u32 \<Rightarrow> u8 \<Rightarrow> u32 \<Rightarrow> memory \<Rightarrow> memory option" where
  "rt_memset s d count m =
     (if \<not> count < 4 \<and> s AND 3 = 0 then do {
        let n = unat count div 4;
        m \<leftarrow> set_longs n s (ucast d * 0x01010101) m;
        set_bytes (unat count mod 4) (s + 4 * of_nat n) d m
      } else set_bytes (unat count) s d m)"

section \<open>The lock\<close>

text \<open>The static mutex \<^verbatim>\<open>_lock\<close>.\<close>

abbreviation (input) heap_mutex :: mid where "heap_mutex \<equiv> 0"

definition heap_lock_init :: "kernel \<Rightarrow> kernel option" where
  "heap_lock_init k = map_option snd (rt_mutex_init heap_mutex ''heap'' RT_IPC_FLAG_PRIO k)"

definition heap_lock :: "world \<Rightarrow> (rt_err_t outcome \<times> world) option" where
  "heap_lock w =
     (if rt_current_thread (kern w) \<noteq> None then do {
        (out, k) \<leftarrow> rt_mutex_take heap_mutex RT_WAITING_FOREVER (kern w);
        Some (out, w\<lparr>kern := k\<rparr>)
      } else Some (Returned RT_EOK, w))"

definition heap_unlock :: "rt_err_t \<Rightarrow> world \<Rightarrow> world option" where
  "heap_unlock level w = do {
     rt_assert (level = RT_EOK);
     if rt_current_thread (kern w) \<noteq> None then do {
       (_, k) \<leftarrow> rt_mutex_release heap_mutex (kern w);
       Some (w\<lparr>kern := k\<rparr>)
     } else Some w
   }"

section \<open>The port functions\<close>

text \<open>The loop of \<^verbatim>\<open>_memheap_alloc\<close> over the registered memory heaps.\<close>

fun memheap_alloc_others :: "objref list \<Rightarrow> u32 \<Rightarrow> u32 \<Rightarrow> world \<Rightarrow> (u32 outcome \<times> world) option" where
  "memheap_alloc_others (OMemHeap h # rest) sh nbytes w =
     (if h = sh then memheap_alloc_others rest sh nbytes w
      else do {
        (out, w) \<leftarrow> rt_memheap_alloc h nbytes w;
        case out of
          Waiting \<Rightarrow> Some (Waiting, w)
        | Returned ptr \<Rightarrow> if ptr \<noteq> 0 then Some (Returned ptr, w) else memheap_alloc_others rest sh nbytes w
      })"
| "memheap_alloc_others [] sh nbytes w = Some (Returned 0, w)"
| "memheap_alloc_others _ sh nbytes w = None"

definition memheap_alloc :: "u32 \<Rightarrow> u32 \<Rightarrow> world \<Rightarrow> (u32 outcome \<times> world) option" where
  "memheap_alloc sh nbytes w = do {
     (out, w) \<leftarrow> rt_memheap_alloc sh nbytes w;
     case out of
       Waiting \<Rightarrow> Some (Waiting, w)
     | Returned ptr \<Rightarrow>
         if ptr = 0 then memheap_alloc_others (object_list (kern w) RT_Object_Class_MemHeap) sh nbytes w
         else Some (Returned ptr, w)
   }"

definition memheap_free :: "u32 \<Rightarrow> world \<Rightarrow> (unit outcome \<times> world) option" where
  "memheap_free rmem w = rt_memheap_free rmem w"

text \<open>The part of \<^verbatim>\<open>_memheap_realloc\<close> that moves the block to another heap.\<close>

definition memheap_realloc_other :: "u32 \<Rightarrow> u32 \<Rightarrow> u32 \<Rightarrow> world \<Rightarrow> (u32 outcome \<times> world) option" where
  "memheap_realloc_other sh rmem newsize w = do {
     (out, w) \<leftarrow> memheap_alloc sh newsize w;
     case out of
       Waiting \<Rightarrow> Some (Waiting, w)
     | Returned new_ptr \<Rightarrow>
         if new_ptr \<noteq> 0 \<and> rmem \<noteq> 0 then do {
           oldsize \<leftarrow> memitem_size (rmem - RT_MEMHEAP_SIZE) (wmem w);
           m \<leftarrow> rt_memcpy new_ptr rmem (if newsize > oldsize then oldsize else newsize) (wmem w);
           (out, w) \<leftarrow> memheap_free rmem (w\<lparr>wmem := m\<rparr>);
           case out of
             Waiting \<Rightarrow> Some (Waiting, w)
           | Returned _ \<Rightarrow> Some (Returned new_ptr, w)
         } else Some (Returned new_ptr, w)
   }"

definition memheap_realloc :: "u32 \<Rightarrow> u32 \<Rightarrow> u32 \<Rightarrow> world \<Rightarrow> (u32 outcome \<times> world) option" where
  "memheap_realloc sh rmem newsize w =
     (if rmem = 0 then memheap_alloc sh newsize w
      else if newsize = 0 then do {
        (out, w) \<leftarrow> memheap_free rmem w;
        case out of
          Waiting \<Rightarrow> Some (Waiting, w)
        | Returned _ \<Rightarrow> Some (Returned 0, w)
      } else do {
        h \<leftarrow> i_pool_ptr (rmem - RT_MEMHEAP_SIZE) (wmem w);
        (out, w) \<leftarrow> rt_memheap_realloc h rmem newsize w;
        case out of
          Waiting \<Rightarrow> Some (Waiting, w)
        | Returned new_ptr \<Rightarrow>
            if new_ptr = 0 then memheap_realloc_other sh rmem newsize w else Some (Returned new_ptr, w)
      })"

section \<open>The interface of the system heap\<close>

definition rt_system_heap_init :: "u32 \<Rightarrow> u32 \<Rightarrow> u32 \<Rightarrow> world \<Rightarrow> world option" where
  "rt_system_heap_init sh begin_addr end_addr w = do {
     let begin_align = rt_align begin_addr;
     let end_align = rt_align_down end_addr;
     rt_assert (end_align > begin_align);
     (_, w) \<leftarrow> rt_memheap_init sh ''heap'' begin_align (end_align - begin_align) w;
     let w = w\<lparr>heaps := (heaps w)(sh := (heaps w sh)\<lparr>mh_locked := True\<rparr>)\<rparr>;
     k \<leftarrow> heap_lock_init (kern w);
     Some (w\<lparr>kern := k\<rparr>)
   }"

text \<open>Every operation takes the lock, works on the heap and gives the lock back; a thread that had to
  wait for the lock continues with the part named \<open>\<dots>_locked\<close>.\<close>

definition with_unlock :: "rt_err_t \<Rightarrow> ('a outcome \<times> world) option \<Rightarrow> ('a outcome \<times> world) option" where
  "with_unlock level body = do {
     (out, w) \<leftarrow> body;
     case out of
       Waiting \<Rightarrow> Some (Waiting, w)
     | Returned r \<Rightarrow> do {
         w \<leftarrow> heap_unlock level w;
         Some (Returned r, w)
       }
   }"

definition with_lock :: "(world \<Rightarrow> ('a outcome \<times> world) option) \<Rightarrow> world \<Rightarrow> ('a outcome \<times> world) option" where
  "with_lock body w = do {
     (out, w) \<leftarrow> heap_lock w;
     case out of
       Waiting \<Rightarrow> Some (Waiting, w)
     | Returned level \<Rightarrow> with_unlock level (body w)
   }"

definition rt_malloc :: "u32 \<Rightarrow> u32 \<Rightarrow> world \<Rightarrow> (u32 outcome \<times> world) option" where
  "rt_malloc sh nbytes w = with_lock (memheap_alloc sh nbytes) w"

definition rt_realloc :: "u32 \<Rightarrow> u32 \<Rightarrow> u32 \<Rightarrow> world \<Rightarrow> (u32 outcome \<times> world) option" where
  "rt_realloc sh ptr newsize w = with_lock (memheap_realloc sh ptr newsize) w"

definition rt_free :: "u32 \<Rightarrow> world \<Rightarrow> (unit outcome \<times> world) option" where
  "rt_free ptr w = (if ptr = 0 then Some (Returned (), w) else with_lock (memheap_free ptr) w)"

definition rt_memory_info :: "u32 \<Rightarrow> world \<Rightarrow> ((u32 \<times> u32 \<times> u32) option outcome \<times> world) option" where
  "rt_memory_info sh w = with_lock (rt_memheap_info sh) w"

text \<open>The rest of \<^verbatim>\<open>rt_calloc\<close> and \<^verbatim>\<open>rt_malloc_align\<close> once \<^verbatim>\<open>rt_malloc\<close> has returned.\<close>

definition calloc_tail :: "u32 \<Rightarrow> u32 \<Rightarrow> world \<Rightarrow> (u32 outcome \<times> world) option" where
  "calloc_tail nbytes p w =
     (if p \<noteq> 0 then do {
        m \<leftarrow> rt_memset p 0 nbytes (wmem w);
        Some (Returned p, w\<lparr>wmem := m\<rparr>)
      } else Some (Returned p, w))"

definition rt_calloc :: "u32 \<Rightarrow> u32 \<Rightarrow> u32 \<Rightarrow> world \<Rightarrow> (u32 outcome \<times> world) option" where
  "rt_calloc sh count nbytes w = do {
     (out, w) \<leftarrow> rt_malloc sh (count * nbytes) w;
     case out of
       Waiting \<Rightarrow> Some (Waiting, w)
     | Returned p \<Rightarrow> calloc_tail (count * nbytes) p w
   }"

definition malloc_align_tail :: "u32 \<Rightarrow> u32 \<Rightarrow> world \<Rightarrow> (u32 outcome \<times> world) option" where
  "malloc_align_tail align ptr w =
     (if ptr \<noteq> 0 then do {
        let align_ptr = (if ptr AND (align - 1) = 0 then ptr + align else (ptr + (align - 1)) AND NOT (align - 1));
        m \<leftarrow> st (align_ptr - 4) ptr (wmem w);
        Some (Returned align_ptr, w\<lparr>wmem := m\<rparr>)
      } else Some (Returned ptr, w))"

definition rt_malloc_align :: "u32 \<Rightarrow> u32 \<Rightarrow> u32 \<Rightarrow> world \<Rightarrow> (u32 outcome \<times> world) option" where
  "rt_malloc_align sh nbytes align w = do {
     let align = (align + 3) AND NOT 3;
     let align_size = ((nbytes + 3) AND NOT 3) + align;
     (out, w) \<leftarrow> rt_malloc sh align_size w;
     case out of
       Waiting \<Rightarrow> Some (Waiting, w)
     | Returned ptr \<Rightarrow> malloc_align_tail align ptr w
   }"

definition rt_free_align :: "u32 \<Rightarrow> world \<Rightarrow> (unit outcome \<times> world) option" where
  "rt_free_align ptr w =
     (if ptr = 0 then Some (Returned (), w)
      else do {
        real_ptr \<leftarrow> ld (ptr - 4) (wmem w);
        rt_free real_ptr w
      })"

section \<open>A thread that is not preempted\<close>

text \<open>The running thread \<open>t\<close> keeps the processor when it leaves a critical section.\<close>

definition steady :: "tid \<Rightarrow> kernel \<Rightarrow> bool" where
  "steady t k \<longleftrightarrow> may_block t k \<and> chosen t k"

lemma steady_schedule_wp:
  assumes k: "kok n k" and s: "steady t k"
    and Q: "\<And>k'. kok n k' \<Longrightarrow> sched_only k k' \<Longrightarrow> steady t k' \<Longrightarrow> Q k'"
  shows "wp (rt_schedule k) Q"
proof -
  have m: "may_block t k" "chosen t k" and c: "rt_current_thread k = Some t" using s by (simp_all add: steady_def may_block_def)
  have "wp (rt_schedule k) (\<lambda>k'. chosen t k')"
    using kokD(1) [OF k] c
  proof (cases rule: schedule_runs)
    case (switch t1 p)
    then show ?thesis using m(2) by (auto simp: chosen_def)
  next
    case (stay t1 p)
    have r: "th_code k t = RT_THREAD_RUNNING" using m(1) by (simp add: may_block_def)
    have "keeps_cpu (upd_thread t (\<lambda>th. th\<lparr>th_stat := set_stat_code 3 (th_stat th)\<rparr>) (rt_sched_remove_thread t k)) t
        (th_prio k t')" if "th_code k t' = RT_THREAD_READY" for t'
      using that m(2) by (auto simp: chosen_def keeps_cpu_def upd_sel rt_sched_remove_thread_def tlist_remove_def Let_def)
    then show ?thesis
      using stay(7) r by (auto simp: chosen_def upd_sel rt_sched_remove_thread_def tlist_remove_def Let_def split: if_splits)
  qed (use m in simp)
  moreover have "wp (rt_schedule k) (\<lambda>k'. kok n k' \<and> sched_only k k' \<and> may_block t k')"
    by (rule chosen_schedule_wp [OF k m]) blast
  ultimately show ?thesis using Q by (auto simp: wp_def steady_def)
qed

lemma steady_exit_wp:
  assumes k: "kok (Suc n) k" and u: "rt_scheduler_lock_nest k = 0" and k2: "kok n k2" "rt_scheduler_lock_nest k2 = 1"
    and s: "steady t (k2\<lparr>rt_scheduler_lock_nest := 0\<rparr>)"
    and Q: "\<And>k'. kok (Suc n) k' \<Longrightarrow> sched_only (k2\<lparr>rt_scheduler_lock_nest := 0\<rparr>) k' \<Longrightarrow> steady t k' \<Longrightarrow> Q k'"
  shows "wp (rt_exit_critical k2) Q"
proof -
  have n: "Suc n < 0x8000" using k u by (simp add: kok_def nest_room_def)
  have "kok (Suc n) (k2\<lparr>rt_scheduler_lock_nest := 0\<rparr>)" using n by (intro kok_nest_update [OF k2(1)]) (simp_all add: k2)
  from steady_schedule_wp [OF this s Q] show ?thesis
    using s k2(2) by (simp add: rt_exit_critical_def Let_def steady_def may_block_def)
qed

text \<open>Changes of the state that are no matter of scheduling.\<close>

lemma steady_cong:
  assumes "rt_current_thread k' = rt_current_thread k" "\<And>t. th_stat (threads k' t) = th_stat (threads k t)"
    "\<And>t. th_prio k' t = th_prio k t" "rt_scheduler_lock_nest k' = rt_scheduler_lock_nest k"
    "rt_interrupt_nest k' = rt_interrupt_nest k" "tt_wf k' t = tt_wf k t"
  shows "steady t k' = steady t k"
  by (simp add: steady_def may_block_def chosen_def keeps_cpu_def rt_interrupt_get_nest_def assms)

section \<open>Taking and giving back the lock\<close>

definition lock_use :: "mid \<Rightarrow> nat \<Rightarrow> tid \<Rightarrow> kernel \<Rightarrow> bool" where
  "lock_use m n t k \<longleftrightarrow> kok (Suc n) k \<and> minv {} {} {} k \<and> steady t k \<and> th_init_priority (threads k t) < 32 \<and>
     rt_object_get_type (OMutex m) k = RT_Object_Class_Mutex \<and> ob_flag (objects k (OMutex m)) = RT_IPC_FLAG_PRIO \<and>
     mtx_ceiling_priority (mutexes k m) = 0xff"

text \<open>The mutex is free; the thread \<open>t\<close> holds it and nobody waits.\<close>

definition lock_idle :: "mid \<Rightarrow> nat \<Rightarrow> tid \<Rightarrow> kernel \<Rightarrow> bool" where
  "lock_idle m n t k \<longleftrightarrow> lock_use m n t k \<and> mtx_owner (mutexes k m) = None"

definition lock_busy :: "mid \<Rightarrow> nat \<Rightarrow> tid \<Rightarrow> kernel \<Rightarrow> bool" where
  "lock_busy m n t k \<longleftrightarrow> lock_use m n t k \<and> mtx_owner (mutexes k m) = Some t \<and> mtx_hold (mutexes k m) = 1 \<and>
     mtx_priority (mutexes k m) = 0xff \<and> tlists k (MutexL m) = []"

definition same_objects :: "kernel \<Rightarrow> kernel \<Rightarrow> bool" where
  "same_objects k k' \<longleftrightarrow> objects k' = objects k \<and> object_list k' = object_list k \<and> rt_current_thread k' = rt_current_thread k \<and>
     tlists k' DefunctL = tlists k DefunctL \<and>
     (\<forall>t. th_cleanup (threads k' t) = th_cleanup (threads k t) \<and> th_stack_addr (threads k' t) = th_stack_addr (threads k t))"

lemma sched_only_life:
  assumes "sched_only k k'"
  shows "tlists k' DefunctL = tlists k DefunctL" "th_cleanup (threads k' t) = th_cleanup (threads k t)"
    "th_stack_addr (threads k' t) = th_stack_addr (threads k t)"
proof -
  have e: "(threads k' t)\<lparr>th_stat := 0\<rparr> = (threads k t)\<lparr>th_stat := 0\<rparr>" using assms by (simp add: sched_only_def)
  show "th_cleanup (threads k' t) = th_cleanup (threads k t)" using arg_cong [OF e, of th_cleanup] by simp
  show "th_stack_addr (threads k' t) = th_stack_addr (threads k t)" using arg_cong [OF e, of th_stack_addr] by simp
  show "tlists k' DefunctL = tlists k DefunctL" by (rule sched_onlyD(3) [OF assms]) simp
qed

lemma steady_ctx:
  assumes "steady t k"
  shows "rt_current_thread k = Some t" "th_code k t = RT_THREAD_RUNNING" "rt_scheduler_lock_nest k = 0"
    "debug_scheduler_available k" "debug_in_thread_context k"
proof -
  have m: "may_block t k" using assms by (simp add: steady_def)
  then show "rt_current_thread k = Some t" "th_code k t = RT_THREAD_RUNNING" "rt_scheduler_lock_nest k = 0" by (simp_all add: may_block_def)
  show "debug_scheduler_available k" by (rule may_block_debug [OF m])
  then show "debug_in_thread_context k" by (simp add: debug_scheduler_available_def)
qed

lemma take_idle_wp:
  assumes i: "lock_idle m n t k" and Q: "\<And>k'. lock_busy m n t k' \<Longrightarrow> same_objects k k' \<Longrightarrow> Q (Returned RT_EOK, k')"
  shows "wp (mutex_take m timeout flag k) Q"
proof -
  have u: "kok (Suc n) k" "minv {} {} {} k" "steady t k" "th_init_priority (threads k t) < 32"
    "rt_object_get_type (OMutex m) k = RT_Object_Class_Mutex" "ob_flag (objects k (OMutex m)) = RT_IPC_FLAG_PRIO"
    "mtx_ceiling_priority (mutexes k m) = 0xff" "mtx_owner (mutexes k m) = None"
    using i by (simp_all add: lock_idle_def lock_use_def)
  note c = steady_ctx [OF u(3)]
  let ?e = "upd_thread t (\<lambda>th. th\<lparr>th_error := RT_EOK\<rparr>) (rt_enter_critical k)"
  let ?k = "taken_insert t m (upd_mutex m (\<lambda>mtx. mtx\<lparr>mtx_owner := Some t, mtx_priority := 0xff, mtx_hold := 1\<rparr>) ?e)"
  have D: "mutex_ok {} {} k m" using minvD [OF u(2)] by simp
  have nw: "tlists k (MutexL m) = []" using mutex_okD(5) [OF D, of _] u(8) by (metis list.set_intros(1) neq_Nil_conv)
  have e: "mutex_take m timeout flag k = rt_exit_critical ?k \<bind> (\<lambda>k'. Some (Returned RT_EOK, k'))"
    using c u(5,7,8) by (simp add: mutex_take_def spin_defs rt_thread_self_def upd_sel Let_def)
  have mv: "wp (mutex_take m timeout flag k) (\<lambda>(out, k'). minv {} {} {} k')"
    using take_free_wp [OF u(1) _ u(2,4-6) _ u(8), of timeout flag] u(3,7) by (auto simp: steady_def elim!: wp_mono)
  have "wp (rt_exit_critical ?k) (\<lambda>k'. minv {} {} {} k' \<longrightarrow> Q (Returned RT_EOK, k'))"
  proof (rule steady_exit_wp [OF u(1) c(3)])
    have "kok n ?e" using kok_enter [OF u(1)] by simp
    then show "kok n ?k" unfolding taken_insert_def by (subst kok_upd_thread) (simp_all add: thread_view_def)
    show "steady t (?k\<lparr>rt_scheduler_lock_nest := 0\<rparr>)"
      using u(3) c(3) by (subst steady_cong [of _ k]) (simp_all add: taken_insert_def upd_sel tt_wf_def rt_object_get_type_def)
    fix k' assume k': "kok (Suc n) k'" "sched_only (?k\<lparr>rt_scheduler_lock_nest := 0\<rparr>) k'" "steady t k'"
    note F = same_but_schedD [OF sched_onlyD(1) [OF k'(2)]]
    have "tlists k' (MutexL m) = []" using sched_onlyD(3) [OF k'(2), of "MutexL m"] nw by (simp add: taken_insert_def upd_sel)
    moreover have "th_init_priority (threads k' t) < 32"
      using sched_onlyD(6) [OF k'(2), of t] u(4) by (simp add: taken_insert_def upd_sel)
    ultimately have "lock_busy m n t k'" if "minv {} {} {} k'"
      using that k'(1,3) F u(5-7) by (simp add: lock_busy_def lock_use_def taken_insert_def upd_sel rt_object_get_type_def)
    then show "minv {} {} {} k' \<longrightarrow> Q (Returned RT_EOK, k')"
      using Q F steady_ctx(1) [OF k'(3)] c(1) sched_only_life [OF k'(2)] by (simp add: same_objects_def taken_insert_def upd_sel)
  qed (use c(3) in \<open>simp add: taken_insert_def upd_sel\<close>)
  then show ?thesis using mv unfolding e by (auto simp: wp_def)
qed

lemma release_busy_wp:
  assumes i: "lock_busy m n t k" and Q: "\<And>k'. lock_idle m n t k' \<Longrightarrow> same_objects k k' \<Longrightarrow> Q (RT_EOK, k')"
  shows "wp (rt_mutex_release m k) Q"
proof -
  have u: "kok (Suc n) k" "minv {} {} {} k" "steady t k" "th_init_priority (threads k t) < 32"
    "rt_object_get_type (OMutex m) k = RT_Object_Class_Mutex" "ob_flag (objects k (OMutex m)) = RT_IPC_FLAG_PRIO"
    "mtx_ceiling_priority (mutexes k m) = 0xff" "mtx_owner (mutexes k m) = Some t" "mtx_hold (mutexes k m) = 1"
    "mtx_priority (mutexes k m) = 0xff" "tlists k (MutexL m) = []"
    using i by (simp_all add: lock_busy_def lock_use_def)
  note c = steady_ctx [OF u(3)]
  let ?r = "taken_remove m (upd_mutex m (\<lambda>mtx. mtx\<lparr>mtx_hold := mtx_hold mtx - 1\<rparr>) (rt_enter_critical k))"
  let ?k = "mutex_clear_owner m ?r"
  have p: "th_prio k t \<noteq> 255" using running_prio(1) [OF u(1) c(2)] by simp
  have "check_and_update_prio t m ?r = Some (False, ?r)"
    using u(7,10) p by (simp add: check_and_update_prio_def rt_sched_thread_get_curr_prio_def taken_remove_def upd_sel)
  then have e: "rt_mutex_release m k = rt_exit_critical ?k \<bind> (\<lambda>k'. Some (RT_EOK, k'))"
    using c u(5,8,9,11)
    by (simp add: rt_mutex_release_def spin_defs rt_thread_self_def upd_sel Let_def taken_remove_def)
  have "wp (rt_exit_critical ?k) (\<lambda>k'. Q (RT_EOK, k'))"
  proof (rule steady_exit_wp [OF u(1) c(3)])
    show "kok n ?k" using kok_enter [OF u(1)] by (simp add: mutex_clear_owner_def)
    show "steady t (?k\<lparr>rt_scheduler_lock_nest := 0\<rparr>)"
      using u(3) c(3)
      by (subst steady_cong [of _ k]) (simp_all add: mutex_clear_owner_def taken_remove_def upd_sel tt_wf_def rt_object_get_type_def)
    have "released m ?r" by (rule released_remove [OF kok_enter [OF u(1)]]) (use u(2,8) in simp_all)
    then have mv: "minv {} {} {} ?k" using u(11) by (intro clear_owner_minv) (simp_all add: taken_remove_def upd_sel)
    fix k' assume k': "kok (Suc n) k'" "sched_only (?k\<lparr>rt_scheduler_lock_nest := 0\<rparr>) k'" "steady t k'"
    note F = same_but_schedD [OF sched_onlyD(1) [OF k'(2)]]
    have "minv {} {} {} k'" using minv_sched_only [OF k'(2)] mv by simp
    moreover have "th_init_priority (threads k' t) < 32"
      using sched_onlyD(6) [OF k'(2), of t] u(4) by (simp add: mutex_clear_owner_def taken_remove_def upd_sel)
    ultimately have "lock_idle m n t k'"
      using k'(1,3) F u(5-7)
      by (simp add: lock_idle_def lock_use_def mutex_clear_owner_def taken_remove_def upd_sel rt_object_get_type_def)
    then show "Q (RT_EOK, k')"
      using Q F steady_ctx(1) [OF k'(3)] c(1) sched_only_life [OF k'(2)]
      by (simp add: same_objects_def mutex_clear_owner_def taken_remove_def upd_sel)
  qed (use c(3) in \<open>simp add: mutex_clear_owner_def taken_remove_def upd_sel\<close>)
  then show ?thesis by (simp add: e)
qed

text \<open>The system heap can be used: before the scheduler has started (no current thread), or by the running
  thread \<open>t\<close> when the mutex is free.\<close>

definition heap_ready :: "nat \<Rightarrow> tid option \<Rightarrow> kernel \<Rightarrow> bool" where
  "heap_ready n c k \<longleftrightarrow> (case c of None \<Rightarrow> rt_current_thread k = None | Some t \<Rightarrow> lock_idle heap_mutex n t k)"

lemma same_objects_trans: "same_objects k k1 \<Longrightarrow> same_objects k1 k2 \<Longrightarrow> same_objects k k2"
  by (simp add: same_objects_def)

lemma with_lock_wp:
  assumes r: "heap_ready n c (kern w)"
    and B: "\<And>k1. same_objects (kern w) k1 \<Longrightarrow> wp (body (w\<lparr>kern := k1\<rparr>)) (\<lambda>(out, w'). \<exists>r. out = Returned r \<and> kern w' = k1 \<and>
        (\<forall>k2. heap_ready n c k2 \<and> same_objects (kern w) k2 \<longrightarrow> Q (Returned r, w'\<lparr>kern := k2\<rparr>)))"
  shows "wp (with_lock body w) Q"
proof (cases c)
  case None
  then have n: "rt_current_thread (kern w) = None" using r by (simp add: heap_ready_def)
  have "same_objects (kern w) (kern w)" by (simp add: same_objects_def)
  have "wp (body w) (\<lambda>(out, w'). \<exists>r. out = Returned r \<and> rt_current_thread (kern w') = None \<and> Q (Returned r, w'))"
  proof (rule wp_mono [OF B [OF \<open>same_objects (kern w) (kern w)\<close>, simplified]], goal_cases)
    case (1 x)
    obtain out w' where x: "x = (out, w')" by (cases x)
    then obtain a where a: "out = Returned a" "kern w' = kern w" "Q (Returned a, w'\<lparr>kern := kern w\<rparr>)"
      using 1 r \<open>same_objects (kern w) (kern w)\<close> by auto
    have e: "w'\<lparr>kern := kern w\<rparr> = w'" unfolding a(2) [symmetric] by simp
    show ?case using a(1,2) a(3) [unfolded e] n by (simp add: x)
  qed
  then show ?thesis
    using n by (auto simp: with_lock_def heap_lock_def with_unlock_def heap_unlock_def elim!: wp_mono)
next
  case (Some t)
  have i: "lock_idle 0 n t (kern w)" using r Some by (simp add: heap_ready_def)
  have ct: "rt_current_thread (kern w) = Some t" using i steady_ctx(1) by (auto simp: lock_idle_def lock_use_def)
  have "wp (rt_mutex_take 0 0xffffffff (kern w)) (\<lambda>(out, k1). out = Returned 0 \<and> wp (with_unlock 0 (body (w\<lparr>kern := k1\<rparr>))) Q)"
    unfolding rt_mutex_take_def
  proof (rule take_idle_wp [OF i])
    fix k1 assume k1: "lock_busy 0 n t k1" "same_objects (kern w) k1"
    have c1: "rt_current_thread k1 = Some t" using k1(1) steady_ctx(1) by (auto simp: lock_busy_def lock_use_def)
    have "wp (body (w\<lparr>kern := k1\<rparr>)) (\<lambda>(out, w'). \<exists>r. out = Returned r \<and> wp (heap_unlock 0 w') (\<lambda>w2. Q (Returned r, w2)))"
    proof (rule wp_mono [OF B [OF k1(2)]], goal_cases)
      case (1 x)
      obtain out w' where x: "x = (out, w')" by (cases x)
      then obtain r where o: "out = Returned r" "kern w' = k1"
        "\<And>k2. heap_ready n c k2 \<Longrightarrow> same_objects (kern w) k2 \<Longrightarrow> Q (Returned r, w'\<lparr>kern := k2\<rparr>)" using 1 by auto
      have "wp (rt_mutex_release 0 k1) (\<lambda>(_, k2). Q (Returned r, w'\<lparr>kern := k2\<rparr>))"
        by (rule release_busy_wp [OF k1(1)])
          (use o(3) same_objects_trans [OF k1(2)] in \<open>auto simp: heap_ready_def Some\<close>)
      then show ?case using c1 o(1,2) by (auto simp: x heap_unlock_def elim!: wp_mono)
    qed
    then show "case (Returned 0, k1) of (out, k1) \<Rightarrow> out = Returned 0 \<and> wp (with_unlock 0 (body (w\<lparr>kern := k1\<rparr>))) Q"
      by (auto simp: with_unlock_def elim!: wp_mono)
  qed
  then show ?thesis using ct by (auto simp: with_lock_def heap_lock_def elim!: wp_mono)
qed

section \<open>Allocation and release\<close>

text \<open>The system heap of the world \<open>w\<close>, with the blocks \<open>bs\<close> and the free list \<open>fl\<close>; the heap is the only one that is
  registered.\<close>

definition sys_heap :: "u32 \<Rightarrow> world \<Rightarrow> aheap \<Rightarrow> bool" where
  "sys_heap sh w A \<longleftrightarrow> heap_ok sh (heaps w sh) (wmem w) (fst A) (snd A) \<and> mh_locked (heaps w sh) \<and>
     rt_object_get_type (OMemHeap sh) (kern w) = RT_Object_Class_MemHeap \<and>
     object_list (kern w) RT_Object_Class_MemHeap = [OMemHeap sh]"

lemma data_kept_trans:
  "data_kept bs m bs1 m1 U \<Longrightarrow> data_kept bs1 m1 bs2 m2 V \<Longrightarrow> W \<subseteq> U \<Longrightarrow> W \<subseteq> V \<Longrightarrow> data_kept bs m bs2 m2 W"
  unfolding data_kept_def by (metis subsetD)

lemma sys_heap_kern: "same_objects (kern w) k \<Longrightarrow> sys_heap sh (w\<lparr>kern := k\<rparr>) A = sys_heap sh w A"
  by (simp add: sys_heap_def same_objects_def rt_object_get_type_def)

lemma sys_alloc_wp:
  assumes s: "sys_heap sh w (bs, fl)"
  shows "wp (memheap_alloc sh req w) (\<lambda>(out, w'). kern w' = kern w \<and>
     (case aheap_request (unat (memheap_round req)) (bs, fl) of (q, bs', fl') \<Rightarrow>
       out = Returned (case q of None \<Rightarrow> 0 | Some p \<Rightarrow> p + 24) \<and> sys_heap sh w' (bs', fl') \<and>
       data_kept bs (wmem w) bs' (wmem w') (set (butlast bs) - set fl) \<and>
       (case q of None \<Rightarrow> bs' = bs \<and> fl' = fl | Some p \<Rightarrow> p \<in> set fl \<and> p \<in> set (butlast bs') - set fl' \<and>
          unat (memheap_round req) \<le> bsize bs' p)))"
proof -
  have k: "heap_ok sh (heaps w sh) (wmem w) bs fl" and l: "mh_locked (heaps w sh)"
    and ty: "rt_object_get_type (OMemHeap sh) (kern w) = RT_Object_Class_MemHeap" "object_list (kern w) RT_Object_Class_MemHeap = [OMemHeap sh]"
    using s by (simp_all add: sys_heap_def)
  have f: "lock_free 0 sh w" using l by (simp add: lock_free_def)
  obtain q bs' fl' where q: "aheap_request (unat (memheap_round req)) (bs, fl) = (q, bs', fl')" by (metis prod_cases3)
  have "wp (rt_memheap_alloc sh req w) (\<lambda>(out, w'). out = Returned (case q of None \<Rightarrow> 0 | Some p \<Rightarrow> p + 24) \<and>
     kern w' = kern w \<and> sys_heap sh w' (bs', fl') \<and> data_kept bs (wmem w) bs' (wmem w') (set (butlast bs) - set fl) \<and>
     (case q of None \<Rightarrow> bs' = bs \<and> fl' = fl | Some p \<Rightarrow> p + 24 \<noteq> 0 \<and> p \<in> set fl \<and> p \<in> set (butlast bs') - set fl' \<and>
        unat (memheap_round req) \<le> bsize bs' p))"
  proof (rule wp_mono [OF memheap_alloc_wp [OF k ty(1) f, of req]], goal_cases)
    case (1 x)
    obtain out w' where x: "x = (out, w')" by (cases x)
    note A = 1 [unfolded x q prod.case]
    have sy: "sys_heap sh w' (bs', fl')" "kern w' = kern w" using A l ty by (simp_all add: sys_heap_def same_pool_def lock_kept_def)
    show ?case
    proof (cases q)
      case None
      then have "bs' = bs" "fl' = fl" using q by (auto simp: aheap_request_def aheap_alloc_def split: if_splits option.splits)
      then show ?thesis using A None sy by (simp add: x data_kept_def)
    next
      case (Some p)
      note z = alloc_size [OF q [unfolded Some]]
      have c: "aheap_carve p (unat (memheap_round req)) (bs, fl) = (bs', fl')" using z by simp
      note cs = carve_sizes [OF k _ c] z round_ge(1)
      have k': "heap_ok sh (heaps w' sh) (wmem w') bs' fl'" using A by simp
      have pc: "p \<in> set (butlast bs') - set fl'" "unat (memheap_round req) \<le> bsize bs' p" using cs by blast+
      have "p + 24 \<noteq> 0" using data_no_header(2) [OF heap_okD(1,2) [OF k'], of p 0] pc round_ge(2) [of req] by (auto simp: word_unat_eq_iff)
      moreover have "data_kept bs (wmem w) bs' (wmem w') (set (butlast bs) - set fl)"
        by (rule alloc_data_kept [OF k k']) (use A cs in auto)
      ultimately show ?thesis using A Some sy pc conjunct1 [OF z] by (simp add: x)
    qed
  qed
  then show ?thesis
    unfolding memheap_alloc_def q prod.case using ty(2)
    by (cases q) (auto elim!: wp_mono)
qed

lemma sys_free_wp:
  assumes s: "sys_heap sh w (bs, fl)" and q: "q \<in> set (butlast bs)" "q \<notin> set fl"
  shows "wp (memheap_free (q + 24) w) (\<lambda>(out, w'). kern w' = kern w \<and> out = Returned () \<and> sys_heap sh w' (aheap_free q (bs, fl)) \<and>
     data_kept bs (wmem w) (fst (aheap_free q (bs, fl))) (wmem w') (set (butlast bs) - set fl - {q}))"
proof -
  have k: "heap_ok sh (heaps w sh) (wmem w) bs fl" and l: "mh_locked (heaps w sh)"
    and ty: "rt_object_get_type (OMemHeap sh) (kern w) = RT_Object_Class_MemHeap" "object_list (kern w) RT_Object_Class_MemHeap = [OMemHeap sh]"
    using s by (simp_all add: sys_heap_def)
  have f: "lock_free 0 sh w" using l by (simp add: lock_free_def)
  obtain bs' fl' where fr: "aheap_free q (bs, fl) = (bs', fl')" by (cases "aheap_free q (bs, fl)")
  show ?thesis
    unfolding memheap_free_def fr fst_conv
  proof (rule wp_mono [OF memheap_free_wp [OF k q ty(1) f]], goal_cases)
    case (1 x)
    obtain out w' where x: "x = (out, w')" by (cases x)
    note A = 1 [unfolded x prod.case freed_def fr]
    have "data_kept bs (wmem w) bs' (wmem w') (set (butlast bs) - set fl - {q})"
      by (rule free_data_kept [OF k q fr]) (use A in blast)
    then show ?case using A l ty by (simp add: x sys_heap_def same_pool_def lock_kept_def)
  qed
qed

lemma malloc_wp:
  assumes s: "sys_heap sh w (bs, fl)" and r: "heap_ready n c (kern w)"
  shows "wp (rt_malloc sh req w) (\<lambda>(out, w').
     case aheap_request (unat (memheap_round req)) (bs, fl) of (q, bs', fl') \<Rightarrow>
       sys_heap sh w' (bs', fl') \<and> heap_ready n c (kern w') \<and> rt_current_thread (kern w') = rt_current_thread (kern w) \<and>
       data_kept bs (wmem w) bs' (wmem w') (set (butlast bs) - set fl) \<and>
       (case q of
          None \<Rightarrow> out = Returned 0 \<and> bs' = bs \<and> fl' = fl
        | Some p \<Rightarrow> out = Returned (p + 24) \<and> p \<in> set fl \<and> p \<in> set (butlast bs') - set fl' \<and>
            unat (memheap_round req) \<le> bsize bs' p))"
  unfolding rt_malloc_def
proof (rule with_lock_wp [OF r], goal_cases)
  case (1 k1)
  have s1: "sys_heap sh (w\<lparr>kern := k1\<rparr>) (bs, fl)" using s sys_heap_kern [OF 1] by simp
  show ?case
  proof (rule wp_mono [OF sys_alloc_wp [OF s1]], goal_cases)
    case (1 x)
    obtain out w' where x: "x = (out, w')" by (cases x)
    obtain q bs' fl' where q: "aheap_request (unat (memheap_round req)) (bs, fl) = (q, bs', fl')" by (metis prod_cases3)
    note A = 1 [unfolded x q prod.case]
    have "sys_heap sh (w'\<lparr>kern := k2\<rparr>) (bs', fl')" if "same_objects (kern w) k2" for k2
    proof -
      have "same_objects (kern w') k2" using that A \<open>same_objects (kern w) k1\<close> by (simp add: same_objects_def)
      then show ?thesis using A sys_heap_kern by blast
    qed
    then show ?case using A by (cases q) (auto simp: x q same_objects_def)
  qed
qed

lemma free_wp:
  assumes s: "sys_heap sh w (bs, fl)" and r: "heap_ready n c (kern w)" and q: "q \<in> set (butlast bs)" "q \<notin> set fl"
  shows "wp (rt_free (q + 24) w) (\<lambda>(out, w'). out = Returned () \<and> sys_heap sh w' (aheap_free q (bs, fl)) \<and> heap_ready n c (kern w') \<and>
     same_objects (kern w) (kern w') \<and>
     data_kept bs (wmem w) (fst (aheap_free q (bs, fl))) (wmem w') (set (butlast bs) - set fl - {q}))"
proof -
  have k: "heap_ok sh (heaps w sh) (wmem w) bs fl" using s by (simp add: sys_heap_def)
  have "16 \<le> bsize bs q" using heap_okD(3) [OF k] q by (auto simp: frees_ok_def)
  then have nz: "q + 24 \<noteq> 0" using data_no_header(2) [OF heap_okD(1,2) [OF k] q(1), of 0] by (auto simp: word_unat_eq_iff)
  have "wp (with_lock (memheap_free (q + 24)) w) (\<lambda>(out, w'). out = Returned () \<and> sys_heap sh w' (aheap_free q (bs, fl)) \<and>
     heap_ready n c (kern w') \<and> same_objects (kern w) (kern w') \<and> data_kept bs (wmem w) (fst (aheap_free q (bs, fl))) (wmem w') (set (butlast bs) - set fl - {q}))"
  proof (rule with_lock_wp [OF r], goal_cases)
    case (1 k1)
    have s1: "sys_heap sh (w\<lparr>kern := k1\<rparr>) (bs, fl)" using s sys_heap_kern [OF 1] by simp
    show ?case
    proof (rule wp_mono [OF sys_free_wp [OF s1 q]], goal_cases)
      case (1 x)
      obtain out w' where x: "x = (out, w')" by (cases x)
      note A = 1 [unfolded x prod.case]
      have "sys_heap sh (w'\<lparr>kern := k2\<rparr>) (aheap_free q (bs, fl))" if "same_objects (kern w) k2" for k2
      proof -
        have "same_objects (kern w') k2" using that A \<open>same_objects (kern w) k1\<close> by (simp add: same_objects_def)
        then show ?thesis using A sys_heap_kern by blast
      qed
      then show ?case using A by (auto simp: x)
    qed
  qed
  then show ?thesis using nz by (simp add: rt_free_def)
qed

section \<open>Properties\<close>

text \<open>The heap is in use: thread \<open>t\<close> runs while another thread owns the mutex, and the chain of owners does not lead back to \<open>t\<close>.\<close>

definition heap_busy :: "nat \<Rightarrow> tid \<Rightarrow> kernel \<Rightarrow> bool" where
  "heap_busy n t k \<longleftrightarrow> kok (Suc n) k \<and> may_block t k \<and> minv {} {} {} k \<and> th_init_priority (threads k t) < 32 \<and>
     rt_object_get_type (OMutex heap_mutex) k = RT_Object_Class_Mutex \<and>
     mtx_owner (mutexes k heap_mutex) \<notin> {None, Some t} \<and> no_deadlock t heap_mutex k"

lemma malloc_busy_wp:
  assumes b: "heap_busy n t (kern w)"
  shows "wp (rt_malloc sh req w) (\<lambda>(out, w'). out = Waiting \<and> kok (Suc n) (kern w') \<and> minv {} {} {} (kern w') \<and>
     mutex_waits t heap_mutex RT_WAITING_FOREVER (kern w) (kern w') \<and> wmem w' = wmem w \<and> heaps w' = heaps w)"
proof -
  note B = b [unfolded heap_busy_def]
  obtain r where r: "mtx_owner (mutexes (kern w) heap_mutex) = Some r" "r \<noteq> t" using B by auto
  then obtain ts where ts: "wait_chain (kern w) r ts" "t \<notin> set ts" using B by (auto simp: no_deadlock_def)
  have c: "rt_current_thread (kern w) = Some t" using B by (simp add: may_block_def)
  have "wp (mutex_take heap_mutex RT_WAITING_FOREVER RT_UNINTERRUPTIBLE (kern w)) (\<lambda>(out, k'). kok (Suc n) k' \<and> minv {} {} {} k' \<and>
     out = Waiting \<and> mutex_waits t heap_mutex RT_WAITING_FOREVER (kern w) k')"
    by (rule take_wait_wp [OF _ _ _ _ _ r ts]) (use B in simp_all)
  then show ?thesis
    using c by (auto simp: rt_malloc_def with_lock_def heap_lock_def rt_mutex_take_def elim!: wp_mono)
qed

text \<open>C19. Allocating from the system heap goes through the heap mutex. While another thread owns it, the calling thread is
  suspended in the queue of the mutex (and lends the owner its priority), and neither the memory nor the heap is touched. Before the
  scheduler has started, or by a running thread while the mutex is free, the call returns without waiting, the thread
  still runs, and the mutex is free again. In between the heap serves the request as a memory heap does: the first free block
  that is large enough is taken and the data of all blocks in use is unchanged; when there is none the null pointer is returned.\<close>

theorem rt_malloc_correct:
  assumes s: "sys_heap sh w (bs, fl)"
  shows "(heap_busy n t (kern w) \<longrightarrow> wp (rt_malloc sh req w) (\<lambda>(out, w'). out = Waiting \<and> kok (Suc n) (kern w') \<and> minv {} {} {} (kern w') \<and>
     mutex_waits t heap_mutex RT_WAITING_FOREVER (kern w) (kern w') \<and> wmem w' = wmem w \<and> heaps w' = heaps w)) \<and>
   (heap_ready n c (kern w) \<longrightarrow> wp (rt_malloc sh req w) (\<lambda>(out, w').
     case aheap_request (unat (memheap_round req)) (bs, fl) of (q, bs', fl') \<Rightarrow>
       sys_heap sh w' (bs', fl') \<and> heap_ready n c (kern w') \<and> rt_current_thread (kern w') = rt_current_thread (kern w) \<and>
       data_kept bs (wmem w) bs' (wmem w') (set (butlast bs) - set fl) \<and>
       (case q of
          None \<Rightarrow> out = Returned 0 \<and> bs' = bs \<and> fl' = fl
        | Some p \<Rightarrow> out = Returned (p + 24) \<and> p \<in> set fl \<and> p \<in> set (butlast bs') - set fl' \<and>
            (req \<le> 0xfffffff8 \<longrightarrow> unat req \<le> bsize bs' p))))"
proof (intro conjI impI, goal_cases)
  case 1
  then show ?case by (rule malloc_busy_wp)
next
  case 2
  show ?case
  proof (rule wp_mono [OF malloc_wp [OF s 2]], goal_cases)
    case (1 x)
    have "req \<le> 0xfffffff8 \<longrightarrow> unat req \<le> unat (memheap_round req)" using round_unat [of req] by fastforce
    then show ?case using 1 by (auto split: option.splits)
  qed
qed

section \<open>Samples\<close>

text \<open>The sample heap as the system heap: it is the only registered heap, its mutex is free, and thread 2 is running.\<close>

definition sample_heap_kernel :: kernel where
  "sample_heap_kernel = (upd_object (OMutex heap_mutex) (\<lambda>ob. ob\<lparr>ob_flag := RT_IPC_FLAG_PRIO\<rparr>)
     (upd_mutex heap_mutex (\<lambda>mtx. mtx\<lparr>mtx_ceiling_priority := 0xff\<rparr>) sample_block))
     \<lparr>object_list := (\<lambda>_. [])(RT_Object_Class_MemHeap := [OMemHeap 0x100])\<rparr>"

definition sample_system :: world where
  "sample_system = sample_locked\<lparr>kern := sample_heap_kernel\<rparr>"

lemma sample_heap_ready: "heap_ready 7 (Some 2) sample_heap_kernel"
proof -
  have "kok 8 sample_heap_kernel"
    using kok_sample_block unfolding sample_heap_kernel_def by (simp add: kok_upd_object)
  moreover have "may_block 2 sample_heap_kernel"
    using may_block_sample unfolding may_block_def
    by (auto simp: sample_heap_kernel_def upd_sel rt_interrupt_get_nest_def tt_wf_def rt_object_get_type_def)
  moreover have "chosen 2 sample_heap_kernel"
    unfolding chosen_def by (auto simp: sample_heap_kernel_def upd_sel sample_ready keeps_cpu_def split: if_splits)
  moreover have "mutex_ok {} {} sample_heap_kernel m" for m
    unfolding mutex_ok_def
    by (auto simp: sample_heap_kernel_def upd_sel rt_object_get_type_def sample_type_def zero_object_def sample_kernel_def zero_kernel_def
        sample_thread_def zero_thread_def zero_mutex_def split: if_splits)
  ultimately show ?thesis
    by (simp add: heap_ready_def lock_idle_def lock_use_def steady_def minv_def sample_heap_kernel_def upd_sel rt_object_get_type_def
        sample_type_def zero_object_def sample_kernel_def zero_kernel_def sample_thread_def zero_thread_def zero_mutex_def)
qed

lemma sys_heap_sample: "sys_heap 0x100 sample_system ([0x1000, 0x1fe8], [0x1000])"
  using sample_locked_ok
  by (simp add: sys_heap_def sample_system_def sample_heap_kernel_def upd_sel rt_object_get_type_def sample_type_def zero_object_def)

theorem rt_malloc_correct_witness:
  "wp (rt_malloc 0x100 100 sample_system) (\<lambda>(out, w'). out = Returned 0x1018 \<and> heap_ready 7 (Some 2) (kern w') \<and>
     sys_heap 0x100 w' ([0x1000, 0x1080, 0x1fe8], [0x1080]))"
  using rt_malloc_correct [OF sys_heap_sample, of 7 2 100 "Some 2"] sample_heap_ready sample_request
  by (auto simp: sample_system_def elim!: wp_mono)

end
