(* ===== verification/System_Alloc.thy ===== *)
theory System_Alloc
  imports System_Heap
begin

text \<open>
  Cleared and aligned allocation from the system heap: \<^verbatim>\<open>rt_calloc\<close> hands out zeroed memory, and
  \<^verbatim>\<open>rt_malloc_align\<close> an aligned address inside of a block, from which \<^verbatim>\<open>rt_free_align\<close> finds
  the block again.
\<close>

section \<open>Masks\<close>

lemma and_not_mask: "(x :: u32) AND NOT (mask k) = push_bit k (drop_bit k x)"
proof (rule bit_word_eqI)
  fix n assume "n < LENGTH(32)"
  then show "bit (x AND NOT (mask k)) n \<longleftrightarrow> bit (push_bit k (drop_bit k x)) n"
    by (cases "n < k") (simp_all only: bit_and_iff bit_not_iff bit_mask_iff bit_push_bit_iff bit_drop_bit_eq comp_def, auto)
qed

lemma unat_and_not_mask: "unat (x AND NOT (mask k) :: u32) = unat x div 2 ^ k * 2 ^ k"
proof -
  have "unat x div 2 ^ k * 2 ^ k \<le> unat x" by simp
  also have x: "\<dots> < 2 ^ LENGTH(32)" using unat_u32 [of x] by simp
  finally show ?thesis
    unfolding and_not_mask unsigned_push_bit_eq unsigned_drop_bit_eq
    by (simp only: push_bit_eq_mult drop_bit_eq_div take_bit_eq_mod mod_less [OF x] mod_less)
qed

lemma unat_and_mask: "unat (x AND mask k :: u32) = unat x mod 2 ^ k"
proof -
  have "x AND mask k = take_bit k x" by (simp only: take_bit_eq_mask)
  moreover have "unat (take_bit k x) = take_bit k (unat x)" by (cases "k < LENGTH(32)") (simp_all add: unsigned_take_bit_eq)
  ultimately show ?thesis by (simp only: take_bit_eq_mod)
qed

lemma mask_3: "(3 :: u32) = mask 2"
  by (simp add: mask_eq_exp_minus_1)

lemma unat_and_not_3: "unat (x AND NOT 3 :: u32) = unat x div 4 * 4" and unat_and_3: "unat (x AND 3 :: u32) = unat x mod 4"
  unfolding mask_3 unat_and_not_mask unat_and_mask by simp_all

section \<open>Bytes\<close>

lemma byte_put_get:
  assumes "i < 4" "j < 4"
  shows "(ucast (drop_bit (8 * j) ((w AND NOT (push_bit (8 * i) 0xff)) OR push_bit (8 * i) (ucast b)) :: u32) :: u8) =
     (if j = i then b else ucast (drop_bit (8 * j) w))"
proof (rule bit_word_eqI)
  have ff: "(0xff :: u32) = mask 8" by (simp add: mask_eq_exp_minus_1)
  fix n assume "n < LENGTH(8)"
  then have n: "n < 8" by simp
  then have l: "8 * j + n < 32" using assms by simp
  have b: "\<not> bit b k" if "8 \<le> k" for k using that bit_imp_le_length [of b k] by auto
  have m: "bit (ucast (drop_bit (8 * j) v) :: u8) n \<longleftrightarrow> bit v (8 * j + n)" for v :: u32
    using n by (simp add: bit_ucast_iff bit_drop_bit_eq)
  have g: "bit ((w AND NOT (push_bit (8 * i) 0xff)) OR push_bit (8 * i) (ucast b)) (8 * j + n) \<longleftrightarrow>
     bit w (8 * j + n) \<and> \<not> (8 * i \<le> 8 * j + n \<and> 8 * j + n - 8 * i < 8) \<or> 8 * i \<le> 8 * j + n \<and> bit b (8 * j + n - 8 * i)"
    unfolding ff using l by (simp only: bit_or_iff bit_and_iff bit_not_iff bit_push_bit_iff bit_mask_iff bit_ucast_iff) auto
  show "bit (ucast (drop_bit (8 * j) ((w AND NOT (push_bit (8 * i) 0xff)) OR push_bit (8 * i) (ucast b)) :: u32) :: u8) n \<longleftrightarrow>
     bit (if j = i then b else ucast (drop_bit (8 * j) w)) n"
  proof (cases "j = i")
    case True
    then show ?thesis using n unfolding m g by simp
  next
    case False
    have "\<not> bit b (8 * j + n - 8 * i) \<and> \<not> 8 * j + n - 8 * i < 8" if "8 * i \<le> 8 * j + n"
      using b [of "8 * j + n - 8 * i"] that False n by linarith
    then show ?thesis using False unfolding m g if_not_P [OF False] by blast
  qed
qed

lemma addr_split: "(c :: u32) = d \<longleftrightarrow> c AND NOT 3 = d AND NOT 3 \<and> c AND 3 = d AND 3"
proof -
  have "c = d" if "c AND NOT 3 = d AND NOT 3" "c AND 3 = d AND 3"
  proof -
    have "unat c div 4 * 4 = unat d div 4 * 4" "unat c mod 4 = unat d mod 4"
      unfolding unat_and_not_3 [symmetric] unat_and_3 [symmetric] that by (rule refl)+
    then show ?thesis by (metis div_mult_mod_eq word_unat_eq_iff)
  qed
  then show ?thesis by blast
qed

lemma st_byte_wp:
  assumes m: "ld_byte a m \<noteq> None"
    and Q: "\<And>m'. dom m' = dom m \<Longrightarrow> (\<And>c. ld_byte c m' = (if c = a then Some b else ld_byte c m)) \<Longrightarrow>
       (\<And>c. c \<noteq> a AND NOT 3 \<Longrightarrow> m' c = m c) \<Longrightarrow> Q m'"
  shows "wp (st_byte a b m) Q"
proof -
  obtain w where w: "m (a AND NOT 3) = Some w" using m by (auto simp: ld_byte_def ld_def)
  let ?s = "8 * unat (a AND 3)"
  let ?v = "(w AND NOT (push_bit ?s 0xff)) OR push_bit ?s (ucast b)"
  let ?m = "m(a AND NOT 3 \<mapsto> ?v)"
  have lt: "unat (c AND 3) < 4" for c :: u32 unfolding unat_and_3 by simp
  have "ld_byte c ?m = (if c = a then Some b else ld_byte c m)" for c
  proof (cases "c AND NOT 3 = a AND NOT 3")
    case True
    have e: "c = a \<longleftrightarrow> unat (c AND 3) = unat (a AND 3)"
      unfolding addr_split [of c a] using True by (simp only: word_unat_eq_iff simp_thms)
    have "ld_byte c ?m = Some (ucast (drop_bit (8 * unat (c AND 3)) ?v))" "ld_byte c m = Some (ucast (drop_bit (8 * unat (c AND 3)) w))"
      by (simp_all only: ld_byte_def ld_def True w fun_upd_same option.map)
    then show ?thesis by (simp only: byte_put_get [OF lt lt] e if_distrib [of Some])
  next
    case False
    then have "c \<noteq> a" by blast
    then show ?thesis by (simp only: ld_byte_def ld_def fun_upd_other [OF False] if_False)
  qed
  then have "Q ?m" using w by (intro Q) auto
  then show ?thesis using w by (simp only: st_byte_def ld_def st_def Let_def Option.bind.bind_lunit option.distinct if_False wp_simps)
qed

section \<open>Filling\<close>

text \<open>The \<open>n\<close> bytes from \<open>a\<close> on are \<open>d\<close> and the others are as before; words without such a byte are as before.\<close>

definition filled :: "nat \<Rightarrow> u32 \<Rightarrow> u8 \<Rightarrow> memory \<Rightarrow> memory \<Rightarrow> bool" where
  "filled n a d m m' \<longleftrightarrow> (\<forall>c. ld_byte c m' = (if \<exists>i<n. c = a + of_nat i then Some d else ld_byte c m)) \<and>
     (\<forall>c. (\<forall>i<n. c \<noteq> (a + of_nat i) AND NOT 3) \<longrightarrow> m' c = m c) \<and> dom m' = dom m"

lemma filled_0: "filled 0 a d m m"
  by (simp add: filled_def)

lemma shift_index: "(a :: u32) + of_nat (j + i) = a + of_nat j + of_nat i"
  by simp

lemma filled_add:
  assumes "filled j a d m m1" "filled n (a + of_nat j) d m1 m'"
  shows "filled (j + n) a d m m'"
proof -
  have ex: "(\<exists>i<j + n. P i) \<longleftrightarrow> (\<exists>i<j. P i) \<or> (\<exists>i<n. P (j + i))" for P :: "nat \<Rightarrow> bool"
    by (metis add_diff_inverse_nat nat_add_left_cancel_less trans_less_add1)
  have all: "(\<forall>i<j + n. P i) \<longleftrightarrow> (\<forall>i<j. P i) \<and> (\<forall>i<n. P (j + i))" for P :: "nat \<Rightarrow> bool"
    using ex [of "\<lambda>i. \<not> P i"] by blast
  show ?thesis
    using assms unfolding filled_def ex all shift_index by (auto split: if_splits)
qed

lemma filled_1:
  assumes "\<And>c. ld_byte c m' = (if c = a then Some b else ld_byte c m)" "\<And>c. c \<noteq> a AND NOT 3 \<Longrightarrow> m' c = m c" "dom m' = dom m"
  shows "filled 1 a b m m'"
  using assms by (simp add: filled_def)

lemma filled_loadable: "filled n a d m m' \<Longrightarrow> ld_byte c m \<noteq> None \<Longrightarrow> ld_byte c m' \<noteq> None"
  by (auto simp: filled_def)

lemma set_bytes_wp:
  assumes "\<And>i. i < n \<Longrightarrow> ld_byte (a + of_nat i) m \<noteq> None"
  shows "wp (set_bytes n a d m) (filled n a d m)"
  using assms
proof (induction n arbitrary: a m)
  case (Suc n)
  have "wp (st_byte a d m) (\<lambda>m1. wp (set_bytes n (a + 1) d m1) (filled (Suc n) a d m))"
  proof (rule st_byte_wp)
    show "ld_byte a m \<noteq> None" using Suc(2) [of 0] by simp
    fix m1 assume "dom m1 = dom m" "\<And>c. ld_byte c m1 = (if c = a then Some d else ld_byte c m)" "\<And>c. c \<noteq> a AND NOT 3 \<Longrightarrow> m1 c = m c"
    then have f: "filled 1 a d m m1" by (intro filled_1)
    have "ld_byte (a + 1 + of_nat i) m1 \<noteq> None" if "i < n" for i
      using Suc(2) [of "1 + i"] that filled_loadable [OF f] unfolding shift_index by simp
    then show "wp (set_bytes n (a + 1) d m1) (filled (Suc n) a d m)"
      by (rule wp_mono [OF Suc(1)]) (use filled_add [OF f] in simp_all)
  qed
  then show ?case by simp
qed (simp add: filled_0)

text \<open>A word that consists of four equal bytes.\<close>

lemma word_bytes:
  assumes "i < 4"
  shows "ucast (drop_bit (8 * i) (ucast d * 0x01010101 :: u32)) = (d :: u8)"
proof -
  have "unat d < 2 ^ LENGTH(8)" by (rule unsigned_less)
  then have d: "unat d < 256" by simp
  have u: "unat (ucast d * 0x01010101 :: u32) = unat d * 0x01010101"
    using d by (simp add: unat_word_ariths unsigned_ucast_eq take_bit_nat_eq_self)
  have "unat d * 0x01010101 div 2 ^ (8 * i) mod 256 = unat d"
  proof -
    have v: "unat d * 0x01010101 = unat d + 256 * (unat d + 256 * (unat d + 256 * unat d))" by simp
    have b: "(unat d + 256 * x) div 256 = x" "(unat d + 256 * x) mod 256 = unat d" for x using d by simp_all
    have "i = 0 \<or> i = 1 \<or> i = 2 \<or> i = 3" using assms by linarith
    then have "2 ^ (8 * i) = (1 :: nat) \<or> 2 ^ (8 * i) = (256 :: nat) \<or> 2 ^ (8 * i) = (256 * 256 :: nat) \<or>
      2 ^ (8 * i) = (256 * (256 * 256) :: nat)" by auto
    then show ?thesis
    proof (elim disjE)
      assume "2 ^ (8 * i) = (256 * (256 * 256) :: nat)"
      then show ?thesis using d unfolding v by (simp only: div_mult2_eq b) simp
    qed (use d in \<open>simp_all only: v div_mult2_eq b div_by_1\<close>)
  qed
  then show ?thesis
    unfolding word_unat_eq_iff unsigned_ucast_eq unsigned_drop_bit_eq take_bit_eq_mod u using d
    by (simp add: drop_bit_eq_div take_bit_eq_mod u)
qed

lemma unat_in_word:
  assumes "4 dvd unat (a :: u32)" "i < 4"
  shows "unat (a + of_nat i) = unat a + i"
proof -
  obtain k where k: "unat a = 4 * k" using assms(1) by (rule dvdE)
  then have "unat a + i < 2 ^ 32" using unat_u32 [of a] assms(2) by simp
  moreover have "unat (of_nat i :: u32) = i" using assms(2) by (simp add: unsigned_of_nat take_bit_nat_eq_self)
  ultimately show ?thesis by (simp add: unat_word_ariths)
qed

lemma word_of_byte:
  assumes a: "4 dvd unat (a :: u32)"
  shows "c AND NOT 3 = a \<longleftrightarrow> (\<exists>i<4. c = a + of_nat i)"
proof
  assume "c AND NOT 3 = a"
  then have "unat a = unat c div 4 * 4" using unat_and_not_3 [of c] by (simp only:)
  moreover have "unat c mod 4 < 4" by simp
  ultimately have "unat c = unat (a + of_nat (unat c mod 4))" using unat_in_word [OF a, of "unat c mod 4"] by simp
  then show "\<exists>i<4. c = a + of_nat i" by (intro exI [of _ "unat c mod 4"]) (simp add: word_unat_eq_iff)
next
  assume "\<exists>i<4. c = a + of_nat i"
  then obtain i where i: "i < 4" "c = a + of_nat i" by blast
  have "unat (c AND NOT 3) = unat a" unfolding unat_and_not_3 i(2) unat_in_word [OF a i(1)] using a i(1) by auto
  then show "c AND NOT 3 = a" by (simp only: word_unat_eq_iff)
qed

lemma aligned_word: "4 dvd unat (a :: u32) \<Longrightarrow> a AND NOT 3 = a"
  using word_of_byte [of a a] by (auto intro: exI [of _ 0])

lemma aligned_step: "4 dvd unat (a :: u32) \<Longrightarrow> 4 dvd unat (a + 4 * x)"
  by (simp add: unat_word_ariths dvd_mod)

lemma filled_word:
  assumes a: "4 dvd unat a" and m: "m a \<noteq> None"
  shows "filled 4 a d m (m(a \<mapsto> ucast d * 0x01010101))"
  unfolding filled_def word_of_byte [OF a, symmetric]
proof (intro conjI allI impI)
  fix c :: u32
  have "unat (c AND 3) < 4" using unat_and_3 [of c] by simp
  note b = word_bytes [OF this, of d]
  show "ld_byte c (m(a \<mapsto> ucast d * 0x01010101)) = (if c AND NOT 3 = a then Some d else ld_byte c m)"
    unfolding ld_byte_def ld_def fun_upd_apply by (cases "c AND NOT 3 = a") (simp_all only: b if_True if_False option.map simp_thms)
next
  fix c assume "\<forall>i<4. c \<noteq> (a + of_nat i) AND NOT 3"
  then have "c \<noteq> (a + of_nat 0) AND NOT 3" using zero_less_numeral [of "num.Bit0 (num.Bit0 num.One)", where ?'a = nat] by blast
  then have "c \<noteq> a" using aligned_word [OF a] by auto
  then show "(m(a \<mapsto> ucast d * 0x01010101)) c = m c" by simp
qed (use m in auto)

lemma set_longs_wp:
  assumes "4 dvd unat a" "\<And>i. i < n \<Longrightarrow> m (a + 4 * of_nat i) \<noteq> None"
  shows "wp (set_longs n a (ucast d * 0x01010101) m) (filled (4 * n) a d m)"
  using assms
proof (induction n arbitrary: a m)
  case (Suc n)
  let ?v = "ucast d * 0x01010101 :: u32"
  have m: "m a \<noteq> None" using Suc(3) [of 0] by simp
  note f = filled_word [of a m d, OF Suc(2) m]
  have "wp (set_longs n (a + 4) ?v (m(a \<mapsto> ?v))) (filled (4 * n) (a + 4) d (m(a \<mapsto> ?v)))"
  proof (rule Suc(1))
    show "4 dvd unat (a + 4)" using aligned_step [OF Suc(2), of 1] by simp
    show "(m(a \<mapsto> ?v)) (a + 4 + 4 * of_nat i) \<noteq> None" if "i < n" for i
      using Suc(3) [of "Suc i"] that by (simp add: algebra_simps)
  qed
  then have "wp (set_longs n (a + 4) ?v (m(a \<mapsto> ?v))) (filled (4 * Suc n) a d m)"
    by (rule wp_mono) (use filled_add [OF f, of "4 * n"] in simp)
  then show ?case using m by (auto simp: st_def)
qed (simp add: filled_0)

lemma memset_wp:
  assumes a: "4 dvd unat a" and m: "\<And>i. i < unat count \<Longrightarrow> m ((a + of_nat i) AND NOT 3) \<noteq> None"
  shows "wp (rt_memset a d count m) (filled (unat count) a d m)"
proof -
  have b: "ld_byte (a + of_nat i) m \<noteq> None" if "i < unat count" for i using m [OF that] by (simp only: ld_byte_def ld_def option.map_disc_iff not_False_eq_True)
  have a3: "a AND 3 = 0" using a by (simp only: word_unat_eq_iff unat_and_3) simp
  let ?n = "unat count div 4"
  have c: "unat count = 4 * ?n + unat count mod 4" by simp
  have L: "m (a + 4 * of_nat i) \<noteq> None" if "i < ?n" for i
    using m [of "4 * i"] that aligned_word [OF aligned_step [OF a, of "of_nat i"]] by simp
  have "wp (set_longs ?n a (ucast d * 0x01010101) m) (\<lambda>m1. wp (set_bytes (unat count mod 4) (a + 4 * of_nat ?n) d m1) (filled (unat count) a d m))"
  proof (rule wp_mono [OF set_longs_wp [of a ?n m d, OF a L]], assumption)
    fix m1 assume f: "filled (4 * ?n) a d m m1"
    have "ld_byte (a + of_nat (4 * ?n) + of_nat i) m1 \<noteq> None" if "i < unat count mod 4" for i
      by (rule filled_loadable [OF f], unfold shift_index [symmetric], rule b) (use that c in linarith)
    then have "wp (set_bytes (unat count mod 4) (a + of_nat (4 * ?n)) d m1) (filled (4 * ?n + unat count mod 4) a d m)"
      by (rule wp_mono [OF set_bytes_wp filled_add [OF f]])
    then show "wp (set_bytes (unat count mod 4) (a + 4 * of_nat ?n) d m1) (filled (unat count) a d m)" by simp
  qed
  then show ?thesis using set_bytes_wp [OF b] a3 by (simp add: rt_memset_def Let_def)
qed

section \<open>The data of a block\<close>

definition data_words :: "u32 list \<Rightarrow> u32 \<Rightarrow> u32 set" where
  "data_words bs q = {q + 24 + 4 * of_nat i | i. 4 * i + 4 \<le> bsize bs q}"

text \<open>Stores into the data of a block in use neither harm the heap nor change the data of another block.\<close>

lemma data_store:
  assumes s: "sys_heap sh w (bs, fl)" and q: "q \<in> set (butlast bs) - set fl"
    and m: "dom m' = dom (wmem w)" "\<And>c. c \<notin> data_words bs q \<Longrightarrow> m' c = wmem w c"
  shows "sys_heap sh (w\<lparr>wmem := m'\<rparr>) (bs, fl)" "data_kept bs (wmem w) bs m' (set (butlast bs) - set fl - {q})"
proof -
  have k: "heap_ok sh (heaps w sh) (wmem w) bs fl" using s by (simp add: sys_heap_def)
  note d = heap_okD [OF k]
  have "m' a = wmem w a" if "a \<in> words_of (insert (free_header sh) (set bs))" for a
    by (rule m(2)) (use that data_no_header(1) [OF d(1,2), of q] q in \<open>auto simp: data_words_def\<close>)
  then have "heap_ok sh (heaps w sh) m' bs fl" by (rule heap_ok_data [OF k m(1)])
  then show "sys_heap sh (w\<lparr>wmem := m'\<rparr>) (bs, fl)" using s by (simp add: sys_heap_def)
  show "data_kept bs (wmem w) bs m' (set (butlast bs) - set fl - {q})"
    unfolding data_kept_def block_data_words
  proof (intro ballI words_at_eq)
    fix b i assume b: "b \<in> set (butlast bs) - set fl - {q}" and i: "4 * i + 4 \<le> bsize bs b"
    have "b + 24 + 4 * of_nat i \<noteq> q + 24 + 4 * of_nat j" if j: "4 * j + 4 \<le> bsize bs q" for j
    proof -
      have "unat b + 24 + 4 * i \<noteq> unat q + 24 + 4 * j" using block_apart [OF d(4), of b q] b q i j by auto
      moreover have "unat (b + 24 + 4 * of_nat i) = unat b + 24 + 4 * i" "unat (q + 24 + 4 * of_nat j) = unat q + 24 + 4 * j"
        using data_no_header(2) [OF d(1,2) _ i] data_no_header(2) [OF d(1,2) _ j] b q by simp_all
      ultimately show ?thesis by metis
    qed
    then show "m' (b + 24 + 4 * of_nat i) = wmem w (b + 24 + 4 * of_nat i)" by (intro m(2)) (auto simp: data_words_def)
  qed
qed

lemma alloc_store:
  assumes s: "sys_heap sh w (bs, fl)" and q: "aheap_request (unat (memheap_round z)) (bs, fl) = (Some p, bs', fl')"
    and s1: "sys_heap sh w1 (bs', fl')" "data_kept bs (wmem w) bs' (wmem w1) (set (butlast bs) - set fl)"
    and m: "dom m' = dom (wmem w1)" "\<And>c. c \<notin> data_words bs' p \<Longrightarrow> m' c = wmem w1 c"
  shows "sys_heap sh (w1\<lparr>wmem := m'\<rparr>) (bs', fl')" "data_kept bs (wmem w) bs' m' (set (butlast bs) - set fl)"
proof -
  have k: "heap_ok sh (heaps w sh) (wmem w) bs fl" using s by (simp add: sys_heap_def)
  note z = alloc_size [OF q] 
  have c: "aheap_carve p (unat (memheap_round z)) (bs, fl) = (bs', fl')" using z by simp
  note C = carve_sizes [OF k _ c]
  have p: "p \<in> set fl" "p \<in> set (butlast bs') - set fl'" using z C(1) round_ge(1) by blast+
  show "sys_heap sh (w1\<lparr>wmem := m'\<rparr>) (bs', fl')" by (rule data_store(1) [OF s1(1) p(2) m])
  have "set (butlast bs) - set fl \<subseteq> set (butlast bs') - set fl' - {p}" using C(3) z p(1) round_ge(1) by blast
  then show "data_kept bs (wmem w) bs' m' (set (butlast bs) - set fl)"
    using data_kept_trans [OF s1(2) data_store(2) [OF s1(1) p(2) m]] by (metis subset_refl)
qed

lemma data_aligned:
  assumes k: "heap_ok sh hp m bs fl" and q: "q \<in> set (butlast bs)"
  shows "8 dvd unat q" "8 dvd unat (q + 24)" "unat (q + 24) = unat q + 24" "unat q + 24 + bsize bs q < 0x100000000"
proof -
  note d = heap_okD [OF k]
  obtain xs x ys where x: "bs = xs @ q # x # ys" "bsize bs q = unat x - unat q - 24"
    using bsize_pos_split [OF q blocks_distinct [OF d(2)]] by metis
  show q8: "8 dvd unat q" using d(2) by (simp add: blocks_ok_def x(1))
  have "unat q + 24 \<le> unat x" using d(4) by (simp add: x(1) sorted_wrt_append)
  then show e: "unat q + 24 + bsize bs q < 0x100000000" using unat_u32 [of x] by (simp add: x(2))
  then show u: "unat (q + 24) = unat q + 24" by (simp add: unat_word_ariths)
  show "8 dvd unat (q + 24)" unfolding u using q8 by simp
qed

text \<open>The word of the \<open>i\<close>-th byte of a block.\<close>

lemma data_byte:
  assumes k: "heap_ok sh hp m bs fl" and q: "q \<in> set (butlast bs)" and i: "i < bsize bs q"
  shows "(q + 24 + of_nat i) AND NOT 3 \<in> data_words bs q" "m ((q + 24 + of_nat i) AND NOT 3) \<noteq> None"
proof -
  let ?a = "q + 24 + 4 * of_nat (i div 4)"
  have "4 dvd unat (q + 24)" by (rule dvd_trans [OF _ data_aligned(2) [OF k q]]) simp
  then have "4 dvd unat ?a" by (rule aligned_step)
  moreover have "q + 24 + of_nat i = ?a + of_nat (i mod 4)"
    by (metis (no_types, lifting) shift_index mult_div_mod_eq of_nat_mult of_nat_numeral)
  moreover have "i mod 4 < 4" by simp
  ultimately have e: "(q + 24 + of_nat i) AND NOT 3 = ?a" by (subst word_of_byte) blast+
  have "8 dvd bsize bs q" by (rule bsize_8 [OF heap_okD(2) [OF k] q])
  then have l: "4 * (i div 4) + 4 \<le> bsize bs q" using i by presburger
  then show "(q + 24 + of_nat i) AND NOT 3 \<in> data_words bs q" unfolding e data_words_def by blast
  show "m ((q + 24 + of_nat i) AND NOT 3) \<noteq> None" unfolding e by (rule data_no_header(3) [OF heap_okD(1,2) [OF k] q l])
qed

section \<open>Aligned addresses\<close>

lemma pow_mask: "(2 :: u32) ^ k - 1 = mask k"
  by (simp add: mask_eq_exp_minus_1)

lemma unat_pow: "k < 32 \<Longrightarrow> unat (2 ^ k :: u32) = 2 ^ k"
proof -
  assume "k < 32"
  then have "(2 :: nat) ^ k < 2 ^ 32" by (intro power_strict_increasing) simp_all
  then have "unat (of_nat (2 ^ k) :: u32) = 2 ^ k" unfolding unat_of_nat by simp
  then show ?thesis by simp
qed

text \<open>The address that \<^verbatim>\<open>rt_malloc_align\<close> computes: the next multiple after \<open>p\<close>.\<close>

definition align_after :: "nat \<Rightarrow> u32 \<Rightarrow> u32" where
  "align_after k p = (if p AND (2 ^ k - 1) = 0 then p + 2 ^ k else (p + (2 ^ k - 1)) AND NOT (2 ^ k - 1))"

lemma align_after_unat:
  assumes "k < 32" "unat p + 2 ^ k < 2 ^ 32"
  shows "unat (align_after k p) = (unat p div 2 ^ k + 1) * 2 ^ k"
proof -
  let ?A = "2 ^ k :: nat"
  have l: "0 < ?A" by simp
  have A: "unat (2 ^ k :: u32) = ?A" using assms(1) by (rule unat_pow)
  have M: "unat (mask k :: u32) = ?A - 1"
    unfolding pow_mask [symmetric] using A l by (simp add: unat_sub word_le_nat_alt)
  have z: "p AND mask k = 0 \<longleftrightarrow> unat p mod ?A = 0" by (simp only: word_unat_eq_iff unat_and_mask unat_0)
  have s: "unat (p + 2 ^ k) = unat p + ?A" "unat (p + mask k) = unat p + (?A - 1)"
    using assms(2) A M by (simp_all add: unat_word_ariths)
  show ?thesis
  proof (cases "unat p mod ?A = 0")
    case True
    then have "unat p div ?A * ?A = unat p" by (metis add_0_right div_mult_mod_eq)
    then show ?thesis using True z s(1) by (simp add: align_after_def pow_mask)
  next
    case False
    have "unat p = unat p div ?A * ?A + unat p mod ?A" by (rule div_mult_mod_eq [symmetric])
    then have "(unat p + (?A - 1)) = (unat p mod ?A - 1) + (unat p div ?A + 1) * ?A" 
      using False l unfolding distrib_right by linarith
    moreover have "unat p mod ?A - 1 < ?A" using l mod_less_divisor [of ?A "unat p"] by linarith
    ultimately have "(unat p + (?A - 1)) div ?A = unat p div ?A + 1" using l by (simp only: div_mult_self1 [OF less_imp_neq [OF l, symmetric]] div_less)
    then show ?thesis using False z s(2) by (simp only: align_after_def pow_mask unat_and_not_mask if_False)
  qed
qed

text \<open>The word before the aligned address lies in the block.\<close>

lemma align_after_data:
  assumes k: "heap_ok sh hp m bs fl" and q: "q \<in> set (butlast bs)" and e: "2 \<le> e" "e < 32" "2 ^ e + n \<le> bsize bs q"
  shows "2 ^ e dvd unat (align_after e (q + 24))" "unat q + 24 < unat (align_after e (q + 24))"
    "unat (align_after e (q + 24)) + n \<le> unat q + 24 + bsize bs q"
    "align_after e (q + 24) - 4 \<in> data_words bs q" "m (align_after e (q + 24) - 4) \<noteq> None"
proof -
  let ?a = "align_after e (q + 24)" and ?A = "2 ^ e :: nat"
  note D = data_aligned [OF k q]
  have u: "unat ?a = (unat (q + 24) div ?A + 1) * ?A" by (rule align_after_unat) (use D(3,4) e in simp_all)
  have c: "unat (q + 24) = unat (q + 24) div ?A * ?A + unat (q + 24) mod ?A" "unat (q + 24) mod ?A < ?A"
    by (rule div_mult_mod_eq [symmetric]) simp
  have b: "unat (q + 24) < unat ?a" "unat ?a \<le> unat (q + 24) + ?A" unfolding u distrib_right using c by linarith+
  show "?A dvd unat ?a" unfolding u by simp
  then have a4: "4 dvd unat ?a" using dvd_trans [OF le_imp_power_dvd [OF e(1), of 2]] by simp
  show "unat q + 24 < unat ?a" "unat ?a + n \<le> unat q + 24 + bsize bs q" using b D(3) e(3) by simp_all
  obtain i where i: "unat ?a = unat (q + 24) + 4 * i + 4"
  proof -
    obtain x where x: "unat (q + 24) = 8 * x" using D(2) by (rule dvdE)
    obtain y where y: "unat ?a = 4 * y" using a4 by (rule dvdE)
    show ?thesis by (rule that [of "y - 2 * x - 1"]) (use b(1) x y in linarith)
  qed
  then have l: "4 * i + 4 \<le> bsize bs q" using b(2) e(3) by linarith
  note N = data_no_header [OF heap_okD(1,2) [OF k] q l]
  have "4 \<le> ?a" using i by (simp add: word_le_nat_alt)
  then have "unat (?a - 4) = unat ?a - 4" using unat_sub [of 4 ?a] by simp
  then have "?a - 4 = q + 24 + 4 * of_nat i" using N(2) i D(3) by (simp add: word_unat_eq_iff)
  then show "?a - 4 \<in> data_words bs q" "m (?a - 4) \<noteq> None" using N(3) l unfolding data_words_def by (blast, simp only: not_False_eq_True)
qed

section \<open>Properties\<close>

text \<open>C31. \<^verbatim>\<open>rt_calloc\<close> allocates as \<^verbatim>\<open>rt_malloc\<close> does, and the block that it returns is
  zero: each of its first \<open>count * size\<close> bytes, a product of machine words. The heap stays well formed and the data of all blocks
  that were in use is unchanged.\<close>

theorem rt_calloc_correct:
  assumes s: "sys_heap sh w (bs, fl)" and r: "heap_ready n c (kern w)" and l: "count * nbytes \<le> 0xfffffff8"
  shows "wp (rt_calloc sh count nbytes w) (\<lambda>(out, w').
     case aheap_request (unat (memheap_round (count * nbytes))) (bs, fl) of (q, bs', fl') \<Rightarrow>
       sys_heap sh w' (bs', fl') \<and> heap_ready n c (kern w') \<and>
       data_kept bs (wmem w) bs' (wmem w') (set (butlast bs) - set fl) \<and>
       (case q of
          None \<Rightarrow> out = Returned 0
        | Some p \<Rightarrow> out = Returned (p + 24) \<and> p \<in> set fl \<and> unat (count * nbytes) \<le> bsize bs' p \<and>
            (\<forall>i < unat (count * nbytes). ld_byte (p + 24 + of_nat i) (wmem w') = Some 0)))"
proof -
  let ?z = "count * nbytes"
  obtain q bs' fl' where q: "aheap_request (unat (memheap_round ?z)) (bs, fl) = (q, bs', fl')" by (metis prod_cases3)
  have z: "unat ?z \<le> unat (memheap_round ?z)" using round_unat [OF l] by simp
  show ?thesis
    unfolding rt_calloc_def q prod.case wp_simps(4)
  proof (rule wp_mono [OF malloc_wp [OF s r]], goal_cases)
    case (1 x)
    obtain out w1 where x: "x = (out, w1)" by (cases x)
    note A = 1 [unfolded x q prod.case]
    show ?case
    proof (cases q)
      case None
      then show ?thesis using A by (auto simp: x calloc_tail_def)
    next
      case (Some p)
      have p: "p \<in> set fl" "p \<in> set (butlast bs') - set fl'" "unat ?z \<le> bsize bs' p" "16 \<le> bsize bs' p" "out = Returned (p + 24)"
        using A z round_ge(2) [of ?z] Some by auto
      have s1: "sys_heap sh w1 (bs', fl')" "data_kept bs (wmem w) bs' (wmem w1) (set (butlast bs) - set fl)" using A by blast+
      have k1: "heap_ok sh (heaps w1 sh) (wmem w1) bs' fl'" using s1(1) by (simp add: sys_heap_def)
      have pb: "p \<in> set (butlast bs')" using p by blast
      note D = data_aligned [OF k1 pb]
      have nz: "p + 24 \<noteq> 0" using D(3) by (auto simp: word_unat_eq_iff)
      have "4 dvd unat (p + 24)" by (rule dvd_trans [OF _ D(2)]) simp
      then have "wp (rt_memset (p + 24) 0 ?z (wmem w1)) (filled (unat ?z) (p + 24) 0 (wmem w1))"
        by (rule memset_wp) (use p(3) in \<open>intro data_byte(2) [OF k1 pb], simp\<close>)
      then have "wp (calloc_tail ?z (p + 24) w1) (\<lambda>(out, w'). out = Returned (p + 24) \<and> kern w' = kern w1 \<and> sys_heap sh w' (bs', fl') \<and>
         data_kept bs (wmem w) bs' (wmem w') (set (butlast bs) - set fl) \<and>
         (\<forall>i < unat ?z. ld_byte (p + 24 + of_nat i) (wmem w') = Some 0))"
        unfolding calloc_tail_def using nz
      proof (simp, elim wp_mono, goal_cases)
        case (1 m')
        have dom: "dom m' = dom (wmem w1)" using 1 by (simp only: filled_def)
        have out: "m' c = wmem w1 c" if c: "c \<notin> data_words bs' p" for c
        proof -
          have "c \<noteq> (p + 24 + of_nat i) AND NOT 3" if "i < unat ?z" for i
            using data_byte(1) [OF k1 pb order_less_le_trans [OF that p(3)]] c by blast
          then show ?thesis using 1 unfolding filled_def by blast
        qed
        note S = alloc_store [OF s q [unfolded Some] s1 dom out]
        have "\<forall>i<unat ?z. ld_byte (p + 24 + of_nat i) m' = Some 0" using 1 by (auto simp: filled_def)
        then show ?case using S by simp
      qed
      then show ?thesis using A Some p by (auto simp: x elim!: wp_mono)
    qed
  qed
qed

theorem rt_calloc_correct_witness:
  "wp (rt_calloc 0x100 25 4 sample_system) (\<lambda>(out, w'). out = Returned 0x1018 \<and>
     (\<forall>i < 100. ld_byte (0x1018 + of_nat i) (wmem w') = Some 0) \<and> sys_heap 0x100 w' ([0x1000, 0x1080, 0x1fe8], [0x1080]))"
  using rt_calloc_correct [OF sys_heap_sample, of 7 "Some 2" 25 4] sample_heap_ready sample_request
  by (auto simp: sample_system_def elim!: wp_mono)

text \<open>C30. For an alignment that is a power of two of at least four, \<^verbatim>\<open>rt_malloc_align\<close> returns a multiple of
  it, which lies inside of a block newly taken from the heap such that the requested bytes fit between it and the end of the block. The
  heap stays well formed, the data of all blocks that were in use is unchanged, and
  \<^verbatim>\<open>rt_free_align\<close> of the address releases that very block.\<close>

theorem rt_malloc_align_correct:
  assumes s: "sys_heap sh w (bs, fl)" and r: "heap_ready n c (kern w)"
    and a: "(align + 3) AND NOT 3 = 2 ^ e" "2 \<le> e" "e < 32" and z: "unat nbytes + 2 ^ e \<le> 0xfffffff5"
  shows "wp (rt_malloc_align sh nbytes align w) (\<lambda>(out, w').
     case aheap_request (unat (memheap_round (((nbytes + 3) AND NOT 3) + 2 ^ e))) (bs, fl) of (q, bs', fl') \<Rightarrow>
       sys_heap sh w' (bs', fl') \<and> heap_ready n c (kern w') \<and>
       data_kept bs (wmem w) bs' (wmem w') (set (butlast bs) - set fl) \<and>
       (case q of
          None \<Rightarrow> out = Returned 0
        | Some p \<Rightarrow> p \<in> set fl \<and> (\<exists>ptr. out = Returned ptr \<and> 2 ^ e dvd unat ptr \<and> unat p + 24 < unat ptr \<and>
            unat ptr + unat nbytes \<le> unat p + 24 + bsize bs' p \<and> rt_free_align ptr w' = rt_free (p + 24) w')))"
proof -
  let ?z = "((nbytes + 3) AND NOT 3) + 2 ^ e"
  obtain q bs' fl' where q: "aheap_request (unat (memheap_round ?z)) (bs, fl) = (q, bs', fl')" by (metis prod_cases3)
  have "unat (nbytes + 3) = unat nbytes + 3" using z by (simp add: unat_word_ariths)
  then have "unat ((nbytes + 3) AND NOT 3) = (unat nbytes + 3) div 4 * 4" by (simp only: unat_and_not_3)
  moreover have "(unat nbytes + 3) div 4 * 4 \<le> unat nbytes + 3" "unat nbytes \<le> (unat nbytes + 3) div 4 * 4" by presburger+
  ultimately have uz: "unat ?z = (unat nbytes + 3) div 4 * 4 + 2 ^ e" "?z \<le> 0xfffffff8" "2 ^ e + unat nbytes \<le> unat ?z"
    using z by (simp_all add: unat_word_ariths unat_pow [OF a(3)] word_le_nat_alt)
  have lz: "2 ^ e + unat nbytes \<le> unat (memheap_round ?z)" using round_unat [OF uz(2)] uz(3) by linarith
  show ?thesis
    unfolding rt_malloc_align_def q prod.case a(1) Let_def wp_simps(4)
  proof (rule wp_mono [OF malloc_wp [OF s r]], goal_cases)
    case (1 x)
    obtain out w1 where x: "x = (out, w1)" by (cases x)
    note A = 1 [unfolded x q prod.case]
    show ?case
    proof (cases q)
      case None
      then show ?thesis using A by (auto simp: x malloc_align_tail_def)
    next
      case (Some p)
      have p: "p \<in> set fl" "p \<in> set (butlast bs')" "2 ^ e + unat nbytes \<le> bsize bs' p" "out = Returned (p + 24)"
        using A lz Some by auto
      have s1: "sys_heap sh w1 (bs', fl')" "data_kept bs (wmem w) bs' (wmem w1) (set (butlast bs) - set fl)" using A by blast+
      have k1: "heap_ok sh (heaps w1 sh) (wmem w1) bs' fl'" using s1(1) by (simp add: sys_heap_def)
      have nz: "p + 24 \<noteq> 0" using data_aligned(3) [OF k1 p(2)] by (auto simp: word_unat_eq_iff)
      let ?a = "align_after e (p + 24)"
      note D = align_after_data [OF k1 p(2) a(2,3) p(3)]
      let ?m = "(wmem w1)(?a - 4 \<mapsto> p + 24)"
      have dom: "dom ?m = dom (wmem w1)" using D(5) by auto
      have out: "?m c = wmem w1 c" if "c \<notin> data_words bs' p" for c using that D(4) by auto
      note S = alloc_store [where m' = ?m, OF s q [unfolded Some] s1 dom out]
      have "?a \<noteq> 0" using D(2) by (auto simp: word_unat_eq_iff)
      then have f: "rt_free_align ?a (w1\<lparr>wmem := ?m\<rparr>) = rt_free (p + 24) (w1\<lparr>wmem := ?m\<rparr>)" by (simp add: rt_free_align_def ld_def)
      have t: "malloc_align_tail (2 ^ e) (p + 24) w1 = Some (Returned ?a, w1\<lparr>wmem := ?m\<rparr>)"
        unfolding malloc_align_tail_def align_after_def [symmetric] Let_def using nz D(5) by (simp add: st_def)
      show ?thesis using A Some p S D(1-3) f by (auto simp: x t)
    qed
  qed
qed

theorem rt_malloc_align_correct_witness:
  "wp (rt_malloc_align 0x100 36 64 sample_system) (\<lambda>(out, w'). sys_heap 0x100 w' ([0x1000, 0x1080, 0x1fe8], [0x1080]) \<and>
     (\<exists>ptr. out = Returned ptr \<and> 64 dvd unat ptr \<and> rt_free_align ptr w' = rt_free 0x1018 w'))"
  using rt_malloc_align_correct [OF sys_heap_sample, of 7 "Some 2" 64 6 36] sample_heap_ready sample_request
  by (auto simp: sample_system_def elim!: wp_mono)

end
