(* ===== verification/MemPool.thy ===== *)
theory MemPool
  imports System_Alloc Wait_Loop
begin

text \<open>
  Memory pools, \<^verbatim>\<open>src/mempool.c\<close>. A pool is cut into blocks of one size, each behind a header of one word: in a
  free block the header links to the next free block, in a block in use it holds the address of the pool object. A thread
  that finds no free block waits, in the order of arrival, and is woken when a block is given back.
\<close>

section \<open>Definitions\<close>

text \<open>The loop of \<^verbatim>\<open>rt_mp_init\<close> and \<^verbatim>\<open>rt_mp_create\<close> that links the free blocks, \<open>n\<close> rounds from \<open>offset\<close>
  on; \<open>stride\<close> is \<^verbatim>\<open>block_size + sizeof(rt_uint8_t *)\<close>.\<close>

fun mp_link_blocks :: "nat \<Rightarrow> u32 \<Rightarrow> u32 \<Rightarrow> u32 \<Rightarrow> memory \<Rightarrow> memory option" where
  "mp_link_blocks 0 offset block_ptr stride m = Some m"
| "mp_link_blocks (Suc n) offset block_ptr stride m = do {
     m \<leftarrow> st (block_ptr + offset * stride) (block_ptr + (offset + 1) * stride) m;
     mp_link_blocks n (offset + 1) block_ptr stride m
   }"

definition mp_format :: "u32 \<Rightarrow> u32 \<Rightarrow> u32 \<Rightarrow> memory \<Rightarrow> memory option" where
  "mp_format block_ptr stride block_total_count m = do {
     m \<leftarrow> mp_link_blocks (unat block_total_count) 0 block_ptr stride m;
     st (block_ptr + (block_total_count - 1) * stride) 0 m
   }"

definition rt_mp_init :: "pid \<Rightarrow> string \<Rightarrow> u32 \<Rightarrow> u32 \<Rightarrow> u32 \<Rightarrow> world \<Rightarrow> (rt_err_t \<times> world) option" where
  "rt_mp_init mp name start nbytes block_size w = do {
     rt_assert (mp \<noteq> 0);
     rt_assert (start \<noteq> 0);
     rt_assert (nbytes > 0 \<and> block_size > 0);
     k \<leftarrow> rt_object_init (OMemPool mp) RT_Object_Class_MemPool name (kern w);
     let nbytes = rt_align_down nbytes;
     let block_size = rt_align block_size;
     let count = nbytes div (block_size + 4);
     let k = upd_mempool mp (\<lambda>p. p\<lparr>mp_start_address := start, mp_size := nbytes, mp_block_size := block_size,
       mp_block_total_count := count, mp_block_free_count := count\<rparr>) k;
     let k = k\<lparr>tlists := (tlists k)(MpL mp := [])\<rparr>;
     m \<leftarrow> mp_format start (block_size + 4) count (wmem w);
     let k = upd_mempool mp (\<lambda>p. p\<lparr>mp_block_list := start\<rparr>) k;
     Some (RT_EOK, w\<lparr>kern := k, wmem := m\<rparr>)
   }"

definition rt_mp_detach :: "pid \<Rightarrow> world \<Rightarrow> (rt_err_t \<times> world) option" where
  "rt_mp_detach mp w = do {
     rt_assert (mp \<noteq> 0);
     rt_assert (rt_object_get_type (OMemPool mp) (kern w) = RT_Object_Class_MemPool);
     rt_assert (rt_object_is_systemobject (OMemPool mp) (kern w));
     let k = rt_spin_lock_irqsave (kern w);
     k \<leftarrow> rt_susp_list_resume_all (MpL mp) RT_ERROR k;
     k \<leftarrow> rt_object_detach (OMemPool mp) k;
     k \<leftarrow> rt_spin_unlock_irqrestore k;
     Some (RT_EOK, w\<lparr>kern := k\<rparr>)
   }"

text \<open>The rest of \<^verbatim>\<open>rt_mp_create\<close> once \<^verbatim>\<open>rt_malloc\<close> has returned.\<close>

definition mp_create_tail :: "pid \<Rightarrow> u32 \<Rightarrow> u32 \<Rightarrow> u32 \<Rightarrow> world \<Rightarrow> (pid option \<times> world) option" where
  "mp_create_tail mp block_count block_size start w =
     (let k = upd_mempool mp (\<lambda>p. p\<lparr>mp_start_address := start\<rparr>) (kern w) in
      if start = 0 then do {
        k \<leftarrow> rt_object_delete (OMemPool mp) k;
        Some (None, w\<lparr>kern := k\<rparr>)
      } else do {
        let k = upd_mempool mp (\<lambda>p. p\<lparr>mp_block_total_count := block_count, mp_block_free_count := block_count\<rparr>) k;
        let k = k\<lparr>tlists := (tlists k)(MpL mp := [])\<rparr>;
        m \<leftarrow> mp_format start (block_size + 4) block_count (wmem w);
        let k = upd_mempool mp (\<lambda>p. p\<lparr>mp_block_list := start\<rparr>) k;
        Some (Some mp, w\<lparr>kern := k, wmem := m\<rparr>)
      })"

text \<open>\<open>mem\<close> is the address that the allocation of the object yields; the blocks come from the system heap.\<close>

definition rt_mp_create :: "u32 \<Rightarrow> pid option \<Rightarrow> string \<Rightarrow> u32 \<Rightarrow> u32 \<Rightarrow> world \<Rightarrow> (pid option outcome \<times> world) option" where
  "rt_mp_create sh mem name block_count block_size w = do {
     rt_assert (debug_not_in_interrupt (kern w));
     rt_assert (block_count > 0 \<and> block_size > 0);
     (ob, k) \<leftarrow> rt_object_allocate (map_option OMemPool mem) RT_Object_Class_MemPool name (kern w);
     case (ob, mem) of
       (Some _, Some mp) \<Rightarrow> do {
         let block_size = rt_align block_size;
         let k = upd_mempool mp (\<lambda>p. p\<lparr>mp_block_size := block_size, mp_size := (block_size + 4) * block_count\<rparr>) k;
         (out, w) \<leftarrow> rt_malloc sh ((block_size + 4) * block_count) (w\<lparr>kern := k\<rparr>);
         case out of
           Waiting \<Rightarrow> Some (Waiting, w)
         | Returned start \<Rightarrow> do {
             (r, w) \<leftarrow> mp_create_tail mp block_count block_size start w;
             Some (Returned r, w)
           }
       }
     | _ \<Rightarrow> Some (Returned None, w\<lparr>kern := k\<rparr>)
   }"

text \<open>The rest of \<^verbatim>\<open>rt_mp_delete\<close> once \<^verbatim>\<open>rt_free\<close> has returned.\<close>

definition mp_delete_tail :: "pid \<Rightarrow> world \<Rightarrow> (rt_err_t \<times> world) option" where
  "mp_delete_tail mp w = do {
     k \<leftarrow> rt_object_delete (OMemPool mp) (kern w);
     Some (RT_EOK, w\<lparr>kern := k\<rparr>)
   }"

definition rt_mp_delete :: "pid \<Rightarrow> world \<Rightarrow> (rt_err_t outcome \<times> world) option" where
  "rt_mp_delete mp w = do {
     rt_assert (debug_not_in_interrupt (kern w));
     rt_assert (mp \<noteq> 0);
     rt_assert (rt_object_get_type (OMemPool mp) (kern w) = RT_Object_Class_MemPool);
     rt_assert (\<not> rt_object_is_systemobject (OMemPool mp) (kern w));
     let k = rt_spin_lock_irqsave (kern w);
     k \<leftarrow> rt_susp_list_resume_all (MpL mp) RT_ERROR k;
     k \<leftarrow> rt_spin_unlock_irqrestore k;
     (out, w) \<leftarrow> rt_free (mp_start_address (mempools k mp)) (w\<lparr>kern := k\<rparr>);
     case out of
       Waiting \<Rightarrow> Some (Waiting, w)
     | Returned _ \<Rightarrow> do {
         (r, w) \<leftarrow> mp_delete_tail mp w;
         Some (Returned r, w)
       }
   }"

text \<open>The end of \<^verbatim>\<open>rt_mp_alloc\<close>: the first free block is taken.\<close>

definition mp_take_block :: "pid \<Rightarrow> world \<Rightarrow> (u32 \<times> world) option" where
  "mp_take_block mp w = do {
     let k = upd_mempool mp (\<lambda>p. p\<lparr>mp_block_free_count := mp_block_free_count p - 1\<rparr>) (kern w);
     let block_ptr = mp_block_list (mempools k mp);
     rt_assert (block_ptr \<noteq> 0);
     next \<leftarrow> ld block_ptr (wmem w);
     let k = upd_mempool mp (\<lambda>p. p\<lparr>mp_block_list := next\<rparr>) k;
     m \<leftarrow> st block_ptr mp (wmem w);
     k \<leftarrow> rt_spin_unlock_irqrestore k;
     Some (block_ptr + 4, w\<lparr>kern := k, wmem := m\<rparr>)
   }"

text \<open>The loop of \<^verbatim>\<open>rt_mp_alloc\<close>, entered with the section held (\<open>Check\<close>) and when the thread \<open>t\<close>, which had blocked,
  runs again (\<open>Resume t before_sleep\<close>).\<close>

partial_function (option) mp_alloc_loop :: "pid \<Rightarrow> wait_phase \<Rightarrow> u32 \<Rightarrow> world \<Rightarrow> (u32 outcome \<times> world) option" where
  "mp_alloc_loop mp phase time w =
     (case phase of
        Check \<Rightarrow>
          if mp_block_free_count (mempools (kern w) mp) = 0 then
            if time = 0 then do {
              k \<leftarrow> rt_spin_unlock_irqrestore (kern w);
              Some (Returned 0, rt_set_errno (- RT_ETIMEOUT) (w\<lparr>kern := k\<rparr>))
            } else do {
              rt_assert (debug_not_in_interrupt (kern w));
              t \<leftarrow> rt_thread_self (kern w);
              let k = upd_thread t (\<lambda>th. th\<lparr>th_error := RT_EOK\<rparr>) (kern w);
              (_, k) \<leftarrow> rt_thread_suspend_to_list t (Some (MpL mp)) RT_IPC_FLAG_FIFO RT_UNINTERRUPTIBLE k;
              let before_sleep = (if sint time > 0 then rt_tick_get k else 0);
              k \<leftarrow> (if sint time > 0 then start_thread_timer t time k else Some k);
              k \<leftarrow> rt_spin_unlock_irqrestore k;
              if rt_current_thread k = Some t then mp_alloc_loop mp (Resume t before_sleep) time (w\<lparr>kern := k\<rparr>)
              else Some (Waiting, w\<lparr>kern := k\<rparr>)
            }
          else do {
            (block, w) \<leftarrow> mp_take_block mp w;
            Some (Returned block, w)
          }
      | Resume t before_sleep \<Rightarrow> do {
          k \<leftarrow> rt_schedule (kern w);
          if th_error (threads k t) \<noteq> RT_EOK then Some (Returned 0, w\<lparr>kern := k\<rparr>)
          else mp_alloc_loop mp Check (remaining_time time before_sleep (rt_tick_get k)) (w\<lparr>kern := rt_spin_lock_irqsave k\<rparr>)
        })"

definition rt_mp_alloc :: "pid \<Rightarrow> u32 \<Rightarrow> world \<Rightarrow> (u32 outcome \<times> world) option" where
  "rt_mp_alloc mp time w = do {
     rt_assert (mp \<noteq> 0);
     mp_alloc_loop mp Check time (w\<lparr>kern := rt_spin_lock_irqsave (kern w)\<rparr>)
   }"

definition rt_mp_free :: "u32 \<Rightarrow> world \<Rightarrow> world option" where
  "rt_mp_free block w =
     (if block = 0 then Some w
      else do {
        let block_ptr = block - 4;
        mp \<leftarrow> ld block_ptr (wmem w);
        let k = rt_spin_lock_irqsave (kern w);
        let k = upd_mempool mp (\<lambda>p. p\<lparr>mp_block_free_count := mp_block_free_count p + 1\<rparr>) k;
        m \<leftarrow> st block_ptr (mp_block_list (mempools k mp)) (wmem w);
        let k = upd_mempool mp (\<lambda>p. p\<lparr>mp_block_list := block_ptr\<rparr>) k;
        (thread, k) \<leftarrow> rt_susp_list_dequeue (MpL mp) RT_EOK k;
        k \<leftarrow> rt_spin_unlock_irqrestore k;
        k \<leftarrow> (if thread \<noteq> None then rt_schedule k else Some k);
        Some (w\<lparr>kern := k, wmem := m\<rparr>)
      })"

section \<open>The free list\<close>

text \<open>The headers of the blocks of a pool.\<close>

definition mp_blocks :: "rt_mempool \<Rightarrow> u32 list" where
  "mp_blocks p = map (\<lambda>i. mp_start_address p + of_nat i * (mp_block_size p + 4)) [0..<unat (mp_block_total_count p)]"

text \<open>The blocks lie one behind the other in the address space.\<close>

definition mp_layout :: "rt_mempool \<Rightarrow> bool" where
  "mp_layout p \<longleftrightarrow> mp_start_address p \<noteq> 0 \<and> 8 \<le> unat (mp_block_size p) \<and> unat (mp_block_size p) + 4 < 0x100000000 \<and>
     unat (mp_start_address p) + unat (mp_block_total_count p) * (unat (mp_block_size p) + 4) \<le> 0x100000000"

fun mp_chain :: "memory \<Rightarrow> u32 \<Rightarrow> u32 list \<Rightarrow> bool" where
  "mp_chain m p [] \<longleftrightarrow> p = 0"
| "mp_chain m p (x # xs) \<longleftrightarrow> p = x \<and> (\<exists>n. m x = Some n \<and> mp_chain m n xs)"

text \<open>The pool \<open>mp\<close> with the free blocks \<open>fl\<close>.\<close>

definition mp_ok :: "pid \<Rightarrow> rt_mempool \<Rightarrow> memory \<Rightarrow> u32 list \<Rightarrow> bool" where
  "mp_ok mp p m fl \<longleftrightarrow> mp_layout p \<and> mp_chain m (mp_block_list p) fl \<and> distinct fl \<and> set fl \<subseteq> set (mp_blocks p) \<and>
     unat (mp_block_free_count p) = length fl \<and> (\<forall>b \<in> set (mp_blocks p) - set fl. m b = Some mp)"

lemma mp_chain_other: "x \<notin> set xs \<Longrightarrow> mp_chain (m(x := v)) p xs = mp_chain m p xs"
  by (induction xs arbitrary: p) auto

lemma block_unat:
  assumes l: "mp_layout p" and i: "i < unat (mp_block_total_count p)"
  shows "unat (mp_start_address p + of_nat i * (mp_block_size p + 4)) = unat (mp_start_address p) + i * (unat (mp_block_size p) + 4)"
proof -
  let ?z = "unat (mp_block_size p) + 4"
  have z: "unat (mp_block_size p + 4) = ?z" using l by (simp add: mp_layout_def unat_word_ariths)
  have "(i + 1) * ?z \<le> unat (mp_block_total_count p) * ?z" using i by (intro mult_le_mono1) simp
  then have "i * ?z + ?z \<le> unat (mp_block_total_count p) * ?z" by (simp only: distrib_right mult_1)
  moreover have "unat (mp_start_address p) + unat (mp_block_total_count p) * ?z \<le> 0x100000000" using l by (simp only: mp_layout_def)
  ultimately have b: "unat (mp_start_address p) + i * ?z < 0x100000000" by linarith
  then have "i * ?z < 0x100000000" by linarith
  moreover have "i < 0x100000000" using unat_u32 [of "mp_block_total_count p"] i by linarith
  ultimately have "unat (of_nat i * (mp_block_size p + 4)) = i * ?z"
    unfolding unat_word_ariths(2) z by (simp add: unat_of_nat)
  then show ?thesis using b by (simp add: unat_word_ariths)
qed

lemma mp_blocks_facts:
  assumes l: "mp_layout p"
  shows "distinct (mp_blocks p)" "0 \<notin> set (mp_blocks p)" "length (mp_blocks p) = unat (mp_block_total_count p)"
proof -
  have "inj_on (\<lambda>i. mp_start_address p + of_nat i * (mp_block_size p + 4)) {0..<unat (mp_block_total_count p)}"
  proof (rule inj_onI)
    fix i j assume ij: "i \<in> {0..<unat (mp_block_total_count p)}" "j \<in> {0..<unat (mp_block_total_count p)}"
      "mp_start_address p + of_nat i * (mp_block_size p + 4) = mp_start_address p + of_nat j * (mp_block_size p + 4)"
    then have lt: "i < unat (mp_block_total_count p)" "j < unat (mp_block_total_count p)" by simp_all
    have "i * (unat (mp_block_size p) + 4) = j * (unat (mp_block_size p) + 4)"
      using block_unat [OF l lt(1)] block_unat [OF l lt(2)] arg_cong [OF ij(3), of unat] by linarith
    then show "i = j" by (simp only: mult_cancel2) simp
  qed
  then show "distinct (mp_blocks p)" by (simp add: mp_blocks_def distinct_map)
  have "mp_start_address p + of_nat i * (mp_block_size p + 4) \<noteq> 0" if "i < unat (mp_block_total_count p)" for i
  proof -
    have "0 < unat (mp_start_address p)" using l by (simp add: mp_layout_def unat_gt_0)
    then have "unat (mp_start_address p + of_nat i * (mp_block_size p + 4)) \<noteq> 0" unfolding block_unat [OF l that] by linarith
    then show ?thesis by (metis unat_0)
  qed
  then show "0 \<notin> set (mp_blocks p)" by (auto simp: mp_blocks_def)
  show "length (mp_blocks p) = unat (mp_block_total_count p)" by (simp add: mp_blocks_def)
qed

lemma mp_same_layout: "mp_layout (p\<lparr>mp_block_free_count := c, mp_block_list := x\<rparr>) = mp_layout p"
  "mp_blocks (p\<lparr>mp_block_free_count := c, mp_block_list := x\<rparr>) = mp_blocks p"
  by (simp_all add: mp_layout_def mp_blocks_def)

text \<open>Taking the first free block, and giving a block back.\<close>

lemma mp_ok_take:
  assumes o: "mp_ok mp p m (x # xs)" and n: "m x = Some n"
  shows "mp_ok mp (p\<lparr>mp_block_free_count := mp_block_free_count p - 1, mp_block_list := n\<rparr>) (m(x \<mapsto> mp)) xs"
proof -
  have c: "unat (mp_block_free_count p) = Suc (length xs)" using o by (simp add: mp_ok_def)
  then have "1 \<le> mp_block_free_count p" by (simp add: word_le_nat_alt)
  then have "unat (mp_block_free_count p - 1) = length xs" using c unat_sub [of 1 "mp_block_free_count p"] by simp
  then show ?thesis using o n by (auto simp: mp_ok_def mp_same_layout mp_chain_other)
qed

lemma mp_ok_give:
  assumes o: "mp_ok mp p m fl" and b: "b \<in> set (mp_blocks p)" "b \<notin> set fl"
  shows "mp_ok mp (p\<lparr>mp_block_free_count := mp_block_free_count p + 1, mp_block_list := b\<rparr>) (m(b \<mapsto> mp_block_list p)) (b # fl)"
proof -
  note F = mp_blocks_facts [of p]
  have "length (b # fl) \<le> length (mp_blocks p)"
    using o b F(1) card_mono [of "set (mp_blocks p)" "set (b # fl)"] distinct_card [of "b # fl"] distinct_card [of "mp_blocks p"]
    by (auto simp: mp_ok_def)
  then have "unat (mp_block_free_count p) + 1 < 0x100000000"
    using o F(3) unat_u32 [of "mp_block_total_count p"] by (auto simp: mp_ok_def)
  then have "unat (mp_block_free_count p + 1) = Suc (length fl)" using o by (simp add: mp_ok_def unat_word_ariths)
  then show ?thesis using o b by (auto simp: mp_ok_def mp_same_layout mp_chain_other)
qed

section \<open>Allocation\<close>

text \<open>Only the pool \<open>mp\<close> of the kernel objects is touched.\<close>

definition mp_only :: "pid \<Rightarrow> kernel \<Rightarrow> kernel \<Rightarrow> bool" where
  "mp_only mp k k' \<longleftrightarrow> (\<forall>q. q \<noteq> mp \<longrightarrow> mempools k' q = mempools k q) \<and> sems k' = sems k \<and> mutexes k' = mutexes k \<and>
     events k' = events k \<and> mailboxes k' = mailboxes k \<and> msgqueues k' = msgqueues k \<and> rt_tick k' = rt_tick k"

lemma same_ipc_mp_only: "same_ipc k k' \<Longrightarrow> mp_only mp k k'"
  by (simp add: same_ipc_def mp_only_def)

lemma mp_ok_empty: "mp_ok mp p m fl \<Longrightarrow> mp_block_free_count p = 0 \<longleftrightarrow> fl = []"
  by (auto simp: mp_ok_def word_unat_eq_iff)

lemma mp_take_block_wp:
  assumes k: "kok n (kern w)" and o: "mp_ok mp (mempools (kern w) mp) (wmem w) (x # xs)"
  shows "wp (mp_take_block mp (w\<lparr>kern := rt_enter_critical (kern w)\<rparr>)) (\<lambda>(b, w'). b = x + 4 \<and> kok n (kern w') \<and>
     mp_ok mp (mempools (kern w') mp) (wmem w') xs \<and> wmem w' = (wmem w)(x \<mapsto> mp) \<and> mp_only mp (kern w) (kern w') \<and>
     heaps w' = heaps w \<and> (\<forall>h. is_susp_list h \<longrightarrow> tlists (kern w') h = tlists (kern w) h))"
proof -
  let ?p = "mempools (kern w) mp"
  obtain nx where nx: "wmem w x = Some nx" and hd: "mp_block_list ?p = x" using o by (auto simp: mp_ok_def)
  have "x \<in> set (mp_blocks ?p)" "mp_layout ?p" using o by (simp_all add: mp_ok_def)
  then have x0: "x \<noteq> 0" using mp_blocks_facts(2) [of ?p] by metis
  let ?k = "upd_mempool mp (\<lambda>_. ?p\<lparr>mp_block_free_count := mp_block_free_count ?p - 1, mp_block_list := nx\<rparr>) (kern w)"
  have e: "upd_mempool mp (\<lambda>p. p\<lparr>mp_block_list := nx\<rparr>) (upd_mempool mp (\<lambda>p. p\<lparr>mp_block_free_count := mp_block_free_count p - 1\<rparr>)
      (rt_enter_critical (kern w))) = rt_enter_critical ?k"
    by (simp add: upd_mempool_def rt_enter_critical_def)
  have "wp (rt_exit_critical (rt_enter_critical ?k)) (\<lambda>k'. kok n k' \<and> sched_only ?k k')"
    by (rule kok_section_wp) (use k in simp_all)
  then have "wp (rt_exit_critical (rt_enter_critical ?k)) (\<lambda>k'. kok n k' \<and> mp_ok mp (mempools k' mp) ((wmem w)(x \<mapsto> mp)) xs \<and>
     mp_only mp (kern w) k' \<and> (\<forall>h. is_susp_list h \<longrightarrow> tlists k' h = tlists (kern w) h))"
    using mp_ok_take [OF o nx] same_ipc_sched_only sched_only_susp
    by (auto simp: same_ipc_def mp_only_def upd_sel elim!: wp_mono)
  then show ?thesis
    unfolding mp_take_block_def using hd x0 nx
    by (simp add: upd_sel ld_def st_def spin_defs e)
qed

lemma mp_loop_avail:
  assumes "kok n (kern w)" "mp_ok mp (mempools (kern w) mp) (wmem w) (x # xs)"
  shows "wp (mp_alloc_loop mp Check time (w\<lparr>kern := rt_enter_critical (kern w)\<rparr>)) (\<lambda>(out, w'). out = Returned (x + 4) \<and> kok n (kern w') \<and>
     mp_ok mp (mempools (kern w') mp) (wmem w') xs \<and> wmem w' = (wmem w)(x \<mapsto> mp) \<and> mp_only mp (kern w) (kern w') \<and>
     heaps w' = heaps w \<and> (\<forall>h. is_susp_list h \<longrightarrow> tlists (kern w') h = tlists (kern w) h))"
  using mp_take_block_wp [OF assms] mp_ok_empty [OF assms(2)]
  by (subst mp_alloc_loop.simps) (auto elim!: wp_mono)

lemma mp_loop_expired:
  assumes k: "kok n (kern w)" and o: "mp_ok mp (mempools (kern w) mp) (wmem w) []"
  shows "wp (mp_alloc_loop mp Check 0 (w\<lparr>kern := rt_enter_critical (kern w)\<rparr>)) (\<lambda>(out, w'). out = Returned 0 \<and> kok n (kern w') \<and>
     mempools (kern w') = mempools (kern w) \<and> wmem w' = wmem w \<and> mp_only mp (kern w) (kern w') \<and> heaps w' = heaps w \<and>
     (\<forall>h. is_susp_list h \<longrightarrow> tlists (kern w') h = tlists (kern w) h))"
proof -
  have "wp (rt_exit_critical (rt_enter_critical (kern w))) (\<lambda>k'. kok n k' \<and> sched_only (kern w) k')"
    by (rule kok_section_wp [OF k]) simp
  then have "wp (rt_exit_critical (rt_enter_critical (kern w))) (\<lambda>k'. kok n k' \<and> mempools k' = mempools (kern w) \<and>
     mp_only mp (kern w) k' \<and> (\<forall>h. is_susp_list h \<longrightarrow> tlists k' h = tlists (kern w) h))"
    using same_ipc_sched_only sched_only_susp by (auto simp: same_ipc_def mp_only_def elim!: wp_mono)
  then show ?thesis
    using mp_ok_empty [OF o]
    by (subst mp_alloc_loop.simps)
      (auto simp: spin_defs MemHeap_Core.rt_set_errno_def mp_only_def upd_sel elim!: wp_mono split: option.splits)
qed

lemma mp_loop_block:
  assumes k: "kok (Suc n) (kern w)" and m: "may_block t (kern w)" and o: "mp_ok mp (mempools (kern w) mp) (wmem w) []"
    and to: "time \<noteq> 0" "time \<noteq> 0x7fffffff"
  shows "wp (mp_alloc_loop mp Check time (w\<lparr>kern := rt_enter_critical (kern w)\<rparr>)) (\<lambda>(out, w'). out = Waiting \<and> kok (Suc n) (kern w') \<and>
     waits t (MpL mp) RT_IPC_FLAG_FIFO time (kern w) (kern w') \<and> same_ipc (kern w) (kern w') \<and> wmem w' = wmem w \<and> heaps w' = heaps w)"
proof -
  let ?Q = "\<lambda>k'. kok (Suc n) k' \<and> waits t (MpL mp) RT_IPC_FLAG_FIFO time (kern w) k' \<and> same_ipc (kern w) k'"
  have c: "rt_current_thread (kern w) = Some t" and d: "debug_not_in_interrupt (kern w)"
    using m by (simp_all add: may_block_def debug_not_in_interrupt_def)
  have b: "wp (rt_thread_suspend_to_list t (Some (MpL mp)) RT_IPC_FLAG_FIFO RT_UNINTERRUPTIBLE
       (upd_thread t (\<lambda>th. th\<lparr>th_error := 0\<rparr>) (rt_enter_critical (kern w))))
     (\<lambda>(ret, k1). ret = RT_EOK \<and>
       wp (if 0 < sint time then start_thread_timer t time k1 else Some k1) (\<lambda>k2. wp (rt_exit_critical k2) ?Q))"
    by (rule block_wp [OF k m _ _ to(2)]) auto
  have q: "rt_current_thread k' \<noteq> Some t" if "?Q k'" for k' using that by (simp add: waits_def)
  have d': "debug_not_in_interrupt (rt_enter_critical (kern w))"
    using d by (simp add: debug_not_in_interrupt_def rt_interrupt_get_nest_def)
  show ?thesis
    by (subst mp_alloc_loop.simps)
      (use b q c d' to(1) mp_ok_empty [OF o] in \<open>auto simp: rt_thread_self_def spin_defs elim!: wp_mono split: if_splits\<close>)
qed

section \<open>Release\<close>

text \<open>The end of \<^verbatim>\<open>rt_mp_free\<close> wakes the first waiter as the other calls do.\<close>

lemma mp_wake_wp:
  assumes k: "kok (Suc n) k" and h: "is_susp_list h" and c: "rt_current_thread k \<noteq> None"
  shows "wp (rt_susp_list_dequeue h 0 (rt_enter_critical k)) (\<lambda>(r, k1). wp (rt_exit_critical k1)
     (\<lambda>k2. wp (if r \<noteq> None then rt_schedule k2 else Some k2) (\<lambda>k'. kok (Suc n) k' \<and> resumed h k k')))"
proof (cases "tlists k h")
  case Nil
  have "wp (resume_one h (rt_enter_critical k)) (\<lambda>k'. kok (Suc n) k' \<and> resumed h k k')"
    by (rule resume_one_wp [OF k h c]) blast
  then show ?thesis by (simp add: Nil resume_one_def rt_susp_list_dequeue_def spin_defs)
next
  case (Cons t ts)
  have "wp (resume_one h (rt_enter_critical k)) (\<lambda>k'. kok (Suc n) k' \<and> resumed h k k')"
    by (rule resume_one_wp [OF k h c]) blast
  moreover have "wp (rt_susp_list_dequeue h 0 (rt_enter_critical k)) (\<lambda>(r, k1). r = Some t)"
    by (rule wake_section_wp [OF k h Cons]) simp_all
  ultimately show ?thesis by (auto simp: Cons resume_one_def spin_defs wp_def bind_eq_Some_conv)
qed

lemma block_data_addr:
  assumes l: "mp_layout p" and b: "b \<in> set (mp_blocks p)"
  shows "b + 4 \<noteq> 0"
proof -
  let ?z = "unat (mp_block_size p) + 4" and ?n = "unat (mp_block_total_count p)"
  obtain i where i: "i < ?n" "b = mp_start_address p + of_nat i * (mp_block_size p + 4)" using b by (auto simp: mp_blocks_def)
  have "(i + 1) * ?z \<le> ?n * ?z" using i(1) by (intro mult_le_mono1) simp
  then have "i * ?z + ?z \<le> ?n * ?z" by (simp only: distrib_right mult_1)
  moreover have "unat (mp_start_address p) + ?n * ?z \<le> 0x100000000" "8 \<le> unat (mp_block_size p)" using l by (simp_all only: mp_layout_def)
  moreover have "unat b = unat (mp_start_address p) + i * ?z" unfolding i(2) by (rule block_unat [OF l i(1)])
  ultimately have "unat b + 4 < 0x100000000" by linarith
  then have "unat (b + 4) = unat b + 4" by (simp add: unat_word_ariths)
  then show ?thesis by (metis add_is_0 unat_0 zero_neq_numeral)
qed

section \<open>Formatting\<close>

lemma link_blocks_wp:
  fixes ptr stride :: u32
  defines "B \<equiv> \<lambda>i. ptr + of_nat i * stride"
  assumes "inj_on B {i..<i + n}" "\<And>j. j \<in> {i..<i + n} \<Longrightarrow> m (B j) \<noteq> None"
  shows "wp (mp_link_blocks n (of_nat i) ptr stride m) (\<lambda>m'. (\<forall>j \<in> {i..<i + n}. m' (B j) = Some (B (Suc j))) \<and>
     (\<forall>c. c \<notin> B ` {i..<i + n} \<longrightarrow> m' c = m c))"
  using assms(2,3)
proof (induction n arbitrary: i m)
  case (Suc n)
  have sub: "{Suc i..<Suc i + n} \<subseteq> {i..<i + Suc n}" "insert i {Suc i..<Suc i + n} = {i..<i + Suc n}" by auto
  let ?m = "m(B i \<mapsto> B (Suc i))"
  have ni: "B i \<notin> B ` {Suc i..<Suc i + n}" using Suc(2) unfolding inj_on_def by force
  have "wp (mp_link_blocks n (of_nat (Suc i)) ptr stride ?m) (\<lambda>m'. (\<forall>j \<in> {Suc i..<Suc i + n}. m' (B j) = Some (B (Suc j))) \<and>
     (\<forall>c. c \<notin> B ` {Suc i..<Suc i + n} \<longrightarrow> m' c = ?m c))"
    by (rule Suc(1)) (use Suc(3) inj_on_subset [OF Suc(2) sub(1)] sub(1) in \<open>auto\<close>)
  then have "wp (mp_link_blocks n (of_nat (Suc i)) ptr stride ?m) (\<lambda>m'. (\<forall>j \<in> {i..<i + Suc n}. m' (B j) = Some (B (Suc j))) \<and>
     (\<forall>c. c \<notin> B ` {i..<i + Suc n} \<longrightarrow> m' c = m c))"
    by (rule wp_mono) (use ni in \<open>unfold sub(2) [symmetric] image_insert ball_simps(7), auto\<close>)
  moreover have "m (B i) \<noteq> None" using Suc(3) [of i] by simp
  ultimately show ?case by (simp add: st_def B_def algebra_simps)
qed simp

lemma mp_chain_linked:
  assumes "i \<le> n" "\<And>j. j \<in> {i..<n} \<Longrightarrow> m (B j) = Some (B (Suc j))" "m (B n) = Some 0"
  shows "mp_chain m (B i) (map B [i..<Suc n])"
  using assms
proof (induction "n - i" arbitrary: i)
  case (Suc d)
  then have "mp_chain m (B (Suc i)) (map B [Suc i..<Suc n])" by (intro Suc(1)) auto
  moreover have "[i..<Suc n] = i # [Suc i..<Suc n]" using Suc(2) by (simp add: upt_conv_Cons del: upt_Suc)
  moreover have "m (B i) = Some (B (Suc i))" using Suc(2,4) by simp
  ultimately show ?case by (simp del: upt_Suc)
qed simp

lemma mp_format_wp:
  assumes l: "mp_layout p" and c: "0 < unat (mp_block_total_count p)" and fc: "mp_block_free_count p = mp_block_total_count p"
    and b: "mp_block_list p = mp_start_address p" and m: "\<And>x. x \<in> set (mp_blocks p) \<Longrightarrow> m x \<noteq> None"
  shows "wp (mp_format (mp_start_address p) (mp_block_size p + 4) (mp_block_total_count p) m) (\<lambda>m'. mp_ok mp p m' (mp_blocks p) \<and>
     (\<forall>x. x \<notin> set (mp_blocks p) \<longrightarrow> m' x = m x))"
proof -
  let ?n = "unat (mp_block_total_count p)" and ?B = "\<lambda>i. mp_start_address p + of_nat i * (mp_block_size p + 4)"
  obtain n where n: "?n = Suc n" using c by (metis gr0_implies_Suc)
  have bs: "mp_blocks p = map ?B [0..<?n]" by (simp add: mp_blocks_def)
  have inj: "inj_on ?B {0..<0 + ?n}" using mp_blocks_facts(1) [OF l] by (simp add: bs distinct_map)
  have S: "set (mp_blocks p) = ?B ` {0..<?n}" by (simp add: bs)
  have last: "mp_start_address p + (mp_block_total_count p - 1) * (mp_block_size p + 4) = ?B n"
  proof -
    have "mp_block_total_count p = of_nat (Suc n)" unfolding n [symmetric] by simp
    then have "of_nat n = mp_block_total_count p - 1" by simp
    then show ?thesis by simp
  qed
  have "wp (mp_link_blocks ?n 0 (mp_start_address p) (mp_block_size p + 4) m) (\<lambda>m'. (\<forall>j \<in> {0..<?n}. m' (?B j) = Some (?B (Suc j))) \<and>
     (\<forall>x. x \<notin> ?B ` {0..<?n} \<longrightarrow> m' x = m x))"
    using link_blocks_wp [OF inj, of m] m by (simp add: bs)
  then have "wp (mp_link_blocks ?n 0 (mp_start_address p) (mp_block_size p + 4) m) (\<lambda>m1. wp (st (?B n) 0 m1) (\<lambda>m'. mp_ok mp p m' (mp_blocks p) \<and>
     (\<forall>x. x \<notin> set (mp_blocks p) \<longrightarrow> m' x = m x)))"
  proof (rule wp_mono, goal_cases)
    case (1 m1)
    have nn: "n \<in> {0..<?n}" using n by simp
    have m1: "m1 (?B n) \<noteq> None" using 1 nn by blast
    have ne: "?B j \<noteq> ?B n" if "j \<in> {0..<n}" for j
      using inj_onD [OF inj, of j n] that n by auto
    have "mp_chain (m1(?B n \<mapsto> 0)) (?B 0) (map ?B [0..<Suc n])"
      by (rule mp_chain_linked) (use 1 n ne in auto)
    then have "mp_ok mp p (m1(?B n \<mapsto> 0)) (mp_blocks p)"
      using l b fc mp_blocks_facts [OF l] by (simp add: mp_ok_def bs n)
    moreover have "(m1(?B n \<mapsto> 0)) x = m x" if "x \<notin> set (mp_blocks p)" for x
      using 1 that nn unfolding S by auto
    ultimately show ?case using m1 by (simp add: st_def)
  qed
  then show ?thesis by (simp add: mp_format_def last)
qed

section \<open>Running again\<close>

lemma mp_only_trans: "mp_only mp k k1 \<Longrightarrow> mp_only mp k1 k2 \<Longrightarrow> mp_only mp k k2"
  by (simp add: mp_only_def)

lemma mp_loop_resume:
  assumes k: "kok n (kern w)" and m: "may_block t (kern w)" "chosen t (kern w)"
    and E: "\<And>k'. kok n k' \<Longrightarrow> same_ipc (kern w) k' \<Longrightarrow> th_error (threads (kern w) t) \<noteq> 0 \<Longrightarrow> Q (Returned 0, w\<lparr>kern := k'\<rparr>)"
    and C: "\<And>k'. kok n k' \<Longrightarrow> same_ipc (kern w) k' \<Longrightarrow> may_block t k' \<Longrightarrow> th_error (threads (kern w) t) = 0 \<Longrightarrow>
       wp (mp_alloc_loop mp Check (remaining_time time start (rt_tick (kern w))) (w\<lparr>kern := rt_enter_critical k'\<rparr>)) Q"
  shows "wp (mp_alloc_loop mp (Resume t start) time w) Q"
proof -
  have "wp (rt_schedule (kern w)) (\<lambda>k'. wp (if th_error (threads k' t) \<noteq> 0 then Some (Returned 0, w\<lparr>kern := k'\<rparr>)
     else mp_alloc_loop mp Check (remaining_time time start (rt_tick k')) (w\<lparr>kern := rt_enter_critical k'\<rparr>)) Q)"
  proof (rule chosen_schedule_wp [OF k m])
    fix k' assume k': "kok n k'" "sched_only (kern w) k'" "may_block t k'"
    note S = same_ipc_sched_only [OF k'(2)]
    have "rt_tick k' = rt_tick (kern w)" using S by (simp add: same_ipc_def)
    then show "wp (if th_error (threads k' t) \<noteq> 0 then Some (Returned 0, w\<lparr>kern := k'\<rparr>)
       else mp_alloc_loop mp Check (remaining_time time start (rt_tick k')) (w\<lparr>kern := rt_enter_critical k'\<rparr>)) Q"
      using E [OF k'(1) S] C [OF k'(1) S k'(3)] sched_onlyD(7) [OF k'(2), of t] by simp
  qed
  then show ?thesis
    by (subst mp_alloc_loop.simps) (auto simp: spin_defs rt_tick_get_def elim!: wp_mono split: if_splits)
qed

section \<open>A sample pool\<close>

text \<open>A pool of two blocks of eight bytes, at address 0x200, whose object is at 0x80: the free list starts at \<open>first\<close>,
  \<open>free\<close> blocks are free, and \<open>hdr\<close> is the header of the first block.\<close>

definition sample_pool :: "u32 \<Rightarrow> u32 \<Rightarrow> rt_mempool" where
  "sample_pool first free = \<lparr>mp_start_address = 0x200, mp_size = 24, mp_block_size = 8, mp_block_list = first,
     mp_block_total_count = 2, mp_block_free_count = free\<rparr>"

definition sample_pool_world :: "u32 \<Rightarrow> u32 \<Rightarrow> u32 \<Rightarrow> world" where
  "sample_pool_world first free hdr = sample_world\<lparr>kern := upd_mempool 0x80 (\<lambda>_. sample_pool first free) sample_block,
     wmem := [0x200 \<mapsto> hdr, 0x20c \<mapsto> 0]\<rparr>"

lemma sample_pool_simps [simp]:
  "mp_blocks (sample_pool first free) = [0x200, 0x20c]" "mempools (kern (sample_pool_world first free hdr)) 0x80 = sample_pool first free"
  "rt_current_thread (kern (sample_pool_world first free hdr)) = Some 2"
  by (simp_all add: sample_pool_world_def upd_sel mp_blocks_def sample_pool_def upt_rec)

lemma sample_pool_facts:
  "kok (Suc 7) (kern (sample_pool_world first free hdr))" "may_block 2 (kern (sample_pool_world first free hdr))"
  "mp_ok 0x80 (mempools (kern (sample_pool_world 0x200 2 0x20c)) 0x80) (wmem (sample_pool_world 0x200 2 0x20c)) [0x200, 0x20c]"
  "mp_ok 0x80 (mempools (kern (sample_pool_world 0x20c 1 0x80)) 0x80) (wmem (sample_pool_world 0x20c 1 0x80)) [0x20c]"
  "chosen 2 (kern (sample_pool_world first free hdr))" "rt_tick (kern (sample_pool_world first free hdr)) = 0"
  "th_error (threads (kern (sample_pool_world first free hdr)) 2) = 0"
proof -
  show "mp_ok 0x80 (mempools (kern (sample_pool_world 0x200 2 0x20c)) 0x80) (wmem (sample_pool_world 0x200 2 0x20c)) [0x200, 0x20c]"
    by (auto simp: mp_ok_def) (simp_all add: sample_pool_world_def sample_pool_def mp_layout_def)
  show "mp_ok 0x80 (mempools (kern (sample_pool_world 0x20c 1 0x80)) 0x80) (wmem (sample_pool_world 0x20c 1 0x80)) [0x20c]"
    by (auto simp: mp_ok_def) (simp_all add: sample_pool_world_def sample_pool_def mp_layout_def)
  show "chosen 2 (kern (sample_pool_world first free hdr))"
    unfolding chosen_def by (auto simp: sample_pool_world_def upd_sel sample_ready keeps_cpu_def split: if_splits)
qed (use kok_sample_block may_block_sample in \<open>simp_all add: sample_pool_world_def may_block_def upd_sel rt_interrupt_get_nest_def
   tt_wf_def rt_object_get_type_def sample_kernel_def zero_kernel_def sample_thread_def zero_thread_def\<close>)

section \<open>Properties\<close>

text \<open>C32. Allocating a block of a memory pool takes the first free one: the block leaves the free list and its header
  refers to the pool, no other word of memory changes. When all blocks are in use, the call without waiting returns the null
  pointer and changes nothing; otherwise the thread queues behind the other waiters, with its timer started for a positive
  timeout. The pool stays well formed and no other object is touched.\<close>

theorem rt_mp_alloc_correct:
  assumes k: "kok (Suc n) (kern w)" and p: "mp \<noteq> 0" "mp_ok mp (mempools (kern w) mp) (wmem w) fl"
    and m: "time \<noteq> 0 \<Longrightarrow> may_block t (kern w)" and to: "time \<noteq> 0x7fffffff"
  shows "wp (rt_mp_alloc mp time w) (\<lambda>(out, w'). kok (Suc n) (kern w') \<and> mp_only mp (kern w) (kern w') \<and> heaps w' = heaps w \<and>
     (case fl of
        b # bs \<Rightarrow> out = Returned (b + 4) \<and> mp_ok mp (mempools (kern w') mp) (wmem w') bs \<and> wmem w' = (wmem w)(b \<mapsto> mp) \<and>
          (\<forall>h. is_susp_list h \<longrightarrow> tlists (kern w') h = tlists (kern w) h)
      | [] \<Rightarrow> mempools (kern w') = mempools (kern w) \<and> wmem w' = wmem w \<and>
          (if time = RT_WAITING_NO then out = Returned 0 \<and> tlists (kern w') (MpL mp) = tlists (kern w) (MpL mp)
           else out = Waiting \<and> waits t (MpL mp) RT_IPC_FLAG_FIFO time (kern w) (kern w'))))"
proof (cases fl)
  case Nil
  show ?thesis
  proof (cases "time = 0")
    case True
    have "wp (mp_alloc_loop mp Check 0 (w\<lparr>kern := rt_enter_critical (kern w)\<rparr>)) (\<lambda>(out, w'). out = Returned 0 \<and> kok (Suc n) (kern w') \<and>
     mempools (kern w') = mempools (kern w) \<and> wmem w' = wmem w \<and> mp_only mp (kern w) (kern w') \<and> heaps w' = heaps w \<and>
     (\<forall>h. is_susp_list h \<longrightarrow> tlists (kern w') h = tlists (kern w) h))"
      by (rule mp_loop_expired [OF k p(2) [unfolded Nil]])
    then show ?thesis using p(1) Nil True by (auto simp: rt_mp_alloc_def spin_defs elim!: wp_mono)
  next
    case False
    show ?thesis
      using mp_loop_block [OF k m [OF False] p(2) [unfolded Nil] False to] p(1) Nil False same_ipc_mp_only
      by (auto simp: rt_mp_alloc_def spin_defs same_ipc_def elim!: wp_mono)
  qed
next
  case (Cons b bs)
  show ?thesis
    using mp_loop_avail [OF k p(2) [unfolded Cons], of time] p(1) Cons by (auto simp: rt_mp_alloc_def spin_defs elim!: wp_mono)
qed

theorem rt_mp_alloc_correct_witness:
  "wp (rt_mp_alloc 0x80 5 (sample_pool_world 0x200 2 0x20c)) (\<lambda>(out, w'). out = Returned 0x204 \<and>
     mp_ok 0x80 (mempools (kern w') 0x80) (wmem w') [0x20c])"
  using rt_mp_alloc_correct [OF sample_pool_facts(1) _ sample_pool_facts(3), of 5 2] sample_pool_facts(2) by (auto elim!: wp_mono)

text \<open>C33. Giving back a block finds its pool by the header of the block: the block becomes the first free one, its header
  is the only word of memory that changes, and the thread that has waited longest, if any, is woken with
  \<^verbatim>\<open>RT_EOK\<close>.\<close>

theorem rt_mp_free_correct:
  assumes k: "kok (Suc n) (kern w)" "rt_current_thread (kern w) \<noteq> None" and p: "mp_ok mp (mempools (kern w) mp) (wmem w) fl"
    and b: "b \<in> set (mp_blocks (mempools (kern w) mp))" "b \<notin> set fl"
  shows "wp (rt_mp_free (b + 4) w) (\<lambda>w'. kok (Suc n) (kern w') \<and> mp_only mp (kern w) (kern w') \<and> heaps w' = heaps w \<and>
     mp_ok mp (mempools (kern w') mp) (wmem w') (b # fl) \<and> (\<forall>a. a \<noteq> b \<longrightarrow> wmem w' a = wmem w a) \<and>
     tlists (kern w') (MpL mp) = tl (tlists (kern w) (MpL mp)) \<and>
     (\<forall>t ts. tlists (kern w) (MpL mp) = t # ts \<longrightarrow> \<not> thread_suspended (kern w') t \<and> th_error (threads (kern w') t) = RT_EOK))"
proof -
  let ?p = "mempools (kern w) mp"
  let ?p' = "?p\<lparr>mp_block_free_count := mp_block_free_count ?p + 1, mp_block_list := b\<rparr>"
  have l: "mp_layout ?p" and h: "wmem w b = Some mp" using p b by (simp_all add: mp_ok_def)
  have nz: "b + 4 \<noteq> 0" by (rule block_data_addr [OF l b(1)])
  let ?k = "upd_mempool mp (\<lambda>_. ?p') (kern w)"
  have e: "upd_mempool mp (\<lambda>p. p\<lparr>mp_block_list := b\<rparr>) (upd_mempool mp (\<lambda>p. p\<lparr>mp_block_free_count := mp_block_free_count p + 1\<rparr>)
      (rt_enter_critical (kern w))) = rt_enter_critical ?k"
    by (simp add: upd_mempool_def rt_enter_critical_def)
  have "wp (rt_susp_list_dequeue (MpL mp) 0 (rt_enter_critical ?k)) (\<lambda>(r, k1). wp (rt_exit_critical k1)
     (\<lambda>k2. wp (if r \<noteq> None then rt_schedule k2 else Some k2) (\<lambda>k'. kok (Suc n) k' \<and> resumed (MpL mp) ?k k')))"
    by (rule mp_wake_wp) (use k in \<open>simp_all add: upd_sel\<close>)
  then have "wp (rt_susp_list_dequeue (MpL mp) 0 (rt_enter_critical ?k)) (\<lambda>(r, k1). wp (rt_exit_critical k1)
     (\<lambda>k2. wp (if r \<noteq> None then rt_schedule k2 else Some k2) (\<lambda>k'. kok (Suc n) k' \<and> mp_only mp (kern w) k' \<and>
       mp_ok mp (mempools k' mp) ((wmem w)(b \<mapsto> mp_block_list ?p)) (b # fl) \<and> tlists k' (MpL mp) = tl (tlists (kern w) (MpL mp)) \<and>
       (\<forall>t ts. tlists (kern w) (MpL mp) = t # ts \<longrightarrow> \<not> thread_suspended k' t \<and> th_error (threads k' t) = 0))))"
    using mp_ok_give [OF p b]
    by (auto simp: resumed_def same_ipc_def mp_only_def upd_sel elim!: wp_mono)
  then show ?thesis
    using nz h by (auto simp: rt_mp_free_def ld_def st_def spin_defs upd_sel e elim!: wp_mono)
qed

theorem rt_mp_free_correct_witness:
  "wp (rt_mp_free 0x204 (sample_pool_world 0x20c 1 0x80)) (\<lambda>w'. kok 8 (kern w') \<and>
     mp_ok 0x80 (mempools (kern w') 0x80) (wmem w') [0x200, 0x20c])"
  using rt_mp_free_correct [OF sample_pool_facts(1) _ sample_pool_facts(4), of "0x200"] by (auto elim!: wp_mono)

text \<open>A thread that had to wait for a block and runs again: with an error code, left by its timer or by the deletion of the
  pool, it returns the null pointer; when a block is free it takes it; when another thread was faster it waits on until
  its first deadline, across a wrap of the tick counter, and past the deadline it returns the null pointer.\<close>

theorem rt_mp_alloc_resumed:
  assumes k: "kok (Suc n) (kern w)" and m: "may_block t (kern w)" "chosen t (kern w)"
    and p: "mp_ok mp (mempools (kern w) mp) (wmem w) fl"
    and to: "0 < sint time" "time \<noteq> 0x7fffffff" and el: "unat (rt_tick (kern w) - start) \<le> unat time + 0x80000000"
  shows "wp (mp_alloc_loop mp (Resume t start) time w) (\<lambda>(out, w'). kok (Suc n) (kern w') \<and> mp_only mp (kern w) (kern w') \<and>
     (if th_error (threads (kern w) t) \<noteq> RT_EOK
      then out = Returned 0 \<and> mempools (kern w') = mempools (kern w) \<and> wmem w' = wmem w
      else case fl of
        b # bs \<Rightarrow> out = Returned (b + 4) \<and> mp_ok mp (mempools (kern w') mp) (wmem w') bs
      | [] \<Rightarrow> mempools (kern w') = mempools (kern w) \<and> wmem w' = wmem w \<and>
          (if rt_tick (kern w) - start < time
           then out = Waiting \<and> t \<in> set (tlists (kern w') (MpL mp)) \<and> timer_active (kern w') (ThreadTimer t) \<and>
                tm_timeout_tick (timers (kern w') (ThreadTimer t)) = start + time
           else out = Returned 0)))" (is "wp _ ?P")
proof (rule mp_loop_resume [OF k m])
  fix k' assume "kok (Suc n) k'" "same_ipc (kern w) k'" "th_error (threads (kern w) t) \<noteq> 0"
  then show "?P (Returned 0, w\<lparr>kern := k'\<rparr>)" using same_ipc_mp_only by (simp add: same_ipc_def)
next
  let ?r = "remaining_time time start (rt_tick (kern w))"
  fix k' assume k': "kok (Suc n) k'" "same_ipc (kern w) k'" "may_block t k'" "th_error (threads (kern w) t) = 0"
  let ?w = "w\<lparr>kern := k'\<rparr>"
  have e: "w\<lparr>kern := rt_enter_critical k'\<rparr> = ?w\<lparr>kern := rt_enter_critical (kern ?w)\<rparr>" by simp
  have eq: "mempools k' = mempools (kern w)" "rt_tick k' = rt_tick (kern w)" using k'(2) by (simp_all add: same_ipc_def)
  have kk: "kok (Suc n) (kern ?w)" "may_block t (kern ?w)" and o: "mp_ok mp (mempools (kern ?w) mp) (wmem ?w) fl"
    using k' p eq by simp_all
  note T = mp_only_trans [OF same_ipc_mp_only [OF k'(2)]]
  show "wp (mp_alloc_loop mp Check ?r (w\<lparr>kern := rt_enter_critical k'\<rparr>)) ?P"
  proof (cases fl)
    case (Cons b bs)
    show ?thesis
      unfolding e by (rule wp_mono [OF mp_loop_avail [OF kk(1) o [unfolded Cons]]]) (use k'(4) Cons T in auto)
  next
    case Nil
    show ?thesis
    proof (cases "rt_tick (kern w) - start < time")
      case True
      note r = remaining_pos [OF to True]
      have dl: "rt_tick (kern w) + ?r = start + time" using True by (intro remaining_before(1) [OF to(1)]) simp
      show ?thesis
        unfolding e
        by (rule wp_mono [OF mp_loop_block [OF kk o [unfolded Nil] r(3,2)]])
          (use k'(4) Nil True r(1) dl eq T same_ipc_mp_only in \<open>auto simp: waits_def same_ipc_def\<close>)
    next
      case False
      then have r: "?r = 0" by (intro remaining_expired [OF to(1) _ el]) simp
      show ?thesis
        unfolding e r by (rule wp_mono [OF mp_loop_expired [OF kk(1) o [unfolded Nil]]]) (use k'(4) Nil False eq T in auto)
    qed
  qed
qed

text \<open>Initialising a memory pool cuts it into as many blocks as fit, all of them free, without an access outside of the
  headers of these blocks; the object is registered.\<close>

theorem rt_mp_init_correct:
  assumes k: "kinv (kern w)" "nest_ok (kern w)" "OMemPool mp \<notin> set (object_list (kern w) RT_Object_Class_MemPool)"
    and a: "mp \<noteq> 0" "start \<noteq> 0" "0 < block_size" "block_size \<le> 0xfffffff8"
    and s: "rt_align block_size + 4 \<le> rt_align_down sz" "unat start + unat (rt_align_down sz) \<le> 0x100000000"
    and m: "\<And>i. i < unat (rt_align_down sz div (rt_align block_size + 4)) \<Longrightarrow> wmem w (start + of_nat i * (rt_align block_size + 4)) \<noteq> None"
  shows "wp (rt_mp_init mp name start sz block_size w) (\<lambda>(err, w'). err = RT_EOK \<and>
     OMemPool mp \<in> set (object_list (kern w') RT_Object_Class_MemPool) \<and> tlists (kern w') (MpL mp) = [] \<and>
     (let p = mempools (kern w') mp in mp_start_address p = start \<and> mp_block_size p = rt_align block_size \<and>
        mp_block_total_count p = rt_align_down sz div (rt_align block_size + 4) \<and>
        mp_ok mp p (wmem w') (mp_blocks p) \<and> (\<forall>x. x \<notin> set (mp_blocks p) \<longrightarrow> wmem w' x = wmem w x)))"
proof -
  let ?bs = "rt_align block_size" and ?sz = "rt_align_down sz"
  let ?n = "?sz div (?bs + 4)"
  have info: "rt_object_get_information RT_Object_Class_MemPool = Some RT_Object_Class_MemPool"
    by (simp add: rt_object_get_information_def object_container_def)
  have ub: "unat ?bs = (unat block_size + 7) div 8 * 8" by (rule rt_align_unat [OF a(4)])
  have "0 < unat block_size" "unat block_size \<le> 0xfffffff8" using a(3,4) by (simp_all add: word_le_nat_alt unat_gt_0 word_greater_zero_iff)
  then have "1 \<le> (unat block_size + 7) div 8" "(unat block_size + 7) div 8 \<le> 0x1fffffff"
    using div_le_mono [of "unat block_size + 7" "0xffffffff" 8] by simp_all
  then have ub8: "8 \<le> unat ?bs" "unat ?bs + 4 < 0x100000000" unfolding ub by linarith+
  then have u4: "unat (?bs + 4) = unat ?bs + 4" by (simp add: unat_word_ariths)
  have un: "unat ?n = unat ?sz div (unat ?bs + 4)" by (simp add: unat_div u4)
  have "unat ?bs + 4 \<le> unat ?sz" using s(1) u4 by (simp add: word_le_nat_alt)
  then have n0: "0 < unat ?n" unfolding un by (simp add: div_greater_zero_iff)
  have "unat ?n * (unat ?bs + 4) \<le> unat ?sz" unfolding un by simp
  then have L: "unat start + unat ?n * (unat ?bs + 4) \<le> 0x100000000" using s(2) by linarith
  have "unat sz \<noteq> 0" using \<open>unat ?bs + 4 \<le> unat ?sz\<close> align_down_eq [of sz] by auto
  then have sz0: "0 < sz" by (auto simp: word_greater_zero_iff)
  have fmt: "wp (mp_format start (?bs + 4) ?n (wmem w)) (\<lambda>m'. mp_ok mp p m' (mp_blocks p) \<and> (\<forall>x. x \<notin> set (mp_blocks p) \<longrightarrow> m' x = wmem w x))"
    if p: "mp_start_address p = start" "mp_block_size p = ?bs" "mp_block_total_count p = ?n" "mp_block_free_count p = ?n" "mp_block_list p = start" for p
  proof -
    have "wmem w x \<noteq> None" if "x \<in> set (mp_blocks p)" for x using that m by (auto simp: mp_blocks_def p)
    moreover have "mp_layout p" using a(2) ub8 L by (simp add: mp_layout_def p)
    ultimately show ?thesis using mp_format_wp [of p "wmem w" mp] n0 by (simp add: p)
  qed
  show ?thesis
    unfolding rt_mp_init_def using a sz0
    by (simp, intro object_init_wp [OF k(1,2) info k(3)])
      (use same_but_schedD(2) [OF sched_onlyD(1)] fmt in \<open>auto simp: upd_sel Let_def elim!: wp_mono\<close>)
qed

text \<open>A pool that is too small for a single block is not refused: \<^verbatim>\<open>rt_mp_init\<close> reports success, and the store that
  ends the free list goes to the address of one block before the pool.\<close>

theorem rt_mp_init_small_pool:
  assumes k: "kinv (kern w)" "nest_ok (kern w)" "OMemPool mp \<notin> set (object_list (kern w) RT_Object_Class_MemPool)"
    and a: "mp \<noteq> 0" "start \<noteq> 0" "0 < block_size" "0 < sz"
    and s: "rt_align_down sz < rt_align block_size + 4" and m: "wmem w (start - (rt_align block_size + 4)) \<noteq> None"
  shows "wp (rt_mp_init mp name start sz block_size w) (\<lambda>(err, w'). err = RT_EOK \<and>
     mp_block_total_count (mempools (kern w') mp) = 0 \<and> wmem w' = (wmem w)(start - (rt_align block_size + 4) \<mapsto> 0))"
proof -
  have info: "rt_object_get_information RT_Object_Class_MemPool = Some RT_Object_Class_MemPool"
    by (simp add: rt_object_get_information_def object_container_def)
  have n: "rt_align_down sz div (rt_align block_size + 4) = 0"
    using s by (simp add: word_unat_eq_iff unat_div word_less_nat_alt)
  have e: "start + (0 - 1) * (rt_align block_size + 4) = start - (rt_align block_size + 4)" by (simp add: algebra_simps)
  have f: "mp_format start (rt_align block_size + 4) 0 (wmem w) = Some ((wmem w)(start - (rt_align block_size + 4) \<mapsto> 0))"
    unfolding mp_format_def e using m by (simp add: st_def)
  show ?thesis
    unfolding rt_mp_init_def using a n f
    by (simp, intro object_init_wp [OF k(1,2) info k(3)]) (auto simp: upd_sel Let_def)
qed

end
