(* ===== verification/Clock.thy ===== *)
theory Clock
  imports Blocking
begin

text \<open>
  The system clock, \<^verbatim>\<open>src/clock.c\<close>: the tick interrupt, which counts the tick, charges the time slice of the running
  thread and lets the hard timers expire, and the conversion of milliseconds. Hooks are not registered.
\<close>

section \<open>Definitions\<close>

abbreviation (input) RT_TICK_PER_SECOND :: u32 where "RT_TICK_PER_SECOND \<equiv> 1"

definition rt_tick_set :: "rt_tick_t \<Rightarrow> kernel \<Rightarrow> kernel" where
  "rt_tick_set tick k = k\<lparr>rt_tick := tick\<rparr>"

text \<open>\<open>cb\<close> are the timeout functions of the user, as in theory \<open>Timer\<close>.\<close>

definition rt_tick_increase :: "(nat \<Rightarrow> nat \<Rightarrow> kernel \<Rightarrow> kernel option) \<Rightarrow> kernel \<Rightarrow> kernel option" where
  "rt_tick_increase cb k = do {
     rt_assert (rt_interrupt_get_nest k > 0);
     let k = k\<lparr>rt_tick := rt_tick k + 1\<rparr>;
     (_, k) \<leftarrow> rt_sched_tick_increase k;
     rt_timer_check cb k
   }"

definition rt_tick_from_millisecond :: "u32 \<Rightarrow> rt_tick_t" where
  "rt_tick_from_millisecond ms =
     (if sint ms < 0 then 0xffffffff
      else RT_TICK_PER_SECOND * (ms div 1000) + (RT_TICK_PER_SECOND * (ms mod 1000) + 999) div 1000)"

definition rt_tick_get_millisecond :: "kernel \<Rightarrow> rt_tick_t" where
  "rt_tick_get_millisecond k = rt_tick_get k * (1000 div RT_TICK_PER_SECOND)"

section \<open>Milliseconds\<close>

text \<open>A waiting time is rounded up to whole ticks.\<close>

lemma tick_from_millisecond_rounds:
  assumes "0 \<le> sint ms"
  shows "unat (rt_tick_from_millisecond ms) = (unat ms + 999) div 1000"
proof -
  let ?q = "unat ms div 1000" and ?r = "unat ms mod 1000"
  have m: "unat ms = 1000 * ?q + ?r" "?r < 1000" by simp_all
  have "unat ms < 2 ^ LENGTH(32)" by (rule unsigned_less)
  then have u: "unat ms < 0x100000000" by simp
  have "unat (ms mod 1000 + 999) = ?r + 999" using m(2) by (simp add: unat_word_ariths unat_mod)
  then have r: "unat ((ms mod 1000 + 999) div 1000) = (?r + 999) div 1000" by (simp add: unat_div)
  have d: "(?r + 999) div 1000 \<le> 1" using m(2) by simp
  have q: "unat (ms div 1000) = ?q" by (simp add: unat_div)
  have "unat (ms div 1000 + (ms mod 1000 + 999) div 1000) = (?q + (?r + 999) div 1000) mod 2 ^ LENGTH(32)"
    by (simp only: unat_word_ariths(1) [of "ms div 1000"] r q)
  also have "\<dots> = ?q + (?r + 999) div 1000" using d u by simp
  also have "\<dots> = (unat ms + 999) div 1000"
  proof -
    have "unat ms + 999 = (?r + 999) + ?q * 1000" by simp
    then show ?thesis using div_mult_self1 [of 1000 "?r + 999" ?q] by simp
  qed
  finally show ?thesis using assms by (simp add: rt_tick_from_millisecond_def)
qed

section \<open>The tick\<close>

text \<open>The charge of one tick to the time slice of the running thread \<open>c\<close>: the slice is shorter by one, and nothing is
  switched while it lasts; a slice that is used up is refilled, and when the scheduler is unlocked, a thread of the
  same priority is ready and none of a higher one, the running thread goes behind all ready threads of its priority and the first of
  them runs. Timers, objects and blocked threads are not touched.\<close>

definition time_slice :: "tid \<Rightarrow> kernel \<Rightarrow> kernel \<Rightarrow> bool" where
  "time_slice c k k' \<longleftrightarrow>
     th_remaining_tick (threads k' c) =
       (if th_remaining_tick (threads k c) - 1 \<noteq> 0 then th_remaining_tick (threads k c) - 1 else th_init_tick (threads k c)) \<and>
     (\<forall>t. t \<noteq> c \<longrightarrow> th_remaining_tick (threads k' t) = th_remaining_tick (threads k t)) \<and>
     (th_remaining_tick (threads k c) - 1 \<noteq> 0 \<longrightarrow> rt_current_thread k' = Some c \<and> tlists k' = tlists k) \<and>
     (\<forall>t ts. th_remaining_tick (threads k c) - 1 = 0 \<and> rt_scheduler_lock_nest k = 0 \<and> th_code k c = RT_THREAD_RUNNING \<and>
        tlists k (ReadyL (th_prio k c)) = t # ts \<and> (\<forall>t'. th_code k t' = RT_THREAD_READY \<longrightarrow> th_prio k c \<le> th_prio k t') \<longrightarrow>
        rt_current_thread k' = Some t \<and> tlists k' (ReadyL (th_prio k c)) = ts @ [c]) \<and>
     tmlists k' = tmlists k \<and> timers k' = timers k \<and> objects k' = objects k \<and> rt_tick k' = rt_tick k \<and>
     rt_interrupt_nest k' = rt_interrupt_nest k \<and> (\<forall>t. thread_suspended k' t = thread_suspended k t)"

lemma yield_not_suspend [simp]: "stat_suspended (set_stat_yield x) = stat_suspended x"
  by (subst (1 2) stat_suspended_iff) simp

lemma sched_tick_wp:
  assumes k: "kok n k" and c: "rt_current_thread k = Some c"
  shows "wp (rt_sched_tick_increase k) (\<lambda>(err, k'). err = RT_EOK \<and> kok n k' \<and> time_slice c k k')"
proof -
  let ?r = "th_remaining_tick (threads k c) - 1"
  let ?k = "upd_thread c (\<lambda>th. th\<lparr>th_remaining_tick := th_remaining_tick th - 1\<rparr>) k"
  have k1: "kok n ?k" using k by (simp add: kok_upd_thread thread_view_def)
  show ?thesis
  proof (cases "?r = 0")
    case False
    then have "time_slice c k ?k" using c by (simp add: time_slice_def upd_sel thread_suspended_def)
    then show ?thesis using False c k1 by (simp add: rt_sched_tick_increase_def upd_sel)
  next
    case True
    define y where "y = rt_sched_thread_yield c ?k"
    have yk: "kok n y" unfolding y_def rt_sched_thread_yield_def using k1 by (subst kok_upd_thread) (simp_all add: thread_view_def)
    have yf: "rt_current_thread y = Some c" "rt_scheduler_lock_nest y = rt_scheduler_lock_nest k" "tlists y = tlists k"
      "th_code y t = th_code k t" "th_prio y t = th_prio k t" "stat_yield (th_stat (threads y c))"
      "th_remaining_tick (threads y c) = th_init_tick (threads k c)"
      "t \<noteq> c \<Longrightarrow> th_remaining_tick (threads y t) = th_remaining_tick (threads k t)"
      "tmlists y = tmlists k" "timers y = timers k" "objects y = objects k" "rt_tick y = rt_tick k"
      "rt_interrupt_nest y = rt_interrupt_nest k" "thread_suspended y t = thread_suspended k t" for t
      using c by (auto simp: y_def rt_sched_thread_yield_def upd_sel thread_suspended_def)
    have "wp (rt_schedule y) (\<lambda>k'. kok n k' \<and> time_slice c k k')"
    proof (rule wp_mono)
      show "wp (rt_schedule y) (\<lambda>k'. kok n k' \<and> sched_only y k' \<and> rt_schedule y = Some k')"
        using kok_schedule_wp [OF yk, of "\<lambda>k'. kok n k' \<and> sched_only y k'"] yf(1) by (auto simp: wp_def split: option.splits)
    next
      fix k' assume k': "kok n k' \<and> sched_only y k' \<and> rt_schedule y = Some k'"
      then have so: "sched_only y k'" by simp
      note F = same_but_schedD [OF sched_onlyD(1) [OF so]]
      have "rt_current_thread k' = Some t \<and> tlists k' (ReadyL (th_prio k c)) = ts @ [c]"
        if "rt_scheduler_lock_nest k = 0" "th_code k c = RT_THREAD_RUNNING" "tlists k (ReadyL (th_prio k c)) = t # ts"
          "\<And>t'. th_code k t' = RT_THREAD_READY \<Longrightarrow> th_prio k c \<le> th_prio k t'" for t ts
        using schedule_round_robin [OF kokD(1) [OF yk] yf(1), of t ts] k' that by (auto simp: yf)
      then show "kok n k' \<and> time_slice c k k'"
        using k' True sched_onlyD(4,14) [OF so] by (simp add: time_slice_def F yf)
    qed
    then show ?thesis
      using True c by (auto simp: rt_sched_tick_increase_def rt_sched_unlock_n_resched_def upd_sel y_def rt_sched_thread_yield_def elim!: wp_mono)
  qed
qed

lemma checked_remaining:
  "checked S h k k' \<Longrightarrow> th_remaining_tick (threads k' t) = th_remaining_tick (threads k t)"
  unfolding checked_def
  by (elim conjE, drule spec [of _ t], drule spec [of _ t]) (auto dest: arg_cong [where f = th_remaining_tick] split: if_splits)

section \<open>Properties\<close>

text \<open>C10. The tick interrupt counts one tick, charges it to the time slice of the running thread (one tick less, or the slice refilled and
  the processor given to the next ready thread of the same priority when it is used up) and then checks the hard timers at the
  new tick. When the timers that are due are thread timers, exactly their threads are woken, with \<^verbatim>\<open>-RT_ETIMEOUT\<close>; these timers are
  inactive and out of the list, the others are still in it, none of them due; and the time slice is as the charge left it.\<close>

theorem rt_tick_increase_correct:
  assumes k: "kok (Suc n) k" "rt_current_thread k = Some c" "0 < rt_interrupt_get_nest k"
    and t: "k1 = k\<lparr>rt_tick := rt_tick k + 1\<rparr>"
  shows "\<exists>k2. time_slice c k1 k2 \<and> kok (Suc n) k2 \<and> rt_tick_increase cb k = rt_timer_check cb k2 \<and>
     (in_window b (rt_tick k1) \<and> distinct (tmlists k1 HardTimers) \<and> timers_sorted b (due k1) (tmlists k1 HardTimers) \<and>
      (\<forall>r \<in> set (tmlists k1 HardTimers). timer_wf b k1 r \<and> (expired k1 r \<longrightarrow> tm_timeout_func (timers k1 r) = ThreadTimeout)) \<longrightarrow>
      wp (rt_tick_increase cb k) (\<lambda>k'. kok (Suc n) k' \<and> rt_tick k' = rt_tick k + 1 \<and> checked {} HardTimers k2 k' \<and>
        th_remaining_tick (threads k' c) = (if th_remaining_tick (threads k c) - 1 \<noteq> 0 then th_remaining_tick (threads k c) - 1
          else th_init_tick (threads k c))))"
proof -
  have k1: "kok (Suc n) k1" "rt_current_thread k1 = Some c" "0 < rt_interrupt_get_nest k1"
    using k by (simp_all add: t rt_interrupt_get_nest_def)
  obtain k2 where k2: "rt_sched_tick_increase k1 = Some (RT_EOK, k2)" "kok (Suc n) k2" and ts: "time_slice c k1 k2"
    using sched_tick_wp [OF k1(1,2)] by (auto simp: wp_def split: option.splits)
  have f: "tmlists k2 = tmlists k1" "timers k2 = timers k1" "objects k2 = objects k1" "rt_tick k2 = rt_tick k1"
    "rt_interrupt_nest k2 = rt_interrupt_nest k1" "\<And>t. thread_suspended k2 t = thread_suspended k1 t"
    using ts by (simp_all add: time_slice_def)
  have e: "timer_wf b k2 r = timer_wf b k1 r" "expired k2 r = expired k1 r" for r
    by (simp_all add: timer_wf_def expired_def rt_tick_get_def rt_object_get_type_def f cong: timeout_fn.case_cong)
  have eq: "rt_tick_increase cb k = rt_timer_check cb k2"
    using k(3) k2(1) by (simp add: rt_tick_increase_def t [symmetric])
  have "wp (rt_tick_increase cb k) (\<lambda>k'. kok (Suc n) k' \<and> rt_tick k' = rt_tick k + 1 \<and> checked {} HardTimers k2 k' \<and>
        th_remaining_tick (threads k' c) = (if th_remaining_tick (threads k c) - 1 \<noteq> 0 then th_remaining_tick (threads k c) - 1
          else th_init_tick (threads k c)))"
    if h: "in_window b (rt_tick k1)" "distinct (tmlists k1 HardTimers)" "timers_sorted b (due k1) (tmlists k1 HardTimers)"
      "\<forall>r \<in> set (tmlists k1 HardTimers). timer_wf b k1 r \<and> (expired k1 r \<longrightarrow> tm_timeout_func (timers k1 r) = ThreadTimeout)"
  proof -
    have "wp (timer_check cb HardTimers k2) (\<lambda>k'. kok (Suc n) k' \<and> checked {} HardTimers k2 k')"
      by (rule timer_check_wp [where b = b]) (use k2(2) h in \<open>simp_all add: e f\<close>)
    then have "wp (timer_check cb HardTimers k2) (\<lambda>k'. kok (Suc n) k' \<and> checked {} HardTimers k2 k' \<and>
        rt_tick k' = rt_tick k2 \<and> th_remaining_tick (threads k' c) = th_remaining_tick (threads k2 c))"
      by (rule wp_mono) (use checked_remaining [of "{}" HardTimers k2 _ c] in \<open>auto simp: checked_def\<close>)
    then show ?thesis
      unfolding eq using ts k1(3) by (auto simp: rt_timer_check_def rt_interrupt_get_nest_def f time_slice_def t elim!: wp_mono)
  qed
  then show ?thesis using ts k2(2) eq by (intro exI [of _ k2]) blast
qed

text \<open>The sample of the expiry pass, one tick earlier and in an interrupt; the timer that is due is that of a suspended
  thread.\<close>

definition sample_tick :: kernel where
  "sample_tick = sample_expiry\<lparr>rt_tick := 4, rt_interrupt_nest := 1,
     timers := (timers sample_expiry)(ThreadTimer 5 := zero_timer\<lparr>tm_timeout_func := ThreadTimeout, tm_parameter := 5, tm_timeout_tick := 5\<rparr>),
     tmlists := (tmlists sample_expiry)(HardTimers := [ThreadTimer 5, TimerObj 4])\<rparr>"

lemma kok_sample_tick: "kok 8 sample_tick"
proof -
  have "kok 8 sample_tick = kok 8 sample_expiry"
    by (rule kok_cong) (simp_all add: sample_tick_def sched_view_def)
  then show ?thesis using kok_sample_expiry by simp
qed

theorem rt_tick_increase_correct_witness:
  "wp (rt_tick_increase (\<lambda>_ _ k. None) sample_tick) (\<lambda>k'. kok 8 k' \<and> rt_tick k' = 5 \<and> \<not> thread_suspended k' 5 \<and>
     ThreadTimer 5 \<notin> set (tmlists k' HardTimers) \<and> TimerObj 4 \<in> set (tmlists k' HardTimers) \<and>
     th_remaining_tick (threads k' 2) = 9)"
proof -
  let ?k1 = "sample_tick\<lparr>rt_tick := rt_tick sample_tick + 1\<rparr>"
  note D = sample_tick_def sample_expiry_def sample_timers_def sample_kernel_def zero_timer_def
  have l: "tmlists ?k1 HardTimers = [ThreadTimer 5, TimerObj 4]" by (simp add: sample_tick_def)
  have x: "expired ?k1 (ThreadTimer 5)" "\<not> expired ?k1 (TimerObj 4)"
    by (simp_all add: expired_def rt_tick_get_def half_range D)
  have w: "in_window 0 (rt_tick ?k1)" "distinct (tmlists ?k1 HardTimers)"
    by (simp add: in_window_def tick_after_def D) (unfold l, simp)
  have s: "timers_sorted 0 (due ?k1) (tmlists ?k1 HardTimers)"
    unfolding l by (simp add: timers_sorted_def in_window_def tick_after_def) (simp add: D)
  have wf: "\<forall>r \<in> set (tmlists ?k1 HardTimers). timer_wf 0 ?k1 r \<and> (expired ?k1 r \<longrightarrow> tm_timeout_func (timers ?k1 r) = ThreadTimeout)"
    using x unfolding l by (simp add: timer_wf_def)
      (simp add: D rt_object_get_type_def sample_type_def thread_suspended_def sample_thread_def zero_thread_def)
  have c: "rt_current_thread sample_tick = Some 2" "0 < rt_interrupt_get_nest sample_tick"
    "th_remaining_tick (threads sample_tick 2) = 10" "rt_tick sample_tick = 4"
    by (simp_all add: D rt_interrupt_get_nest_def sample_thread_def)
  obtain k2 where k2: "time_slice 2 ?k1 k2" "wp (rt_tick_increase (\<lambda>_ _ k. None) sample_tick) (\<lambda>k'. kok (Suc 7) k' \<and> rt_tick k' = rt_tick sample_tick + 1 \<and>
     checked {} HardTimers k2 k' \<and> th_remaining_tick (threads k' 2) = (if th_remaining_tick (threads sample_tick 2) - 1 \<noteq> 0 then th_remaining_tick (threads sample_tick 2) - 1
          else th_init_tick (threads sample_tick 2)))"
    using rt_tick_increase_correct [where n = 7 and k = sample_tick and c = 2 and cb = "\<lambda>_ _ k. None" and b = 0, OF _ c(1,2) refl]
      kok_sample_tick w s wf by auto
  have "tmlists k2 HardTimers = [ThreadTimer 5, TimerObj 4]" "expired k2 r = expired ?k1 r" "tm_flag k2 r = tm_flag ?k1 r" for r
    using k2(1) l by (simp_all add: time_slice_def expired_def rt_tick_get_def)
  moreover have "tm_flag ?k1 (ThreadTimer 5) AND RT_TIMER_FLAG_PERIODIC = 0" by (simp add: D)
  ultimately show ?thesis using k2(2) x c by (elim wp_mono) (auto simp: checked_def)
qed

end
