(* ===== verification/Thread_Life.thy ===== *)
theory Thread_Life
  imports Mutex Clock
begin

text \<open>
  Sleeping and the end of threads: the rest of \<^verbatim>\<open>src/thread.c\<close>, with the queue of defunct threads of \<^verbatim>\<open>src/idle.c\<close>. A
  thread that sleeps is suspended with its timer running to the wake-up tick; a thread that ends is closed and waits in the
  queue of defunct threads for the idle thread (theory \<open>Idle\<close>).
\<close>

section \<open>Sleeping\<close>

text \<open>What \<^verbatim>\<open>_thread_sleep\<close> and \<^verbatim>\<open>rt_thread_delay_until\<close> do to the error code when the thread runs again.\<close>

definition clear_timeout_error :: "tid \<Rightarrow> kernel \<Rightarrow> kernel" where
  "clear_timeout_error t k =
     (if th_error (threads k t) = - RT_ETIMEOUT then upd_thread t (\<lambda>th. th\<lparr>th_error := RT_EOK\<rparr>) k else k)"

definition thread_sleep_end :: "tid \<Rightarrow> kernel \<Rightarrow> (rt_err_t \<times> kernel) option" where
  "thread_sleep_end t k = Some (RT_EOK, clear_timeout_error t k)"

definition thread_sleep :: "rt_tick_t \<Rightarrow> kernel \<Rightarrow> (rt_err_t outcome \<times> kernel) option" where
  "thread_sleep tick k =
     (if tick = 0 then Some (Returned (- RT_EINVAL), k)
      else do {
        t \<leftarrow> rt_thread_self k;
        rt_assert (rt_object_get_type (OThread t) k = RT_Object_Class_Thread);
        rt_assert (debug_scheduler_available k);
        let k = upd_thread t (\<lambda>th. th\<lparr>th_error := RT_EOK\<rparr>) k;
        let k = rt_enter_critical k;
        (err, k) \<leftarrow> rt_thread_suspend_with_flag t RT_INTERRUPTIBLE k;
        if err = RT_EOK then do {
          k \<leftarrow> start_thread_timer t tick k;
          let k = upd_thread t (\<lambda>th. th\<lparr>th_error := - RT_EINTR\<rparr>) k;
          k \<leftarrow> rt_schedule k;
          k \<leftarrow> rt_exit_critical k;
          if rt_current_thread k = Some t then do {
            (err, k) \<leftarrow> thread_sleep_end t k;
            Some (Returned err, k)
          } else Some (Waiting, k)
        } else do {
          k \<leftarrow> rt_exit_critical k;
          Some (Returned err, k)
        }
      })"

definition rt_thread_delay :: "rt_tick_t \<Rightarrow> kernel \<Rightarrow> (rt_err_t outcome \<times> kernel) option" where
  "rt_thread_delay tick k = thread_sleep tick k"

definition rt_thread_mdelay :: "u32 \<Rightarrow> kernel \<Rightarrow> (rt_err_t outcome \<times> kernel) option" where
  "rt_thread_mdelay ms k = thread_sleep (rt_tick_from_millisecond ms) k"

definition delay_until_end :: "tid \<Rightarrow> kernel \<Rightarrow> (rt_err_t \<times> kernel) option" where
  "delay_until_end t k = do {
     k \<leftarrow> rt_schedule k;
     let k = clear_timeout_error t k;
     Some (th_error (threads k t), k)
   }"

text \<open>\<open>tick\<close> is the variable of the last wake-up; its new value is part of the result.\<close>

definition rt_thread_delay_until :: "rt_tick_t \<Rightarrow> rt_tick_t \<Rightarrow> kernel \<Rightarrow> (rt_err_t outcome \<times> rt_tick_t \<times> kernel) option" where
  "rt_thread_delay_until tick inc_tick k = do {
     t \<leftarrow> rt_thread_self k;
     rt_assert (rt_object_get_type (OThread t) k = RT_Object_Class_Thread);
     let k = upd_thread t (\<lambda>th. th\<lparr>th_error := RT_EOK\<rparr>) k;
     let k = rt_enter_critical k;
     let cur_tick = rt_tick_get k;
     if cur_tick - tick < inc_tick then do {
       let tick = tick + inc_tick;
       let left_tick = tick - cur_tick;
       (_, k) \<leftarrow> rt_thread_suspend_with_flag t RT_UNINTERRUPTIBLE k;
       k \<leftarrow> start_thread_timer t left_tick k;
       k \<leftarrow> rt_exit_critical k;
       if rt_current_thread k = Some t then do {
         (err, k) \<leftarrow> delay_until_end t k;
         Some (Returned err, tick, k)
       } else Some (Waiting, tick, k)
     } else do {
       k \<leftarrow> rt_exit_critical k;
       Some (Returned (th_error (threads k t)), cur_tick, k)
     }
   }"

section \<open>The end of a thread\<close>

definition rt_thread_close :: "tid \<Rightarrow> kernel \<Rightarrow> (rt_err_t \<times> kernel) option" where
  "rt_thread_close t k = do {
     rt_assert (rt_thread_self k \<noteq> Some t \<or> rt_critical_level k \<noteq> 0);
     let thread_status = rt_sched_thread_get_stat t k;
     if thread_status \<noteq> RT_THREAD_CLOSE then do {
       let k = (if thread_status \<noteq> RT_THREAD_INIT then rt_sched_remove_thread t k else k);
       (_, k) \<leftarrow> rt_timer_detach (ThreadTimer t) k;
       Some (RT_EOK, rt_sched_thread_close t k)
     } else Some (RT_EOK, k)
   }"

text \<open>The loop of \<^verbatim>\<open>_thread_detach_from_mutex\<close> over the list of taken mutexes, which is read ahead by one entry.\<close>

fun release_taken :: "mid list \<Rightarrow> kernel \<Rightarrow> kernel option" where
  "release_taken [] k = Some k"
| "release_taken (m # ms) k = do {
     (_, k) \<leftarrow> rt_mutex_release m k;
     release_taken ms k
   }"

definition thread_detach_from_mutex :: "tid \<Rightarrow> kernel \<Rightarrow> kernel option" where
  "thread_detach_from_mutex t k = do {
     let k = rt_spin_lock_irqsave k;
     k \<leftarrow> (case th_pending_object (threads k t) of
             Some m \<Rightarrow>
               if rt_object_get_type (OMutex m) k = RT_Object_Class_Mutex then do {
                 k \<leftarrow> rt_mutex_drop_thread m t k;
                 Some (upd_thread t (\<lambda>th. th\<lparr>th_pending_object := None\<rparr>) k)
               } else Some k
           | None \<Rightarrow> Some k);
     k \<leftarrow> release_taken (th_taken_object_list (threads k t)) k;
     rt_spin_unlock_irqrestore k
   }"

text \<open>The queue of defunct threads. Inserting a node that is linked already would tie the list into a knot.\<close>

definition rt_thread_defunct_enqueue :: "tid \<Rightarrow> kernel \<Rightarrow> kernel option" where
  "rt_thread_defunct_enqueue t k = do {
     let k = rt_spin_lock_irqsave k;
     rt_assert (t \<notin> set (tlists k DefunctL));
     let k = tlist_insert_after DefunctL t k;
     rt_spin_unlock_irqrestore k
   }"

definition rt_thread_defunct_dequeue :: "kernel \<Rightarrow> tid option \<times> kernel" where
  "rt_thread_defunct_dequeue k =
     (case tlists k DefunctL of
        [] \<Rightarrow> (None, k)
      | t # _ \<Rightarrow> (Some t, tlist_remove t k))"

text \<open>Leaving the section switches away from the closed thread for good; the last call of the scheduler is reached only where no
  other thread is ready.\<close>

definition thread_exit :: "kernel \<Rightarrow> kernel option" where
  "thread_exit k = do {
     t \<leftarrow> rt_thread_self k;
     let k = rt_enter_critical k;
     (_, k) \<leftarrow> rt_thread_close t k;
     k \<leftarrow> rt_thread_defunct_enqueue t k;
     k \<leftarrow> rt_exit_critical k;
     if rt_current_thread k = Some t then rt_schedule k else Some k
   }"

definition thread_detach :: "tid \<Rightarrow> kernel \<Rightarrow> (rt_err_t \<times> kernel) option" where
  "thread_detach t k = do {
     let k = rt_enter_critical k;
     (error, k) \<leftarrow> rt_thread_close t k;
     k \<leftarrow> thread_detach_from_mutex t k;
     k \<leftarrow> rt_thread_defunct_enqueue t k;
     k \<leftarrow> rt_exit_critical k;
     Some (error, k)
   }"

definition rt_thread_detach :: "tid \<Rightarrow> kernel \<Rightarrow> (rt_err_t \<times> kernel) option" where
  "rt_thread_detach t k = do {
     rt_assert (rt_object_get_type (OThread t) k = RT_Object_Class_Thread);
     rt_assert (rt_object_is_systemobject (OThread t) k);
     thread_detach t k
   }"

definition rt_thread_delete :: "tid \<Rightarrow> kernel \<Rightarrow> (rt_err_t \<times> kernel) option" where
  "rt_thread_delete t k = do {
     rt_assert (rt_object_get_type (OThread t) k = RT_Object_Class_Thread);
     rt_assert (\<not> rt_object_is_systemobject (OThread t) k);
     thread_detach t k
   }"

text \<open>On one processor a thread cannot be bound.\<close>

definition rt_sched_thread_bind_cpu :: "tid \<Rightarrow> int \<Rightarrow> rt_err_t" where
  "rt_sched_thread_bind_cpu t cpu = - RT_EINVAL"

datatype thread_cmd = RT_THREAD_CTRL_CHANGE_PRIORITY nat | RT_THREAD_CTRL_STARTUP | RT_THREAD_CTRL_CLOSE
  | RT_THREAD_CTRL_BIND_CPU u8 | RT_THREAD_CTRL_OTHER

definition rt_thread_control :: "tid \<Rightarrow> thread_cmd \<Rightarrow> kernel \<Rightarrow> (rt_err_t \<times> kernel) option" where
  "rt_thread_control t cmd k = do {
     rt_assert (rt_object_get_type (OThread t) k = RT_Object_Class_Thread);
     case cmd of
       RT_THREAD_CTRL_CHANGE_PRIORITY priority \<Rightarrow> rt_sched_thread_change_priority t priority k
     | RT_THREAD_CTRL_STARTUP \<Rightarrow> rt_thread_startup t k
     | RT_THREAD_CTRL_CLOSE \<Rightarrow> do {
         (err, k) \<leftarrow> (if rt_object_is_systemobject (OThread t) k then rt_thread_detach t k else rt_thread_delete t k);
         k \<leftarrow> rt_schedule k;
         Some (err, k)
       }
     | RT_THREAD_CTRL_BIND_CPU cpu \<Rightarrow> Some (rt_sched_thread_bind_cpu t (uint cpu), k)
     | RT_THREAD_CTRL_OTHER \<Rightarrow> Some (RT_EOK, k)
   }"

section \<open>Sleeping threads\<close>

text \<open>Thread \<open>t\<close> sleeps until the tick \<open>d\<close>: suspended, on no list, its timer running.\<close>

definition sleeps :: "tid \<Rightarrow> rt_tick_t \<Rightarrow> kernel \<Rightarrow> kernel \<Rightarrow> bool" where
  "sleeps t d k k' \<longleftrightarrow> thread_suspended k' t \<and> rt_current_thread k' \<noteq> Some t \<and> timer_active k' (ThreadTimer t) \<and>
     tm_timeout_tick (timers k' (ThreadTimer t)) = d \<and> same_ipc k k' \<and> (\<forall>h. is_susp_list h \<longrightarrow> tlists k' h = tlists k h) \<and>
     (\<forall>t'. t' \<noteq> t \<longrightarrow> thread_suspended k' t' = thread_suspended k t')"

lemma may_block_error [simp]: "may_block t (upd_thread t' (\<lambda>th. th\<lparr>th_error := e\<rparr>) k) = may_block t k"
proof -
  have "th_code (upd_thread t' (\<lambda>th. th\<lparr>th_error := e\<rparr>) k) x = th_code k x" for x by (simp add: upd_sel)
  then show ?thesis unfolding may_block_def by (simp only:) (simp add: upd_sel tt_wf_def rt_object_get_type_def rt_interrupt_get_nest_def)
qed

lemma schedule_locked: "rt_scheduler_lock_nest k \<noteq> 0 \<Longrightarrow> rt_schedule (upd_thread t f k) = Some (upd_thread t f k)"
  by (simp add: rt_schedule_def upd_sel)

lemma sleep_stage_wp:
  assumes k: "kok (Suc n) k" and m: "may_block t k" and l: "tick < 0x7fffffff"
    and Q: "\<And>k'. kok (Suc n) k' \<Longrightarrow> sleeps t (rt_tick k + tick) k k' \<Longrightarrow> th_error (threads k' t) = e \<Longrightarrow> Q k'"
  shows "wp (rt_thread_suspend_with_flag t flag (rt_enter_critical k)) (\<lambda>(err, k1). err = RT_EOK \<and>
     wp (start_thread_timer t tick k1) (\<lambda>k2. rt_scheduler_lock_nest k2 \<noteq> 0 \<and>
       wp (rt_exit_critical (upd_thread t (\<lambda>th. th\<lparr>th_error := e\<rparr>) k2)) Q))"
  unfolding rt_thread_suspend_with_flag_def
proof (rule suspend_to_list_wp [OF kok_enter [OF k]])
  let ?e = "rt_enter_critical k"
  note M = m [unfolded may_block_def]
  show "rt_current_thread ?e = Some t" "th_code ?e t = RT_THREAD_RUNNING" "rt_object_get_type (OThread t) ?e = RT_Object_Class_Thread"
    using M by (simp_all add: tt_wf_def rt_object_get_type_def)
  fix k1 assume k1: "kok n k1" "blocked t False (queued None 0 t ?e) ?e k1"
  have n1: "rt_scheduler_lock_nest k1 = 1" using k1(2) M by (simp add: blocked_def same_ipc_def)
  have w1: "tt_wf k1 t" by (rule blocked_tt_wf [OF k1(2)]) (use M in \<open>simp add: tt_wf_def rt_object_get_type_def\<close>)
  let ?k2 = "timer_started t tick k1"
  have s: "start_thread_timer t tick k1 = Some ?k2"
    using kokD(2) [OF k1(1)] n1 w1 l by (intro start_thread_timer_nested) simp_all
  have b2: "blocked t True (queued None 0 t ?e) ?e ?k2" by (rule timer_started_blocked [OF k1(2) w1])
  have n2: "rt_scheduler_lock_nest ?k2 = 1" using b2 M by (simp add: blocked_def same_ipc_def)
  let ?k3 = "upd_thread t (\<lambda>th. th\<lparr>th_error := e\<rparr>) ?k2"
  have "wp (rt_exit_critical ?k3) Q"
  proof (rule exit_away_wp)
    show "kok n ?k3" using timer_started_kok [OF k1(1) w1] by simp
    show "Suc n < 0x8000" using k M by (simp add: kok_def nest_room_def)
    show "rt_scheduler_lock_nest ?k3 = 1" using n2 by (simp add: upd_sel)
    show "rt_current_thread ?k3 = Some t" "thread_suspended ?k3 t" using b2 M by (simp_all add: blocked_def upd_sel thread_suspended_def)
    fix k' assume k': "kok (Suc n) k'" "sched_only (?k3\<lparr>rt_scheduler_lock_nest := 0\<rparr>) k'"
      "\<And>t'. th_code ?k3 t' = RT_THREAD_READY \<Longrightarrow> rt_current_thread k' \<noteq> Some t"
    note F = same_but_schedD [OF sched_onlyD(1) [OF k'(2)]]
    show "Q k'"
    proof (rule Q [OF k'(1)])
      show "th_error (threads k' t) = e" using sched_onlyD(7) [OF k'(2), of t] by (simp add: upd_sel)
      obtain t' where t': "th_code k t' = RT_THREAD_READY" using M by blast
      then have "t' \<noteq> t" using M by auto
      then have "th_code ?k3 t' = RT_THREAD_READY" using t' b2 M by (auto simp: blocked_def upd_sel)
      then have c: "rt_current_thread k' \<noteq> Some t" by (rule k'(3))
      have su: "thread_suspended k' x = thread_suspended ?k2 x" for x
        using sched_onlyD(4) [OF k'(2), of x] by (simp add: thread_suspended_def upd_sel)
      have tl: "tlists k' h = tlists k h" if "is_susp_list h" for h
      proof -
        have "\<forall>p. h \<noteq> ReadyL p" using that by auto
        then show ?thesis using sched_only_susp [OF k'(2) that] b2 by (simp add: blocked_def queued_def upd_sel)
      qed
      have tm: "rt_tick k1 = rt_tick k" using k1(2) by (simp add: blocked_def same_ipc_def)
      show "sleeps t (rt_tick k + tick) k k'"
        unfolding sleeps_def su using c tl b2 F timer_started_fields(8,10) [OF w1, where timeout = tick] M tm
        by (auto simp: blocked_def timer_active_def upd_sel same_ipc_def thread_suspended_def)
    qed
  qed
  then show "case (0, k1) of (err, k1) \<Rightarrow> err = 0 \<and> wp (start_thread_timer t tick k1) (\<lambda>k2. rt_scheduler_lock_nest k2 \<noteq> 0 \<and>
       wp (rt_exit_critical (upd_thread t (\<lambda>th. th\<lparr>th_error := e\<rparr>) k2)) Q)"
    using s n2 by simp
qed simp

section \<open>Properties of sleeping\<close>

text \<open>A thread that goes to sleep for a number of ticks is suspended until the tick that lies this number of ticks ahead,
  across a wrap of the counter, and the processor goes to another thread; sleeping for no tick at all is refused
  with \<^verbatim>\<open>-RT_EINVAL\<close> and changes nothing.\<close>

theorem rt_thread_delay_correct:
  assumes k: "kok (Suc n) k" and m: "may_block t k" and l: "tick < 0x7fffffff"
  shows "wp (rt_thread_delay tick k) (\<lambda>(out, k'). kok (Suc n) k' \<and>
     (if tick = 0 then out = Returned (- RT_EINVAL) \<and> k' = k
      else out = Waiting \<and> sleeps t (rt_tick k + tick) k k' \<and> th_error (threads k' t) = - RT_EINTR))"
proof (cases "tick = 0")
  case False
  let ?k = "upd_thread t (\<lambda>th. th\<lparr>th_error := 0\<rparr>) k"
  have c: "rt_current_thread k = Some t" "rt_object_get_type (OThread t) k = RT_Object_Class_Thread"
    using m by (simp_all add: may_block_def tt_wf_def)
  have m': "may_block t ?k" using m by simp
  have ss: "sleeps t d ?k k' = sleeps t d k k'" for d k'
    by (auto simp: sleeps_def upd_sel same_ipc_def thread_suspended_def)
  have "wp (rt_thread_suspend_with_flag t RT_INTERRUPTIBLE (rt_enter_critical ?k)) (\<lambda>(err, k1). err = RT_EOK \<and>
     wp (start_thread_timer t tick k1) (\<lambda>k2. rt_scheduler_lock_nest k2 \<noteq> 0 \<and>
       wp (rt_exit_critical (upd_thread t (\<lambda>th. th\<lparr>th_error := - 9\<rparr>) k2))
         (\<lambda>k'. kok (Suc n) k' \<and> sleeps t (rt_tick k + tick) k k' \<and> th_error (threads k' t) = - 9)))"
    by (rule sleep_stage_wp [OF _ m' l]) (use k ss in \<open>simp_all add: upd_sel\<close>)
  then show ?thesis
    unfolding rt_thread_delay_def thread_sleep_def using False c may_block_debug [OF m]
    by (simp add: rt_thread_self_def Let_def)
      (elim wp_mono, clarsimp, elim wp_mono, clarsimp simp: schedule_locked, elim wp_mono, simp add: sleeps_def)
qed (use k in \<open>simp add: rt_thread_delay_def thread_sleep_def\<close>)

text \<open>C11. A periodic thread that delays until a period after its last wake-up sleeps until exactly that tick, however late in the
  period it calls, and its variable is advanced by the period: the phase does not drift, across a wrap of the counter as well.
  When the period has already passed, the call returns at once with \<^verbatim>\<open>RT_EOK\<close> and the variable is set to the current tick.\<close>

theorem rt_thread_delay_until_correct:
  assumes k: "kok (Suc n) k" and m: "may_block t k" and l: "inc_tick < 0x7fffffff"
  shows "wp (rt_thread_delay_until tick inc_tick k) (\<lambda>(out, tick', k'). kok (Suc n) k' \<and>
     (if rt_tick k - tick < inc_tick
      then out = Waiting \<and> tick' = tick + inc_tick \<and> sleeps t (tick + inc_tick) k k'
      else out = Returned RT_EOK \<and> tick' = rt_tick k \<and> same_ipc k k'))"
proof -
  let ?k = "upd_thread t (\<lambda>th. th\<lparr>th_error := 0\<rparr>) k" and ?left = "tick + inc_tick - rt_tick k"
  have kk: "kok (Suc n) ?k" "may_block t ?k" using k m by simp_all
  note M = kk(2) [unfolded may_block_def]
  have c: "rt_current_thread k = Some t" "rt_object_get_type (OThread t) k = RT_Object_Class_Thread"
    using m by (simp_all add: may_block_def tt_wf_def)
  show ?thesis
  proof (cases "rt_tick k - tick < inc_tick")
    case True
    have e: "?left = inc_tick - (rt_tick k - tick)" by simp
    have "unat ?left = unat inc_tick - unat (rt_tick k - tick)" unfolding e by (rule unat_sub) (use True in simp)
    then have "?left \<le> inc_tick" unfolding word_le_nat_alt by linarith
    then have ll: "?left < 0x7fffffff" using l by (rule order_le_less_trans)
    have "wp (rt_thread_suspend_to_list t None 0 RT_UNINTERRUPTIBLE (rt_enter_critical ?k)) (\<lambda>(ret, k1). ret = RT_EOK \<and>
       wp (if True then start_thread_timer t ?left k1 else Some k1) (\<lambda>k2. wp (rt_exit_critical k2)
         (\<lambda>k'. kok (Suc n) k' \<and> sleeps t (tick + inc_tick) k k')))"
    proof (rule block_section_wp [OF kk(1)])
      fix k' assume k': "kok (Suc n) k'" "blocked t True (queued None 0 t ?k) ?k k'"
        "\<And>t'. th_code ?k t' = RT_THREAD_READY \<Longrightarrow> rt_current_thread k' \<noteq> Some t"
        "True \<Longrightarrow> timer_active k' (ThreadTimer t) \<and> tm_timeout_tick (timers k' (ThreadTimer t)) = rt_tick ?k + ?left"
      have cc: "rt_current_thread k' \<noteq> Some t" using M k'(3) by blast
      have "tlists k' h = tlists k h" if "is_susp_list h" for h
      proof -
        have "\<forall>p. h \<noteq> ReadyL p" using that by auto
        then show ?thesis using k'(2) by (simp add: blocked_def queued_def upd_sel)
      qed
      then show "kok (Suc n) k' \<and> sleeps t (tick + inc_tick) k k'"
        using k' cc by (simp add: sleeps_def blocked_def same_ipc_def upd_sel thread_suspended_def)
    qed (use M ll in \<open>simp_all add: upd_sel\<close>)
    then show ?thesis
      unfolding rt_thread_delay_until_def rt_thread_suspend_with_flag_def using True c
      by (simp add: rt_thread_self_def Let_def rt_tick_get_def upd_sel)
        (erule wp_mono, clarsimp, erule wp_mono, erule wp_mono, simp add: sleeps_def)
  next
    case False
    have "wp (rt_exit_critical (rt_enter_critical ?k)) (\<lambda>k'. kok (Suc n) k' \<and> sched_only ?k k')"
      by (rule kok_section_wp [OF kk(1)]) simp
    then have "wp (rt_exit_critical (rt_enter_critical ?k)) (\<lambda>k'. kok (Suc n) k' \<and> same_ipc k k' \<and> th_error (threads k' t) = 0)"
      using same_ipc_sched_only sched_onlyD(7) by (auto simp: same_ipc_def upd_sel elim!: wp_mono)
    then show ?thesis
      unfolding rt_thread_delay_until_def using False c
      by (simp add: rt_thread_self_def Let_def rt_tick_get_def upd_sel) (elim wp_mono, simp)
  qed
qed

section \<open>Closing a thread\<close>

text \<open>Inside of a section entering and leaving further sections does not schedule.\<close>

definition nested :: "kernel \<Rightarrow> bool" where
  "nested k \<longleftrightarrow> nest_ok k \<and> rt_scheduler_lock_nest k \<noteq> 0"

lemma nested_exit: "nested k \<Longrightarrow> rt_exit_critical (rt_enter_critical k) = Some k"
  by (simp add: nested_def exit_enter_nested)

definition timer_gone :: "timer_ref \<Rightarrow> kernel \<Rightarrow> kernel" where
  "timer_gone r k = upd_object (OTimer r) (\<lambda>ob. ob\<lparr>ob_type := 0\<rparr>) (object_list_remove (OTimer r) (clear_timer r k))"

lemma timer_detach_nested:
  assumes n: "nested k" and ty: "rt_object_get_type (OTimer r) k = RT_Object_Class_Timer" "rt_object_is_systemobject (OTimer r) k"
  shows "rt_timer_detach r k = Some (RT_EOK, timer_gone r k)"
proof -
  have nn: "nested (clear_timer r k)" "nested (object_list_remove (OTimer r) (clear_timer r k))"
    using n by (simp_all add: nested_def nest_ok_def object_list_remove_def)
  have e: "object_list_remove x (rt_enter_critical k) = rt_enter_critical (object_list_remove x k)" for x k
    by (simp add: object_list_remove_def rt_enter_critical_def)
  have "ob_type (objects (clear_timer r k) (OTimer r)) = ob_type (objects k (OTimer r))"
    by (simp add: clear_timer_def timer_remove_def tmlist_remove_def upd_defs)
  then have i: "rt_object_get_information (ob_type (objects (clear_timer r k) (OTimer r))) = Some RT_Object_Class_Timer"
    using ty(1) by (simp add: rt_object_get_information_def rt_object_get_type_def object_container_def)
  show ?thesis
    using ty nested_exit [OF nn(1)] nested_exit [OF nn(2)] i
    by (simp add: rt_timer_detach_def spin_defs clear_timer_enter rt_object_detach_def e timer_gone_def del: clear_timer_fields)
qed

definition closed :: "tid \<Rightarrow> kernel \<Rightarrow> kernel" where
  "closed t k = rt_sched_thread_close t (timer_gone (ThreadTimer t)
     (if th_code k t \<noteq> RT_THREAD_INIT then rt_sched_remove_thread t k else k))"


lemma upd_enter: "upd_thread t f (rt_enter_critical k) = rt_enter_critical (upd_thread t f k)"
  by (simp add: upd_defs rt_enter_critical_def)

lemma nested_frame [simp]:
  "nested (upd_thread t f k) = nested k" "nested (timer_gone r k) = nested k" "nested (rt_sched_remove_thread t k) = nested k"
  "nested (tlist_insert_after h t k) = nested k" "nested (closed t k) = nested k"
  by (simp_all add: nested_def nest_ok_def timer_gone_def object_list_remove_def upd_defs closed_def rt_sched_thread_close_def
      tlist_insert_after_def rt_sched_remove_thread_def Let_def tlist_remove_def)

lemma timer_gone_fields [simp]:
  "threads (timer_gone r k) = threads k" "tlists (timer_gone r k) = tlists k" "mutexes (timer_gone r k) = mutexes k"
  "rt_current_thread (timer_gone r k) = rt_current_thread k" "rt_scheduler_lock_nest (timer_gone r k) = rt_scheduler_lock_nest k"
  "rt_interrupt_nest (timer_gone r k) = rt_interrupt_nest k" "(\<And>r'. x \<noteq> OTimer r') \<Longrightarrow> objects (timer_gone r k) x = objects k x"
  "sched_view (timer_gone r k) = sched_view k"
  "timer_active (timer_gone r k) r' \<longleftrightarrow> r' \<noteq> r \<and> timer_active k r'"
  by (auto simp: timer_gone_def object_list_remove_def upd_defs clear_timer_def timer_remove_def tmlist_remove_def sched_view_def
      timer_active_def)

lemma closed_fields:
  "threads (closed t k) = (threads k)(t := (threads k t)\<lparr>th_stat := RT_THREAD_CLOSE\<rparr>)"
  "tlists (closed t k) h = (if th_code k t = RT_THREAD_INIT then tlists k h else removeAll t (tlists k h))"
  "mutexes (closed t k) = mutexes k" "rt_current_thread (closed t k) = rt_current_thread k"
  "rt_scheduler_lock_nest (closed t k) = rt_scheduler_lock_nest k" "rt_interrupt_nest (closed t k) = rt_interrupt_nest k"
  "(\<And>r'. x \<noteq> OTimer r') \<Longrightarrow> objects (closed t k) x = objects k x"
  by (auto simp: closed_def rt_sched_thread_close_def upd_defs rt_sched_remove_thread_def Let_def tlist_remove_def)

lemma closed_timer [simp]: "\<not> timer_active (closed t k) (ThreadTimer t)"
proof -
  have "timer_active (upd_thread t f k') r = timer_active k' r" for f k' r by (simp add: timer_active_def upd_sel)
  then show ?thesis by (simp only: closed_def rt_sched_thread_close_def timer_gone_fields) simp
qed

lemma close_nested:
  assumes n: "nested k" and s: "th_code k t \<noteq> RT_THREAD_CLOSE"
    and ty: "rt_object_get_type (OTimer (ThreadTimer t)) k = RT_Object_Class_Timer" "rt_object_is_systemobject (OTimer (ThreadTimer t)) k"
  shows "rt_thread_close t k = Some (RT_EOK, closed t k)"
proof -
  let ?k = "if th_code k t \<noteq> RT_THREAD_INIT then rt_sched_remove_thread t k else k"
  have "rt_timer_detach (ThreadTimer t) ?k = Some (RT_EOK, timer_gone (ThreadTimer t) ?k)"
    using n ty by (intro timer_detach_nested) (auto simp: rt_object_get_type_def rt_object_is_systemobject_def)
  then show ?thesis
    using s n by (simp add: rt_thread_close_def rt_sched_thread_get_stat_def closed_def rt_critical_level_def nested_def)
qed

text \<open>A closed thread satisfies the invariant again once it is in the queue of defunct threads.\<close>

lemma closed_kinv_but:
  assumes k: "kinv k" and s: "th_code k t \<noteq> RT_THREAD_CLOSE"
  shows "kinv_but t (closed t k)"
proof -
  let ?k = "if th_code k t \<noteq> RT_THREAD_INIT then rt_sched_remove_thread t k else k"
  note T = kinvD(1) [OF k, of t]
  have "kinv_but t ?k"
  proof (cases "th_code k t = RT_THREAD_INIT")
    case True
    then have "\<not> thread_suspended k t" using stat_not_suspended_code by (auto simp: thread_suspended_def)
    then have "t \<notin> set (tlists k h)" for h using T True by (cases h) (auto simp: thread_ok_def)
    then show ?thesis using k True by (simp add: kinv_but_def kinv_def)
  next
    case False
    have "kinv_but t (rt_sched_remove_thread t k)"
      by (rule remove_kinv_but) (use k T False s in \<open>auto simp: kinv_def thread_ok_def\<close>)
    then show ?thesis using False by simp
  qed
  moreover have "tlists (timer_gone r ?k) = tlists ?k" "rt_thread_ready_priority_group (timer_gone r ?k) = rt_thread_ready_priority_group ?k" for r
    by (simp_all add: timer_gone_def object_list_remove_def upd_defs clear_timer_def timer_remove_def tmlist_remove_def)
  ultimately have "kinv_but t (timer_gone (ThreadTimer t) ?k)"
    by (simp add: kinv_but_def kglobal_def lists_ok_def group_ok_def thread_ok_def thread_suspended_def)
  then show ?thesis unfolding closed_def rt_sched_thread_close_def by (rule kinv_but_upd_thread)
qed

lemma defunct_kinv:
  assumes b: "kinv_but t k" and c: "th_code k t = RT_THREAD_CLOSE"
  shows "kinv (tlist_insert_after DefunctL t k)"
proof -
  let ?k = "tlist_insert_after DefunctL t k"
  have l: "tlists ?k h = (if h = DefunctL then t # tlists k h else tlists k h)" for h by (simp add: tlist_insert_after_def)
  have f: "threads ?k = threads k" "rt_current_thread ?k = rt_current_thread k"
    "rt_thread_ready_priority_group ?k = rt_thread_ready_priority_group k" by (simp_all add: tlist_insert_after_def)
  have n: "t \<notin> set (tlists k h)" for h using b by (simp add: kinv_but_def)
  have "lists_ok ?k" using b n by (auto simp: kinv_but_def kglobal_def lists_ok_def l)
  moreover have "group_ok ?k" using b by (simp add: kinv_but_def kglobal_def group_ok_def l f)
  moreover have "thread_ok ?k x" for x
  proof (cases "x = t")
    case True
    have "is_susp_list h \<Longrightarrow> h \<noteq> DefunctL" for h by auto
    then show ?thesis using n c by (simp add: thread_ok_def True l f)
  next
    case False
    then show ?thesis using b by (auto simp: kinv_but_def thread_ok_def l f thread_suspended_def)
  qed
  ultimately show ?thesis by (simp add: kinv_def kglobal_def)
qed

lemma defunct_enqueue_nested:
  assumes n: "nested k" and t: "t \<notin> set (tlists k DefunctL)"
  shows "rt_thread_defunct_enqueue t k = Some (tlist_insert_after DefunctL t k)"
proof -
  have "tlist_insert_after DefunctL t (rt_enter_critical k) = rt_enter_critical (tlist_insert_after DefunctL t k)"
    by (simp add: tlist_insert_after_def rt_enter_critical_def)
  then show ?thesis
    using t nested_exit [of "tlist_insert_after DefunctL t k"] n by (simp add: rt_thread_defunct_enqueue_def spin_defs)
qed

text \<open>Releasing the mutexes of another thread only leaves \<^verbatim>\<open>-RT_ERROR\<close> in the caller.\<close>

definition refused :: "tid \<Rightarrow> mid list \<Rightarrow> kernel \<Rightarrow> kernel" where
  "refused c ms k = (if ms = [] then k else upd_thread c (\<lambda>th. th\<lparr>th_error := - RT_ERROR\<rparr>) k)"

lemma release_taken_refused:
  assumes "nested k" and c: "rt_current_thread k = Some c" and i: "rt_interrupt_get_nest k = 0"
    and m: "\<And>m. m \<in> set ms \<Longrightarrow> rt_object_get_type (OMutex m) k = RT_Object_Class_Mutex \<and> mtx_owner (mutexes k m) \<noteq> Some c"
  shows "release_taken ms k = Some (refused c ms k)"
  using assms
proof (induction ms arbitrary: k)
  case (Cons m ms)
  let ?k = "upd_thread c (\<lambda>th. th\<lparr>th_error := - RT_ERROR\<rparr>) k"
  have "rt_mutex_release m k = Some (- RT_ERROR, ?k)"
    using Cons.prems nested_exit [of ?k]
    by (simp add: rt_mutex_release_def debug_in_thread_context_def debug_not_in_interrupt_def rt_thread_self_def spin_defs upd_enter)
  moreover have "release_taken ms ?k = Some (refused c ms ?k)"
    using Cons.prems by (intro Cons.IH) (auto simp: rt_object_get_type_def rt_interrupt_get_nest_def upd_sel)
  ultimately show ?case by (simp add: refused_def upd_defs)
qed (simp add: refused_def)

text \<open>What the section of \<^verbatim>\<open>_thread_detach\<close> has done to the kernel \<open>k\<close> before the thread \<open>t\<close> is queued: it is closed and in
  no list; if it waited for a mutex it has given up the wait, and the mutexes it holds are still its own.\<close>

definition mutexes_left :: "tid \<Rightarrow> kernel \<Rightarrow> kernel \<Rightarrow> bool" where
  "mutexes_left t k k' \<longleftrightarrow> minv {} {} {} k' \<and> th_pending_object (threads k' t) = None \<and>
     th_taken_object_list (threads k' t) = th_taken_object_list (threads k t) \<and>
     (\<forall>m. mtx_owner (mutexes k' m) = mtx_owner (mutexes k m) \<and> mtx_hold (mutexes k' m) = mtx_hold (mutexes k m)) \<and>
     (\<forall>h. is_susp_list h \<longrightarrow> set (tlists k' h) = set (tlists k h) - {t}) \<and>
     (case th_pending_object (threads k t) of
        None \<Rightarrow> mutexes k' = mutexes k \<and> (\<forall>h. is_susp_list h \<longrightarrow> tlists k' h = removeAll t (tlists k h))
      | Some m \<Rightarrow> wait_dropped m t (tlist_remove t k) k')"

definition detached :: "tid \<Rightarrow> kernel \<Rightarrow> kernel \<Rightarrow> bool" where
  "detached t k k' \<longleftrightarrow> kinv k' \<and> th_code k' t = RT_THREAD_CLOSE \<and> (\<forall>h. t \<notin> set (tlists k' h)) \<and>
     rt_scheduler_lock_nest k' = rt_scheduler_lock_nest k + 1 \<and> tlists k' DefunctL = tlists k DefunctL \<and>
     \<not> timer_active k' (ThreadTimer t) \<and> mutexes_left t k k'"

lemma closed_kinv:
  assumes k: "kinv k" and s: "th_code k t \<noteq> RT_THREAD_CLOSE"
  shows "kinv (closed t k)" "t \<notin> set (tlists (closed t k) h)" "tlists (closed t k) h = removeAll t (tlists k h)"
proof -
  note b = closed_kinv_but [OF k s]
  show n: "t \<notin> set (tlists (closed t k) h)" for h using b by (simp add: kinv_but_def)
  then show "tlists (closed t k) h = removeAll t (tlists k h)" by (auto simp: closed_fields split: if_splits)
  show "kinv (closed t k)"
  proof (rule kinv_butI [OF b])
    have "stat_suspended (RT_THREAD_CLOSE :: u8) = False" by simp
    then show "thread_ok (closed t k) t" using n by (simp add: thread_ok_def) (simp add: closed_fields)
  qed
qed

lemma closed_minv:
  assumes k: "kinv k" "th_code k t \<noteq> RT_THREAD_CLOSE" and i: "minv {} {} {} k"
  shows "minv {} {} {} (closed t k)"
proof -
  have p: "th_prio (closed t k) x = th_prio k x" "th_taken_object_list (threads (closed t k) x) = th_taken_object_list (threads k x)"
    "th_init_priority (threads (closed t k) x) = th_init_priority (threads k x)"
    "th_pending_object (threads (closed t k) x) = th_pending_object (threads k x)" for x by (simp_all add: closed_fields)
  have ob: "objects (closed t k) (OMutex m) = objects k (OMutex m)" for m by (simp add: closed_fields)
  have "mutex_ok {} {} (closed t k) m" for m
  proof -
    have D: "mutex_ok {} {} k m" using minvD [OF i] by simp
    have "th_prio (closed t k) = th_prio k" using p(1) by blast
    then have "sorted (map (th_prio (closed t k)) (filter (\<lambda>w. w \<notin> {}) (tlists (closed t k) (MutexL m))))"
      using sorted_filter [OF mutex_okD(11) [OF D], of "\<lambda>w. w \<noteq> t"]
      by (simp add: closed_kinv(3) [OF k] removeAll_filter_not_eq eq_commute)
    then show ?thesis
      using D unfolding mutex_ok_def by (simp add: closed_kinv(3) [OF k] p ob closed_fields(3) rt_object_get_type_def) blast
  qed
  then show ?thesis by (simp add: minv_def)
qed

lemma detach_from_mutex_refused:
  assumes n: "nested k" "nested (rt_enter_critical k)" and c: "rt_current_thread k = Some c" and i: "rt_interrupt_get_nest k = 0"
    and p: "th_pending_object (threads k t) = None"
    and m: "\<And>m. m \<in> set (th_taken_object_list (threads k t)) \<Longrightarrow>
       rt_object_get_type (OMutex m) k = RT_Object_Class_Mutex \<and> mtx_owner (mutexes k m) \<noteq> Some c"
  shows "thread_detach_from_mutex t k = Some (refused c (th_taken_object_list (threads k t)) k)"
proof -
  let ?ms = "th_taken_object_list (threads k t)"
  have "release_taken ?ms (rt_enter_critical k) = Some (refused c ?ms (rt_enter_critical k))"
    using n c i m by (intro release_taken_refused) (auto simp: rt_object_get_type_def rt_interrupt_get_nest_def)
  moreover have "refused c ?ms (rt_enter_critical k) = rt_enter_critical (refused c ?ms k)" by (simp add: refused_def upd_enter)
  moreover have "nested (refused c ?ms k)" using n by (simp add: refused_def)
  ultimately show ?thesis using p by (simp add: thread_detach_from_mutex_def spin_defs nested_exit)
qed

text \<open>A thread that waits for \<open>m\<close>: it gives up the wait first.\<close>

lemma drop_thread_wp:
  assumes n: "nested k" and k: "kinv k" and i: "minv {} {} {} k" and c: "rt_current_thread k \<noteq> None" "rt_interrupt_get_nest k = 0"
    and p: "th_pending_object (threads k t) = Some m" and l: "\<And>h. t \<notin> set (tlists k h)"
    and ch: "\<And>r. mtx_owner (mutexes k m) = Some r \<Longrightarrow> \<exists>ts. wait_chain k r ts"
    and Q: "\<And>S k'. kinv k' \<Longrightarrow> minv {} {} {} k' \<Longrightarrow> boosted S k k' \<Longrightarrow> wait_dropped m t k k' \<Longrightarrow> Q k'"
  shows "wp (rt_mutex_drop_thread m t k) Q"
proof -
  let ?e = "rt_enter_critical k"
  have r: "tlist_remove t ?e = ?e" using l by (simp add: tlist_remove_def rt_enter_critical_def)
  have "wp (mutex_drop_update m t ?e) (\<lambda>k2. wp (rt_exit_critical k2) Q)"
  proof (rule mutex_drop_kinv_wp)
    show "\<exists>ts. wait_chain ?e r ts" if o: "mtx_owner (mutexes ?e m) = Some r" for r
    proof -
      obtain ts where "wait_chain k r ts" using ch o by auto
      then have "wait_chain ?e r ts" by (rule wait_chain_cong [rotated 3]) (simp_all add: thread_suspended_def)
      then show ?thesis by blast
    qed
    fix S k2 assume k2: "kinv k2" "minv {} {} {} k2" "boosted S ?e k2" "wait_dropped m t ?e k2"
    let ?k = "k2\<lparr>rt_scheduler_lock_nest := rt_scheduler_lock_nest k\<rparr>"
    have x: "rt_exit_critical k2 = Some ?k"
      using boostedD(16) [OF k2(3)] n by (intro exit_nested) (simp_all add: nested_def nest_ok_def)
    have "kinv ?k" using k2(1) by (subst kinv_cong) (auto simp: sched_view_def)
    moreover have "boosted S k ?k" using k2(3) unfolding boosted_def same_but_sched_def by (simp add: rt_enter_critical_def)
    moreover have "wait_dropped m t k ?k"
      using k2(4) wait_dropped_start [of ?e k m t k2] by (simp add: wait_dropped_def held_prio_def)
    ultimately show "wp (rt_exit_critical k2) Q" using Q [of ?k S] k2(2) x by simp
  qed (use k i in simp_all)
  then show ?thesis
    using c p r by (simp add: rt_mutex_drop_thread_def debug_in_thread_context_def debug_not_in_interrupt_def rt_thread_self_def spin_defs)
qed

lemma nested_enter: "kok (Suc n) k \<Longrightarrow> nested (rt_enter_critical k)"
  using enter_nonzero kokD(2) [OF kok_enter] unfolding nested_def by blast

lemma minv_refused: "minv W U M (refused c ms k) = minv W U M k"
  by (simp add: refused_def)

lemma detach_from_mutex_wp:
  assumes n: "nested k" "nested (rt_enter_critical k)" and k: "kinv k" and i: "minv {} {} {} k"
    and c: "rt_current_thread k = Some c" "c \<noteq> t" "rt_interrupt_get_nest k = 0" and l: "\<And>h. t \<notin> set (tlists k h)"
    and p: "\<And>m. th_pending_object (threads k t) = Some m \<Longrightarrow> rt_object_get_type (OMutex m) k = RT_Object_Class_Mutex \<and>
       (\<forall>r. mtx_owner (mutexes k m) = Some r \<longrightarrow> (\<exists>ts. wait_chain k r ts))"
    and Q: "\<And>S k1. kinv k1 \<Longrightarrow> minv {} {} {} k1 \<Longrightarrow> boosted S k k1 \<Longrightarrow>
       (case th_pending_object (threads k t) of None \<Rightarrow> k1 = k | Some m \<Rightarrow> wait_dropped m t k k1) \<Longrightarrow>
       Q (refused c (th_taken_object_list (threads k t)) (upd_thread t (\<lambda>th. th\<lparr>th_pending_object := None\<rparr>) k1))"
  shows "wp (thread_detach_from_mutex t k) Q"
proof -
  let ?ms = "th_taken_object_list (threads k t)"
  have own: "rt_object_get_type (OMutex m) k = RT_Object_Class_Mutex" "mtx_owner (mutexes k m) = Some t" if "m \<in> set ?ms" for m
  proof -
    have D: "mutex_ok {} {} k m" using minvD [OF i] by simp
    show o: "mtx_owner (mutexes k m) = Some t" using mutex_okD(1) [OF D] that by blast
    then show "rt_object_get_type (OMutex m) k = RT_Object_Class_Mutex" using mutex_okD(3) [OF D] by simp
  qed
  show ?thesis
  proof (cases "th_pending_object (threads k t)")
    case None
    have u: "upd_thread t (\<lambda>th. th\<lparr>th_pending_object := None\<rparr>) k = k" using None by (cases "threads k t") (auto simp: upd_defs fun_upd_idem)
    have "thread_detach_from_mutex t k = Some (refused c ?ms k)"
      using own c by (intro detach_from_mutex_refused [OF n c(1,3) None]) auto
    then show ?thesis using Q [OF k i boosted_refl] None u by simp
  next
    case (Some m)
    let ?e = "rt_enter_critical k"
    have "wp (rt_mutex_drop_thread m t ?e) (\<lambda>k1. wp (release_taken (th_taken_object_list (threads (upd_thread t (\<lambda>th. th\<lparr>th_pending_object := None\<rparr>) k1) t))
        (upd_thread t (\<lambda>th. th\<lparr>th_pending_object := None\<rparr>) k1)) (\<lambda>k2. wp (rt_exit_critical k2) Q))"
    proof (rule drop_thread_wp [OF n(2)])
      show "\<exists>ts. wait_chain ?e r ts" if o: "mtx_owner (mutexes ?e m) = Some r" for r
      proof -
        obtain ts where "wait_chain k r ts" using p [OF Some] o by auto
        then have "wait_chain ?e r ts" by (rule wait_chain_cong [rotated 3]) (simp_all add: thread_suspended_def)
        then show ?thesis by blast
      qed
      fix S k1 assume k1: "kinv k1" "minv {} {} {} k1" "boosted S ?e k1" "wait_dropped m t ?e k1"
      note B = boostedD [OF k1(3)]
      let ?p = "\<lambda>k. upd_thread t (\<lambda>th. th\<lparr>th_pending_object := None\<rparr>) k"
      let ?k0 = "k1\<lparr>rt_scheduler_lock_nest := rt_scheduler_lock_nest k\<rparr>"
      have e0: "k1 = rt_enter_critical ?k0" using B(16) by (simp add: rt_enter_critical_def)
      have n0: "nested ?k0" "nested k1" using n B(16) by (simp_all add: nested_def nest_ok_def)
      have rl: "release_taken ?ms (?p k1) = Some (refused c ?ms (?p k1))"
      proof (rule release_taken_refused)
        show "nested (?p k1)" using n0(2) by (simp add: nested_def nest_ok_def upd_sel)
        show "rt_object_get_type (OMutex m) (?p k1) = RT_Object_Class_Mutex \<and> mtx_owner (mutexes (?p k1) m) \<noteq> Some c"
          if "m \<in> set ?ms" for m
          using own [OF that] B(1) [of m] B(15) c(2) by (simp add: rt_object_get_type_def upd_sel)
      qed (use c B(14,19) in \<open>simp_all add: upd_sel rt_interrupt_get_nest_def\<close>)
      have "refused c ?ms (?p k1) = rt_enter_critical (refused c ?ms (?p ?k0))"
        by (subst e0) (simp add: refused_def upd_enter)
      moreover have "nested (refused c ?ms (?p ?k0))" using n0(1) by (simp add: refused_def nested_def nest_ok_def upd_sel)
      ultimately have ex: "rt_exit_critical (refused c ?ms (?p k1)) = Some (refused c ?ms (?p ?k0))" by (simp add: nested_exit)
      have "Q (refused c ?ms (?p ?k0))"
      proof (rule Q)
        show "kinv ?k0" using k1(1) by (subst kinv_cong) (auto simp: sched_view_def)
        show "boosted S k ?k0" using k1(3) unfolding boosted_def same_but_sched_def by (simp add: rt_enter_critical_def)
        show "case th_pending_object (threads k t) of None \<Rightarrow> ?k0 = k | Some m \<Rightarrow> wait_dropped m t k ?k0"
          using k1(4) wait_dropped_start [of ?e k m t k1] Some by (simp add: wait_dropped_def held_prio_def)
      qed (use k1(2) in simp)
      moreover have "th_taken_object_list (threads (?p k1) t) = ?ms" using B(5) [of t] by (simp add: upd_sel)
      ultimately show "wp (release_taken (th_taken_object_list (threads (?p k1) t)) (?p k1)) (\<lambda>k2. wp (rt_exit_critical k2) Q)"
        using rl ex by simp
    qed (use k i c Some l in \<open>simp_all add: rt_interrupt_get_nest_def\<close>)
    then show ?thesis using Some p [OF Some] by (simp add: thread_detach_from_mutex_def spin_defs rt_object_get_type_def)
  qed
qed

text \<open>Thread \<open>t\<close> is alive, and its object and its timer are in order.\<close>

definition thread_alive :: "tid \<Rightarrow> kernel \<Rightarrow> bool" where
  "thread_alive t k \<longleftrightarrow> th_code k t \<noteq> RT_THREAD_CLOSE \<and> rt_object_get_type (OThread t) k = RT_Object_Class_Thread \<and>
     rt_object_is_systemobject (OThread t) k \<and> rt_object_get_type (OTimer (ThreadTimer t)) k = RT_Object_Class_Timer \<and>
     rt_object_is_systemobject (OTimer (ThreadTimer t)) k"

lemma detach_section_wp:
  assumes k: "kok (Suc (Suc (Suc n))) k" and c: "rt_current_thread k = Some c" "c \<noteq> t" "rt_interrupt_get_nest k = 0"
    and s: "th_code k t \<noteq> RT_THREAD_CLOSE" and i: "minv {} {} {} k"
    and p: "\<And>m. th_pending_object (threads k t) = Some m \<Longrightarrow> rt_object_get_type (OMutex m) k = RT_Object_Class_Mutex \<and>
       (\<forall>r. mtx_owner (mutexes k m) = Some r \<longrightarrow> (\<exists>ts. wait_chain k r ts \<and> t \<notin> set (r # ts)))"
  shows "wp (thread_detach_from_mutex t (closed t (rt_enter_critical k))) (\<lambda>k'. detached t k k' \<and> nested k')"
proof -
  let ?e = "rt_enter_critical k" and ?c = "closed t (rt_enter_critical k)" and ?ms = "th_taken_object_list (threads k t)"
  have ke: "kok (Suc (Suc n)) ?e" using k by (rule kok_enter)
  have ne: "nested ?e" "nested (rt_enter_critical ?e)" using nested_enter [OF k] nested_enter [OF ke] by simp_all
  then have nc: "nested ?c" "nested (rt_enter_critical ?c)" by (simp_all add: nested_def nest_ok_def closed_fields)
  have s': "th_code ?e t \<noteq> RT_THREAD_CLOSE" using s by simp
  note K = closed_kinv [OF kokD(1) [OF ke] s']
  have mi: "minv {} {} {} ?c" using i by (intro closed_minv [OF kokD(1) [OF ke] s']) simp
  have f: "th_pending_object (threads ?c x) = th_pending_object (threads k x)" "mutexes ?c = mutexes k" "th_prio ?c x = th_prio k x"
    "th_taken_object_list (threads ?c x) = th_taken_object_list (threads k x)" "objects ?c (OMutex m) = objects k (OMutex m)"
    "x \<noteq> t \<Longrightarrow> thread_suspended ?c x = thread_suspended k x" for x m
    by (simp_all add: closed_fields thread_suspended_def)
  have d: "removeAll t (tlists k DefunctL) = tlists k DefunctL"
    using kokD(1) [OF k] s by (intro removeAll_id) (auto simp: kinv_def thread_ok_def)
  show ?thesis
  proof (rule detach_from_mutex_wp [OF nc K(1) mi])
    fix m assume "th_pending_object (threads ?c t) = Some m"
    then have pm: "th_pending_object (threads k t) = Some m" by (simp add: f)
    have "\<exists>ts. wait_chain ?c r ts" if o: "mtx_owner (mutexes k m) = Some r" for r
    proof -
      obtain ts where ts: "wait_chain k r ts" "t \<notin> set (r # ts)" using p [OF pm] o by blast
      have ne: "x \<noteq> t" if "x \<in> set (r # ts)" for x using ts(2) that by auto
      have "wait_chain ?c r ts"
        by (rule wait_chain_cong [OF _ _ _ ts(1)]) (use ne f in \<open>simp_all add: K(3)\<close>)
      then show ?thesis by blast
    qed
    then show "rt_object_get_type (OMutex m) ?c = RT_Object_Class_Mutex \<and> (\<forall>r. mtx_owner (mutexes ?c m) = Some r \<longrightarrow> (\<exists>ts. wait_chain ?c r ts))"
      using p [OF pm] by (simp add: f rt_object_get_type_def)
  next
    fix S k1 assume k1: "kinv k1" "minv {} {} {} k1" "boosted S ?c k1"
      and w: "case th_pending_object (threads ?c t) of None \<Rightarrow> k1 = ?c | Some m \<Rightarrow> wait_dropped m t ?c k1"
    note B = boostedD [OF k1(3)]
    define k2 where "k2 = refused c (th_taken_object_list (threads ?c t)) (upd_thread t (\<lambda>th. th\<lparr>th_pending_object := None\<rparr>) k1)"
    have g: "tlists k2 = tlists k1" "mutexes k2 = mutexes k1" "objects k2 = objects k1" "rt_scheduler_lock_nest k2 = rt_scheduler_lock_nest k1"
      "th_code k2 x = th_code k1 x" "th_prio k2 x = th_prio k1 x" "th_taken_object_list (threads k2 x) = th_taken_object_list (threads k1 x)"
      "th_init_priority (threads k2 x) = th_init_priority (threads k1 x)"
      "th_pending_object (threads k2 x) = (if x = t then None else th_pending_object (threads k1 x))" for x
      by (auto simp: k2_def refused_def upd_sel)
    have ki: "kinv k2" using k1(1) by (auto simp: k2_def refused_def kinv_upd_thread thread_view_def)
    have code: "th_code k2 t = RT_THREAD_CLOSE" unfolding g using B(10) [of t] by (simp add: closed_fields)
    have out: "t \<notin> set (tlists k2 h)" for h
    proof (cases "\<exists>q. h = ReadyL q")
      case True
      then show ?thesis using ki code ready_memD(1) [OF ki] by fastforce
    next
      case False
      then show ?thesis using B(12) [of h] K(2) by (auto simp: g)
    qed
    have su: "set (tlists k2 h) = set (tlists k h) - {t}" if "is_susp_list h" for h
      using B(12) [of h] that by (cases h) (simp_all add: g K(3))
    have mv: "minv {} {} {} k2"
    proof -
      have "mutex_ok {} {} k2 m = mutex_ok {} {} k1 m" for m
        by (rule mutex_ok_cong) (use out [of "MutexL m"] in \<open>auto simp: g\<close>)
      then show ?thesis using k1(2) by (simp add: minv_def)
    qed
    have pc: "case th_pending_object (threads k t) of
        None \<Rightarrow> mutexes k2 = mutexes k \<and> (\<forall>h. is_susp_list h \<longrightarrow> tlists k2 h = removeAll t (tlists k h))
      | Some m \<Rightarrow> wait_dropped m t (tlist_remove t k) k2"
    proof (cases "th_pending_object (threads k t)")
      case None
      then show ?thesis using w by (simp add: f g K(3))
    next
      case (Some m)
      then have "wait_dropped m t ?c k1" using w by (simp add: f)
      moreover have "wait_dropped m t ?c k1 = wait_dropped m t (tlist_remove t k) k1"
        by (rule wait_dropped_start) (simp_all add: f K(3) tlist_remove_def closed_fields(1))
      ultimately have "wait_dropped m t (tlist_remove t k) k1" by blast
      then show ?thesis using Some by (simp add: wait_dropped_def g held_prio_def)
    qed
    have "mutexes_left t k k2" unfolding mutexes_left_def using mv su pc B(1,2,5) by (simp add: g f)
    moreover have "\<not> timer_active k2 (ThreadTimer t)" using closed_timer [of t ?e] B(15) by (simp add: timer_active_def g)
    moreover have "tlists k2 DefunctL = tlists k DefunctL" using B(13) [of DefunctL] d by (simp add: g K(3))
    moreover have "rt_scheduler_lock_nest k2 = rt_scheduler_lock_nest k + 1" using B(16) by (simp add: g closed_fields)
    ultimately have "detached t k k2 \<and> nested k2"
      using ki code out nc(1) B(16) by (simp add: detached_def nested_def nest_ok_def g)
    then show "detached t k (refused c (th_taken_object_list (threads ?c t)) (upd_thread t (\<lambda>th. th\<lparr>th_pending_object := None\<rparr>) k1)) \<and>
        nested (refused c (th_taken_object_list (threads ?c t)) (upd_thread t (\<lambda>th. th\<lparr>th_pending_object := None\<rparr>) k1))"
      unfolding k2_def .
  qed (use c K(2) in \<open>simp_all add: closed_fields rt_interrupt_get_nest_def\<close>)
qed

lemma mutexes_left_sched:
  assumes s: "sched_only k1 k'" and l: "mutexes_left t k k1"
  shows "mutexes_left t k k'"
proof -
  note S = sched_onlyD [OF s] and F = same_but_schedD [OF sched_onlyD(1) [OF s]]
  have t: "tlists k' h = tlists k1 h" if "is_susp_list h" for h by (rule sched_only_susp [OF s that])
  show ?thesis
    using l minv_sched_only [OF s, of "{}" "{}" "{}"] S(5,6,9,10) F(5) t
    by (auto simp: mutexes_left_def wait_dropped_def held_prio_def split: option.splits)
qed

lemma exit_detached_wp:
  assumes k: "kok (Suc n) k" and d: "detached t k k1"
  shows "wp (rt_exit_critical (tlist_insert_after DefunctL t k1)) (\<lambda>k'. kinv k' \<and> th_code k' t = RT_THREAD_CLOSE \<and>
     tlists k' DefunctL = t # tlists k DefunctL \<and> \<not> timer_active k' (ThreadTimer t) \<and> mutexes_left t k k')"
proof (rule exit_section_wp)
  let ?D = "tlist_insert_after DefunctL t k1"
  note D = d [unfolded detached_def]
  have l: "tlists ?D h = (if h = DefunctL then t # tlists k1 h else tlists k1 h)" for h by (simp add: tlist_insert_after_def)
  show "kinv ?D" by (rule defunct_kinv) (use D in \<open>simp_all add: kinv_but_def kinv_def\<close>)
  show "rt_scheduler_lock_nest ?D = rt_scheduler_lock_nest k + 1" using D by (simp add: tlist_insert_after_def)
  show "0 \<le> sint (rt_scheduler_lock_nest k)" using kokD(2) [OF k] by (simp add: nest_ok_def)
  fix k' assume k': "kinv k'" "sched_only (?D\<lparr>rt_scheduler_lock_nest := rt_scheduler_lock_nest k\<rparr>) k'"
  note F = same_but_schedD [OF sched_onlyD(1) [OF k'(2)]]
  have q: "tlists k' DefunctL = t # tlists k DefunctL" using sched_onlyD(3) [OF k'(2), of DefunctL] D by (simp add: l)
  then have "th_code k' t = RT_THREAD_CLOSE" using k'(1) by (auto simp: kinv_def thread_ok_def)
  moreover have "\<not> timer_active k' (ThreadTimer t)" using F D by (simp add: timer_active_def tlist_insert_after_def)
  moreover have "mutexes_left t k (?D\<lparr>rt_scheduler_lock_nest := rt_scheduler_lock_nest k\<rparr>)"
  proof -
    have "minv {} {} {} ?D = minv {} {} {} k1" by (rule minv_cong) (simp_all add: tlist_insert_after_def)
    moreover have "is_susp_list h \<Longrightarrow> tlists ?D h = tlists k1 h" for h by (auto simp: l)
    moreover have "wait_dropped m t k0 (?D\<lparr>rt_scheduler_lock_nest := x\<rparr>) = wait_dropped m t k0 k1" for m k0 x
      by (simp add: wait_dropped_def held_prio_def l) (simp add: tlist_insert_after_def)
    ultimately show ?thesis
      using conjunct2 [OF conjunct2 [OF conjunct2 [OF conjunct2 [OF conjunct2 [OF conjunct2 [OF D]]]]]]
      by (simp add: mutexes_left_def cong: option.case_cong) (simp add: tlist_insert_after_def cong: option.case_cong)
  qed
  ultimately show "kinv k' \<and> th_code k' t = RT_THREAD_CLOSE \<and> tlists k' DefunctL = t # tlists k DefunctL \<and>
     \<not> timer_active k' (ThreadTimer t) \<and> mutexes_left t k k'"
    using k'(1) q mutexes_left_sched [OF k'(2)] by simp
qed

text \<open>C12. Detaching a thread that is not closed yet (initialised, ready or suspended, also one that waits for a mutex), from
  another thread: it is closed, leaves the ready and suspend lists, its timer stops, and it waits in the queue of
  defunct threads for the idle thread; the invariants of the kernel and of the mutexes hold afterwards. A thread that waited for a
  mutex gives up the wait: the mutex gets the priority of its first remaining waiter, and an owner that ran at the priority of the
  thread gets the best of its own priority and those of the mutexes it holds. The mutexes the thread itself holds are not
  released, although the code tries to: releasing is the right of the owner alone, and it is the caller that asks. The closed
  thread stays their owner for ever.\<close>

theorem rt_thread_detach_correct:
  assumes k: "kok (Suc (Suc (Suc n))) k" and c: "rt_current_thread k = Some c" "c \<noteq> t" "rt_interrupt_get_nest k = 0"
    and a: "thread_alive t k" and i: "minv {} {} {} k"
    and p: "\<And>m. th_pending_object (threads k t) = Some m \<Longrightarrow> rt_object_get_type (OMutex m) k = RT_Object_Class_Mutex \<and>
       (\<forall>r. mtx_owner (mutexes k m) = Some r \<longrightarrow> (\<exists>ts. wait_chain k r ts \<and> t \<notin> set (r # ts)))"
  shows "wp (rt_thread_detach t k) (\<lambda>(ret, k'). ret = RT_EOK \<and> kinv k' \<and> th_code k' t = RT_THREAD_CLOSE \<and>
     tlists k' DefunctL = t # tlists k DefunctL \<and> \<not> timer_active k' (ThreadTimer t) \<and> mutexes_left t k k')"
proof -
  let ?e = "rt_enter_critical k"
  note A = a [unfolded thread_alive_def]
  have ne: "nested ?e" using nested_enter [OF k] by simp
  have cl: "rt_thread_close t ?e = Some (RT_EOK, closed t ?e)"
    using A by (intro close_nested [OF ne]) (simp_all add: rt_object_get_type_def rt_object_is_systemobject_def)
  have "wp (thread_detach_from_mutex t (closed t ?e)) (\<lambda>k1. wp (rt_thread_defunct_enqueue t k1) (\<lambda>k2. wp (rt_exit_critical k2) (\<lambda>k'.
     kinv k' \<and> th_code k' t = RT_THREAD_CLOSE \<and> tlists k' DefunctL = t # tlists k DefunctL \<and>
     \<not> timer_active k' (ThreadTimer t) \<and> mutexes_left t k k')))"
  proof (rule wp_mono [OF detach_section_wp [OF k c _ i p]])
    fix k1 assume k1: "detached t k k1 \<and> nested k1"
    then have "nested k1" "t \<notin> set (tlists k1 DefunctL)" unfolding detached_def by blast+
    then have "rt_thread_defunct_enqueue t k1 = Some (tlist_insert_after DefunctL t k1)" by (rule defunct_enqueue_nested)
    then show "wp (rt_thread_defunct_enqueue t k1) (\<lambda>k2. wp (rt_exit_critical k2) (\<lambda>k'.
     kinv k' \<and> th_code k' t = RT_THREAD_CLOSE \<and> tlists k' DefunctL = t # tlists k DefunctL \<and>
     \<not> timer_active k' (ThreadTimer t) \<and> mutexes_left t k k'))"
      using exit_detached_wp [OF k] k1 by simp
  qed (use A in simp_all)
  then show ?thesis
    unfolding rt_thread_detach_def thread_detach_def using A cl by (auto simp: Let_def elim!: wp_mono)
qed

section \<open>Properties of the end of threads\<close>

text \<open>C13. A thread whose entry function returns, or that ends itself, is closed, waits in the queue of defunct threads and loses the
  processor to another thread as soon as one is ready. The mutexes it holds stay as they are.\<close>

theorem thread_exit_correct:
  assumes k: "kok (Suc (Suc n)) k" and c: "rt_current_thread k = Some t" and l: "rt_scheduler_lock_nest k = 0" and a: "thread_alive t k"
    and r: "th_code k t' = RT_THREAD_READY"
  shows "wp (thread_exit k) (\<lambda>k'. kinv k' \<and> rt_current_thread k' \<noteq> Some t \<and> th_code k' t = RT_THREAD_CLOSE \<and>
     tlists k' DefunctL = t # tlists k DefunctL \<and> \<not> timer_active k' (ThreadTimer t) \<and> mutexes k' = mutexes k)"
proof -
  let ?e = "rt_enter_critical k" and ?D = "tlist_insert_after DefunctL t (closed t (rt_enter_critical k))"
  note A = a [unfolded thread_alive_def]
  have ke: "kok (Suc n) ?e" using k by (rule kok_enter)
  have ne: "nested ?e" using nested_enter [OF k] by simp
  have cl: "rt_thread_close t ?e = Some (RT_EOK, closed t ?e)"
    using A by (intro close_nested [OF ne]) (simp_all add: rt_object_get_type_def rt_object_is_systemobject_def)
  have b: "kinv_but t (closed t ?e)" using A kokD(1) [OF ke] by (intro closed_kinv_but) simp_all
  then have q: "rt_thread_defunct_enqueue t (closed t ?e) = Some ?D"
    using ne by (intro defunct_enqueue_nested) (auto simp: kinv_but_def)
  let ?k = "?D\<lparr>rt_scheduler_lock_nest := 0\<rparr>"
  have kD: "kinv ?k" using defunct_kinv [OF b] by (simp add: closed_fields)
  have T: "t' \<noteq> t" "removeAll t (tlists k DefunctL) = tlists k DefunctL"
    using kinvD(1) [OF kokD(1) [OF k], of t] c r A by (auto simp: thread_ok_def intro!: removeAll_id)
  have f: "rt_current_thread ?k = Some t" "mutexes ?k = mutexes k" "th_code ?k t = RT_THREAD_CLOSE"
    "th_code ?k t' = RT_THREAD_READY" "rt_scheduler_lock_nest ?D = 1" "tlists ?k DefunctL = t # tlists k DefunctL"
    using c l r T by (simp_all add: tlist_insert_after_def closed_fields)
  have n: "\<not> timer_active ?k (ThreadTimer t)"
    using closed_timer [of t ?e] by (simp add: timer_active_def tlist_insert_after_def)
  have "wp (rt_schedule ?k) (\<lambda>k'. rt_current_thread k' \<noteq> Some t \<and> kinv k' \<and> sched_only ?k k')"
    by (rule wp_conj [OF schedule_away [OF kD f(1) _ f(4)] schedule_total [OF kD f(1)]]) (use f(3) in simp_all)
  then have "wp (rt_exit_critical ?D) (\<lambda>k'. rt_current_thread k' \<noteq> Some t \<and> kinv k' \<and> sched_only ?k k')"
    using f(1,5) by (simp add: rt_exit_critical_def Let_def)
  then have "wp (rt_exit_critical ?D) (\<lambda>k'. kinv k' \<and> rt_current_thread k' \<noteq> Some t \<and> th_code k' t = RT_THREAD_CLOSE \<and>
     tlists k' DefunctL = t # tlists k DefunctL \<and> \<not> timer_active k' (ThreadTimer t) \<and> mutexes k' = mutexes k)"
  proof (rule wp_mono)
    fix k' assume k': "rt_current_thread k' \<noteq> Some t \<and> kinv k' \<and> sched_only ?k k'"
    then have s: "sched_only ?k k'" by simp
    note F = same_but_schedD [OF sched_onlyD(1) [OF s]]
    have "tlists k' DefunctL = t # tlists k DefunctL" using sched_onlyD(3) [OF s, of DefunctL] f(6) by simp
    moreover from this have "th_code k' t = RT_THREAD_CLOSE" using k' by (auto simp: kinv_def thread_ok_def)
    moreover have "\<not> timer_active k' (ThreadTimer t)" "mutexes k' = mutexes k"
      using n f(2) F by (simp_all add: timer_active_def)
    ultimately show "kinv k' \<and> rt_current_thread k' \<noteq> Some t \<and> th_code k' t = RT_THREAD_CLOSE \<and>
     tlists k' DefunctL = t # tlists k DefunctL \<and> \<not> timer_active k' (ThreadTimer t) \<and> mutexes k' = mutexes k" using k' by simp
  qed
  then show ?thesis
    unfolding thread_exit_def using c cl q by (simp add: rt_thread_self_def Let_def) (erule wp_mono, simp)
qed

text \<open>Detaching a thread a second time before the idle thread has run is an error the code does not notice: \<^verbatim>\<open>rt_thread_close\<close>
  accepts the closed thread, and its list node is inserted into the queue in which it already is.\<close>

theorem rt_thread_detach_twice:
  assumes k: "kok (Suc (Suc n)) k" and d: "t \<in> set (tlists k DefunctL)"
    and p: "th_pending_object (threads k t) = None" "th_taken_object_list (threads k t) = []"
  shows "rt_thread_close t (rt_enter_critical k) = Some (RT_EOK, rt_enter_critical k)" "rt_thread_detach t k = None"
proof -
  let ?e = "rt_enter_critical k"
  have "th_code k t = RT_THREAD_CLOSE" using kokD(1) [OF k] d by (auto simp: kinv_def thread_ok_def)
  moreover have ne: "nested ?e" using nested_enter [OF k] by simp
  ultimately show c: "rt_thread_close t ?e = Some (RT_EOK, ?e)"
    by (simp add: rt_thread_close_def rt_sched_thread_get_stat_def rt_critical_level_def nested_def)
  have "thread_detach_from_mutex t ?e = Some ?e"
    using p nested_exit [OF ne] by (simp add: thread_detach_from_mutex_def spin_defs)
  moreover have "rt_thread_defunct_enqueue t ?e = None"
    using d by (simp add: rt_thread_defunct_enqueue_def spin_defs rt_assert_def)
  ultimately have "thread_detach t k = None" using c by (simp add: thread_detach_def)
  then show "rt_thread_detach t k = None" by (simp add: rt_thread_detach_def rt_assert_def)
qed

section \<open>Sample runs\<close>

text \<open>The last wake-up was two ticks before the counter wrapped.\<close>

theorem rt_thread_delay_until_correct_witness:
  "wp (rt_thread_delay_until 0xFFFFFFFE 10 sample_block) (\<lambda>(out, tick', k'). kok 8 k' \<and> out = Waiting \<and> tick' = 8 \<and>
     sleeps 2 8 sample_block k')"
proof -
  have "kok (Suc 7) sample_block" using kok_sample_block by simp
  moreover have "rt_tick sample_block = 0" by (simp add: sample_kernel_def zero_kernel_def)
  moreover have e: "(0xFFFFFFFE :: rt_tick_t) + 10 = 8" by simp
  ultimately show ?thesis using rt_thread_delay_until_correct [OF _ may_block_sample, of 7 10 "0xFFFFFFFE", unfolded e] by simp
qed

text \<open>Thread 5 waits for a semaphore and holds mutex 4.\<close>

definition sample_holder :: kernel where
  "sample_holder = upd_mutex 4 (\<lambda>m. m\<lparr>mtx_owner := Some 5, mtx_hold := 1\<rparr>)
     (upd_thread 5 (\<lambda>th. th\<lparr>th_taken_object_list := [4]\<rparr>) sample_block)"

lemma kok_sample_holder: "kok 8 sample_holder"
proof -
  have "kok 8 (upd_thread 5 (\<lambda>th. th\<lparr>th_taken_object_list := [4]\<rparr>) sample_block)"
    using kok_upd_thread [of "\<lambda>th. th\<lparr>th_taken_object_list := [4]\<rparr>" 8 5 sample_block] kok_sample_block by (simp add: thread_view_def)
  then show ?thesis unfolding sample_holder_def by (subst kok_cong) (simp_all add: upd_sel sched_view_def)
qed

lemma sample_holder_fields [simp]:
  "rt_current_thread sample_holder = Some 2" "rt_interrupt_get_nest sample_holder = 0" "rt_scheduler_lock_nest sample_holder = 0"
  "tlists sample_holder = tlists sample_kernel" "th_taken_object_list (threads sample_holder 5) = [4]"
  "th_pending_object (threads sample_holder 5) = None" "mtx_owner (mutexes sample_holder 4) = Some 5"
  "th_code sample_holder 5 = RT_THREAD_SUSPEND" "th_code sample_holder 2 = RT_THREAD_RUNNING" "th_code sample_holder 3 = RT_THREAD_READY"
  "ob_type (objects sample_holder r) = sample_type r"
  by (simp_all add: sample_holder_def sample_block_def upd_defs rt_interrupt_get_nest_def sample_kernel_def zero_kernel_def
      sample_thread_def zero_thread_def)

text \<open>Thread 5 waits for mutex 2 of thread 2, which has inherited its priority.\<close>

theorem rt_thread_detach_correct_witness:
  "wp (rt_thread_detach 5 sample_inherit) (\<lambda>(ret, k'). ret = RT_EOK \<and> kinv k' \<and> th_code k' 5 = RT_THREAD_CLOSE \<and>
     tlists k' DefunctL = [5] \<and> tlists k' (MutexL 2) = [] \<and> mtx_owner (mutexes k' 2) = Some 2 \<and> th_prio k' 2 = 10)"
proof -
  note D = sample_inherit_def sample_kernel_def zero_kernel_def sample_thread_def zero_thread_def
  have a: "thread_alive 5 sample_inherit"
    by (simp add: thread_alive_def rt_object_get_type_def rt_object_is_systemobject_def D zero_object_def sample_type_def)
  have k: "kok (Suc (Suc (Suc 5))) sample_inherit" using sample_inherit_facts(1) by simp
  have f: "tlists sample_inherit DefunctL = []" "tlists sample_inherit (MutexL 2) = [5]" "rt_current_thread sample_inherit = Some 2"
    "rt_interrupt_get_nest sample_inherit = 0" "th_pending_object (threads sample_inherit 5) = Some 2"
    "mtx_owner (mutexes sample_inherit 2) = Some 2" "rt_object_get_type (OMutex 2) sample_inherit = RT_Object_Class_Mutex"
    "th_prio sample_inherit 2 = 5" "th_prio sample_inherit 5 = 5" "th_taken_object_list (threads sample_inherit 2) = [2]"
    "th_init_priority (threads sample_inherit 2) = 10" "mtx_ceiling_priority (mutexes sample_inherit 2) = 0xff"
    "wait_chain sample_inherit 2 []"
    by (simp_all add: D rt_interrupt_get_nest_def rt_object_get_type_def zero_object_def thread_suspended_def)
  have "wp (rt_thread_detach 5 sample_inherit) (\<lambda>(ret, k'). ret = RT_EOK \<and> kinv k' \<and> th_code k' 5 = RT_THREAD_CLOSE \<and>
     tlists k' DefunctL = 5 # tlists sample_inherit DefunctL \<and> \<not> timer_active k' (ThreadTimer 5) \<and> mutexes_left 5 sample_inherit k')"
  proof (rule rt_thread_detach_correct [OF k f(3) _ f(4) a sample_inherit_facts(2)])
    fix m assume "th_pending_object (threads sample_inherit 5) = Some m"
    then have "m = 2" using f(5) by simp
    then show "rt_object_get_type (OMutex m) sample_inherit = RT_Object_Class_Mutex \<and>
       (\<forall>r. mtx_owner (mutexes sample_inherit m) = Some r \<longrightarrow> (\<exists>ts. wait_chain sample_inherit r ts \<and> 5 \<notin> set (r # ts)))"
      using f(6,7,13) by (auto intro!: exI [of _ "[]"])
  qed simp
  then show ?thesis
    by (rule wp_mono) (auto simp: mutexes_left_def wait_dropped_def tlist_remove_def f held_prio_def)
qed

theorem thread_exit_correct_witness:
  "wp (thread_exit sample_holder) (\<lambda>k'. kinv k' \<and> rt_current_thread k' \<noteq> Some 2 \<and> tlists k' DefunctL = [2])"
proof -
  have a: "thread_alive 2 sample_holder"
    by (simp add: thread_alive_def rt_object_get_type_def rt_object_is_systemobject_def sample_type_def)
  have k: "kok (Suc (Suc 6)) sample_holder" using kok_sample_holder by simp
  have "tlists sample_kernel DefunctL = []" by (simp add: sample_kernel_def zero_kernel_def)
  then show ?thesis
    using thread_exit_correct [OF k _ _ a, of 3] by (auto elim!: wp_mono)
qed

end
