(* ===== verification/Idle.thy ===== *)
theory Idle
  imports Thread_Life System_Heap
begin

text \<open>
  The idle thread, \<^verbatim>\<open>src/idle.c\<close>: its hooks and the end of the threads in the queue of defunct threads. Hooks and
  cleanup functions belong to the applications; the state keeps their addresses, and what a call of such an address does is
  a parameter, of which nothing is assumed. The stack of a dynamic thread goes back to the system heap of theory \<open>System_Heap\<close>.
\<close>

section \<open>Idle hooks\<close>

text \<open>The array \<^verbatim>\<open>idle_hook_list\<close> of function addresses, where 0 is \<^verbatim>\<open>RT_NULL\<close>.\<close>

type_synonym idle_hooks = "nat list"

definition RT_IDLE_HOOK_LIST_SIZE :: nat where
  "RT_IDLE_HOOK_LIST_SIZE = 4"

text \<open>The search both functions do: the first slot from \<open>i\<close> on that holds the address \<open>x\<close> is set to \<open>y\<close>; reading beyond the
  array fails.\<close>

fun idle_hook_swap :: "nat \<Rightarrow> nat \<Rightarrow> nat \<Rightarrow> nat \<Rightarrow> idle_hooks \<Rightarrow> (bool \<times> idle_hooks) option" where
  "idle_hook_swap 0 i x y hs = Some (False, hs)"
| "idle_hook_swap (Suc n) i x y hs = do {
     rt_assert (i < length hs);
     if hs ! i = x then Some (True, hs[i := y]) else idle_hook_swap n (Suc i) x y hs
   }"

definition rt_thread_idle_sethook :: "nat \<Rightarrow> idle_hooks \<Rightarrow> kernel \<Rightarrow> (rt_err_t \<times> idle_hooks \<times> kernel) option" where
  "rt_thread_idle_sethook hook hs k = do {
     let k = rt_spin_lock_irqsave k;
     (found, hs) \<leftarrow> idle_hook_swap RT_IDLE_HOOK_LIST_SIZE 0 0 hook hs;
     k \<leftarrow> rt_spin_unlock_irqrestore k;
     Some (if found then RT_EOK else - RT_EFULL, hs, k)
   }"

definition rt_thread_idle_delhook :: "nat \<Rightarrow> idle_hooks \<Rightarrow> kernel \<Rightarrow> (rt_err_t \<times> idle_hooks \<times> kernel) option" where
  "rt_thread_idle_delhook hook hs k = do {
     let k = rt_spin_lock_irqsave k;
     (found, hs) \<leftarrow> idle_hook_swap RT_IDLE_HOOK_LIST_SIZE 0 hook 0 hs;
     k \<leftarrow> rt_spin_unlock_irqrestore k;
     Some (if found then RT_EOK else - RT_ENOSYS, hs, k)
   }"

section \<open>The work of the idle thread\<close>

text \<open>\<^verbatim>\<open>rt_defunct_execute\<close>; \<open>cleanup\<close> says what the cleanup functions do. Giving the stack back may have to wait for the heap
  mutex.\<close>

partial_function (option) rt_defunct_execute ::
  "(nat \<Rightarrow> tid \<Rightarrow> world \<Rightarrow> world option) \<Rightarrow> world \<Rightarrow> (unit outcome \<times> world) option" where
  "rt_defunct_execute cleanup w =
     (case rt_thread_defunct_dequeue (kern w) of
        (None, k) \<Rightarrow> Some (Returned (), w\<lparr>kern := k\<rparr>)
      | (Some t, k) \<Rightarrow> do {
          let cleanup_fn = th_cleanup (threads k t);
          let object_is_systemobject = rt_object_is_systemobject (OThread t) k;
          k \<leftarrow> (if object_is_systemobject then rt_object_detach (OThread t) k else Some k);
          w \<leftarrow> (case cleanup_fn of Some f \<Rightarrow> cleanup f t (w\<lparr>kern := k\<rparr>) | None \<Rightarrow> Some (w\<lparr>kern := k\<rparr>));
          if \<not> object_is_systemobject then do {
            (out, w) \<leftarrow> rt_free (of_nat (th_stack_addr (threads (kern w) t))) w;
            case out of
              Waiting \<Rightarrow> Some (Waiting, w)
            | Returned _ \<Rightarrow> do {
                k \<leftarrow> rt_object_delete (OThread t) (kern w);
                rt_defunct_execute cleanup (w\<lparr>kern := k\<rparr>)
              }
          } else rt_defunct_execute cleanup w
        })"

text \<open>The hooks in the order of the array.\<close>

fun idle_run_hooks :: "(nat \<Rightarrow> world \<Rightarrow> world option) \<Rightarrow> idle_hooks \<Rightarrow> world \<Rightarrow> world option" where
  "idle_run_hooks call [] w = Some w"
| "idle_run_hooks call (h # hs) w = do {
     w \<leftarrow> (if h \<noteq> 0 then call h w else Some w);
     idle_run_hooks call hs w
   }"

text \<open>One turn of the endless loop of \<^verbatim>\<open>idle_thread_entry\<close>.\<close>

definition idle_turn ::
  "(nat \<Rightarrow> world \<Rightarrow> world option) \<Rightarrow> (nat \<Rightarrow> tid \<Rightarrow> world \<Rightarrow> world option) \<Rightarrow> idle_hooks \<Rightarrow> world \<Rightarrow> (unit outcome \<times> world) option" where
  "idle_turn call cleanup hs w = do {
     w \<leftarrow> idle_run_hooks call hs w;
     rt_defunct_execute cleanup w
   }"

text \<open>\<open>tid\<close>, \<open>entry\<close> and \<open>stack\<close> are the addresses of the static thread, of its entry function and of its stack.\<close>

definition rt_thread_idle_init :: "tid \<Rightarrow> nat \<Rightarrow> nat \<Rightarrow> kernel \<Rightarrow> kernel option" where
  "rt_thread_idle_init tid entry stack k = do {
     (_, k) \<leftarrow> rt_thread_init tid ''tidle0'' entry 0 stack 256 (RT_THREAD_PRIORITY_MAX - 1) 32 k;
     (_, k) \<leftarrow> rt_thread_startup tid k;
     Some k
   }"

section \<open>Hooks\<close>

lemma idle_hook_swap_at:
  assumes "d < n" "i + d < length hs" "hs ! (i + d) = x" "\<And>j. j < d \<Longrightarrow> hs ! (i + j) \<noteq> x"
  shows "idle_hook_swap n i x y hs = Some (True, hs[i + d := y])"
  using assms
proof (induction d arbitrary: i n)
  case 0
  then show ?case by (cases n) simp_all
next
  case (Suc d)
  then obtain m where "n = Suc m" by (cases n) simp_all
  moreover have "idle_hook_swap m (Suc i) x y hs = Some (True, hs[Suc i + d := y])"
  proof (rule Suc.IH)
    show "hs ! (Suc i + j) \<noteq> x" if "j < d" for j using Suc.prems(4) [of "Suc j"] that by simp
  qed (use Suc.prems \<open>n = Suc m\<close> in simp_all)
  ultimately show ?case using Suc.prems(2) Suc.prems(4) [of 0] by simp
qed

lemma idle_hook_swap_none:
  assumes "i + n \<le> length hs" "x \<notin> set hs"
  shows "idle_hook_swap n i x y hs = Some (False, hs)"
  using assms by (induction n arbitrary: i) (auto simp: in_set_conv_nth)

lemma first_slot:
  assumes "x \<in> set hs"
  obtains d where "d < length hs" "hs ! d = x" "\<And>j. j < d \<Longrightarrow> hs ! j \<noteq> x"
proof -
  obtain j where j: "j < length hs \<and> hs ! j = x" using assms by (auto simp: in_set_conv_nth)
  define d where "d = (LEAST j. j < length hs \<and> hs ! j = x)"
  have d: "d < length hs" "hs ! d = x" using LeastI [of "\<lambda>j. j < length hs \<and> hs ! j = x", OF j] by (simp_all add: d_def)
  have "hs ! i \<noteq> x" if "i < d" for i
    using not_less_Least [of i "\<lambda>j. j < length hs \<and> hs ! j = x"] that d(1) by (simp add: d_def [symmetric])
  then show thesis using that d by blast
qed

text \<open>A new hook goes to the first free slot, where it can be found and removed again; when no slot is free it is refused with
  \<^verbatim>\<open>-RT_EFULL\<close>. Removing a hook that is not set is refused with \<^verbatim>\<open>-RT_ENOSYS\<close>.\<close>

theorem idle_hook_roundtrip:
  assumes k: "kinv k" "nest_ok k" and l: "length hs = RT_IDLE_HOOK_LIST_SIZE" and h: "hook \<noteq> 0" "hook \<notin> set hs"
  shows "wp (rt_thread_idle_sethook hook hs k) (\<lambda>(err, hs', k1). kinv k1 \<and> nest_ok k1 \<and>
     (if 0 \<in> set hs
      then err = RT_EOK \<and> hook \<in> set hs' \<and> wp (rt_thread_idle_delhook hook hs' k1) (\<lambda>(err, hs'', k2). err = RT_EOK \<and> hs'' = hs \<and> kinv k2)
      else err = - RT_EFULL \<and> hs' = hs))"
    and "wp (rt_thread_idle_delhook hook hs k) (\<lambda>(err, hs', k1). err = - RT_ENOSYS \<and> hs' = hs \<and> kinv k1)"
proof -
  have sec: "wp (rt_exit_critical (rt_enter_critical k)) (\<lambda>k'. kinv k' \<and> nest_ok k')" if "kinv k" "nest_ok k" for k
    using that by (intro read_section_wp [OF that]) (auto simp: sched_only_def same_but_sched_def nest_ok_def)
  have none: "idle_hook_swap RT_IDLE_HOOK_LIST_SIZE 0 x y hs = Some (False, hs)" if "x \<notin> set hs" for x y
    using that l by (intro idle_hook_swap_none) simp_all
  show "wp (rt_thread_idle_delhook hook hs k) (\<lambda>(err, hs', k1). err = - RT_ENOSYS \<and> hs' = hs \<and> kinv k1)"
    using sec [OF k] none [OF h(2)] by (auto simp: rt_thread_idle_delhook_def spin_defs elim: wp_mono)
  show "wp (rt_thread_idle_sethook hook hs k) (\<lambda>(err, hs', k1). kinv k1 \<and> nest_ok k1 \<and>
     (if 0 \<in> set hs
      then err = RT_EOK \<and> hook \<in> set hs' \<and> wp (rt_thread_idle_delhook hook hs' k1) (\<lambda>(err, hs'', k2). err = RT_EOK \<and> hs'' = hs \<and> kinv k2)
      else err = - RT_EFULL \<and> hs' = hs))"
  proof (cases "0 \<in> set hs")
    case False
    then show ?thesis using sec [OF k] none by (auto simp: rt_thread_idle_sethook_def spin_defs elim: wp_mono)
  next
    case True
    then obtain d where d: "d < length hs" "hs ! d = 0" "\<And>j. j < d \<Longrightarrow> hs ! j \<noteq> 0" using first_slot [of 0 hs] by blast
    have s: "idle_hook_swap RT_IDLE_HOOK_LIST_SIZE 0 0 hook hs = Some (True, hs[d := hook])"
      using d l idle_hook_swap_at [of d RT_IDLE_HOOK_LIST_SIZE 0 hs] by simp
    have "hs ! j \<noteq> hook" if "j < length hs" for j using h(2) that by auto
    then have "idle_hook_swap RT_IDLE_HOOK_LIST_SIZE 0 hook 0 (hs[d := hook]) = Some (True, hs[d := hook, d := 0])"
      using d(1) l idle_hook_swap_at [of d RT_IDLE_HOOK_LIST_SIZE 0 "hs[d := hook]" hook] by (simp add: nth_list_update)
    moreover have "hs[d := 0] = hs" using d(2) list_update_id [of hs d] by simp
    ultimately have "wp (rt_thread_idle_delhook hook (hs[d := hook]) k1) (\<lambda>(err, hs'', k2). err = RT_EOK \<and> hs'' = hs \<and> kinv k2)"
      if "kinv k1" "nest_ok k1" for k1
      using sec [OF that] by (auto simp: rt_thread_idle_delhook_def spin_defs elim: wp_mono)
    moreover have "hook \<in> set (hs[d := hook])" using d(1) by (rule set_update_memI)
    ultimately show ?thesis
      using sec [OF k] s True by (auto simp: rt_thread_idle_sethook_def spin_defs elim!: wp_mono)
  qed
qed

section \<open>The queue of defunct threads\<close>

text \<open>The object of thread \<open>t\<close> has left the object system.\<close>

definition thread_gone :: "kernel \<Rightarrow> tid \<Rightarrow> bool" where
  "thread_gone k t \<longleftrightarrow> rt_object_get_type (OThread t) k = RT_Object_Class_Null \<and> (\<forall>c. OThread t \<notin> set (object_list k c))"

text \<open>The object of \<open>t\<close> is taken out of the object system; the rest stays.\<close>

definition unlinked :: "tid \<Rightarrow> kernel \<Rightarrow> kernel \<Rightarrow> bool" where
  "unlinked t k k' \<longleftrightarrow> tlists k' DefunctL = tlists k DefunctL \<and>
     objects k' = (objects k)(OThread t := (objects k (OThread t))\<lparr>ob_type := 0\<rparr>) \<and>
     object_list k' = (\<lambda>c. removeAll (OThread t) (object_list k c)) \<and>
     (\<forall>x. th_cleanup (threads k' x) = th_cleanup (threads k x) \<and> th_stack_addr (threads k' x) = th_stack_addr (threads k x))"

lemma thread_information:
  "rt_object_get_type (OThread t) k = RT_Object_Class_Thread \<Longrightarrow>
   rt_object_get_information (ob_type (objects k (OThread t))) = Some RT_Object_Class_Thread"
  by (simp add: rt_object_get_information_def rt_object_get_type_def object_container_def)

lemma heap_readyD:
  assumes "heap_ready n (Some c) k"
  shows "kok (Suc n) k" "minv {} {} {} k" "steady c k" "rt_current_thread k = Some c" "th_code k c = RT_THREAD_RUNNING"
    "rt_scheduler_lock_nest k = 0"
  using assms steady_ctx [of c k] by (simp_all add: heap_ready_def lock_idle_def lock_use_def)

text \<open>Changes that do not concern the heap mutex.\<close>

lemma heap_ready_cong:
  assumes h: "heap_ready n (Some c) k" and k: "kok (Suc n) k'" and s: "steady c k'"
    and m: "mutexes k' = mutexes k" "\<And>m. tlists k' (MutexL m) = tlists k (MutexL m)" "\<And>m. objects k' (OMutex m) = objects k (OMutex m)"
    and t: "\<And>t. th_prio k' t = th_prio k t" "\<And>t. th_taken_object_list (threads k' t) = th_taken_object_list (threads k t)"
      "\<And>t. th_init_priority (threads k' t) = th_init_priority (threads k t)"
      "\<And>t. th_pending_object (threads k' t) = th_pending_object (threads k t)"
  shows "heap_ready n (Some c) k'"
proof -
  have "minv {} {} {} k' = minv {} {} {} k" by (rule minv_cong) (simp_all add: m t)
  then show ?thesis using h k s by (simp add: heap_ready_def lock_idle_def lock_use_def m t rt_object_get_type_def)
qed

lemma thread_unlink_wp:
  assumes h: "heap_ready n (Some c) k" and ty: "rt_object_get_type (OThread t) k = RT_Object_Class_Thread" and t: "t \<noteq> c"
  shows "wp (rt_object_detach (OThread t) k) (\<lambda>k'. heap_ready n (Some c) k' \<and> unlinked t k k')"
    and "\<not> rt_object_is_systemobject (OThread t) k \<Longrightarrow>
      wp (rt_object_delete (OThread t) k) (\<lambda>k'. heap_ready n (Some c) k' \<and> unlinked t k k')"
proof -
  note H = heap_readyD [OF h]
  let ?r = "object_list_remove (OThread t) (rt_enter_critical k)" and ?u = "upd_object (OThread t) (\<lambda>ob. ob\<lparr>ob_type := 0\<rparr>)"
  have "wp (rt_exit_critical ?r) (\<lambda>k'. heap_ready n (Some c) (?u k') \<and> unlinked t k (?u k'))"
  proof (rule steady_exit_wp [OF H(1,6), of _ c])
    show "kok n ?r" using kok_enter [OF H(1)] by (subst kok_cong [of _ "rt_enter_critical k"]) (simp_all add: object_list_remove_def sched_view_def)
    show "rt_scheduler_lock_nest ?r = 1" using H(6) by (simp add: object_list_remove_def)
    show "steady c (?r\<lparr>rt_scheduler_lock_nest := 0\<rparr>)"
      using H(3,6) by (subst steady_cong [of _ k]) (simp_all add: object_list_remove_def tt_wf_def rt_object_get_type_def)
    fix k' assume k': "kok (Suc n) k'" "sched_only (?r\<lparr>rt_scheduler_lock_nest := 0\<rparr>) k'" "steady c k'"
    note F = same_but_schedD [OF sched_onlyD(1) [OF k'(2)]] and S = sched_onlyD [OF k'(2)]
    have st: "steady c (?u k')"
      using k'(3) t by (subst steady_cong [of _ k']) (simp_all add: upd_defs tt_wf_def rt_object_get_type_def)
    have "heap_ready n (Some c) (?u k')"
      by (rule heap_ready_cong [OF h _ st])
         (use k'(1) F S(3,5,6,9,10) in \<open>simp_all add: kok_upd_object upd_sel object_list_remove_def\<close>)
    moreover have "unlinked t k (?u k')"
      using F sched_only_life [OF k'(2)] by (simp add: unlinked_def upd_defs object_list_remove_def)
    ultimately show "heap_ready n (Some c) (?u k') \<and> unlinked t k (?u k')" by simp
  qed
  then show d: "wp (rt_object_detach (OThread t) k) (\<lambda>k'. heap_ready n (Some c) k' \<and> unlinked t k k')"
    using thread_information [OF ty] by (simp add: rt_object_detach_def spin_defs)
  assume "\<not> rt_object_is_systemobject (OThread t) k"
  then have "rt_object_delete (OThread t) k = rt_object_detach (OThread t) k"
    by (simp add: rt_object_delete_def rt_object_detach_def rt_object_is_systemobject_def)
  then show "wp (rt_object_delete (OThread t) k) (\<lambda>k'. heap_ready n (Some c) k' \<and> unlinked t k k')" using d by simp
qed

lemma dequeue_kinv:
  assumes k: "kinv k" and t: "tlists k DefunctL = t # ds"
  shows "kinv (tlist_remove t k)"
proof (rule kinv_butI)
  have T: "thread_ok k t" "th_code k t = RT_THREAD_CLOSE" using k t by (auto simp: kinv_def thread_ok_def)
  show "kinv_but t (tlist_remove t k)"
    by (rule tlist_remove_kinv_but) (use k T in \<open>auto simp: kinv_def thread_ok_def\<close>)
  show "thread_ok (tlist_remove t k) t" using T by (auto simp: thread_ok_def tlist_remove_def thread_suspended_def)
qed

lemma dequeue_ready:
  assumes h: "heap_ready n (Some c) k" and l: "tlists k DefunctL = t # ds"
  shows "heap_ready n (Some c) (tlist_remove t k)" "tlists (tlist_remove t k) DefunctL = ds" "t \<noteq> c" "t \<notin> set ds"
proof -
  note H = heap_readyD [OF h] and K = kokD(1) [OF heap_readyD(1) [OF h]]
  have T: "th_code k t = RT_THREAD_CLOSE" using K l by (auto simp: kinv_def thread_ok_def)
  then show "t \<noteq> c" using H(5) by auto
  have "distinct (t # ds)" using K l by (metis kinv_def kglobal_def lists_ok_def)
  then show "t \<notin> set ds" "tlists (tlist_remove t k) DefunctL = ds" using l by (simp_all add: tlist_remove_def)
  have "t \<notin> set (tlists k (MutexL m))" for m using one_list [OF K, of t DefunctL "MutexL m"] l by auto
  then have m: "tlists (tlist_remove t k) (MutexL m) = tlists k (MutexL m)" for m by (simp add: tlist_remove_def)
  have "kok (Suc n) (tlist_remove t k)"
    using H(1) dequeue_kinv [OF K l]
    by (simp add: kok_def nest_room_def ttmr_ok_def tlist_remove_def rt_object_get_type_def timer_active_def thread_suspended_def)
  moreover have "steady c (tlist_remove t k)"
    using H(3) by (subst steady_cong [of _ k]) (simp_all add: tlist_remove_def tt_wf_def rt_object_get_type_def)
  ultimately show "heap_ready n (Some c) (tlist_remove t k)"
    by (rule heap_ready_cong [OF h]) (use m in \<open>simp_all add: tlist_remove_def\<close>)
qed

text \<open>The block of the system heap that is the stack of thread \<open>t\<close>, and the dynamic threads among \<open>ts\<close>.\<close>

definition stack_block :: "kernel \<Rightarrow> tid \<Rightarrow> u32" where
  "stack_block k t = of_nat (th_stack_addr (threads k t)) - 24"

definition dynamic_threads :: "kernel \<Rightarrow> tid list \<Rightarrow> tid list" where
  "dynamic_threads k ts = filter (\<lambda>t. \<not> rt_object_is_systemobject (OThread t) k) ts"

text \<open>The stacks of the dynamic threads among \<open>ts\<close> are different blocks in use.\<close>

definition stacks_ok :: "kernel \<Rightarrow> tid list \<Rightarrow> aheap \<Rightarrow> bool" where
  "stacks_ok k ts A \<longleftrightarrow> distinct (map (stack_block k) (dynamic_threads k ts)) \<and>
     stack_block k ` set (dynamic_threads k ts) \<subseteq> set (butlast (fst A)) - set (snd A)"

text \<open>Another thread's view of a step that unlinks \<open>t\<close>.\<close>

lemma unlinked_other:
  assumes u: "unlinked t k k'" and x: "t \<notin> set ts"
  shows "dynamic_threads k' ts = dynamic_threads k ts" "stack_block k' = stack_block k"
    "y \<in> set ts \<Longrightarrow> rt_object_get_type (OThread y) k' = rt_object_get_type (OThread y) k"
    "th_cleanup (threads k' y) = th_cleanup (threads k y)" "thread_gone k' t" "thread_gone k y \<Longrightarrow> thread_gone k' y"
  using u x by (auto simp: unlinked_def dynamic_threads_def stack_block_def fun_eq_iff rt_object_is_systemobject_def
      rt_object_get_type_def thread_gone_def intro!: filter_cong)

lemma same_objects_other:
  assumes "same_objects k k'"
  shows "dynamic_threads k' ts = dynamic_threads k ts" "stack_block k' = stack_block k"
    "rt_object_get_type r k' = rt_object_get_type r k" "rt_object_is_systemobject r k' = rt_object_is_systemobject r k"
    "th_cleanup (threads k' y) = th_cleanup (threads k y)" "thread_gone k' y = thread_gone k y" "tlists k' DefunctL = tlists k DefunctL"
  using assms by (simp_all add: same_objects_def dynamic_threads_def stack_block_def fun_eq_iff rt_object_is_systemobject_def
      rt_object_get_type_def thread_gone_def)

lemma sys_heap_unlinked: "sys_heap sh w A \<Longrightarrow> unlinked t (kern w) k \<Longrightarrow> sys_heap sh (w\<lparr>kern := k\<rparr>) A"
  by (auto simp: sys_heap_def unlinked_def rt_object_get_type_def)

text \<open>What the loop leaves: no thread in the queue, the threads gone, the stacks free, the other data as it was.\<close>

definition reaped :: "nat \<Rightarrow> tid \<Rightarrow> u32 \<Rightarrow> tid list \<Rightarrow> aheap \<Rightarrow> world \<Rightarrow> unit outcome \<times> world \<Rightarrow> bool" where
  "reaped n c sh ts A w res \<longleftrightarrow> (case res of (out, w') \<Rightarrow> out = Returned () \<and> heap_ready n (Some c) (kern w') \<and>
     tlists (kern w') DefunctL = [] \<and> (\<forall>t. t \<in> set ts \<or> thread_gone (kern w) t \<longrightarrow> thread_gone (kern w') t) \<and>
     (let stacks = map (stack_block (kern w)) (dynamic_threads (kern w) ts)
      in sys_heap sh w' (fold aheap_free stacks A) \<and>
         data_kept (fst A) (wmem w) (fst (fold aheap_free stacks A)) (wmem w') (set (butlast (fst A)) - set (snd A) - set stacks)))"

lemma reaped_step:
  assumes r: "reaped n c sh ds (fold aheap_free bl A) w1 res" and t: "t \<notin> set ds"
    and bl: "bl = (if rt_object_is_systemobject (OThread t) (kern w) then [] else [stack_block (kern w) t])"
    and gone: "thread_gone (kern w1) t" "\<And>x. thread_gone (kern w) x \<Longrightarrow> thread_gone (kern w1) x"
    and same: "dynamic_threads (kern w1) ds = dynamic_threads (kern w) ds" "stack_block (kern w1) = stack_block (kern w)"
    and data: "data_kept (fst A) (wmem w) (fst (fold aheap_free bl A)) (wmem w1) (set (butlast (fst A)) - set (snd A) - set bl)"
    and use: "set (butlast (fst A)) - set (snd A) - set bl \<subseteq> set (butlast (fst (fold aheap_free bl A))) - set (snd (fold aheap_free bl A))"
  shows "reaped n c sh (t # ds) A w res"
proof -
  have d: "map (stack_block (kern w)) (dynamic_threads (kern w) (t # ds)) = bl @ map (stack_block (kern w1)) (dynamic_threads (kern w1) ds)"
    by (simp add: dynamic_threads_def bl same [unfolded dynamic_threads_def])
  obtain out w' where res: "res = (out, w')" by (cases res)
  note R = r [unfolded reaped_def res prod.case Let_def]
  have "data_kept (fst A) (wmem w) (fst (fold aheap_free (bl @ map (stack_block (kern w1)) (dynamic_threads (kern w1) ds)) A)) (wmem w')
     (set (butlast (fst A)) - set (snd A) - set (bl @ map (stack_block (kern w1)) (dynamic_threads (kern w1) ds)))"
    unfolding fold_append o_apply by (rule data_kept_trans [OF data]) (use R use in auto)
  then show ?thesis unfolding reaped_def res prod.case Let_def d using R gone by auto
qed

lemma defunct_execute_wp:
  assumes "tlists (kern w) DefunctL = ds" "heap_ready n (Some c) (kern w)" "sys_heap sh w A"
    and "\<And>t. t \<in> set ds \<Longrightarrow> rt_object_get_type (OThread t) (kern w) = RT_Object_Class_Thread \<and> th_cleanup (threads (kern w) t) = None"
    and "stacks_ok (kern w) ds A"
  shows "wp (rt_defunct_execute cleanup w) (reaped n c sh ds A w)"
  using assms
proof (induction ds arbitrary: w A)
  case Nil
  then show ?case
    by (subst rt_defunct_execute.simps) (simp add: rt_thread_defunct_dequeue_def reaped_def dynamic_threads_def data_kept_def)
next
  case (Cons t ds)
  let ?k = "tlist_remove t (kern w)" and ?s = "rt_object_is_systemobject (OThread t) (kern w)"
  note Q = dequeue_ready [OF Cons.prems(2,1)]
  have f: "objects ?k = objects (kern w)" "object_list ?k = object_list (kern w)" "threads ?k = threads (kern w)"
    by (simp_all add: tlist_remove_def)
  have T: "rt_object_get_type (OThread t) ?k = RT_Object_Class_Thread" "th_cleanup (threads ?k t) = None"
    "rt_object_is_systemobject (OThread t) ?k = ?s"
    using Cons.prems(4) [of t] by (simp_all add: f rt_object_get_type_def rt_object_is_systemobject_def)
  have same: "dynamic_threads ?k ts = dynamic_threads (kern w) ts" "stack_block ?k = stack_block (kern w)" "thread_gone ?k x = thread_gone (kern w) x" for ts x
    by (simp_all add: dynamic_threads_def stack_block_def fun_eq_iff thread_gone_def f rt_object_get_type_def rt_object_is_systemobject_def)
  have sk: "sys_heap sh (w\<lparr>kern := ?k\<rparr>) A" using Cons.prems(3) by (simp add: sys_heap_def f rt_object_get_type_def)
  have others: "rt_object_get_type (OThread x) k' = RT_Object_Class_Thread \<and> th_cleanup (threads k' x) = None"
    if "unlinked t k0 k'" "same_objects ?k k0 \<or> k0 = ?k" "x \<in> set ds" for k0 k' x
    using unlinked_other [OF that(1) Q(4)] same_objects_other [of ?k k0] Cons.prems(4) [of x] that
    by (auto simp: f rt_object_get_type_def)
  show ?case
  proof (cases ?s)
    case True
    have so: "stacks_ok k' ds A" if "unlinked t ?k k'" for k'
      using Cons.prems(5) True unlinked_other [OF that Q(4)] same by (simp add: stacks_ok_def dynamic_threads_def)
    have "wp (rt_object_detach (OThread t) ?k) (\<lambda>k1. wp (rt_defunct_execute cleanup (w\<lparr>kern := k1\<rparr>)) (reaped n c sh (t # ds) A w))"
    proof (rule wp_mono [OF thread_unlink_wp(1) [OF Q(1) T(1) Q(3)]])
      fix k1 assume k1: "heap_ready n (Some c) k1 \<and> unlinked t ?k k1"
      then have u: "unlinked t ?k k1" by simp
      note U = unlinked_other [OF u Q(4)]
      have l: "tlists k1 DefunctL = ds" using u Q(2) by (simp add: unlinked_def)
      have "sys_heap sh (w\<lparr>kern := k1\<rparr>) A" using sys_heap_unlinked [OF sk] u by simp
      then have "wp (rt_defunct_execute cleanup (w\<lparr>kern := k1\<rparr>)) (reaped n c sh ds A (w\<lparr>kern := k1\<rparr>))"
        using Cons.IH [of "w\<lparr>kern := k1\<rparr>" A] k1 l others [OF u] so [OF u] by simp
      then show "wp (rt_defunct_execute cleanup (w\<lparr>kern := k1\<rparr>)) (reaped n c sh (t # ds) A w)"
      proof (rule wp_mono)
        fix res assume "reaped n c sh ds A (w\<lparr>kern := k1\<rparr>) res"
        then show "reaped n c sh (t # ds) A w res"
          by (intro reaped_step [where bl = "[]" and ?w1.0 = "w\<lparr>kern := k1\<rparr>"])
             (use True U same Q(4) in \<open>simp_all add: data_kept_def\<close>)
      qed
    qed
    then show ?thesis
      using Cons.prems(1) T True by (subst rt_defunct_execute.simps) (simp add: rt_thread_defunct_dequeue_def)
  next
    case False
    let ?q = "stack_block (kern w) t" and ?w = "w\<lparr>kern := ?k\<rparr>"
    obtain bs fl where A: "A = (bs, fl)" by (cases A)
    have dy: "dynamic_threads (kern w) (t # ds) = t # dynamic_threads (kern w) ds" using False by (simp add: dynamic_threads_def)
    have q: "?q \<in> set (butlast bs)" "?q \<notin> set fl" "?q \<notin> stack_block (kern w) ` set (dynamic_threads (kern w) ds)"
      using Cons.prems(5) by (simp_all add: stacks_ok_def dy A)
    have hk: "heap_ok sh (heaps w sh) (wmem w) bs fl" using Cons.prems(3) by (simp add: sys_heap_def A)
    obtain bs' fl' where fr: "aheap_free ?q (bs, fl) = (bs', fl')" by (cases "aheap_free ?q (bs, fl)")
    have keep: "set (butlast bs) - set fl - {?q} \<subseteq> set (butlast bs') - set fl'"
      using free_sizes [OF heap_okD(4,5,7) [OF hk] q(1,2) fr] by blast
    have so: "stacks_ok k' ds (bs', fl')"
      if "dynamic_threads k' ds = dynamic_threads (kern w) ds" "stack_block k' = stack_block (kern w)" for k'
    proof -
      have "stack_block (kern w) ` set (dynamic_threads (kern w) ds) \<subseteq> set (butlast bs) - set fl - {?q}"
        using Cons.prems(5) q(3) unfolding stacks_ok_def dy A by (simp add: subset_Diff_insert)
      then have "stack_block (kern w) ` set (dynamic_threads (kern w) ds) \<subseteq> set (butlast bs') - set fl'" using keep by (rule subset_trans)
      then show ?thesis using Cons.prems(5) that by (simp add: stacks_ok_def dy)
    qed
    have st: "of_nat (th_stack_addr (threads ?k t)) = ?q + 24" by (simp add: stack_block_def f)
    have hw: "heap_ready n (Some c) (kern ?w)" using Q(1) by simp
    have "wp (rt_free (?q + 24) ?w) (\<lambda>(out, w1). out = Returned () \<and> wp (rt_object_delete (OThread t) (kern w1)) (\<lambda>k1.
        wp (rt_defunct_execute cleanup (w1\<lparr>kern := k1\<rparr>)) (reaped n c sh (t # ds) A w)))"
    proof (rule wp_mono [OF free_wp [OF sk [unfolded A] hw q(1,2)]], goal_cases)
      case (1 x)
      obtain out w1 where x: "x = (out, w1)" by (cases x)
      note F = 1 [unfolded x prod.case fr fst_conv, simplified]
      note O = same_objects_other [of ?k "kern w1"]
      have ty: "rt_object_get_type (OThread t) (kern w1) = RT_Object_Class_Thread" "\<not> rt_object_is_systemobject (OThread t) (kern w1)"
        using F O T False by simp_all
      have "wp (rt_object_delete (OThread t) (kern w1)) (\<lambda>k1. wp (rt_defunct_execute cleanup (w1\<lparr>kern := k1\<rparr>)) (reaped n c sh (t # ds) A w))"
      proof (rule wp_mono [OF thread_unlink_wp(2) [OF _ ty(1) Q(3) ty(2)]])
        show "heap_ready n (Some c) (kern w1)" using F by simp
        fix k1 assume k1: "heap_ready n (Some c) k1 \<and> unlinked t (kern w1) k1"
        then have u: "unlinked t (kern w1) k1" by simp
        note U = unlinked_other [OF u Q(4)]
        have l: "tlists k1 DefunctL = ds" using u Q(2) F O(7) by (simp add: unlinked_def)
        have sy: "sys_heap sh (w1\<lparr>kern := k1\<rparr>) (bs', fl')" using sys_heap_unlinked [OF _ u] F by simp
        have dk: "dynamic_threads k1 ds = dynamic_threads (kern w) ds" "stack_block k1 = stack_block (kern w)"
          "thread_gone (kern w) y \<Longrightarrow> thread_gone k1 y" for y
          using U O F same by simp_all
        have "wp (rt_defunct_execute cleanup (w1\<lparr>kern := k1\<rparr>)) (reaped n c sh ds (bs', fl') (w1\<lparr>kern := k1\<rparr>))"
          using Cons.IH [of "w1\<lparr>kern := k1\<rparr>" "(bs', fl')"] k1 l others [OF u] so [OF dk(1,2)] sy F by simp
        then show "wp (rt_defunct_execute cleanup (w1\<lparr>kern := k1\<rparr>)) (reaped n c sh (t # ds) A w)"
        proof (rule wp_mono)
          fix res assume "reaped n c sh ds (bs', fl') (w1\<lparr>kern := k1\<rparr>) res"
          then show "reaped n c sh (t # ds) A w res"
            by (intro reaped_step [where bl = "[?q]" and ?w1.0 = "w1\<lparr>kern := k1\<rparr>"])
               (use False U(5) dk keep F Q(4) in \<open>simp_all add: A fr\<close>)
        qed
      qed
      then show ?case using F by (simp add: x)
    qed
    then show ?thesis
      using Cons.prems(1) T False st
      by (subst rt_defunct_execute.simps) (auto simp: rt_thread_defunct_dequeue_def case_prod_unfold elim!: wp_mono)
  qed
qed

text \<open>A thread with a cleanup function at the head of the queue: the function is called for it when it has left the queue and, if it is
  static, the object system; a dynamic thread is deleted afterwards.\<close>

lemma defunct_cleanup:
  assumes h: "heap_ready n (Some c) (kern w)" and l: "tlists (kern w) DefunctL = t # ds"
    and ty: "rt_object_get_type (OThread t) (kern w) = RT_Object_Class_Thread" and f: "th_cleanup (threads (kern w) t) = Some f"
  obtains k1 where "heap_ready n (Some c) k1" "tlists k1 DefunctL = ds"
    "if rt_object_is_systemobject (OThread t) (kern w) then thread_gone k1 t else objects k1 = objects (kern w)"
    "rt_defunct_execute cleanup w = do {
       w2 \<leftarrow> cleanup f t (w\<lparr>kern := k1\<rparr>);
       if rt_object_is_systemobject (OThread t) (kern w) then rt_defunct_execute cleanup w2
       else do {
         (out, w3) \<leftarrow> rt_free (of_nat (th_stack_addr (threads (kern w2) t))) w2;
         case out of
           Waiting \<Rightarrow> Some (Waiting, w3)
         | Returned _ \<Rightarrow> do {
             k \<leftarrow> rt_object_delete (OThread t) (kern w3);
             rt_defunct_execute cleanup (w3\<lparr>kern := k\<rparr>)
           }
       }
     }"
proof -
  let ?k = "tlist_remove t (kern w)" and ?s = "rt_object_is_systemobject (OThread t) (kern w)"
  note Q = dequeue_ready [OF h l]
  have T: "rt_object_get_type (OThread t) ?k = RT_Object_Class_Thread" "th_cleanup (threads ?k t) = Some f"
    "rt_object_is_systemobject (OThread t) ?k = ?s"
    using ty f by (simp_all add: tlist_remove_def rt_object_get_type_def rt_object_is_systemobject_def)
  show thesis
  proof (cases ?s)
    case True
    obtain k1 where k1: "rt_object_detach (OThread t) ?k = Some k1" "heap_ready n (Some c) k1" "unlinked t ?k k1"
      using thread_unlink_wp(1) [OF Q(1) T(1) Q(3)] by (auto simp: wp_def split: option.splits)
    show thesis
    proof (rule that [OF k1(2)])
      show "tlists k1 DefunctL = ds" using k1(3) Q(2) by (simp add: unlinked_def)
      show "if ?s then thread_gone k1 t else objects k1 = objects (kern w)" using True unlinked_other(5) [OF k1(3) Q(4)] by simp
    qed (subst rt_defunct_execute.simps, use k1(1) T True l in \<open>simp add: rt_thread_defunct_dequeue_def\<close>)
  next
    case False
    show thesis
    proof (rule that [OF Q(1,2)])
      show "if ?s then thread_gone ?k t else objects ?k = objects (kern w)" using False by (simp add: tlist_remove_def)
    qed (subst rt_defunct_execute.simps, use T False l in \<open>simp add: rt_thread_defunct_dequeue_def\<close>)
  qed
qed

section \<open>Starting the idle thread\<close>

text \<open>Before the scheduler runs, no section ends in a switch.\<close>

lemma exit_boot:
  assumes c: "rt_current_thread k = None" and n: "nest_ok k"
  shows "rt_exit_critical (rt_enter_critical k) = Some k"
proof -
  have e: "rt_enter_critical k\<lparr>rt_scheduler_lock_nest := rt_scheduler_lock_nest k\<rparr> = k" by (simp add: rt_enter_critical_def)
  have "rt_scheduler_lock_nest k = 0" if "sint (rt_scheduler_lock_nest k) \<le> 0"
    using that n by (simp add: nest_ok_def signed_eq_0_iff)
  then show ?thesis using c e by (auto simp: rt_exit_critical_def Let_def rt_enter_critical_def)
qed

definition registered :: "objref \<Rightarrow> u8 \<Rightarrow> string \<Rightarrow> kernel \<Rightarrow> kernel" where
  "registered r type name k = object_list_insert_after type r
     (upd_object r (\<lambda>ob. ob\<lparr>ob_type := type OR RT_Object_Class_Static, ob_name := rt_strncpy (ob_name ob) name RT_NAME_MAX\<rparr>) k)"

lemma registered_fields [simp]:
  "threads (registered r type name k) = threads k" "rt_current_thread (registered r type name k) = rt_current_thread k"
  "rt_scheduler_lock_nest (registered r type name k) = rt_scheduler_lock_nest k" "tlists (registered r type name k) = tlists k"
  "rt_thread_ready_priority_group (registered r type name k) = rt_thread_ready_priority_group k"
  "objects (registered r type name k) = (objects k)(r := (objects k r)\<lparr>ob_type := type OR RT_Object_Class_Static,
     ob_name := rt_strncpy (ob_name (objects k r)) name RT_NAME_MAX\<rparr>)"
  "object_list (registered r type name k) = (object_list k)(type := r # object_list k type)"
  by (simp_all add: registered_def object_list_insert_after_def upd_defs sched_view_def)

lemma object_init_boot:
  assumes c: "rt_current_thread k = None" and n: "nest_ok k" and i: "rt_object_get_information type = Some type"
    and r: "r \<notin> set (object_list k type)"
  shows "rt_object_init r type name k = Some (registered r type name k)"
proof -
  let ?k = "upd_object r (\<lambda>ob. ob\<lparr>ob_type := type OR RT_Object_Class_Static, ob_name := rt_strncpy (ob_name ob) name RT_NAME_MAX\<rparr>) k"
  have "object_list_insert_after type r (rt_enter_critical ?k) = rt_enter_critical (registered r type name k)"
    by (simp add: registered_def object_list_insert_after_def rt_enter_critical_def upd_defs)
  moreover have "nest_ok (registered r type name k)" using n by (simp add: nest_ok_def)
  ultimately show ?thesis
    using i r exit_boot [OF c n] exit_boot [of "registered r type name k"] c by (simp add: rt_object_init_def spin_defs)
qed

text \<open>Thread \<open>t\<close> is a structure that is not yet in use.\<close>

definition thread_unused :: "tid \<Rightarrow> kernel \<Rightarrow> bool" where
  "thread_unused t k \<longleftrightarrow> (\<forall>h. t \<notin> set (tlists k h)) \<and> \<not> th_ttmr_set (threads k t) \<and>
     OThread t \<notin> set (object_list k RT_Object_Class_Thread) \<and> OTimer (ThreadTimer t) \<notin> set (object_list k RT_Object_Class_Timer)"

text \<open>The thread and its timer are registered; the timer is one-shot, not running, and wakes the thread \<open>t\<close> when it expires.\<close>

definition timer_ready :: "tid \<Rightarrow> kernel \<Rightarrow> bool" where
  "timer_ready t k \<longleftrightarrow> OThread t \<in> set (object_list k RT_Object_Class_Thread) \<and>
     OTimer (ThreadTimer t) \<in> set (object_list k RT_Object_Class_Timer) \<and>
     tm_timeout_func (timers k (ThreadTimer t)) = ThreadTimeout \<and> tm_parameter (timers k (ThreadTimer t)) = t \<and>
     tm_flag k (ThreadTimer t) AND RT_TIMER_FLAG_PERIODIC = 0 \<and> \<not> timer_active k (ThreadTimer t)"

lemma thread_init_boot:
  assumes k: "kok n k" and c: "rt_current_thread k = None" and u: "thread_unused t k"
    and a: "priority < RT_THREAD_PRIORITY_MAX" "tick \<noteq> 0" "stack \<noteq> 0"
  shows "wp (rt_thread_init t name entry parameter stack stack_size priority tick k) (\<lambda>(err, k'). err = RT_EOK \<and> kok n k' \<and>
     thread_alive t k' \<and> tt_wf k' t \<and> timer_ready t k' \<and> th_code k' t = RT_THREAD_INIT \<and> th_prio k' t = priority \<and>
     \<not> th_ttmr_set (threads k' t))"
proof -
  note U = u [unfolded thread_unused_def]
  have i: "rt_object_get_information RT_Object_Class_Thread = Some RT_Object_Class_Thread"
    "rt_object_get_information RT_Object_Class_Timer = Some RT_Object_Class_Timer"
    by (simp_all add: rt_object_get_information_def object_container_def)
  let ?set = "\<lambda>th. th\<lparr>th_stat := RT_THREAD_INIT, th_init_priority := priority, th_current_priority := priority, th_number_mask := 0,
     th_init_tick := tick, th_remaining_tick := tick, th_entry := entry, th_parameter := parameter, th_stack_addr := stack,
     th_stack_size := stack_size, th_taken_object_list := [], th_pending_object := None, th_event_set := 0, th_event_info := 0,
     th_error := RT_EOK, th_cleanup := None, th_user_data := 0\<rparr>"
  let ?k1 = "registered (OThread t) RT_Object_Class_Thread name k"
  let ?k2 = "upd_thread t ?set ?k1" and ?r = "OTimer (ThreadTimer t)"
  let ?k3 = "registered ?r RT_Object_Class_Timer (ob_name (objects ?k2 (OThread t))) ?k2"
  define k4 where "k4 = timer_init (ThreadTimer t) ThreadTimeout t 0 (RT_TIMER_FLAG_ONE_SHOT OR RT_TIMER_FLAG_THREAD_TIMER) ?k3"
  have o1: "rt_object_init (OThread t) RT_Object_Class_Thread name k = Some ?k1"
    using U c kokD(2) [OF k] i by (intro object_init_boot) simp_all
  have "rt_object_init ?r RT_Object_Class_Timer (ob_name (objects ?k2 (OThread t))) ?k2 = Some ?k3"
    using U c kokD(2) [OF k] i by (intro object_init_boot) (simp_all add: upd_sel nest_ok_def)
  then have o2: "thread_init t entry parameter stack stack_size priority tick ?k1 = Some (RT_EOK, k4)"
    using a by (simp add: thread_init_def rt_sched_thread_init_ctx_def rt_sched_thread_init_priv_def rt_timer_init_def upd_defs k4_def)
  have f: "threads k4 = (threads k)(t := ?set (threads k t))" "sched_view k4 = sched_view k" "rt_scheduler_lock_nest k4 = rt_scheduler_lock_nest k"
    "ob_type (objects k4 (OThread t)) = 0x81" "ob_type (objects k4 ?r) = 0x8a"
    "tm_flag k4 (ThreadTimer t) = RT_TIMER_FLAG_ONE_SHOT OR RT_TIMER_FLAG_THREAD_TIMER"
    "x \<noteq> OThread t \<Longrightarrow> x \<noteq> ?r \<Longrightarrow> objects k4 x = objects k x" for x
    by (simp_all add: k4_def timer_init_def upd_defs Let_def sched_view_def)
  have l: "tlists k4 = tlists k" "rt_current_thread k4 = None" using f(2) c by (simp_all add: sched_view_def)
  have kb: "kinv_but t (upd_thread t ?set k)" using kokD(1) [OF k] U by (intro kinv_but_upd_thread) (simp add: kinv_but_def kinv_def)
  have "thread_ok (upd_thread t ?set k) t" using U c by (simp add: thread_ok_def upd_sel)
  with kb have "kinv (upd_thread t ?set k)" by (rule kinv_butI)
  moreover have "kinv k4 = kinv (upd_thread t ?set k)" by (rule kinv_cong) (use f in \<open>auto simp: upd_defs sched_view_def\<close>)
  moreover have "ttmr_ok k4 x" for x
    using kokD(3) [OF k, of x] U f(7)
    by (cases "x = t") (auto simp: ttmr_ok_def f(1) thread_suspended_def rt_object_get_type_def timer_active_def)
  ultimately have "kok n k4" using k f(3) by (simp add: kok_def nest_room_def)
  moreover have "timer_ready t k4"
    using f(6) by (simp add: timer_ready_def timer_active_def) (simp add: k4_def timer_init_def upd_defs Let_def)
  moreover have "thread_alive t k4" "tt_wf k4 t"
    using f(4-6) by (simp_all add: thread_alive_def tt_wf_def f(1) rt_object_get_type_def rt_object_is_systemobject_def)
  ultimately show ?thesis using a U o1 o2 by (simp add: rt_thread_init_def f(1))
qed

text \<open>C15. Starting the idle thread at system start, before the scheduler runs: it becomes a thread of the lowest priority that is ready to
  run; its object is a registered static thread object, and its timer is a registered, stopped one-shot thread timer that would wake
  this thread. From then on there is always a thread to switch to, which is what the theorems about blocking calls rely
  on.\<close>

theorem rt_thread_idle_init_correct:
  assumes k: "kok n k" and c: "rt_current_thread k = None" and u: "thread_unused t k" and s: "stack \<noteq> 0"
  shows "wp (rt_thread_idle_init t entry stack k) (\<lambda>k'. kok n k' \<and> thread_alive t k' \<and> tt_wf k' t \<and> timer_ready t k' \<and>
     (th_code k' t = RT_THREAD_READY \<and> t \<in> set (tlists k' (ReadyL 31)) \<or> th_code k' t = RT_THREAD_RUNNING \<and> rt_current_thread k' = Some t))"
proof -
  have "wp (rt_thread_init t ''tidle0'' entry 0 stack 256 31 32 k) (\<lambda>(err, k1). wp (rt_thread_startup t k1) (\<lambda>(err, k'). kok n k' \<and>
     thread_alive t k' \<and> tt_wf k' t \<and> timer_ready t k' \<and>
     (th_code k' t = RT_THREAD_READY \<and> t \<in> set (tlists k' (ReadyL 31)) \<or> th_code k' t = RT_THREAD_RUNNING \<and> rt_current_thread k' = Some t)))"
    (is "wp ?m ?Q")
  proof (rule wp_mono [OF thread_init_boot [OF k c u _ _ s]])
    fix x assume "case x of (err, k') \<Rightarrow> err = RT_EOK \<and> kok n k' \<and> thread_alive t k' \<and> tt_wf k' t \<and> timer_ready t k' \<and>
      th_code k' t = RT_THREAD_INIT \<and> th_prio k' t = 31 \<and> \<not> th_ttmr_set (threads k' t)"
    then obtain k1 where k1: "x = (RT_EOK, k1)" "kok n k1" "tt_wf k1 t" "th_code k1 t = RT_THREAD_INIT" "th_prio k1 t = 31"
      "\<not> th_ttmr_set (threads k1 t)" "thread_alive t k1" "timer_ready t k1" by (cases x) auto
    have "wp (rt_thread_startup t k1) (\<lambda>(err, k'). err = RT_EOK \<and> kok n k' \<and>
     (th_code k' t = RT_THREAD_READY \<and> t \<in> set (tlists k' (ReadyL (th_prio k1 t))) \<or>
      th_code k' t = RT_THREAD_RUNNING \<and> rt_current_thread k' = Some t) \<and>
     objects k' = objects k1 \<and> object_list k' = object_list k1 \<and> timers k' = timers k1)"
      using k1 by (intro startup_wp) (simp_all add: tt_wf_def)
    then have "wp (rt_thread_startup t k1) (\<lambda>(err, k'). kok n k' \<and> thread_alive t k' \<and> tt_wf k' t \<and> timer_ready t k' \<and>
     (th_code k' t = RT_THREAD_READY \<and> t \<in> set (tlists k' (ReadyL 31)) \<or> th_code k' t = RT_THREAD_RUNNING \<and> rt_current_thread k' = Some t))"
    proof (rule wp_mono, goal_cases)
      case (1 y)
      obtain err k' where y: "y = (err, k')" by (cases y)
      note Y = 1 [unfolded y prod.case]
      have a: "kok n k'" "objects k' = objects k1" "object_list k' = object_list k1" "timers k' = timers k1"
        and st: "th_code k' t = RT_THREAD_READY \<and> t \<in> set (tlists k' (ReadyL (th_prio k1 t))) \<or>
          th_code k' t = RT_THREAD_RUNNING \<and> rt_current_thread k' = Some t"
        using Y by simp_all
      have "thread_alive t k'" "tt_wf k' t" "timer_ready t k'"
        using k1(3,7,8) st by (auto simp: thread_alive_def tt_wf_def timer_ready_def timer_active_def a rt_object_get_type_def
            rt_object_is_systemobject_def)
      then show ?case using a(1) st k1(5) by (simp add: y)
    qed
    then show "?Q x" using k1(1) by simp
  qed simp_all
  then show ?thesis by (simp add: rt_thread_idle_init_def case_prod_unfold)
qed

section \<open>A turn of the idle thread\<close>


section \<open>Sample runs\<close>

theorem rt_thread_idle_init_correct_witness:
  "wp (rt_thread_idle_init 1 100 0x2000 zero_kernel) (\<lambda>k'. kok 8 k' \<and>
     (th_code k' 1 = RT_THREAD_READY \<or> th_code k' 1 = RT_THREAD_RUNNING \<and> rt_current_thread k' = Some 1))"
proof -
  have "kok 8 zero_kernel" using kinv_zero by (simp add: kok_def nest_room_def ttmr_ok_def zero_kernel_def zero_thread_def)
  moreover have "rt_current_thread zero_kernel = None" "thread_unused 1 zero_kernel"
    by (simp_all add: zero_kernel_def thread_unused_def zero_thread_def)
  ultimately show ?thesis
    by (rule wp_mono [OF rt_thread_idle_init_correct]) auto
qed

text \<open>The sample system with two threads in the queue: thread 6 is static, thread 7 is dynamic and its stack is a block of the heap.\<close>

definition sample_graves :: kernel where
  "sample_graves = upd_object (OThread 7) (\<lambda>ob. ob\<lparr>ob_type := RT_Object_Class_Thread\<rparr>)
     (tlist_insert_after DefunctL 7 (upd_thread 7 (\<lambda>th. th\<lparr>th_stat := RT_THREAD_CLOSE, th_stack_addr := 0x1018\<rparr>)
       (tlist_insert_after DefunctL 6 (upd_thread 6 (\<lambda>th. th\<lparr>th_stat := RT_THREAD_CLOSE\<rparr>) sample_heap_kernel))))"

lemma sample_graves_ready: "heap_ready 7 (Some 2) sample_graves"
proof (rule heap_ready_cong [OF sample_heap_ready])
  note H = heap_readyD [OF sample_heap_ready]
  have th: "threads sample_heap_kernel = threads sample_kernel" "tlists sample_heap_kernel = tlists sample_kernel"
    "rt_current_thread sample_heap_kernel = Some 2"
    by (simp_all add: sample_heap_kernel_def upd_sel)
  have l: "6 \<notin> set (tlists sample_kernel h)" "7 \<notin> set (tlists sample_kernel h)" for h
    by (simp_all add: sample_kernel_def zero_kernel_def)
  have k: "kinv sample_heap_kernel" using kokD(1) [OF H(1)] .
  have b: "kinv_but 6 sample_heap_kernel" using k l by (simp add: kinv_but_def kinv_def th)
  let ?k6 = "tlist_insert_after DefunctL 6 (upd_thread 6 (\<lambda>th. th\<lparr>th_stat := RT_THREAD_CLOSE\<rparr>) sample_heap_kernel)"
  let ?k7 = "tlist_insert_after DefunctL 7 (upd_thread 7 (\<lambda>th. th\<lparr>th_stat := RT_THREAD_CLOSE, th_stack_addr := 0x1018\<rparr>) ?k6)"
  have k6: "kinv ?k6" by (rule defunct_kinv [OF kinv_but_upd_thread [OF b]]) (simp_all add: upd_defs th)
  have b7: "kinv_but 7 ?k6" using k6 l by (auto simp: kinv_but_def kinv_def tlist_insert_after_def upd_defs th)
  have "kinv ?k7" by (rule defunct_kinv [OF kinv_but_upd_thread [OF b7]]) (simp_all add: upd_defs tlist_insert_after_def th)
  then have "kinv sample_graves" unfolding sample_graves_def by (subst kinv_cong) (auto simp: sched_view_def upd_defs)
  moreover have "ttmr_ok sample_graves t" for t
    using kokD(3) [OF H(1), of t] th
    by (auto simp: ttmr_ok_def sample_graves_def upd_defs tlist_insert_after_def rt_object_get_type_def timer_active_def
        thread_suspended_def sample_kernel_def zero_kernel_def zero_thread_def)
  ultimately show "kok (Suc 7) sample_graves"
    using H(1,6) by (simp add: kok_def nest_room_def sample_graves_def upd_defs tlist_insert_after_def)
  show "steady 2 sample_graves"
    using H(3) th unfolding steady_def may_block_def chosen_def keeps_cpu_def
    by (auto simp: sample_ready intro: exI [of _ 3] simp: sample_graves_def upd_defs tlist_insert_after_def tt_wf_def rt_object_get_type_def rt_interrupt_get_nest_def split: if_splits)
qed (simp_all add: sample_graves_def upd_defs tlist_insert_after_def)


end
