(* ===== verification/DataQueue.thy ===== *)
theory DataQueue
  imports Wait_Loop Bounded_Fifo
begin

text \<open>
  The data queue of the device layer, \<^verbatim>\<open>components/drivers/ipc/dataqueue.c\<close>: a cyclic array of references to data with a list of
  threads that wait to push and one of threads that wait to pop. A pop wakes a waiting pusher only when the number of items has fallen
  to the low water mark. The notification callback of the driver is a parameter, of which nothing is assumed.
\<close>

section \<open>Data\<close>

text \<open>An item is the address and the size of the data. The indices are bit-fields of 15 bits.\<close>

type_synonym rt_data_item = "u32 \<times> u32"

record rt_data_queue =
  dq_magic :: u32
  dq_size :: u16
  dq_lwm :: u16
  dq_get_index :: "15 word"
  dq_is_empty :: bool
  dq_put_index :: "15 word"
  dq_is_full :: bool
  dq_queue :: "rt_data_item list"
  dq_evt_notify :: nat

definition DATAQUEUE_MAGIC :: u32 where
  "DATAQUEUE_MAGIC = 0xbead0e0e"

abbreviation (input) RT_DATAQUEUE_EVENT_POP :: u32 where "RT_DATAQUEUE_EVENT_POP \<equiv> 1"
abbreviation (input) RT_DATAQUEUE_EVENT_PUSH :: u32 where "RT_DATAQUEUE_EVENT_PUSH \<equiv> 2"
abbreviation (input) RT_DATAQUEUE_EVENT_LWM :: u32 where "RT_DATAQUEUE_EVENT_LWM \<equiv> 3"
abbreviation (input) RT_THREAD_RESUME_RES_THR_ERR :: rt_err_t where "RT_THREAD_RESUME_RES_THR_ERR \<equiv> - 1"

text \<open>What a call of the callback at an address does.\<close>

type_synonym dq_notify = "nat \<Rightarrow> u32 \<Rightarrow> rt_data_queue \<times> kernel \<Rightarrow> (rt_data_queue \<times> kernel) option"

definition dq_call_notify :: "dq_notify \<Rightarrow> u32 \<Rightarrow> rt_data_queue \<Rightarrow> kernel \<Rightarrow> (rt_data_queue \<times> kernel) option" where
  "dq_call_notify notify event dq k =
     (if dq_evt_notify dq \<noteq> 0 then notify (dq_evt_notify dq) event (dq, k) else Some (dq, k))"

section \<open>Operations\<close>

text \<open>\<open>mem\<close> is the answer of the allocator: the array with whatever it holds, or a failure.\<close>

definition rt_data_queue_init ::
  "nat \<Rightarrow> rt_data_item list option \<Rightarrow> u16 \<Rightarrow> u16 \<Rightarrow> nat \<Rightarrow> rt_data_queue \<Rightarrow> kernel \<Rightarrow> (rt_err_t \<times> rt_data_queue \<times> kernel) option" where
  "rt_data_queue_init q mem nitems lwm evt_notify dq k = do {
     rt_assert (nitems > 0);
     let dq = dq\<lparr>dq_evt_notify := evt_notify, dq_magic := DATAQUEUE_MAGIC, dq_size := nitems, dq_lwm := lwm,
                 dq_get_index := 0, dq_put_index := 0, dq_is_empty := True, dq_is_full := False\<rparr>;
     let k = tlist_init (DqPopL q) (tlist_init (DqPushL q) k);
     case mem of
       None \<Rightarrow> Some (- RT_ENOMEM, dq\<lparr>dq_queue := []\<rparr>, k)
     | Some a \<Rightarrow> Some (RT_EOK, dq\<lparr>dq_queue := a\<rparr>, k)
   }"

text \<open>Storing and fetching an item, with the indices and the two flags.\<close>

definition dq_put :: "rt_data_item \<Rightarrow> rt_data_queue \<Rightarrow> rt_data_queue option" where
  "dq_put item dq = do {
     a \<leftarrow> store (unat (dq_put_index dq)) item (dq_queue dq);
     let dq = dq\<lparr>dq_queue := a, dq_put_index := dq_put_index dq + 1\<rparr>;
     let dq = (if unat (dq_put_index dq) = unat (dq_size dq) then dq\<lparr>dq_put_index := 0\<rparr> else dq);
     let dq = dq\<lparr>dq_is_empty := False\<rparr>;
     Some (if dq_put_index dq = dq_get_index dq then dq\<lparr>dq_is_full := True\<rparr> else dq)
   }"

definition dq_get :: "rt_data_queue \<Rightarrow> (rt_data_item \<times> rt_data_queue) option" where
  "dq_get dq = do {
     item \<leftarrow> fetch (unat (dq_get_index dq)) (dq_queue dq);
     let dq = dq\<lparr>dq_get_index := dq_get_index dq + 1\<rparr>;
     let dq = (if unat (dq_get_index dq) = unat (dq_size dq) then dq\<lparr>dq_get_index := 0\<rparr> else dq);
     let dq = dq\<lparr>dq_is_full := False\<rparr>;
     Some (item, if dq_put_index dq = dq_get_index dq then dq\<lparr>dq_is_empty := True\<rparr> else dq)
   }"

definition rt_data_queue_len :: "rt_data_queue \<Rightarrow> kernel \<Rightarrow> (u16 \<times> kernel) option" where
  "rt_data_queue_len dq k = do {
     rt_assert (dq_magic dq = DATAQUEUE_MAGIC);
     if dq_is_empty dq then Some (0, k)
     else do {
       let k = rt_spin_lock_irqsave k;
       let len = (if dq_put_index dq > dq_get_index dq then ucast (dq_put_index dq) - ucast (dq_get_index dq)
                  else dq_size dq + ucast (dq_put_index dq) - ucast (dq_get_index dq));
       k \<leftarrow> rt_spin_unlock_irqrestore k;
       Some (len, k)
     }
   }"

text \<open>The label \<^verbatim>\<open>__exit\<close> of both functions.\<close>

definition dq_exit :: "dq_notify \<Rightarrow> u32 \<Rightarrow> rt_err_t \<Rightarrow> rt_data_queue \<Rightarrow> kernel \<Rightarrow> (rt_data_queue \<times> kernel) option" where
  "dq_exit notify event result dq k = do {
     k \<leftarrow> rt_spin_unlock_irqrestore k;
     if result = RT_EOK then dq_call_notify notify event dq k else Some (dq, k)
   }"

definition dq_push_tail ::
  "dq_notify \<Rightarrow> nat \<Rightarrow> rt_data_item \<Rightarrow> rt_data_queue \<Rightarrow> kernel \<Rightarrow> (rt_data_queue \<times> kernel) option" where
  "dq_push_tail notify q item dq k = do {
     dq \<leftarrow> dq_put item dq;
     (thread, k) \<leftarrow> rt_susp_list_dequeue (DqPopL q) RT_THREAD_RESUME_RES_THR_ERR k;
     if thread \<noteq> None then do {
       k \<leftarrow> rt_spin_unlock_irqrestore k;
       k \<leftarrow> rt_schedule k;
       Some (dq, k)
     } else dq_exit notify RT_DATAQUEUE_EVENT_PUSH RT_EOK dq k
   }"

text \<open>The loops are entered with the section held, and again when the thread, which had blocked, runs again. The timeout is started
  afresh at every turn.\<close>

datatype dq_phase = DqCheck | DqResume tid

partial_function (option) dq_push_loop ::
  "dq_notify \<Rightarrow> nat \<Rightarrow> dq_phase \<Rightarrow> rt_data_item \<Rightarrow> u32 \<Rightarrow> rt_data_queue \<Rightarrow> kernel \<Rightarrow> (rt_err_t outcome \<times> rt_data_queue \<times> kernel) option" where
  "dq_push_loop notify q phase item timeout dq k =
     (case phase of
        DqCheck \<Rightarrow>
          if dq_is_full dq then
            if timeout = 0 then do {
              (dq, k) \<leftarrow> dq_exit notify RT_DATAQUEUE_EVENT_PUSH (- RT_ETIMEOUT) dq k;
              Some (Returned (- RT_ETIMEOUT), dq, k)
            } else do {
              t \<leftarrow> rt_thread_self k;
              let k = upd_thread t (\<lambda>th. th\<lparr>th_error := RT_EOK\<rparr>) k;
              (result, k) \<leftarrow> rt_thread_suspend_to_list t (Some (DqPushL q)) RT_IPC_FLAG_FIFO RT_UNINTERRUPTIBLE k;
              if result = RT_EOK then do {
                k \<leftarrow> (if sint timeout > 0 then start_thread_timer t timeout k else Some k);
                k \<leftarrow> rt_spin_unlock_irqrestore k;
                if rt_current_thread k = Some t then dq_push_loop notify q (DqResume t) item timeout dq k
                else Some (Waiting, dq, k)
              } else do {
                (dq, k) \<leftarrow> dq_exit notify RT_DATAQUEUE_EVENT_PUSH result dq k;
                Some (Returned result, dq, k)
              }
            }
          else do {
            (dq, k) \<leftarrow> dq_push_tail notify q item dq k;
            Some (Returned RT_EOK, dq, k)
          }
      | DqResume t \<Rightarrow> do {
          k \<leftarrow> rt_schedule k;
          let k = rt_spin_lock_irqsave k;
          let result = th_error (threads k t);
          if result \<noteq> RT_EOK then do {
            (dq, k) \<leftarrow> dq_exit notify RT_DATAQUEUE_EVENT_PUSH result dq k;
            Some (Returned result, dq, k)
          } else dq_push_loop notify q DqCheck item timeout dq k
        })"

definition rt_data_queue_push ::
  "dq_notify \<Rightarrow> nat \<Rightarrow> rt_data_item \<Rightarrow> u32 \<Rightarrow> rt_data_queue \<Rightarrow> kernel \<Rightarrow> (rt_err_t outcome \<times> rt_data_queue \<times> kernel) option" where
  "rt_data_queue_push notify q item timeout dq k = do {
     rt_assert (dq_magic dq = DATAQUEUE_MAGIC);
     rt_assert (timeout \<noteq> 0 \<longrightarrow> debug_scheduler_available k);
     dq_push_loop notify q DqCheck item timeout dq (rt_spin_lock_irqsave k)
   }"

definition dq_pop_tail ::
  "dq_notify \<Rightarrow> nat \<Rightarrow> rt_data_queue \<Rightarrow> kernel \<Rightarrow> (rt_data_item \<times> rt_data_queue \<times> kernel) option" where
  "dq_pop_tail notify q dq k = do {
     (item, dq) \<leftarrow> dq_get dq;
     (len, k) \<leftarrow> rt_data_queue_len dq k;
     if len \<le> dq_lwm dq then do {
       (thread, k) \<leftarrow> rt_susp_list_dequeue (DqPushL q) RT_THREAD_RESUME_RES_THR_ERR k;
       k \<leftarrow> rt_spin_unlock_irqrestore k;
       k \<leftarrow> (if thread \<noteq> None then rt_schedule k else Some k);
       (dq, k) \<leftarrow> dq_call_notify notify RT_DATAQUEUE_EVENT_LWM dq k;
       Some (item, dq, k)
     } else do {
       (dq, k) \<leftarrow> dq_exit notify RT_DATAQUEUE_EVENT_POP RT_EOK dq k;
       Some (item, dq, k)
     }
   }"

text \<open>The result of a pop is the error code and, on success, the item for the two result pointers. A suspension that fails
  leads back to the condition of the loop.\<close>

partial_function (option) dq_pop_loop ::
  "dq_notify \<Rightarrow> nat \<Rightarrow> dq_phase \<Rightarrow> u32 \<Rightarrow> rt_data_queue \<Rightarrow> kernel \<Rightarrow>
   ((rt_err_t \<times> rt_data_item option) outcome \<times> rt_data_queue \<times> kernel) option" where
  "dq_pop_loop notify q phase timeout dq k =
     (case phase of
        DqCheck \<Rightarrow>
          if dq_is_empty dq then
            if timeout = 0 then do {
              (dq, k) \<leftarrow> dq_exit notify RT_DATAQUEUE_EVENT_POP (- RT_ETIMEOUT) dq k;
              Some (Returned (- RT_ETIMEOUT, None), dq, k)
            } else do {
              t \<leftarrow> rt_thread_self k;
              let k = upd_thread t (\<lambda>th. th\<lparr>th_error := RT_EOK\<rparr>) k;
              (result, k) \<leftarrow> rt_thread_suspend_to_list t (Some (DqPopL q)) RT_IPC_FLAG_FIFO RT_UNINTERRUPTIBLE k;
              if result = RT_EOK then do {
                k \<leftarrow> (if sint timeout > 0 then start_thread_timer t timeout k else Some k);
                k \<leftarrow> rt_spin_unlock_irqrestore k;
                if rt_current_thread k = Some t then dq_pop_loop notify q (DqResume t) timeout dq k
                else Some (Waiting, dq, k)
              } else dq_pop_loop notify q DqCheck timeout dq k
            }
          else do {
            (item, dq, k) \<leftarrow> dq_pop_tail notify q dq k;
            Some (Returned (RT_EOK, Some item), dq, k)
          }
      | DqResume t \<Rightarrow> do {
          k \<leftarrow> rt_schedule k;
          let k = rt_spin_lock_irqsave k;
          let result = th_error (threads k t);
          if result \<noteq> RT_EOK then do {
            (dq, k) \<leftarrow> dq_exit notify RT_DATAQUEUE_EVENT_POP result dq k;
            Some (Returned (result, None), dq, k)
          } else dq_pop_loop notify q DqCheck timeout dq k
        })"

definition rt_data_queue_pop ::
  "dq_notify \<Rightarrow> nat \<Rightarrow> u32 \<Rightarrow> rt_data_queue \<Rightarrow> kernel \<Rightarrow> ((rt_err_t \<times> rt_data_item option) outcome \<times> rt_data_queue \<times> kernel) option" where
  "rt_data_queue_pop notify q timeout dq k = do {
     rt_assert (dq_magic dq = DATAQUEUE_MAGIC);
     rt_assert (timeout \<noteq> 0 \<longrightarrow> debug_scheduler_available k);
     dq_pop_loop notify q DqCheck timeout dq (rt_spin_lock_irqsave k)
   }"

definition rt_data_queue_peek :: "rt_data_queue \<Rightarrow> kernel \<Rightarrow> (rt_err_t \<times> rt_data_item option \<times> kernel) option" where
  "rt_data_queue_peek dq k = do {
     rt_assert (dq_magic dq = DATAQUEUE_MAGIC);
     if dq_is_empty dq then Some (- RT_EEMPTY, None, k)
     else do {
       let k = rt_spin_lock_irqsave k;
       item \<leftarrow> fetch (unat (dq_get_index dq)) (dq_queue dq);
       k \<leftarrow> rt_spin_unlock_irqrestore k;
       Some (RT_EOK, Some item, k)
     }
   }"

definition rt_data_queue_reset :: "nat \<Rightarrow> rt_data_queue \<Rightarrow> kernel \<Rightarrow> (rt_data_queue \<times> kernel) option" where
  "rt_data_queue_reset q dq k = do {
     rt_assert (dq_magic dq = DATAQUEUE_MAGIC);
     let k = rt_spin_lock_irqsave k;
     let dq = dq\<lparr>dq_get_index := 0, dq_put_index := 0, dq_is_empty := True, dq_is_full := False\<rparr>;
     k \<leftarrow> rt_spin_unlock_irqrestore k;
     let k = rt_enter_critical k;
     k \<leftarrow> rt_susp_list_resume_all_irq (DqPopL q) RT_ERROR k;
     k \<leftarrow> rt_susp_list_resume_all_irq (DqPushL q) RT_ERROR k;
     k \<leftarrow> rt_exit_critical k;
     k \<leftarrow> rt_schedule k;
     Some (dq, k)
   }"

text \<open>The array goes back to the allocator.\<close>

definition rt_data_queue_deinit :: "nat \<Rightarrow> rt_data_queue \<Rightarrow> kernel \<Rightarrow> (rt_err_t \<times> rt_data_queue \<times> kernel) option" where
  "rt_data_queue_deinit q dq k = do {
     rt_assert (dq_magic dq = DATAQUEUE_MAGIC);
     (dq, k) \<leftarrow> rt_data_queue_reset q dq k;
     let k = rt_spin_lock_irqsave k;
     let dq = dq\<lparr>dq_magic := 0\<rparr>;
     k \<leftarrow> rt_spin_unlock_irqrestore k;
     Some (RT_EOK, dq, k)
   }"

section \<open>The array as a bounded queue\<close>

definition dq_count :: "rt_data_queue \<Rightarrow> nat" where
  "dq_count dq = (if dq_is_empty dq then 0
     else if dq_get_index dq < dq_put_index dq then unat (dq_put_index dq) - unat (dq_get_index dq)
     else unat (dq_size dq) + unat (dq_put_index dq) - unat (dq_get_index dq))"

definition dq_items :: "rt_data_queue \<Rightarrow> rt_data_item list" where
  "dq_items dq = cyc (dq_queue dq) (unat (dq_size dq)) (unat (dq_get_index dq)) (dq_count dq)"

text \<open>The size has 16 bits, but the indices reach only to \<open>0x7fff\<close>.\<close>

definition dq_wf :: "rt_data_queue \<Rightarrow> bool" where
  "dq_wf dq \<longleftrightarrow> unat (dq_size dq) \<le> 0x8000 \<and> length (dq_queue dq) = unat (dq_size dq) \<and>
     unat (dq_get_index dq) < unat (dq_size dq) \<and> unat (dq_put_index dq) < unat (dq_size dq) \<and>
     (dq_is_empty dq \<or> dq_is_full dq \<longleftrightarrow> dq_put_index dq = dq_get_index dq) \<and> \<not> (dq_is_empty dq \<and> dq_is_full dq)"

definition dq_frame :: "rt_data_queue \<Rightarrow> rt_data_queue \<Rightarrow> bool" where
  "dq_frame dq dq' \<longleftrightarrow> dq_magic dq' = dq_magic dq \<and> dq_size dq' = dq_size dq \<and> dq_lwm dq' = dq_lwm dq \<and>
     dq_evt_notify dq' = dq_evt_notify dq"

lemma index_succ:
  fixes w :: "15 word"
  assumes "unat w < n" "n \<le> 0x8000"
  shows "unat (if unat (w + 1) = n then 0 else w + 1) = slot n (unat w) 1"
proof (cases "unat w = 0x7fff")
  case True
  then have "w = 0x7fff" by (simp add: word_unat_eq_iff)
  then show ?thesis using assms True by (simp add: slot_def)
next
  case False
  then have "unat (w + 1) = Suc (unat w)" using assms by (simp add: unat_word_ariths)
  then show ?thesis using assms by (auto simp: slot_def)
qed

lemma dq_wf_bounds:
  assumes wf: "dq_wf dq"
  shows "dq_count dq \<le> unat (dq_size dq)" "dq_count dq = unat (dq_size dq) \<longleftrightarrow> dq_is_full dq" "dq_count dq = 0 \<longleftrightarrow> dq_is_empty dq"
    "unat (dq_put_index dq) = slot (unat (dq_size dq)) (unat (dq_get_index dq)) (dq_count dq)"
    "length (dq_items dq) = dq_count dq"
proof -
  have "(dq_put_index dq = dq_get_index dq) = (unat (dq_put_index dq) = unat (dq_get_index dq))" by (simp add: word_unat_eq_iff)
  then show "dq_count dq \<le> unat (dq_size dq)" "dq_count dq = unat (dq_size dq) \<longleftrightarrow> dq_is_full dq" "dq_count dq = 0 \<longleftrightarrow> dq_is_empty dq"
    "unat (dq_put_index dq) = slot (unat (dq_size dq)) (unat (dq_get_index dq)) (dq_count dq)"
    using wf by (auto simp: dq_wf_def dq_count_def slot_def word_less_nat_alt)
qed (simp add: dq_items_def)

lemma count_unique:
  assumes "r < n" "l \<le> n" "0 < l"
  shows "(if r < slot n r l then slot n r l - r else n + slot n r l - r) = l"
  using assms by (auto simp: slot_def)

lemma dq_count_index:
  assumes "\<not> dq_is_empty dq" "unat (dq_put_index dq) = slot (unat (dq_size dq)) (unat (dq_get_index dq)) l"
    "unat (dq_get_index dq) < unat (dq_size dq)" "l \<le> unat (dq_size dq)" "0 < l"
  shows "dq_count dq = l"
  using count_unique [OF assms(3-5)] assms(1,2) by (simp add: dq_count_def word_less_nat_alt split: if_splits)

lemma dq_put_correct:
  assumes wf: "dq_wf dq" and room: "\<not> dq_is_full dq"
  shows "\<exists>dq'. dq_put x dq = Some dq' \<and> dq_wf dq' \<and> dq_items dq' = dq_items dq @ [x] \<and> dq_frame dq dq'"
proof -
  note b = dq_wf_bounds [OF wf]
  let ?n = "unat (dq_size dq)" and ?r = "unat (dq_get_index dq)" and ?l = "dq_count dq" and ?p = "unat (dq_put_index dq)"
  have W: "?n \<le> 0x8000" "length (dq_queue dq) = ?n" "?r < ?n" "?p < ?n" using wf by (simp_all add: dq_wf_def)
  have l: "?l < ?n" using b(1,2) room by simp
  define q where "q = (if unat (dq_put_index dq + 1) = ?n then 0 else dq_put_index dq + 1)"
  have "unat q = slot ?n ?p 1" unfolding q_def by (rule index_succ [OF W(4,1)])
  then have q: "unat q = slot ?n ?r (Suc ?l)" using b(4) l W(3) by (auto simp: slot_def)
  let ?d = "dq\<lparr>dq_queue := (dq_queue dq)[?p := x], dq_put_index := q, dq_is_empty := False, dq_is_full := (q = dq_get_index dq)\<rparr>"
  have e: "dq_put x dq = Some ?d" using W room by (simp add: dq_put_def store_def q_def Let_def)
  have c: "dq_count ?d = Suc ?l"
    by (rule dq_count_index) (use W(3) l q in simp_all)
  have "dq_wf ?d" using W q l by (auto simp: dq_wf_def slot_def)
  moreover have "cyc ((dq_queue dq)[?p := x]) ?n ?r (?l + length [x]) = cyc (dq_queue dq) ?n ?r ?l @ [x]"
  proof (rule cyc_append [OF W(3)])
    show "?l + length [x] \<le> ?n" using l by simp
    show "(dq_queue dq)[?p := x] ! slot ?n ?r (?l + j) = [x] ! j" if "j < length [x]" for j
      using that b(4) W(2,4) by simp
    show "(dq_queue dq)[?p := x] ! slot ?n ?r i = dq_queue dq ! slot ?n ?r i" if "i < ?l" for i
      using that b(4) l slot_inj [OF W(3), of i ?l] by simp
  qed
  ultimately show ?thesis using e c by (simp add: dq_items_def dq_frame_def)
qed

lemma dq_get_correct:
  assumes wf: "dq_wf dq" and items: "dq_items dq = x # xs"
  shows "\<exists>dq'. dq_get dq = Some (x, dq') \<and> dq_wf dq' \<and> dq_items dq' = xs \<and> dq_frame dq dq'"
proof -
  note b = dq_wf_bounds [OF wf]
  let ?n = "unat (dq_size dq)" and ?r = "unat (dq_get_index dq)" and ?l = "dq_count dq" and ?p = "unat (dq_put_index dq)"
  have W: "?n \<le> 0x8000" "length (dq_queue dq) = ?n" "?r < ?n" "?p < ?n" using wf by (simp_all add: dq_wf_def)
  have l: "?l = Suc (length xs)" using b(5) items by simp
  have ne: "\<not> dq_is_empty dq" using b(3) l by simp
  define g where "g = (if unat (dq_get_index dq + 1) = ?n then 0 else dq_get_index dq + 1)"
  have g: "unat g = slot ?n ?r 1" unfolding g_def by (rule index_succ [OF W(3,1)])
  have gn: "unat g < ?n" using g W(3) by (auto simp: slot_def)
  have p: "?p = slot ?n (unat g) (length xs)" using b(1,4) l g W(3) by (auto simp: slot_def)
  have c: "dq_queue dq ! slot ?n ?r 0 = x" "cyc (dq_queue dq) ?n (slot ?n ?r 1) (length xs) = xs"
    using items l b(1) W(3) by (simp_all add: dq_items_def cyc_Suc)
  let ?d = "dq\<lparr>dq_get_index := g, dq_is_full := False, dq_is_empty := (dq_put_index dq = g)\<rparr>"
  have "slot ?n ?r 0 = ?r" using W(3) by (simp add: slot_def)
  then have e: "dq_get dq = Some (x, ?d)" using W ne c(1) by (simp add: dq_get_def fetch_def g_def Let_def)
  have pg: "dq_put_index dq = g \<longleftrightarrow> xs = []"
    using p gn l b(1) by (auto simp: word_unat_eq_iff slot_def split: if_splits)
  have "dq_count ?d = length xs"
  proof (cases "xs = []")
    case False
    show ?thesis by (rule dq_count_index) (use gn l b(1) pg p False in simp_all)
  qed (use pg in \<open>simp add: dq_count_def\<close>)
  then have "dq_items ?d = xs" using c(2) g by (simp add: dq_items_def)
  moreover have "dq_wf ?d" using W gn by (simp add: dq_wf_def)
  ultimately show ?thesis using e by (simp add: dq_frame_def)
qed

definition dq_send1 :: "rt_data_item \<Rightarrow> rt_data_queue \<Rightarrow> rt_data_queue option" where
  "dq_send1 x dq = (if dq_is_full dq then None else dq_put x dq)"

definition dq_recv1 :: "rt_data_queue \<Rightarrow> (rt_data_item \<times> rt_data_queue) option" where
  "dq_recv1 dq = (if dq_is_empty dq then None else dq_get dq)"

interpretation dq_fifo: bounded_fifo dq_wf "\<lambda>dq. unat (dq_size dq)" dq_items dq_send1 dq_recv1
proof unfold_locales
  fix s :: rt_data_queue and x xs assume wf: "dq_wf s"
  note b = dq_wf_bounds [OF wf]
  show "length (dq_items s) \<le> unat (dq_size s)" using b by simp
  show "dq_send1 x s = None" if "length (dq_items s) = unat (dq_size s)" using that b by (simp add: dq_send1_def)
  show "\<exists>s'. dq_send1 x s = Some s' \<and> dq_wf s' \<and> unat (dq_size s') = unat (dq_size s) \<and> dq_items s' = dq_items s @ [x]"
    if "length (dq_items s) < unat (dq_size s)"
    using that b(2,5) dq_put_correct [OF wf, of x] by (auto simp: dq_send1_def dq_frame_def)
  show "dq_recv1 s = None" if "dq_items s = []" using that b(3,5) by (simp add: dq_recv1_def)
  show "\<exists>s'. dq_recv1 s = Some (x, s') \<and> dq_wf s' \<and> unat (dq_size s') = unat (dq_size s) \<and> dq_items s' = xs" if "dq_items s = x # xs"
    using dq_get_correct [OF wf that] b(3,5) that by (auto simp: dq_recv1_def dq_frame_def)
qed

lemma dq_len_correct:
  assumes wf: "dq_wf dq" and n: "dq_magic dq = DATAQUEUE_MAGIC"
  shows "\<exists>len. unat len = length (dq_items dq) \<and>
    (if dq_is_empty dq then rt_data_queue_len dq k = Some (len, k)
     else rt_data_queue_len dq k = do { k \<leftarrow> rt_exit_critical (rt_enter_critical k); Some (len, k) })"
proof -
  let ?p = "ucast (dq_put_index dq) :: u16" and ?g = "ucast (dq_get_index dq) :: u16"
  let ?len = "if dq_is_empty dq then 0 else if dq_get_index dq < dq_put_index dq then ?p - ?g else dq_size dq + ?p - ?g"
  note b = dq_wf_bounds [OF wf]
  have u: "unat ?p = unat (dq_put_index dq)" "unat ?g = unat (dq_get_index dq)"
    using unsigned_less [of "dq_put_index dq", where 'a = nat] unsigned_less [of "dq_get_index dq", where 'a = nat]
    by (simp_all add: unsigned_ucast_eq take_bit_nat_eq_self_iff)
  have W: "unat (dq_size dq) \<le> 0x8000" "unat (dq_get_index dq) < unat (dq_size dq)" "unat (dq_put_index dq) < unat (dq_size dq)"
    using wf by (simp_all add: dq_wf_def)
  have "unat (?p - ?g) = unat ?p - unat ?g" if "dq_get_index dq < dq_put_index dq"
    using that u by (intro unat_sub) (simp add: word_le_nat_alt word_less_nat_alt)
  moreover have "unat (dq_size dq + ?p) = unat (dq_size dq) + unat ?p" using W u by (simp add: unat_word_ariths)
  moreover from this have "unat (dq_size dq + ?p - ?g) = unat (dq_size dq + ?p) - unat ?g"
    using W u by (intro unat_sub) (simp add: word_le_nat_alt)
  ultimately have "unat ?len = dq_count dq" using u by (simp add: dq_count_def)
  then show ?thesis using b(5) n by (intro exI [of _ ?len]) (simp add: rt_data_queue_len_def spin_defs Let_def)
qed

section \<open>Waking\<close>

text \<open>The first thread of list \<open>h\<close> has been woken; its error code is kept.\<close>

definition woke :: "tlist \<Rightarrow> kernel \<Rightarrow> kernel \<Rightarrow> bool" where
  "woke h k k' \<longleftrightarrow> same_ipc k k' \<and> tlists k' h = tl (tlists k h) \<and>
     (\<forall>h'. is_susp_list h' \<and> h' \<noteq> h \<longrightarrow> tlists k' h' = tlists k h') \<and>
     (\<forall>t. thread_suspended k' t \<longleftrightarrow> thread_suspended k t \<and> (tlists k h = [] \<or> t \<noteq> hd (tlists k h))) \<and>
     (\<forall>t. th_error (threads k' t) = th_error (threads k t))"

text \<open>No thread of a suspend list has been woken.\<close>

definition woke_none :: "kernel \<Rightarrow> kernel \<Rightarrow> bool" where
  "woke_none k k' \<longleftrightarrow> same_ipc k k' \<and> (\<forall>h. is_susp_list h \<longrightarrow> tlists k' h = tlists k h) \<and>
     (\<forall>t. thread_suspended k' t = thread_suspended k t) \<and> (\<forall>t. th_error (threads k' t) = th_error (threads k t))"

lemma woke_none_sched: "sched_only k k' \<Longrightarrow> woke_none k k'"
  using same_ipc_sched_only sched_only_susp sched_onlyD(4,7) by (simp add: woke_none_def)

lemma woke_empty: "woke_none k k' \<Longrightarrow> is_susp_list h \<Longrightarrow> tlists k h = [] \<Longrightarrow> woke h k k'"
  by (simp add: woke_def woke_none_def)

lemma dq_wake_wp:
  assumes k: "kok (Suc n) k" and h: "is_susp_list h" and c: "rt_current_thread k \<noteq> None"
  shows "wp (rt_susp_list_dequeue h RT_THREAD_RESUME_RES_THR_ERR (rt_enter_critical k)) (\<lambda>(r, k1).
     (r = None \<longleftrightarrow> tlists k h = []) \<and> wp (rt_exit_critical k1) (\<lambda>k2. wp (if r \<noteq> None then rt_schedule k2 else Some k2) (\<lambda>k'. kok (Suc n) k' \<and> woke h k k')))"
proof (rule dequeue_wp [OF kok_enter [OF k] h])
  assume l: "tlists (rt_enter_critical k) h = []"
  have "wp (rt_exit_critical (rt_enter_critical k)) (\<lambda>k'. kok (Suc n) k' \<and> woke h k k')"
    using l h by (intro kok_section_wp [OF k]) (auto intro: woke_empty woke_none_sched)
  then show "case (None, rt_enter_critical k) of (r, k1) \<Rightarrow> (r = None \<longleftrightarrow> tlists k h = []) \<and> wp (rt_exit_critical k1)
     (\<lambda>k2. wp (if r \<noteq> None then rt_schedule k2 else Some k2) (\<lambda>k'. kok (Suc n) k' \<and> woke h k k'))" using l by simp
next
  fix t ts k1 assume l: "tlists (rt_enter_critical k) h = t # ts" and k1: "kok n k1" and l1: "tlists k1 h = ts"
    and "woken t (if 0 \<le> (- 1 :: rt_err_t) then - 1 else th_error (threads (rt_enter_critical k) t)) (rt_enter_critical k) k1"
  then have w: "woken t (th_error (threads k t)) (rt_enter_critical k) k1" by simp
  have oth: "tlists k1 h' = tlists k h'" if "is_susp_list h'" "h' \<noteq> h" for h'
  proof -
    have "t \<in> set (tlists k h)" using l by simp
    then have "t \<notin> set (tlists k h')" using k that(2) unfolding kok_def kinv_def kglobal_def lists_ok_def by metis
    moreover have "tlists k1 h' = removeAll t (tlists (rt_enter_critical k) h')" by (rule wokenD(2) [OF w]) (use that(1) in auto)
    ultimately show ?thesis by simp
  qed
  have "wp (rt_exit_critical k1) (\<lambda>k2. wp (if True then rt_schedule k2 else Some k2) (\<lambda>k'. kok (Suc n) k' \<and> woke h k k'))"
  proof (rule leave_wp [OF k k1])
    show "rt_scheduler_lock_nest k1 = rt_scheduler_lock_nest k + 1" using wokenD(1) [OF w] by (simp add: same_ipc_def)
    show "rt_current_thread k1 \<noteq> None" using wokenD(18) [OF w] c by simp
    fix k' assume k': "kok (Suc n) k'" "sched_only (k1\<lparr>rt_scheduler_lock_nest := rt_scheduler_lock_nest k\<rparr>) k'"
    note S = woke_none_sched [OF k'(2), unfolded woke_none_def]
    have "same_ipc k k'" using S wokenD(1) [OF w] by (simp add: same_ipc_def)
    moreover have "tlists k' h = tl (tlists k h)" using S h l1 l by simp
    moreover have "tlists k' h' = tlists k h'" if "is_susp_list h' \<and> h' \<noteq> h" for h' using S oth that by simp
    moreover have "th_error (threads k1 x) = th_error (threads k x)" for x
      using wokenD(4,6) [OF w] by (cases "x = t") simp_all
    ultimately have "woke h k k'"
      using S l wokenD(3) [OF w] by (auto simp: woke_def thread_suspended_def)
    then show "kok (Suc n) k' \<and> woke h k k'" using k'(1) by simp
  qed
  then show "case (Some t, k1) of (r, k1) \<Rightarrow> (r = None \<longleftrightarrow> tlists k h = []) \<and> wp (rt_exit_critical k1)
     (\<lambda>k2. wp (if r \<noteq> None then rt_schedule k2 else Some k2) (\<lambda>k'. kok (Suc n) k' \<and> woke h k k'))" using l by simp
qed

text \<open>The steps of waking the first thread of list \<open>h\<close> and leaving the section.\<close>

lemma dq_wakes:
  assumes k: "kok (Suc n) k" and h: "is_susp_list h" and c: "rt_current_thread k \<noteq> None"
  obtains r k1 k2 k' where "rt_susp_list_dequeue h RT_THREAD_RESUME_RES_THR_ERR (rt_enter_critical k) = Some (r, k1)"
    "r = None \<longleftrightarrow> tlists k h = []" "rt_exit_critical k1 = Some k2" "(if r \<noteq> None then rt_schedule k2 else Some k2) = Some k'"
    "kok (Suc n) k'" "woke h k k'"
  using dq_wake_wp [OF k h c] that by (auto simp: wp_def split: option.splits prod.splits)

lemma bind_pair_map: "Option.bind m (\<lambda>(d, k). Some (f d k)) = map_option (case_prod f) m"
  by (cases m) auto

text \<open>The end of a push reports the event \<^verbatim>\<open>RT_DATAQUEUE_EVENT_PUSH\<close> unless it has woken a thread; the end of a pop always reports an
  event.\<close>

lemma dq_push_tail_eq:
  assumes k: "kok (Suc n) k" and c: "rt_current_thread k \<noteq> None" and wf: "dq_wf dq" "\<not> dq_is_full dq"
  obtains dq' k' where "kok (Suc n) k'" "woke (DqPopL q) k k'" "dq_wf dq'" "dq_items dq' = dq_items dq @ [item]" "dq_frame dq dq'"
    "dq_push_tail notify q item dq (rt_enter_critical k) =
       (if tlists k (DqPopL q) = [] \<and> dq_evt_notify dq \<noteq> 0 then notify (dq_evt_notify dq) RT_DATAQUEUE_EVENT_PUSH (dq', k')
        else Some (dq', k'))"
proof -
  obtain dq' where d: "dq_put item dq = Some dq'" "dq_wf dq'" "dq_items dq' = dq_items dq @ [item]" "dq_frame dq dq'"
    using dq_put_correct [OF wf, of item] by blast
  obtain r k1 k2 k' where w: "rt_susp_list_dequeue (DqPopL q) RT_THREAD_RESUME_RES_THR_ERR (rt_enter_critical k) = Some (r, k1)"
    "r = None \<longleftrightarrow> tlists k (DqPopL q) = []" "rt_exit_critical k1 = Some k2" "(if r \<noteq> None then rt_schedule k2 else Some k2) = Some k'"
    "kok (Suc n) k'" "woke (DqPopL q) k k'"
    by (rule dq_wakes [OF k _ c, of "DqPopL q"]) simp
  show thesis
    by (rule that [OF w(5,6) d(2-4)])
      (use w(1-4) d(1,4) in \<open>auto simp: dq_push_tail_def dq_exit_def dq_call_notify_def dq_frame_def spin_defs split: if_splits\<close>)
qed

lemma dq_pop_tail_eq:
  assumes k: "kok (Suc (Suc n)) k" and c: "rt_current_thread k \<noteq> None" and wf: "dq_wf dq"
    and m: "dq_magic dq = DATAQUEUE_MAGIC" and i: "dq_items dq = x # xs"
  obtains dq' k' where "kok (Suc (Suc n)) k'" "if length xs \<le> unat (dq_lwm dq) then woke (DqPushL q) k k' else woke_none k k'"
    "dq_wf dq'" "dq_items dq' = xs" "dq_frame dq dq'"
    "dq_pop_tail notify q dq (rt_enter_critical k) = map_option (Pair x)
       (if dq_evt_notify dq \<noteq> 0
        then notify (dq_evt_notify dq) (if length xs \<le> unat (dq_lwm dq) then RT_DATAQUEUE_EVENT_LWM else RT_DATAQUEUE_EVENT_POP) (dq', k')
        else Some (dq', k'))"
proof -
  obtain dq' where d: "dq_get dq = Some (x, dq')" "dq_wf dq'" "dq_items dq' = xs" "dq_frame dq dq'"
    using dq_get_correct [OF wf i] by blast
  have m': "dq_magic dq' = DATAQUEUE_MAGIC" "dq_lwm dq' = dq_lwm dq" "dq_evt_notify dq' = dq_evt_notify dq"
    using d(4) m by (simp_all add: dq_frame_def)
  have ne: "rt_exit_critical (rt_enter_critical (rt_enter_critical k)) = Some (rt_enter_critical k)"
    by (rule exit_enter_nested [OF kokD(2) [OF kok_enter [OF k]] enter_nonzero [OF k]])
  obtain len where len: "unat len = length xs" "rt_data_queue_len dq' (rt_enter_critical k) = Some (len, rt_enter_critical k)"
    using dq_len_correct [of dq' "rt_enter_critical k"] d(2,3) m'(1) ne by (auto split: if_splits)
  have b: "len \<le> dq_lwm dq \<longleftrightarrow> length xs \<le> unat (dq_lwm dq)" using len(1) by (simp add: word_le_nat_alt)
  show thesis
  proof (cases "length xs \<le> unat (dq_lwm dq)")
    case True
    obtain r k1 k2 k' where w: "rt_susp_list_dequeue (DqPushL q) RT_THREAD_RESUME_RES_THR_ERR (rt_enter_critical k) = Some (r, k1)"
      "rt_exit_critical k1 = Some k2" "(if r \<noteq> None then rt_schedule k2 else Some k2) = Some k'"
      "kok (Suc (Suc n)) k'" "woke (DqPushL q) k k'"
      by (rule dq_wakes [OF k _ c, of "DqPushL q"]) simp
    show thesis
    proof (rule that [OF w(4) _ d(2-4)])
      show "if length xs \<le> unat (dq_lwm dq) then woke (DqPushL q) k k' else woke_none k k'" using True w(5) by simp
    qed (use w(1-3) d(1) len(2) True b in \<open>simp add: dq_pop_tail_def dq_call_notify_def m' spin_defs bind_pair_map\<close>)
  next
    case False
    have "wp (rt_exit_critical (rt_enter_critical k)) (\<lambda>k'. kok (Suc (Suc n)) k' \<and> woke_none k k')"
      by (rule kok_section_wp [OF k]) (simp add: woke_none_sched)
    then obtain k' where k': "rt_exit_critical (rt_enter_critical k) = Some k'" "kok (Suc (Suc n)) k'" "woke_none k k'"
      by (auto simp: wp_def split: option.splits)
    show thesis
    proof (rule that [OF k'(2) _ d(2-4)])
      show "if length xs \<le> unat (dq_lwm dq) then woke (DqPushL q) k k' else woke_none k k'" using False k'(3) by simp
    qed (use k'(1) d(1) len(2) False b in \<open>simp add: dq_pop_tail_def dq_exit_def dq_call_notify_def m' spin_defs bind_pair_map\<close>)
  qed
qed

section \<open>Blocking\<close>

lemma dq_push_block_wp:
  assumes k: "kok (Suc n) k" and m: "may_block t k" and f: "dq_is_full dq" and to: "timeout \<noteq> 0" "timeout \<noteq> 0x7fffffff"
  shows "wp (dq_push_loop notify q DqCheck item timeout dq (rt_enter_critical k)) (\<lambda>(out, dq', k'). out = Waiting \<and> dq' = dq \<and>
     kok (Suc n) k' \<and> waits t (DqPushL q) RT_IPC_FLAG_FIFO timeout k k' \<and> same_ipc k k')"
proof -
  let ?Q = "\<lambda>k'. kok (Suc n) k' \<and> waits t (DqPushL q) RT_IPC_FLAG_FIFO timeout k k' \<and> same_ipc k k'"
  have c: "rt_current_thread k = Some t" using m by (simp add: may_block_def)
  have b: "wp (rt_thread_suspend_to_list t (Some (DqPushL q)) RT_IPC_FLAG_FIFO RT_UNINTERRUPTIBLE
       (upd_thread t (\<lambda>th. th\<lparr>th_error := 0\<rparr>) (rt_enter_critical k))) (\<lambda>(ret, k1). ret = RT_EOK \<and>
       wp (if 0 < sint timeout then start_thread_timer t timeout k1 else Some k1) (\<lambda>k2. wp (rt_exit_critical k2) ?Q))"
    by (rule block_wp [OF k m _ _ to(2)]) auto
  have q: "rt_current_thread k' \<noteq> Some t" if "?Q k'" for k' using that by (simp add: waits_def)
  show ?thesis
    by (subst dq_push_loop.simps)
      (use b q c to(1) f in \<open>auto simp: rt_thread_self_def spin_defs elim!: wp_mono split: if_splits\<close>)
qed

lemma dq_pop_block_wp:
  assumes k: "kok (Suc n) k" and m: "may_block t k" and f: "dq_is_empty dq" and to: "timeout \<noteq> 0" "timeout \<noteq> 0x7fffffff"
  shows "wp (dq_pop_loop notify q DqCheck timeout dq (rt_enter_critical k)) (\<lambda>(out, dq', k'). out = Waiting \<and> dq' = dq \<and>
     kok (Suc n) k' \<and> waits t (DqPopL q) RT_IPC_FLAG_FIFO timeout k k' \<and> same_ipc k k')"
proof -
  let ?Q = "\<lambda>k'. kok (Suc n) k' \<and> waits t (DqPopL q) RT_IPC_FLAG_FIFO timeout k k' \<and> same_ipc k k'"
  have c: "rt_current_thread k = Some t" using m by (simp add: may_block_def)
  have b: "wp (rt_thread_suspend_to_list t (Some (DqPopL q)) RT_IPC_FLAG_FIFO RT_UNINTERRUPTIBLE
       (upd_thread t (\<lambda>th. th\<lparr>th_error := 0\<rparr>) (rt_enter_critical k))) (\<lambda>(ret, k1). ret = RT_EOK \<and>
       wp (if 0 < sint timeout then start_thread_timer t timeout k1 else Some k1) (\<lambda>k2. wp (rt_exit_critical k2) ?Q))"
    by (rule block_wp [OF k m _ _ to(2)]) auto
  have q: "rt_current_thread k' \<noteq> Some t" if "?Q k'" for k' using that by (simp add: waits_def)
  show ?thesis
    by (subst dq_pop_loop.simps)
      (use b q c to(1) f in \<open>auto simp: rt_thread_self_def spin_defs elim!: wp_mono split: if_splits\<close>)
qed

lemma dq_expire_wp:
  assumes k: "kok n k"
  shows "wp (dq_exit notify e (- RT_ETIMEOUT) dq (rt_enter_critical k)) (\<lambda>(dq', k'). dq' = dq \<and> kok n k' \<and> woke_none k k')"
proof -
  have "wp (rt_exit_critical (rt_enter_critical k)) (\<lambda>k'. kok n k' \<and> woke_none k k')"
    by (rule kok_section_wp [OF k]) (simp add: woke_none_sched)
  then show ?thesis by (simp add: dq_exit_def spin_defs)
qed

section \<open>Properties\<close>

text \<open>C26. Pushing into a data queue with room appends the item; then the thread that has waited longest to pop is woken, or, when no
  thread waits to pop, the driver's callback, if there is one, is called for the event \<^verbatim>\<open>RT_DATAQUEUE_EVENT_PUSH\<close>, after the item is
  stored and the section is left, and the push returns \<^verbatim>\<open>RT_EOK\<close> with what the callback leaves, whatever that is. A push into a full queue changes nothing and
  calls nothing: it fails with \<^verbatim>\<open>-RT_ETIMEOUT\<close> without a timeout, and otherwise suspends the caller behind the
  other waiting pushers, with its timer running for a finite timeout.\<close>

theorem rt_data_queue_push_correct:
  assumes k: "kok (Suc n) k" "rt_current_thread k \<noteq> None" and d: "dq_wf dq" "dq_magic dq = DATAQUEUE_MAGIC"
    and m: "timeout \<noteq> 0 \<Longrightarrow> may_block t k" and to: "timeout \<noteq> 0x7fffffff"
  shows "if length (dq_items dq) < unat (dq_size dq)
    then \<exists>dq' k'. kok (Suc n) k' \<and> woke (DqPopL q) k k' \<and> dq_wf dq' \<and> dq_items dq' = dq_items dq @ [item] \<and> dq_frame dq dq' \<and>
       rt_data_queue_push notify q item timeout dq k = map_option (Pair (Returned RT_EOK))
         (if tlists k (DqPopL q) = [] \<and> dq_evt_notify dq \<noteq> 0 then notify (dq_evt_notify dq) RT_DATAQUEUE_EVENT_PUSH (dq', k')
          else Some (dq', k'))
    else wp (rt_data_queue_push notify q item timeout dq k) (\<lambda>(out, dq', k'). kok (Suc n) k' \<and> dq' = dq \<and>
       (if timeout = 0 then out = Returned (- RT_ETIMEOUT) \<and> woke_none k k'
        else out = Waiting \<and> waits t (DqPushL q) RT_IPC_FLAG_FIFO timeout k k' \<and> same_ipc k k'))"
proof -
  have a: "rt_data_queue_push notify q item timeout dq k = dq_push_loop notify q DqCheck item timeout dq (rt_enter_critical k)"
    using d(2) may_block_debug [OF m] by (auto simp: rt_data_queue_push_def spin_defs rt_assert_def)
  have full: "length (dq_items dq) < unat (dq_size dq) \<longleftrightarrow> \<not> dq_is_full dq" using dq_wf_bounds(1,2,5) [OF d(1)] by auto
  show ?thesis
  proof (cases "dq_is_full dq")
    case False
    obtain dq' k' where e: "kok (Suc n) k'" "woke (DqPopL q) k k'" "dq_wf dq'" "dq_items dq' = dq_items dq @ [item]" "dq_frame dq dq'"
      "dq_push_tail notify q item dq (rt_enter_critical k) =
         (if tlists k (DqPopL q) = [] \<and> dq_evt_notify dq \<noteq> 0 then notify (dq_evt_notify dq) RT_DATAQUEUE_EVENT_PUSH (dq', k')
          else Some (dq', k'))"
      using dq_push_tail_eq [OF k d(1) False, of q item notify] by blast
    have "dq_push_loop notify q DqCheck item timeout dq (rt_enter_critical k) = map_option (Pair (Returned RT_EOK))
        (dq_push_tail notify q item dq (rt_enter_critical k))"
      using False by (subst dq_push_loop.simps) (simp add: bind_pair_map fun_eq_iff)
    then show ?thesis using False full e unfolding a by auto
  next
    case True
    show ?thesis
    proof (cases "timeout = 0")
      case z: True
      then show ?thesis
        using dq_expire_wp [OF k(1), of notify RT_DATAQUEUE_EVENT_PUSH dq] full True
        unfolding a by (subst dq_push_loop.simps) (simp, erule wp_mono, auto)
    next
      case False
      then show ?thesis
        using dq_push_block_wp [OF k(1) m [OF False] True False to, of notify q item] full True
        unfolding a by (auto elim!: wp_mono)
    qed
  qed
qed

text \<open>C27. Popping hands out the oldest item. When no more items are left than the low water mark, the thread that has waited longest to
  push is woken, and the event is \<^verbatim>\<open>RT_DATAQUEUE_EVENT_LWM\<close>; otherwise nobody is woken, and the event is
  \<^verbatim>\<open>RT_DATAQUEUE_EVENT_POP\<close>. The driver's callback, if there is one, is called for that event after the section is left, and the pop
  returns \<^verbatim>\<open>RT_EOK\<close> with the item and what the callback leaves, whatever that is. A pop from an empty queue changes nothing and calls
  nothing: it fails with \<^verbatim>\<open>-RT_ETIMEOUT\<close> without a timeout, and otherwise suspends the caller behind the other waiting
  threads.\<close>

theorem rt_data_queue_pop_correct:
  assumes k: "kok (Suc (Suc n)) k" "rt_current_thread k \<noteq> None" and d: "dq_wf dq" "dq_magic dq = DATAQUEUE_MAGIC"
    and m: "timeout \<noteq> 0 \<Longrightarrow> may_block t k" and to: "timeout \<noteq> 0x7fffffff"
  shows "case dq_items dq of
      x # xs \<Rightarrow> \<exists>dq' k'. kok (Suc (Suc n)) k' \<and> dq_wf dq' \<and> dq_items dq' = xs \<and> dq_frame dq dq' \<and>
        (if length xs \<le> unat (dq_lwm dq) then woke (DqPushL q) k k' else woke_none k k') \<and>
        rt_data_queue_pop notify q timeout dq k = map_option (Pair (Returned (RT_EOK, Some x)))
          (if dq_evt_notify dq \<noteq> 0
           then notify (dq_evt_notify dq) (if length xs \<le> unat (dq_lwm dq) then RT_DATAQUEUE_EVENT_LWM else RT_DATAQUEUE_EVENT_POP) (dq', k')
           else Some (dq', k'))
    | [] \<Rightarrow> wp (rt_data_queue_pop notify q timeout dq k) (\<lambda>(out, dq', k'). kok (Suc (Suc n)) k' \<and> dq' = dq \<and>
        (if timeout = 0 then out = Returned (- RT_ETIMEOUT, None) \<and> woke_none k k'
         else out = Waiting \<and> waits t (DqPopL q) RT_IPC_FLAG_FIFO timeout k k' \<and> same_ipc k k'))"
proof -
  have a: "rt_data_queue_pop notify q timeout dq k = dq_pop_loop notify q DqCheck timeout dq (rt_enter_critical k)"
    using d(2) may_block_debug [OF m] by (auto simp: rt_data_queue_pop_def spin_defs rt_assert_def)
  have empty: "dq_is_empty dq \<longleftrightarrow> dq_items dq = []" using dq_wf_bounds(3,5) [OF d(1)] by auto
  show ?thesis
  proof (cases "dq_items dq")
    case (Cons x xs)
    obtain dq' k' where e: "kok (Suc (Suc n)) k'" "if length xs \<le> unat (dq_lwm dq) then woke (DqPushL q) k k' else woke_none k k'"
      "dq_wf dq'" "dq_items dq' = xs" "dq_frame dq dq'"
      "dq_pop_tail notify q dq (rt_enter_critical k) = map_option (Pair x)
         (if dq_evt_notify dq \<noteq> 0
          then notify (dq_evt_notify dq) (if length xs \<le> unat (dq_lwm dq) then RT_DATAQUEUE_EVENT_LWM else RT_DATAQUEUE_EVENT_POP) (dq', k')
          else Some (dq', k'))" (is "_ = map_option _ ?n")
      by (rule dq_pop_tail_eq [OF k d Cons, of q notify])
    have "dq_pop_loop notify q DqCheck timeout dq (rt_enter_critical k) = map_option (Pair (Returned (RT_EOK, Some x))) ?n"
      using Cons empty by (subst dq_pop_loop.simps) (cases ?n, simp_all add: e(6) del: if_split_asm)
    then show ?thesis unfolding a Cons list.case using e(1-5) by (intro exI conjI)
  next
    case Nil
    show ?thesis
    proof (cases "timeout = 0")
      case True
      then show ?thesis
        using dq_expire_wp [OF k(1), of notify RT_DATAQUEUE_EVENT_POP dq] empty Nil
        unfolding a by (subst dq_pop_loop.simps) (simp, erule wp_mono, auto)
    next
      case False
      then show ?thesis
        using dq_pop_block_wp [OF k(1) m [OF False] _ False to, of dq notify q] empty Nil
        unfolding a by (auto elim!: wp_mono)
    qed
  qed
qed

text \<open>A data queue of more than \<open>0x8000\<close> items: the put index has only 15 bits and wraps before it reaches the size. A single item
  pushed at index \<open>0x7fff\<close> is reported as many.\<close>

theorem dq_large_length:
  assumes "dq_get_index dq = 0x7fff" "dq_put_index dq = 0x7fff" "dq_is_empty dq" "\<not> dq_is_full dq"
    and "length (dq_queue dq) = unat (dq_size dq)" "0x8000 < unat (dq_size dq)" "dq_magic dq = DATAQUEUE_MAGIC"
    and k: "kinv k" "nest_ok k"
  shows "\<exists>dq'. dq_put x dq = Some dq' \<and> dq_put_index dq' = 0 \<and>
     wp (rt_data_queue_len dq' k) (\<lambda>(len, _). len = dq_size dq - 0x7fff \<and> len \<noteq> 1)"
proof -
  let ?d = "dq\<lparr>dq_queue := (dq_queue dq)[0x7fff := x], dq_put_index := 0, dq_is_empty := False\<rparr>"
  have "dq_put x dq = Some ?d" using assms by (simp add: dq_put_def store_def Let_def)
  moreover have "dq_size dq - 0x7fff \<noteq> 1"
  proof
    assume "dq_size dq - 0x7fff = 1"
    then have "dq_size dq = 0x8000" by (simp add: diff_eq_eq)
    then show False using assms(6) by simp
  qed
  moreover have "wp (rt_exit_critical (rt_enter_critical k)) (\<lambda>_. True)" by (rule read_section_wp [OF k]) simp
  moreover have "ucast (0x7fff :: 15 word) = (0x7fff :: u16)" by simp
  ultimately show ?thesis
    using assms by (intro exI [of _ ?d]) (simp add: rt_data_queue_len_def spin_defs Let_def)
qed

text \<open>Waking all waiters inside of a section, where no thread is switched to.\<close>

lemma resume_all_irq_wp:
  assumes "kok (Suc n) k" and h: "is_susp_list h" and e: "e \<ge> 0" and "rt_scheduler_lock_nest k \<noteq> 0"
    and Q: "\<And>k'. kok (Suc n) k' \<Longrightarrow> woken_list e (tlists k h) k k' \<Longrightarrow> tlists k' h = [] \<Longrightarrow> Q k'"
  shows "wp (rt_susp_list_resume_all_irq h e k) Q"
  using assms(1,4) Q
proof (induction "tlists k h" arbitrary: k)
  case Nil
  have "rt_exit_critical (rt_enter_critical k) = Some k" using Nil(2,3) kokD(2) by (intro exit_enter_nested) auto
  then show ?case
    using Nil by (subst rt_susp_list_resume_all_irq.simps) (simp add: rt_susp_list_dequeue_def spin_defs woken_Nil)
next
  case (Cons t ts)
  have "wp (rt_susp_list_dequeue h e (rt_enter_critical k)) (\<lambda>(thread, k1). wp (rt_exit_critical k1)
     (\<lambda>k2. wp (case thread of None \<Rightarrow> Some k2 | Some _ \<Rightarrow> rt_susp_list_resume_all_irq h e k2) Q))"
  proof (rule wake_section_wp [OF Cons(3) h Cons(2) [symmetric] e])
    fix k1 assume k1: "kok n k1" "woken t e (rt_enter_critical k) k1" "tlists k1 h = ts"
    let ?k = "k1\<lparr>rt_scheduler_lock_nest := rt_scheduler_lock_nest k\<rparr>"
    have n1: "rt_scheduler_lock_nest k1 = rt_scheduler_lock_nest k + 1" using wokenD(1) [OF k1(2)] by (simp add: same_ipc_def)
    then have x: "rt_exit_critical k1 = Some ?k" using Cons(4) kokD(2) [OF Cons(3)] by (intro exit_nested) (simp_all add: nest_ok_def)
    have kk: "kok (Suc n) ?k" using Cons(3) n1 by (intro kok_nest_update [OF k1(1)]) (simp_all add: kok_def nest_room_def)
    have w: "woken t e k ?k" using k1(2) by (simp add: woken_def same_ipc_def thread_suspended_def)
    have "wp (rt_susp_list_resume_all_irq h e ?k) Q"
    proof (rule Cons(1))
      show "ts = tlists ?k h" "kok (Suc n) ?k" "rt_scheduler_lock_nest ?k \<noteq> 0" using k1(3) kk Cons(4) by simp_all
      fix k' assume "kok (Suc n) k'" "woken_list e (tlists ?k h) ?k k'" "tlists k' h = []"
      moreover from this w have "woken_list e (t # ts) k k'" using k1(3) by (auto intro: woken_Cons)
      ultimately show "Q k'" using Cons(2,5) by simp
    qed
    then show "wp (rt_exit_critical k1) (\<lambda>k2. wp (case Some t of None \<Rightarrow> Some k2 | Some _ \<Rightarrow> rt_susp_list_resume_all_irq h e k2) Q)"
      using x by simp
  qed
  then show ?case by (subst rt_susp_list_resume_all_irq.simps) (simp add: spin_defs case_prod_unfold)
qed

text \<open>Resetting a data queue empties it and wakes all waiting threads of both lists with the error code \<^verbatim>\<open>RT_ERROR\<close>.\<close>

theorem rt_data_queue_reset_correct:
  assumes k: "kok (Suc (Suc n)) k" "rt_current_thread k \<noteq> None" and d: "dq_magic dq = DATAQUEUE_MAGIC"
    "unat (dq_size dq) \<le> 0x8000" "length (dq_queue dq) = unat (dq_size dq)" "0 < unat (dq_size dq)"
  shows "wp (rt_data_queue_reset q dq k) (\<lambda>(dq', k'). kok (Suc (Suc n)) k' \<and> dq_wf dq' \<and> dq_items dq' = [] \<and> dq_frame dq dq' \<and>
     same_ipc k k' \<and> tlists k' (DqPopL q) = [] \<and> tlists k' (DqPushL q) = [] \<and>
     (\<forall>t \<in> set (tlists k (DqPopL q)) \<union> set (tlists k (DqPushL q)). \<not> thread_suspended k' t \<and> th_error (threads k' t) = RT_ERROR))"
proof -
  let ?d = "dq\<lparr>dq_get_index := 0, dq_put_index := 0, dq_is_empty := True, dq_is_full := False\<rparr>"
  let ?R = "\<lambda>k'. kok (Suc (Suc n)) k' \<and> same_ipc k k' \<and> tlists k' (DqPopL q) = [] \<and> tlists k' (DqPushL q) = [] \<and>
     (\<forall>t \<in> set (tlists k (DqPopL q)) \<union> set (tlists k (DqPushL q)). \<not> thread_suspended k' t \<and> th_error (threads k' t) = RT_ERROR)"
  have "wp (rt_exit_critical (rt_enter_critical k)) (\<lambda>k1. wp (rt_susp_list_resume_all_irq (DqPopL q) RT_ERROR (rt_enter_critical k1))
     (\<lambda>k2. wp (rt_susp_list_resume_all_irq (DqPushL q) RT_ERROR k2) (\<lambda>k3. wp (rt_exit_critical k3) (\<lambda>k4. wp (rt_schedule k4) ?R))))"
  proof (rule kok_section_wp [OF k(1)])
    fix k1 assume k1: "kok (Suc (Suc n)) k1" "sched_only k k1"
    let ?e = "rt_enter_critical k1"
    note S1 = woke_none_sched [OF k1(2), unfolded woke_none_def]
    show "wp (rt_susp_list_resume_all_irq (DqPopL q) RT_ERROR ?e)
     (\<lambda>k2. wp (rt_susp_list_resume_all_irq (DqPushL q) RT_ERROR k2) (\<lambda>k3. wp (rt_exit_critical k3) (\<lambda>k4. wp (rt_schedule k4) ?R)))"
    proof (rule resume_all_irq_wp [OF kok_enter [OF k1(1)] _ _ enter_nonzero [OF k1(1)]])
      fix k2 assume k2: "kok (Suc n) k2" "woken_list RT_ERROR (tlists ?e (DqPopL q)) ?e k2" "tlists k2 (DqPopL q) = []"
      note W2 = woken_listD [OF k2(2)]
      have n2: "rt_scheduler_lock_nest k2 = rt_scheduler_lock_nest ?e" using W2(1) by (simp add: same_ipc_def)
      show "wp (rt_susp_list_resume_all_irq (DqPushL q) RT_ERROR k2) (\<lambda>k3. wp (rt_exit_critical k3) (\<lambda>k4. wp (rt_schedule k4) ?R))"
      proof (rule resume_all_irq_wp [OF k2(1)])
        show "rt_scheduler_lock_nest k2 \<noteq> 0" using n2 enter_nonzero [OF k1(1)] by simp
        fix k3 assume k3: "kok (Suc n) k3" "woken_list RT_ERROR (tlists k2 (DqPushL q)) k2 k3" "tlists k3 (DqPushL q) = []"
        note W3 = woken_listD [OF k3(2)]
        have i3: "same_ipc ?e k3" using W2(1) W3(1) by (rule same_ipc_trans)
        have p: "tlists k2 (DqPushL q) = filter (\<lambda>t. t \<notin> set (tlists k1 (DqPopL q))) (tlists k1 (DqPushL q))" using W2(2) by simp
        have "wp (rt_exit_critical k3) (\<lambda>k4. wp (if True then rt_schedule k4 else Some k4) ?R)"
        proof (rule leave_wp [OF k1(1) k3(1)])
          show "rt_scheduler_lock_nest k3 = rt_scheduler_lock_nest k1 + 1" using i3 by (simp add: same_ipc_def)
          show "rt_current_thread k3 \<noteq> None" using W2(9) W3(9) sched_onlyD(2) [OF k1(2)] k(2) by simp
          fix k' assume k': "kok (Suc (Suc n)) k'" "sched_only (k3\<lparr>rt_scheduler_lock_nest := rt_scheduler_lock_nest k1\<rparr>) k'"
          note S = woke_none_sched [OF k'(2), unfolded woke_none_def]
          have "same_ipc k k'" using S1 i3 S by (simp add: same_ipc_def)
          moreover have "tlists k' (DqPopL q) = []" "tlists k' (DqPushL q) = []" using S k2(3) k3(3) W3(2) by simp_all
          moreover have "\<not> thread_suspended k' t \<and> th_error (threads k' t) = RT_ERROR"
            if "t \<in> set (tlists k (DqPopL q)) \<union> set (tlists k (DqPushL q))" for t
            using that S S1 W2(3,4) [of t] W3(3,4) [of t] p by (auto simp: thread_suspended_def)
          ultimately show "?R k'" using k'(1) by blast
        qed
        then show "wp (rt_exit_critical k3) (\<lambda>k4. wp (rt_schedule k4) ?R)" by simp
      qed simp_all
    qed simp_all
  qed
  then have "wp (rt_data_queue_reset q dq k) (\<lambda>(dq', k'). dq' = ?d \<and> ?R k')"
    using d(1) by (simp add: rt_data_queue_reset_def spin_defs)
  then show ?thesis
    by (rule wp_mono) (use d in \<open>auto simp: dq_wf_def dq_items_def dq_count_def dq_frame_def\<close>)
qed

text \<open>A pusher that was woken and finds the queue full again waits for its whole timeout once more, counted from now: the time it has
  already waited is not deducted.\<close>

theorem dq_push_rewait:
  assumes k: "kok (Suc n) k" and m: "may_block t k" "chosen t k" and e: "th_error (threads k t) = RT_EOK" and f: "dq_is_full dq"
    and to: "0 < sint timeout" "timeout \<noteq> 0x7fffffff"
  shows "wp (dq_push_loop notify q (DqResume t) item timeout dq k) (\<lambda>(out, dq', k'). out = Waiting \<and> dq' = dq \<and> kok (Suc n) k' \<and>
     timer_active k' (ThreadTimer t) \<and> tm_timeout_tick (timers k' (ThreadTimer t)) = rt_tick k + timeout)"
    (is "wp _ ?Q")
proof -
  have z: "timeout \<noteq> 0" using to(1) by auto
  have "wp (rt_schedule k) (\<lambda>k1. th_error (threads k1 t) = 0 \<and> wp (dq_push_loop notify q DqCheck item timeout dq (rt_enter_critical k1)) ?Q)"
  proof (rule chosen_schedule_wp [OF k m])
    fix k1 assume k1: "kok (Suc n) k1" "sched_only k k1" "may_block t k1"
    have "rt_tick k1 = rt_tick k" using same_ipc_sched_only [OF k1(2)] by (simp add: same_ipc_def)
    then have "wp (dq_push_loop notify q DqCheck item timeout dq (rt_enter_critical k1)) ?Q"
      by (intro wp_mono [OF dq_push_block_wp [OF k1(1,3) f z to(2)]]) (use to(1) in \<open>auto simp: waits_def\<close>)
    then show "th_error (threads k1 t) = 0 \<and> wp (dq_push_loop notify q DqCheck item timeout dq (rt_enter_critical k1)) ?Q"
      using sched_onlyD(7) [OF k1(2), of t] e by simp
  qed
  then show ?thesis by (subst dq_push_loop.simps) (simp add: spin_defs, erule wp_mono, simp)
qed

section \<open>Sample runs\<close>

text \<open>A queue of two items with one item at the end of the array, and a callback at address \<open>0x400\<close> that raises the low water mark of the
  queue on a push and unregisters itself at the low water mark.\<close>

definition sample_dq :: rt_data_queue where
  "sample_dq = \<lparr>dq_magic = DATAQUEUE_MAGIC, dq_size = 2, dq_lwm = 0, dq_get_index = 1, dq_is_empty = False, dq_put_index = 0,
     dq_is_full = False, dq_queue = [(0, 0), (0x2000, 8)], dq_evt_notify = 0x400\<rparr>"

definition sample_notify :: dq_notify where
  "sample_notify f event = (\<lambda>(dq, k).
     if f = 0x400 \<and> event = RT_DATAQUEUE_EVENT_PUSH then Some (dq\<lparr>dq_lwm := 1\<rparr>, k)
     else if f = 0x400 \<and> event = RT_DATAQUEUE_EVENT_LWM then Some (dq\<lparr>dq_evt_notify := 0\<rparr>, k) else None)"

lemma sample_dq_facts:
  "dq_wf sample_dq" "dq_items sample_dq = [(0x2000, 8)]" "dq_magic sample_dq = DATAQUEUE_MAGIC" "unat (dq_size sample_dq) = 2"
  "dq_lwm sample_dq = 0" "dq_evt_notify sample_dq = 0x400" "kok (Suc (Suc 6)) sample_block" "rt_current_thread sample_block \<noteq> None"
proof -
  have "dq_count sample_dq = 1" by (simp add: sample_dq_def dq_count_def)
  then show "dq_items sample_dq = [(0x2000, 8)]" by (simp add: dq_items_def cyc_def slot_def) (simp add: sample_dq_def)
qed (use kok_sample_block in \<open>simp_all add: sample_dq_def dq_wf_def\<close>)

theorem rt_data_queue_push_correct_witness:
  "wp (rt_data_queue_push sample_notify 7 (0x3000, 4) 5 sample_dq sample_block) (\<lambda>(out, dq', k'). out = Returned RT_EOK \<and>
     dq_lwm dq' = 1 \<and> dq_items dq' = [(0x2000, 8), (0x3000, 4)])"
proof -
  have "dq_items (dq\<lparr>dq_lwm := x\<rparr>) = dq_items dq" for dq x by (simp add: dq_items_def dq_count_def)
  moreover have "tlists sample_block (DqPopL 7) = []" by (simp add: sample_kernel_def zero_kernel_def)
  ultimately show ?thesis
    using rt_data_queue_push_correct [OF sample_dq_facts(7,8,1,3), of 5 2 7 "(0x3000, 4)" sample_notify] may_block_sample sample_dq_facts(2,4,6)
    by (auto simp: sample_notify_def)
qed

theorem rt_data_queue_pop_correct_witness:
  "wp (rt_data_queue_pop sample_notify 7 5 sample_dq sample_block) (\<lambda>(out, dq', k'). out = Returned (RT_EOK, Some (0x2000, 8)) \<and>
     dq_evt_notify dq' = 0)"
  using rt_data_queue_pop_correct [OF sample_dq_facts(7,8,1,3), where timeout = 5 and t = 2 and q = 7 and notify = sample_notify]
    may_block_sample sample_dq_facts(2,5,6)
  by (auto simp: sample_notify_def)

end
