(* ===== verification/Spec2Isabelle.thy ===== *)
theory Spec2Isabelle
  imports RT_List Semaphore Event Ring_Buffer Mailbox MsgQueue MemPool Idle DataQueue
begin

text \<open>
  \<^bold>\<open>The RT-Thread kernel.\<close> The repository holds the RT-Thread real-time operating system with demo
  applications for Arm virtual hardware. This development models the kernel
  (\<^verbatim>\<open>src/rt-thread/src\<close>) and the ring buffer and the data queue of its device layer in the configuration of
  \<^verbatim>\<open>bsp/arm/AVH-FVP_MPS2_Cortex-M85/rtconfig.h\<close>: one processor, 32 priorities, soft
  timers, no signals, context assertions enabled, no hooks registered.

  \<^bold>\<open>The parts and how they interact.\<close> Every kernel object is registered in a container by class and name
  (\<^verbatim>\<open>object.c\<close>). Threads are linked by intrusive lists (\<^verbatim>\<open>rtservice.h\<close>) into the ready
  table of the scheduler (\<^verbatim>\<open>scheduler_up.c\<close>, \<^verbatim>\<open>scheduler_comm.c\<close>, which finds the highest
  priority with \<^verbatim>\<open>__rt_ffs\<close> of \<^verbatim>\<open>kservice.c\<close>) or into the suspend list of the object they wait
  for (\<^verbatim>\<open>ipc.c\<close>). A wait with a timeout starts the timer of the thread (\<^verbatim>\<open>timer.c\<close>), whose
  expiry wakes it with an error (\<^verbatim>\<open>_thread_timeout\<close> of \<^verbatim>\<open>thread.c\<close>). Semaphores, events,
  mailboxes, message queues and mutexes are the sections of \<^verbatim>\<open>ipc.c\<close>. On one processor their
  spinlocks are scheduler locks (\<^verbatim>\<open>cpu_up.c\<close>). Memory heaps (\<^verbatim>\<open>memheap.c\<close>) hand out blocks of a pool,
  each behind a header in the pool itself, under the protection of a semaphore; one of them, protected by a mutex instead,
  is the system heap behind \<^verbatim>\<open>rt_malloc\<close> (\<^verbatim>\<open>kservice.c\<close>). Memory pools (\<^verbatim>\<open>mempool.c\<close>) hand out blocks of one size,
  and a thread may wait for one. The tick interrupt (\<^verbatim>\<open>clock.c\<close>) drives time slices and timers. A thread that ends waits in the
  queue of defunct threads until the idle thread (\<^verbatim>\<open>idle.c\<close>), which runs when no other thread is ready, removes its object and
  gives its stack back to the system heap.

  \<^bold>\<open>The model.\<close> The state is the record \<open>kernel\<close> of theory \<open>Kernel_State\<close>: one field per global variable of
  the kernel, a map from identifiers to structures for each kind of object, and the thread lists by their
  head. Threads, timers and IPC objects are the structures of \<^verbatim>\<open>rtdef.h\<close> as records. An operation is
  a function of the state to \<open>option\<close>: \<open>None\<close> is a violated \<^verbatim>\<open>RT_ASSERT\<close>, a null
  dereference, an access outside an array or a loop that does not end, so every theorem stated with
  \<open>wp\<close> says that none of these happens and that the operation returns. Error codes are returned
  as in C. Counters keep their width: ticks and timeouts are 32-bit words compared after wrapping
  subtraction, the entry counters 16-bit, the hold counter of a mutex and the status byte of a thread 8-bit words.
  A C function \<^verbatim>\<open>_foo\<close> is modelled by \<open>foo\<close>.

  The operations on memory work on the record \<open>world\<close>: the kernel, the control blocks of the memory heaps, and the
  memory itself, a partial map from word-aligned addresses to words. The headers of the blocks and the free list are
  words of that memory, read and written as the C code does; an access outside of the memory is \<open>None\<close>.

  A call that blocks has two outcomes: \<open>Returned r\<close>, or \<open>Waiting\<close> when the processor has been given to another
  thread. What it does when its thread runs again is a definition of its own (\<open>sem_take_end\<close>,
  \<open>event_recv_end\<close>, \<open>mutex_take_end\<close>, the phase \<open>Resume\<close> of \<open>ipc_wait\<close>), so that
  anything may happen in between.

  \<^bold>\<open>Theories.\<close>
  \<^item> \<open>RT_Prelude\<close>: constants, word lemmas, the rules of \<open>wp\<close>. \<open>RT_Ffs\<close>: the two variants of
    \<^verbatim>\<open>__rt_ffs\<close>, shown equal to the position of the least significant set bit (where \<^verbatim>\<open>RT_USING_CPU_FFS\<close> is set, the port
    replaces them by an instruction with the same contract). \<open>RT_List\<close>: the pointer level
    of \<^verbatim>\<open>rt_list_t\<close>, shown to implement the lists used everywhere else. \<open>KString\<close>:
    the string functions of \<^verbatim>\<open>kstring.c\<close>.
  \<^item> \<open>Kernel_State\<close>: the data model. \<open>Scheduler_UP\<close>, \<open>Kernel_Inv\<close>: the scheduler and its
    invariant \<open>kinv\<close>; \<^verbatim>\<open>rt_schedule\<close> picks a thread that no ready thread outranks.
    \<open>Kernel_Object\<close>: registration and lookup.
  \<^item> \<open>Timer_Core\<close>: starting and stopping timers; the timer list stays ordered across the wrap
    of the tick counter. \<open>Scheduler_Comm\<close>: making threads ready, time slices, changing priorities.
    \<open>Suspend_List\<close>: waking and queueing, and \<open>kok\<close>, the invariant that the IPC proofs carry (\<open>kinv\<close>,
    consistent thread timers, and room in the nesting counter of the scheduler lock). \<open>Thread_Core\<close>:
    \<^verbatim>\<open>thread.c\<close>. \<open>Timer\<close>: expiry, shown to terminate and to handle exactly the timers that are due, and
    the timeout of threads. \<open>Clock\<close>: the tick interrupt, which composes the time slice with the expiry of timers.
  \<^item> \<open>Blocking\<close>: what all blocking calls do between finding their object unavailable and giving up the
    processor. \<open>Sem_Core\<close>, \<open>Semaphore\<close>: semaphores refine a counter with a queue of waiters.
    \<open>Event\<close>: events. \<open>Wait_Loop\<close>: the waiting loop that mailboxes and message queues share, which keeps the
    deadline of a waiter that is woken in vain. \<open>Mailbox\<close>, \<open>MsgQueue_Core\<close>, \<open>MsgQueue\<close>: mailboxes and
    message queues; the nodes of a message queue stay partitioned whatever the interleaving of its senders and
    receivers. \<open>Mutex_Core\<close>: the definitions of the mutex section; \<open>Mutex_Inherit\<close>: priorities pass along the chain
    of owners and the recomputation ends; \<open>Mutex\<close>: the invariant \<open>minv\<close> (owners, waiters and inherited priorities) and
    the mutex operations, which leave no priority inversion behind.
  \<^item> \<open>Thread_Life\<close>: sleeping and the end of threads, with the timers, the mutexes and the ready table involved; \<open>Idle\<close>: the hooks
    and the work of the idle thread, which empties the queue of defunct threads and releases their stacks, and the start of the idle thread, after which
    there is always a thread to switch to.
  \<^item> \<open>MemHeap_Core\<close>: memory and the definitions of \<^verbatim>\<open>memheap.c\<close>. \<open>MemHeap_Items\<close>: the headers in memory as
    doubly linked rings. \<open>MemHeap_Layout\<close>: the invariant \<open>heap_ok\<close> (the blocks tile the pool, the free ones are on the free
    list, no two neighbours are free, the counters agree) and the abstract heap, a list of block addresses with the list of the free
    ones. \<open>MemHeap_Init\<close>, \<open>MemHeap_Alloc\<close>, \<open>MemHeap_Free\<close>, \<open>MemHeap_Realloc\<close>, \<open>MemHeap_Resize\<close>: every operation keeps the
    invariant and refines the abstract operation; \<open>MemHeap\<close> adds the lock and what becomes of the data of the blocks.
  \<^item> \<open>System_Heap\<close>: \<^verbatim>\<open>rt_malloc\<close> and its relatives, the mutex operations composed with those of the heap;
    \<open>System_Alloc\<close>: cleared and aligned blocks. \<open>MemPool\<close>: the pools of equal blocks of \<^verbatim>\<open>mempool.c\<close>, whose free blocks
    are chained through their headers.
  \<^item> \<open>Bounded_Fifo\<close>: the locale of buffers with a capacity that keep the order of items, interpreted by the
    ring buffer (\<open>Ring_Buffer\<close>), by the mailbox and by the data queue of the device layer (\<open>DataQueue\<close>), whose operations block
    like those of the mailbox.

  \<^bold>\<open>Loops.\<close> Recursion over lists is structural. Loops whose end depends on the state (the expiry of timers, waking
  all waiters, the waiting loop, passing a priority along a chain of owners, emptying the queue of defunct threads) are partial functions in
  the option monad; the theorems about them show that they return. No fuel is used.

  \<^bold>\<open>Parameters.\<close> The answer of the allocator where a kernel object is created dynamically, the addresses that the
  linker gives to static objects, and the user's timeout functions, idle hooks, cleanup functions and notification callbacks: functions on the state, of which
  nothing is assumed. The theorems show when they are called, with which arguments and from which state, and that the operation goes on
  from whatever state they leave; what the rest of the operation then achieves is stated for the cases in which no such function is due,
  and for timers also when the function leaves the timers alone or stops its own timer.

  \<^bold>\<open>Not modelled.\<close> The register switch \<^verbatim>\<open>rt_hw_context_switch\<close> and the processor ports (assembly), stack
  contents and the overflow check, hooks and debug output, the release of the structure of a dynamic
  object by \<^verbatim>\<open>rt_object_delete\<close> (structures live in maps, not in the memory), the allocators that this configuration does not build (small memory,
  slab), signals and the multiprocessor scheduler (off in this configuration), the device framework other than the ring buffer and the data queue, file
  systems, network, shell and the boards.
\<close>

end
